(* ===== verification/GaOS_Prelude.thy ===== *)
theory GaOS_Prelude
  imports Main "HOL-Library.Word"
begin

text \<open>
  Shared vocabulary of the GaOS verification library: the machine integers of the
  kernel's C code, the outcomes a kernel routine can have besides returning, and the
  generic lemmas on words, lists and searches that the component theories use.

  A routine of the kernel that can fail is a function into \<open>'a res\<close>: \<open>Inr\<close> for a
  return, \<open>Inl\<close> for a call that never returns to its caller (a panic, an endless loop, a spin on a lock
  that nobody can release) or that leaves the behaviour the C standard defines
  (a null dereference, an access outside an array).
\<close>

unbundle bit_operations_syntax

type_synonym u8 = "8 word"
type_synonym u16 = "16 word"
type_synonym u32 = "32 word"
type_synonym u64 = "64 word"

text \<open>Memory as the kernel addresses it: 64-bit words (page tables, bitmaps) and bytes.\<close>

type_synonym mem64 = "u64 \<Rightarrow> u64"
type_synonym mem8 = "u64 \<Rightarrow> u8"

datatype kernel_error =
    Panic string
  | Deadlock
  | Null_Dereference
  | Out_Of_Bounds
  | Diverges

type_synonym 'a res = "kernel_error + 'a"

abbreviation PAGE :: u64 where
  "PAGE \<equiv> 4096"

named_theorems word_to_nat \<open>unat of word operations under no-overflow side conditions\<close>

subsection \<open>Words read as natural numbers\<close>

lemma unat_less_2p64: "unat (a :: u64) < 2 ^ 64"
  using unsigned_less [of a] by simp

lemma unat_less_2p32: "unat (a :: u32) < 2 ^ 32"
  using unsigned_less [of a] by simp

lemma unat_u32_u64: "unat (ucast (a :: u32) :: u64) = unat a"
  using unat_less_2p32 [of a] by (simp add: unsigned_ucast_eq take_bit_nat_eq_self)

lemma less_unat_2p64: "n < unat (a :: u64) \<Longrightarrow> n < 2 ^ 64"
  by (rule less_trans [OF _ unat_less_2p64])

lemma le_unat_2p64: "n \<le> unat (a :: u64) \<Longrightarrow> n < 2 ^ 64"
  by (rule le_less_trans [OF _ unat_less_2p64])

lemma unat_plus_exact [word_to_nat]:
  "unat (a :: u64) + unat b < 2 ^ 64 \<Longrightarrow> unat (a + b) = unat a + unat b"
  by (simp add: unat_word_ariths)

lemma unat_times_exact [word_to_nat]:
  "unat (a :: u64) * unat b < 2 ^ 64 \<Longrightarrow> unat (a * b) = unat a * unat b"
  by (simp add: unat_word_ariths)

lemma unat_minus_exact [word_to_nat]:
  "unat (b :: u64) \<le> unat a \<Longrightarrow> unat (a - b) = unat a - unat b"
  by (simp add: unat_sub word_le_nat_alt)

lemma unat_of_nat_exact [word_to_nat]:
  "n < 2 ^ 64 \<Longrightarrow> unat (of_nat n :: u64) = n"
  by (simp add: unat_of_nat take_bit_eq_mod)

lemma of_nat_u64_eq_iff:
  "m < 2 ^ 64 \<Longrightarrow> n < 2 ^ 64 \<Longrightarrow> (of_nat m :: u64) = of_nat n \<longleftrightarrow> m = n"
  by (metis unat_of_nat_exact)

lemma of_nat_u64_eq_0_iff: "n < 2 ^ 64 \<Longrightarrow> (of_nat n :: u64) = 0 \<longleftrightarrow> n = 0"
  using of_nat_u64_eq_iff [of n 0] by simp

lemma u64_eq_unat_iff: "(a :: u64) = b \<longleftrightarrow> unat a = unat b"
  by (simp add: word_unat_eq_iff)

text \<open>Distance from a base pointer: the offset of an address inside a block.\<close>

lemma unat_minus_wrap:
  "unat (a :: u64) < unat b \<Longrightarrow> unat (a - b) = 2 ^ 64 - unat b + unat a"
  using unat_less_2p64 [of b] by (simp add: unat_sub_if_size word_size word_le_nat_alt)

lemma unat_minus_less_iff:
  assumes "unat (b :: u64) + n \<le> 2 ^ 64"
  shows "unat (a - b) < n \<longleftrightarrow> unat b \<le> unat a \<and> unat a < unat b + n"
proof (cases "unat b \<le> unat a")
  case True
  then show ?thesis by (auto simp: unat_minus_exact)
next
  case False
  then have "unat (a - b) = 2 ^ 64 - unat b + unat a"
    by (simp add: unat_minus_wrap)
  then show ?thesis using False assms by auto
qed

subsection \<open>Rounding up\<close>

lemma round_up_eq:
  fixes x m :: nat
  assumes "0 < m"
  shows "x + (m - x mod m) = m * (x div m + 1)"
proof -
  have "x mod m < m" and "m * (x div m) + x mod m = x"
    using assms by simp_all
  then show ?thesis
    unfolding distrib_left mult_1_right by linarith
qed

subsection \<open>Searching the first index of a loop\<close>

text \<open>
  A counting loop that leaves at the first index passing a test is
  \<open>find P [lo..<hi]\<close>.
\<close>

lemma find_upt_Some_iff:
  "find P [lo..<hi] = Some i \<longleftrightarrow>
     lo \<le> i \<and> i < hi \<and> P i \<and> (\<forall>j. lo \<le> j \<longrightarrow> j < i \<longrightarrow> \<not> P j)"
proof (induction "hi - lo" arbitrary: lo)
  case 0
  then show ?case by auto
next
  case (Suc n)
  then have lt: "lo < hi" by simp
  have IH: "find P [Suc lo..<hi] = Some i \<longleftrightarrow>
     Suc lo \<le> i \<and> i < hi \<and> P i \<and> (\<forall>j. Suc lo \<le> j \<longrightarrow> j < i \<longrightarrow> \<not> P j)"
    using Suc by simp
  show ?case
  proof (cases "P lo")
    case True
    then show ?thesis using lt by (auto simp: upt_conv_Cons intro: le_antisym leI)
  next
    case False
    then have "find P [lo..<hi] = find P [Suc lo..<hi]"
      using lt by (simp add: upt_conv_Cons)
    then show ?thesis
      using IH False lt by (auto simp: Suc_le_eq) (metis le_neq_implies_less)+
  qed
qed

lemma find_upt_None_iff:
  "find P [lo..<hi] = None \<longleftrightarrow> (\<forall>i. lo \<le> i \<longrightarrow> i < hi \<longrightarrow> \<not> P i)"
  by (auto simp: find_None_iff)

subsection \<open>Loops whose body can fail\<close>

fun for_range :: "(nat \<Rightarrow> 's \<Rightarrow> 's res) \<Rightarrow> nat list \<Rightarrow> 's \<Rightarrow> 's res" where
  "for_range f [] s = Inr s"
| "for_range f (i # is) s = (case f i s of Inl e \<Rightarrow> Inl e | Inr s \<Rightarrow> for_range f is s)"

lemma for_range_inv:
  assumes "a \<le> b" "Q a s" "\<And>i s. a \<le> i \<Longrightarrow> i < b \<Longrightarrow> Q i s \<Longrightarrow> \<exists>s'. f i s = Inr s' \<and> Q (Suc i) s'"
  shows "\<exists>s'. for_range f [a..<b] s = Inr s' \<and> Q b s'"
  using assms
proof (induction "b - a" arbitrary: a s)
  case (Suc k)
  then obtain s1 where "f a s = Inr s1" "Q (Suc a) s1" by fastforce
  moreover have "\<exists>s'. for_range f [Suc a..<b] s1 = Inr s' \<and> Q b s'"
    by (rule Suc.hyps(1)) (use Suc.hyps(2) Suc.prems(3) calculation(2) in auto)
  ultimately show ?case using Suc.hyps(2) by (simp add: upt_conv_Cons)
qed simp

end
