(* ===== verification/Spinlock.thy ===== *)
theory Spinlock
  imports GaOS_Prelude
begin

text \<open>
  The spinlock of \<open>kernel/src/lock/spinlock.c\<close>, twice: as a concurrent protocol (an
  inductive step relation over any number of processors, one atomic test-and-set or clear
  per step) with mutual exclusion proved of every reachable state, and as the sequential
  operation the other components call, where finding the lock taken means spinning
  forever because no other processor is there to release it.
\<close>

subsection \<open>The lock word\<close>

text \<open>\<open>atomic_flag_test_and_set_explicit\<close>: the old value and the new lock word.\<close>

definition test_and_set :: "u64 \<Rightarrow> bool \<times> u64" where
  "test_and_set lock = (lock \<noteq> 0, 1)"

text \<open>One turn of the wait loop: count up, warn and restart the count at a hundred million.\<close>

definition spin_count :: "int \<Rightarrow> int" where
  "spin_count count = (let count = count + 1 in if count \<ge> 100000000 then 0 else count)"

text \<open>The acquire loop with fuel: \<open>None\<close> while it is still spinning.\<close>

fun spinlock_spin :: "nat \<Rightarrow> u64 \<Rightarrow> int \<Rightarrow> u64 option" where
  "spinlock_spin 0 lock count = None"
| "spinlock_spin (Suc fuel) lock count =
     (let (taken, lock') = test_and_set lock
      in if taken then spinlock_spin fuel lock' (spin_count count) else Some lock')"

text \<open>What a caller with no concurrent holder sees of \<open>spinlock_acquire\<close>.\<close>

definition spinlock_acquire :: "u64 \<Rightarrow> u64 res" where
  "spinlock_acquire lock =
     (let (taken, lock') = test_and_set lock in if taken then Inl Deadlock else Inr lock')"

definition spinlock_release :: "u64 \<Rightarrow> u64" where
  "spinlock_release lock = 0"

subsection \<open>The protocol between processors\<close>

datatype cpu_pc =
    Outside
  | Spinning int \<comment> \<open>inside \<open>spinlock_acquire\<close>, with its \<open>count\<close>\<close>
  | Holding

record lock_sys =
  lock_word :: u64
  cpu_pc :: "nat \<Rightarrow> cpu_pc"

definition lock_sys_init :: lock_sys where
  "lock_sys_init = \<lparr>lock_word = 0, cpu_pc = (\<lambda>_. Outside)\<rparr>"

inductive lock_step :: "lock_sys \<Rightarrow> lock_sys \<Rightarrow> bool" where
  call_acquire:
    "cpu_pc s i = Outside \<Longrightarrow> lock_step s (s\<lparr>cpu_pc := (cpu_pc s)(i := Spinning 0)\<rparr>)"
| acquired:
    "cpu_pc s i = Spinning c \<Longrightarrow> test_and_set (lock_word s) = (False, w) \<Longrightarrow>
     lock_step s (s\<lparr>lock_word := w, cpu_pc := (cpu_pc s)(i := Holding)\<rparr>)"
| spin:
    "cpu_pc s i = Spinning c \<Longrightarrow> test_and_set (lock_word s) = (True, w) \<Longrightarrow>
     lock_step s (s\<lparr>lock_word := w, cpu_pc := (cpu_pc s)(i := Spinning (spin_count c))\<rparr>)"
| release:
    "cpu_pc s i = Holding \<Longrightarrow>
     lock_step s (s\<lparr>lock_word := spinlock_release (lock_word s),
                    cpu_pc := (cpu_pc s)(i := Outside)\<rparr>)"

inductive lock_reachable :: "lock_sys \<Rightarrow> bool" where
  start: "lock_reachable lock_sys_init"
| step: "lock_reachable s \<Longrightarrow> lock_step s t \<Longrightarrow> lock_reachable t"

text \<open>The lock word is set exactly while some processor holds the lock, and one holds it.\<close>

definition lock_inv :: "lock_sys \<Rightarrow> bool" where
  "lock_inv s \<longleftrightarrow>
     (lock_word s \<noteq> 0 \<longleftrightarrow> (\<exists>i. cpu_pc s i = Holding)) \<and>
     (\<forall>i j. cpu_pc s i = Holding \<longrightarrow> cpu_pc s j = Holding \<longrightarrow> i = j) \<and>
     (\<forall>i c. cpu_pc s i = Spinning c \<longrightarrow> 0 \<le> c \<and> c < 100000000)"

subsection \<open>Lemmas\<close>

lemma test_and_set_simps [simp]:
  "test_and_set 0 = (False, 1)"
  "w \<noteq> 0 \<Longrightarrow> test_and_set w = (True, 1)"
  by (simp_all add: test_and_set_def)

lemma spinlock_acquire_free [simp]: "spinlock_acquire 0 = Inr 1"
  by (simp add: spinlock_acquire_def)

lemma spinlock_acquire_taken [simp]: "w \<noteq> 0 \<Longrightarrow> spinlock_acquire w = Inl Deadlock"
  by (simp add: spinlock_acquire_def)

lemma spinlock_release_eq [simp]: "spinlock_release w = 0"
  by (simp add: spinlock_release_def)

lemma spin_count_bounds: "0 \<le> c \<Longrightarrow> 0 \<le> spin_count c \<and> spin_count c < 100000000"
  by (simp add: spin_count_def Let_def)

lemma spinlock_spin_taken: "w \<noteq> 0 \<Longrightarrow> spinlock_spin fuel w c = None"
  by (induction fuel arbitrary: w c) (simp_all add: test_and_set_def)

lemma lock_inv_init: "lock_inv lock_sys_init"
  by (simp add: lock_inv_def lock_sys_init_def)

lemma lock_step_inv: "lock_step s t \<Longrightarrow> lock_inv s \<Longrightarrow> lock_inv t"
proof (induction rule: lock_step.induct)
  case (call_acquire s i)
  then show ?case by (auto simp: lock_inv_def split: if_splits) (metis cpu_pc.distinct(3))+
next
  case (acquired s i c w)
  then have "lock_word s = 0" and "w = 1"
    by (auto simp: test_and_set_def)
  with acquired show ?case by (auto simp: lock_inv_def)
next
  case (spin s i c w)
  then have "lock_word s \<noteq> 0" and "w = 1"
    by (auto simp: test_and_set_def)
  moreover have "0 \<le> spin_count c \<and> spin_count c < 100000000"
    using spin by (intro spin_count_bounds) (auto simp: lock_inv_def)
  ultimately show ?case
    using spin by (auto simp: lock_inv_def split: if_splits) (metis cpu_pc.distinct(5))+
next
  case (release s i)
  then show ?case by (auto simp: lock_inv_def)
qed

lemma lock_reachable_inv: "lock_reachable s \<Longrightarrow> lock_inv s"
  by (induction rule: lock_reachable.induct) (auto intro: lock_inv_init lock_step_inv)

subsection \<open>Properties\<close>

text \<open>
  (C18) Mutual exclusion: in every state the processors can reach by calling acquire, testing
  and setting, spinning and releasing in any interleaving, two processors that are between
  acquire and release are the same one, and the lock word is set exactly while there is one.
\<close>

theorem spinlock_mutual_exclusion:
  assumes "lock_reachable s"
  shows "(\<forall>i j. cpu_pc s i = Holding \<longrightarrow> cpu_pc s j = Holding \<longrightarrow> i = j) \<and>
     (lock_word s \<noteq> 0 \<longleftrightarrow> (\<exists>i. cpu_pc s i = Holding))"
  using lock_reachable_inv [OF assms] by (simp add: lock_inv_def)

text \<open>Two processors contend: one acquires, the other spins once.\<close>

definition contended :: lock_sys where
  "contended = \<lparr>lock_word = 1, cpu_pc = (\<lambda>_. Outside)(0 := Holding, 1 := Spinning 1)\<rparr>"

lemma contended_reachable: "lock_reachable contended"
proof -
  define s1 where "s1 = lock_sys_init\<lparr>cpu_pc := (cpu_pc lock_sys_init)(0 := Spinning 0)\<rparr>"
  define s2 where "s2 = s1\<lparr>lock_word := 1, cpu_pc := (cpu_pc s1)(0 := Holding)\<rparr>"
  define s3 where "s3 = s2\<lparr>cpu_pc := (cpu_pc s2)(1 := Spinning 0)\<rparr>"
  define s4 where "s4 = s3\<lparr>lock_word := 1, cpu_pc := (cpu_pc s3)(1 := Spinning (spin_count 0))\<rparr>"
  have "lock_step lock_sys_init s1"
    unfolding s1_def by (intro lock_step.call_acquire) (simp add: lock_sys_init_def)
  then have "lock_reachable s1" by (rule lock_reachable.step [OF start])
  moreover have "lock_step s1 s2"
    unfolding s2_def by (intro lock_step.acquired [where c = 0]) (simp_all add: s1_def lock_sys_init_def)
  ultimately have "lock_reachable s2" by (rule lock_reachable.step)
  moreover have "lock_step s2 s3"
    unfolding s3_def by (intro lock_step.call_acquire) (simp add: s2_def s1_def lock_sys_init_def)
  ultimately have "lock_reachable s3" by (rule lock_reachable.step)
  moreover have "lock_step s3 s4"
    unfolding s4_def by (intro lock_step.spin) (simp_all add: s3_def s2_def)
  ultimately have "lock_reachable s4" by (rule lock_reachable.step)
  then show ?thesis
    by (simp add: s4_def s3_def s2_def s1_def contended_def lock_sys_init_def spin_count_def)
qed

theorem spinlock_mutual_exclusion_witness:
  "lock_reachable contended \<and> {j. cpu_pc contended j = Holding} = {0} \<and> lock_word contended \<noteq> 0"
proof -
  have "cpu_pc contended 0 = Holding" by (simp add: contended_def)
  then show ?thesis
    using spinlock_mutual_exclusion [OF contended_reachable] contended_reachable by blast
qed

text \<open>
  The acquire loop returns exactly when the lock is free, at its first turn and with the
  lock set; with nobody to release a taken lock it spins whatever the fuel, which is
  what the sequential \<open>spinlock_acquire\<close> reports as a deadlock.
\<close>

theorem spinlock_spin_returns_iff:
  "(\<exists>fuel. spinlock_spin fuel lock count = Some lock') \<longleftrightarrow> spinlock_acquire lock = Inr lock'"
proof (cases "lock = 0")
  case True
  have "spinlock_spin fuel 0 count = (if fuel = 0 then None else Some 1)" for fuel
    by (cases fuel) simp_all
  then show ?thesis using True by auto
next
  case False
  then show ?thesis by (simp add: spinlock_spin_taken)
qed

end
