(* ===== verification/Frame_Interface.thy ===== *)
theory Frame_Interface
  imports GaOS_Prelude
begin

text \<open>
  What the kernel's page allocator promises its clients, as a locale: an allocation hands
  out pages nobody holds, the caller owns them afterwards, and giving back what one owns
  returns exactly those pages. Clients (page tables, the block allocator, task creation)
  rely on these laws only. The page allocator interprets the locale on its own operations.
\<close>

text \<open>The start addresses of \<open>n\<close> consecutive pages.\<close>

definition frame_block :: "u64 \<Rightarrow> nat \<Rightarrow> nat set" where
  "frame_block base n = (\<lambda>k. unat base + 4096 * k) ` {..<n}"

text \<open>A request for no page is a request for one.\<close>

definition at_least_one :: "u64 \<Rightarrow> u64" where
  "at_least_one pages = (if pages = 0 then 1 else pages)"

lemma at_least_one_pos: "0 < unat (at_least_one pages)"
  by (simp add: at_least_one_def unat_gt_0)

text \<open>A sequence of allocations, as the kernel's initialisation makes them.\<close>

fun alloc_many ::
  "(u64 \<Rightarrow> 's \<Rightarrow> (u64 \<times> 's) res) \<Rightarrow> u64 list \<Rightarrow> 's \<Rightarrow> (nat set list \<times> 's) res" where
  "alloc_many alloc [] s = Inr ([], s)"
| "alloc_many alloc (n # ns) s =
     (case alloc n s of
        Inl e \<Rightarrow> Inl e
      | Inr (p, s1) \<Rightarrow>
          (case alloc_many alloc ns s1 of
             Inl e \<Rightarrow> Inl e
           | Inr (bs, s2) \<Rightarrow> Inr (frame_block p (unat (at_least_one n)) # bs, s2)))"

locale frame_allocator =
  fixes inv :: "'s \<Rightarrow> bool"
    and held :: "'s \<Rightarrow> nat set"
    and owned :: "'s \<Rightarrow> u64 \<Rightarrow> u64 \<Rightarrow> bool"
    and alloc :: "u64 \<Rightarrow> 's \<Rightarrow> (u64 \<times> 's) res"
    and free :: "u64 \<Rightarrow> u64 \<Rightarrow> 's \<Rightarrow> 's res"
  assumes alloc_inv: "inv s \<Longrightarrow> alloc n s = Inr (p, s') \<Longrightarrow> inv s'"
    and alloc_held: "inv s \<Longrightarrow> alloc n s = Inr (p, s') \<Longrightarrow>
          held s' = held s \<union> frame_block p (unat (at_least_one n))"
    and alloc_fresh: "inv s \<Longrightarrow> alloc n s = Inr (p, s') \<Longrightarrow>
          held s \<inter> frame_block p (unat (at_least_one n)) = {}"
    and alloc_owned: "inv s \<Longrightarrow> alloc n s = Inr (p, s') \<Longrightarrow> owned s' p (at_least_one n)"
    and free_owned: "inv s \<Longrightarrow> owned s p n \<Longrightarrow>
          \<exists>s'. free p n s = Inr s' \<and> inv s' \<and> held s' = held s - frame_block p (unat n)"
begin

lemma alloc_free_roundtrip:
  assumes "inv s" "alloc n s = Inr (p, s')"
  shows "\<exists>s''. free p (at_least_one n) s' = Inr s'' \<and> inv s'' \<and> held s'' = held s"
proof -
  obtain s'' where "free p (at_least_one n) s' = Inr s''" "inv s''"
    "held s'' = held s' - frame_block p (unat (at_least_one n))"
    using free_owned [OF alloc_inv alloc_owned] assms by metis
  moreover have "held s' - frame_block p (unat (at_least_one n)) = held s"
    using alloc_held [OF assms] alloc_fresh [OF assms] by blast
  ultimately show ?thesis by simp
qed

lemma alloc_many_disjoint:
  "inv s \<Longrightarrow> alloc_many alloc ns s = Inr (bs, s') \<Longrightarrow>
     inv s' \<and> held s' = held s \<union> \<Union> (set bs) \<and> length bs = length ns \<and>
     (\<forall>b \<in> set bs. held s \<inter> b = {}) \<and> sorted_wrt (\<lambda>a b. a \<inter> b = {}) bs"
proof (induction ns arbitrary: s bs)
  case Nil
  then show ?case by simp
next
  case (Cons n ns)
  obtain p s1 bs1 where a: "alloc n s = Inr (p, s1)"
    and r: "alloc_many alloc ns s1 = Inr (bs1, s')"
    and bs: "bs = frame_block p (unat (at_least_one n)) # bs1"
    using Cons.prems(2) by (auto split: sum.splits)
  note h = alloc_held [OF Cons.prems(1) a] alloc_fresh [OF Cons.prems(1) a]
  from Cons.IH [OF alloc_inv [OF Cons.prems(1) a] r] show ?case
    unfolding bs h(1) using h(2) by (auto simp: Int_Un_distrib2)
qed

end

text \<open>
  The same allocator seen through the memory: pages are aligned and inside the address
  space, a new block reads as zero, and the contents of pages held before are kept.
\<close>

locale zeroing_frame_allocator = frame_allocator +
  fixes read :: "'a \<Rightarrow> u64 \<Rightarrow> u64"
  assumes held_page: "inv s \<Longrightarrow> f \<in> held s \<Longrightarrow> 0 < f \<and> 4096 dvd f \<and> f + 4096 < 2 ^ 64"
    and alloc_zero: "inv s \<Longrightarrow> alloc n s = Inr (p, s') \<Longrightarrow>
          unat a - unat p < 4096 * unat (at_least_one n) \<Longrightarrow> unat p \<le> unat a \<Longrightarrow> read s' a = 0"
    and alloc_keeps: "inv s \<Longrightarrow> alloc n s = Inr (p, s') \<Longrightarrow> f \<in> held s \<Longrightarrow>
          f \<le> unat a \<Longrightarrow> unat a < f + 4096 \<Longrightarrow> read s' a = read s a"
begin

lemma alloc_one:
  assumes "inv s" "alloc 1 s = Inr (p, s')"
  shows "held s' = insert (unat p) (held s)" "unat p \<notin> held s"
  using alloc_held [OF assms] alloc_fresh [OF assms]
  by (simp_all add: frame_block_def at_least_one_def lessThan_Suc)

lemma held_slot:
  fixes l i :: u64
  assumes "inv s" "unat l \<in> held s" "unat i < 512"
  shows "unat (l + 8 * i) = unat l + 8 * unat i"
proof -
  have "unat (8 * i) = 8 * unat i" using assms(3) by (subst unat_times_exact) simp_all
  then show ?thesis
    using held_page [OF assms(1,2)] assms(3) by (subst unat_plus_exact) simp_all
qed

lemma slot_eq_iff:
  fixes l i k j :: u64
  assumes "inv s" "unat l \<in> held s" "unat i < 512" "unat k \<in> held s" "unat j < 512"
  shows "l + 8 * i = k + 8 * j \<longleftrightarrow> l = k \<and> i = j"
proof -
  obtain a b where ab: "unat l = 4096 * a" "unat k = 4096 * b"
    using held_page [OF assms(1)] assms(2,4) by (meson dvd_def)
  have "a = b" if "4096 * a + 8 * unat i = 4096 * b + 8 * unat j"
    using that assms(3,5) by linarith
  then have "4096 * a + 8 * unat i = 4096 * b + 8 * unat j \<longleftrightarrow> a = b \<and> unat i = unat j"
    by auto
  then show ?thesis
    unfolding u64_eq_unat_iff held_slot [OF assms(1-3)] held_slot [OF assms(1,4,5)] by (simp add: ab)
qed

lemma alloc_keeps_slot:
  assumes "inv s" "alloc n s = Inr (p, s')" "unat l \<in> held s" "unat i < 512"
  shows "read s' (l + 8 * i) = read s (l + 8 * i)"
  using alloc_keeps [OF assms(1-3)] held_slot [OF assms(1,3,4)] assms(4) by simp

lemma alloc_zero_slot:
  assumes "inv s" "alloc 1 s = Inr (p, s')" "unat i < 512"
  shows "read s' (p + 8 * i) = 0"
proof (rule alloc_zero [OF assms(1,2)])
  have "unat p \<in> held s'" using alloc_one [OF assms(1,2)] by simp
  note * = held_slot [OF alloc_inv [OF assms(1,2)] this assms(3)]
  show "unat (p + 8 * i) - unat p < 4096 * unat (at_least_one 1)" "unat p \<le> unat (p + 8 * i)"
    using * assms(3) by (simp_all add: at_least_one_def)
qed

end

end
