(* ===== verification/Page_Allocator.thy ===== *)
theory Page_Allocator
  imports Spinlock Frame_Interface
begin

text \<open>
  The physical page allocator of \<open>kernel/src/memory/physical/page_allocator.c\<close>.

  A pool manages one usable region of the boot memory map: the region starts with a bitmap
  (one bit per page) and the pages handed out follow it. The state is the memory the
  bitmaps and pages live in, the array of pools filled so far and the allocator's lock.
  Memory is addressed in 64-bit words here because every access of this file is an aligned
  64-bit one; the invariant says that the bases are aligned.
\<close>

subsection \<open>State\<close>

datatype memmap_type = MEMMAP_USABLE | MEMMAP_EXECUTABLE_AND_MODULES | MEMMAP_OTHER

record memmap_entry =
  entry_base :: u64
  entry_length :: u64
  entry_type :: memmap_type

record pool =
  allocate_base :: u64
  bitmap_base :: u64
  used :: u64
  available :: u64
  total :: u64
  bitmap_entries :: u64
  last_allocated_page_index :: u64

record page_state =
  memory :: mem64
  allocator_pools :: "pool list"
  page_allocator_lock :: u64
  kernel_hhdm_offset :: u64

subsection \<open>Memory helpers\<close>

definition zero64 :: "mem64 \<Rightarrow> u64 \<Rightarrow> u64 \<Rightarrow> mem64" where
  "zero64 m s n = fold (\<lambda>i m. m(s + 8 * of_nat i := 0)) [0..<unat (n div 8)] m"

definition arch_zero_pages :: "mem64 \<Rightarrow> u64 \<Rightarrow> u64 \<Rightarrow> mem64" where
  "arch_zero_pages m ptr cnt = (\<lambda>a. if unat (a - ptr) < 4096 * unat cnt then 0 else m a)"

text \<open>\<open>memcpy\<close> on word-aligned buffers, ascending as the byte loop is.\<close>

definition memcpy64 :: "mem64 \<Rightarrow> u64 \<Rightarrow> u64 \<Rightarrow> u64 \<Rightarrow> mem64" where
  "memcpy64 m dest src n =
     fold (\<lambda>i m. m(dest + 8 * of_nat i := m (src + 8 * of_nat i))) [0..<unat (n div 8)] m"

subsection \<open>Bitmaps\<close>

definition bitmap_set :: "mem64 \<Rightarrow> u64 \<Rightarrow> u64 \<Rightarrow> mem64" where
  "bitmap_set m bitmap index =
     (let byte_offset = index div 64; b = index mod 64; mask = push_bit (unat b) 1;
          pointer = bitmap + 8 * byte_offset
      in m(pointer := m pointer OR mask))"

definition bitmap_unset :: "mem64 \<Rightarrow> u64 \<Rightarrow> u64 \<Rightarrow> mem64" where
  "bitmap_unset m bitmap index =
     (let byte_offset = index div 64; b = index mod 64; mask = push_bit (unat b) 1;
          pointer = bitmap + 8 * byte_offset
      in m(pointer := m pointer AND NOT mask))"

definition bitmap_get :: "mem64 \<Rightarrow> u64 \<Rightarrow> u64 \<Rightarrow> u64" where
  "bitmap_get m bitmap index =
     (let byte_offset = index div 64; b = index mod 64; mask = push_bit (unat b) 1;
          pointer = bitmap + 8 * byte_offset
      in m pointer AND mask)"

subsection \<open>Initialisation\<close>

definition required_bitmap_bytes :: "u64 \<Rightarrow> u64" where
  "required_bitmap_bytes len =
     (let n = len div PAGE div 8
      in if n mod PAGE \<noteq> 0 then n + (PAGE - n mod PAGE) else n)"

definition pool_of_entry :: "u64 \<Rightarrow> memmap_entry \<Rightarrow> pool" where
  "pool_of_entry hhdm entry =
     (let required = required_bitmap_bytes (entry_length entry)
      in \<lparr>allocate_base = entry_base entry + required + hhdm,
          bitmap_base = entry_base entry + hhdm,
          used = 0,
          available = entry_length entry - required,
          total = entry_length entry - required,
          bitmap_entries = entry_length entry div PAGE,
          last_allocated_page_index = 0\<rparr>)"

text \<open>Regions the allocator takes: usable ones larger than 128 KB.\<close>

definition entry_taken :: "memmap_entry \<Rightarrow> bool" where
  "entry_taken entry \<longleftrightarrow>
     entry_type entry = MEMMAP_USABLE \<and> \<not> entry_length entry \<le> 128 * 1024"

text \<open>
  One turn of the loop over the memory map. The array \<open>allocator_pools\<close> has 128 slots and
  the code does not check the index: the 129th region is a write outside the array.
\<close>

definition create_pool :: "memmap_entry \<Rightarrow> 'a page_state_scheme \<Rightarrow> 'a page_state_scheme res" where
  "create_pool entry s =
     (if \<not> entry_taken entry then Inr s
      else if length (allocator_pools s) \<ge> 128 then Inl Out_Of_Bounds
      else let pool = pool_of_entry (kernel_hhdm_offset s) entry;
               required = required_bitmap_bytes (entry_length entry)
           in Inr (s\<lparr>allocator_pools := allocator_pools s @ [pool],
                     memory := zero64 (memory s) (bitmap_base pool) required\<rparr>))"

fun page_allocator_create_pools ::
  "memmap_entry list \<Rightarrow> 'a page_state_scheme \<Rightarrow> 'a page_state_scheme res" where
  "page_allocator_create_pools [] s = Inr s"
| "page_allocator_create_pools (entry # entries) s =
     (case create_pool entry s of
        Inl e \<Rightarrow> Inl e
      | Inr s' \<Rightarrow> page_allocator_create_pools entries s')"

text \<open>
  \<open>page_allocator_init\<close>: the pools of the memory map, and the megabytes it reports.
\<close>

definition page_allocator_init ::
  "memmap_entry list \<Rightarrow> 'a page_state_scheme \<Rightarrow> (u64 \<times> 'a page_state_scheme) res" where
  "page_allocator_init entries s =
     (case page_allocator_create_pools entries s of
        Inl e \<Rightarrow> Inl e
      | Inr s' \<Rightarrow>
          let total_ram = foldl (\<lambda>total_ram pool. total_ram + total pool) 0 (allocator_pools s')
          in Inr (total_ram div 1024 div 1024, s'))"

subsection \<open>Allocation\<close>

text \<open>The single-page path: the first pool with space and a clear bit at or after the hint.\<close>

fun page_scan_single :: "mem64 \<Rightarrow> pool list \<Rightarrow> (nat \<times> u64) option" where
  "page_scan_single m [] = None"
| "page_scan_single m (pool # pools) =
     (let next = map_option (\<lambda>(i, index). (Suc i, index)) (page_scan_single m pools)
      in if available pool < PAGE then next
         else case find (\<lambda>index. bitmap_get m (bitmap_base pool) (of_nat index) = 0)
                    [unat (last_allocated_page_index pool)..<unat (bitmap_entries pool)] of
                Some index \<Rightarrow> Some (0, of_nat index)
              | None \<Rightarrow> next)"

definition page_allocate_single_fast ::
  "'a page_state_scheme \<Rightarrow> (u64 \<times> 'a page_state_scheme) res" where
  "page_allocate_single_fast s =
     (case spinlock_acquire (page_allocator_lock s) of
        Inl e \<Rightarrow> Inl e
      | Inr lock \<Rightarrow>
          (case page_scan_single (memory s) (allocator_pools s) of
             None \<Rightarrow> Inl (Panic ''failed to allocate a page'')
           | Some (i, index) \<Rightarrow>
               let pool = allocator_pools s ! i;
                   m = bitmap_set (memory s) (bitmap_base pool) index;
                   pool' = pool\<lparr>used := used pool + PAGE,
                                available := available pool - PAGE,
                                last_allocated_page_index := index\<rparr>;
                   pointer = allocate_base pool + index * PAGE
               in Inr (pointer, s\<lparr>memory := arch_zero_pages m pointer 1,
                                  allocator_pools := (allocator_pools s)[i := pool'],
                                  page_allocator_lock := spinlock_release lock\<rparr>)))"

text \<open>The test of the general path at one index: clear, fits, and the whole run is clear.\<close>

definition run_free :: "mem64 \<Rightarrow> pool \<Rightarrow> u64 \<Rightarrow> u64 \<Rightarrow> bool" where
  "run_free m pool pages index \<longleftrightarrow>
     bitmap_get m (bitmap_base pool) index = 0 \<and>
     \<not> index + pages > bitmap_entries pool \<and>
     list_all (\<lambda>offset. bitmap_get m (bitmap_base pool) (of_nat offset + index) = 0)
       [0..<unat pages]"

fun page_scan :: "mem64 \<Rightarrow> u64 \<Rightarrow> u64 \<Rightarrow> pool list \<Rightarrow> (nat \<times> u64) option" where
  "page_scan m pages required_bytes [] = None"
| "page_scan m pages required_bytes (pool # pools) =
     (let next = map_option (\<lambda>(i, index). (Suc i, index)) (page_scan m pages required_bytes pools)
      in if available pool < required_bytes then next
         else case find (\<lambda>index. run_free m pool pages (of_nat index))
                    [unat (last_allocated_page_index pool)..<unat (bitmap_entries pool)] of
                Some index \<Rightarrow> Some (0, of_nat index)
              | None \<Rightarrow> next)"

definition bitmap_set_run :: "mem64 \<Rightarrow> u64 \<Rightarrow> u64 \<Rightarrow> u64 \<Rightarrow> mem64" where
  "bitmap_set_run m bitmap index pages =
     fold (\<lambda>offset m. bitmap_set m bitmap (of_nat offset + index)) [0..<unat pages] m"

definition page_allocate_multi ::
  "u64 \<Rightarrow> 'a page_state_scheme \<Rightarrow> (u64 \<times> 'a page_state_scheme) res" where
  "page_allocate_multi pages s =
     (case spinlock_acquire (page_allocator_lock s) of
        Inl e \<Rightarrow> Inl e
      | Inr lock \<Rightarrow>
          let required_bytes = pages * PAGE
          in (case page_scan (memory s) pages required_bytes (allocator_pools s) of
                None \<Rightarrow> Inl (Panic ''failed to allocate pages'')
              | Some (i, index) \<Rightarrow>
                  let pool = allocator_pools s ! i;
                      m = bitmap_set_run (memory s) (bitmap_base pool) index pages;
                      pool' = pool\<lparr>used := used pool + required_bytes,
                                   available := available pool - required_bytes,
                                   last_allocated_page_index := index\<rparr>;
                      pointer = allocate_base pool + index * PAGE
                  in Inr (pointer, s\<lparr>memory := arch_zero_pages m pointer pages,
                                     allocator_pools := (allocator_pools s)[i := pool'],
                                     page_allocator_lock := spinlock_release lock\<rparr>)))"

definition page_allocate ::
  "u64 \<Rightarrow> 'a page_state_scheme \<Rightarrow> (u64 \<times> 'a page_state_scheme) res" where
  "page_allocate pages s =
     (let pages = (if pages = 0 then 1 else pages)
      in if pages = 1 then page_allocate_single_fast s else page_allocate_multi pages s)"

subsection \<open>Deallocation, reallocation, statistics\<close>

definition pool_claims :: "u64 \<Rightarrow> pool \<Rightarrow> bool" where
  "pool_claims base pool \<longleftrightarrow>
     allocate_base pool \<le> base \<and> base \<le> allocate_base pool + total pool"

definition bitmap_unset_run :: "mem64 \<Rightarrow> u64 \<Rightarrow> u64 \<Rightarrow> u64 \<Rightarrow> mem64" where
  "bitmap_unset_run m bitmap index pages =
     fold (\<lambda>offset m. if bitmap_get m bitmap (index + of_nat offset) = 0 then m
                       else bitmap_unset m bitmap (index + of_nat offset)) [0..<unat pages] m"

definition page_deallocate ::
  "u64 \<Rightarrow> u64 \<Rightarrow> 'a page_state_scheme \<Rightarrow> 'a page_state_scheme res" where
  "page_deallocate base pages s =
     (case spinlock_acquire (page_allocator_lock s) of
        Inl e \<Rightarrow> Inl e
      | Inr lock \<Rightarrow>
          (case find (pool_claims base) (allocator_pools s) of
             Some pool \<Rightarrow>
               let index = (base - allocate_base pool) div PAGE
               in Inr (s\<lparr>memory := bitmap_unset_run (memory s) (bitmap_base pool) index pages,
                         page_allocator_lock := spinlock_release lock\<rparr>)
           | None \<Rightarrow> Inr (s\<lparr>page_allocator_lock := spinlock_release lock\<rparr>)))"

definition page_reallocate ::
  "u64 \<Rightarrow> u64 \<Rightarrow> u64 \<Rightarrow> 'a page_state_scheme \<Rightarrow> (u64 \<times> 'a page_state_scheme) res" where
  "page_reallocate base old_pages new_pages s =
     (case page_allocate new_pages s of
        Inl e \<Rightarrow> Inl e
      | Inr (new_base, s1) \<Rightarrow>
          let s2 = s1\<lparr>memory := memcpy64 (memory s1) new_base base (old_pages * PAGE)\<rparr>
          in (case page_deallocate base old_pages s2 of
                Inl e \<Rightarrow> Inl e
              | Inr s3 \<Rightarrow> Inr (new_base, s3)))"

definition page_count_free :: "'a page_state_scheme \<Rightarrow> u64" where
  "page_count_free s = foldl (\<lambda>free pool. free + available pool) 0 (allocator_pools s)"

definition page_count_used :: "'a page_state_scheme \<Rightarrow> u64" where
  "page_count_used s = foldl (\<lambda>u pool. u + used pool) 0 (allocator_pools s)"

definition page_count_total :: "'a page_state_scheme \<Rightarrow> u64" where
  "page_count_total s = foldl (\<lambda>t pool. t + total pool) 0 (allocator_pools s)"

subsection \<open>Bits of a bitmap\<close>

definition bitmap_bit :: "mem64 \<Rightarrow> u64 \<Rightarrow> nat \<Rightarrow> bool" where
  "bitmap_bit m bitmap i \<longleftrightarrow> bit (m (bitmap + of_nat (8 * (i div 64)))) (i mod 64)"

lemma bitmap_pointer: "(bitmap :: u64) + 8 * (index div 64) = bitmap + of_nat (8 * (unat index div 64))"
proof -
  have "unat index div 64 < 2 ^ 64"
    by (rule le_unat_2p64 [OF div_le_dividend])
  then have "unat (index div 64) = unat (of_nat (unat index div 64) :: u64)"
    by (simp add: unat_div unat_of_nat_exact)
  then have "index div 64 = of_nat (unat index div 64)"
    by (simp only: u64_eq_unat_iff)
  then show ?thesis by simp
qed

lemma unat_mod_64: "unat (index mod (64 :: u64)) = unat index mod 64"
  by (simp add: unat_mod)

lemma bitmap_get_iff: "bitmap_get m bitmap index = 0 \<longleftrightarrow> \<not> bitmap_bit m bitmap (unat index)"
  unfolding bitmap_get_def bitmap_bit_def Let_def bitmap_pointer unat_mod_64
    bit_iff_and_push_bit_not_eq_0 by simp

lemma bit_u64_power: "bit (2 ^ n :: u64) k \<longleftrightarrow> k = n \<and> n < 64"
  by (auto simp: bit_exp_iff possible_bit_def)

lemma bitmap_word_eq_iff:
  assumes "i < 2 ^ 64" "j < 2 ^ 64"
  shows "(bitmap :: u64) + of_nat (8 * (i div 64)) = bitmap + of_nat (8 * (j div 64))
     \<longleftrightarrow> i div 64 = j div 64"
proof -
  have "8 * (i div 64) < 2 ^ 64" "8 * (j div 64) < 2 ^ 64"
    using assms by simp_all
  then show ?thesis by (simp only: add_left_cancel of_nat_u64_eq_iff) simp
qed

lemma bitmap_bit_set:
  assumes "j < 2 ^ 64"
  shows "bitmap_bit (bitmap_set m bitmap index) bitmap j \<longleftrightarrow>
         j = unat index \<or> bitmap_bit m bitmap j"
proof (cases "j div 64 = unat index div 64")
  case True
  then have "j = unat index \<longleftrightarrow> j mod 64 = unat index mod 64"
    by (metis div_mult_mod_eq)
  then show ?thesis
    using True by (simp add: bitmap_bit_def bitmap_set_def bitmap_pointer unat_mod_64 Let_def
        bit_or_iff bit_u64_power)
      (auto)
next
  case False
  then show ?thesis
    using bitmap_word_eq_iff [OF assms unat_less_2p64, of bitmap index]
    by (auto simp: bitmap_bit_def bitmap_set_def bitmap_pointer Let_def)
qed

lemma bitmap_bit_unset:
  assumes "j < 2 ^ 64"
  shows "bitmap_bit (bitmap_unset m bitmap index) bitmap j \<longleftrightarrow>
         j \<noteq> unat index \<and> bitmap_bit m bitmap j"
proof (cases "j div 64 = unat index div 64")
  case True
  then have "j = unat index \<longleftrightarrow> j mod 64 = unat index mod 64"
    by (metis div_mult_mod_eq)
  then show ?thesis
    using True by (simp add: bitmap_bit_def bitmap_unset_def bitmap_pointer unat_mod_64 Let_def
        bit_and_iff bit_not_iff bit_u64_power)
      (auto)
next
  case False
  then show ?thesis
    using bitmap_word_eq_iff [OF assms unat_less_2p64, of bitmap index]
    by (auto simp: bitmap_bit_def bitmap_unset_def bitmap_pointer Let_def)
qed

text \<open>A store through the bitmap touches one word.\<close>

lemma bitmap_set_other:
  "a \<noteq> bitmap + of_nat (8 * (unat index div 64)) \<Longrightarrow> bitmap_set m bitmap index a = m a"
  by (simp add: bitmap_set_def bitmap_pointer Let_def)

lemma bitmap_unset_other:
  "a \<noteq> bitmap + of_nat (8 * (unat index div 64)) \<Longrightarrow> bitmap_unset m bitmap index a = m a"
  by (simp add: bitmap_unset_def bitmap_pointer Let_def)

lemma fold_upt_Suc: "fold f [0..<Suc n] m = f n (fold f [0..<n] m)"
  by simp

lemma unat_run_index:
  "unat (index :: u64) + n < 2 ^ 64 \<Longrightarrow> unat (of_nat n + index) = unat index + n"
  by (subst unat_plus_exact) (auto simp: unat_of_nat_exact)

lemma bitmap_bit_set_fold:
  assumes "j < 2 ^ 64" "unat index + n \<le> 2 ^ 64"
  shows "bitmap_bit (fold (\<lambda>offset m. bitmap_set m bitmap (of_nat offset + index)) [0..<n] m) bitmap j
     \<longleftrightarrow> (unat index \<le> j \<and> j < unat index + n) \<or> bitmap_bit m bitmap j"
  using assms(2)
proof (induction n)
  case 0
  then show ?case by auto
next
  case (Suc n)
  then have "unat (of_nat n + index) = unat index + n"
    by (intro unat_run_index) simp
  with Suc show ?case
    by (auto simp: bitmap_bit_set [OF assms(1)])
qed

lemma bitmap_set_fold_other:
  assumes "unat index + n \<le> 2 ^ 64"
    and "\<And>i. unat index \<le> i \<Longrightarrow> i < unat index + n \<Longrightarrow> a \<noteq> bitmap + of_nat (8 * (i div 64))"
  shows "fold (\<lambda>offset m. bitmap_set m bitmap (of_nat offset + index)) [0..<n] m a = m a"
  using assms
proof (induction n)
  case 0
  then show ?case by simp
next
  case (Suc n)
  then have "unat (of_nat n + index) = unat index + n"
    by (intro unat_run_index) simp
  with Suc show ?case
    by (simp add: bitmap_set_other)
qed

lemma bitmap_bit_unset_fold:
  assumes "j < 2 ^ 64" "unat index + n \<le> 2 ^ 64"
  shows "bitmap_bit (fold (\<lambda>offset m. if bitmap_get m bitmap (index + of_nat offset) = 0 then m
             else bitmap_unset m bitmap (index + of_nat offset)) [0..<n] m) bitmap j
     \<longleftrightarrow> \<not> (unat index \<le> j \<and> j < unat index + n) \<and> bitmap_bit m bitmap j"
  using assms(2)
proof (induction n)
  case 0
  then show ?case by simp
next
  case (Suc n)
  then have "unat (index + of_nat n) = unat index + n"
    using unat_run_index [of index n] by (simp add: add.commute)
  with Suc show ?case
    by (auto simp: bitmap_bit_unset [OF assms(1)] bitmap_get_iff less_Suc_eq)
qed

lemma bitmap_unset_fold_other:
  assumes "unat index + n \<le> 2 ^ 64"
    and "\<And>i. unat index \<le> i \<Longrightarrow> i < unat index + n \<Longrightarrow> a \<noteq> bitmap + of_nat (8 * (i div 64))"
  shows "fold (\<lambda>offset m. if bitmap_get m bitmap (index + of_nat offset) = 0 then m
             else bitmap_unset m bitmap (index + of_nat offset)) [0..<n] m a = m a"
  using assms
proof (induction n)
  case 0
  then show ?case by simp
next
  case (Suc n)
  then have "unat (index + of_nat n) = unat index + n"
    using unat_run_index [of index n] by (simp add: add.commute)
  with Suc show ?case
    by (simp add: bitmap_unset_other)
qed



subsection \<open>Well-formed pools\<close>

definition pool_static :: "pool \<Rightarrow> bool" where
  "pool_static p \<longleftrightarrow>
     8 dvd unat (bitmap_base p) \<and> 4096 dvd unat (allocate_base p) \<and> 0 < unat (bitmap_base p) \<and>
     unat (bitmap_base p) + 8 * ((unat (bitmap_entries p) + 63) div 64) \<le> unat (allocate_base p) \<and>
     unat (allocate_base p) + unat (total p) < 2 ^ 64 \<and>
     unat (total p) div 4096 \<le> unat (bitmap_entries p) \<and>
     unat (total p) + 4096 * unat (bitmap_entries p) < 2 ^ 64"

text \<open>
  The counters add up, and no page at or after the count of pages ever handed out is
  marked: this is what keeps every allocation inside the region although the bitmap has
  more entries than the region has pages left.
\<close>

definition pool_counts :: "mem64 \<Rightarrow> pool \<Rightarrow> bool" where
  "pool_counts m p \<longleftrightarrow>
     unat (used p) + unat (available p) = unat (total p) \<and> 4096 dvd unat (used p) \<and>
     4096 * unat (last_allocated_page_index p) \<le> unat (used p) \<and>
     (\<forall>i. unat (used p) \<le> 4096 * i \<longrightarrow> i < unat (bitmap_entries p) \<longrightarrow>
          \<not> bitmap_bit m (bitmap_base p) i)"

definition pool_lo :: "pool \<Rightarrow> nat" where
  "pool_lo p = unat (bitmap_base p)"

definition pool_hi :: "pool \<Rightarrow> nat" where
  "pool_hi p = unat (allocate_base p) + unat (total p)"

definition pools_disjoint :: "pool list \<Rightarrow> bool" where
  "pools_disjoint ps \<longleftrightarrow>
     (\<forall>i < length ps. \<forall>j < length ps. i \<noteq> j \<longrightarrow>
        pool_hi (ps ! i) \<le> pool_lo (ps ! j) \<or> pool_hi (ps ! j) \<le> pool_lo (ps ! i))"

definition page_inv :: "'a page_state_scheme \<Rightarrow> bool" where
  "page_inv s \<longleftrightarrow>
     page_allocator_lock s = 0 \<and>
     (\<forall>p \<in> set (allocator_pools s). pool_static p \<and> pool_counts (memory s) p) \<and>
     pools_disjoint (allocator_pools s)"

text \<open>The pages marked as allocated: by pool and bit, and by address.\<close>

definition marked :: "'a page_state_scheme \<Rightarrow> (nat \<times> nat) set" where
  "marked s =
     {(j, k). j < length (allocator_pools s) \<and> k < unat (bitmap_entries (allocator_pools s ! j)) \<and>
              bitmap_bit (memory s) (bitmap_base (allocator_pools s ! j)) k}"

definition page_address :: "pool list \<Rightarrow> nat \<times> nat \<Rightarrow> nat" where
  "page_address ps = (\<lambda>(j, k). unat (allocate_base (ps ! j)) + 4096 * k)"

definition frames :: "'a page_state_scheme \<Rightarrow> nat set" where
  "frames s = page_address (allocator_pools s) ` marked s"

lemma bitmap_word_bounds:
  assumes "pool_static p" "i < unat (bitmap_entries p)"
  shows "unat (bitmap_base p + of_nat (8 * (i div 64))) = unat (bitmap_base p) + 8 * (i div 64)"
    and "unat (bitmap_base p) + 8 * (i div 64) < unat (allocate_base p)"
proof -
  have "i div 64 < (unat (bitmap_entries p) + 63) div 64"
    using assms(2) by linarith
  then show lt: "unat (bitmap_base p) + 8 * (i div 64) < unat (allocate_base p)"
    using assms(1) by (simp add: pool_static_def)
  then have sum: "unat (bitmap_base p) + 8 * (i div 64) < 2 ^ 64"
    by (rule less_unat_2p64)
  then have "8 * (i div 64) < (2 :: nat) ^ 64"
    by simp
  then have eq: "unat (of_nat (8 * (i div 64)) :: u64) = 8 * (i div 64)"
    by (rule unat_of_nat_exact)
  show "unat (bitmap_base p + of_nat (8 * (i div 64))) = unat (bitmap_base p) + 8 * (i div 64)"
    using unat_plus_exact [of "bitmap_base p" "of_nat (8 * (i div 64))"] sum unfolding eq by simp
qed

lemma bitmap_bit_cong:
  assumes "pool_static p" "i < unat (bitmap_entries p)"
    and "\<And>a. pool_lo p \<le> unat a \<Longrightarrow> unat a < unat (allocate_base p) \<Longrightarrow> m' a = m a"
  shows "bitmap_bit m' (bitmap_base p) i = bitmap_bit m (bitmap_base p) i"
  using bitmap_word_bounds [OF assms(1,2)] assms(3) [of "bitmap_base p + of_nat (8 * (i div 64))"]
  by (simp add: bitmap_bit_def pool_lo_def)

lemma run_free_iff:
  assumes "x < 2 ^ 64" "x + unat pages < 2 ^ 64" "0 < unat pages"
  shows "run_free m p pages (of_nat x) \<longleftrightarrow>
     x + unat pages \<le> unat (bitmap_entries p) \<and>
     (\<forall>j. x \<le> j \<longrightarrow> j < x + unat pages \<longrightarrow> \<not> bitmap_bit m (bitmap_base p) j)"
proof -
  have ux: "unat (of_nat x :: u64) = x"
    using assms(1) by (rule unat_of_nat_exact)
  have off: "unat (of_nat k + of_nat x :: u64) = x + k" if "k < unat pages" for k
    using that assms(2) unat_run_index [of "of_nat x" k] by (simp add: ux)
  have sum: "unat (of_nat x + pages) = x + unat pages"
    using assms(2) unat_plus_exact [of "of_nat x" pages] by (simp add: ux)
  have all: "list_all (\<lambda>k. \<not> bitmap_bit m (bitmap_base p) (unat (of_nat k + of_nat x :: u64)))
       [0..<unat pages] \<longleftrightarrow>
     (\<forall>j. x \<le> j \<longrightarrow> j < x + unat pages \<longrightarrow> \<not> bitmap_bit m (bitmap_base p) j)"
    (is "_ \<longleftrightarrow> ?R")
  proof
    assume "list_all (\<lambda>k. \<not> bitmap_bit m (bitmap_base p) (unat (of_nat k + of_nat x :: u64)))
       [0..<unat pages]"
    then have k: "\<not> bitmap_bit m (bitmap_base p) (x + k)" if "k < unat pages" for k
      using that off by (auto simp: list_all_iff)
    show ?R
    proof (intro allI impI)
      fix j assume "x \<le> j" "j < x + unat pages"
      then show "\<not> bitmap_bit m (bitmap_base p) j" using k [of "j - x"] by simp
    qed
  qed (auto simp: list_all_iff off)
  show ?thesis
    unfolding run_free_def bitmap_get_iff all using assms(3)
    by (auto simp: ux sum word_less_nat_alt not_less)
qed

text \<open>Where the search stops: the run is free, fits, and never passes the pages handed out.\<close>

lemma run_no_wrap:
  assumes "unat (x :: u64) < E" "unat T + 4096 * E < 2 ^ 64" "unat (pages * PAGE) \<le> unat (T :: u64)"
    and "0 < unat pages"
  shows "unat x + unat pages < 2 ^ 64"
proof (rule ccontr)
  assume wrap: "\<not> unat x + unat pages < 2 ^ 64"
  define d where "d = 2 ^ 64 - unat pages"
  have k: "unat pages = 2 ^ 64 - d" and d: "0 < d" "d \<le> unat x"
    using wrap unat_less_2p64 [of pages] by (auto simp: d_def)
  have le: "4096 * d < 2 ^ 64"
    using d assms(1,2) by linarith
  have "unat (pages * PAGE) = unat pages * 4096 mod 2 ^ 64"
    by (simp add: unat_word_ariths)
  also have "unat pages * 4096 = (2 ^ 64 - 4096 * d) + 4095 * 2 ^ 64"
    using k d le by simp
  also have "\<dots> mod 2 ^ 64 = (2 ^ 64 - 4096 * d) mod 2 ^ 64"
    by (rule mod_mult_self1)
  also have "\<dots> = 2 ^ 64 - 4096 * d"
    using d by simp
  finally show False
    using assms(1-3) d le by linarith
qed

lemma page_search_found:
  assumes st: "pool_static p" and ct: "pool_counts m p" and pos: "0 < unat pages"
    and avail: "pages * PAGE \<le> available p"
    and found: "find (\<lambda>i. run_free m p pages (of_nat i))
        [unat (last_allocated_page_index p)..<unat (bitmap_entries p)] = Some x"
  shows "4096 * (x + unat pages) \<le> unat (used p) + 4096 * unat pages"
    and "unat (used p) + 4096 * unat pages \<le> unat (total p)"
    and "unat (pages * PAGE) = 4096 * unat pages"
    and "x + unat pages \<le> unat (bitmap_entries p)"
    and "x \<le> j \<Longrightarrow> j < x + unat pages \<Longrightarrow> \<not> bitmap_bit m (bitmap_base p) j"
proof -
  have lt: "x < unat (bitmap_entries p)" and run: "run_free m p pages (of_nat x)"
    and first: "\<And>j. unat (last_allocated_page_index p) \<le> j \<Longrightarrow> j < x \<Longrightarrow> \<not> run_free m p pages (of_nat j)"
    using found by (auto simp: find_upt_Some_iff)
  have x64: "x < 2 ^ 64" and ux: "unat (of_nat x :: u64) = x"
    using less_unat_2p64 [OF lt] by (auto intro: unat_of_nat_exact)
  have av: "unat (pages * PAGE) \<le> unat (available p)"
    using avail by (simp add: word_le_nat_alt)
  have sum: "unat (used p) + unat (available p) = unat (total p)"
    using ct by (simp add: pool_counts_def)
  have "unat (of_nat x :: u64) + unat pages < 2 ^ 64"
    by (rule run_no_wrap [of "of_nat x" "unat (bitmap_entries p)" "total p"])
       (use lt ux av sum st pos in \<open>auto simp: pool_static_def\<close>)
  then have nw: "x + unat pages < 2 ^ 64" by (simp add: ux)
  note fr = run_free_iff [OF x64 nw pos, of m p]
  show fits: "x + unat pages \<le> unat (bitmap_entries p)" using run fr by simp
  show "x \<le> j \<Longrightarrow> j < x + unat pages \<Longrightarrow> \<not> bitmap_bit m (bitmap_base p) j"
    using run fr by simp
  have "unat pages * 4096 < 2 ^ 64"
    using fits st by (simp add: pool_static_def)
  then show req: "unat (pages * PAGE) = 4096 * unat pages"
    by (simp add: unat_times_exact)
  show tot: "unat (used p) + 4096 * unat pages \<le> unat (total p)"
    using av sum req by linarith
  define U where "U = unat (used p) div 4096"
  have U: "unat (used p) = 4096 * U"
    using ct by (simp add: U_def pool_counts_def)
  have "U + unat pages \<le> unat (total p) div 4096"
    using tot U by (simp add: less_eq_div_iff_mult_less_eq)
  then have Ufit: "U + unat pages \<le> unat (bitmap_entries p)"
    using st by (simp add: pool_static_def)
  have "x \<le> U"
  proof (rule ccontr)
    assume "\<not> x \<le> U"
    then have "\<not> run_free m p pages (of_nat U)"
      using ct U by (intro first) (auto simp: pool_counts_def)
    moreover have "run_free m p pages (of_nat U)"
    proof (subst run_free_iff)
      show "U < 2 ^ 64" "U + unat pages < 2 ^ 64"
        using Ufit unat_less_2p64 [of "bitmap_entries p"] by simp_all
      show "U + unat pages \<le> unat (bitmap_entries p) \<and>
        (\<forall>j. U \<le> j \<longrightarrow> j < U + unat pages \<longrightarrow> \<not> bitmap_bit m (bitmap_base p) j)"
        using Ufit ct U by (auto simp: pool_counts_def)
    qed (rule pos)
    ultimately show False by simp
  qed
  then show "4096 * (x + unat pages) \<le> unat (used p) + 4096 * unat pages"
    by (simp add: U)
qed

lemma page_scan_SomeD:
  "page_scan m pages req ps = Some (i, index) \<Longrightarrow>
     i < length ps \<and> req \<le> available (ps ! i) \<and>
     find (\<lambda>k. run_free m (ps ! i) pages (of_nat k))
       [unat (last_allocated_page_index (ps ! i))..<unat (bitmap_entries (ps ! i))] = Some (unat index)"
proof (induction ps arbitrary: i)
  case (Cons p ps)
  show ?case
  proof (cases "i = 0")
    case True
    then have av: "req \<le> available p" and
      f: "\<exists>k. find (\<lambda>k. run_free m p pages (of_nat k))
        [unat (last_allocated_page_index p)..<unat (bitmap_entries p)] = Some k \<and> index = of_nat k"
      using Cons.prems by (auto simp: Let_def not_less split: if_splits option.splits)
    obtain k where k: "find (\<lambda>k. run_free m p pages (of_nat k))
        [unat (last_allocated_page_index p)..<unat (bitmap_entries p)] = Some k" "index = of_nat k"
      using f by blast
    then have "k < 2 ^ 64"
      by (auto simp: find_upt_Some_iff dest: less_unat_2p64)
    then show ?thesis using True av k by (simp add: unat_of_nat_exact)
  next
    case False
    then obtain j where "i = Suc j" "page_scan m pages req ps = Some (j, index)"
      using Cons.prems by (auto simp: Let_def split: if_splits option.splits)
    then show ?thesis using Cons.IH by simp
  qed
qed simp

lemma page_scan_None_iff:
  "page_scan m pages req ps = None \<longleftrightarrow>
     (\<forall>p \<in> set ps. req \<le> available p \<longrightarrow>
        (\<forall>k. unat (last_allocated_page_index p) \<le> k \<longrightarrow> k < unat (bitmap_entries p) \<longrightarrow>
             \<not> run_free m p pages (of_nat k)))"
proof (induction ps)
  case (Cons p ps)
  have "page_scan m pages req (p # ps) = None \<longleftrightarrow>
     (req \<le> available p \<longrightarrow> find (\<lambda>k. run_free m p pages (of_nat k))
        [unat (last_allocated_page_index p)..<unat (bitmap_entries p)] = None) \<and>
     page_scan m pages req ps = None"
    by (auto simp: Let_def not_less split: option.splits)
  then show ?case
    unfolding Cons.IH find_upt_None_iff by simp
qed simp



subsection \<open>The fast path is the general path for one page\<close>

lemma run_free_one:
  assumes "i < unat (bitmap_entries p)"
  shows "run_free m p 1 (of_nat i) \<longleftrightarrow> bitmap_get m (bitmap_base p) (of_nat i) = 0"
proof -
  have "unat (of_nat i + (1 :: u64)) = i + 1"
    using unat_plus_exact [of "of_nat i" 1] less_unat_2p64 [OF assms] assms unat_less_2p64 [of "bitmap_entries p"]
    by (simp add: unat_of_nat_exact)
  then have "\<not> of_nat i + 1 > bitmap_entries p"
    using assms by (simp add: word_less_nat_alt)
  then show ?thesis by (simp add: run_free_def)
qed

lemma page_scan_single_eq: "page_scan_single m ps = page_scan m 1 PAGE ps"
proof (induction ps)
  case (Cons p ps)
  have "find (\<lambda>i. bitmap_get m (bitmap_base p) (of_nat i) = 0) is = find (\<lambda>i. run_free m p 1 (of_nat i)) is"
    if "set is \<subseteq> {..<unat (bitmap_entries p)}" for "is"
    using that by (induction "is") (auto simp: run_free_one)
  from this [of "[unat (last_allocated_page_index p)..<unat (bitmap_entries p)]"]
  show ?case using Cons by (simp add: Let_def atLeastLessThan_upt [symmetric] subset_iff)
qed simp

lemma bitmap_set_run_one: "bitmap_set_run m b index 1 = bitmap_set m b index"
  by (simp add: bitmap_set_run_def)

lemma page_allocate_single_fast_eq:
  "page_allocate_single_fast s = Inr r \<longleftrightarrow> page_allocate_multi 1 s = Inr r"
  by (auto simp: page_allocate_single_fast_def page_allocate_multi_def page_scan_single_eq
      bitmap_set_run_one Let_def split: sum.splits option.splits)

lemma page_allocate_eq:
  "page_allocate pages s = Inr r \<longleftrightarrow> page_allocate_multi (at_least_one pages) s = Inr r"
  by (auto simp: page_allocate_def at_least_one_def page_allocate_single_fast_eq Let_def)

subsection \<open>What a successful allocation does\<close>

definition alloc_memory :: "mem64 \<Rightarrow> pool \<Rightarrow> nat \<Rightarrow> u64 \<Rightarrow> mem64" where
  "alloc_memory m p x pages =
     arch_zero_pages (bitmap_set_run m (bitmap_base p) (of_nat x) pages)
       (allocate_base p + of_nat x * PAGE) pages"

definition alloc_pool :: "pool \<Rightarrow> nat \<Rightarrow> u64 \<Rightarrow> pool" where
  "alloc_pool p x pages =
     p\<lparr>used := used p + pages * PAGE, available := available p - pages * PAGE,
       last_allocated_page_index := of_nat x\<rparr>"

text \<open>A run of pages inside a pool, with the arithmetic already read as natural numbers.\<close>

definition pool_run :: "mem64 \<Rightarrow> pool \<Rightarrow> nat \<Rightarrow> u64 \<Rightarrow> bool" where
  "pool_run m p x pages \<longleftrightarrow>
     4096 * x \<le> unat (used p) \<and>
     unat (used p) + 4096 * unat pages \<le> unat (total p) \<and>
     unat (pages * PAGE) = 4096 * unat pages \<and>
     x + unat pages \<le> unat (bitmap_entries p) \<and>
     (\<forall>j. x \<le> j \<longrightarrow> j < x + unat pages \<longrightarrow> \<not> bitmap_bit m (bitmap_base p) j)"

lemma page_allocate_multiE:
  assumes inv: "page_inv s" and pos: "0 < unat pages"
    and ok: "page_allocate_multi pages s = Inr (ptr, s')"
  obtains i p x where "i < length (allocator_pools s)" "p = allocator_pools s ! i"
    "pool_static p" "pool_counts (memory s) p" "pool_run (memory s) p x pages"
    "ptr = allocate_base p + of_nat x * PAGE"
    "s' = s\<lparr>memory := alloc_memory (memory s) p x pages,
            allocator_pools := (allocator_pools s)[i := alloc_pool p x pages],
            page_allocator_lock := 0\<rparr>"
proof -
  obtain i index where scan: "page_scan (memory s) pages (pages * PAGE) (allocator_pools s) = Some (i, index)"
    using ok by (auto simp: page_allocate_multi_def Let_def split: sum.splits option.splits)
  define p where "p = allocator_pools s ! i"
  define x where "x = unat index"
  have idx: "index = of_nat x"
    by (simp add: x_def)
  from page_scan_SomeD [OF scan] have i: "i < length (allocator_pools s)"
    and av: "pages * PAGE \<le> available p" and f: "find (\<lambda>k. run_free (memory s) p pages (of_nat k))
       [unat (last_allocated_page_index p)..<unat (bitmap_entries p)] = Some x"
    by (simp_all add: p_def x_def)
  have st: "pool_static p" and ct: "pool_counts (memory s) p"
    using inv i by (auto simp: page_inv_def p_def)
  have "pool_run (memory s) p x pages"
    using page_search_found [OF st ct pos av f] by (simp add: pool_run_def)
  moreover have "ptr = allocate_base p + of_nat x * PAGE"
    and "s' = s\<lparr>memory := alloc_memory (memory s) p x pages,
            allocator_pools := (allocator_pools s)[i := alloc_pool p x pages],
            page_allocator_lock := 0\<rparr>"
    using ok scan inv unfolding page_allocate_multi_def page_inv_def
    by (auto simp: Let_def idx p_def [symmetric] alloc_memory_def alloc_pool_def)
  ultimately show thesis using that i st ct p_def by blast
qed

lemma run_bounds:
  assumes st: "pool_static p" and run: "pool_run m p x pages"
  shows "unat (of_nat x :: u64) = x" "unat (of_nat x :: u64) + unat pages \<le> 2 ^ 64"
    and "unat (allocate_base p + of_nat x * PAGE) = unat (allocate_base p) + 4096 * x"
    and "unat (allocate_base p) + 4096 * (x + unat pages) \<le> pool_hi p"
    and "pool_hi p < 2 ^ 64"
proof -
  have hi: "pool_hi p < 2 ^ 64" and le: "4096 * (x + unat pages) \<le> unat (total p)"
    using st run by (auto simp: pool_static_def pool_run_def pool_hi_def)
  show "pool_hi p < 2 ^ 64" by (rule hi)
  show "unat (allocate_base p) + 4096 * (x + unat pages) \<le> pool_hi p"
    using le by (simp add: pool_hi_def)
  have small: "x + unat pages < 2 ^ 64" and x4: "4096 * x < 2 ^ 64" and
    sum: "unat (allocate_base p) + 4096 * x < 2 ^ 64"
    using le hi by (simp_all add: pool_hi_def)
  show ux: "unat (of_nat x :: u64) = x"
    using small by (intro unat_of_nat_exact) simp
  show "unat (of_nat x :: u64) + unat pages \<le> 2 ^ 64"
    using small ux by simp
  have "unat (of_nat x * PAGE) = 4096 * x"
    using x4 by (subst unat_times_exact) (simp_all add: ux)
  then show "unat (allocate_base p + of_nat x * PAGE) = unat (allocate_base p) + 4096 * x"
    using sum by (subst unat_plus_exact) simp_all
qed

lemma alloc_memory_cases:
  assumes st: "pool_static p" and run: "pool_run m p x pages"
  shows "unat (allocate_base p) + 4096 * x \<le> unat a \<Longrightarrow>
         unat a < unat (allocate_base p) + 4096 * (x + unat pages) \<Longrightarrow> alloc_memory m p x pages a = 0"
    and "\<not> (unat (allocate_base p) + 4096 * x \<le> unat a \<and>
         unat a < unat (allocate_base p) + 4096 * (x + unat pages)) \<Longrightarrow>
         alloc_memory m p x pages a = bitmap_set_run m (bitmap_base p) (of_nat x) pages a"
proof -
  note b = run_bounds [OF st run]
  have "unat (a - (allocate_base p + of_nat x * PAGE)) < 4096 * unat pages \<longleftrightarrow>
     unat (allocate_base p) + 4096 * x \<le> unat a \<and>
     unat a < unat (allocate_base p) + 4096 * (x + unat pages)"
    using b(3-5) by (subst unat_minus_less_iff) auto
  then show "unat (allocate_base p) + 4096 * x \<le> unat a \<Longrightarrow>
         unat a < unat (allocate_base p) + 4096 * (x + unat pages) \<Longrightarrow> alloc_memory m p x pages a = 0"
    and "\<not> (unat (allocate_base p) + 4096 * x \<le> unat a \<and>
         unat a < unat (allocate_base p) + 4096 * (x + unat pages)) \<Longrightarrow>
         alloc_memory m p x pages a = bitmap_set_run m (bitmap_base p) (of_nat x) pages a"
    by (auto simp: alloc_memory_def arch_zero_pages_def)
qed

lemma alloc_memory_outside:
  assumes st: "pool_static p" and run: "pool_run m p x pages"
    and a: "unat a < pool_lo p \<or> unat (allocate_base p) \<le> unat a"
    and nb: "\<not> (unat (allocate_base p) + 4096 * x \<le> unat a \<and>
         unat a < unat (allocate_base p) + 4096 * (x + unat pages))"
  shows "alloc_memory m p x pages a = m a"
proof -
  note b = run_bounds [OF st run]
  have "a \<noteq> bitmap_base p + of_nat (8 * (i div 64))" if "i < x + unat pages" for i
  proof -
    have "i < unat (bitmap_entries p)" using that run by (simp add: pool_run_def)
    from bitmap_word_bounds [OF st this] show ?thesis using a by (auto simp: pool_lo_def)
  qed
  then have "bitmap_set_run m (bitmap_base p) (of_nat x) pages a = m a"
    unfolding bitmap_set_run_def using b(1,2) by (intro bitmap_set_fold_other) auto
  then show ?thesis using alloc_memory_cases(2) [OF st run nb] by simp
qed

lemma alloc_memory_bits:
  assumes st: "pool_static p" and run: "pool_run m p x pages" and j: "j < unat (bitmap_entries p)"
  shows "bitmap_bit (alloc_memory m p x pages) (bitmap_base p) j \<longleftrightarrow>
     (x \<le> j \<and> j < x + unat pages) \<or> bitmap_bit m (bitmap_base p) j"
proof -
  note b = run_bounds [OF st run]
  have "bitmap_bit (alloc_memory m p x pages) (bitmap_base p) j =
     bitmap_bit (bitmap_set_run m (bitmap_base p) (of_nat x) pages) (bitmap_base p) j"
    by (rule bitmap_bit_cong [OF st j]) (auto intro: alloc_memory_cases(2) [OF st run])
  also have "\<dots> \<longleftrightarrow> (x \<le> j \<and> j < x + unat pages) \<or> bitmap_bit m (bitmap_base p) j"
    unfolding bitmap_set_run_def using bitmap_bit_set_fold [OF less_unat_2p64 [OF j] b(2)] b(1) by simp
  finally show ?thesis .
qed

text \<open>A pool whose region is disjoint from the one allocated from keeps its bitmap.\<close>

lemma alloc_memory_other_bits:
  assumes st: "pool_static p" and run: "pool_run m p x pages"
    and q: "pool_static q" "j < unat (bitmap_entries q)"
    and dis: "pool_hi p \<le> pool_lo q \<or> pool_hi q \<le> pool_lo p"
  shows "bitmap_bit (alloc_memory m p x pages) (bitmap_base q) j = bitmap_bit m (bitmap_base q) j"
proof (rule bitmap_bit_cong [OF q])
  fix a :: u64 assume a: "pool_lo q \<le> unat a" "unat a < unat (allocate_base q)"
  show "alloc_memory m p x pages a = m a"
    by (rule alloc_memory_outside [OF st run])
       (use a dis run_bounds(4) [OF st run] st in \<open>auto simp: pool_hi_def pool_lo_def pool_static_def\<close>)
qed

lemma alloc_pool_simps [simp]:
  "allocate_base (alloc_pool p x pages) = allocate_base p"
  "bitmap_base (alloc_pool p x pages) = bitmap_base p"
  "total (alloc_pool p x pages) = total p"
  "bitmap_entries (alloc_pool p x pages) = bitmap_entries p"
  "pool_lo (alloc_pool p x pages) = pool_lo p"
  "pool_hi (alloc_pool p x pages) = pool_hi p"
  "pool_static (alloc_pool p x pages) = pool_static p"
  by (simp_all add: alloc_pool_def pool_lo_def pool_hi_def pool_static_def)

lemma alloc_pool_counts:
  assumes st: "pool_static p" and ct: "pool_counts m p" and run: "pool_run m p x pages"
  shows "pool_counts (alloc_memory m p x pages) (alloc_pool p x pages)"
    and "unat (used (alloc_pool p x pages)) = unat (used p) + 4096 * unat pages"
    and "unat (available (alloc_pool p x pages)) = unat (available p) - 4096 * unat pages"
proof -
  have req: "unat (pages * PAGE) = 4096 * unat pages"
    and tot: "unat (used p) + 4096 * unat pages \<le> unat (total p)"
    and x: "4096 * x \<le> unat (used p)"
    using run by (simp_all add: pool_run_def)
  have sum: "unat (used p) + unat (available p) = unat (total p)"
    using ct by (simp add: pool_counts_def)
  show u: "unat (used (alloc_pool p x pages)) = unat (used p) + 4096 * unat pages"
    using tot le_unat_2p64 [OF tot] req unat_plus_exact [of "used p" "pages * PAGE"]
    by (simp add: alloc_pool_def)
  show av: "unat (available (alloc_pool p x pages)) = unat (available p) - 4096 * unat pages"
    using tot sum req unat_minus_exact [of "pages * PAGE" "available p"] by (simp add: alloc_pool_def)
  have l: "unat (last_allocated_page_index (alloc_pool p x pages)) = x"
    using run_bounds(1) [OF st run] by (simp add: alloc_pool_def)
  show "pool_counts (alloc_memory m p x pages) (alloc_pool p x pages)"
    unfolding pool_counts_def alloc_pool_simps u av l
    using ct sum tot x by (auto simp: alloc_memory_bits [OF st run] pool_counts_def)
qed



lemma pools_disjoint_update:
  assumes "pools_disjoint ps" "i < length ps"
    and "pool_lo p' = pool_lo (ps ! i)" "pool_hi p' = pool_hi (ps ! i)"
  shows "pools_disjoint (ps[i := p'])"
  using assms unfolding pools_disjoint_def by (auto simp: nth_list_update)

lemma pools_disjointD:
  assumes "pools_disjoint ps" "i < length ps" "j < length ps" "i \<noteq> j"
  shows "pool_hi (ps ! i) \<le> pool_lo (ps ! j) \<or> pool_hi (ps ! j) \<le> pool_lo (ps ! i)"
  using assms unfolding pools_disjoint_def by blast

text \<open>Every pool after an allocation: the one allocated from, or an old one untouched.\<close>

lemma page_allocate_multi_inv:
  assumes inv: "page_inv s" and pos: "0 < unat pages"
    and ok: "page_allocate_multi pages s = Inr (ptr, s')"
  shows "page_inv s'"
proof -
  obtain i p x where i: "i < length (allocator_pools s)" and p: "p = allocator_pools s ! i"
    and st: "pool_static p" and ct: "pool_counts (memory s) p" and run: "pool_run (memory s) p x pages"
    and s': "s' = s\<lparr>memory := alloc_memory (memory s) p x pages,
            allocator_pools := (allocator_pools s)[i := alloc_pool p x pages],
            page_allocator_lock := 0\<rparr>"
    using page_allocate_multiE [OF inv pos ok] by metis
  have dis: "pools_disjoint (allocator_pools s)"
    using inv by (simp add: page_inv_def)
  have q: "pool_static q \<and> pool_counts (memory s') q" if qs: "q \<in> set (allocator_pools s')" for q
  proof -
    obtain j where j: "j < length (allocator_pools s)" "q = allocator_pools s' ! j"
      using qs by (auto simp: s' in_set_conv_nth)
    show ?thesis
    proof (cases "j = i")
      case True
      then have "q = alloc_pool p x pages" using j i by (simp add: s')
      then show ?thesis using alloc_pool_counts(1) [OF st ct run] st by (simp add: s')
    next
      case False
      then have qj: "q = allocator_pools s ! j" using j by (simp add: s')
      then have old: "pool_static q" "pool_counts (memory s) q"
        using inv j by (auto simp: page_inv_def)
      have "pool_hi p \<le> pool_lo q \<or> pool_hi q \<le> pool_lo p"
        using pools_disjointD [OF dis i j(1)] False p qj by auto
      then show ?thesis
        using old by (auto simp: pool_counts_def s' alloc_memory_other_bits [OF st run])
    qed
  qed
  moreover have "pools_disjoint (allocator_pools s')"
    using dis i p by (simp add: s' pools_disjoint_update)
  ultimately show ?thesis by (simp add: page_inv_def s')
qed

lemma page_allocate_multi_marked:
  assumes inv: "page_inv s" and i: "i < length (allocator_pools s)" and p: "p = allocator_pools s ! i"
    and st: "pool_static p" and run: "pool_run (memory s) p x pages"
    and s': "memory s' = alloc_memory (memory s) p x pages"
      "allocator_pools s' = (allocator_pools s)[i := alloc_pool p x pages]"
  shows "marked s' = marked s \<union> {i} \<times> {x..<x + unat pages}"
    and "page_address (allocator_pools s') ` marked s' = page_address (allocator_pools s) ` marked s'"
proof -
  have fit: "x + unat pages \<le> unat (bitmap_entries p)"
    using run by (simp add: pool_run_def)
  have other: "bitmap_bit (memory s') (bitmap_base (allocator_pools s ! j)) k =
      bitmap_bit (memory s) (bitmap_base (allocator_pools s ! j)) k"
    if "j < length (allocator_pools s)" "k < unat (bitmap_entries (allocator_pools s ! j))" "j \<noteq> i" for j k
    unfolding s'(1)
  proof (rule alloc_memory_other_bits [OF st run _ that(2)])
    show "pool_static (allocator_pools s ! j)"
      using inv that by (simp add: page_inv_def)
    show "pool_hi p \<le> pool_lo (allocator_pools s ! j) \<or> pool_hi (allocator_pools s ! j) \<le> pool_lo p"
      using pools_disjointD [of "allocator_pools s" i j] inv i that p by (auto simp: page_inv_def)
  qed
  show "marked s' = marked s \<union> {i} \<times> {x..<x + unat pages}"
  proof (intro set_eqI)
    fix jk :: "nat \<times> nat"
    obtain j k where jk: "jk = (j, k)" by (cases jk)
    show "jk \<in> marked s' \<longleftrightarrow> jk \<in> marked s \<union> {i} \<times> {x..<x + unat pages}"
      using fit i other [of j k] alloc_memory_bits [OF st run, of k]
      by (cases "j = i") (auto simp: jk marked_def s' p [symmetric])
  qed
  show "page_address (allocator_pools s') ` marked s' = page_address (allocator_pools s) ` marked s'"
    using i p by (intro image_cong) (auto simp: marked_def page_address_def s' nth_list_update)
qed

text \<open>Pages inside the regions of disjoint pools have different addresses.\<close>

lemma page_address_inj:
  assumes "pools_disjoint ps" "\<forall>p \<in> set ps. pool_static p"
  shows "inj_on (page_address ps) {(j, k). j < length ps \<and> 4096 * k < unat (total (ps ! j))}"
proof (rule inj_onI, clarify)
  fix j k j' k'
  assume j: "j < length ps" "4096 * k < unat (total (ps ! j))"
    and j': "j' < length ps" "4096 * k' < unat (total (ps ! j'))"
    and eq: "page_address ps (j, k) = page_address ps (j', k')"
  have "j = j'"
  proof (rule ccontr)
    assume "j \<noteq> j'"
    then have "pool_hi (ps ! j) \<le> pool_lo (ps ! j') \<or> pool_hi (ps ! j') \<le> pool_lo (ps ! j)"
      by (rule pools_disjointD [OF assms(1) j(1) j'(1)])
    moreover have "pool_lo (ps ! i) \<le> unat (allocate_base (ps ! i))" if "i < length ps" for i
      using assms(2) that by (auto simp: pool_static_def pool_lo_def dest!: nth_mem)
    ultimately show False
      using eq j j' by (fastforce simp: page_address_def pool_hi_def)
  qed
  then show "j = j' \<and> k = k'" using eq by (simp add: page_address_def)
qed

lemma marked_in_region:
  assumes "page_inv s"
  shows "marked s \<subseteq> {(j, k). j < length (allocator_pools s) \<and> 4096 * k < unat (total (allocator_pools s ! j))}"
proof clarify
  fix j k assume jk: "(j, k) \<in> marked s"
  then have "pool_counts (memory s) (allocator_pools s ! j)"
    using assms by (auto simp: page_inv_def marked_def)
  then show "j < length (allocator_pools s) \<and> 4096 * k < unat (total (allocator_pools s ! j))"
    using jk by (auto simp: marked_def pool_counts_def not_le [symmetric])
qed

lemma frame_block_run:
  assumes "unat base = page_address ps (j, k)"
  shows "frame_block base n = page_address ps ` ({j} \<times> {k..<k + n})"
proof -
  have "{k..<k + n} = (+) k ` {..<n}"
    by (simp add: lessThan_atLeast0 add.commute)
  then show ?thesis
    using assms by (simp add: frame_block_def page_address_def image_image
        Sigma_def UNION_singleton_eq_range algebra_simps)
qed

lemma page_allocate_multi_frames:
  assumes inv: "page_inv s" and pos: "0 < unat pages"
    and ok: "page_allocate_multi pages s = Inr (ptr, s')"
  shows "frames s' = frames s \<union> frame_block ptr (unat pages)"
    and "frames s \<inter> frame_block ptr (unat pages) = {}"
proof -
  obtain i p x where i: "i < length (allocator_pools s)" and p: "p = allocator_pools s ! i"
    and st: "pool_static p" and run: "pool_run (memory s) p x pages"
    and ptr: "ptr = allocate_base p + of_nat x * PAGE"
    and s': "s' = s\<lparr>memory := alloc_memory (memory s) p x pages,
            allocator_pools := (allocator_pools s)[i := alloc_pool p x pages],
            page_allocator_lock := 0\<rparr>"
    using page_allocate_multiE [OF inv pos ok] by metis
  let ?new = "{i} \<times> {x..<x + unat pages}"
  have m: "marked s' = marked s \<union> ?new"
    and img: "page_address (allocator_pools s') ` marked s' = page_address (allocator_pools s) ` marked s'"
    using page_allocate_multi_marked [OF inv i p st run, of s'] by (simp_all add: s')
  have new: "frame_block ptr (unat pages) = page_address (allocator_pools s) ` ?new"
    using run_bounds(3) [OF st run] by (intro frame_block_run) (simp add: ptr page_address_def p)
  show "frames s' = frames s \<union> frame_block ptr (unat pages)"
    unfolding frames_def img new by (simp add: m image_Un)
  have sub: "?new \<subseteq> {(j, k). j < length (allocator_pools s) \<and> 4096 * k < unat (total (allocator_pools s ! j))}"
    using i run by (auto simp: p [symmetric] pool_run_def)
  have "marked s \<inter> ?new = {}"
    using run by (auto simp: marked_def p [symmetric] pool_run_def)
  moreover have "inj_on (page_address (allocator_pools s))
      {(j, k). j < length (allocator_pools s) \<and> 4096 * k < unat (total (allocator_pools s ! j))}"
    using inv by (intro page_address_inj) (auto simp: page_inv_def)
  ultimately show "frames s \<inter> frame_block ptr (unat pages) = {}"
    unfolding frames_def new using inj_on_image_Int [OF _ marked_in_region [OF inv] sub] by fastforce
qed



subsection \<open>When an allocation succeeds\<close>

lemma page_allocate_multi_succeeds:
  assumes inv: "page_inv s" and pos: "0 < unat pages"
    and p: "p \<in> set (allocator_pools s)" and room: "4096 * unat pages \<le> unat (available p)"
  shows "\<exists>ptr s'. page_allocate_multi pages s = Inr (ptr, s')"
proof -
  have st: "pool_static p" and ct: "pool_counts (memory s) p"
    using inv p by (auto simp: page_inv_def)
  define U where "U = unat (used p) div 4096"
  have U: "unat (used p) = 4096 * U"
    using ct by (simp add: U_def pool_counts_def)
  have req: "unat (pages * PAGE) = 4096 * unat pages"
    using le_unat_2p64 [OF room] by (subst unat_times_exact) simp_all
  have tot: "4096 * (U + unat pages) \<le> unat (total p)"
    using ct room U by (simp add: pool_counts_def)
  then have "U + unat pages \<le> unat (total p) div 4096"
    by (simp add: less_eq_div_iff_mult_less_eq)
  then have fit: "U + unat pages \<le> unat (bitmap_entries p)"
    using st by (simp add: pool_static_def)
  have "run_free (memory s) p pages (of_nat U)"
  proof (subst run_free_iff)
    show "U < 2 ^ 64" "U + unat pages < 2 ^ 64"
      using le_unat_2p64 [OF fit] by simp_all
    show "U + unat pages \<le> unat (bitmap_entries p) \<and>
       (\<forall>j. U \<le> j \<longrightarrow> j < U + unat pages \<longrightarrow> \<not> bitmap_bit (memory s) (bitmap_base p) j)"
      using fit ct U by (auto simp: pool_counts_def)
  qed (rule pos)
  moreover have "unat (last_allocated_page_index p) \<le> U" "U < unat (bitmap_entries p)"
    using ct U fit pos by (simp_all add: pool_counts_def)
  ultimately have "page_scan (memory s) pages (pages * PAGE) (allocator_pools s) \<noteq> None"
    using p room req by (auto simp: page_scan_None_iff word_le_nat_alt)
  then show ?thesis
    using inv by (auto simp: page_allocate_multi_def page_inv_def Let_def)
qed

lemma page_allocate_multi_room:
  assumes inv: "page_inv s" and pos: "0 < unat pages"
    and ok: "page_allocate_multi pages s = Inr (ptr, s')"
  shows "\<exists>p \<in> set (allocator_pools s). 4096 * unat pages \<le> unat (available p)"
proof -
  obtain i p x where "i < length (allocator_pools s)" "p = allocator_pools s ! i"
    "pool_counts (memory s) p" "pool_run (memory s) p x pages"
    using page_allocate_multiE [OF inv pos ok] by metis
  then show ?thesis
    by (intro bexI [of _ p]) (auto simp: pool_counts_def pool_run_def)
qed

lemma page_allocate_multi_block:
  assumes inv: "page_inv s" and pos: "0 < unat pages"
    and ok: "page_allocate_multi pages s = Inr (ptr, s')"
  shows "4096 dvd unat ptr" "ptr \<noteq> 0"
    and "\<exists>p \<in> set (allocator_pools s). unat (allocate_base p) \<le> unat ptr \<and>
           unat ptr + 4096 * unat pages \<le> pool_hi p"
    and "unat ptr \<le> unat a \<Longrightarrow> unat a < unat ptr + 4096 * unat pages \<Longrightarrow> memory s' a = 0"
proof -
  obtain i p x where i: "i < length (allocator_pools s)" and p: "p = allocator_pools s ! i"
    and st: "pool_static p" and run: "pool_run (memory s) p x pages"
    and ptr: "ptr = allocate_base p + of_nat x * PAGE"
    and s': "s' = s\<lparr>memory := alloc_memory (memory s) p x pages,
            allocator_pools := (allocator_pools s)[i := alloc_pool p x pages],
            page_allocator_lock := 0\<rparr>"
    using page_allocate_multiE [OF inv pos ok] by metis
  note b = run_bounds [OF st run]
  have up: "unat ptr = unat (allocate_base p) + 4096 * x" using b(3) by (simp add: ptr)
  show "4096 dvd unat ptr" using st by (simp add: up pool_static_def)
  have "0 < unat ptr" using st by (auto simp: up pool_static_def)
  then show "ptr \<noteq> 0" by auto
  show "\<exists>p \<in> set (allocator_pools s). unat (allocate_base p) \<le> unat ptr \<and>
      unat ptr + 4096 * unat pages \<le> pool_hi p"
    using i p b(4) up by (intro bexI [of _ p]) (auto simp: algebra_simps)
  show "unat ptr \<le> unat a \<Longrightarrow> unat a < unat ptr + 4096 * unat pages \<Longrightarrow> memory s' a = 0"
    using alloc_memory_cases(1) [OF st run, of a] up by (simp add: s' algebra_simps)
qed

text \<open>What an allocation leaves alone: all memory outside bitmaps and the new block.\<close>

lemma page_allocate_multi_frame:
  assumes inv: "page_inv s" and pos: "0 < unat pages"
    and ok: "page_allocate_multi pages s = Inr (ptr, s')"
    and bm: "\<forall>p \<in> set (allocator_pools s). unat a < pool_lo p \<or> unat (allocate_base p) \<le> unat a"
    and blk: "\<not> (unat ptr \<le> unat a \<and> unat a < unat ptr + 4096 * unat pages)"
  shows "memory s' a = memory s a"
proof -
  obtain i p x where i: "i < length (allocator_pools s)" and p: "p = allocator_pools s ! i"
    and st: "pool_static p" and run: "pool_run (memory s) p x pages"
    and ptr: "ptr = allocate_base p + of_nat x * PAGE"
    and s': "s' = s\<lparr>memory := alloc_memory (memory s) p x pages,
            allocator_pools := (allocator_pools s)[i := alloc_pool p x pages],
            page_allocator_lock := 0\<rparr>"
    using page_allocate_multiE [OF inv pos ok] by metis
  have "alloc_memory (memory s) p x pages a = memory s a"
    by (rule alloc_memory_outside [OF st run])
       (use bm blk i p run_bounds(3) [OF st run] in \<open>auto simp: ptr algebra_simps\<close>)
  then show ?thesis by (simp add: s')
qed

subsection \<open>Deallocation\<close>

text \<open>A block the allocator handed out and that is still allocated.\<close>

definition allocated_block :: "'a page_state_scheme \<Rightarrow> u64 \<Rightarrow> u64 \<Rightarrow> bool" where
  "allocated_block s base pages \<longleftrightarrow>
     (\<exists>j k. j < length (allocator_pools s) \<and> unat base = page_address (allocator_pools s) (j, k) \<and>
            0 < unat pages \<and> {j} \<times> {k..<k + unat pages} \<subseteq> marked s)"

lemma pool_claims_unique:
  assumes inv: "page_inv s" and j: "j < length (allocator_pools s)" and jk: "(j, k) \<in> marked s"
    and base: "unat base = page_address (allocator_pools s) (j, k)"
  shows "find (pool_claims base) (allocator_pools s) = Some (allocator_pools s ! j)"
proof -
  let ?ps = "allocator_pools s"
  have st: "\<And>i. i < length ?ps \<Longrightarrow> pool_static (?ps ! i)"
    using inv by (simp add: page_inv_def)
  have tot: "unat (allocate_base p + total p) = pool_hi p" if "pool_static p" for p
    using that unat_plus_exact [of "allocate_base p" "total p"] by (simp add: pool_static_def pool_hi_def)
  have reg: "unat (allocate_base (?ps ! j)) \<le> unat base" "unat base < pool_hi (?ps ! j)"
    using marked_in_region [OF inv] jk base by (auto simp: page_address_def pool_hi_def)
  have gap: "pool_lo (?ps ! j) < unat (allocate_base (?ps ! j))"
    using bitmap_word_bounds(2) [OF st [OF j], of k] jk by (simp add: marked_def pool_lo_def)
  have claims: "pool_claims base (?ps ! i) \<longleftrightarrow> i = j" if i: "i < length ?ps" for i
  proof (cases "i = j")
    case True
    then show ?thesis
      using reg tot [OF st [OF j]] by (simp add: pool_claims_def word_le_nat_alt)
  next
    case False
    have "pool_hi (?ps ! i) \<le> pool_lo (?ps ! j) \<or> pool_hi (?ps ! j) \<le> pool_lo (?ps ! i)"
      using inv by (intro pools_disjointD [OF _ i j False]) (simp add: page_inv_def)
    moreover have "pool_lo (?ps ! i) \<le> unat (allocate_base (?ps ! i))"
      using st [OF i] by (auto simp: pool_static_def pool_lo_def)
    ultimately show ?thesis
      using reg gap tot [OF st [OF i]] False by (auto simp: pool_claims_def word_le_nat_alt)
  qed
  then show ?thesis
    using j by (auto simp: find_Some_iff intro!: exI [of _ j])
qed

lemma unset_run_bits:
  assumes st: "pool_static p" and fit: "k + unat pages \<le> unat (bitmap_entries p)"
  shows "n < unat (bitmap_entries p) \<Longrightarrow>
       bitmap_bit (bitmap_unset_run m (bitmap_base p) (of_nat k) pages) (bitmap_base p) n \<longleftrightarrow>
       \<not> (k \<le> n \<and> n < k + unat pages) \<and> bitmap_bit m (bitmap_base p) n"
    and "pool_static q \<Longrightarrow> n < unat (bitmap_entries q) \<Longrightarrow>
       pool_hi p \<le> pool_lo q \<or> pool_hi q \<le> pool_lo p \<Longrightarrow>
       bitmap_bit (bitmap_unset_run m (bitmap_base p) (of_nat k) pages) (bitmap_base q) n =
       bitmap_bit m (bitmap_base q) n"
proof -
  have uk: "unat (of_nat k :: u64) = k" and k64: "unat (of_nat k :: u64) + unat pages \<le> 2 ^ 64"
    using le_unat_2p64 [OF fit] by (simp_all add: unat_of_nat_exact)
  show "bitmap_bit (bitmap_unset_run m (bitmap_base p) (of_nat k) pages) (bitmap_base p) n \<longleftrightarrow>
       \<not> (k \<le> n \<and> n < k + unat pages) \<and> bitmap_bit m (bitmap_base p) n"
    if "n < unat (bitmap_entries p)"
    unfolding bitmap_unset_run_def using bitmap_bit_unset_fold [OF less_unat_2p64 [OF that] k64]
    by (simp add: uk)
  assume q: "pool_static q" "n < unat (bitmap_entries q)"
    and dis: "pool_hi p \<le> pool_lo q \<or> pool_hi q \<le> pool_lo p"
  show "bitmap_bit (bitmap_unset_run m (bitmap_base p) (of_nat k) pages) (bitmap_base q) n =
       bitmap_bit m (bitmap_base q) n"
    unfolding bitmap_unset_run_def
  proof (rule bitmap_bit_cong [OF q], rule bitmap_unset_fold_other [OF k64])
    fix a :: u64 and l
    assume a: "pool_lo q \<le> unat a" "unat a < unat (allocate_base q)"
      and "unat (of_nat k :: u64) \<le> l" "l < unat (of_nat k :: u64) + unat pages"
    then have "l < unat (bitmap_entries p)" using fit uk by simp
    from bitmap_word_bounds [OF st this] show "a \<noteq> bitmap_base p + of_nat (8 * (l div 64))"
      using a dis by (auto simp: pool_hi_def pool_lo_def)
  qed
qed

text \<open>Releasing an allocated block: its pages are unmarked, and nothing else changes.\<close>

lemma page_deallocate_block:
  assumes inv: "page_inv s" and j: "j < length (allocator_pools s)" and pos: "0 < unat pages"
    and blk: "{j} \<times> {k..<k + unat pages} \<subseteq> marked s"
    and base: "unat base = page_address (allocator_pools s) (j, k)"
  shows "page_deallocate base pages s =
    Inr (s\<lparr>memory := bitmap_unset_run (memory s) (bitmap_base (allocator_pools s ! j)) (of_nat k) pages\<rparr>)"
    and "k + unat pages \<le> unat (bitmap_entries (allocator_pools s ! j))"
proof -
  let ?p = "allocator_pools s ! j"
  have jk: "(j, k) \<in> marked s" using blk pos by auto
  show fit: "k + unat pages \<le> unat (bitmap_entries ?p)"
    using blk pos by (auto simp: marked_def dest!: subsetD [of _ _ "(j, k + unat pages - 1)"])
  have "unat (base - allocate_base ?p) = 4096 * k"
    using base by (subst unat_minus_exact) (simp_all add: page_address_def)
  then have "unat ((base - allocate_base ?p) div PAGE) = unat (of_nat k :: u64)"
    using le_unat_2p64 [OF fit] by (simp add: unat_div unat_of_nat_exact)
  then have idx: "(base - allocate_base ?p) div PAGE = of_nat k"
    by (simp only: u64_eq_unat_iff)
  have "s\<lparr>memory := m, page_allocator_lock := 0\<rparr> = s\<lparr>memory := m\<rparr>" for m
    using inv by (simp add: page_inv_def)
  then show "page_deallocate base pages s =
    Inr (s\<lparr>memory := bitmap_unset_run (memory s) (bitmap_base ?p) (of_nat k) pages\<rparr>)"
    using inv pool_claims_unique [OF inv j jk base]
    by (simp add: page_deallocate_def page_inv_def Let_def idx)
qed

lemma page_deallocate_marked:
  assumes inv: "page_inv s" and j: "j < length (allocator_pools s)" and pos: "0 < unat pages"
    and blk: "{j} \<times> {k..<k + unat pages} \<subseteq> marked s"
    and base: "unat base = page_address (allocator_pools s) (j, k)"
    and ok: "page_deallocate base pages s = Inr s'"
  shows "marked s' = marked s - {j} \<times> {k..<k + unat pages}"
proof -
  let ?ps = "allocator_pools s"
  have st: "\<And>i. i < length ?ps \<Longrightarrow> pool_static (?ps ! i)"
    using inv by (simp add: page_inv_def)
  note d = page_deallocate_block [OF inv j pos blk base]
  have s': "s' = s\<lparr>memory := bitmap_unset_run (memory s) (bitmap_base (?ps ! j)) (of_nat k) pages\<rparr>"
    using ok d(1) by simp
  show ?thesis
  proof (intro set_eqI)
    fix il :: "nat \<times> nat"
    obtain i l where il: "il = (i, l)" by (cases il)
    have "i < length ?ps \<Longrightarrow> i \<noteq> j \<Longrightarrow> pool_hi (?ps ! j) \<le> pool_lo (?ps ! i) \<or> pool_hi (?ps ! i) \<le> pool_lo (?ps ! j)"
      using pools_disjointD [of ?ps j i] inv j by (auto simp: page_inv_def)
    then show "il \<in> marked s' \<longleftrightarrow> il \<in> marked s - {j} \<times> {k..<k + unat pages}"
      using unset_run_bits(1) [OF st [OF j] d(2), of l] unset_run_bits(2) [OF st [OF j] d(2), of "?ps ! i" l] st [of i]
      by (cases "i = j") (auto simp: il marked_def s')
  qed
qed

lemma marked_counts:
  assumes "pool_static (allocator_pools s ! j)" "j < length (allocator_pools s)"
    and "pool_counts (memory s) (allocator_pools s ! j)" "marked s' \<subseteq> marked s"
    and "allocator_pools s' = allocator_pools s"
  shows "pool_counts (memory s') (allocator_pools s ! j)"
  using assms by (auto simp: pool_counts_def marked_def)

lemma page_deallocate_inv:
  assumes inv: "page_inv s" and blk: "allocated_block s base pages"
  obtains s' where "page_deallocate base pages s = Inr s'" "page_inv s'"
    "frames s' = frames s - frame_block base (unat pages)"
    "allocator_pools s' = allocator_pools s"
proof -
  obtain j k where j: "j < length (allocator_pools s)" and pos: "0 < unat pages"
    and sub: "{j} \<times> {k..<k + unat pages} \<subseteq> marked s"
    and base: "unat base = page_address (allocator_pools s) (j, k)"
    using blk by (auto simp: allocated_block_def)
  let ?s' = "s\<lparr>memory := bitmap_unset_run (memory s) (bitmap_base (allocator_pools s ! j)) (of_nat k) pages\<rparr>"
  have ok: "page_deallocate base pages s = Inr ?s'"
    by (rule page_deallocate_block(1) [OF inv j pos sub base])
  have m: "marked ?s' = marked s - {j} \<times> {k..<k + unat pages}"
    by (rule page_deallocate_marked [OF inv j pos sub base ok])
  have "page_inv ?s'"
    using inv m marked_counts [of s _ ?s'] by (auto simp: page_inv_def in_set_conv_nth Ball_def)
  moreover have "frames ?s' = frames s - frame_block base (unat pages)"
  proof -
    have "frame_block base (unat pages) = page_address (allocator_pools s) ` ({j} \<times> {k..<k + unat pages})"
      by (rule frame_block_run [OF base])
    moreover have "inj_on (page_address (allocator_pools s)) (marked s)"
      using inv marked_in_region [OF inv]
      by (intro inj_on_subset [OF page_address_inj]) (auto simp: page_inv_def)
    ultimately show ?thesis
      using sub by (simp add: frames_def m inj_on_image_set_diff)
  qed
  ultimately show thesis using that ok by simp
qed

end
