(* ===== verification/Page_Allocator_Correct.thy ===== *)
theory Page_Allocator_Correct
  imports Page_Allocator
begin

text \<open>
  Correctness of the page allocator: the boot memory map gives well-formed pools, the
  operations provide the frame interface (a locale interpretation), and the properties of
  allocation, release, repeated use and statistics. The state predicate is \<open>page_inv\<close>; the
  abstract view of a state is the set \<open>frames\<close> of page addresses handed out.
\<close>

subsection \<open>Initialisation establishes the invariant\<close>

lemma zero64_fold:
  "fold (\<lambda>i m. m(s + 8 * of_nat i := 0)) [0..<n] m a = (if \<exists>i < n. a = s + 8 * of_nat i then 0 else m a)"
  for a :: u64
  by (induction n) (auto simp: less_Suc_eq)

lemma zero64_apply:
  "zero64 m s n a = (if \<exists>i < unat (n div 8). a = s + 8 * of_nat i then 0 else m a)"
  by (simp add: zero64_def zero64_fold)

text \<open>The bitmap bytes of a region hold one bit per page of it.\<close>

definition bitmap_covers :: "u64 \<Rightarrow> bool" where
  "bitmap_covers len \<longleftrightarrow> unat len div 4096 \<le> 8 * unat (required_bitmap_bytes len)"

text \<open>
  What the boot protocol guarantees of the usable entries: page alignment, a place inside the higher half, ascending order and
  no overlap.
\<close>

definition entry_placed :: "u64 \<Rightarrow> memmap_entry \<Rightarrow> bool" where
  "entry_placed hhdm e \<longleftrightarrow>
     4096 dvd unat (entry_base e) \<and> 4096 dvd unat (entry_length e) \<and> 4096 dvd unat hhdm \<and>
     0 < unat hhdm \<and> unat (entry_length e) < 2 ^ 63 \<and>
     unat (entry_base e) + unat (entry_length e) + unat hhdm < 2 ^ 64"

definition entry_before :: "memmap_entry \<Rightarrow> memmap_entry \<Rightarrow> bool" where
  "entry_before e f \<longleftrightarrow> unat (entry_base e) + unat (entry_length e) \<le> unat (entry_base f)"

definition promised_map :: "u64 \<Rightarrow> memmap_entry list \<Rightarrow> bool" where
  "promised_map hhdm es \<longleftrightarrow>
     list_all (\<lambda>e. entry_taken e \<longrightarrow> entry_placed hhdm e) es \<and> sorted_wrt entry_before (filter entry_taken es)"

text \<open>What the code needs besides: the bitmaps have room for every page, and the array of pools has room for every region.\<close>

definition entry_ok :: "u64 \<Rightarrow> memmap_entry \<Rightarrow> bool" where
  "entry_ok hhdm e \<longleftrightarrow> entry_placed hhdm e \<and> bitmap_covers (entry_length e)"

definition memmap_ok :: "u64 \<Rightarrow> memmap_entry list \<Rightarrow> bool" where
  "memmap_ok hhdm es \<longleftrightarrow>
     promised_map hhdm es \<and> list_all (\<lambda>e. entry_taken e \<longrightarrow> bitmap_covers (entry_length e)) es \<and>
     length (filter entry_taken es) \<le> 128"

lemma memmap_ok_entries: "memmap_ok hhdm es \<Longrightarrow> list_all (\<lambda>e. entry_taken e \<longrightarrow> entry_ok hhdm e) es"
  by (simp add: memmap_ok_def promised_map_def entry_ok_def list_all_iff)

lemma required_bitmap_bytes_unat:
  shows "4096 dvd unat (required_bitmap_bytes len)"
    and "unat (required_bitmap_bytes len) \<le> unat len div 32768 + 4095"
proof -
  define n where "n = len div PAGE div 8"
  have un: "unat n = unat len div 32768"
    by (simp add: n_def unat_div div_mult2_eq)
  then have small: "unat n + 4096 < 2 ^ 64"
    using unat_less_2p64 [of len] by simp
  have um: "unat (n mod PAGE) = unat n mod 4096" by (simp add: unat_mod)
  then have z: "n mod PAGE = 0 \<longleftrightarrow> unat n mod 4096 = 0"
    by (metis unat_0 u64_eq_unat_iff)
  have "unat (PAGE - n mod PAGE) = 4096 - unat n mod 4096"
    using um by (subst unat_minus_exact) (simp_all add: less_imp_le)
  then have "unat (n + (PAGE - n mod PAGE)) = unat n + (4096 - unat n mod 4096)"
    using small by (subst unat_plus_exact) simp_all
  then have eq: "unat (required_bitmap_bytes len) =
     (if unat n mod 4096 = 0 then unat n else unat n + (4096 - unat n mod 4096))"
    by (simp add: required_bitmap_bytes_def Let_def n_def [symmetric] z)
  show "unat (required_bitmap_bytes len) \<le> unat len div 32768 + 4095"
    unfolding eq un by (auto split: if_splits)
  have "unat n + (4096 - unat n mod 4096) = 4096 * (unat n div 4096 + 1)"
    by (rule round_up_eq) simp
  then show "4096 dvd unat (required_bitmap_bytes len)"
    unfolding eq by (simp add: dvd_eq_mod_eq_0)
qed

lemma pool_of_entry_geometry:
  assumes ok: "entry_ok hhdm e" and taken: "entry_taken e"
  defines "p \<equiv> pool_of_entry hhdm e"
  shows "pool_lo p = unat (entry_base e) + unat hhdm"
    and "pool_hi p = unat (entry_base e) + unat (entry_length e) + unat hhdm"
    and "unat (allocate_base p) = unat (entry_base e) + unat (required_bitmap_bytes (entry_length e)) + unat hhdm"
    and "unat (total p) = unat (entry_length e) - unat (required_bitmap_bytes (entry_length e))"
    and "unat (bitmap_entries p) = unat (entry_length e) div 4096"
    and "unat (required_bitmap_bytes (entry_length e)) < unat (entry_length e)"
proof -
  let ?r = "required_bitmap_bytes (entry_length e)"
  have "131072 < unat (entry_length e)"
    using taken by (simp add: entry_taken_def word_le_nat_alt)
  then show lt: "unat ?r < unat (entry_length e)"
    using required_bitmap_bytes_unat(2) [of "entry_length e"] by linarith
  have sum: "unat (entry_base e) + unat (entry_length e) + unat hhdm < 2 ^ 64"
    using ok by (simp add: entry_ok_def entry_placed_def)
  show lo: "pool_lo p = unat (entry_base e) + unat hhdm"
    using sum unat_plus_exact [of "entry_base e" hhdm] by (simp add: p_def pool_of_entry_def pool_lo_def Let_def)
  have "unat (entry_base e + ?r) = unat (entry_base e) + unat ?r"
    using sum lt by (intro unat_plus_exact) simp
  then show al: "unat (allocate_base p) = unat (entry_base e) + unat ?r + unat hhdm"
    using sum lt unat_plus_exact [of "entry_base e + ?r" hhdm] by (simp add: p_def pool_of_entry_def Let_def)
  show to: "unat (total p) = unat (entry_length e) - unat ?r"
    using lt by (simp add: p_def pool_of_entry_def Let_def unat_minus_exact)
  show "pool_hi p = unat (entry_base e) + unat (entry_length e) + unat hhdm"
    using lt by (simp add: pool_hi_def al to)
  show "unat (bitmap_entries p) = unat (entry_length e) div 4096"
    by (simp add: p_def pool_of_entry_def Let_def unat_div)
qed

lemma pool_of_entry_static:
  assumes ok: "entry_ok hhdm e" and taken: "entry_taken e"
  shows "pool_static (pool_of_entry hhdm e)"
proof -
  let ?p = "pool_of_entry hhdm e" and ?r = "unat (required_bitmap_bytes (entry_length e))"
  let ?E = "unat (entry_length e) div 4096"
  note g = pool_of_entry_geometry [OF ok taken]
  have lo: "unat (bitmap_base ?p) = unat (entry_base e) + unat hhdm"
    using g(1) by (simp add: pool_lo_def)
  have al: "4096 dvd unat (entry_base e)" "4096 dvd unat hhdm" "0 < unat hhdm"
    and len: "unat (entry_length e) < 2 ^ 63"
    using ok by (simp_all add: entry_ok_def entry_placed_def)
  have d8: "8 dvd a" if "4096 dvd a" for a :: nat
    using that dvd_trans [of 8 4096 a] by simp
  obtain c where c: "?r = 4096 * c" using required_bitmap_bytes_unat(1) [of "entry_length e"] by (elim dvdE)
  have "?E \<le> 8 * ?r" using ok by (simp add: entry_ok_def bitmap_covers_def)
  then have "(?E + 63) div 64 \<le> 512 * c" unfolding c by linarith
  then have bits: "8 * ((?E + 63) div 64) \<le> ?r" unfolding c by simp
  have "unat (entry_length e) - ?r + 4096 * ?E < 2 ^ 64" using len by simp
  moreover have "(unat (entry_length e) - ?r) div 4096 \<le> ?E" by (simp add: div_le_mono)
  moreover have "unat (entry_base e) + ?r + unat hhdm + (unat (entry_length e) - ?r) < 2 ^ 64"
    using ok g(6) by (simp add: entry_ok_def entry_placed_def)
  ultimately show ?thesis
    unfolding pool_static_def g(3,4,5) lo
    using al bits required_bitmap_bytes_unat(1) [of "entry_length e"] by (auto intro: d8 dvd_add)
qed

text \<open>The freshly cleared bitmap is empty, and clearing it touches no other pool.\<close>

lemma zero64_bitmap:
  assumes ok: "entry_ok hhdm e" and taken: "entry_taken e"
  defines "p \<equiv> pool_of_entry hhdm e" and "r \<equiv> required_bitmap_bytes (entry_length e)"
  shows "k < unat (bitmap_entries p) \<Longrightarrow> \<not> bitmap_bit (zero64 m (bitmap_base p) r) (bitmap_base p) k"
    and "unat a < pool_lo p \<or> pool_hi p \<le> unat a \<Longrightarrow> zero64 m (bitmap_base p) r a = m a"
proof -
  note g = pool_of_entry_geometry [OF ok taken, folded p_def r_def]
  have st: "pool_static p" unfolding p_def by (rule pool_of_entry_static [OF ok taken])
  have r: "unat (allocate_base p) = unat (bitmap_base p) + unat r"
    using g(1,3) by (simp add: pool_lo_def)
  have n: "unat (r div 8) = unat r div 8" by (simp add: unat_div)
  show "\<not> bitmap_bit (zero64 m (bitmap_base p) r) (bitmap_base p) k" if "k < unat (bitmap_entries p)"
  proof -
    have "8 * ((unat (bitmap_entries p) + 63) div 64) \<le> unat r"
      using st r by (simp add: pool_static_def)
    then have "(unat (bitmap_entries p) + 63) div 64 \<le> unat (r div 8)" unfolding n by linarith
    moreover have "k div 64 < (unat (bitmap_entries p) + 63) div 64" using that by linarith
    ultimately have "k div 64 < unat (r div 8)" by linarith
    then show ?thesis by (auto simp: bitmap_bit_def zero64_apply)
  qed
  show "zero64 m (bitmap_base p) r a = m a" if a: "unat a < pool_lo p \<or> pool_hi p \<le> unat a"
  proof -
    have "a \<noteq> bitmap_base p + 8 * of_nat i" if i: "i < unat (r div 8)" for i
    proof -
      have "8 * i < unat r" using i n by linarith
      then have "unat (8 * of_nat i :: u64) = 8 * i"
        using less_unat_2p64 [of "8 * i" r] unat_of_nat_exact [of "8 * i"] by simp
      moreover have "unat (bitmap_base p) + 8 * i < pool_hi p"
        using \<open>8 * i < unat r\<close> r by (simp add: pool_hi_def)
      moreover have "pool_hi p < 2 ^ 64" using st by (simp add: pool_static_def pool_hi_def)
      ultimately have "unat (bitmap_base p + 8 * of_nat i) = unat (bitmap_base p) + 8 * i"
        by (subst unat_plus_exact) simp_all
      then show ?thesis using a \<open>unat (bitmap_base p) + 8 * i < pool_hi p\<close> by (auto simp: pool_lo_def)
    qed
    then show ?thesis by (auto simp: zero64_apply)
  qed
qed

lemma pools_disjoint_append:
  assumes "pools_disjoint ps" "\<forall>q \<in> set ps. pool_hi q \<le> pool_lo p"
  shows "pools_disjoint (ps @ [p])"
  using assms unfolding pools_disjoint_def by (auto simp: nth_append less_Suc_eq)

lemma create_pool_inv:
  assumes inv: "page_inv s" and empty: "marked s = {}" and ok: "entry_ok (kernel_hhdm_offset s) e"
    and taken: "entry_taken e" and cap: "length (allocator_pools s) < 128"
    and before: "\<forall>q \<in> set (allocator_pools s). pool_hi q \<le> pool_lo (pool_of_entry (kernel_hhdm_offset s) e)"
  obtains s' where "create_pool e s = Inr s'" "page_inv s'" "marked s' = {}"
    "allocator_pools s' = allocator_pools s @ [pool_of_entry (kernel_hhdm_offset s) e]"
    "kernel_hhdm_offset s' = kernel_hhdm_offset s"
proof -
  define p where "p = pool_of_entry (kernel_hhdm_offset s) e"
  define s' where "s' = s\<lparr>allocator_pools := allocator_pools s @ [p],
     memory := zero64 (memory s) (bitmap_base p) (required_bitmap_bytes (entry_length e))\<rparr>"
  note z = zero64_bitmap [OF ok taken, folded p_def]
  have st: "pool_static p" unfolding p_def by (rule pool_of_entry_static [OF ok taken])
  have keep: "bitmap_bit (memory s') (bitmap_base q) k = bitmap_bit (memory s) (bitmap_base q) k"
    if q: "q \<in> set (allocator_pools s)" "k < unat (bitmap_entries q)" for q k
  proof (rule bitmap_bit_cong [OF _ q(2)])
    show "pool_static q" using inv q by (simp add: page_inv_def)
    fix a :: u64 assume "unat a < unat (allocate_base q)"
    then have "unat a < pool_lo p" using before q by (fastforce simp: p_def pool_hi_def)
    then show "memory s' a = memory s a" by (simp add: s'_def z(2))
  qed
  have "pool_counts (memory s') q" if "q \<in> set (allocator_pools s)" for q
    using inv that keep by (auto simp: page_inv_def pool_counts_def)
  moreover have "pool_counts (memory s') p"
    using z(1) by (simp add: pool_counts_def s'_def) (simp add: p_def pool_of_entry_def Let_def)
  ultimately have "page_inv s'"
    using inv st before by (auto simp: page_inv_def s'_def p_def intro: pools_disjoint_append)
  moreover have "marked s' = {}"
    using empty z(1) keep by (auto simp: marked_def s'_def nth_append less_Suc_eq)
  ultimately show thesis
    using that [of s'] taken cap by (simp add: create_pool_def s'_def p_def Let_def)
qed

lemma create_pools_inv:
  assumes "page_inv s" "marked s = {}" "list_all (\<lambda>e. entry_taken e \<longrightarrow> entry_ok (kernel_hhdm_offset s) e) es"
    and "sorted_wrt entry_before (filter entry_taken es)" "length (allocator_pools s) + length (filter entry_taken es) \<le> 128"
    and "\<forall>q \<in> set (allocator_pools s). \<forall>e \<in> set (filter entry_taken es). pool_hi q \<le> unat (entry_base e) + unat (kernel_hhdm_offset s)"
  shows "\<exists>s'. page_allocator_create_pools es s = Inr s' \<and> page_inv s' \<and> marked s' = {} \<and>
     allocator_pools s' = allocator_pools s @ map (pool_of_entry (kernel_hhdm_offset s)) (filter entry_taken es)"
  using assms
proof (induction es arbitrary: s)
  case Nil
  then show ?case by simp
next
  case (Cons e es)
  show ?case
  proof (cases "entry_taken e")
    case False
    then show ?thesis using Cons by (simp add: create_pool_def)
  next
    case True
    let ?h = "kernel_hhdm_offset s"
    have ok: "entry_ok ?h e" using Cons.prems True by simp
    note g = pool_of_entry_geometry [OF ok True]
    have bef: "\<forall>q \<in> set (allocator_pools s). pool_hi q \<le> pool_lo (pool_of_entry ?h e)"
      using Cons.prems(6) True by (simp add: g(1))
    have cap: "length (allocator_pools s) < 128" using Cons.prems(5) True by simp
    obtain s1 where s1: "create_pool e s = Inr s1" "page_inv s1" "marked s1 = {}"
      "allocator_pools s1 = allocator_pools s @ [pool_of_entry ?h e]" "kernel_hhdm_offset s1 = ?h"
      using create_pool_inv [OF Cons.prems(1,2) ok True cap bef] .
    have "\<forall>q \<in> set (allocator_pools s1). \<forall>f \<in> set (filter entry_taken es). pool_hi q \<le> unat (entry_base f) + unat ?h"
      using Cons.prems(4,6) True by (auto simp: s1(4) g(2) entry_before_def)
    with Cons.IH [of s1] Cons.prems True show ?thesis by (simp add: s1)
  qed
qed

text \<open>The loop over the memory map in general: it fails at the 129th region and otherwise only adds pools.\<close>

lemma create_pools_shape:
  "length (allocator_pools s) \<le> 128 \<Longrightarrow>
   (if length (allocator_pools s) + length (filter entry_taken es) \<le> 128
    then \<exists>s'. page_allocator_create_pools es s = Inr s' \<and> page_allocator_lock s' = page_allocator_lock s \<and>
       allocator_pools s' = allocator_pools s @ map (pool_of_entry (kernel_hhdm_offset s)) (filter entry_taken es)
    else page_allocator_create_pools es s = Inl Out_Of_Bounds)"
proof (induction es arbitrary: s)
  case (Cons e es)
  show ?case
  proof (cases "entry_taken e \<and> length (allocator_pools s) < 128")
    case True
    then obtain s1 where "create_pool e s = Inr s1" "allocator_pools s1 = allocator_pools s @ [pool_of_entry (kernel_hhdm_offset s) e]"
      "kernel_hhdm_offset s1 = kernel_hhdm_offset s" "page_allocator_lock s1 = page_allocator_lock s"
      by (simp add: create_pool_def Let_def)
    then show ?thesis using Cons.IH [of s1] True by (auto split: if_splits)
  next
    case False
    then show ?thesis using Cons by (auto simp: create_pool_def)
  qed
qed simp

lemma pool_static_covers:
  assumes "entry_placed hhdm e" "entry_taken e" "pool_static (pool_of_entry hhdm e)"
  shows "bitmap_covers (entry_length e)"
proof (rule ccontr)
  assume "\<not> ?thesis"
  then have less: "8 * unat (required_bitmap_bytes (entry_length e)) < unat (entry_length e) div 4096"
    by (simp add: bitmap_covers_def)
  let ?p = "pool_of_entry hhdm e" and ?r = "unat (required_bitmap_bytes (entry_length e))" and ?E = "unat (entry_length e) div 4096"
  have "?r < unat (entry_length e)" using less by linarith
  moreover have "unat (entry_base e) + unat (entry_length e) + unat hhdm < 2 ^ 64" using assms(1) by (simp add: entry_placed_def)
  ultimately have "unat (bitmap_base ?p) = unat (entry_base e) + unat hhdm" "unat (allocate_base ?p) = unat (entry_base e) + ?r + unat hhdm"
    by (simp_all add: pool_of_entry_def Let_def unat_plus_exact)
  moreover have "unat (bitmap_entries ?p) = ?E" by (simp add: pool_of_entry_def Let_def unat_div)
  ultimately have "8 * ((?E + 63) div 64) \<le> ?r" using assms(3) by (simp add: pool_static_def)
  moreover obtain c where "?r = 4096 * c" using required_bitmap_bytes_unat(1) [of "entry_length e"] by (elim dvdE)
  ultimately show False using less by linarith
qed

subsection \<open>The allocator provides the frame interface\<close>

lemma page_allocate_inv: "page_inv s \<Longrightarrow> page_allocate n s = Inr (p, s') \<Longrightarrow> page_inv s'"
  by (rule page_allocate_multi_inv [OF _ at_least_one_pos]) (simp_all add: page_allocate_eq)

lemma page_allocate_frames:
  assumes "page_inv s" "page_allocate n s = Inr (p, s')"
  shows "frames s' = frames s \<union> frame_block p (unat (at_least_one n))"
    and "frames s \<inter> frame_block p (unat (at_least_one n)) = {}"
  using page_allocate_multi_frames [OF assms(1) at_least_one_pos] assms(2)
  by (simp_all add: page_allocate_eq)

lemma page_allocate_owned:
  assumes inv: "page_inv s" and ok: "page_allocate n s = Inr (ptr, s')"
  shows "allocated_block s' ptr (at_least_one n)"
proof -
  let ?n = "at_least_one n"
  have ok': "page_allocate_multi ?n s = Inr (ptr, s')" using ok by (simp add: page_allocate_eq)
  obtain i p x where i: "i < length (allocator_pools s)" and p: "p = allocator_pools s ! i"
    and st: "pool_static p" and run: "pool_run (memory s) p x ?n"
    and ptr: "ptr = allocate_base p + of_nat x * PAGE"
    and s': "s' = s\<lparr>memory := alloc_memory (memory s) p x ?n,
            allocator_pools := (allocator_pools s)[i := alloc_pool p x ?n],
            page_allocator_lock := 0\<rparr>"
    using page_allocate_multiE [OF inv at_least_one_pos ok'] by metis
  have "marked s' = marked s \<union> {i} \<times> {x..<x + unat ?n}"
    by (rule page_allocate_multi_marked(1) [OF inv i p st run]) (simp_all add: s')
  then have "{i} \<times> {x..<x + unat ?n} \<subseteq> marked s'" by blast
  moreover have "unat ptr = page_address (allocator_pools s') (i, x)"
    using run_bounds(3) [OF st run] i by (simp add: ptr s' page_address_def)
  ultimately show ?thesis
    using i at_least_one_pos unfolding allocated_block_def
    by (intro exI [of _ i] exI [of _ x]) (simp add: s')
qed

interpretation pf: frame_allocator page_inv frames allocated_block page_allocate page_deallocate
proof
  fix s s' :: "'a page_state_scheme" and n p :: u64
  show "page_inv s'" if "page_inv s" "page_allocate n s = Inr (p, s')"
    using that by (rule page_allocate_inv)
  show "frames s' = frames s \<union> frame_block p (unat (at_least_one n))"
    if "page_inv s" "page_allocate n s = Inr (p, s')"
    using that by (rule page_allocate_frames(1))
  show "frames s \<inter> frame_block p (unat (at_least_one n)) = {}"
    if "page_inv s" "page_allocate n s = Inr (p, s')"
    using that by (rule page_allocate_frames(2))
  show "allocated_block s' p (at_least_one n)" if "page_inv s" "page_allocate n s = Inr (p, s')"
    using that by (rule page_allocate_owned)
  show "\<exists>s'. page_deallocate p n s = Inr s' \<and> page_inv s' \<and> frames s' = frames s - frame_block p (unat n)"
    if "page_inv s" "allocated_block s p n"
    using page_deallocate_inv [OF that] by metis
qed

text \<open>Where a page handed out lies: inside the region of a pool, after its bitmap.\<close>

lemma frame_in_pool:
  assumes inv: "page_inv s" and f: "f \<in> frames s"
  obtains p where "p \<in> set (allocator_pools s)" "unat (allocate_base p) \<le> f" "f + 4096 \<le> pool_hi p"
    "4096 dvd f"
proof -
  obtain j k where jk: "(j, k) \<in> marked s" and fa: "f = page_address (allocator_pools s) (j, k)"
    using f by (auto simp: frames_def)
  define p where "p = allocator_pools s ! j"
  have j: "j < length (allocator_pools s)" and k: "k < unat (bitmap_entries p)"
    and bit: "bitmap_bit (memory s) (bitmap_base p) k"
    using jk by (auto simp: marked_def p_def)
  have st: "pool_static p" and ct: "pool_counts (memory s) p"
    using inv j by (auto simp: page_inv_def p_def)
  have "4096 * k < unat (used p)" using ct bit k by (auto simp: pool_counts_def not_le [symmetric])
  moreover have "4096 dvd unat (used p)" "unat (used p) \<le> unat (total p)"
    using ct by (auto simp: pool_counts_def)
  ultimately have "4096 * k + 4096 \<le> unat (total p)" by (auto elim!: dvdE)
  then show thesis
    using that [of p] j st fa by (simp add: pool_hi_def page_address_def p_def pool_static_def)
qed

lemma frame_page:
  assumes inv: "page_inv s" and f: "f \<in> frames s"
  shows "0 < f \<and> 4096 dvd f \<and> f + 4096 < 2 ^ 64"
proof -
  obtain p where p: "p \<in> set (allocator_pools s)" "unat (allocate_base p) \<le> f" "f + 4096 \<le> pool_hi p"
    "4096 dvd f"
    using frame_in_pool [OF assms] .
  moreover have "pool_static p" using inv p(1) by (auto simp: page_inv_def)
  ultimately show ?thesis by (auto simp: pool_static_def pool_hi_def)
qed

lemma frame_not_in_bitmap:
  assumes inv: "page_inv s" and f: "f \<in> frames s" and a: "f \<le> a" "a < f + 4096"
    and q: "q \<in> set (allocator_pools s)"
  shows "a < pool_lo q \<or> unat (allocate_base q) \<le> a"
proof -
  obtain p where p: "p \<in> set (allocator_pools s)" "unat (allocate_base p) \<le> f" "f + 4096 \<le> pool_hi p"
    using frame_in_pool [OF inv f] .
  have st: "pool_static p" "pool_static q" using inv p(1) q by (auto simp: page_inv_def)
  have "p = q \<or> pool_hi p \<le> pool_lo q \<or> pool_hi q \<le> pool_lo p"
    using inv p(1) q unfolding page_inv_def pools_disjoint_def by (metis in_set_conv_nth)
  then show ?thesis
    using p a st by (auto simp: pool_static_def pool_hi_def pool_lo_def)
qed

lemma page_allocate_keeps:
  assumes inv: "page_inv s" and ok: "page_allocate n s = Inr (ptr, s')"
    and f: "f \<in> frames s" and a: "f \<le> unat a" "unat a < f + 4096"
  shows "memory s' a = memory s a"
proof (rule page_allocate_multi_frame [OF inv at_least_one_pos ok [unfolded page_allocate_eq]])
  show "\<forall>p \<in> set (allocator_pools s). unat a < pool_lo p \<or> unat (allocate_base p) \<le> unat a"
    using frame_not_in_bitmap [OF inv f a] by blast
  show "\<not> (unat ptr \<le> unat a \<and> unat a < unat ptr + 4096 * unat (at_least_one n))"
  proof
    assume blk: "unat ptr \<le> unat a \<and> unat a < unat ptr + 4096 * unat (at_least_one n)"
    have "4096 dvd f" using frame_page [OF inv f] by blast
    moreover have "4096 dvd unat ptr"
      using page_allocate_multi_block(1) [OF inv at_least_one_pos ok [unfolded page_allocate_eq]] .
    ultimately obtain x y where xy: "f = 4096 * x" "unat ptr = 4096 * y" by (meson dvd_def)
    then have "4096 * y < 4096 * (x + 1)" "4096 * x < 4096 * (y + unat (at_least_one n))"
      using a blk by simp_all
    then have "y \<le> x" "x - y < unat (at_least_one n)" by simp_all
    then have "f \<in> frame_block ptr (unat (at_least_one n))"
      unfolding frame_block_def by (intro image_eqI [of _ _ "x - y"]) (simp_all add: xy algebra_simps)
    then show False using page_allocate_frames(2) [OF inv ok] f by blast
  qed
qed

interpretation pz: zeroing_frame_allocator page_inv frames allocated_block page_allocate page_deallocate memory
proof
  fix s s' :: "'a page_state_scheme" and n p a :: u64 and f :: nat
  show "0 < f \<and> 4096 dvd f \<and> f + 4096 < 2 ^ 64" if "page_inv s" "f \<in> frames s"
    using frame_page [OF that] .
  show "memory s' a = 0" if "page_inv s" "page_allocate n s = Inr (p, s')"
    "unat a - unat p < 4096 * unat (at_least_one n)" "unat p \<le> unat a"
    using page_allocate_multi_block(4) [OF that(1) at_least_one_pos that(2) [unfolded page_allocate_eq]]
      that(3,4) by simp
  show "memory s' a = memory s a" if "page_inv s" "page_allocate n s = Inr (p, s')" "f \<in> frames s"
    "f \<le> unat a" "unat a < f + 4096"
    using page_allocate_keeps [OF that] .
qed

lemma page_allocate_outcomes:
  assumes "page_allocator_lock s = 0"
  shows "(\<exists>r. page_allocate pages s = Inr r) \<or> (\<exists>msg. page_allocate pages s = Inl (Panic msg))"
proof -
  have "(\<exists>r. page_allocate_single_fast s = Inr r) \<or> (\<exists>msg. page_allocate_single_fast s = Inl (Panic msg))"
    unfolding page_allocate_single_fast_def using assms
    by (cases "page_scan_single (memory s) (allocator_pools s)") (auto simp: Let_def)
  moreover have "(\<exists>r. page_allocate_multi n s = Inr r) \<or> (\<exists>msg. page_allocate_multi n s = Inl (Panic msg))" for n
    unfolding page_allocate_multi_def using assms
    by (cases "page_scan (memory s) n (n * PAGE) (allocator_pools s)") (auto simp: Let_def)
  ultimately show ?thesis by (simp add: page_allocate_def Let_def)
qed

lemma page_allocate_no_room:
  assumes "page_inv s" "\<forall>p \<in> set (allocator_pools s). unat (available p) < 4096 * unat (at_least_one pages)"
  shows "\<exists>msg. page_allocate pages s = Inl (Panic msg)"
proof -
  have "page_allocate pages s \<noteq> Inr (ptr, s')" for ptr s'
    using page_allocate_multi_room [OF assms(1) at_least_one_pos, of pages ptr s'] assms(2)
    by (auto simp: page_allocate_eq not_le [symmetric])
  then show ?thesis
    using assms(1) page_allocate_outcomes [of s pages] by (auto simp: page_inv_def)
qed

subsection \<open>What a pool has left to hand out\<close>

definition room :: "'a page_state_scheme \<Rightarrow> nat" where
  "room s = sum_list (map (\<lambda>p. unat (available p)) (allocator_pools s))"

lemma page_allocate_room:
  assumes inv: "page_inv s" and ok: "page_allocate n s = Inr (ptr, s')"
  shows "room s = room s' + 4096 * unat (at_least_one n)"
proof -
  let ?n = "at_least_one n"
  have ok': "page_allocate_multi ?n s = Inr (ptr, s')" using ok by (simp add: page_allocate_eq)
  obtain i p x where i: "i < length (allocator_pools s)" and p: "p = allocator_pools s ! i"
    and ct: "pool_counts (memory s) p" and run: "pool_run (memory s) p x ?n"
    and s': "s' = s\<lparr>memory := alloc_memory (memory s) p x ?n,
            allocator_pools := (allocator_pools s)[i := alloc_pool p x ?n],
            page_allocator_lock := 0\<rparr>"
    using page_allocate_multiE [OF inv at_least_one_pos ok'] by metis
  have a: "unat (available p - ?n * PAGE) + 4096 * unat ?n = unat (available p)"
    using run ct by (simp add: pool_run_def pool_counts_def unat_minus_exact)
  let ?av = "map (\<lambda>p. unat (available p)) (allocator_pools s)"
  have "unat (available p) \<le> sum_list ?av"
    using i p by (intro member_le_sum_list) auto
  then have "sum_list (?av[i := unat (available p - ?n * PAGE)]) + unat (available p)
      = sum_list ?av + unat (available p - ?n * PAGE)"
    using i p by (simp add: sum_list_update)
  then show ?thesis
    using a i p by (simp add: room_def s' alloc_pool_def map_update)
qed

fun alloc_free_cycles :: "nat \<Rightarrow> u64 \<Rightarrow> 'a page_state_scheme \<Rightarrow> 'a page_state_scheme res" where
  "alloc_free_cycles 0 n s = Inr s"
| "alloc_free_cycles (Suc k) n s =
     (case page_allocate n s of
        Inl e \<Rightarrow> Inl e
      | Inr (p, s1) \<Rightarrow>
          (case page_deallocate p (at_least_one n) s1 of
             Inl e \<Rightarrow> Inl e
           | Inr s2 \<Rightarrow> alloc_free_cycles k n s2))"

lemma alloc_free_cycle:
  assumes inv: "page_inv s" and ok: "page_allocate n s = Inr (p, s1)"
  obtains s2 where "page_deallocate p (at_least_one n) s1 = Inr s2" "page_inv s2"
    "frames s2 = frames s" "room s = room s2 + 4096 * unat (at_least_one n)"
    "allocator_pools s2 = allocator_pools s1"
proof -
  obtain s2 where s2: "page_deallocate p (at_least_one n) s1 = Inr s2" "page_inv s2" "frames s2 = frames s"
    using pf.alloc_free_roundtrip [OF assms] by blast
  moreover have "allocator_pools s2 = allocator_pools s1"
    using page_deallocate_inv [OF page_allocate_inv [OF assms] page_allocate_owned [OF assms]] s2(1)
    by (metis sum.inject(2))
  moreover from this have "room s = room s2 + 4096 * unat (at_least_one n)"
    using page_allocate_room [OF assms] by (simp add: room_def)
  ultimately show thesis using that by blast
qed

lemma alloc_free_cycles_room:
  "page_inv s \<Longrightarrow> alloc_free_cycles k n s = Inr s' \<Longrightarrow>
     frames s' = frames s \<and> room s = room s' + k * (4096 * unat (at_least_one n))"
proof (induction k arbitrary: s)
  case 0
  then show ?case by simp
next
  case (Suc k)
  obtain p s1 where a: "page_allocate n s = Inr (p, s1)"
    using Suc.prems(2) by (auto split: sum.splits)
  obtain s2 where s2: "page_deallocate p (at_least_one n) s1 = Inr s2" "page_inv s2"
    "frames s2 = frames s" "room s = room s2 + 4096 * unat (at_least_one n)"
    using alloc_free_cycle [OF Suc.prems(1) a] .
  have "alloc_free_cycles k n s2 = Inr s'" using Suc.prems(2) a s2(1) by simp
  from Suc.IH [OF s2(2) this] s2(3,4) show ?case by simp
qed

lemma foldl_add_u64: "foldl (\<lambda>t p. t + f p) (a :: u64) ps = a + sum_list (map f ps)"
  by (induction ps arbitrary: a) (simp_all add: add.assoc)

lemma pool_counts_word: "pool_counts m p \<Longrightarrow> used p + available p = total p"
  unfolding pool_counts_def u64_eq_unat_iff
  using unat_less_2p64 [of "total p"] by (subst unat_plus_exact) auto

lemma required_bitmap_bytes_cases:
  defines "q len \<equiv> unat len div 32768"
  shows "unat (required_bitmap_bytes len) =
     (if 4096 dvd q len then q len else 4096 * (q len div 4096 + 1))"
proof -
  define n where "n = len div PAGE div 8"
  have un: "unat n = q len"
    by (simp add: n_def q_def unat_div div_mult2_eq [symmetric])
  have "q len < 2 ^ 50" using unat_less_2p64 [of len] by (simp add: q_def less_mult_imp_div_less)
  have m: "unat (n mod PAGE) = q len mod 4096" by (simp add: unat_mod un)
  then have z: "n mod PAGE = 0 \<longleftrightarrow> 4096 dvd q len"
    by (simp only: u64_eq_unat_iff) (simp add: dvd_eq_mod_eq_0)
  have "unat (PAGE - n mod PAGE) = 4096 - q len mod 4096"
    by (subst unat_minus_exact) (simp_all add: m less_imp_le)
  then have "unat (n + (PAGE - n mod PAGE)) = q len + (4096 - q len mod 4096)"
    using \<open>q len < 2 ^ 50\<close> by (subst unat_plus_exact) (simp_all add: un)
  then show ?thesis
    using z round_up_eq [of 4096 "q len"]
    by (simp add: required_bitmap_bytes_def Let_def n_def [symmetric] un)
qed

lemma bitmap_undersized:
  "\<not> bitmap_covers len \<longleftrightarrow> 4096 dvd unat len div 32768 \<and> \<not> 8 dvd unat len div 4096"
proof -
  define n where "n = unat len div 4096"
  have q: "unat len div 32768 = n div 8" by (simp add: n_def div_mult2_eq [symmetric])
  have n: "n = 8 * (n div 8) + n mod 8" "n mod 8 < 8" by simp_all
  have "n \<le> 8 * (4096 * (n div 8 div 4096 + 1))"
  proof -
    have "n div 8 < 4096 * (n div 8 div 4096 + 1)"
      using mult_div_mod_eq [of 4096 "n div 8"] mod_less_divisor [of 4096 "n div 8"]
      unfolding distrib_left by linarith
    then show ?thesis using n by linarith
  qed
  moreover have "n \<le> 8 * (n div 8) \<longleftrightarrow> 8 dvd n" using n(1) unfolding dvd_eq_mod_eq_0 by linarith
  ultimately show ?thesis
    unfolding bitmap_covers_def required_bitmap_bytes_cases q n_def [symmetric] by auto
qed

text \<open>Consequence on a region of 32769 pages: bit 32768 is in the first page handed out.\<close>

lemma undersized_region_overlap:
  fixes e :: memmap_entry and hhdm :: u64
  assumes "entry_length e = 32769 * PAGE"
  defines "p \<equiv> pool_of_entry hhdm e"
  shows "bitmap_base p + 8 * (32768 div 64) = allocate_base p" "32768 < bitmap_entries p"
  by (simp_all add: p_def pool_of_entry_def required_bitmap_bytes_def assms(1) Let_def)

subsection \<open>Properties\<close>

text \<open>A small machine for the witnesses: one pool of two pages, its bitmap in the page before.\<close>

definition small_pool :: pool where
  "small_pool = \<lparr>allocate_base = 8192, bitmap_base = 4096, used = 0, available = 8192,
                 total = 8192, bitmap_entries = 3, last_allocated_page_index = 0\<rparr>"

definition small_state :: page_state where
  "small_state = \<lparr>memory = (\<lambda>_. 0), allocator_pools = [small_pool], page_allocator_lock = 0,
                  kernel_hhdm_offset = 4096\<rparr>"

lemma small_state_inv: "page_inv small_state"
  by (simp add: page_inv_def small_state_def small_pool_def pool_static_def pool_counts_def
      bitmap_bit_def pools_disjoint_def)

lemma small_state_frames: "frames small_state = {}"
  by (simp add: frames_def marked_def small_state_def bitmap_bit_def)

lemma small_state_allocates:
  "\<exists>p s'. page_allocate 2 small_state = Inr (p, s')"
proof -
  have "\<exists>p s'. page_allocate_multi 2 small_state = Inr (p, s')"
    by (rule page_allocate_multi_succeeds [OF small_state_inv, of _ small_pool])
       (simp_all add: small_state_def small_pool_def)
  then show ?thesis by (simp add: page_allocate_eq at_least_one_def)
qed

text \<open>
  (C17) Pool creation on a memory map whose usable regions are as the boot protocol promises them: page aligned, in the higher half,
  ascending and disjoint. With at most 128 regions larger than 128 KB it returns one pool for each of them, in map order; the
  allocator's invariant then holds, with no page marked, exactly when no region has a number of pages that
  leaves a remainder by 8 but whose eighth is a multiple of 4096: the bitmap of such a region is too
  short. The 129th region is a write outside the array of pools.
\<close>

theorem page_allocator_init_inv:
  assumes "promised_map (kernel_hhdm_offset s) es" "allocator_pools s = []" "page_allocator_lock s = 0"
  shows "if length (filter entry_taken es) \<le> 128
    then \<exists>s'. page_allocator_create_pools es s = Inr s' \<and>
      allocator_pools s' = map (pool_of_entry (kernel_hhdm_offset s)) (filter entry_taken es) \<and>
      page_inv s' = list_all (\<lambda>e. let n = unat (entry_length e) div 4096 in 8 dvd n \<or> \<not> 4096 dvd n div 8) (filter entry_taken es) \<and>
      (page_inv s' \<longrightarrow> frames s' = {})
    else page_allocator_create_pools es s = Inl Out_Of_Bounds"
proof (cases "length (filter entry_taken es) \<le> 128")
  case True
  let ?h = "kernel_hhdm_offset s" and ?ts = "filter entry_taken es"
  obtain s' where s': "page_allocator_create_pools es s = Inr s'" "allocator_pools s' = map (pool_of_entry ?h) ?ts"
    using create_pools_shape [of s es] assms(2) True by auto
  have covers: "bitmap_covers (entry_length e) \<longleftrightarrow> (let n = unat (entry_length e) div 4096 in 8 dvd n \<or> \<not> 4096 dvd n div 8)" for e
  proof -
    have "unat (entry_length e) div 4096 div 8 = unat (entry_length e) div 32768" by (simp only: div_mult2_eq [symmetric]) simp
    then show ?thesis using bitmap_undersized [of "entry_length e"] by (auto simp: Let_def)
  qed
  have ok: "page_inv s' \<and> frames s' = {}" if "list_all (\<lambda>e. bitmap_covers (entry_length e)) ?ts"
  proof -
    have "page_inv s" "marked s = {}" using assms(2,3) by (simp_all add: page_inv_def pools_disjoint_def marked_def)
    moreover have "list_all (\<lambda>e. entry_taken e \<longrightarrow> entry_ok ?h e) es"
      using assms(1) that by (auto simp: promised_map_def entry_ok_def list_all_iff)
    ultimately show ?thesis using create_pools_inv [of s es] assms True s'(1) by (auto simp: promised_map_def frames_def)
  qed
  have "bitmap_covers (entry_length e)" if "page_inv s'" "e \<in> set ?ts" for e
  proof (rule pool_static_covers)
    show "entry_placed ?h e" "entry_taken e" using assms(1) that(2) by (auto simp: promised_map_def list_all_iff)
    show "pool_static (pool_of_entry ?h e)" using that s'(2) by (auto simp: page_inv_def)
  qed
  then have "page_inv s' = list_all (\<lambda>e. bitmap_covers (entry_length e)) ?ts" using ok by (auto simp: list_all_iff)
  then show ?thesis using s' ok True by (auto simp: covers)
next
  case False
  then show ?thesis using create_pools_shape [of s es] assms(2) by simp
qed

definition small_memmap :: "memmap_entry list" where
  "small_memmap =
     [\<lparr>entry_base = 0, entry_length = 0x9f000, entry_type = MEMMAP_USABLE\<rparr>,
      \<lparr>entry_base = 0x9f000, entry_length = 0x1000, entry_type = MEMMAP_OTHER\<rparr>,
      \<lparr>entry_base = 0x100000, entry_length = 0x10000, entry_type = MEMMAP_USABLE\<rparr>,
      \<lparr>entry_base = 0x200000, entry_length = 0x400000, entry_type = MEMMAP_USABLE\<rparr>]"

definition boot_state :: page_state where
  "boot_state = \<lparr>memory = (\<lambda>_. 42), allocator_pools = [], page_allocator_lock = 0,
                 kernel_hhdm_offset = 0xffff800000000000\<rparr>"

lemma small_memmap_ok: "promised_map 0xffff800000000000 small_memmap"
  unfolding small_memmap_def promised_map_def
  by (simp add: entry_taken_def entry_placed_def entry_before_def)

theorem page_allocator_init_inv_witness:
  "\<exists>s'. page_allocator_create_pools small_memmap boot_state = Inr s' \<and> page_inv s' \<and> frames s' = {} \<and>
     allocator_pools s' = map (pool_of_entry 0xffff800000000000) (filter entry_taken small_memmap)"
proof -
  have "length (filter entry_taken small_memmap) \<le> 128"
    "list_all (\<lambda>e. let n = unat (entry_length e) div 4096 in 8 dvd n \<or> \<not> 4096 dvd n div 8) (filter entry_taken small_memmap)"
    by (simp_all add: small_memmap_def entry_taken_def)
  then show ?thesis
    using page_allocator_init_inv [of boot_state small_memmap] small_memmap_ok by (auto simp: boot_state_def)
qed

text \<open>
  (C3) A successful \<open>page_allocate\<close> keeps the invariant and returns a page-aligned,
  non-null block that lies inside one pool, shares no page with what is already handed
  out, is afterwards exactly what has been added to it, and reads as zero.
\<close>

theorem page_allocate_sound:
  assumes "page_inv s" "page_allocate pages s = Inr (ptr, s')"
  defines "n \<equiv> unat (at_least_one pages)"
  shows "page_inv s' \<and> 4096 dvd unat ptr \<and> ptr \<noteq> 0 \<and>
     (\<exists>p \<in> set (allocator_pools s). unat (allocate_base p) \<le> unat ptr \<and> unat ptr + 4096 * n \<le> pool_hi p) \<and>
     frames s \<inter> frame_block ptr n = {} \<and> frames s' = frames s \<union> frame_block ptr n \<and>
     (\<forall>a. unat ptr \<le> unat a \<longrightarrow> unat a < unat ptr + 4096 * n \<longrightarrow> memory s' a = 0)"
proof -
  have ok: "page_allocate_multi (at_least_one pages) s = Inr (ptr, s')"
    using assms(2) by (simp add: page_allocate_eq)
  note blk = page_allocate_multi_block [OF assms(1) at_least_one_pos ok]
  show ?thesis
    using page_allocate_inv [OF assms(1,2)] page_allocate_frames [OF assms(1,2)] blk
    by (simp add: n_def)
qed

theorem page_allocate_sound_witness:
  "\<exists>ptr s'. page_allocate 2 small_state = Inr (ptr, s') \<and> page_inv s' \<and>
     frames s' = frame_block ptr 2 \<and> unat ptr + 8192 \<le> pool_hi small_pool"
proof -
  obtain p s' where a: "page_allocate 2 small_state = Inr (p, s')"
    using small_state_allocates by blast
  then show ?thesis
    using page_allocate_sound [OF small_state_inv a] small_state_frames
    by (auto simp: at_least_one_def) (simp add: small_state_def)
qed

text \<open>
  (C16) \<open>page_allocate\<close> returns exactly when some pool counts enough available bytes, and
  otherwise it panics: no other outcome, in particular no null pointer and no deadlock.
\<close>

theorem page_allocate_succeeds_iff:
  assumes "page_inv s"
  shows "((\<exists>ptr s'. page_allocate pages s = Inr (ptr, s')) \<longleftrightarrow>
     (\<exists>p \<in> set (allocator_pools s). 4096 * unat (at_least_one pages) \<le> unat (available p))) \<and>
    ((\<exists>ptr s'. page_allocate pages s = Inr (ptr, s')) \<or> (\<exists>msg. page_allocate pages s = Inl (Panic msg)))"
proof (intro conjI)
  show iff: "(\<exists>ptr s'. page_allocate pages s = Inr (ptr, s')) \<longleftrightarrow>
     (\<exists>p \<in> set (allocator_pools s). 4096 * unat (at_least_one pages) \<le> unat (available p))"
    using page_allocate_multi_room [OF assms at_least_one_pos]
      page_allocate_multi_succeeds [OF assms at_least_one_pos]
    by (simp add: page_allocate_eq) blast
  show "(\<exists>ptr s'. page_allocate pages s = Inr (ptr, s')) \<or> (\<exists>msg. page_allocate pages s = Inl (Panic msg))"
    using page_allocate_no_room [OF assms] iff by (meson not_le)
qed

theorem page_allocate_succeeds_iff_witness:
  "(\<exists>ptr s'. page_allocate 2 small_state = Inr (ptr, s')) \<and>
   (\<exists>msg. page_allocate 3 small_state = Inl (Panic msg))"
  using page_allocate_succeeds_iff [OF small_state_inv, of 2] page_allocate_succeeds_iff [OF small_state_inv, of 3]
  by (auto simp: small_state_def small_pool_def at_least_one_def)

text \<open>
  (C27) The single-page fast path is an optimisation only: it returns exactly what the
  general search for a run of one page returns, pointer and state alike.
\<close>

theorem page_allocate_fast_path_equiv:
  "page_allocate_single_fast s = Inr r \<longleftrightarrow> page_allocate_multi 1 s = Inr r"
  by (rule page_allocate_single_fast_eq)

text \<open>
  (C26) Giving back what was allocated succeeds, keeps the invariant and restores the set
  of pages handed out.
\<close>

theorem page_alloc_free_roundtrip:
  assumes "page_inv s" "page_allocate pages s = Inr (ptr, s1)"
  shows "\<exists>s2. page_deallocate ptr (at_least_one pages) s1 = Inr s2 \<and> page_inv s2 \<and> frames s2 = frames s"
  using pf.alloc_free_roundtrip [OF assms] .

theorem page_alloc_free_roundtrip_witness:
  "\<exists>ptr s1 s2. page_allocate 2 small_state = Inr (ptr, s1) \<and> page_deallocate ptr 2 s1 = Inr s2 \<and>
     page_inv s2 \<and> frames s2 = {}"
proof -
  obtain p s' where a: "page_allocate 2 small_state = Inr (p, s')"
    using small_state_allocates by blast
  then show ?thesis
    using page_alloc_free_roundtrip [OF small_state_inv a] by (auto simp: at_least_one_def small_state_frames)
qed

text \<open>
  Any sequence of successful allocations yields pairwise disjoint blocks, disjoint
  from what was handed out before, and nothing else becomes marked.
\<close>

theorem page_allocations_disjoint:
  assumes "page_inv s" "alloc_many page_allocate ns s = Inr (bs, s')"
  shows "page_inv s' \<and> frames s' = frames s \<union> \<Union> (set bs) \<and> length bs = length ns \<and>
     (\<forall>b \<in> set bs. frames s \<inter> b = {}) \<and> sorted_wrt (\<lambda>a b. a \<inter> b = {}) bs"
  using pf.alloc_many_disjoint [OF assms] .

lemma page_allocate_pools_length:
  assumes inv: "page_inv s" and ok: "page_allocate n s = Inr (ptr, s')"
  shows "length (allocator_pools s') = length (allocator_pools s)"
  by (rule page_allocate_multiE [OF inv at_least_one_pos ok [unfolded page_allocate_eq]]) simp

lemma one_pool_allocates:
  assumes inv: "page_inv s" and one: "length (allocator_pools s) = 1"
    and r: "4096 * unat (at_least_one n) \<le> room s"
  shows "\<exists>ptr s'. page_allocate n s = Inr (ptr, s') \<and> page_inv s' \<and> length (allocator_pools s') = 1 \<and>
    room s' = room s - 4096 * unat (at_least_one n)"
proof -
  obtain p where p: "allocator_pools s = [p]" using one by (auto simp: length_Suc_conv)
  then obtain ptr s' where a: "page_allocate n s = Inr (ptr, s')"
    using page_allocate_multi_succeeds [OF inv at_least_one_pos, of p n] r
    by (auto simp: room_def page_allocate_eq)
  then show ?thesis
    using page_allocate_inv [OF inv a] page_allocate_room [OF inv a] page_allocate_pools_length [OF inv a] one
    by simp
qed

lemma small_state_room: "length (allocator_pools small_state) = 1" "room small_state = 8192"
  by (simp_all add: small_state_def small_pool_def room_def)

lemma small_state_allocates_many:
  "\<exists>bs s'. alloc_many page_allocate [1, 1] small_state = Inr (bs, s')"
proof -
  obtain p1 s1 where s1: "page_allocate 1 small_state = Inr (p1, s1)" "page_inv s1"
    "length (allocator_pools s1) = 1" "room s1 = 4096"
    using one_pool_allocates [OF small_state_inv small_state_room(1), of 1]
    by (auto simp: small_state_room at_least_one_def)
  obtain p2 s2 where "page_allocate 1 s1 = Inr (p2, s2)"
    using one_pool_allocates [OF s1(2,3), of 1] s1(4) by (auto simp: at_least_one_def)
  with s1(1) show ?thesis by simp
qed

theorem page_allocations_disjoint_witness:
  "\<exists>bs s'. alloc_many page_allocate [1, 1] small_state = Inr (bs, s') \<and> page_inv s' \<and>
     frames s' = \<Union> (set bs) \<and> length bs = 2 \<and> sorted_wrt (\<lambda>a b. a \<inter> b = {}) bs"
proof -
  obtain bs s' where a: "alloc_many page_allocate [1, 1] small_state = Inr (bs, s')"
    using small_state_allocates_many by blast
  then show ?thesis
    using page_allocations_disjoint [OF small_state_inv a] small_state_frames by auto
qed

text \<open>
  Releasing does not give the pool its available bytes back: \<open>k\<close> rounds of allocating and
  freeing the same number of pages leave the marked pages as they were but consume
  \<open>k\<close> times the size for good. The witness runs a pool dry with every page free, after
  which the next allocation panics.
\<close>

theorem page_deallocate_leaks_room:
  assumes "page_inv s" "alloc_free_cycles k pages s = Inr s'"
  shows "frames s' = frames s \<and> room s' + k * (4096 * unat (at_least_one pages)) = room s"
  using alloc_free_cycles_room [OF assms] by simp

lemma one_pool_cycles:
  "page_inv s \<Longrightarrow> length (allocator_pools s) = 1 \<Longrightarrow> k * (4096 * unat (at_least_one n)) \<le> room s \<Longrightarrow>
     \<exists>s'. alloc_free_cycles k n s = Inr s' \<and> page_inv s'"
proof (induction k arbitrary: s)
  case 0
  then show ?case by simp
next
  case (Suc k)
  obtain p s1 where a: "page_allocate n s = Inr (p, s1)" "length (allocator_pools s1) = 1"
    using one_pool_allocates [OF Suc.prems(1,2), of n] Suc.prems(3) by auto
  obtain s2 where s2: "page_deallocate p (at_least_one n) s1 = Inr s2" "page_inv s2"
    "room s = room s2 + 4096 * unat (at_least_one n)" "allocator_pools s2 = allocator_pools s1"
    using alloc_free_cycle [OF Suc.prems(1) a(1)] .
  then show ?case using Suc.IH [OF s2(2)] Suc.prems(3) a by simp
qed

theorem page_deallocate_leaks_room_witness:
  "\<exists>s'. alloc_free_cycles 2 1 small_state = Inr s' \<and> frames s' = {} \<and> room s' = 0 \<and>
     (\<exists>msg. page_allocate 1 s' = Inl (Panic msg))"
proof -
  obtain s' where s': "alloc_free_cycles 2 1 small_state = Inr s'" "page_inv s'"
    using one_pool_cycles [OF small_state_inv small_state_room(1), of 2 1]
    by (auto simp: small_state_room at_least_one_def)
  note r = page_deallocate_leaks_room [OF small_state_inv s'(1)]
  then have "room s' = 0" "frames s' = {}"
    by (simp_all add: at_least_one_def small_state_room small_state_frames)
  moreover from this(1) have "\<exists>msg. page_allocate 1 s' = Inl (Panic msg)"
    by (intro page_allocate_no_room [OF s'(2)]) (simp add: room_def at_least_one_def)
  ultimately show ?thesis using s'(1) by blast
qed

text \<open>
  The three statistics agree: used plus free bytes are the total of all pools.
\<close>

theorem page_counts_add_up:
  assumes "page_inv s"
  shows "page_count_used s + page_count_free s = page_count_total s"
proof -
  have "\<forall>p \<in> set (allocator_pools s). used p + available p = total p"
    using assms by (auto simp: page_inv_def pool_counts_word)
  then have "sum_list (map used ps) + sum_list (map available ps) = sum_list (map total ps)"
    if "set ps \<subseteq> set (allocator_pools s)" for ps
    using that by (induction ps) (auto simp: algebra_simps)
  then show ?thesis
    by (simp add: page_count_used_def page_count_free_def page_count_total_def foldl_add_u64)
qed

theorem page_counts_add_up_witness:
  "page_count_used small_state + page_count_free small_state = page_count_total small_state \<and>
   page_count_total small_state = 8192"
  using page_counts_add_up [OF small_state_inv] 
  by (simp add: page_count_total_def small_state_def small_pool_def)

text \<open>
  The bitmap reserved for a region is too small exactly when the page count divided by
  eight is a multiple of 4096 with a remainder: the bits of the last pages then lie in the
  first page that is handed out.
\<close>

theorem bitmap_undersized_iff:
  "\<not> bitmap_covers len \<longleftrightarrow> 4096 dvd unat len div 32768 \<and> \<not> 8 dvd unat len div 4096"
  by (rule bitmap_undersized)

end
