(* ===== verification/Page_Table.thy ===== *)
theory Page_Table
  imports Page_Allocator_Correct
begin

text \<open>
  The four-level page tables of \<open>kernel/src/arch/x86_64/page_table_manager/\<close>.

  Table layers are pages of the page allocator and entries are words of its memory, read
  and written through the higher half: the layer at physical address \<open>a\<close> is at
  \<open>a + kernel_hhdm_offset\<close>. An index outside the 512 entries of a layer is an access
  outside the array.
\<close>

subsection \<open>Entries\<close>

abbreviation (input) TABLE_ENTRY_PRESENT :: u64 where
  "TABLE_ENTRY_PRESENT \<equiv> 1"

abbreviation (input) TABLE_ENTRY_READ_WRITE :: u64 where
  "TABLE_ENTRY_READ_WRITE \<equiv> 2"

abbreviation (input) TABLE_ENTRY_USER :: u64 where
  "TABLE_ENTRY_USER \<equiv> 4"

definition arch_table_manager_get_address :: "u64 \<Rightarrow> u64" where
  "arch_table_manager_get_address entry = entry AND NOT 0xFFF0000000000FFF"

definition arch_table_manager_set_address :: "u64 \<Rightarrow> u64 \<Rightarrow> u64" where
  "arch_table_manager_set_address entry address = entry AND 0xFFF0000000000FFF OR address"

definition entry_present :: "u64 \<Rightarrow> bool" where
  "entry_present entry \<longleftrightarrow> entry AND TABLE_ENTRY_PRESENT \<noteq> 0"

text \<open>The nine bits of a virtual address that select the entry of one layer.\<close>

definition table_index :: "nat \<Rightarrow> u64 \<Rightarrow> u64" where
  "table_index shift virtual_address = drop_bit shift (virtual_address AND push_bit shift 0x1FF)"

subsection \<open>State\<close>

record pt_state = page_state +
  arch_bootstrap_page_table :: u64
  cr3 :: u64

subsection \<open>Operations\<close>

definition arch_table_manager_get_next_layer :: "u64 \<Rightarrow> u64 \<Rightarrow> 'a page_state_scheme \<Rightarrow> u64" where
  "arch_table_manager_get_next_layer layer index s =
     (let entry = layer + 8 * index
      in if entry \<le> kernel_hhdm_offset s then 0
         else if \<not> entry_present (memory s entry) then 0
         else arch_table_manager_get_address (memory s entry) + kernel_hhdm_offset s)"

definition arch_table_manager_allocate_next_layer ::
  "u64 \<Rightarrow> u64 \<Rightarrow> u64 \<Rightarrow> 'a page_state_scheme \<Rightarrow> (u64 \<times> 'a page_state_scheme) res" where
  "arch_table_manager_allocate_next_layer layer index flags s =
     (if index \<ge> 512 then Inl Out_Of_Bounds
      else
        let entry = layer + 8 * index;
            flags = flags AND 0xFF;
            result = (\<lambda>s. Inr (arch_table_manager_get_address (memory s entry) + kernel_hhdm_offset s, s))
        in if \<not> entry_present (memory s entry) then
             (case page_allocate 1 s of
                Inl e \<Rightarrow> Inl e
              | Inr (newLayer, s1) \<Rightarrow>
                  let newLayer = newLayer - kernel_hhdm_offset s1;
                      m1 = (memory s1)(entry := memory s1 entry OR newLayer);
                      m2 = m1(entry := m1 entry OR (flags OR TABLE_ENTRY_PRESENT))
                  in result (s1\<lparr>memory := m2\<rparr>))
           else result (s\<lparr>memory := (memory s)(entry := memory s entry OR flags)\<rparr>))"

text \<open>One leaf entry of a last-layer table.\<close>

definition write_leaf :: "u64 \<Rightarrow> u64 \<Rightarrow> u64 \<Rightarrow> u64 \<Rightarrow> 'a page_state_scheme \<Rightarrow> 'a page_state_scheme" where
  "write_leaf pml1 index physical_address flags s =
     (let entry = pml1 + 8 * index;
          m1 = (memory s)(entry := memory s entry OR (flags OR TABLE_ENTRY_PRESENT));
          m2 = m1(entry := arch_table_manager_set_address (m1 entry) physical_address)
      in s\<lparr>memory := m2\<rparr>)"

definition arch_table_manager_map ::
  "u64 \<Rightarrow> u64 \<Rightarrow> u64 \<Rightarrow> u64 \<Rightarrow> 'a page_state_scheme \<Rightarrow> 'a page_state_scheme res" where
  "arch_table_manager_map table virtual_address physical_address flags s =
     (case arch_table_manager_allocate_next_layer table (table_index 39 virtual_address) flags s of
        Inl e \<Rightarrow> Inl e
      | Inr (pml3, s1) \<Rightarrow>
     (case arch_table_manager_allocate_next_layer pml3 (table_index 30 virtual_address) flags s1 of
        Inl e \<Rightarrow> Inl e
      | Inr (pml2, s2) \<Rightarrow>
     (case arch_table_manager_allocate_next_layer pml2 (table_index 21 virtual_address) flags s2 of
        Inl e \<Rightarrow> Inl e
      | Inr (pml1, s3) \<Rightarrow>
          Inr (write_leaf pml1 (table_index 12 virtual_address) physical_address flags s3))))"

text \<open>
  The state of the loop of \<open>arch_table_manager_map_range\<close>. \<open>p_index\<close> is nine bits wide:
  it starts as the masked index and is only ever reset to zero.
\<close>

record range_cursor =
  cur_pml3 :: u64
  cur_pml2 :: u64
  cur_pml1 :: u64
  pml3_index :: u64
  pml2_index :: u64
  pml1_index :: u64

text \<open>The layers for the given indices from the third layer on, from the second, the first.\<close>

definition allocate_pml1 :: "u64 \<Rightarrow> range_cursor \<Rightarrow> 'a page_state_scheme \<Rightarrow>
    (range_cursor \<times> 'a page_state_scheme) res" where
  "allocate_pml1 flags c s =
     (case arch_table_manager_allocate_next_layer (cur_pml2 c) (pml1_index c) flags s of
        Inl e \<Rightarrow> Inl e
      | Inr (l, s') \<Rightarrow> Inr (c\<lparr>cur_pml1 := l\<rparr>, s'))"

definition allocate_pml2 :: "u64 \<Rightarrow> range_cursor \<Rightarrow> 'a page_state_scheme \<Rightarrow>
    (range_cursor \<times> 'a page_state_scheme) res" where
  "allocate_pml2 flags c s =
     (case arch_table_manager_allocate_next_layer (cur_pml3 c) (pml2_index c) flags s of
        Inl e \<Rightarrow> Inl e
      | Inr (l, s') \<Rightarrow> allocate_pml1 flags (c\<lparr>cur_pml2 := l\<rparr>) s')"

definition allocate_pml3 :: "u64 \<Rightarrow> u64 \<Rightarrow> range_cursor \<Rightarrow> 'a page_state_scheme \<Rightarrow>
    (range_cursor \<times> 'a page_state_scheme) res" where
  "allocate_pml3 table flags c s =
     (case arch_table_manager_allocate_next_layer table (pml3_index c) flags s of
        Inl e \<Rightarrow> Inl e
      | Inr (l, s') \<Rightarrow> allocate_pml2 flags (c\<lparr>cur_pml3 := l\<rparr>) s')"

text \<open>After one last-layer table is filled: step the indices and get the next layers.\<close>

definition advance_cursor :: "u64 \<Rightarrow> u64 \<Rightarrow> range_cursor \<Rightarrow> 'a page_state_scheme \<Rightarrow>
    (range_cursor \<times> 'a page_state_scheme) res" where
  "advance_cursor table flags c s =
     (let c = c\<lparr>pml1_index := pml1_index c + 1\<rparr>
      in if pml1_index c \<ge> 512 then
           let c = c\<lparr>pml1_index := 0, pml2_index := pml2_index c + 1\<rparr>
           in if pml2_index c \<ge> 512 then
                let c = c\<lparr>pml2_index := 0, pml3_index := pml3_index c + 1\<rparr>
                in allocate_pml3 table flags c s
              else allocate_pml2 flags c s
         else allocate_pml1 flags c s)"

definition write_leaves ::
  "u64 \<Rightarrow> u64 \<Rightarrow> u64 \<Rightarrow> u64 \<Rightarrow> u64 \<Rightarrow> 'a page_state_scheme \<Rightarrow> 'a page_state_scheme" where
  "write_leaves pml1 p_index physical_address flags to_map s =
     fold (\<lambda>i. write_leaf pml1 (p_index + of_nat i) (physical_address + of_nat i * PAGE) flags)
       [0..<unat to_map] s"

lemma to_map_bounds:
  fixes count :: u64 and p_index :: "9 word"
  defines "to_map \<equiv> if count < 512 - ucast p_index then count else 512 - ucast p_index"
  shows "unat (512 - ucast p_index :: u64) = 512 - unat p_index"
    and "unat to_map = min (unat count) (512 - unat p_index)"
    and "unat (count - to_map) = unat count - unat to_map"
proof -
  have p: "unat p_index < 512" using unsigned_less [of p_index] by simp
  show r: "unat (512 - ucast p_index :: u64) = 512 - unat p_index"
    using p by (subst unat_minus_exact) (simp_all add: unsigned_ucast_eq take_bit_eq_mod)
  show m: "unat to_map = min (unat count) (512 - unat p_index)"
    by (auto simp: to_map_def word_less_nat_alt r)
  show "unat (count - to_map) = unat count - unat to_map"
    by (rule unat_minus_exact) (simp add: m)
qed

function map_range_loop ::
  "u64 \<Rightarrow> u64 \<Rightarrow> range_cursor \<Rightarrow> 9 word \<Rightarrow> u64 \<Rightarrow> u64 \<Rightarrow> 'a page_state_scheme \<Rightarrow> 'a page_state_scheme res" where
  "map_range_loop table flags c p_index physical_address count s =
     (if count > 0 then
        let remaining_in_pml1 = 512 - ucast p_index;
            to_map = (if count < remaining_in_pml1 then count else remaining_in_pml1);
            s1 = write_leaves (cur_pml1 c) (ucast p_index) physical_address flags to_map s
        in (case advance_cursor table flags c s1 of
              Inl e \<Rightarrow> Inl e
            | Inr (c', s2) \<Rightarrow>
                map_range_loop table flags c' 0 (physical_address + to_map * PAGE) (count - to_map) s2)
      else Inr s)"
  by pat_completeness auto

termination map_range_loop
proof (relation "measure (\<lambda>(table, flags, c, p, pa, count, s). unat count)", goal_cases)
  case 1
  then show ?case by simp
next
  case (2 table flags c p pa count s r m s1 res c' s2)
  have "unat p < 512" using unsigned_less [of p] by simp
  moreover have "0 < unat count" using 2(1) by (simp add: word_less_nat_alt)
  moreover have "m = (if count < 512 - ucast p then count else 512 - ucast p)"
    using 2(2,3) by simp
  ultimately have "unat (count - m) < unat count"
    using to_map_bounds(2,3) [of count p] by simp
  then show ?case by simp
qed

declare map_range_loop.simps [simp del]

definition arch_table_manager_map_range ::
  "u64 \<Rightarrow> u64 \<Rightarrow> u64 \<Rightarrow> u64 \<Rightarrow> u64 \<Rightarrow> 'a page_state_scheme \<Rightarrow> 'a page_state_scheme res" where
  "arch_table_manager_map_range table virtual_address physical_address flags count s =
     (let c = \<lparr>cur_pml3 = 0, cur_pml2 = 0, cur_pml1 = 0, pml3_index = table_index 39 virtual_address,
               pml2_index = table_index 30 virtual_address, pml1_index = table_index 21 virtual_address\<rparr>
      in (case allocate_pml3 table flags c s of
            Inl e \<Rightarrow> Inl e
          | Inr (c', s') \<Rightarrow>
              map_range_loop table flags c' (ucast (table_index 12 virtual_address)) physical_address count s'))"

definition arch_table_manager_translate_to_physical :: "u64 \<Rightarrow> u64 \<Rightarrow> 'a page_state_scheme \<Rightarrow> u64" where
  "arch_table_manager_translate_to_physical table virtual_address s =
     (let pml3 = arch_table_manager_get_next_layer table (table_index 39 virtual_address) s
      in if pml3 = 0 then 0 else
      let pml2 = arch_table_manager_get_next_layer pml3 (table_index 30 virtual_address) s
      in if pml2 = 0 then 0 else
      let pml1 = arch_table_manager_get_next_layer pml2 (table_index 21 virtual_address) s
      in if pml1 = 0 then 0 else
      let entry = memory s (pml1 + 8 * table_index 12 virtual_address)
      in if entry_present entry then arch_table_manager_get_address entry else 0)"

definition arch_table_manager_new :: "'a page_state_scheme \<Rightarrow> (u64 \<times> 'a page_state_scheme) res" where
  "arch_table_manager_new s = page_allocate 1 s"

definition arch_table_manager_switch_to :: "u64 \<Rightarrow> 'a pt_state_scheme \<Rightarrow> 'a pt_state_scheme" where
  "arch_table_manager_switch_to table s = s\<lparr>cr3 := table - kernel_hhdm_offset s\<rparr>"

text \<open>
  The kernel image is mapped where the boot loader put it; everything else of the memory
  map goes to the higher half.
\<close>

record executable_address =
  physical_base :: u64
  virtual_base :: u64

fun map_memmap ::
  "executable_address \<Rightarrow> memmap_entry list \<Rightarrow> 'a pt_state_scheme \<Rightarrow> 'a pt_state_scheme res" where
  "map_memmap kexec [] s = Inr s"
| "map_memmap kexec (entry # entries) s =
     (let base = (if entry_base entry mod PAGE \<noteq> 0
                  then entry_base entry - entry_base entry mod PAGE else entry_base entry);
          table = arch_bootstrap_page_table s;
          pages = entry_length entry div PAGE
      in (case (if entry_type entry = MEMMAP_EXECUTABLE_AND_MODULES
                then arch_table_manager_map_range table (virtual_base kexec) (physical_base kexec)
                       TABLE_ENTRY_READ_WRITE pages s
                else arch_table_manager_map_range table (base + kernel_hhdm_offset s) base
                       TABLE_ENTRY_READ_WRITE pages s) of
            Inl e \<Rightarrow> Inl e
          | Inr s' \<Rightarrow> map_memmap kexec entries s'))"

definition arch_table_manager_create_bootstrap_table ::
  "executable_address \<Rightarrow> memmap_entry list \<Rightarrow> 'a pt_state_scheme \<Rightarrow> 'a pt_state_scheme res" where
  "arch_table_manager_create_bootstrap_table kexec entries s =
     (case arch_table_manager_new s of
        Inl e \<Rightarrow> Inl e
      | Inr (table, s1) \<Rightarrow> map_memmap kexec entries (s1\<lparr>arch_bootstrap_page_table := table\<rparr>))"

definition arch_table_manager_init ::
  "executable_address \<Rightarrow> memmap_entry list \<Rightarrow> 'a pt_state_scheme \<Rightarrow> 'a pt_state_scheme res" where
  "arch_table_manager_init kexec entries s =
     (case arch_table_manager_create_bootstrap_table kexec entries s of
        Inl e \<Rightarrow> Inl e
      | Inr s' \<Rightarrow> Inr (arch_table_manager_switch_to (arch_bootstrap_page_table s') s'))"

end
