(* ===== verification/Page_Table_Correct.thy ===== *)
theory Page_Table_Correct
  imports Page_Table "HOL-Library.Sublist"
begin

text \<open>
  Correctness of the page tables. A set of tables is well formed (\<open>pt_inv\<close>) when their layers
  are pages of the allocator and no layer is reachable in two ways. The abstract content of a
  table is \<open>pt_maps\<close>, a partial function from 36-bit virtual page numbers to frames; mapping a
  page or a range refines an update of that function, and translation reads it.
\<close>

subsection \<open>Bits of entries\<close>

lemma address_mask: "NOT (0xFFF0000000000FFF :: u64) = push_bit 12 (mask 40)"
  by (simp add: mask_eq_exp_minus_1 push_bit_eq_mult not_eq_complement)

lemma low_byte_mask: "(0xFF :: u64) = mask 8"
  by (simp add: mask_eq_exp_minus_1)

lemma get_address_bit:
  "bit (arch_table_manager_get_address w) n \<longleftrightarrow> 12 \<le> n \<and> n < 52 \<and> bit w n"
  unfolding arch_table_manager_get_address_def address_mask
  by (auto simp: bit_simps)

lemma present_bit: "entry_present w \<longleftrightarrow> bit w 0"
  by (simp add: entry_present_def and_one_eq odd_iff_mod_2_eq_one bit_0)

lemma get_address_or_flags [simp]:
  "arch_table_manager_get_address (w OR (flags AND 0xFF)) = arch_table_manager_get_address w"
  "arch_table_manager_get_address (w OR ((flags AND 0xFF) OR TABLE_ENTRY_PRESENT)) = arch_table_manager_get_address w"
  unfolding low_byte_mask
  by (auto intro!: bit_word_eqI simp: get_address_bit bit_simps)

lemma present_or [simp]:
  "entry_present (w OR (x OR TABLE_ENTRY_PRESENT))"
  "entry_present w \<Longrightarrow> entry_present (w OR x)"
  by (auto simp: present_bit bit_simps)

lemma set_address_present [simp]:
  "entry_present (arch_table_manager_set_address w a) \<longleftrightarrow> entry_present w \<or> entry_present a"
proof -
  have "bit (0xFFF0000000000FFF :: u64) 0" by simp
  then show ?thesis unfolding present_bit arch_table_manager_set_address_def bit_or_iff bit_and_iff by blast
qed

lemma get_set_address [simp]:
  "arch_table_manager_get_address (arch_table_manager_set_address w a) = arch_table_manager_get_address a"
proof -
  have "(0xFFF0000000000FFF :: u64) = NOT (push_bit 12 (mask 40))"
    unfolding address_mask [symmetric] by simp
  then have m: "arch_table_manager_set_address w a = w AND NOT (push_bit 12 (mask 40)) OR a"
    unfolding arch_table_manager_set_address_def by simp
  show ?thesis unfolding m by (auto intro!: bit_word_eqI simp: get_address_bit bit_simps)
qed

lemma get_address_page:
  assumes "4096 dvd unat a" "unat a < 2 ^ 52"
  shows "arch_table_manager_get_address a = a"
proof (rule bit_word_eqI)
  fix n
  have "take_bit 12 a = 0" 
    unfolding word_unat_eq_iff unsigned_take_bit_eq using assms(1) by (simp add: take_bit_eq_mod dvd_eq_mod_eq_0)
  then have lo: "\<not> bit a n" if "n < 12" using that bit_take_bit_iff [of 12 a n] by simp
  have "take_bit 52 a = a"
    unfolding word_unat_eq_iff unsigned_take_bit_eq using assms(2) by (simp add: take_bit_eq_mod)
  then have hi: "n < 52" if "bit a n" using that bit_take_bit_iff [of 52 a n] by simp
  show "bit (arch_table_manager_get_address a) n = bit a n"
    unfolding get_address_bit using lo hi by (meson not_less)
qed

lemma table_index_eq: "shift + 9 \<le> 64 \<Longrightarrow> table_index shift va = take_bit 9 (drop_bit shift va)"
proof -
  have m: "(0x1FF :: u64) = mask 9" by (simp add: mask_eq_exp_minus_1)
  assume "shift + 9 \<le> 64"
  then show ?thesis unfolding table_index_def m
  by (auto intro!: bit_word_eqI simp: bit_simps)
qed

lemma table_index_less: "shift + 9 \<le> 64 \<Longrightarrow> unat (table_index shift va) < 512"
  unfolding table_index_eq unsigned_take_bit_eq by (simp add: take_bit_eq_mod)

subsection \<open>The tree of layers\<close>

text \<open>The layer an entry points to, and the layer reached from a root along a path of indices.\<close>

definition pt_child :: "'a page_state_scheme \<Rightarrow> u64 \<Rightarrow> u64 \<Rightarrow> u64 option" where
  "pt_child s l i =
     (let entry = memory s (l + 8 * i)
      in if entry_present entry then Some (arch_table_manager_get_address entry + kernel_hhdm_offset s) else None)"

fun pt_node :: "'a page_state_scheme \<Rightarrow> u64 \<Rightarrow> u64 list \<Rightarrow> u64 option" where
  "pt_node s l [] = Some l"
| "pt_node s l (i # p) = (case pt_child s l i of None \<Rightarrow> None | Some k \<Rightarrow> pt_node s k p)"

definition path_ok :: "u64 list \<Rightarrow> bool" where
  "path_ok p \<longleftrightarrow> length p \<le> 3 \<and> list_all (\<lambda>i. unat i < 512) p"

text \<open>What a table maps: the frame of the leaf entry at a path of three indices and a fourth.\<close>

definition pt_leaf :: "'a page_state_scheme \<Rightarrow> u64 \<Rightarrow> u64 list \<Rightarrow> u64 \<Rightarrow> u64 option" where
  "pt_leaf s r p j =
     (case pt_node s r p of
        None \<Rightarrow> None
      | Some l \<Rightarrow> let entry = memory s (l + 8 * j)
                  in if entry_present entry then Some (arch_table_manager_get_address entry) else None)"

definition pools_physical :: "'a page_state_scheme \<Rightarrow> bool" where
  "pools_physical s \<longleftrightarrow>
     4096 dvd unat (kernel_hhdm_offset s) \<and>
     (\<forall>p \<in> set (allocator_pools s). unat (kernel_hhdm_offset s) < pool_lo p \<and>
        pool_hi p \<le> unat (kernel_hhdm_offset s) + 2 ^ 52)"

text \<open>
  The invariant of a set of page tables: every layer is a page handed out by the allocator,
  no layer is reachable in two ways (from one root or from two), and an absent entry of a
  layer that points to layers is clear.
\<close>

definition pt_inv :: "u64 set \<Rightarrow> 'a page_state_scheme \<Rightarrow> bool" where
  "pt_inv R s \<longleftrightarrow> page_inv s \<and> pools_physical s \<and>
     (\<forall>r \<in> R. \<forall>p l. path_ok p \<longrightarrow> pt_node s r p = Some l \<longrightarrow> unat l \<in> frames s) \<and>
     (\<forall>r \<in> R. \<forall>r' \<in> R. \<forall>p q l. path_ok p \<longrightarrow> path_ok q \<longrightarrow>
        pt_node s r p = Some l \<longrightarrow> pt_node s r' q = Some l \<longrightarrow> r = r' \<and> p = q) \<and>
     (\<forall>r \<in> R. \<forall>p l i. path_ok p \<longrightarrow> length p < 3 \<longrightarrow> pt_node s r p = Some l \<longrightarrow> unat i < 512 \<longrightarrow>
        entry_present (memory s (l + 8 * i)) \<or> memory s (l + 8 * i) = 0)"

lemma pt_inv_page: "pt_inv R s \<Longrightarrow> page_inv s"
  by (simp add: pt_inv_def)

lemma pt_inv_physical: "pt_inv R s \<Longrightarrow> pools_physical s"
  by (simp add: pt_inv_def)

lemma pt_inv_frame: "pt_inv R s \<Longrightarrow> r \<in> R \<Longrightarrow> path_ok p \<Longrightarrow> pt_node s r p = Some l \<Longrightarrow> unat l \<in> frames s"
  by (simp add: pt_inv_def)

lemma pt_inv_inj:
  "pt_inv R s \<Longrightarrow> r \<in> R \<Longrightarrow> r' \<in> R \<Longrightarrow> path_ok p \<Longrightarrow> path_ok q \<Longrightarrow>
     pt_node s r p = Some l \<Longrightarrow> pt_node s r' q = Some l \<Longrightarrow> r = r' \<and> p = q"
  unfolding pt_inv_def by blast

lemma pt_inv_clear:
  "pt_inv R s \<Longrightarrow> r \<in> R \<Longrightarrow> path_ok p \<Longrightarrow> length p < 3 \<Longrightarrow> pt_node s r p = Some l \<Longrightarrow> unat i < 512 \<Longrightarrow>
     \<not> entry_present (memory s (l + 8 * i)) \<Longrightarrow> memory s (l + 8 * i) = 0"
  unfolding pt_inv_def by blast

lemma pt_inv_transfer:
  assumes inv: "pt_inv R s" and s': "page_inv s'" "pools_physical s'" "frames s \<subseteq> frames s'"
    and node: "\<And>r p. r \<in> R \<Longrightarrow> path_ok p \<Longrightarrow> pt_node s' r p = pt_node s r p"
    and clear: "\<And>r p l i. r \<in> R \<Longrightarrow> path_ok p \<Longrightarrow> length p < 3 \<Longrightarrow> pt_node s r p = Some l \<Longrightarrow> unat i < 512 \<Longrightarrow>
       entry_present (memory s' (l + 8 * i)) \<or> memory s' (l + 8 * i) = 0"
  shows "pt_inv R s'"
  unfolding pt_inv_def
proof (intro conjI ballI allI impI)
  show "page_inv s'" "pools_physical s'" by (rule s')+
  show "unat l \<in> frames s'" if "r \<in> R" "path_ok p" "pt_node s' r p = Some l" for r p l
    using that node pt_inv_frame [OF inv] s'(3) by auto
  show "r1 = r2" "q1 = q2" if "r1 \<in> R" "r2 \<in> R" "path_ok q1" "path_ok q2"
    "pt_node s' r1 q1 = Some k" "pt_node s' r2 q2 = Some k" for r1 r2 q1 q2 k
    using that pt_inv_inj [OF inv that(1-4)] by (simp_all add: node)
  show "entry_present (memory s' (l + 8 * i)) \<or> memory s' (l + 8 * i) = 0"
    if "r \<in> R" "path_ok p" "length p < 3" "pt_node s' r p = Some l" "unat i < 512" for r p l i
    using clear that node by simp
qed

lemma pt_node_append: "pt_node s r (p @ q) = (case pt_node s r p of None \<Rightarrow> None | Some l \<Rightarrow> pt_node s l q)"
  by (induction p arbitrary: r) (auto split: option.splits)

lemma pt_node_snoc [simp]: "pt_node s r (p @ [i]) = (case pt_node s r p of None \<Rightarrow> None | Some l \<Rightarrow> pt_child s l i)"
  by (auto simp: pt_node_append split: option.splits)

lemma path_ok_snoc [simp]: "path_ok (p @ [i]) \<longleftrightarrow> path_ok p \<and> length p < 3 \<and> unat i < 512"
  by (auto simp: path_ok_def)

lemma path_ok_Nil [simp]: "path_ok []"
  by (simp add: path_ok_def)

lemma pt_child_cong:
  "memory s' (l + 8 * i) = memory s (l + 8 * i) \<Longrightarrow> kernel_hhdm_offset s' = kernel_hhdm_offset s \<Longrightarrow>
     pt_child s' l i = pt_child s l i"
  by (simp add: pt_child_def Let_def)

text \<open>Two entries that differ in flags only.\<close>

definition entry_equiv :: "u64 \<Rightarrow> u64 \<Rightarrow> bool" where
  "entry_equiv v w \<longleftrightarrow> (entry_present v \<longleftrightarrow> entry_present w) \<and>
     arch_table_manager_get_address v = arch_table_manager_get_address w"

lemma entry_equiv_refl [simp]: "entry_equiv v v"
  by (simp add: entry_equiv_def)

lemma pt_node_cong:
  assumes h: "kernel_hhdm_offset s' = kernel_hhdm_offset s"
    and m: "\<And>p l i. path_ok p \<Longrightarrow> length p < 3 \<Longrightarrow> pt_node s r p = Some l \<Longrightarrow> unat i < 512 \<Longrightarrow>
              entry_equiv (memory s' (l + 8 * i)) (memory s (l + 8 * i))"
  shows "path_ok q \<Longrightarrow> pt_node s' r q = pt_node s r q"
proof (induction q rule: rev_induct)
  case (snoc j q)
  then have "pt_node s' r q = pt_node s r q" by simp
  moreover have "pt_child s' l j = pt_child s l j" if "pt_node s r q = Some l" for l
    using m [of q l j] that snoc.prems h by (simp add: pt_child_def entry_equiv_def Let_def)
  ultimately show ?case by (simp split: option.splits)
qed simp

text \<open>An entry written in a layer of the tree is in no other layer.\<close>

lemma pt_slot_eq:
  assumes inv: "pt_inv R s" and r: "r \<in> R" "r' \<in> R" and p: "path_ok p" "path_ok q"
    and n: "pt_node s r p = Some l" "pt_node s r' q = Some k" and ij: "unat i < 512" "unat j < 512"
  shows "l + 8 * i = k + 8 * j \<longleftrightarrow> r = r' \<and> p = q \<and> i = j"
proof -
  have "l + 8 * i = k + 8 * j \<longleftrightarrow> l = k \<and> i = j"
    by (rule pz.slot_eq_iff [OF pt_inv_page [OF inv] pt_inv_frame [OF inv r(1) p(1) n(1)] ij(1)
          pt_inv_frame [OF inv r(2) p(2) n(2)] ij(2)])
  then show ?thesis using pt_inv_inj [OF inv r p n(1)] n by auto
qed

lemma pt_leaf_unchanged:
  "pt_node s' r q = pt_node s r q \<Longrightarrow>
   (\<And>k. pt_node s r q = Some k \<Longrightarrow> entry_equiv (memory s' (k + 8 * j)) (memory s (k + 8 * j))) \<Longrightarrow>
     pt_leaf s' r q j = pt_leaf s r q j"
  by (auto simp: pt_leaf_def Let_def entry_equiv_def split: option.splits)

text \<open>Memory writes inside pages handed out keep the allocator's invariant and its pages.\<close>

lemma page_write_inv:
  fixes v :: u64
  assumes inv: "page_inv s" and l: "unat l \<in> frames s" and i: "unat i < 512"
  defines "s' \<equiv> s\<lparr>memory := (memory s)(l + 8 * i := v)\<rparr>"
  shows "page_inv s'" "frames s' = frames s"
proof -
  have a: "unat (l + 8 * i) = unat l + 8 * unat i" using pz.held_slot [OF inv l i] .
  have bits: "bitmap_bit (memory s') (bitmap_base p) k = bitmap_bit (memory s) (bitmap_base p) k"
    if p: "p \<in> set (allocator_pools s)" and k: "k < unat (bitmap_entries p)" for p k
  proof -
    have st: "pool_static p" using inv p by (auto simp: page_inv_def)
    have "unat (l + 8 * i) < pool_lo p \<or> unat (allocate_base p) \<le> unat (l + 8 * i)"
      by (rule frame_not_in_bitmap [OF inv l _ _ p]) (use a i in simp_all)
    then show ?thesis
      by (intro bitmap_bit_cong [OF st k]) (auto simp: s'_def)
  qed
  show "page_inv s'" using inv bits unfolding page_inv_def pool_counts_def
    by (auto simp: s'_def)
  have "marked s' = marked s" using bits by (auto simp: marked_def s'_def)
  then show "frames s' = frames s" by (simp add: frames_def s'_def)
qed

text \<open>What stays the same while layers are added: the nodes reached so far and what is mapped; new layers are new pages.\<close>

definition pt_extends :: "u64 set \<Rightarrow> 'a page_state_scheme \<Rightarrow> 'a page_state_scheme \<Rightarrow> bool" where
  "pt_extends R s s' \<longleftrightarrow>
     pt_inv R s' \<and> kernel_hhdm_offset s' = kernel_hhdm_offset s \<and> frames s \<subseteq> frames s' \<and>
     (\<forall>r \<in> R. \<forall>p l. path_ok p \<longrightarrow> pt_node s r p = Some l \<longrightarrow> pt_node s' r p = Some l) \<and>
     (\<forall>r \<in> R. \<forall>p l. path_ok p \<longrightarrow> pt_node s' r p = Some l \<longrightarrow> pt_node s r p = Some l \<or> unat l \<notin> frames s) \<and>
     (\<forall>r \<in> R. \<forall>p j. path_ok p \<longrightarrow> length p = 3 \<longrightarrow> unat j < 512 \<longrightarrow> pt_leaf s' r p j = pt_leaf s r p j)"

lemma pt_extends_trans:
  assumes "pt_extends R s s1" "pt_extends R s1 s2"
  shows "pt_extends R s s2"
  unfolding pt_extends_def
proof (intro conjI ballI allI impI)
  show "pt_node s r p = Some l \<or> unat l \<notin> frames s" if "r \<in> R" "path_ok p" "pt_node s2 r p = Some l" for r p l
    using assms that unfolding pt_extends_def by (meson subsetD)
qed (use assms in \<open>auto simp: pt_extends_def\<close>)

text \<open>Changing only the flags of an entry that points to a layer.\<close>

lemma pt_flags_extend:
  fixes v :: u64
  assumes inv: "pt_inv R s" and r: "r \<in> R" and p: "path_ok p" "length p < 3" and n: "pt_node s r p = Some l"
    and i: "unat i < 512" and pres: "entry_present (memory s (l + 8 * i))"
    and eq: "entry_equiv v (memory s (l + 8 * i))"
  defines "s' \<equiv> s\<lparr>memory := (memory s)(l + 8 * i := v)\<rparr>"
  shows "pt_extends R s s'"
proof -
  note w = page_write_inv [OF pt_inv_page [OF inv] pt_inv_frame [OF inv r p(1) n] i, of v, folded s'_def]
  have e: "entry_equiv (memory s' a) (memory s a)" for a using eq by (simp add: s'_def)
  have h: "kernel_hhdm_offset s' = kernel_hhdm_offset s" by (simp add: s'_def)
  have node: "pt_node s' r' q = pt_node s r' q" if "path_ok q" for r' q
    by (rule pt_node_cong [OF h e that])
  have "pt_inv R s'"
  proof (rule pt_inv_transfer [OF inv])
    show "page_inv s'" "frames s \<subseteq> frames s'" using w by simp_all
    show "pools_physical s'" using pt_inv_physical [OF inv] by (simp add: s'_def pools_physical_def)
    show "pt_node s' r' q = pt_node s r' q" if "r' \<in> R" "path_ok q" for r' q
      using node [OF that(2)] .
    show "entry_present (memory s' (k + 8 * j)) \<or> memory s' (k + 8 * j) = 0"
      if "r' \<in> R" "path_ok q" "length q < 3" "pt_node s r' q = Some k" "unat j < 512" for r' q k j
      using pt_inv_clear [OF inv that] eq pres by (auto simp: s'_def entry_equiv_def)
  qed
  then show ?thesis
    using h w node pt_leaf_unchanged [OF node e] by (simp add: pt_extends_def)
qed

text \<open>What an allocation leaves alone of the state around the pools' contents.\<close>

lemma page_allocate_static:
  assumes inv: "page_inv s" and ok: "page_allocate n s = Inr (ptr, s')"
  shows "kernel_hhdm_offset s' = kernel_hhdm_offset s" "page_state.more s' = page_state.more s"
    and "pool_lo ` set (allocator_pools s') = pool_lo ` set (allocator_pools s)"
    and "pools_physical s \<Longrightarrow> pools_physical s'"
proof -
  obtain i p x where i: "i < length (allocator_pools s)" and p: "p = allocator_pools s ! i"
    and s': "s' = s\<lparr>memory := alloc_memory (memory s) p x (at_least_one n),
            allocator_pools := (allocator_pools s)[i := alloc_pool p x (at_least_one n)],
            page_allocator_lock := 0\<rparr>"
    using page_allocate_multiE [OF inv at_least_one_pos ok [unfolded page_allocate_eq]] by metis
  let ?b = "\<lambda>p. (pool_lo p, pool_hi p)"
  have "map ?b (allocator_pools s') = map ?b (allocator_pools s)"
    using i p by (simp add: s' map_update pool_lo_def pool_hi_def list_update_same_conv)
  then have eq: "?b ` set (allocator_pools s') = ?b ` set (allocator_pools s)"
    by (metis set_map)
  show h: "kernel_hhdm_offset s' = kernel_hhdm_offset s" "page_state.more s' = page_state.more s"
    by (simp_all add: s')
  show "pool_lo ` set (allocator_pools s') = pool_lo ` set (allocator_pools s)"
    using arg_cong [OF eq, of "image fst"] by (simp add: image_image)
  show "pools_physical s'" if "pools_physical s"
  proof -
    have "\<exists>q' \<in> set (allocator_pools s). pool_lo q = pool_lo q' \<and> pool_hi q = pool_hi q'"
      if "q \<in> set (allocator_pools s')" for q
      using imageI [OF that, of ?b] unfolding eq by auto
    then show ?thesis using \<open>pools_physical s\<close> unfolding pools_physical_def h by metis
  qed
qed

text \<open>A fresh, zeroed page becomes a layer.\<close>

lemma fresh_layer_node:
  assumes inv: "pt_inv R s" and r: "r \<in> R" and p: "path_ok (p @ [i])" and n: "pt_node s r p = Some l"
    and h: "kernel_hhdm_offset s' = kernel_hhdm_offset s"
    and same: "\<And>k j. unat k \<in> frames s \<Longrightarrow> unat j < 512 \<Longrightarrow> k + 8 * j \<noteq> l + 8 * i \<Longrightarrow>
                 memory s' (k + 8 * j) = memory s (k + 8 * j)"
    and zero: "\<And>j. unat j < 512 \<Longrightarrow> memory s' (ptr + 8 * j) = 0"
    and child: "pt_child s' l i = Some ptr"
  shows "r' \<in> R \<Longrightarrow> path_ok q \<Longrightarrow>
    pt_node s' r' q = (if r' = r \<and> prefix (p @ [i]) q then (if q = p @ [i] then Some ptr else None)
                       else pt_node s r' q)"
proof (induction q rule: rev_induct)
  case (snoc j q)
  then have q: "path_ok q" "unat j < 512" "length q < 3" by simp_all
  note IH = snoc.IH [OF snoc.prems(1) q(1)]
  show ?case
  proof (cases "r' = r \<and> prefix (p @ [i]) (q @ [j])")
    case True
    show ?thesis
    proof (cases "q = p")
      case True
      then have "\<not> prefix (p @ [i]) q" by (auto dest: prefix_length_le)
      then show ?thesis
        using IH True \<open>r' = r \<and> _\<close> n child by (auto dest: prefix_length_le)
    next
      case False
      then have "prefix (p @ [i]) q" using True by auto
      moreover have "pt_child s' ptr j = None"
        using zero [OF q(2)] by (simp add: pt_child_def entry_present_def)
      ultimately show ?thesis using IH True False by (auto split: option.splits)
    qed
  next
    case False
    then have nq: "\<not> (r' = r \<and> prefix (p @ [i]) q)" by (auto simp: prefix_snoc)
    have "pt_child s' k j = pt_child s k j" if k: "pt_node s r' q = Some k" for k
    proof (rule pt_child_cong [OF same h])
      show "unat k \<in> frames s" using pt_inv_frame [OF inv snoc.prems(1) q(1) k] .
      show "k + 8 * j \<noteq> l + 8 * i"
        using pt_slot_eq [OF inv snoc.prems(1) r q(1) _ k n q(2)] p False by auto
    qed (rule q(2))
    then show ?thesis using IH nq False by (auto split: option.splits)
  qed
qed (auto simp: prefix_def)

lemma fresh_layer_inv:
  assumes inv: "pt_inv R s" and w: "page_inv s'" "pools_physical s'" "frames s' = insert (unat ptr) (frames s)"
    and fresh: "unat ptr \<notin> frames s"
    and cases: "\<And>r' q k. r' \<in> R \<Longrightarrow> path_ok q \<Longrightarrow> pt_node s' r' q = Some k \<Longrightarrow>
                  pt_node s r' q = Some k \<or> (r' = r \<and> q = p \<and> k = ptr)"
    and same: "\<And>k j. unat k \<in> frames s \<Longrightarrow> unat j < 512 \<Longrightarrow> k + 8 * j \<noteq> a \<Longrightarrow>
                 memory s' (k + 8 * j) = memory s (k + 8 * j)"
    and zero: "\<And>j. unat j < 512 \<Longrightarrow> memory s' (ptr + 8 * j) = 0"
    and v: "entry_present (memory s' a)"
  shows "pt_inv R s'"
  unfolding pt_inv_def
proof (intro conjI ballI allI impI)
  show "page_inv s'" "pools_physical s'" by (rule w)+
  show "unat k \<in> frames s'" if "r' \<in> R" "path_ok q" "pt_node s' r' q = Some k" for r' q k
    using cases [OF that] pt_inv_frame [OF inv that(1,2)] w(3) by auto
  show "r1 = r2" "q1 = q2" if a: "r1 \<in> R" "r2 \<in> R" "path_ok q1" "path_ok q2"
    "pt_node s' r1 q1 = Some k" "pt_node s' r2 q2 = Some k" for r1 r2 q1 q2 k
    using cases [OF a(1,3,5)] cases [OF a(2,4,6)] pt_inv_inj [OF inv a(1-4)]
      pt_inv_frame [OF inv a(1,3)] pt_inv_frame [OF inv a(2,4)] fresh by auto
  show "entry_present (memory s' (k + 8 * j)) \<or> memory s' (k + 8 * j) = 0"
    if q: "r' \<in> R" "path_ok q" "length q < 3" "pt_node s' r' q = Some k" "unat j < 512" for r' q k j
    using cases [OF q(1,2,4)]
  proof
    assume k: "pt_node s r' q = Some k"
    show ?thesis
      using v same [OF pt_inv_frame [OF inv q(1,2) k] q(5)] pt_inv_clear [OF inv q(1,2,3) k q(5)]
      by (cases "k + 8 * j = a") auto
  qed (use zero [OF q(5)] in auto)
qed

lemma fresh_layer_extend:
  assumes inv: "pt_inv R s" and r: "r \<in> R" and p: "path_ok (p @ [i])" and n: "pt_node s r p = Some l"
    and absent: "\<not> entry_present (memory s (l + 8 * i))"
    and alloc: "page_allocate 1 s = Inr (ptr, s1)"
    and s': "s' = s1\<lparr>memory := (memory s1)(l + 8 * i := v)\<rparr>"
    and v: "entry_present v" "arch_table_manager_get_address v + kernel_hhdm_offset s = ptr"
  shows "pt_extends R s s' \<and> pt_node s' r (p @ [i]) = Some ptr"
proof -
  note pinv = pt_inv_page [OF inv]
  note one = pz.alloc_one [OF pinv alloc]
  have pi: "path_ok p" "length p < 3" "unat i < 512" using p by simp_all
  have lf: "unat l \<in> frames s" using pt_inv_frame [OF inv r pi(1) n] .
  note st = page_allocate_static [OF pinv alloc]
  have w: "page_inv s'" "frames s' = insert (unat ptr) (frames s)"
    using page_write_inv [OF page_allocate_inv [OF pinv alloc], of l i v] lf pi(3) one
    by (simp_all add: s')
  have h: "kernel_hhdm_offset s' = kernel_hhdm_offset s" by (simp add: s' st)
  have same: "memory s' (k + 8 * j) = memory s (k + 8 * j)"
    if "unat k \<in> frames s" "unat j < 512" "k + 8 * j \<noteq> l + 8 * i" for k j
    using pz.alloc_keeps_slot [OF pinv alloc that(1,2)] that(3) by (simp add: s')
  have zero: "memory s' (ptr + 8 * j) = 0" if "unat j < 512" for j
  proof -
    have "ptr + 8 * j \<noteq> l + 8 * i"
      using pz.slot_eq_iff [OF page_allocate_inv [OF pinv alloc] _ that _ pi(3), of ptr l] one lf by auto
    then show ?thesis using pz.alloc_zero_slot [OF pinv alloc that] by (simp add: s')
  qed
  have child: "pt_child s' l i = Some ptr" using v by (simp add: pt_child_def s' st)
  have node: "pt_node s' r' q = (if r' = r \<and> prefix (p @ [i]) q
      then (if q = p @ [i] then Some ptr else None) else pt_node s r' q)"
    if "r' \<in> R" "path_ok q" for r' q
    by (rule fresh_layer_node [OF inv r p n h same zero child that])
  have grow: "pt_node s' r' q = Some k" if "r' \<in> R" "path_ok q" "pt_node s r' q = Some k" for r' q k
  proof -
    have "pt_node s r q = None" if "prefix (p @ [i]) q" for q
      using that n absent by (auto simp: prefix_def pt_node_append pt_child_def)
    then have "\<not> (r' = r \<and> prefix (p @ [i]) q)" using that(3) by force
    then have "pt_node s' r' q = pt_node s r' q"
      by (rule trans [OF node [OF that(1,2)] if_not_P])
    then show ?thesis using that(3) by simp
  qed
  have cases: "pt_node s r' q = Some k \<or> (r' = r \<and> q = p @ [i] \<and> k = ptr)"
    if "r' \<in> R" "path_ok q" "pt_node s' r' q = Some k" for r' q k
    using node [OF that(1,2)] that(3) by (auto split: if_splits)
  have "pools_physical s'"
    using st(4) [OF pt_inv_physical [OF inv]] by (simp add: s' pools_physical_def)
  moreover have "entry_present (memory s' (l + 8 * i))" using v(1) by (simp add: s')
  ultimately have "pt_inv R s'"
    using fresh_layer_inv [OF inv w(1) _ w(2) one(2) cases same zero] by blast
  moreover have "pt_leaf s' r' q j = pt_leaf s r' q j"
    if a: "r' \<in> R" "path_ok q" "length q = 3" "unat j < 512" for r' q j
  proof (cases "pt_node s r' q")
    case None
    have "pt_node s' r' q = None \<or> pt_node s' r' q = Some ptr"
      using cases [OF a(1,2)] None by (cases "pt_node s' r' q") auto
    then show ?thesis using None zero [OF a(4)] by (auto simp: pt_leaf_def entry_present_def)
  next
    case (Some k)
    have "k + 8 * j \<noteq> l + 8 * i"
      using pt_slot_eq [OF inv a(1) r a(2) pi(1) Some n a(4) pi(3)] pi(2) a(3) by auto
    then have "memory s' (k + 8 * j) = memory s (k + 8 * j)"
      by (rule same [OF pt_inv_frame [OF inv a(1,2) Some] a(4)])
    then show ?thesis using grow [OF a(1,2) Some] Some by (simp add: pt_leaf_def)
  qed
  moreover have "pt_node s' r (p @ [i]) = Some ptr" using node [OF r p] by simp
  ultimately show ?thesis using h w grow cases one(2) unfolding pt_extends_def by blast
qed

lemma frame_physical:
  assumes inv: "page_inv s" and ph: "pools_physical s" and f: "unat f \<in> frames s"
  shows "kernel_hhdm_offset s < f"
    and "arch_table_manager_get_address (f - kernel_hhdm_offset s) = f - kernel_hhdm_offset s"
proof -
  let ?h = "kernel_hhdm_offset s"
  obtain p where p: "p \<in> set (allocator_pools s)" "unat (allocate_base p) \<le> unat f"
    "unat f + 4096 \<le> pool_hi p" "4096 dvd unat f"
    using frame_in_pool [OF inv f] .
  have st: "pool_static p" using inv p(1) by (auto simp: page_inv_def)
  have b: "unat ?h < pool_lo p" "pool_hi p \<le> unat ?h + 2 ^ 52" "4096 dvd unat ?h"
    using ph p(1) by (auto simp: pools_physical_def)
  then have lt: "unat ?h < unat f" using p(2) st by (simp add: pool_static_def pool_lo_def)
  then show "?h < f" by (simp add: word_less_nat_alt)
  have u: "unat (f - ?h) = unat f - unat ?h" using lt by (intro unat_minus_exact) simp
  have "4096 dvd unat f - unat ?h" using p(4) b(3) by (rule dvd_diff_nat)
  moreover have "unat f - unat ?h < 2 ^ 52" using b(2) p(3) lt by (simp add: less_diff_conv2)
  ultimately show "arch_table_manager_get_address (f - ?h) = f - ?h"
    by (intro get_address_page) (simp_all add: u)
qed

lemma new_entry_address:
  "arch_table_manager_get_address ((0 OR a) OR (flags AND 0xFF OR TABLE_ENTRY_PRESENT)) =
     arch_table_manager_get_address a"
  by simp

lemma allocate_next_layer_extend:
  assumes inv: "pt_inv R s" and r: "r \<in> R" and p: "path_ok (p @ [i])" and n: "pt_node s r p = Some l"
    and ok: "arch_table_manager_allocate_next_layer l i flags s = Inr (l', s')"
  shows "pt_extends R s s' \<and> pt_node s' r (p @ [i]) = Some l'"
proof (cases "entry_present (memory s (l + 8 * i))")
  case True
  let ?v = "memory s (l + 8 * i) OR (flags AND 0xFF)"
  have s': "s' = s\<lparr>memory := (memory s)(l + 8 * i := ?v)\<rparr>"
    and l': "l' = arch_table_manager_get_address ?v + kernel_hhdm_offset s"
    using ok True by (auto simp: arch_table_manager_allocate_next_layer_def Let_def split: if_splits)
  have "pt_extends R s s'"
    unfolding s' by (rule pt_flags_extend [OF inv r _ _ n]) (use p True in \<open>auto simp: entry_equiv_def\<close>)
  moreover have "pt_node s r (p @ [i]) = Some l'" using n True l' by (simp add: pt_child_def)
  ultimately show ?thesis using r p unfolding pt_extends_def by blast
next
  case False
  obtain ptr s1 where alloc: "page_allocate 1 s = Inr (ptr, s1)"
    using ok False by (auto simp: arch_table_manager_allocate_next_layer_def Let_def split: sum.splits if_splits)
  note pinv = pt_inv_page [OF inv]
  have pi: "path_ok p" "length p < 3" "unat i < 512" using p by simp_all
  have "memory s1 (l + 8 * i) = memory s (l + 8 * i)"
    using pz.alloc_keeps_slot [OF pinv alloc pt_inv_frame [OF inv r pi(1) n] pi(3)] .
  then have z: "memory s1 (l + 8 * i) = 0"
    using pt_inv_clear [OF inv r pi(1,2) n pi(3) False] by simp
  let ?h = "kernel_hhdm_offset s1"
  let ?v = "(0 OR (ptr - ?h)) OR (flags AND 0xFF OR TABLE_ENTRY_PRESENT)"
  have h: "?h = kernel_hhdm_offset s" using page_allocate_static(1) [OF pinv alloc] .
  have "unat ptr \<in> frames s1" using pz.alloc_one(1) [OF pinv alloc] by simp
  note ph = frame_physical [OF page_allocate_inv [OF pinv alloc]
      page_allocate_static(4) [OF pinv alloc pt_inv_physical [OF inv]] this]
  have va: "arch_table_manager_get_address ?v = ptr - ?h"
    unfolding new_entry_address by (rule ph(2))
  have s': "s' = s1\<lparr>memory := (memory s1)(l + 8 * i := ?v)\<rparr>"
    and l': "l' = arch_table_manager_get_address ?v + ?h"
    using ok False alloc z
    by (auto simp: arch_table_manager_allocate_next_layer_def Let_def split: if_splits)
  have "l' = ptr" unfolding l' va by simp
  moreover have "entry_present ?v" by (rule present_or(1))
  ultimately show ?thesis
    using fresh_layer_extend [OF inv r p n False alloc s'] va h by simp
qed

text \<open>Writing a leaf entry changes what is mapped at that entry and nothing else.\<close>

lemma write_leaf_memory:
  obtains v where "write_leaf l i pa flags s = s\<lparr>memory := (memory s)(l + 8 * i := v)\<rparr>"
    "entry_present v" "arch_table_manager_get_address v = arch_table_manager_get_address pa"
  by (rule that [of "arch_table_manager_set_address (memory s (l + 8 * i) OR (flags OR TABLE_ENTRY_PRESENT)) pa"])
     (simp_all add: write_leaf_def Let_def)

lemma write_leaf_inv:
  fixes pa flags :: u64
  assumes inv: "pt_inv R s" and r: "r \<in> R" and p: "path_ok p" "length p = 3" and n: "pt_node s r p = Some l"
    and i: "unat i < 512"
  defines "s' \<equiv> write_leaf l i pa flags s"
  shows "pt_inv R s'" and "path_ok q \<Longrightarrow> r' \<in> R \<Longrightarrow> pt_node s' r' q = pt_node s r' q"
    and "frames s' = frames s" "kernel_hhdm_offset s' = kernel_hhdm_offset s"
    and "r' \<in> R \<Longrightarrow> path_ok q \<Longrightarrow> unat j < 512 \<Longrightarrow> pt_leaf s' r' q j =
       (if r' = r \<and> q = p \<and> j = i then Some (arch_table_manager_get_address pa) else pt_leaf s r' q j)"
proof -
  obtain v where s': "s' = s\<lparr>memory := (memory s)(l + 8 * i := v)\<rparr>" and v: "entry_present v"
    "arch_table_manager_get_address v = arch_table_manager_get_address pa"
    unfolding s'_def using write_leaf_memory .
  note w = page_write_inv [OF pt_inv_page [OF inv] pt_inv_frame [OF inv r p(1) n] i, of v, folded s']
  show h: "kernel_hhdm_offset s' = kernel_hhdm_offset s" by (simp add: s')
  show "frames s' = frames s" by (rule w)
  have slot: "k + 8 * j = l + 8 * i \<longleftrightarrow> r' = r \<and> q = p \<and> j = i"
    if "r' \<in> R" "path_ok q" "pt_node s r' q = Some k" "unat j < 512" for r' q k j
    using pt_slot_eq [OF inv that(1) r that(2) p(1) that(3) n that(4) i] .
  have mem: "memory s' (k + 8 * j) = memory s (k + 8 * j)"
    if "r' \<in> R" "path_ok q" "pt_node s r' q = Some k" "unat j < 512" "\<not> (r' = r \<and> q = p \<and> j = i)" for r' q k j
    using slot [OF that(1-4)] that(5) by (auto simp: s')
  show node: "pt_node s' r' q = pt_node s r' q" if "path_ok q" "r' \<in> R" for r' q
  proof (rule pt_node_cong [OF h _ that(1)])
    fix q k j assume "path_ok q" "length q < 3" "pt_node s r' q = Some k" "unat (j :: u64) < 512"
    then have "memory s' (k + 8 * j) = memory s (k + 8 * j)"
      using p(2) by (intro mem [OF that(2)]) auto
    then show "entry_equiv (memory s' (k + 8 * j)) (memory s (k + 8 * j))" by simp
  qed
  show "pt_inv R s'"
  proof (rule pt_inv_transfer [OF inv])
    show "page_inv s'" by (rule w)
    show "pools_physical s'" using pt_inv_physical [OF inv] by (simp add: s' pools_physical_def)
    show "frames s \<subseteq> frames s'" using w by simp
    show "pt_node s' r' q = pt_node s r' q" if "r' \<in> R" "path_ok q" for r' q
      using node [OF that(2,1)] .
    show "entry_present (memory s' (k + 8 * j)) \<or> memory s' (k + 8 * j) = 0"
      if "r' \<in> R" "path_ok q" "length q < 3" "pt_node s r' q = Some k" "unat j < 512" for r' q k j
    proof -
      have "memory s' (k + 8 * j) = memory s (k + 8 * j)"
        using p(2) that(3) by (intro mem [OF that(1,2,4,5)]) auto
      then show ?thesis using pt_inv_clear [OF inv that(1-5)] by auto
    qed
  qed
  show "pt_leaf s' r' q j =
      (if r' = r \<and> q = p \<and> j = i then Some (arch_table_manager_get_address pa) else pt_leaf s r' q j)"
    if a: "r' \<in> R" "path_ok q" "unat j < 512"
  proof (cases "r' = r \<and> q = p \<and> j = i")
    case True
    then show ?thesis using node [OF p(1) r] n v by (simp add: pt_leaf_def s')
  next
    case False
    then have "pt_leaf s' r' q j = pt_leaf s r' q j"
      using pt_leaf_unchanged [OF node [OF a(2,1)]] mem [OF a(1,2) _ a(3)] by auto
    then show ?thesis unfolding if_not_P [OF False] .
  qed
qed

text \<open>Translation reads what is mapped.\<close>

lemma get_next_layer_child:
  assumes inv: "pt_inv R s" and r: "r \<in> R" and p: "path_ok (p @ [i])" and n: "pt_node s r p = Some l"
  shows "arch_table_manager_get_next_layer l i s = (case pt_child s l i of None \<Rightarrow> 0 | Some k \<Rightarrow> k)"
    and "pt_child s l i \<noteq> Some 0"
proof -
  have pi: "path_ok p" "length p < 3" "unat i < 512" using p by simp_all
  note pinv = pt_inv_page [OF inv] and fr = pt_inv_frame [OF inv r pi(1) n]
  have "unat (kernel_hhdm_offset s) < unat l"
    using frame_physical(1) [OF pinv pt_inv_physical [OF inv] fr] by (simp add: word_less_nat_alt)
  then have "\<not> l + 8 * i \<le> kernel_hhdm_offset s"
    using pz.held_slot [OF pinv fr pi(3)] by (simp add: word_le_nat_alt)
  then show "arch_table_manager_get_next_layer l i s = (case pt_child s l i of None \<Rightarrow> 0 | Some k \<Rightarrow> k)"
    by (simp add: arch_table_manager_get_next_layer_def pt_child_def Let_def)
  show "pt_child s l i \<noteq> Some 0"
  proof
    assume "pt_child s l i = Some 0"
    then have "unat (0 :: u64) \<in> frames s" using pt_inv_frame [OF inv r p] n by simp
    then show False using frame_page [OF pinv] by fastforce
  qed
qed

definition va_path :: "u64 \<Rightarrow> u64 list" where
  "va_path va = [table_index 39 va, table_index 30 va, table_index 21 va]"

lemma va_path_ok [simp]: "path_ok (va_path va)" "length (va_path va) = 3"
  by (simp_all add: va_path_def path_ok_def table_index_less)

lemma translate_leaf:
  assumes inv: "pt_inv R s" and r: "r \<in> R"
  shows "arch_table_manager_translate_to_physical r va s =
    (case pt_leaf s r (va_path va) (table_index 12 va) of None \<Rightarrow> 0 | Some a \<Rightarrow> a)"
proof -
  let ?a = "table_index 39 va" and ?b = "table_index 30 va" and ?c = "table_index 21 va"
  have ix: "unat ?a < 512" "unat ?b < 512" "unat ?c < 512" by (simp_all add: table_index_less)
  have p1: "path_ok ([] @ [?a])" and p2: "path_ok ([?a] @ [?b])" and p3: "path_ok ([?a, ?b] @ [?c])"
    using ix by (simp_all add: path_ok_def)
  note l1 = get_next_layer_child [OF inv r p1, of r, simplified]
  note defs = arch_table_manager_translate_to_physical_def pt_leaf_def va_path_def
  show ?thesis
  proof (cases "pt_child s r ?a")
    case None
    then show ?thesis using l1 by (simp add: defs)
  next
    case k1: (Some k1)
    then have "pt_node s r [?a] = Some k1" by simp
    note l2 = get_next_layer_child [OF inv r p2 this]
    show ?thesis
    proof (cases "pt_child s k1 ?b")
      case None
      then show ?thesis using l1 l2 k1 by (simp add: defs)
    next
      case k2: (Some k2)
      then have "pt_node s r [?a, ?b] = Some k2" using k1 by simp
      note l3 = get_next_layer_child [OF inv r p3 this]
      show ?thesis using l1 l2 l3 k1 k2 by (cases "pt_child s k2 ?c") (auto simp: defs Let_def)
    qed
  qed
qed

subsection \<open>Virtual page numbers\<close>

definition join_index :: "u64 \<Rightarrow> u64 \<Rightarrow> u64 \<Rightarrow> u64 \<Rightarrow> nat" where
  "join_index a b c d = ((unat a * 512 + unat b) * 512 + unat c) * 512 + unat d"

definition vpn :: "u64 \<Rightarrow> nat" where
  "vpn va = join_index (table_index 39 va) (table_index 30 va) (table_index 21 va) (table_index 12 va)"

definition vpn_path :: "nat \<Rightarrow> u64 list" where
  "vpn_path n = [of_nat (n div 512 div 512 div 512), of_nat (n div 512 div 512 mod 512), of_nat (n div 512 mod 512)]"

text \<open>The abstract content of a page table: which frame a virtual page number maps to.\<close>

definition pt_maps :: "'a page_state_scheme \<Rightarrow> u64 \<Rightarrow> nat \<Rightarrow> u64 option" where
  "pt_maps s r n = pt_leaf s r (vpn_path n) (of_nat (n mod 512))"

lemma div_mod_512: "d < 512 \<Longrightarrow> (x * 512 + d) div 512 = x" "d < 512 \<Longrightarrow> (x * 512 + d) mod 512 = (d :: nat)"
  by simp_all

lemma join_index_split:
  assumes "unat b < 512" "unat c < 512" "unat d < 512"
  shows "vpn_path (join_index a b c d) = [a, b, c]" "of_nat (join_index a b c d mod 512) = d"
  unfolding vpn_path_def join_index_def div_mod_512 [OF assms(1)] div_mod_512 [OF assms(2)]
    div_mod_512 [OF assms(3)] by simp_all

lemma of_nat_mod_512: "unat (of_nat (n mod 512) :: u64) = n mod 512"
  by (rule unat_of_nat_exact) (rule less_trans [of _ 512], simp_all)

lemma vpn_path_bounds:
  assumes "n < 2 ^ 36"
  shows "path_ok (vpn_path n)" "length (vpn_path n) = 3"
    "join_index (vpn_path n ! 0) (vpn_path n ! 1) (vpn_path n ! 2) (of_nat (n mod 512)) = n"
proof -
  have "n div 512 div 512 div 512 < 512"
    using assms by (simp add: div_mult2_eq [symmetric] less_mult_imp_div_less)
  moreover from this have "unat (of_nat (n div 512 div 512 div 512) :: u64) = n div 512 div 512 div 512"
    by (intro unat_of_nat_exact) simp
  ultimately show "path_ok (vpn_path n)" "length (vpn_path n) = 3"
    "join_index (vpn_path n ! 0) (vpn_path n ! 1) (vpn_path n ! 2) (of_nat (n mod 512)) = n"
    by (simp_all add: vpn_path_def path_ok_def of_nat_mod_512 join_index_def numeral_2_eq_2 del: of_nat_mod)
qed

lemma vpn_path_eq_iff:
  assumes "n < 2 ^ 36" "unat b < 512" "unat c < 512" "unat d < 512"
  shows "vpn_path n = [a, b, c] \<and> of_nat (n mod 512) = d \<longleftrightarrow> n = join_index a b c d"
  using vpn_path_bounds(3) [OF assms(1)] join_index_split [OF assms(2-4), of a] by (auto simp: numeral_2_eq_2)

lemma join_index_less:
  "unat a < 512 \<Longrightarrow> unat b < 512 \<Longrightarrow> unat c < 512 \<Longrightarrow> unat d < 512 \<Longrightarrow> join_index a b c d < 2 ^ 36"
  by (simp add: join_index_def)

lemma vpn_less: "vpn va < 2 ^ 36"
  unfolding vpn_def by (rule join_index_less) (simp_all add: table_index_less)

lemma vpn_path_va: "vpn_path (vpn va) = va_path va" "of_nat (vpn va mod 512) = table_index 12 va"
  using join_index_split [of "table_index 30 va" "table_index 21 va" "table_index 12 va" "table_index 39 va"]
  by (simp_all add: vpn_def va_path_def table_index_less)

lemma translate_pt_maps:
  "pt_inv R s \<Longrightarrow> r \<in> R \<Longrightarrow>
     arch_table_manager_translate_to_physical r va s = (case pt_maps s r (vpn va) of None \<Rightarrow> 0 | Some a \<Rightarrow> a)"
  by (simp add: translate_leaf pt_maps_def vpn_path_va del: of_nat_mod)

subsection \<open>Mapping one page\<close>

lemma pt_extends_maps:
  "pt_extends R s s' \<Longrightarrow> r \<in> R \<Longrightarrow> n < 2 ^ 36 \<Longrightarrow> pt_maps s' r n = pt_maps s r n"
  using vpn_path_bounds [of n] of_nat_mod_512 [of n] by (simp add: pt_extends_def pt_maps_def del: of_nat_mod)

lemma pt_extends_inv: "pt_extends R s s' \<Longrightarrow> pt_inv R s'"
  by (simp add: pt_extends_def)

lemma pt_extends_node:
  "pt_extends R s s' \<Longrightarrow> r \<in> R \<Longrightarrow> path_ok p \<Longrightarrow> pt_node s r p = Some l \<Longrightarrow> pt_node s' r p = Some l"
  by (simp add: pt_extends_def)

lemma write_leaf_maps:
  assumes inv: "pt_inv R s" and r: "r \<in> R" and p: "path_ok [a, b, c]" and n: "pt_node s r [a, b, c] = Some l"
    and d: "unat d < 512" and r': "r' \<in> R" and x: "x < 2 ^ 36"
  shows "pt_maps (write_leaf l d pa flags s) r' x =
    (if r' = r \<and> x = join_index a b c d then Some (arch_table_manager_get_address pa) else pt_maps s r' x)"
proof -
  have "vpn_path x = [a, b, c] \<and> of_nat (x mod 512) = d \<longleftrightarrow> x = join_index a b c d"
    using p by (intro vpn_path_eq_iff [OF x _ _ d]) (simp_all add: path_ok_def)
  moreover have "unat (of_nat (x mod 512) :: u64) < 512" by (simp add: of_nat_mod_512 del: of_nat_mod)
  ultimately show ?thesis
    using write_leaf_inv(5) [OF inv r p _ n d r' vpn_path_bounds(1) [OF x]]
    by (simp add: pt_maps_def del: of_nat_mod)
qed

lemma map_refines:
  assumes inv: "pt_inv R s" and r: "r \<in> R" and ok: "arch_table_manager_map r va pa flags s = Inr s'"
  shows "pt_inv R s'" "frames s \<subseteq> frames s'"
    and "r' \<in> R \<Longrightarrow> n < 2 ^ 36 \<Longrightarrow> pt_maps s' r' n =
      (if r' = r \<and> n = vpn va then Some (arch_table_manager_get_address pa) else pt_maps s r' n)"
proof -
  let ?a = "table_index 39 va" and ?b = "table_index 30 va" and ?c = "table_index 21 va" and ?d = "table_index 12 va"
  have ix: "unat ?a < 512" "unat ?b < 512" "unat ?c < 512" "unat ?d < 512" by (simp_all add: table_index_less)
  obtain k3 s1 k2 s2 k1 s3
    where o1: "arch_table_manager_allocate_next_layer r ?a flags s = Inr (k3, s1)"
      and o2: "arch_table_manager_allocate_next_layer k3 ?b flags s1 = Inr (k2, s2)"
      and o3: "arch_table_manager_allocate_next_layer k2 ?c flags s2 = Inr (k1, s3)"
      and s': "s' = write_leaf k1 ?d pa flags s3"
    using ok by (auto simp: arch_table_manager_map_def split: sum.splits)
  have e1: "pt_extends R s s1" "pt_node s1 r ([] @ [?a]) = Some k3"
    using allocate_next_layer_extend [OF inv r _ _ o1, of "[]"] ix by (simp_all add: path_ok_def)
  have e2: "pt_extends R s1 s2" "pt_node s2 r ([?a] @ [?b]) = Some k2"
    using allocate_next_layer_extend [OF pt_extends_inv [OF e1(1)] r _ _ o2, of "[?a]"] ix e1(2)
    by (simp_all add: path_ok_def)
  have e3: "pt_extends R s2 s3" "pt_node s3 r ([?a, ?b] @ [?c]) = Some k1"
    using allocate_next_layer_extend [OF pt_extends_inv [OF e2(1)] r _ _ o3, of "[?a, ?b]"] ix e2(2)
    by (simp_all add: path_ok_def)
  have e: "pt_extends R s s3" using e1(1) e2(1) e3(1) pt_extends_trans by blast
  have p: "path_ok [?a, ?b, ?c]" using ix by (simp add: path_ok_def)
  have n: "pt_node s3 r [?a, ?b, ?c] = Some k1" using e3(2) by simp
  note w = write_leaf_inv [OF pt_extends_inv [OF e] r p _ n ix(4), where pa = pa and flags = flags, folded s', simplified]
  show "pt_inv R s'" by (rule w)
  show "frames s \<subseteq> frames s'" using w(3) e by (simp add: pt_extends_def)
  show "pt_maps s' r' n =
      (if r' = r \<and> n = vpn va then Some (arch_table_manager_get_address pa) else pt_maps s r' n)"
    if "r' \<in> R" "n < 2 ^ 36"
    using write_leaf_maps [OF pt_extends_inv [OF e] r p n ix(4) that] pt_extends_maps [OF e that]
    by (simp add: s' vpn_def)
qed

subsection \<open>Mapping a range\<close>

lemma write_leaves_Suc:
  "unat to_map = Suc k \<Longrightarrow> write_leaves l p pa flags to_map s =
     write_leaf l (p + of_nat k) (pa + of_nat k * PAGE) flags (write_leaves l p pa flags (of_nat k) s)"
  using unat_less_2p64 [of to_map] by (simp add: write_leaves_def unat_of_nat_exact fold_upt_Suc)

text \<open>The entries written in one last-layer table, as page numbers from the first one on.\<close>

lemma write_leaves_maps:
  fixes pa flags :: u64
  assumes inv: "pt_inv R s" and r: "r \<in> R" and p: "path_ok [a, b, c]" and n: "pt_node s r [a, b, c] = Some l"
    and fit: "unat d + k \<le> 512"
  defines "s' \<equiv> \<lambda>k. write_leaves l d pa flags (of_nat k) s" and "x0 \<equiv> join_index a b c d"
  shows "pt_inv R (s' k) \<and> frames (s' k) = frames s \<and>
    (\<forall>q r'. r' \<in> R \<longrightarrow> path_ok q \<longrightarrow> pt_node (s' k) r' q = pt_node s r' q) \<and>
    (\<forall>r' x. r' \<in> R \<longrightarrow> x < 2 ^ 36 \<longrightarrow> pt_maps (s' k) r' x =
      (if r' = r \<and> x0 \<le> x \<and> x < x0 + k then Some (arch_table_manager_get_address (pa + of_nat (x - x0) * PAGE))
       else pt_maps s r' x))"
  using fit
proof (induction k)
  case 0
  then show ?case using inv by (auto simp: s'_def write_leaves_def)
next
  case (Suc k)
  have k: "unat (of_nat (Suc k) :: u64) = Suc k" "unat (of_nat k :: u64) = k"
    using Suc.prems by (simp_all add: unat_of_nat_exact del: of_nat_Suc)
  have dk: "unat (d + of_nat k) = unat d + k"
    using Suc.prems k by (subst unat_plus_exact) simp_all
  have step: "s' (Suc k) = write_leaf l (d + of_nat k) (pa + of_nat k * PAGE) flags (s' k)"
    unfolding s'_def by (rule write_leaves_Suc [OF k(1)])
  have IH: "pt_inv R (s' k)" "frames (s' k) = frames s"
    "\<And>q r'. r' \<in> R \<Longrightarrow> path_ok q \<Longrightarrow> pt_node (s' k) r' q = pt_node s r' q"
    "\<And>r' x. r' \<in> R \<Longrightarrow> x < 2 ^ 36 \<Longrightarrow> pt_maps (s' k) r' x =
      (if r' = r \<and> x0 \<le> x \<and> x < x0 + k then Some (arch_table_manager_get_address (pa + of_nat (x - x0) * PAGE))
       else pt_maps s r' x)"
    using Suc by simp_all
  have n': "pt_node (s' k) r [a, b, c] = Some l" using IH(3) [OF r p] n by simp
  have i: "unat (d + of_nat k) < 512" using dk Suc.prems by simp
  have x: "join_index a b c (d + of_nat k) = x0 + k" by (simp add: join_index_def x0_def dk)
  note w = write_leaf_inv [OF IH(1) r p _ n' i, where pa = "pa + of_nat k * PAGE" and flags = flags,
      folded step, simplified]
  have "pt_maps (s' (Suc k)) r' y =
      (if r' = r \<and> x0 \<le> y \<and> y < x0 + Suc k then Some (arch_table_manager_get_address (pa + of_nat (y - x0) * PAGE))
       else pt_maps s r' y)" if "r' \<in> R" "y < 2 ^ 36" for r' y
    using write_leaf_maps [OF IH(1) r p n' i that, of "pa + of_nat k * PAGE" flags] IH(4) [OF that]
    by (auto simp: step [symmetric] x)
  then show ?case using w(1) w(2) IH(2,3) w(3) by simp
qed

subsubsection \<open>The cursor\<close>

definition cursor_path :: "range_cursor \<Rightarrow> u64 list" where
  "cursor_path c = [pml3_index c, pml2_index c, pml1_index c]"

definition cursor_vpn :: "range_cursor \<Rightarrow> nat" where
  "cursor_vpn c = join_index (pml3_index c) (pml2_index c) (pml1_index c) 0"

definition cursor_ok :: "'a page_state_scheme \<Rightarrow> u64 \<Rightarrow> range_cursor \<Rightarrow> bool" where
  "cursor_ok s r c \<longleftrightarrow> path_ok (cursor_path c) \<and>
     pt_node s r [pml3_index c] = Some (cur_pml3 c) \<and>
     pt_node s r [pml3_index c, pml2_index c] = Some (cur_pml2 c) \<and>
     pt_node s r (cursor_path c) = Some (cur_pml1 c)"

lemma allocate_next_layer_index:
  "arch_table_manager_allocate_next_layer l i flags s = Inr r \<Longrightarrow> unat i < 512"
  by (simp add: arch_table_manager_allocate_next_layer_def word_le_nat_alt split: if_splits)

lemma allocate_pml1_ok:
  assumes inv: "pt_inv R s" and r: "r \<in> R"
    and n: "path_ok [pml3_index c, pml2_index c]" "pt_node s r [pml3_index c] = Some (cur_pml3 c)"
      "pt_node s r [pml3_index c, pml2_index c] = Some (cur_pml2 c)"
    and ok: "allocate_pml1 flags c s = Inr (c', s')"
  shows "pt_extends R s s' \<and> cursor_ok s' r c' \<and> cursor_path c' = cursor_path c"
proof -
  obtain l where l: "arch_table_manager_allocate_next_layer (cur_pml2 c) (pml1_index c) flags s = Inr (l, s')"
    and c': "c' = c\<lparr>cur_pml1 := l\<rparr>"
    using ok by (auto simp: allocate_pml1_def split: sum.splits)
  have p: "path_ok ([pml3_index c, pml2_index c] @ [pml1_index c])"
    using n(1) allocate_next_layer_index [OF l] by (simp add: path_ok_def)
  have e: "pt_extends R s s'" "pt_node s' r ([pml3_index c, pml2_index c] @ [pml1_index c]) = Some l"
    using allocate_next_layer_extend [OF inv r p n(3) l] by simp_all
  have "path_ok [pml3_index c]" using n(1) by (simp add: path_ok_def)
  then show ?thesis
    using e p pt_extends_node [OF e(1) r _ n(2)] pt_extends_node [OF e(1) r n(1) n(3)]
    by (simp add: cursor_ok_def cursor_path_def c')
qed

lemma allocate_pml2_ok:
  assumes inv: "pt_inv R s" and r: "r \<in> R"
    and n: "path_ok [pml3_index c]" "pt_node s r [pml3_index c] = Some (cur_pml3 c)"
    and ok: "allocate_pml2 flags c s = Inr (c', s')"
  shows "pt_extends R s s' \<and> cursor_ok s' r c' \<and> cursor_path c' = cursor_path c"
proof -
  obtain l s1 where l: "arch_table_manager_allocate_next_layer (cur_pml3 c) (pml2_index c) flags s = Inr (l, s1)"
    and ok1: "allocate_pml1 flags (c\<lparr>cur_pml2 := l\<rparr>) s1 = Inr (c', s')"
    using ok by (auto simp: allocate_pml2_def split: sum.splits)
  have p: "path_ok ([pml3_index c] @ [pml2_index c])"
    using n(1) allocate_next_layer_index [OF l] by (simp add: path_ok_def)
  have e: "pt_extends R s s1" "pt_node s1 r ([pml3_index c] @ [pml2_index c]) = Some l"
    using allocate_next_layer_extend [OF inv r p n(2) l] by simp_all
  have "pt_extends R s1 s' \<and> cursor_ok s' r c' \<and> cursor_path c' = cursor_path (c\<lparr>cur_pml2 := l\<rparr>)"
    by (rule allocate_pml1_ok [OF pt_extends_inv [OF e(1)] r _ _ _ ok1])
       (use p e(2) pt_extends_node [OF e(1) r n] in simp_all)
  then show ?thesis using pt_extends_trans [OF e(1)] by (simp add: cursor_path_def)
qed

lemma allocate_pml3_ok:
  assumes inv: "pt_inv R s" and r: "r \<in> R" and ok: "allocate_pml3 r flags c s = Inr (c', s')"
  shows "pt_extends R s s' \<and> cursor_ok s' r c' \<and> cursor_path c' = cursor_path c"
proof -
  obtain l s1 where l: "arch_table_manager_allocate_next_layer r (pml3_index c) flags s = Inr (l, s1)"
    and ok1: "allocate_pml2 flags (c\<lparr>cur_pml3 := l\<rparr>) s1 = Inr (c', s')"
    using ok by (auto simp: allocate_pml3_def split: sum.splits)
  have p: "path_ok ([] @ [pml3_index c])"
    using allocate_next_layer_index [OF l] by (simp add: path_ok_def)
  have e: "pt_extends R s s1" "pt_node s1 r ([] @ [pml3_index c]) = Some l"
    using allocate_next_layer_extend [OF inv r p _ l] by simp_all
  have "pt_extends R s1 s' \<and> cursor_ok s' r c' \<and> cursor_path c' = cursor_path (c\<lparr>cur_pml3 := l\<rparr>)"
    by (rule allocate_pml2_ok [OF pt_extends_inv [OF e(1)] r _ _ ok1]) (use p e(2) in simp_all)
  then show ?thesis using pt_extends_trans [OF e(1)] by (simp add: cursor_path_def)
qed

lemma cursor_vpn_path: "cursor_path c = [x, y, z] \<Longrightarrow> cursor_vpn c = join_index x y z 0"
  by (simp add: cursor_path_def cursor_vpn_def)

lemma advance_cursor_ok:
  assumes inv: "pt_inv R s" and r: "r \<in> R" and c: "cursor_ok s r c"
    and ok: "advance_cursor r flags c s = Inr (c', s')"
  shows "pt_extends R s s' \<and> cursor_ok s' r c' \<and> cursor_vpn c' = cursor_vpn c + 512"
proof -
  let ?a = "pml3_index c" and ?b = "pml2_index c" and ?c = "pml1_index c"
  have ix: "unat ?a < 512" "unat ?b < 512" "unat ?c < 512"
    using c by (simp_all add: cursor_ok_def cursor_path_def path_ok_def)
  have n: "path_ok [?a]" "path_ok [?a, ?b]" "pt_node s r [?a] = Some (cur_pml3 c)"
    "pt_node s r [?a, ?b] = Some (cur_pml2 c)"
    using c by (simp_all add: cursor_ok_def cursor_path_def path_ok_def)
  have suc: "unat (w + 1) = unat w + 1" if "unat w < 512" for w :: u64
    using that by (subst unat_plus_exact) simp_all
  note s1 = suc [OF ix(1)] suc [OF ix(2)] suc [OF ix(3)]
  consider (next1) "unat ?c + 1 < 512" | (next2) "unat ?c + 1 = 512" "unat ?b + 1 < 512"
    | (next3) "unat ?c + 1 = 512" "unat ?b + 1 = 512"
    using ix by linarith
  then show ?thesis
  proof cases
    case next1
    then have "allocate_pml1 flags (c\<lparr>pml1_index := ?c + 1\<rparr>) s = Inr (c', s')"
      using ok s1 by (simp add: advance_cursor_def Let_def word_le_nat_alt)
    from allocate_pml1_ok [OF inv r _ _ _ this] n
    show ?thesis by (simp add: cursor_path_def cursor_vpn_def join_index_def s1)
  next
    case next2
    then have "allocate_pml2 flags (c\<lparr>pml1_index := 0, pml2_index := ?b + 1\<rparr>) s = Inr (c', s')"
      using ok s1 by (simp add: advance_cursor_def Let_def word_le_nat_alt)
    from allocate_pml2_ok [OF inv r _ _ this] n
    show ?thesis using next2 by (simp add: cursor_path_def cursor_vpn_def join_index_def s1)
  next
    case next3
    then have "allocate_pml3 r flags (c\<lparr>pml1_index := 0, pml2_index := 0, pml3_index := ?a + 1\<rparr>) s = Inr (c', s')"
      using ok s1 by (simp add: advance_cursor_def Let_def word_le_nat_alt)
    from allocate_pml3_ok [OF inv r this]
    show ?thesis using next3 by (simp add: cursor_path_def cursor_vpn_def join_index_def s1)
  qed
qed

definition range_maps ::
  "'a page_state_scheme \<Rightarrow> 'a page_state_scheme \<Rightarrow> u64 set \<Rightarrow> u64 \<Rightarrow> nat \<Rightarrow> u64 \<Rightarrow> nat \<Rightarrow> bool" where
  "range_maps s s' R r n0 pa count \<longleftrightarrow>
     (\<forall>r' \<in> R. \<forall>n. n < 2 ^ 36 \<longrightarrow> pt_maps s' r' n =
        (if r' = r \<and> n0 \<le> n \<and> n < n0 + count
         then Some (arch_table_manager_get_address (pa + of_nat (n - n0) * PAGE)) else pt_maps s r' n))"

lemma range_maps_append:
  assumes "range_maps s s1 R r n0 pa k" "range_maps s1 s2 R r (n0 + k) (pa + of_nat k * PAGE) m"
  shows "range_maps s s2 R r n0 pa (k + m)"
  unfolding range_maps_def
proof (intro ballI allI impI)
  fix r' n assume r': "r' \<in> R" and n: "n < (2 :: nat) ^ 36"
  have "pa + of_nat k * PAGE + of_nat (n - (n0 + k)) * PAGE = pa + of_nat (n - n0) * PAGE" if "n0 + k \<le> n"
  proof -
    have "n - n0 = k + (n - (n0 + k))" using that by simp
    then have "of_nat (n - n0) = (of_nat k + of_nat (n - (n0 + k)) :: u64)" by (metis of_nat_add)
    then show ?thesis by (simp add: algebra_simps)
  qed
  then show "pt_maps s2 r' n =
      (if r' = r \<and> n0 \<le> n \<and> n < n0 + (k + m)
       then Some (arch_table_manager_get_address (pa + of_nat (n - n0) * PAGE)) else pt_maps s r' n)"
    using assms r' n unfolding range_maps_def by auto
qed

lemma range_maps_extend:
  "range_maps s s1 R r n0 pa k \<Longrightarrow> pt_extends R s1 s2 \<Longrightarrow> range_maps s s2 R r n0 pa k"
  by (simp add: range_maps_def pt_extends_maps)

lemma unat_ucast9: "unat (ucast (p :: 9 word) :: u64) = unat p" "unat p < 512"
proof -
  show "unat p < 512" using unsigned_less [of p] by simp
  then show "unat (ucast p :: u64) = unat p" by (simp add: unsigned_ucast_eq take_bit_eq_mod)
qed

text \<open>One turn of the loop: fill the current table, then move the cursor to the next one.\<close>

lemma fill_table:
  assumes inv: "pt_inv R s" and r: "r \<in> R" and c: "cursor_ok s r c" and fit: "unat (p :: 9 word) + unat m \<le> 512"
    and s1: "s1 = write_leaves (cur_pml1 c) (ucast p) pa flags m s"
  shows "pt_inv R s1" "frames s1 = frames s" "cursor_ok s1 r c"
    and "range_maps s s1 R r (cursor_vpn c + unat p) pa (unat m)"
proof -
  have n: "path_ok [pml3_index c, pml2_index c, pml1_index c]"
    "pt_node s r [pml3_index c, pml2_index c, pml1_index c] = Some (cur_pml1 c)"
    using c by (simp_all only: cursor_ok_def cursor_path_def)
  have x0: "join_index (pml3_index c) (pml2_index c) (pml1_index c) (ucast p) = cursor_vpn c + unat p"
    by (simp add: join_index_def cursor_vpn_def unat_ucast9)
  have fit': "unat (ucast p :: u64) + unat m \<le> 512" using fit by (simp add: unat_ucast9)
  note w = write_leaves_maps [OF inv r n fit', where pa = pa and flags = flags,
      unfolded of_nat_unat ucast_id, folded s1, unfolded x0]
  show "pt_inv R s1" "frames s1 = frames s" using w by blast+
  have node: "pt_node s1 r q = pt_node s r q" if "path_ok q" for q using w r that by blast
  have "path_ok [pml3_index c]" "path_ok [pml3_index c, pml2_index c]"
    using n(1) by (simp_all add: path_ok_def)
  then show "cursor_ok s1 r c"
    using c node n(1) unfolding cursor_ok_def cursor_path_def by metis
  show "range_maps s s1 R r (cursor_vpn c + unat p) pa (unat m)"
    using w unfolding range_maps_def by blast
qed

lemma map_range_turn:
  assumes inv: "pt_inv R s" and r: "r \<in> R" and c: "cursor_ok s r c" and fit: "unat (p :: 9 word) + unat m \<le> 512"
    and s1: "s1 = write_leaves (cur_pml1 c) (ucast p) pa flags m s"
    and adv: "advance_cursor r flags c s1 = Inr (c', s2)"
  shows "pt_inv R s2" "frames s \<subseteq> frames s2" "cursor_ok s2 r c'" "cursor_vpn c' = cursor_vpn c + 512"
    and "range_maps s s2 R r (cursor_vpn c + unat p) pa (unat m)"
proof -
  note f = fill_table [OF inv r c fit s1]
  note e = advance_cursor_ok [OF f(1) r f(3) adv]
  show "pt_inv R s2" "frames s \<subseteq> frames s2" "cursor_ok s2 r c'" "cursor_vpn c' = cursor_vpn c + 512"
    using e f(2) by (auto simp: pt_extends_def)
  show "range_maps s s2 R r (cursor_vpn c + unat p) pa (unat m)"
    using e range_maps_extend [OF f(4)] by blast
qed

lemma cursor_vpn_less:
  assumes "cursor_ok s r c"
  shows "cursor_vpn c + unat (p :: 9 word) < 2 ^ 36"
proof -
  have "join_index (pml3_index c) (pml2_index c) (pml1_index c) (ucast p) < 2 ^ 36"
    by (rule join_index_less)
       (use assms unat_ucast9 [of p] in \<open>simp_all add: cursor_ok_def cursor_path_def path_ok_def\<close>)
  then show ?thesis by (simp add: cursor_vpn_def join_index_def unat_ucast9)
qed

lemma map_range_loop_ok:
  "pt_inv R s \<Longrightarrow> r \<in> R \<Longrightarrow> cursor_ok s r c \<Longrightarrow> map_range_loop r flags c p pa count s = Inr s' \<Longrightarrow>
     pt_inv R s' \<and> frames s \<subseteq> frames s' \<and> range_maps s s' R r (cursor_vpn c + unat p) pa (unat count) \<and>
     cursor_vpn c + unat p + unat count < 2 ^ 36"
proof (induction r flags c p pa count s arbitrary: s' rule: map_range_loop.induct)
  case (1 r flags c p pa count s)
  show ?case
  proof (cases "count = 0")
    case True
    then show ?thesis using 1 cursor_vpn_less [OF 1(4), of p]
      by (auto simp: map_range_loop.simps range_maps_def)
  next
    case False
    define m where "m = (if count < 512 - ucast p then count else 512 - ucast p)"
    define s1 where "s1 = write_leaves (cur_pml1 c) (ucast p) pa flags m s"
    have pos: "0 < count" using False by (simp add: word_greater_zero_iff)
    obtain c' s2 where adv: "advance_cursor r flags c s1 = Inr (c', s2)"
      and rest: "map_range_loop r flags c' 0 (pa + m * PAGE) (count - m) s2 = Inr s'"
      using 1(5) pos by (subst (asm) map_range_loop.simps)
        (auto simp: Let_def m_def [symmetric] s1_def [symmetric] split: sum.splits)
    note mb = to_map_bounds(2,3) [of count p, folded m_def]
    have "unat p + unat m \<le> 512" using mb(1) unat_ucast9(2) [of p] by simp
    note turn = map_range_turn [OF 1(2-4) this s1_def adv]
    let ?n = "cursor_vpn c + unat p"
    have IH: "pt_inv R s' \<and> frames s2 \<subseteq> frames s' \<and>
       range_maps s2 s' R r (cursor_vpn c') (pa + m * PAGE) (unat (count - m)) \<and>
       cursor_vpn c' + unat (count - m) < 2 ^ 36"
      using 1(1) [OF pos refl _ refl adv [unfolded s1_def] refl turn(1) 1(3) turn(3) rest] by (simp add: m_def)
    have "range_maps s2 s' R r (?n + unat m) (pa + m * PAGE) (unat (count - m)) \<and> ?n + unat count < 2 ^ 36"
    proof (cases "unat count \<le> 512 - unat p")
      case True
      then have "unat (count - m) = 0" "unat count = unat m" using mb by simp_all
      then show ?thesis using IH cursor_vpn_less [OF turn(3), of 0] turn(4) True unat_ucast9(2) [of p]
        by (auto simp: range_maps_def)
    next
      case False
      then have "cursor_vpn c' = ?n + unat m" "unat count = unat m + unat (count - m)"
        using mb turn(4) unat_ucast9(2) [of p] by simp_all
      then show ?thesis using IH by simp
    qed
    moreover have "unat m + unat (count - m) = unat count" using mb by simp
    ultimately show ?thesis
      using range_maps_append [OF turn(5), of s' "unat (count - m)"] IH turn(2) by auto
  qed
qed

lemma map_range_refines_aux:
  assumes inv: "pt_inv R s" and r: "r \<in> R" and ok: "arch_table_manager_map_range r va pa flags count s = Inr s'"
  shows "pt_inv R s' \<and> frames s \<subseteq> frames s' \<and> range_maps s s' R r (vpn va) pa (unat count) \<and>
    vpn va + unat count < 2 ^ 36"
proof -
  define c where "c = \<lparr>cur_pml3 = 0, cur_pml2 = 0, cur_pml1 = 0, pml3_index = table_index 39 va,
               pml2_index = table_index 30 va, pml1_index = table_index 21 va\<rparr>"
  obtain c' s1 where a: "allocate_pml3 r flags c s = Inr (c', s1)"
    and l: "map_range_loop r flags c' (ucast (table_index 12 va)) pa count s1 = Inr s'"
    using ok by (auto simp: arch_table_manager_map_range_def c_def Let_def split: sum.splits)
  have e: "pt_extends R s s1" "cursor_ok s1 r c'" "cursor_path c' = cursor_path c"
    using allocate_pml3_ok [OF inv r a] by simp_all
  have "unat (ucast (table_index 12 va) :: 9 word) = unat (table_index 12 va)"
    using table_index_less [of 12 va] by (simp add: unsigned_ucast_eq take_bit_eq_mod)
  then have "cursor_vpn c' + unat (ucast (table_index 12 va) :: 9 word) = vpn va"
    using e(3) by (simp add: cursor_path_def cursor_vpn_def c_def vpn_def join_index_def)
  then have "pt_inv R s' \<and> frames s1 \<subseteq> frames s' \<and> range_maps s1 s' R r (vpn va) pa (unat count) \<and>
      vpn va + unat count < 2 ^ 36"
    using map_range_loop_ok [OF pt_extends_inv [OF e(1)] r e(2) l] by simp
  then show ?thesis
    using e(1) pt_extends_maps [OF e(1)] by (auto simp: range_maps_def pt_extends_def)
qed


subsection \<open>When mapping returns\<close>

definition spare :: "nat \<Rightarrow> 'a page_state_scheme \<Rightarrow> bool" where
  "spare k s \<longleftrightarrow> (\<exists>p \<in> set (allocator_pools s). 4096 * k \<le> unat (available p))"

lemma spare_mono: "spare k s \<Longrightarrow> j \<le> k \<Longrightarrow> spare j s"
  unfolding spare_def by (meson le_trans mult_le_mono2)

lemma page_allocate_spare_n:
  assumes inv: "page_inv s" and sp: "spare (unat (at_least_one n) + k) s"
  shows "\<exists>ptr s'. page_allocate n s = Inr (ptr, s') \<and> spare k s'"
proof -
  let ?n = "at_least_one n"
  obtain q where q: "q \<in> set (allocator_pools s)" "4096 * (unat ?n + k) \<le> unat (available q)"
    using sp by (auto simp: spare_def)
  then obtain ptr s' where ok: "page_allocate_multi ?n s = Inr (ptr, s')"
    using page_allocate_multi_succeeds [OF inv at_least_one_pos q(1), of n] by auto
  obtain i p x where i: "i < length (allocator_pools s)" and p: "p = allocator_pools s ! i"
    and run: "pool_run (memory s) p x ?n" and ct: "pool_counts (memory s) p"
    and s': "allocator_pools s' = (allocator_pools s)[i := alloc_pool p x ?n]"
    by (rule page_allocate_multiE [OF inv at_least_one_pos ok]) auto
  have "spare k s'"
  proof (cases "q = p")
    case True
    have "unat (available p - ?n * PAGE) = unat (available p) - 4096 * unat ?n"
      using run ct by (intro trans [OF unat_minus_exact]) (simp_all add: pool_run_def pool_counts_def)
    moreover have "alloc_pool p x ?n \<in> set (allocator_pools s')" using i by (simp add: s' set_update_memI)
    ultimately show ?thesis
      using q(2) True unfolding spare_def by (intro bexI [of _ "alloc_pool p x ?n"]) (simp_all add: alloc_pool_def)
  next
    case False
    obtain j where j: "j < length (allocator_pools s)" "q = allocator_pools s ! j" using q(1) by (metis in_set_conv_nth)
    then have "j \<noteq> i" using False p by auto
    then have "q \<in> set (allocator_pools s')" using j by (metis length_list_update nth_list_update_neq nth_mem s')
    then show ?thesis using q(2) unfolding spare_def by (intro bexI [of _ q]) simp_all
  qed
  then show ?thesis using ok by (auto simp: page_allocate_eq)
qed

lemma page_allocate_spare:
  "page_inv s \<Longrightarrow> spare (Suc k) s \<Longrightarrow> \<exists>ptr s'. page_allocate 1 s = Inr (ptr, s') \<and> spare k s'"
  using page_allocate_spare_n [of s 1 k] by (simp add: at_least_one_def)

lemma allocate_next_layer_returns:
  assumes inv: "page_inv s" and sp: "spare (Suc k) s" and i: "unat i < 512"
  shows "\<exists>l' s'. arch_table_manager_allocate_next_layer l i flags s = Inr (l', s') \<and> spare k s'"
proof (cases "entry_present (memory s (l + 8 * i))")
  case True
  then show ?thesis using i spare_mono [OF sp, of k]
    by (simp add: arch_table_manager_allocate_next_layer_def Let_def word_le_nat_alt spare_def)
next
  case False
  then show ?thesis using i page_allocate_spare [OF inv sp]
    by (auto simp: arch_table_manager_allocate_next_layer_def Let_def word_le_nat_alt spare_def)
qed

lemma allocate_pml1_returns:
  "page_inv s \<Longrightarrow> spare (Suc k) s \<Longrightarrow> unat (pml1_index c) < 512 \<Longrightarrow>
     \<exists>c' s'. allocate_pml1 flags c s = Inr (c', s') \<and> spare k s'"
  using allocate_next_layer_returns [of s k "pml1_index c" "cur_pml2 c" flags] by (auto simp: allocate_pml1_def)

lemma allocate_pml2_returns:
  assumes inv: "pt_inv R s" and r: "r \<in> R" and sp: "spare (k + 2) s"
    and n: "path_ok [pml3_index c]" "pt_node s r [pml3_index c] = Some (cur_pml3 c)"
    and i: "unat (pml2_index c) < 512" "unat (pml1_index c) < 512"
  shows "\<exists>c' s'. allocate_pml2 flags c s = Inr (c', s') \<and> spare k s'"
proof -
  obtain l s1 where l: "arch_table_manager_allocate_next_layer (cur_pml3 c) (pml2_index c) flags s = Inr (l, s1)"
    and s1: "spare (Suc k) s1"
    using allocate_next_layer_returns [OF pt_inv_page [OF inv], of "Suc k" "pml2_index c" "cur_pml3 c" flags] sp i
    by auto
  have "pt_extends R s s1"
    using allocate_next_layer_extend [OF inv r _ n(2) l] n(1) i by (simp add: path_ok_def)
  then have "page_inv s1" by (simp add: pt_extends_def pt_inv_def)
  then show ?thesis using allocate_pml1_returns [OF _ s1, of "c\<lparr>cur_pml2 := l\<rparr>"] l i by (simp add: allocate_pml2_def)
qed

lemma allocate_pml3_returns:
  assumes inv: "pt_inv R s" and r: "r \<in> R" and sp: "spare (k + 3) s"
    and i: "unat (pml3_index c) < 512" "unat (pml2_index c) < 512" "unat (pml1_index c) < 512"
  shows "\<exists>c' s'. allocate_pml3 r flags c s = Inr (c', s') \<and> spare k s'"
proof -
  obtain l s1 where l: "arch_table_manager_allocate_next_layer r (pml3_index c) flags s = Inr (l, s1)"
    and s1: "spare (k + 2) s1"
    using allocate_next_layer_returns [OF pt_inv_page [OF inv], of "k + 2" "pml3_index c" r flags] sp i
    by (auto simp: numeral_3_eq_3 numeral_2_eq_2)
  have e: "pt_extends R s s1" "pt_node s1 r ([] @ [pml3_index c]) = Some l"
    using allocate_next_layer_extend [OF inv r _ _ l, of "[]"] i by (simp_all add: path_ok_def)
  then show ?thesis
    using allocate_pml2_returns [OF pt_extends_inv [OF e(1)] r s1, of "c\<lparr>cur_pml3 := l\<rparr>" flags] l i
    by (simp add: allocate_pml3_def path_ok_def)
qed

lemma advance_cursor_returns:
  assumes inv: "pt_inv R s" and r: "r \<in> R" and sp: "spare (k + 3) s" and c: "cursor_ok s r c"
    and top: "cursor_vpn c + 512 < 2 ^ 36"
  shows "\<exists>c' s'. advance_cursor r flags c s = Inr (c', s') \<and> spare k s'"
proof -
  let ?a = "pml3_index c" and ?b = "pml2_index c" and ?c = "pml1_index c"
  have ix: "unat ?a < 512" "unat ?b < 512" "unat ?c < 512"
    using c by (simp_all add: cursor_ok_def cursor_path_def path_ok_def)
  have n: "path_ok [?a]" "pt_node s r [?a] = Some (cur_pml3 c)"
    using c by (simp_all add: cursor_ok_def cursor_path_def path_ok_def)
  have suc: "unat (w + 1) = unat w + 1" if "unat w < 512" for w :: u64
    using that by (subst unat_plus_exact) simp_all
  note s1 = suc [OF ix(1)] suc [OF ix(2)] suc [OF ix(3)]
  have sp': "spare (Suc k) s" "spare (k + 2) s" by (rule spare_mono [OF sp], simp)+
  consider (next1) "unat ?c + 1 < 512" | (next2) "unat ?c + 1 = 512" "unat ?b + 1 < 512"
    | (next3) "unat ?c + 1 = 512" "unat ?b + 1 = 512"
    using ix by linarith
  then show ?thesis
  proof cases
    case next1
    then show ?thesis
      using allocate_pml1_returns [OF pt_inv_page [OF inv] sp'(1), of "c\<lparr>pml1_index := ?c + 1\<rparr>"] s1
      by (simp add: advance_cursor_def Let_def word_le_nat_alt)
  next
    case next2
    then show ?thesis
      using allocate_pml2_returns [OF inv r sp'(2), of "c\<lparr>pml1_index := 0, pml2_index := ?b + 1\<rparr>"] s1 n
      by (simp add: advance_cursor_def Let_def word_le_nat_alt)
  next
    case next3
    then have "unat ?a + 1 < 512" using top by (simp add: cursor_vpn_def join_index_def)
    then show ?thesis
      using allocate_pml3_returns [OF inv r sp, of "c\<lparr>pml1_index := 0, pml2_index := 0, pml3_index := ?a + 1\<rparr>"] s1 next3
      by (simp add: advance_cursor_def Let_def word_le_nat_alt)
  qed
qed

lemma write_leaves_pools [simp]: "allocator_pools (write_leaves l p pa flags k s) = allocator_pools s"
proof -
  have "allocator_pools (fold (\<lambda>i. write_leaf l (p + of_nat i) (pa + of_nat i * PAGE) flags) xs s) = allocator_pools s" for xs
    by (induction xs arbitrary: s) (simp_all add: write_leaf_def Let_def)
  then show ?thesis by (simp add: write_leaves_def)
qed

lemma write_leaves_spare [simp]: "spare j (write_leaves l p pa flags k s) = spare j s"
  by (simp add: spare_def)

lemma cursor_vpn_512: "512 dvd cursor_vpn c"
  by (simp add: cursor_vpn_def join_index_def)

text \<open>How many last-layer tables a range of pages touches.\<close>

definition tables_of :: "nat \<Rightarrow> nat \<Rightarrow> nat" where
  "tables_of p count = (p + count + 511) div 512"

lemma tables_of_step:
  assumes "0 < count" "p < 512"
  shows "tables_of p count = Suc (tables_of 0 (count - min count (512 - p)))"
proof (cases "count \<le> 512 - p")
  case True
  with assms have "p + count + 511 = (p + count - 1) + 512" "p + count - 1 < 512" by linarith+
  then show ?thesis using True by (simp add: tables_of_def min_def)
next
  case False
  with assms have "p + count + 511 = (count - (512 - p) + 511) + 512" by linarith
  then show ?thesis using False by (simp add: tables_of_def min_def)
qed

lemma map_range_loop_returns:
  "pt_inv R s \<Longrightarrow> r \<in> R \<Longrightarrow> cursor_ok s r c \<Longrightarrow> spare (j + 3 * tables_of (unat p) (unat count)) s \<Longrightarrow>
     cursor_vpn c + unat p + unat count \<le> 2 ^ 36 - 512 \<Longrightarrow>
     \<exists>s'. map_range_loop r flags c p pa count s = Inr s' \<and> spare j s'"
proof (induction r flags c p pa count s rule: map_range_loop.induct)
  case (1 r flags c p pa count s)
  show ?case
  proof (cases "count = 0")
    case True
    have "spare j s" by (rule spare_mono [OF 1(5)]) simp
    with True show ?thesis by (simp add: map_range_loop.simps)
  next
    case False
    define m where "m = (if count < 512 - ucast p then count else 512 - ucast p)"
    define s1 where "s1 = write_leaves (cur_pml1 c) (ucast p) pa flags m s"
    have pos: "0 < count" "0 < unat count" using False by (simp_all add: word_greater_zero_iff unat_gt_0)
    note mb = to_map_bounds(2,3) [of count p, folded m_def]
    have fit: "unat p + unat m \<le> 512" using mb(1) unat_ucast9(2) [of p] by simp
    have t: "tables_of (unat p) (unat count) = Suc (tables_of 0 (unat (count - m)))"
      using tables_of_step [OF pos(2) unat_ucast9(2) [of p]] mb by simp
    have "cursor_vpn c < 2 ^ 36 - 512" using 1(6) pos(2) by simp
    then have top: "cursor_vpn c + 512 < 2 ^ 36" using cursor_vpn_512 [of c] by (auto elim!: dvdE)
    obtain c' s2 where adv: "advance_cursor r flags c s1 = Inr (c', s2)"
      and sp: "spare (j + 3 * tables_of 0 (unat (count - m))) s2"
    proof -
      have "spare ((j + 3 * tables_of 0 (unat (count - m))) + 3) s1" using 1(5) t by (simp add: s1_def ac_simps)
      then show thesis
        using advance_cursor_returns [OF fill_table(1) [OF 1(2-4) fit s1_def] 1(3) _
            fill_table(3) [OF 1(2-4) fit s1_def] top] that by blast
    qed
    note turn = map_range_turn [OF 1(2-4) fit s1_def adv]
    have "cursor_vpn c' + unat (0 :: 9 word) + unat (count - m) \<le> 2 ^ 36 - 512"
    proof (cases "unat count \<le> 512 - unat p")
      case True
      then have "unat (count - m) = 0" using mb by simp
      moreover obtain z where "cursor_vpn c = 512 * z" using cursor_vpn_512 [of c] by (auto elim: dvdE)
      ultimately show ?thesis using turn(4) \<open>cursor_vpn c < 2 ^ 36 - 512\<close> by simp
    next
      case False
      then show ?thesis using 1(6) mb turn(4) unat_ucast9(2) [of p] by simp
    qed
    then obtain s' where "map_range_loop r flags c' 0 (pa + m * PAGE) (count - m) s2 = Inr s'" "spare j s'"
      using 1(1) [OF pos(1) refl _ refl adv [unfolded s1_def] refl turn(1) 1(3) turn(3)] sp
      by (auto simp: m_def)
    then show ?thesis using adv pos
      by (subst map_range_loop.simps) (simp add: Let_def m_def [symmetric] s1_def [symmetric])
  qed
qed

lemma map_range_returns_spare:
  assumes inv: "pt_inv R s" and r: "r \<in> R"
    and sp: "spare (j + (3 + 3 * tables_of (vpn va mod 512) (unat count))) s"
    and top: "vpn va + unat count \<le> 2 ^ 36 - 512"
  shows "\<exists>s'. arch_table_manager_map_range r va pa flags count s = Inr s' \<and> spare j s'"
proof -
  define c where "c = \<lparr>cur_pml3 = 0, cur_pml2 = 0, cur_pml1 = 0, pml3_index = table_index 39 va,
               pml2_index = table_index 30 va, pml1_index = table_index 21 va\<rparr>"
  let ?k = "j + 3 * tables_of (vpn va mod 512) (unat count)"
  obtain c' s1 where a: "allocate_pml3 r flags c s = Inr (c', s1)" and s1: "spare ?k s1"
    using allocate_pml3_returns [OF inv r, of ?k c flags] sp
    by (auto simp: c_def table_index_less ac_simps)
  have e: "pt_extends R s s1" "cursor_ok s1 r c'" "cursor_path c' = cursor_path c"
    using allocate_pml3_ok [OF inv r a] by simp_all
  have u: "unat (ucast (table_index 12 va) :: 9 word) = unat (table_index 12 va)"
    using table_index_less [of 12 va] by (simp add: unsigned_ucast_eq take_bit_eq_mod)
  have m: "unat (table_index 12 va) = vpn va mod 512"
    unfolding vpn_def join_index_def by (rule div_mod_512(2) [symmetric]) (simp add: table_index_less)
  have "cursor_vpn c' + unat (ucast (table_index 12 va) :: 9 word) = vpn va"
    using e(3) u by (simp add: cursor_path_def cursor_vpn_def c_def vpn_def join_index_def)
  then have "\<exists>s'. map_range_loop r flags c' (ucast (table_index 12 va)) pa count s1 = Inr s' \<and> spare j s'"
    using map_range_loop_returns [OF pt_extends_inv [OF e(1)] r e(2)] s1 top u m by simp
  then show ?thesis using a by (simp add: arch_table_manager_map_range_def c_def)
qed

lemmas map_range_returns_aux = map_range_returns_spare [where j = 0, simplified plus_nat.add_0]

subsection \<open>Page tables and the rest of the kernel\<close>

text \<open>Page tables and pools depend on the fields of their own state only.\<close>

lemma pt_node_same:
  "memory s' = memory s \<Longrightarrow> kernel_hhdm_offset s' = kernel_hhdm_offset s \<Longrightarrow> pt_node s' r p = pt_node s r p"
  by (induction p arbitrary: r) (simp_all add: pt_child_def Let_def)

lemma pt_inv_same:
  assumes "memory s' = memory s" "kernel_hhdm_offset s' = kernel_hhdm_offset s"
    "allocator_pools s' = allocator_pools s" "page_allocator_lock s' = page_allocator_lock s"
  shows "pt_inv R s' = pt_inv R s"
proof -
  have "pt_node s' = pt_node s" using pt_node_same [OF assms(1,2)] by blast
  then show ?thesis
    using assms by (simp add: pt_inv_def page_inv_def pools_physical_def frames_def marked_def)
qed

lemma pt_maps_same:
  assumes "memory s' = memory s" "kernel_hhdm_offset s' = kernel_hhdm_offset s"
  shows "pt_maps s' r n = pt_maps s r n"
  using assms pt_node_same [OF assms, of r "vpn_path n"] by (simp add: pt_maps_def pt_leaf_def split: option.split)

lemma pt_inv_page_allocate:
  assumes inv: "pt_inv R s" and ok: "page_allocate n s = Inr (p, s')"
  shows "pt_inv R s'"
proof -
  note pinv = pt_inv_page [OF inv] and st = page_allocate_static [OF pt_inv_page [OF inv] ok]
  have keep: "memory s' (l + 8 * i) = memory s (l + 8 * i)" if "unat l \<in> frames s" "unat i < 512" for l i
    using pz.alloc_keeps_slot [OF pinv ok that] .
  show ?thesis
  proof (rule pt_inv_transfer [OF inv page_allocate_inv [OF pinv ok] st(4) [OF pt_inv_physical [OF inv]]])
    show "frames s \<subseteq> frames s'" using page_allocate_frames(1) [OF pinv ok] by auto
    show "pt_node s' r q = pt_node s r q" if "r \<in> R" "path_ok q" for r q
      by (rule pt_node_cong [OF st(1) _ that(2)]) (simp add: keep pt_inv_frame [OF inv that(1)])
    show "entry_present (memory s' (l + 8 * i)) \<or> memory s' (l + 8 * i) = 0"
      if "r \<in> R" "path_ok q" "length q < 3" "pt_node s r q = Some l" "unat i < 512" for r q l i
      using pt_inv_clear [OF inv that] keep [OF pt_inv_frame [OF inv that(1,2,4)] that(5)] by auto
  qed
qed

subsection \<open>New tables\<close>

lemma pt_node_fresh:
  assumes "\<And>j. unat j < 512 \<Longrightarrow> memory s (r + 8 * j) = 0" "path_ok p" "p \<noteq> []"
  shows "pt_node s r p = None"
  using assms by (cases p) (auto simp: pt_child_def entry_present_def path_ok_def)

lemma table_new_inv:
  assumes inv: "pt_inv R s" and ok: "arch_table_manager_new s = Inr (r, s')"
  shows "pt_inv (insert r R) s'" "r \<notin> R" "n < 2 ^ 36 \<Longrightarrow> pt_maps s' r n = None"
    and "r' \<in> R \<Longrightarrow> n < 2 ^ 36 \<Longrightarrow> pt_maps s' r' n = pt_maps s r' n"
proof -
  note pinv = pt_inv_page [OF inv]
  have alloc: "page_allocate 1 s = Inr (r, s')" using ok by (simp add: arch_table_manager_new_def)
  note one = pz.alloc_one [OF pinv alloc] and st = page_allocate_static [OF pinv alloc]
  have zero: "memory s' (r + 8 * j) = 0" if "unat j < 512" for j
    using pz.alloc_zero_slot [OF pinv alloc that] .
  have fresh: "pt_node s' r p = (if p = [] then Some r else None)" if "path_ok p" for p
    using pt_node_fresh [of s' r p] zero that by auto
  have keep: "memory s' (l + 8 * i) = memory s (l + 8 * i)" if "unat l \<in> frames s" "unat i < 512" for l i
    using pz.alloc_keeps_slot [OF pinv alloc that] .
  have old: "pt_node s' r' p = pt_node s r' p" if "r' \<in> R" "path_ok p" for r' p
  proof (rule pt_node_cong [OF st(1) _ that(2)])
    fix q l i assume "path_ok q" "pt_node s r' q = Some l" "unat (i :: u64) < 512"
    then show "entry_equiv (memory s' (l + 8 * i)) (memory s (l + 8 * i))"
      using keep pt_inv_frame [OF inv that(1)] by simp
  qed
  show nr: "r \<notin> R" using pt_inv_frame [OF inv, of r "[]" r] one(2) by auto
  have fr: "unat l \<in> frames s" if "r' \<in> R" "path_ok p" "pt_node s' r' p = Some l" for r' p l
    using that old pt_inv_frame [OF inv] by simp
  have "pt_inv R s'"
  proof (rule pt_inv_transfer [OF inv page_allocate_inv [OF pinv alloc] st(4) [OF pt_inv_physical [OF inv]] _ old])
    show "frames s \<subseteq> frames s'" using one by auto
    show "entry_present (memory s' (l + 8 * i)) \<or> memory s' (l + 8 * i) = 0"
      if "r' \<in> R" "path_ok p" "length p < 3" "pt_node s r' p = Some l" "unat i < 512" for r' p l i
      using pt_inv_clear [OF inv that] keep [OF pt_inv_frame [OF inv that(1,2,4)] that(5)] by auto
  qed
  then show "pt_inv (insert r R) s'"
    unfolding pt_inv_def using fresh fr one zero by (auto split: if_splits)
  show "pt_maps s' r n = None" if n: "n < 2 ^ 36"
    using fresh [OF vpn_path_bounds(1) [OF n]] by (simp add: pt_maps_def pt_leaf_def vpn_path_def)
  show "pt_maps s' r' n = pt_maps s r' n" if "r' \<in> R" and n: "n < 2 ^ 36"
  proof -
    have "entry_equiv (memory s' (k + 8 * of_nat (n mod 512))) (memory s (k + 8 * of_nat (n mod 512)))"
      if k: "pt_node s r' (vpn_path n) = Some k" for k
      using keep [OF pt_inv_frame [OF inv \<open>r' \<in> R\<close> vpn_path_bounds(1) [OF n] k], of "of_nat (n mod 512)"]
      by (simp add: of_nat_mod_512 del: of_nat_mod)
    then show ?thesis unfolding pt_maps_def
      by (rule pt_leaf_unchanged [OF old [OF that(1) vpn_path_bounds(1) [OF n]]])
  qed
qed

subsection \<open>Addresses and page numbers\<close>

lemma unat_table_index:
  "shift + 9 \<le> 64 \<Longrightarrow> unat (table_index shift va) = unat va div 2 ^ shift mod 512"
proof -
  assume "shift + 9 \<le> 64"
  then have "unat (table_index shift va) = take_bit 9 (drop_bit shift (unat va))"
    by (simp only: table_index_eq unsigned_take_bit_eq unat_drop_bit_eq)
  then show ?thesis by (simp add: take_bit_eq_mod drop_bit_eq_div)
qed

lemma digits_512:
  fixes x :: nat
  shows "((x div 512 div 512 div 512 mod 512 * 512 + x div 512 div 512 mod 512) * 512 + x div 512 mod 512) * 512 + x mod 512
    = x mod (512 * (512 * (512 * 512)))"
  by (simp only: mod_mult2_eq mult.commute add.commute)

lemma vpn_eq: "vpn va = unat va div 4096 mod 2 ^ 36"
proof -
  let ?x = "unat va div 4096"
  have "?x div 512 = unat va div 2 ^ 21" "?x div 512 div 512 = unat va div 2 ^ 30" 
    "?x div 512 div 512 div 512 = unat va div 2 ^ 39" by (simp_all add: div_mult2_eq [symmetric])
  then have "vpn va = ((?x div 512 div 512 div 512 mod 512 * 512 + ?x div 512 div 512 mod 512) * 512 + ?x div 512 mod 512) * 512 + ?x mod 512"
    by (simp only: vpn_def join_index_def unat_table_index) simp
  also have "\<dots> = ?x mod 2 ^ 36" unfolding digits_512 by simp
  finally show ?thesis .
qed

lemma div_mult_self_small: "(4096 * q + x mod 4096) div 4096 = (q :: nat)"
  by simp

lemma vpn_add:
  assumes "vpn va + k < 2 ^ 36"
  shows "vpn (va + of_nat k * PAGE) = vpn va + k"
proof -
  have k: "k < 2 ^ 36" using assms by simp
  have "unat (of_nat k :: u64) = k" using k by (intro unat_of_nat_exact) simp
  then have "unat (of_nat k * PAGE) = k * 4096" using k by (subst unat_times_exact) simp_all
  then have "unat (va + of_nat k * PAGE) = (unat va + k * 4096) mod (4096 * 2 ^ 52)"
    by (simp add: unat_word_ariths)
  also have "\<dots> div 4096 = (unat va + k * 4096) div 4096 mod 2 ^ 52"
    by (subst mod_mult2_eq) (rule div_mult_self_small)
  also have "\<dots> = (unat va div 4096 + k) mod 2 ^ 52" by (simp add: add.commute)
  finally have "vpn (va + of_nat k * PAGE) = (unat va div 4096 + k) mod 2 ^ 52 mod 2 ^ 36" by (simp only: vpn_eq)
  also have "\<dots> = (unat va div 4096 + k) mod 2 ^ 36"
    by (rule mod_mod_cancel) (simp add: dvd_def)
  also have "\<dots> = (vpn va + k) mod 2 ^ 36" by (simp add: vpn_eq mod_add_left_eq)
  finally show ?thesis using assms by simp
qed

subsection \<open>Properties\<close>

text \<open>A machine for the witnesses: one pool of 32 pages above a small higher-half offset.\<close>

definition table_pool :: pool where
  "table_pool = \<lparr>allocate_base = 12288, bitmap_base = 8192, used = 0, available = 131072,
                 total = 131072, bitmap_entries = 33, last_allocated_page_index = 0\<rparr>"

definition table_state :: page_state where
  "table_state = \<lparr>memory = (\<lambda>_. 0), allocator_pools = [table_pool], page_allocator_lock = 0,
                  kernel_hhdm_offset = 4096\<rparr>"

lemma table_state_inv: "pt_inv {} table_state"
  by (simp add: pt_inv_def page_inv_def table_state_def table_pool_def pool_static_def pool_counts_def
      bitmap_bit_def pools_disjoint_def pools_physical_def pool_lo_def pool_hi_def)

lemma table_state_new:
  obtains r s where "arch_table_manager_new table_state = Inr (r, s)" "pt_inv {r} s" "spare 31 s"
    "\<forall>n < 2 ^ 36. pt_maps s r n = None"
proof -
  have "spare (Suc 31) table_state" by (simp add: spare_def table_state_def table_pool_def)
  then obtain r s where s: "arch_table_manager_new table_state = Inr (r, s)" "spare 31 s"
    using page_allocate_spare [OF pt_inv_page [OF table_state_inv]] unfolding arch_table_manager_new_def by blast
  then show thesis using that table_new_inv [OF table_state_inv s(1)] by blast
qed

lemma map_returns_spare:
  assumes inv: "pt_inv R s" and r: "r \<in> R" and sp: "spare (j + 3) s"
  shows "\<exists>s'. arch_table_manager_map r va pa flags s = Inr s' \<and> spare j s'"
proof -
  define c where "c = \<lparr>cur_pml3 = 0, cur_pml2 = 0, cur_pml1 = 0, pml3_index = table_index 39 va,
               pml2_index = table_index 30 va, pml1_index = table_index 21 va\<rparr>"
  obtain c' s' where "allocate_pml3 r flags c s = Inr (c', s')" "spare j s'"
    using allocate_pml3_returns [OF inv r, of j c flags] sp by (auto simp: c_def table_index_less)
  then show ?thesis
    by (auto simp: arch_table_manager_map_def allocate_pml3_def allocate_pml2_def allocate_pml1_def c_def
        write_leaf_def Let_def spare_def split: sum.splits)
qed

lemma map_returns_aux:
  "pt_inv R s \<Longrightarrow> r \<in> R \<Longrightarrow> spare 3 s \<Longrightarrow> \<exists>s'. arch_table_manager_map r va pa flags s = Inr s'"
  using map_returns_spare [where j = 0] by (metis plus_nat.add_0)

text \<open>
  (C10) With three pages to spare, mapping one page returns, keeps every table well formed,
  and afterwards the table translates the page to the frame given; every other page of this
  table and all pages of all other tables translate as before.
\<close>

theorem page_table_map_correct:
  assumes "pt_inv R s" "r \<in> R" "spare 3 s"
  shows "\<exists>s'. arch_table_manager_map r va pa flags s = Inr s' \<and> pt_inv R s' \<and>
     arch_table_manager_translate_to_physical r va s' = arch_table_manager_get_address pa \<and>
     (\<forall>r' \<in> R. \<forall>va'. \<not> (r' = r \<and> vpn va' = vpn va) \<longrightarrow>
        arch_table_manager_translate_to_physical r' va' s' = arch_table_manager_translate_to_physical r' va' s)"
proof -
  obtain s' where ok: "arch_table_manager_map r va pa flags s = Inr s'"
    using map_returns_aux [OF assms] by blast
  note m = map_refines [OF assms(1,2) ok]
  have "pt_maps s' r' (vpn va') = pt_maps s r' (vpn va')"
    if "r' \<in> R" "\<not> (r' = r \<and> vpn va' = vpn va)" for r' va'
    by (rule trans [OF m(3) [OF that(1) vpn_less] if_not_P [OF that(2)]])
  then show ?thesis
    using ok m(1) m(3) [OF assms(2) vpn_less [of va]] assms(1,2) by (auto simp: translate_pt_maps)
qed

theorem page_table_map_correct_witness:
  "\<exists>r s s'. arch_table_manager_new table_state = Inr (r, s) \<and>
     arch_table_manager_map r 0x400000 0x7000 7 s = Inr s' \<and>
     arch_table_manager_translate_to_physical r 0x400000 s' = 0x7000 \<and>
     arch_table_manager_translate_to_physical r 0x401000 s' = 0"
proof -
  obtain r s where s: "arch_table_manager_new table_state = Inr (r, s)" "pt_inv {r} s" "spare 31 s"
    "\<forall>n < 2 ^ 36. pt_maps s r n = None"
    using table_state_new .
  have "spare 3 s" using spare_mono [OF s(3)] by simp
  from page_table_map_correct [OF s(2) _ this, of r "0x400000" "0x7000" 7]
  obtain s' where m: "arch_table_manager_map r 0x400000 0x7000 7 s = Inr s'"
    "arch_table_manager_translate_to_physical r 0x400000 s' = arch_table_manager_get_address 0x7000"
    "arch_table_manager_translate_to_physical r 0x401000 s' = arch_table_manager_translate_to_physical r 0x401000 s"
    by (auto simp: vpn_eq)
  moreover have "arch_table_manager_translate_to_physical r 0x401000 s = 0"
    using translate_pt_maps [OF s(2)] s(4) vpn_less [of "0x401000"] by simp
  moreover have "arch_table_manager_get_address 0x7000 = 0x7000"
    by (simp add: arch_table_manager_get_address_def)
  ultimately show ?thesis using s(1) by auto
qed

text \<open>
  (C1) The optimised range mapping returns when there are enough spare pages and the range ends
  before the last table of the address space; every page of the range then translates to
  its frame, and nothing else in this or any other table changes.
\<close>

theorem page_table_map_range_correct:
  assumes "pt_inv R s" "r \<in> R" "spare (3 + 3 * tables_of (vpn va mod 512) (unat count)) s"
    and "vpn va + unat count \<le> 2 ^ 36 - 512"
  shows "\<exists>s'. arch_table_manager_map_range r va pa flags count s = Inr s' \<and> pt_inv R s' \<and>
     (\<forall>k < unat count. arch_table_manager_translate_to_physical r (va + of_nat k * PAGE) s' =
        arch_table_manager_get_address (pa + of_nat k * PAGE)) \<and>
     (\<forall>r' \<in> R. \<forall>va'. \<not> (r' = r \<and> vpn va \<le> vpn va' \<and> vpn va' < vpn va + unat count) \<longrightarrow>
        arch_table_manager_translate_to_physical r' va' s' = arch_table_manager_translate_to_physical r' va' s)"
proof -
  obtain s' where ok: "arch_table_manager_map_range r va pa flags count s = Inr s'"
    using map_range_returns_aux [OF assms] by blast
  have inv: "pt_inv R s'" and m: "range_maps s s' R r (vpn va) pa (unat count)"
    using map_range_refines_aux [OF assms(1,2) ok] by simp_all
  have "pt_maps s' r (vpn (va + of_nat k * PAGE)) = Some (arch_table_manager_get_address (pa + of_nat k * PAGE))"
    if "k < unat count" for k
    using m assms(2,4) that vpn_add [of va k] by (simp add: range_maps_def)
  moreover have "pt_maps s' r' (vpn va') = pt_maps s r' (vpn va')"
    if "r' \<in> R" "\<not> (r' = r \<and> vpn va \<le> vpn va' \<and> vpn va' < vpn va + unat count)" for r' va'
    by (rule trans [OF m [unfolded range_maps_def, rule_format, OF that(1) vpn_less] if_not_P [OF that(2)]])
  ultimately show ?thesis
    using ok inv assms(1,2) by (auto simp: translate_pt_maps)
qed

theorem page_table_map_range_correct_witness:
  "\<exists>r s s'. arch_table_manager_new table_state = Inr (r, s) \<and>
     arch_table_manager_map_range r 0x3ff000 0x7000 2 3 s = Inr s' \<and>
     arch_table_manager_translate_to_physical r 0x3ff000 s' = 0x7000 \<and>
     arch_table_manager_translate_to_physical r 0x401000 s' = 0x9000"
proof -
  obtain r s where s: "arch_table_manager_new table_state = Inr (r, s)" "pt_inv {r} s" "spare 31 s"
    using table_state_new .
  have v: "vpn 0x3ff000 = 0x3ff" by (simp add: vpn_eq)
  have "spare 9 s" using spare_mono [OF s(3)] by simp
  then have "\<exists>s'. arch_table_manager_map_range r 0x3ff000 0x7000 2 3 s = Inr s' \<and>
     (\<forall>k < 3. arch_table_manager_translate_to_physical r (0x3ff000 + of_nat k * PAGE) s' =
        arch_table_manager_get_address (0x7000 + of_nat k * PAGE))"
    using page_table_map_range_correct [OF s(2), of r "0x3ff000" 3 "0x7000" 2] by (auto simp: v tables_of_def)
  then obtain s' where m: "arch_table_manager_map_range r 0x3ff000 0x7000 2 3 s = Inr s'"
    and t: "\<And>k. k < 3 \<Longrightarrow> arch_table_manager_translate_to_physical r (0x3ff000 + of_nat k * PAGE) s' =
        arch_table_manager_get_address (0x7000 + of_nat k * PAGE)" by blast
  show ?thesis using s(1) m t [of 0] t [of 2] by (auto simp: arch_table_manager_get_address_def)
qed

text \<open>
  A range that reaches the top of the address space never returns normally: after the last
  page the loop asks for the next layer through entry 512 of a 512-entry table. The witness
  shows that mapping the same page alone is fine.
\<close>

theorem page_table_map_range_top:
  assumes "pt_inv R s" "r \<in> R" "2 ^ 36 \<le> vpn va + unat count"
  shows "\<not> (\<exists>s'. arch_table_manager_map_range r va pa flags count s = Inr s')"
  using map_range_refines_aux [OF assms(1,2)] assms(3) by fastforce

theorem page_table_map_range_top_witness:
  "\<exists>r s. arch_table_manager_new table_state = Inr (r, s) \<and>
     \<not> (\<exists>s'. arch_table_manager_map_range r 0xfffffffffffff000 0x7000 2 1 s = Inr s') \<and>
     (\<exists>s'. arch_table_manager_map r 0xfffffffffffff000 0x7000 2 s = Inr s')"
proof -
  obtain r s where s: "arch_table_manager_new table_state = Inr (r, s)" "pt_inv {r} s" "spare 31 s"
    using table_state_new .
  have v: "2 ^ 36 \<le> vpn 0xfffffffffffff000 + unat (1 :: u64)" by (simp add: vpn_eq)
  have sp: "spare 3 s" by (rule spare_mono [OF s(3)]) simp
  have r: "r \<in> {r}" by simp
  show ?thesis
    by (intro exI [of _ r] exI [of _ s] conjI s(1) page_table_map_range_top [OF s(2) r v] map_returns_aux [OF s(2) r sp])
qed

text \<open>
  A new table maps nothing, is not one of the tables there were, and leaves what they
  map alone; all of them together are well formed.
\<close>

theorem page_table_new_isolated:
  assumes "pt_inv R s" "arch_table_manager_new s = Inr (r, s')"
  shows "pt_inv (insert r R) s' \<and> r \<notin> R \<and> (\<forall>va. arch_table_manager_translate_to_physical r va s' = 0) \<and>
     (\<forall>r' \<in> R. \<forall>va. arch_table_manager_translate_to_physical r' va s' =
        arch_table_manager_translate_to_physical r' va s)"
proof -
  note n = table_new_inv [OF assms]
  show ?thesis
    using n(1,2) n(3) [OF vpn_less] n(4) [OF _ vpn_less] translate_pt_maps [OF n(1)]
      translate_pt_maps [OF assms(1)] by simp
qed

theorem page_table_new_isolated_witness:
  "\<exists>r s. arch_table_manager_new table_state = Inr (r, s) \<and> pt_inv {r} s \<and>
     arch_table_manager_translate_to_physical r 0x400000 s = 0"
proof -
  obtain r s where s: "arch_table_manager_new table_state = Inr (r, s)"
    using table_state_new .
  then show ?thesis using page_table_new_isolated [OF table_state_inv s] by blast
qed

end
