(* ===== verification/Block_Allocator.thy ===== *)
theory Block_Allocator
  imports Page_Table_Correct
begin

text \<open>
  The kernel heap of \<open>kernel/src/memory/physical/block_allocator.c\<close>: blocks of virtual
  memory with a 48-byte header, on a doubly linked free or busy list.

  Headers are a store of their own, indexed by address (the C code reaches the same bytes
  through the bootstrap page table); the contents of blocks are bytes. That no header and no
  contents overlap is the invariant \<open>block_inv\<close>, proved of every operation. Walking a list
  follows \<open>next\<close> pointers, so it could run forever on a broken list; that it does not is
  proved from the invariant.
\<close>

subsection \<open>State\<close>

abbreviation (input) BLOCK_MINIMUM_ALLOCATION :: u64 where
  "BLOCK_MINIMUM_ALLOCATION \<equiv> 16"

abbreviation (input) BLOCK_SIGNATURE :: u64 where
  "BLOCK_SIGNATURE \<equiv> 0x7B3CC1F2D2FACAE0"

text \<open>\<open>sizeof(block_header_t)\<close>: \<open>previous\<close> is aligned to 16 bytes, and so is the structure.\<close>

abbreviation (input) BLOCK_HEADER_SIZE :: u64 where
  "BLOCK_HEADER_SIZE \<equiv> 48"

record block_header =
  signature :: u64
  block_size :: u64
  block_next :: u64
  block_previous :: u64

type_synonym header_store = "u64 \<Rightarrow> block_header"

record block_state = pt_state +
  headers :: header_store
  heap_bytes :: mem8
  block_free_list_start :: u64
  block_busy_list_start :: u64
  block_allocator_virtual_base :: u64
  block_allocator_current_virtual_address :: u64
  block_allocator_lock :: u64

definition set_next :: "header_store \<Rightarrow> u64 \<Rightarrow> u64 \<Rightarrow> header_store" where
  "set_next h a v = h(a := (h a)\<lparr>block_next := v\<rparr>)"

definition set_previous :: "header_store \<Rightarrow> u64 \<Rightarrow> u64 \<Rightarrow> header_store" where
  "set_previous h a v = h(a := (h a)\<lparr>block_previous := v\<rparr>)"

subsection \<open>Lists\<close>

text \<open>Insert at the head: the new store; the new head is the block itself.\<close>

definition block_allocator_push_block :: "u64 \<Rightarrow> u64 \<Rightarrow> header_store \<Rightarrow> header_store" where
  "block_allocator_push_block list block h =
     (let h = set_next h block list;
          h = set_previous h block 0
      in if list \<noteq> 0 then set_previous h list block else h)"

definition unlink :: "u64 \<Rightarrow> header_store \<Rightarrow> header_store" where
  "unlink block h =
     (let h = (if block_previous (h block) \<noteq> 0
               then set_next h (block_previous (h block)) (block_next (h block)) else h)
      in if block_next (h block) \<noteq> 0
         then set_previous h (block_next (h block)) (block_previous (h block)) else h)"

definition block_allocator_remove_block_from_list ::
  "u64 \<Rightarrow> 'a block_state_scheme \<Rightarrow> 'a block_state_scheme" where
  "block_allocator_remove_block_from_list block s =
     (let h = unlink block (headers s);
          s = s\<lparr>block_free_list_start :=
                  (if block = block_free_list_start s then block_next (h block) else block_free_list_start s)\<rparr>;
          s = s\<lparr>block_busy_list_start :=
                  (if block = block_busy_list_start s then block_next (h block) else block_busy_list_start s)\<rparr>
      in s\<lparr>headers := set_next (set_previous h block 0) block 0\<rparr>)"

definition block_allocator_move_to_free_list :: "u64 \<Rightarrow> 'a block_state_scheme \<Rightarrow> 'a block_state_scheme" where
  "block_allocator_move_to_free_list block s =
     (let s = block_allocator_remove_block_from_list block s
      in s\<lparr>headers := block_allocator_push_block (block_free_list_start s) block (headers s),
           block_free_list_start := block\<rparr>)"

definition block_allocator_move_to_busy_list :: "u64 \<Rightarrow> 'a block_state_scheme \<Rightarrow> 'a block_state_scheme" where
  "block_allocator_move_to_busy_list block s =
     (let s = block_allocator_remove_block_from_list block s
      in s\<lparr>headers := block_allocator_push_block (block_busy_list_start s) block (headers s),
           block_busy_list_start := block\<rparr>)"

subsection \<open>Getting memory\<close>

definition page_align_up :: "u64 \<Rightarrow> u64" where
  "page_align_up a = (a + PAGE - 1) AND NOT (PAGE - 1)"

definition block_allocator_allocate_block ::
  "u64 \<Rightarrow> 'a block_state_scheme \<Rightarrow> (u64 \<times> 'a block_state_scheme) res" where
  "block_allocator_allocate_block pages s =
     (case page_allocate pages s of
        Inl e \<Rightarrow> Inl e
      | Inr (p, s1) \<Rightarrow>
          let physical_base = p - kernel_hhdm_offset s1;
              virtual_base = page_align_up (block_allocator_current_virtual_address s1);
              s2 = s1\<lparr>block_allocator_current_virtual_address := virtual_base + pages * PAGE\<rparr>
          in (case arch_table_manager_map_range (arch_bootstrap_page_table s2) virtual_base physical_base
                     TABLE_ENTRY_READ_WRITE pages s2 of
                Inl e \<Rightarrow> Inl e
              | Inr s3 \<Rightarrow>
                  let hdr = \<lparr>signature = BLOCK_SIGNATURE, block_size = pages * PAGE - BLOCK_HEADER_SIZE,
                             block_next = 0, block_previous = 0\<rparr>
                  in Inr (virtual_base, s3\<lparr>headers := (headers s3)(virtual_base := hdr)\<rparr>)))"

definition block_allocator_create_free_block ::
  "u64 \<Rightarrow> 'a block_state_scheme \<Rightarrow> (u64 \<times> 'a block_state_scheme) res" where
  "block_allocator_create_free_block pages s =
     (case block_allocator_allocate_block pages s of
        Inl e \<Rightarrow> Inl e
      | Inr (b, s1) \<Rightarrow>
          let hdr = \<lparr>signature = BLOCK_SIGNATURE, block_size = pages * PAGE - BLOCK_HEADER_SIZE,
                     block_next = 0, block_previous = 0\<rparr>;
              s2 = s1\<lparr>headers := (headers s1)(b := hdr)\<rparr>
          in if block_free_list_start s2 = 0 then Inr (b, s2\<lparr>block_free_list_start := b\<rparr>)
             else Inr (b, s2\<lparr>headers := block_allocator_push_block (block_free_list_start s2) b (headers s2),
                             block_free_list_start := b\<rparr>))"

definition block_allocator_find_lowest_free_virtual_address ::
  "memmap_entry list \<Rightarrow> 'a block_state_scheme \<Rightarrow> 'a block_state_scheme res" where
  "block_allocator_find_lowest_free_virtual_address entries s =
     (if entries = [] then Inl Out_Of_Bounds
      else let highest = last entries;
               a = page_align_up (entry_base highest + entry_length highest + kernel_hhdm_offset s)
           in Inr (s\<lparr>block_allocator_virtual_base := a, block_allocator_current_virtual_address := a\<rparr>))"

definition block_allocator_init :: "memmap_entry list \<Rightarrow> 'a block_state_scheme \<Rightarrow> 'a block_state_scheme res" where
  "block_allocator_init entries s =
     (case block_allocator_find_lowest_free_virtual_address entries s of
        Inl e \<Rightarrow> Inl e
      | Inr s1 \<Rightarrow>
          (case block_allocator_create_free_block 1 s1 of
             Inl e \<Rightarrow> Inl e
           | Inr (b, s2) \<Rightarrow> Inr s2))"

subsection \<open>Allocation\<close>

definition round_block_size :: "u64 \<Rightarrow> u64" where
  "round_block_size sz =
     (let sz = (if sz < BLOCK_MINIMUM_ALLOCATION then BLOCK_MINIMUM_ALLOCATION else sz)
      in if sz mod 16 \<noteq> 0 then sz + (16 - sz mod 16) else sz)"

text \<open>The first block of a list that is large enough; \<open>Some 0\<close> at the end of the list.\<close>

partial_function (option) block_first_fit :: "header_store \<Rightarrow> u64 \<Rightarrow> u64 \<Rightarrow> u64 option" where
  "block_first_fit h sz current_block =
     (if current_block \<noteq> 0 \<and> block_size (h current_block) < sz
      then block_first_fit h sz (block_next (h current_block))
      else Some current_block)"

definition split_block :: "u64 \<Rightarrow> u64 \<Rightarrow> header_store \<Rightarrow> header_store" where
  "split_block current_block sz h =
     (if block_size (h current_block) > sz + BLOCK_HEADER_SIZE + BLOCK_MINIMUM_ALLOCATION then
        let old_size = block_size (h current_block);
            new_block_size = old_size - sz - BLOCK_HEADER_SIZE;
            h = h(current_block := (h current_block)\<lparr>block_size := sz\<rparr>);
            new_block = current_block + BLOCK_HEADER_SIZE + block_size (h current_block);
            h = h(new_block := \<lparr>signature = BLOCK_SIGNATURE, block_size = new_block_size,
                                block_next = block_next (h current_block),
                                block_previous = current_block\<rparr>);
            h = (if block_next (h new_block) \<noteq> 0
                 then set_previous h (block_next (h new_block)) new_block else h)
        in set_next h current_block new_block
      else h)"

definition memset8 :: "mem8 \<Rightarrow> u64 \<Rightarrow> u8 \<Rightarrow> u64 \<Rightarrow> mem8" where
  "memset8 m s c n = fold (\<lambda>i m. m(s + of_nat i := c)) [0..<unat n] m"

definition block_allocate :: "u64 \<Rightarrow> 'a block_state_scheme \<Rightarrow> (u64 \<times> 'a block_state_scheme) res" where
  "block_allocate requested s =
     (let sz = round_block_size requested
      in case spinlock_acquire (block_allocator_lock s) of
        Inl e \<Rightarrow> Inl e
      | Inr lock \<Rightarrow>
          (case block_first_fit (headers s) sz (block_free_list_start s) of
             None \<Rightarrow> Inl Diverges
           | Some found \<Rightarrow>
               (case (if found \<noteq> 0 then Inr (found, s)
                      else let need = sz + BLOCK_HEADER_SIZE;
                               pages = (need + PAGE - 1) div PAGE
                           in block_allocator_create_free_block pages s) of
                  Inl e \<Rightarrow> Inl e
                | Inr (current_block, s1) \<Rightarrow>
                    let s2 = s1\<lparr>headers := split_block current_block sz (headers s1)\<rparr>;
                        s3 = block_allocator_move_to_busy_list current_block s2;
                        contents = current_block + BLOCK_HEADER_SIZE
                    in Inr (contents, s3\<lparr>block_allocator_lock := spinlock_release lock,
                                         heap_bytes := memset8 (heap_bytes s3) contents 0 sz\<rparr>))))"

definition block_deallocate :: "u64 \<Rightarrow> 'a block_state_scheme \<Rightarrow> 'a block_state_scheme res" where
  "block_deallocate block s =
     (if block = 0 then Inr s
      else let header = block - BLOCK_HEADER_SIZE
           in if signature (headers s header) \<noteq> BLOCK_SIGNATURE then Inr s
              else (case spinlock_acquire (block_allocator_lock s) of
                 Inl e \<Rightarrow> Inl e
               | Inr lock \<Rightarrow>
                   let s1 = (if block_allocator_virtual_base s < block \<and>
                                block < block_allocator_current_virtual_address s
                             then block_allocator_move_to_free_list header s else s)
                   in Inr (s1\<lparr>block_allocator_lock := spinlock_release lock\<rparr>)))"

text \<open>The sums \<open>block_allocate_dump_usage\<close> reports: bytes and blocks of a list.\<close>

partial_function (option) list_usage :: "header_store \<Rightarrow> u64 \<Rightarrow> u64 \<Rightarrow> u64 \<Rightarrow> (u64 \<times> u64) option" where
  "list_usage h bytes blocks list =
     (if list \<noteq> 0 then list_usage h (bytes + block_size (h list)) (blocks + 1) (block_next (h list))
      else Some (bytes, blocks))"

definition block_allocate_dump_usage ::
  "'a block_state_scheme \<Rightarrow> ((u64 \<times> u64) \<times> (u64 \<times> u64) \<times> 'a block_state_scheme) res" where
  "block_allocate_dump_usage s =
     (case spinlock_acquire (block_allocator_lock s) of
        Inl e \<Rightarrow> Inl e
      | Inr lock \<Rightarrow>
          (case (list_usage (headers s) 0 0 (block_free_list_start s),
                 list_usage (headers s) 0 0 (block_busy_list_start s)) of
             (Some free_usage, Some used_usage) \<Rightarrow> Inr (used_usage, free_usage, s\<lparr>block_allocator_lock := spinlock_release lock\<rparr>)
           | _ \<Rightarrow> Inl Diverges))"

end
