(* ===== verification/Block_Allocator_Correct.thy ===== *)
theory Block_Allocator_Correct
  imports Block_Allocator
begin

text \<open>
  Correctness of the kernel heap. \<open>links\<close> reads a doubly linked list off the header store;
  \<open>block_inv\<close> says that the free and the busy list are such lists, that every block is signed,
  aligned and inside the heap, and that no two blocks overlap. \<open>heap_ok\<close> adds the page tables
  the heap is mapped with. Every operation is shown to keep it, and the list walks to end.
\<close>

subsection \<open>Doubly linked lists\<close>

text \<open>
  \<open>links h p xs e\<close>: the blocks \<open>xs\<close> are linked in this order, the first one's \<open>previous\<close> is
  \<open>p\<close> and the last one's \<open>next\<close> is \<open>e\<close>.
\<close>

fun head_or :: "u64 \<Rightarrow> u64 list \<Rightarrow> u64" where
  "head_or e [] = e"
| "head_or e (x # xs) = x"

fun links :: "header_store \<Rightarrow> u64 \<Rightarrow> u64 list \<Rightarrow> u64 \<Rightarrow> bool" where
  "links h p [] e \<longleftrightarrow> True"
| "links h p (x # xs) e \<longleftrightarrow> x \<noteq> 0 \<and> block_previous (h x) = p \<and> block_next (h x) = head_or e xs \<and> links h x xs e"

lemma head_or_append [simp]: "head_or e (xs @ ys) = head_or (head_or e ys) xs"
  by (cases xs) simp_all

lemma links_append: "links h p (xs @ ys) e \<longleftrightarrow> links h p xs (head_or e ys) \<and> links h (last (p # xs)) ys e"
  by (induction xs arbitrary: p) (auto simp: last_ConsR)

lemma links_cong:
  "(\<And>x. x \<in> set xs \<Longrightarrow> block_previous (h' x) = block_previous (h x) \<and> block_next (h' x) = block_next (h x)) \<Longrightarrow>
     links h' p xs e = links h p xs e"
  by (induction xs arbitrary: p) simp_all

lemma links_nonzero: "links h p xs e \<Longrightarrow> 0 \<notin> set xs"
  by (induction xs arbitrary: p) auto

lemma set_simps [simp]:
  "block_next (set_next h a v x) = (if x = a then v else block_next (h x))"
  "block_previous (set_next h a v x) = block_previous (h x)"
  "block_size (set_next h a v x) = block_size (h x)"
  "signature (set_next h a v x) = signature (h x)"
  "block_next (set_previous h a v x) = block_next (h x)"
  "block_previous (set_previous h a v x) = (if x = a then v else block_previous (h x))"
  "block_size (set_previous h a v x) = block_size (h x)"
  "signature (set_previous h a v x) = signature (h x)"
  by (simp_all add: set_next_def set_previous_def)

text \<open>Changing the entry of a list from the left, and its exit to the right.\<close>

lemma links_new_previous:
  assumes "links h p (x # xs) e" "x \<notin> set xs"
  shows "links (set_previous h x q) q (x # xs) e"
proof -
  have "links (set_previous h x q) x xs e = links h x xs e"
    using assms(2) by (intro links_cong) auto
  then show ?thesis using assms(1) by simp
qed

lemma links_new_next:
  assumes "links h p (xs @ [x]) e" "x \<notin> set xs"
  shows "links (set_next h x f) p (xs @ [x]) f"
proof -
  have "links (set_next h x f) p xs x = links h p xs x"
    using assms(2) by (intro links_cong) auto
  then show ?thesis using assms(1) by (simp add: links_append)
qed

lemma push_links:
  assumes l: "links h 0 xs 0" and x: "x \<notin> set xs" "x \<noteq> 0" and d: "distinct xs"
  shows "links (block_allocator_push_block (head_or 0 xs) x h) 0 (x # xs) 0"
proof (cases xs)
  case Nil
  then show ?thesis using x by (simp add: block_allocator_push_block_def Let_def)
next
  case (Cons y ys)
  then have "y \<noteq> 0" "y \<noteq> x" "y \<notin> set ys" using l x d by auto
  moreover have "links (block_allocator_push_block y x h) y ys 0 = links h y ys 0"
    using x Cons \<open>y \<notin> set ys\<close> by (intro links_cong) (auto simp: block_allocator_push_block_def Let_def)
  ultimately show ?thesis using l x Cons by (simp add: block_allocator_push_block_def Let_def)
qed

lemma unlink_links:
  assumes l: "links h 0 (xs @ x # ys) 0" and d: "distinct (xs @ x # ys)"
  shows "links (unlink x h) 0 (xs @ ys) 0" "block_next (unlink x h x) = head_or 0 ys"
proof -
  have p: "block_previous (h x) = last (0 # xs)" and n: "block_next (h x) = head_or 0 ys"
    using l by (simp_all add: links_append)
  have nz: "0 \<notin> set (xs @ x # ys)" using links_nonzero [OF l] .
  have lx: "links h 0 xs x" and ly: "links h x ys 0" using l by (simp_all add: links_append)
  define h1 where "h1 = (if block_previous (h x) \<noteq> 0 then set_next h (block_previous (h x)) (block_next (h x)) else h)"
  define h2 where "h2 = unlink x h"
  have x: "last (0 # xs) \<noteq> x" "head_or 0 ys \<noteq> x" using d nz by (cases xs rule: rev_cases; cases ys; force)+
  have h2: "h2 = (if head_or 0 ys \<noteq> 0 then set_previous h1 (head_or 0 ys) (last (0 # xs)) else h1)"
    using x(1) p n unfolding h2_def unlink_def h1_def [symmetric] by (simp add: Let_def h1_def)
  show "block_next (unlink x h x) = head_or 0 ys"
    using x n p unfolding h2_def [symmetric] h2 h1_def by simp
  have lx1: "links h1 0 xs (head_or 0 ys)"
  proof (cases xs rule: rev_cases)
    case (snoc zs z)
    then show ?thesis using links_new_next [of h 0 zs z x "head_or 0 ys"] lx d nz p n by (simp add: h1_def)
  qed simp
  have "links h1 x ys 0"
    using ly d p by (subst links_cong [of ys h1 h]) (auto simp: h1_def split: if_splits dest: last_in_set)
  have "links h2 (last (0 # xs)) ys 0"
  proof (cases ys)
    case (Cons y zs)
    then show ?thesis using links_new_previous [of h1 x y zs 0 "last (0 # xs)"] \<open>links h1 x ys 0\<close> d nz by (simp add: h2)
  qed simp
  moreover have "links h2 0 xs (head_or 0 ys)"
    using lx1 d by (subst links_cong [of xs h2 h1]) (cases ys; auto simp: h2)+
  ultimately show "links (unlink x h) 0 (xs @ ys) 0" by (simp add: links_append h2_def)
qed

text \<open>What the list operations leave alone.\<close>

lemma unlink_frame:
  "block_size (unlink x h a) = block_size (h a)" "signature (unlink x h a) = signature (h a)"
  by (simp_all add: unlink_def Let_def)

lemma push_frame:
  "block_size (block_allocator_push_block l x h a) = block_size (h a)"
  "signature (block_allocator_push_block l x h a) = signature (h a)"
  by (simp_all add: block_allocator_push_block_def Let_def)

lemma unlink_other:
  assumes "links h 0 (xs @ x # ys) 0" "a \<notin> set (xs @ ys)"
  shows "block_next (unlink x h a) = block_next (h a)" "block_previous (unlink x h a) = block_previous (h a)"
proof -
  have "block_previous (h x) = last (0 # xs)" "block_next (h x) = head_or 0 ys"
    using assms(1) by (simp_all add: links_append)
  moreover have "last (0 # xs) \<noteq> a \<or> last (0 # xs) = 0" "head_or 0 ys \<noteq> a \<or> head_or 0 ys = 0"
    using assms(2) by (cases xs rule: rev_cases; cases ys; auto)+
  ultimately show "block_next (unlink x h a) = block_next (h a)" "block_previous (unlink x h a) = block_previous (h a)"
    by (auto simp: unlink_def Let_def)
qed

subsection \<open>The invariant\<close>

definition block_lists :: "'a block_state_scheme \<Rightarrow> u64 list \<Rightarrow> u64 list \<Rightarrow> bool" where
  "block_lists s fs bs \<longleftrightarrow>
     block_free_list_start s = head_or 0 fs \<and> block_busy_list_start s = head_or 0 bs \<and>
     links (headers s) 0 fs 0 \<and> links (headers s) 0 bs 0 \<and> distinct (fs @ bs)"

definition block_end :: "header_store \<Rightarrow> u64 \<Rightarrow> nat" where
  "block_end h x = unat x + 48 + unat (block_size (h x))"

definition block_ok :: "u64 \<Rightarrow> u64 \<Rightarrow> header_store \<Rightarrow> u64 \<Rightarrow> bool" where
  "block_ok base current h x \<longleftrightarrow>
     signature (h x) = BLOCK_SIGNATURE \<and> 16 dvd unat x \<and> 16 dvd unat (block_size (h x)) \<and>
     16 \<le> unat (block_size (h x)) \<and> unat base \<le> unat x \<and> block_end h x \<le> unat current"

definition apart :: "header_store \<Rightarrow> u64 \<Rightarrow> u64 \<Rightarrow> bool" where
  "apart h x y \<longleftrightarrow> block_end h x \<le> unat y \<or> block_end h y \<le> unat x"

definition blocks_ok :: "u64 \<Rightarrow> u64 \<Rightarrow> header_store \<Rightarrow> u64 set \<Rightarrow> bool" where
  "blocks_ok base current h B \<longleftrightarrow>
     (\<forall>x \<in> B. block_ok base current h x) \<and> (\<forall>x \<in> B. \<forall>y \<in> B. x \<noteq> y \<longrightarrow> apart h x y)"

text \<open>
  The heap is well formed with the given free and busy lists: both are linked, every block
  is signed, aligned and inside the heap, and no two blocks overlap.
\<close>

definition block_inv :: "'a block_state_scheme \<Rightarrow> u64 list \<Rightarrow> u64 list \<Rightarrow> bool" where
  "block_inv s fs bs \<longleftrightarrow>
     block_lists s fs bs \<and> block_allocator_lock s = 0 \<and> 0 < unat (block_allocator_virtual_base s) \<and>
     4096 dvd unat (block_allocator_current_virtual_address s) \<and>
     unat (block_allocator_virtual_base s) \<le> unat (block_allocator_current_virtual_address s) \<and>
     blocks_ok (block_allocator_virtual_base s) (block_allocator_current_virtual_address s) (headers s) (set (fs @ bs))"

lemma blocks_ok_cong:
  "(\<And>x. x \<in> B \<Longrightarrow> signature (h' x) = signature (h x) \<and> block_size (h' x) = block_size (h x)) \<Longrightarrow>
     blocks_ok b c h' B = blocks_ok b c h B"
  by (simp add: blocks_ok_def block_ok_def apart_def block_end_def)

lemma blocks_ok_subset: "blocks_ok b c h B \<Longrightarrow> A \<subseteq> B \<Longrightarrow> blocks_ok b c h A"
  unfolding blocks_ok_def by blast

lemma blocks_ok_grow: "blocks_ok b c h B \<Longrightarrow> unat c \<le> unat c' \<Longrightarrow> blocks_ok b c' h B"
  unfolding blocks_ok_def block_ok_def by (meson le_trans)

lemma apart_sym: "apart h x y \<longleftrightarrow> apart h y x"
  by (auto simp: apart_def)

lemma blocks_ok_insert:
  "blocks_ok b c h (insert x B) \<longleftrightarrow> block_ok b c h x \<and> (\<forall>y \<in> B. y \<noteq> x \<longrightarrow> apart h x y) \<and> blocks_ok b c h B"
proof
  assume *: "block_ok b c h x \<and> (\<forall>y \<in> B. y \<noteq> x \<longrightarrow> apart h x y) \<and> blocks_ok b c h B"
  then have "\<forall>y \<in> B. y \<noteq> x \<longrightarrow> apart h y x" using apart_sym by blast
  with * show "blocks_ok b c h (insert x B)" unfolding blocks_ok_def by auto
qed (auto simp: blocks_ok_def)

subsection \<open>Moving blocks between the lists\<close>

lemma remove_frame [simp]:
  "block_size (headers (block_allocator_remove_block_from_list x s) a) = block_size (headers s a)"
  "signature (headers (block_allocator_remove_block_from_list x s) a) = signature (headers s a)"
  by (simp_all add: block_allocator_remove_block_from_list_def Let_def unlink_frame)

lemma remove_links:
  assumes l: "links (headers s) 0 (xs @ x # ys) 0" "links (headers s) 0 zs 0" and d: "distinct (xs @ x # ys @ zs)"
  defines "h \<equiv> headers (block_allocator_remove_block_from_list x s)"
  shows "links h 0 (xs @ ys) 0" "links h 0 zs 0"
proof -
  have h: "h = set_next (set_previous (unlink x (headers s)) x 0) x 0"
    by (simp add: h_def block_allocator_remove_block_from_list_def Let_def)
  have d': "distinct (xs @ x # ys)" using d by auto
  have "links h 0 (xs @ ys) 0 = links (unlink x (headers s)) 0 (xs @ ys) 0"
    using d by (intro links_cong) (auto simp: h)
  then show "links h 0 (xs @ ys) 0" using unlink_links(1) [OF l(1) d'] by simp
  have "links h 0 zs 0 = links (headers s) 0 zs 0"
    using d unlink_other [OF l(1)] by (intro links_cong) (auto simp: h)
  then show "links h 0 zs 0" using l(2) by simp
qed

lemma remove_starts:
  assumes l: "links (headers s) 0 (xs @ x # ys) 0" and d: "distinct (xs @ x # ys @ zs)"
    and other: "links (headers s) 0 zs 0"
  defines "s' \<equiv> block_allocator_remove_block_from_list x s"
  shows "block_free_list_start s = head_or 0 (xs @ x # ys) \<Longrightarrow> block_busy_list_start s = head_or 0 zs \<Longrightarrow>
      block_free_list_start s' = head_or 0 (xs @ ys) \<and> block_busy_list_start s' = head_or 0 zs"
    and "block_busy_list_start s = head_or 0 (xs @ x # ys) \<Longrightarrow> block_free_list_start s = head_or 0 zs \<Longrightarrow>
      block_busy_list_start s' = head_or 0 (xs @ ys) \<and> block_free_list_start s' = head_or 0 zs"
proof -
  have d': "distinct (xs @ x # ys)" using d by auto
  have n: "block_next (unlink x (headers s) x) = head_or 0 ys" using unlink_links(2) [OF l d'] .
  have nz: "x \<noteq> 0" using links_nonzero [OF l] by auto
  have z: "x \<noteq> head_or 0 zs" using d nz by (cases zs) auto
  have "head_or 0 (xs @ x # ys) = x \<longleftrightarrow> xs = []" "xs \<noteq> [] \<Longrightarrow> head_or 0 (xs @ x # ys) = head_or 0 (xs @ ys)"
    using d' by (cases xs; auto)+
  then show "block_free_list_start s = head_or 0 (xs @ x # ys) \<Longrightarrow> block_busy_list_start s = head_or 0 zs \<Longrightarrow>
      block_free_list_start s' = head_or 0 (xs @ ys) \<and> block_busy_list_start s' = head_or 0 zs"
    "block_busy_list_start s = head_or 0 (xs @ x # ys) \<Longrightarrow> block_free_list_start s = head_or 0 zs \<Longrightarrow>
      block_busy_list_start s' = head_or 0 (xs @ ys) \<and> block_free_list_start s' = head_or 0 zs"
    using n z by (auto simp: s'_def block_allocator_remove_block_from_list_def Let_def)
qed

lemma push_other:
  assumes "links h 0 xs 0" "links h 0 zs 0" "distinct (x # xs @ zs)"
  shows "links (block_allocator_push_block (head_or 0 xs) x h) 0 zs 0"
proof -
  have "head_or 0 xs \<notin> set zs" using assms(3) links_nonzero [OF assms(2)] by (cases xs) auto
  then have "links (block_allocator_push_block (head_or 0 xs) x h) 0 zs 0 = links h 0 zs 0"
    using assms(3) by (intro links_cong) (auto simp: block_allocator_push_block_def Let_def)
  then show ?thesis using assms(2) by simp
qed

lemma move_to_busy_lists:
  assumes "block_lists s (xs @ x # ys) bs"
  shows "block_lists (block_allocator_move_to_busy_list x s) (xs @ ys) (x # bs)"
proof -
  let ?s = "block_allocator_remove_block_from_list x s"
  have l: "links (headers s) 0 (xs @ x # ys) 0" "links (headers s) 0 bs 0" and d: "distinct (xs @ x # ys @ bs)"
    using assms by (simp_all add: block_lists_def)
  note r = remove_links [OF l d] and st = remove_starts(1) [OF l(1) d l(2)]
  have nz: "x \<noteq> 0" using links_nonzero [OF l(1)] by auto
  have "links (block_allocator_push_block (head_or 0 bs) x (headers ?s)) 0 (x # bs) 0"
    by (rule push_links [OF r(2) _ nz]) (use d in auto)
  moreover have "links (block_allocator_push_block (head_or 0 bs) x (headers ?s)) 0 (xs @ ys) 0"
    by (rule push_other [OF r(2,1)]) (use d in auto)
  ultimately show ?thesis
    using assms st d by (auto simp: block_lists_def block_allocator_move_to_busy_list_def Let_def)
qed

lemma move_to_free_lists:
  assumes "block_lists s fs (xs @ x # ys)"
  shows "block_lists (block_allocator_move_to_free_list x s) (x # fs) (xs @ ys)"
proof -
  let ?s = "block_allocator_remove_block_from_list x s"
  have l: "links (headers s) 0 (xs @ x # ys) 0" "links (headers s) 0 fs 0" and d: "distinct (xs @ x # ys @ fs)"
    using assms by (auto simp: block_lists_def)
  note r = remove_links [OF l d] and st = remove_starts(2) [OF l(1) d l(2)]
  have nz: "x \<noteq> 0" using links_nonzero [OF l(1)] by auto
  have "links (block_allocator_push_block (head_or 0 fs) x (headers ?s)) 0 (x # fs) 0"
    by (rule push_links [OF r(2) _ nz]) (use d in auto)
  moreover have "links (block_allocator_push_block (head_or 0 fs) x (headers ?s)) 0 (xs @ ys) 0"
    by (rule push_other [OF r(2,1)]) (use d in auto)
  ultimately show ?thesis
    using assms st d by (auto simp: block_lists_def block_allocator_move_to_free_list_def Let_def)
qed

lemma move_frame [simp]:
  "block_size (headers (block_allocator_move_to_busy_list x s) a) = block_size (headers s a)"
  "signature (headers (block_allocator_move_to_busy_list x s) a) = signature (headers s a)"
  "block_size (headers (block_allocator_move_to_free_list x s) a) = block_size (headers s a)"
  "signature (headers (block_allocator_move_to_free_list x s) a) = signature (headers s a)"
  by (simp_all add: block_allocator_move_to_busy_list_def block_allocator_move_to_free_list_def Let_def push_frame)

lemma move_static [simp]:
  "block_allocator_virtual_base (block_allocator_move_to_busy_list x s) = block_allocator_virtual_base s"
  "block_allocator_current_virtual_address (block_allocator_move_to_busy_list x s) = block_allocator_current_virtual_address s"
  "block_allocator_virtual_base (block_allocator_move_to_free_list x s) = block_allocator_virtual_base s"
  "block_allocator_current_virtual_address (block_allocator_move_to_free_list x s) = block_allocator_current_virtual_address s"
  "block_allocator_lock (block_allocator_move_to_busy_list x s) = block_allocator_lock s"
  "block_allocator_lock (block_allocator_move_to_free_list x s) = block_allocator_lock s"
  "heap_bytes (block_allocator_move_to_busy_list x s) = heap_bytes s"
  "heap_bytes (block_allocator_move_to_free_list x s) = heap_bytes s"
  by (simp_all add: block_allocator_move_to_busy_list_def block_allocator_move_to_free_list_def
      block_allocator_remove_block_from_list_def Let_def)

subsection \<open>Searching\<close>

lemma first_fit_eq:
  "links h p xs 0 \<Longrightarrow> block_first_fit h sz (head_or 0 xs) =
     Some (case find (\<lambda>x. sz \<le> block_size (h x)) xs of None \<Rightarrow> 0 | Some x \<Rightarrow> x)"
proof (induction xs arbitrary: p)
  case Nil
  then show ?case by (subst block_first_fit.simps) simp
next
  case (Cons x xs)
  then show ?case by (subst block_first_fit.simps) (auto simp: not_less)
qed

subsection \<open>Splitting\<close>

definition remainder_block :: "u64 \<Rightarrow> u64 \<Rightarrow> u64" where
  "remainder_block x sz = x + BLOCK_HEADER_SIZE + sz"

definition splits :: "header_store \<Rightarrow> u64 \<Rightarrow> u64 \<Rightarrow> bool" where
  "splits h x sz \<longleftrightarrow> block_size (h x) > sz + BLOCK_HEADER_SIZE + BLOCK_MINIMUM_ALLOCATION"

lemma split_block_no: "\<not> splits h x sz \<Longrightarrow> split_block x sz h = h"
  by (simp add: split_block_def splits_def)

lemma split_block_fields:
  assumes "splits h x sz" and nb: "remainder_block x sz \<noteq> x" "block_next (h x) \<noteq> remainder_block x sz"
  shows "block_size (split_block x sz h a) =
      (if a = x then sz else if a = remainder_block x sz then block_size (h x) - sz - BLOCK_HEADER_SIZE
       else block_size (h a))"
    and "signature (split_block x sz h a) =
      (if a = remainder_block x sz then BLOCK_SIGNATURE else signature (h a))"
    and "block_next (split_block x sz h a) =
      (if a = x then remainder_block x sz else if a = remainder_block x sz then block_next (h x)
       else block_next (h a))"
    and "block_previous (split_block x sz h a) =
      (if a = remainder_block x sz then x
       else if a = block_next (h x) \<and> a \<noteq> 0 then remainder_block x sz else block_previous (h a))"
  using assms by (auto simp: split_block_def splits_def remainder_block_def [symmetric] Let_def)

lemma split_links:
  assumes sp: "splits h x sz" and l: "links h 0 (xs @ x # ys) 0" and d: "distinct (xs @ x # ys)"
    and nb: "nb = remainder_block x sz" "nb \<notin> set (xs @ x # ys)" "nb \<noteq> 0"
  shows "links (split_block x sz h) 0 (xs @ x # nb # ys) 0"
proof -
  have n: "block_next (h x) = head_or 0 ys" "block_previous (h x) = last (0 # xs)" "x \<noteq> 0"
    and lx: "links h 0 xs x" and ly: "links h x ys 0"
    using l by (simp_all add: links_append)
  have nz: "0 \<notin> set (xs @ x # ys)" using links_nonzero [OF l] .
  have hy: "head_or 0 ys \<noteq> nb" using nb by (cases ys) auto
  have hx: "head_or 0 ys \<notin> set (xs @ [x])" using d nz by (cases ys) auto
  note f = split_block_fields [OF sp, folded nb(1), unfolded n(1)]
  have ne: "nb \<noteq> x" using nb by auto
  have "links (split_block x sz h) 0 xs x = links h 0 xs x"
    using d nb hx by (intro links_cong) (auto simp: f(3,4) [OF ne hy])
  moreover have "links (split_block x sz h) nb ys 0"
  proof (cases ys)
    case (Cons y zs)
    have "links (split_block x sz h) y zs 0 = links h y zs 0"
      using d nb Cons by (intro links_cong) (auto simp: f(3,4) [OF ne hy])
    then show ?thesis
      using ly d nb Cons by (auto simp: f(3,4) [OF ne hy])
  qed simp
  moreover have "block_previous (split_block x sz h x) = last (0 # xs)"
    using hx ne n by (auto simp: f(4) [OF ne hy])
  ultimately show ?thesis
    using lx n nb ne by (simp add: links_append f(3,4) [OF ne hy])
qed

lemma split_links_other:
  assumes sp: "splits h x sz" and l: "links h 0 (xs @ x # ys) 0" "links h 0 zs 0" and d: "distinct (xs @ x # ys @ zs)"
    and nb: "nb = remainder_block x sz" "nb \<notin> set (xs @ x # ys @ zs)" "nb \<noteq> 0"
  shows "links (split_block x sz h) 0 zs 0"
proof -
  have n: "block_next (h x) = head_or 0 ys" using l(1) by (simp add: links_append)
  have hy: "head_or 0 ys \<noteq> nb" using nb by (cases ys) auto
  have ne: "nb \<noteq> x" using nb by auto
  have "head_or 0 ys \<notin> set zs" using d links_nonzero [OF l(2)] by (cases ys) auto
  then have "links (split_block x sz h) 0 zs 0 = links h 0 zs 0"
    using d nb by (intro links_cong) (auto simp: split_block_fields(3,4) [OF sp, folded nb(1), unfolded n, OF ne hy])
  then show ?thesis using l(2) by simp
qed

text \<open>The arithmetic of a split, without wrap-around.\<close>

lemma split_bounds:
  assumes ok: "block_ok b c h x" and b: "0 < unat b" and sz: "sz \<le> block_size (h x)"
  shows "splits h x sz \<longleftrightarrow> unat sz + 64 < unat (block_size (h x))"
    and "splits h x sz \<Longrightarrow> unat (remainder_block x sz) = unat x + 48 + unat sz"
    and "splits h x sz \<Longrightarrow> unat (block_size (h x) - sz - BLOCK_HEADER_SIZE) = unat (block_size (h x)) - unat sz - 48"
proof -
  have x: "16 \<le> unat x" "unat x + 48 + unat (block_size (h x)) \<le> unat c"
    using ok b by (auto simp: block_ok_def block_end_def elim!: dvdE)
  have s: "unat sz \<le> unat (block_size (h x))" using sz by (simp add: word_le_nat_alt)
  have lim: "unat (block_size (h x)) + 64 < 2 ^ 64" using x unat_less_2p64 [of c] by linarith
  have e48: "unat (sz + 48) = unat sz + 48" using s lim by (subst unat_plus_exact) simp_all
  have e64: "unat (sz + 48 + 16) = unat sz + 64" using s lim e48 by (subst unat_plus_exact) simp_all
  show iff: "splits h x sz \<longleftrightarrow> unat sz + 64 < unat (block_size (h x))"
    unfolding splits_def word_less_nat_alt e64 ..
  have x48: "unat (x + 48) = unat x + 48" using x unat_less_2p64 [of c] by (subst unat_plus_exact) simp_all
  show "unat (remainder_block x sz) = unat x + 48 + unat sz" if "splits h x sz"
    unfolding remainder_block_def using x s unat_less_2p64 [of c] x48 by (subst unat_plus_exact) simp_all
  show "unat (block_size (h x) - sz - BLOCK_HEADER_SIZE) = unat (block_size (h x)) - unat sz - 48"
    if "splits h x sz"
  proof -
    have "unat (block_size (h x) - sz) = unat (block_size (h x)) - unat sz"
      by (rule unat_minus_exact [OF s])
    then show ?thesis using that iff by (subst unat_minus_exact) simp_all
  qed
qed

text \<open>Two blocks out of one: both well formed, apart from each other and from all others.\<close>

lemma split_blocks_ok:
  assumes bo: "blocks_ok b c h (insert x B)" and b: "0 < unat b" and xB: "x \<notin> B"
    and sz: "sz \<le> block_size (h x)" "16 dvd unat sz" "16 \<le> unat sz" and sp: "splits h x sz"
  defines "nb \<equiv> remainder_block x sz"
  shows "nb \<notin> insert x B" "nb \<noteq> 0"
    and "block_next (h x) \<in> insert 0 B \<Longrightarrow> blocks_ok b c (split_block x sz h) (insert x (insert nb B))"
proof -
  have ok: "block_ok b c h x" and ap: "\<And>y. y \<in> B \<Longrightarrow> apart h x y" and bB: "blocks_ok b c h B"
    using bo xB by (auto simp: blocks_ok_insert)
  have big: "unat sz + 64 < unat (block_size (h x))" using split_bounds(1) [OF ok b sz(1)] sp by simp
  have un: "unat nb = unat x + 48 + unat sz" using split_bounds(2) [OF ok b sz(1) sp] by (simp add: nb_def)
  have out: "unat y < unat x \<or> block_end h x \<le> unat y" if "y \<in> B" for y
    using ap [OF that] by (auto simp: apart_def block_end_def)
  show nb0: "nb \<noteq> 0" using un by auto
  show nbx: "nb \<notin> insert x B"
    using out [of nb] un big by (auto simp: block_end_def)
  show "blocks_ok b c (split_block x sz h) (insert x (insert nb B))" if nx: "block_next (h x) \<in> insert 0 B"
  proof -
    let ?h = "split_block x sz h"
    have ne: "nb \<noteq> x" "block_next (h x) \<noteq> nb" using nbx nb0 nx by auto
    note f = split_block_fields(1,2) [OF sp, folded nb_def, OF ne]
    have sx: "block_size (?h x) = sz" and sn: "unat (block_size (?h nb)) = unat (block_size (h x)) - unat sz - 48"
      using ne split_bounds(3) [OF ok b sz(1) sp] by (simp_all add: f)
    have same: "block_size (?h y) = block_size (h y)" "signature (?h y) = signature (h y)" if "y \<in> B" for y
      using that xB nbx by (auto simp: f)
    have "blocks_ok b c ?h B" using bB same by (subst blocks_ok_cong [of B ?h h]) auto
    moreover have "block_ok b c ?h x"
      using ok sz big ne by (auto simp: block_ok_def block_end_def sx f(2))
    moreover have "block_ok b c ?h nb"
      using ok sz big un sn by (auto simp: block_ok_def block_end_def f(2) intro!: dvd_add dvd_diff_nat)
    moreover have "apart ?h x nb" using un by (simp add: apart_def block_end_def sx)
    moreover have "apart ?h x y \<and> apart ?h nb y" if "y \<in> B" for y
      using ap [OF that] un sn big same [OF that] by (auto simp: apart_def block_end_def sx)
    ultimately show ?thesis by (auto simp: blocks_ok_insert)
  qed
qed

subsection \<open>Taking a block\<close>

lemma block_lists_headers:
  "block_lists (s\<lparr>headers := h\<rparr>) fs bs \<longleftrightarrow>
     block_free_list_start s = head_or 0 fs \<and> block_busy_list_start s = head_or 0 bs \<and>
     links h 0 fs 0 \<and> links h 0 bs 0 \<and> distinct (fs @ bs)"
  by (simp add: block_lists_def)

lemma links_next_in: "links h p (xs @ x # ys) 0 \<Longrightarrow> block_next (h x) \<in> insert 0 (set ys)"
  by (cases ys) (simp_all add: links_append)

definition rest_of_block :: "header_store \<Rightarrow> u64 \<Rightarrow> u64 \<Rightarrow> u64 list" where
  "rest_of_block h x sz = (if splits h x sz then [remainder_block x sz] else [])"

lemma take_block:
  assumes inv: "block_inv s (xs @ x # ys) bs"
    and sz: "sz \<le> block_size (headers s x)" "16 dvd unat sz" "16 \<le> unat sz"
  defines "s' \<equiv> block_allocator_move_to_busy_list x (s\<lparr>headers := split_block x sz (headers s)\<rparr>)"
  shows "block_inv s' (xs @ rest_of_block (headers s) x sz @ ys) (x # bs) \<and>
    sz \<le> block_size (headers s' x) \<and> block_end (headers s') x \<le> block_end (headers s) x \<and>
    (\<forall>y \<in> set (xs @ ys @ bs). block_size (headers s' y) = block_size (headers s y))"
proof -
  let ?h = "headers s" and ?b = "block_allocator_virtual_base s" and ?c = "block_allocator_current_virtual_address s"
  let ?B = "set (xs @ ys @ bs)"
  have bl: "block_lists s (xs @ x # ys) bs" and b: "0 < unat ?b"
    and bo: "blocks_ok ?b ?c ?h (insert x ?B)"
    using inv by (simp_all add: block_inv_def insert_commute Un_assoc)
  have d: "distinct (xs @ x # ys @ bs)" and l: "links ?h 0 (xs @ x # ys) 0" "links ?h 0 bs 0"
    using bl by (simp_all add: block_lists_def)
  have xB: "x \<notin> ?B" using d by auto
  have szs: "unat sz \<le> unat (block_size (?h x))" using sz(1) by (simp add: word_le_nat_alt)
  show ?thesis
  proof (cases "splits ?h x sz")
    case False
    then have "block_lists s' (xs @ ys) (x # bs)"
      using move_to_busy_lists [OF bl] by (simp add: s'_def split_block_no)
    moreover have "blocks_ok ?b ?c (headers s') (insert x ?B)"
      using bo by (subst blocks_ok_cong [of _ _ ?h]) (simp_all add: s'_def False split_block_no)
    ultimately show ?thesis
      using inv sz(1) False
      by (simp add: block_inv_def s'_def rest_of_block_def split_block_no block_end_def insert_commute Un_assoc)
  next
    case True
    let ?nb = "remainder_block x sz"
    have nx: "block_next (?h x) \<in> insert 0 ?B" using links_next_in [OF l(1)] by auto
    note sb = split_blocks_ok [OF bo b xB sz True]
    have nbd: "?nb \<notin> set (xs @ x # ys)" "?nb \<notin> set (xs @ x # ys @ bs)" using sb(1) by auto
    have bl2: "block_lists (s\<lparr>headers := split_block x sz ?h\<rparr>) (xs @ x # ?nb # ys) bs"
      unfolding block_lists_headers
      using bl d nbd split_links [OF True l(1) _ refl nbd(1) sb(2)]
        split_links_other [OF True l d refl nbd(2) sb(2)]
      by (auto simp: block_lists_def)
    then have "block_lists s' (xs @ ?nb # ys) (x # bs)"
      unfolding s'_def by (rule move_to_busy_lists)
    moreover have "blocks_ok ?b ?c (headers s') (insert x (insert ?nb ?B))"
      using sb(3) [OF nx] by (subst blocks_ok_cong [of _ _ "split_block x sz ?h"]) (simp_all add: s'_def)
    moreover have "?nb \<noteq> x" "block_next (?h x) \<noteq> ?nb" using sb nx by auto
    note f = split_block_fields(1) [OF True this]
    ultimately show ?thesis
      using inv True xB nbd szs
      by (auto simp: block_inv_def s'_def rest_of_block_def block_end_def f insert_commute Un_assoc)
  qed
qed

lemma round_block_size_props:
  assumes "unat requested \<le> 2 ^ 64 - 16"
  shows "16 dvd unat (round_block_size requested)" "16 \<le> unat (round_block_size requested)"
    "unat requested \<le> unat (round_block_size requested)"
    "unat (round_block_size requested) < unat requested + 16 \<or> unat (round_block_size requested) = 16"
proof -
  define z where "z = (if requested < 16 then 16 else requested)"
  have z: "unat z = max 16 (unat requested)" by (auto simp: z_def word_less_nat_alt max_def)
  have m: "unat (z mod 16) = unat z mod 16" by (simp add: unat_mod)
  then have m0: "z mod 16 = 0 \<longleftrightarrow> unat z mod 16 = 0" by (metis unat_eq_zero)
  have r: "unat (16 - z mod 16) = 16 - unat z mod 16" by (subst unat_minus_exact) (simp_all add: m less_imp_le)
  have "unat (round_block_size requested) = (if unat z mod 16 = 0 then unat z else 16 * (unat z div 16 + 1))"
  proof (cases "unat z mod 16 = 0")
    case True
    then show ?thesis using m0 by (simp add: round_block_size_def z_def [symmetric])
  next
    case False
    have lim: "unat z + (16 - unat z mod 16) < 2 ^ 64"
      using assms False z by (simp add: max_def) presburger
    have "round_block_size requested = z + (16 - z mod 16)"
      using m0 False by (simp add: round_block_size_def z_def [symmetric])
    then have "unat (round_block_size requested) = unat z + (16 - unat z mod 16)"
      using lim r by (simp add: unat_plus_exact)
    then show ?thesis using False round_up_eq [of 16 "unat z"] by simp
  qed
  moreover define Z q m' where "Z = unat z" and "q = Z div 16" and "m' = Z mod 16"
  ultimately have R: "unat (round_block_size requested) = (if m' = 0 then Z else 16 * (q + 1))" by simp
  have Z: "Z = 16 * q + m'" "m' < 16" by (simp_all add: q_def m'_def)
  have b: "16 \<le> Z" "unat requested \<le> Z" "Z = 16 \<or> Z = unat requested" using z by (auto simp: Z_def)
  show "16 dvd unat (round_block_size requested)" using Z R by auto
  show "16 \<le> unat (round_block_size requested)" "unat requested \<le> unat (round_block_size requested)"
    using Z R b by auto
  have "m' = 0" if "Z = 16" using that by (simp add: m'_def)
  then show "unat (round_block_size requested) < unat requested + 16 \<or> unat (round_block_size requested) = 16"
    using Z R b by (cases "Z = 16") auto
qed

subsection \<open>Growing the heap\<close>

text \<open>
  The operations below the heap change memory, pools and the allocator's lock: the offset of the direct map and the heap's own
  state stay as they are.
\<close>

definition page_frame :: "'a page_state_scheme \<Rightarrow> u64 \<times> 'a" where
  "page_frame s = (kernel_hhdm_offset s, page_state.more s)"

lemma page_allocate_frame: "page_allocate n s = Inr (p, s') \<Longrightarrow> page_frame s' = page_frame s"
  by (auto simp: page_frame_def page_allocate_def page_allocate_single_fast_def page_allocate_multi_def Let_def
      split: if_splits sum.splits option.splits)

lemma page_deallocate_frame: "page_deallocate p n s = Inr s' \<Longrightarrow> page_frame s' = page_frame s"
  by (auto simp: page_frame_def page_deallocate_def Let_def split: if_splits sum.splits option.splits)

lemma allocate_next_layer_frame:
  "arch_table_manager_allocate_next_layer l i flags s = Inr (l', s') \<Longrightarrow> page_frame s' = page_frame s"
  by (auto simp: page_frame_def arch_table_manager_allocate_next_layer_def Let_def dest: page_allocate_frame [unfolded page_frame_def]
      split: if_splits sum.splits)

lemma allocate_pml_frame:
  "allocate_pml1 flags c s = Inr (c', s') \<Longrightarrow> page_frame s' = page_frame s"
  "allocate_pml2 flags c s = Inr (c', s') \<Longrightarrow> page_frame s' = page_frame s"
  "allocate_pml3 r flags c s = Inr (c', s') \<Longrightarrow> page_frame s' = page_frame s"
  by (auto simp: allocate_pml1_def allocate_pml2_def allocate_pml3_def
      dest!: allocate_next_layer_frame split: sum.splits)

lemma write_leaves_frame [simp]: "page_frame (write_leaves l p pa flags k s) = page_frame s"
proof -
  have "page_frame (fold (\<lambda>i. write_leaf l (p + of_nat i) (pa + of_nat i * PAGE) flags) xs s) = page_frame s" for xs
    by (induction xs arbitrary: s) (simp_all add: write_leaf_def Let_def page_frame_def)
  then show ?thesis by (simp add: write_leaves_def)
qed

lemma map_range_loop_frame:
  "map_range_loop r flags c p pa count s = Inr s' \<Longrightarrow> page_frame s' = page_frame s"
proof (induction r flags c p pa count s arbitrary: s' rule: map_range_loop.induct)
  case (1 r flags c p pa count s)
  show ?case
  proof (cases "count = 0")
    case True
    then show ?thesis using 1 by (simp add: map_range_loop.simps)
  next
    case False
    define m where "m = (if count < 512 - ucast p then count else 512 - ucast p)"
    have pos: "0 < count" using False by (simp add: word_greater_zero_iff)
    obtain c' s2 where adv: "advance_cursor r flags c (write_leaves (cur_pml1 c) (ucast p) pa flags m s) = Inr (c', s2)"
      and rest: "map_range_loop r flags c' 0 (pa + m * PAGE) (count - m) s2 = Inr s'"
      using 1(2) pos by (subst (asm) map_range_loop.simps) (auto simp: Let_def m_def [symmetric] split: sum.splits)
    have "page_frame s' = page_frame s2"
      using 1(1) [OF pos refl _ refl adv refl rest] by (simp add: m_def)
    also have "\<dots> = page_frame s"
      using adv by (auto simp: advance_cursor_def Let_def dest!: allocate_pml_frame split: if_splits)
    finally show ?thesis .
  qed
qed

lemma map_range_frame:
  "arch_table_manager_map_range r va pa flags count s = Inr s' \<Longrightarrow> page_frame s' = page_frame s"
  by (auto simp: arch_table_manager_map_range_def Let_def dest!: map_range_loop_frame allocate_pml_frame split: sum.splits)

lemma map_frame: "arch_table_manager_map r va pa flags s = Inr s' \<Longrightarrow> page_frame s' = page_frame s"
  by (auto simp: arch_table_manager_map_def allocate_pml3_def allocate_pml2_def allocate_pml1_def Let_def write_leaf_def
      page_frame_def dest!: allocate_next_layer_frame [unfolded page_frame_def] split: sum.splits)

lemma page_allocate_more: "page_allocate n s = Inr (p, s') \<Longrightarrow> page_state.more s' = page_state.more s"
  using page_allocate_frame by (fastforce simp: page_frame_def)

lemma page_deallocate_more: "page_deallocate p n s = Inr s' \<Longrightarrow> page_state.more s' = page_state.more s"
  using page_deallocate_frame by (fastforce simp: page_frame_def)

lemma map_range_more:
  "arch_table_manager_map_range r va pa flags count s = Inr s' \<Longrightarrow> page_state.more s' = page_state.more s"
  using map_range_frame by (fastforce simp: page_frame_def)

lemma block_fields_more:
  fixes s s' :: "'a block_state_scheme"
  assumes "page_state.more s' = page_state.more s"
  shows "headers s' = headers s" "heap_bytes s' = heap_bytes s"
    "block_free_list_start s' = block_free_list_start s" "block_busy_list_start s' = block_busy_list_start s"
    "block_allocator_virtual_base s' = block_allocator_virtual_base s"
    "block_allocator_current_virtual_address s' = block_allocator_current_virtual_address s"
    "block_allocator_lock s' = block_allocator_lock s" "arch_bootstrap_page_table s' = arch_bootstrap_page_table s"
  using assms by (cases s; cases s'; simp)+

subsubsection \<open>Page alignment\<close>

lemma page_round_down: "(x :: u64) AND NOT (PAGE - 1) = (x div PAGE) * PAGE"
proof -
  have "NOT (PAGE - 1) = NOT (mask 12 :: u64)" by (simp add: mask_eq_exp_minus_1)
  moreover have "x AND NOT (mask 12) = push_bit 12 (drop_bit 12 x)"
    by (auto intro!: bit_word_eqI simp: bit_simps)
  ultimately show ?thesis by (simp add: push_bit_eq_mult drop_bit_eq_div)
qed

lemma page_align_up_unat:
  assumes "unat a + 4095 < 2 ^ 64"
  shows "unat (page_align_up a) = (unat a + 4095) div 4096 * 4096"
proof -
  have "unat (a + PAGE - 1) = unat a + 4095"
  proof -
    have "a + PAGE - 1 = a + 4095" by simp
    moreover have "unat (4095 :: u64) = 4095" by simp
    ultimately show ?thesis using assms unat_plus_exact [of a 4095] by metis
  qed
  then have d: "unat ((a + PAGE - 1) div PAGE) = (unat a + 4095) div 4096" by (simp add: unat_div)
  have "(unat a + 4095) div 4096 * 4096 < 2 ^ 64"
    using assms by (meson div_times_less_eq_dividend le_less_trans)
  then show ?thesis
    unfolding page_align_up_def page_round_down using d by (subst unat_times_exact) simp_all
qed

lemma page_align_up_aligned:
  assumes "4096 dvd unat a" "unat a + 4096 < 2 ^ 64"
  shows "page_align_up a = a"
proof -
  obtain k where k: "unat a = 4096 * k" using assms(1) by (auto elim: dvdE)
  have "(4096 * k + 4095) div 4096 = k" by simp
  then show ?thesis using page_align_up_unat [of a] assms(2) by (simp add: u64_eq_unat_iff k)
qed

subsubsection \<open>A new free block\<close>

definition heap_ok :: "u64 set \<Rightarrow> 'a block_state_scheme \<Rightarrow> u64 list \<Rightarrow> u64 list \<Rightarrow> bool" where
  "heap_ok R s fs bs \<longleftrightarrow> block_inv s fs bs \<and> pt_inv R s \<and> arch_bootstrap_page_table s \<in> R"

lemma new_block_size:
  assumes "0 < unat pages" "4096 * unat pages < 2 ^ 64"
  shows "unat (pages * PAGE) = 4096 * unat pages" "unat (pages * PAGE - BLOCK_HEADER_SIZE) = 4096 * unat pages - 48"
proof -
  show p: "unat (pages * PAGE) = 4096 * unat pages" using assms by (subst unat_times_exact) simp_all
  show "unat (pages * PAGE - BLOCK_HEADER_SIZE) = 4096 * unat pages - 48"
    using assms p by (subst unat_minus_exact) simp_all
qed

definition fresh_header :: "u64 \<Rightarrow> block_header" where
  "fresh_header pages = \<lparr>signature = BLOCK_SIGNATURE, block_size = pages * PAGE - BLOCK_HEADER_SIZE,
                         block_next = 0, block_previous = 0\<rparr>"

lemma push_on_empty: "block_next (h b) = 0 \<Longrightarrow> block_previous (h b) = 0 \<Longrightarrow> block_allocator_push_block 0 b h = h"
  by (simp add: block_allocator_push_block_def set_next_def set_previous_def fun_upd_idem_iff)

lemma create_free_block_shape:
  assumes ok: "block_allocator_create_free_block pages s = Inr (b, s')"
  defines "v \<equiv> page_align_up (block_allocator_current_virtual_address s)"
  obtains p s1 s3 where "page_allocate pages s = Inr (p, s1)"
    "arch_table_manager_map_range (arch_bootstrap_page_table s) v (p - kernel_hhdm_offset s1)
       TABLE_ENTRY_READ_WRITE pages (s1\<lparr>block_allocator_current_virtual_address := v + pages * PAGE\<rparr>) = Inr s3"
    "b = v"
    "s' = s3\<lparr>headers := block_allocator_push_block (block_free_list_start s) b ((headers s)(b := fresh_header pages)),
             block_free_list_start := b\<rparr>"
proof -
  obtain p s1 where a: "page_allocate pages s = Inr (p, s1)"
    using ok by (auto simp: block_allocator_create_free_block_def block_allocator_allocate_block_def split: sum.splits)
  note f1 = block_fields_more [OF page_allocate_more [OF a]]
  define s2 where "s2 = s1\<lparr>block_allocator_current_virtual_address := v + pages * PAGE\<rparr>"
  obtain s3 where m: "arch_table_manager_map_range (arch_bootstrap_page_table s) v (p - kernel_hhdm_offset s1)
       TABLE_ENTRY_READ_WRITE pages s2 = Inr s3"
    using ok a unfolding v_def block_allocator_create_free_block_def block_allocator_allocate_block_def
    by (auto simp: Let_def f1 s2_def v_def split: sum.splits)
  note f3 = block_fields_more [OF map_range_more [OF m]]
  have b: "b = v" and s': "s' = (if block_free_list_start s3 = 0 then s3\<lparr>headers := (headers s3)(v := fresh_header pages), block_free_list_start := v\<rparr>
      else s3\<lparr>headers := block_allocator_push_block (block_free_list_start s3) v ((headers s3)(v := fresh_header pages)),
              block_free_list_start := v\<rparr>)"
    using ok a m unfolding block_allocator_create_free_block_def block_allocator_allocate_block_def
    by (auto simp: Let_def f1 s2_def v_def fresh_header_def split: if_splits)
  show thesis
    by (rule that [OF a m [unfolded s2_def] b])
       (use s' b f1 f3 in \<open>auto simp: s2_def push_on_empty fresh_header_def\<close>)
qed

lemma fresh_block_inv:
  assumes inv: "block_inv s fs bs" and pos: "0 < unat pages"
    and fit: "unat (block_allocator_current_virtual_address s) + 4096 * unat pages < 2 ^ 64"
    and b: "b = block_allocator_current_virtual_address s"
    and h': "headers s' = block_allocator_push_block (block_free_list_start s) b ((headers s)(b := fresh_header pages))"
    and f: "block_free_list_start s' = b" "block_busy_list_start s' = block_busy_list_start s"
      "block_allocator_lock s' = block_allocator_lock s" "block_allocator_virtual_base s' = block_allocator_virtual_base s"
      "block_allocator_current_virtual_address s' = b + pages * PAGE"
  shows "block_inv s' (b # fs) bs \<and> b \<notin> set (fs @ bs) \<and>
    unat (block_size (headers s' b)) = 4096 * unat pages - 48 \<and>
    (\<forall>x \<in> set (fs @ bs). block_size (headers s' x) = block_size (headers s x))"
proof -
  let ?vb = "block_allocator_virtual_base s"
  define h where "h = (headers s)(b := fresh_header pages)"
  have sz: "unat (pages * PAGE) = 4096 * unat pages" "unat (block_size (fresh_header pages)) = 4096 * unat pages - 48"
    using new_block_size [OF pos] fit by (simp_all add: fresh_header_def)
  have cur: "unat (b + pages * PAGE) = unat b + 4096 * unat pages"
    using sz fit b by (subst unat_plus_exact) simp_all
  have old: "block_end (headers s) x \<le> unat b" if "x \<in> set (fs @ bs)" for x
    using inv that by (simp add: b block_inv_def blocks_ok_def block_ok_def)
  then have fresh: "b \<notin> set (fs @ bs)" by (fastforce simp: block_end_def)
  have b0: "b \<noteq> 0" using inv by (auto simp: b block_inv_def)
  have lists: "block_lists s fs bs" using inv by (simp add: block_inv_def)
  have "links h 0 fs 0 = links (headers s) 0 fs 0" "links h 0 bs 0 = links (headers s) 0 bs 0"
    using fresh by (intro links_cong; auto simp: h_def)+
  then have l: "links h 0 fs 0" "links h 0 bs 0" using lists by (simp_all add: block_lists_def)
  have bl: "block_lists s' (b # fs) bs"
    using push_links [OF l(1) _ b0] push_other [OF l, of b] lists fresh f
    by (auto simp: h' block_lists_def h_def [symmetric])
  have hs: "block_size (headers s' x) = block_size (h x)" "signature (headers s' x) = signature (h x)" for x
    by (simp_all add: h' h_def [symmetric] push_frame)
  have "blocks_ok ?vb (b + pages * PAGE) (headers s) (set (fs @ bs))"
  proof (rule blocks_ok_grow)
    show "blocks_ok ?vb b (headers s) (set (fs @ bs))" using inv unfolding block_inv_def b by blast
    show "unat b \<le> unat (b + pages * PAGE)" unfolding cur by simp
  qed
  then have "blocks_ok ?vb (b + pages * PAGE) (headers s') (set (fs @ bs))"
    using fresh by (subst blocks_ok_cong [of _ _ "headers s"]) (auto simp: hs h_def)
  note old_ok = this
  have al: "4096 dvd unat b" "unat ?vb \<le> unat b" using inv by (simp_all add: block_inv_def b)
  have "16 dvd unat b" by (rule dvd_trans [OF _ al(1)]) simp
  moreover have "16 dvd 4096 * unat pages - 48" by (rule dvd_diff_nat) simp_all
  ultimately have "block_ok ?vb (b + pages * PAGE) (headers s') b"
    using al(2) pos unfolding block_ok_def block_end_def hs cur by (simp add: h_def sz(2)) (simp add: fresh_header_def)
  moreover have "\<forall>y \<in> set (fs @ bs). apart (headers s') b y"
    using old fresh by (auto simp: apart_def block_end_def hs h_def)
  ultimately have bo: "blocks_ok ?vb (b + pages * PAGE) (headers s') (set ((b # fs) @ bs))"
    using old_ok by (simp add: blocks_ok_insert)
  have "4096 dvd unat (b + pages * PAGE)" unfolding cur using al(1) by (rule dvd_add) simp
  then have "block_inv s' (b # fs) bs"
    using inv bl f al cur bo unfolding block_inv_def by simp
  moreover have "\<forall>x \<in> set (fs @ bs). block_size (headers s' x) = block_size (headers s x)"
    using fresh by (auto simp: hs h_def)
  ultimately show ?thesis using fresh sz(2) by (simp add: hs h_def)
qed

lemma create_free_block_ok:
  assumes ok: "heap_ok R s fs bs" and pos: "0 < unat pages"
    and fit: "unat (block_allocator_current_virtual_address s) + 4096 * unat pages < 2 ^ 64"
    and ret: "block_allocator_create_free_block pages s = Inr (b, s')"
  shows "heap_ok R s' (b # fs) bs \<and> b \<notin> set (fs @ bs) \<and>
    unat (block_size (headers s' b)) = 4096 * unat pages - 48 \<and>
    (\<forall>x \<in> set (fs @ bs). block_size (headers s' x) = block_size (headers s x)) \<and>
    heap_bytes s' = heap_bytes s"
proof -
  let ?v = "block_allocator_current_virtual_address s"
  have inv: "block_inv s fs bs" and pt: "pt_inv R s" and boot: "arch_bootstrap_page_table s \<in> R"
    using ok by (simp_all add: heap_ok_def)
  have al: "page_align_up ?v = ?v"
    by (rule page_align_up_aligned) (use inv fit pos in \<open>auto simp: block_inv_def\<close>)
  obtain p s1 s3 where a: "page_allocate pages s = Inr (p, s1)"
    and m: "arch_table_manager_map_range (arch_bootstrap_page_table s) ?v (p - kernel_hhdm_offset s1)
       TABLE_ENTRY_READ_WRITE pages (s1\<lparr>block_allocator_current_virtual_address := ?v + pages * PAGE\<rparr>) = Inr s3"
    and b: "b = ?v"
    and s': "s' = s3\<lparr>headers := block_allocator_push_block (block_free_list_start s) b ((headers s)(b := fresh_header pages)),
             block_free_list_start := b\<rparr>"
    using create_free_block_shape [OF ret] unfolding al .
  note f1 = block_fields_more [OF page_allocate_more [OF a]] and f3 = block_fields_more [OF map_range_more [OF m]]
  have "pt_inv R (s1\<lparr>block_allocator_current_virtual_address := ?v + pages * PAGE\<rparr>)"
    using pt_inv_page_allocate [OF pt a] by (subst pt_inv_same [of _ s1]) simp_all
  then have "pt_inv R s3" using map_range_refines_aux [OF _ boot m] by blast
  then have "pt_inv R s'" by (subst pt_inv_same [of _ s3]) (simp_all add: s')
  moreover have "arch_bootstrap_page_table s' \<in> R" "heap_bytes s' = heap_bytes s"
    using boot f1 f3 by (simp_all add: s')
  ultimately show ?thesis
    using fresh_block_inv [OF inv pos fit b, of s'] f1 f3 b by (auto simp: s' heap_ok_def)
qed

text \<open>What the heap leaves alone: everything behind its own state.\<close>

lemma create_free_block_more:
  assumes "block_allocator_create_free_block pages s = Inr (b, s')"
  shows "block_state.more s' = block_state.more s"
proof -
  obtain p s1 s3 where a: "page_allocate pages s = Inr (p, s1)"
    and m: "arch_table_manager_map_range (arch_bootstrap_page_table s) (page_align_up (block_allocator_current_virtual_address s))
       (p - kernel_hhdm_offset s1) TABLE_ENTRY_READ_WRITE pages
       (s1\<lparr>block_allocator_current_virtual_address := page_align_up (block_allocator_current_virtual_address s) + pages * PAGE\<rparr>) = Inr s3"
    and s': "s' = s3\<lparr>headers := block_allocator_push_block (block_free_list_start s) b ((headers s)(b := fresh_header pages)),
             block_free_list_start := b\<rparr>"
    by (rule create_free_block_shape [OF assms]) simp
  have "block_state.more s3 = block_state.more s1" using map_range_more [OF m] by (cases s3; cases s1) simp
  moreover have "block_state.more s1 = block_state.more s" using page_allocate_more [OF a] by (cases s; cases s1) simp
  ultimately show ?thesis by (simp add: s')
qed

lemma move_list_more [simp]:
  "block_state.more (block_allocator_move_to_busy_list b s) = block_state.more s"
  "block_state.more (block_allocator_move_to_free_list b s) = block_state.more s"
  by (simp_all add: block_allocator_move_to_busy_list_def block_allocator_move_to_free_list_def
      block_allocator_remove_block_from_list_def Let_def)

lemma block_allocate_more: "block_allocate n s = Inr (p, s') \<Longrightarrow> block_state.more s' = block_state.more s"
  by (auto simp: block_allocate_def Let_def dest: create_free_block_more split: sum.splits option.splits if_splits)

lemma block_deallocate_more: "block_deallocate p s = Inr s' \<Longrightarrow> block_state.more s' = block_state.more s"
  by (auto simp: block_deallocate_def Let_def split: sum.splits if_splits)

subsection \<open>Allocation and release\<close>

lemma memset8_apply: "memset8 m s c n a = (if unat (a - s) < unat n then c else m a)"
proof -
  have "fold (\<lambda>i m. m(s + of_nat i := c)) [0..<k] m a = (if unat (a - s) < k then c else m a)"
    if "k \<le> unat n" for k
    using that
  proof (induction k)
    case (Suc k)
    have "a = s + of_nat k \<longleftrightarrow> unat (a - s) = k"
    proof -
      have "unat (of_nat k :: u64) = k" using Suc.prems unat_less_2p64 [of n] by (intro unat_of_nat_exact) simp
      then show ?thesis by (metis add_diff_cancel_left' diff_add_cancel add.commute of_nat_unat ucast_id)
    qed
    then show ?case using Suc by (auto simp: less_Suc_eq)
  qed simp
  then show ?thesis by (simp add: memset8_def)
qed

definition block_pages :: "u64 \<Rightarrow> u64" where
  "block_pages requested = (round_block_size requested + BLOCK_HEADER_SIZE + PAGE - 1) div PAGE"

lemma block_pages_bounds:
  assumes "unat requested \<le> 2 ^ 63"
  shows "0 < unat (block_pages requested)"
    "unat (round_block_size requested) \<le> 4096 * unat (block_pages requested) - 48"
    "4096 * unat (block_pages requested) \<le> unat (round_block_size requested) + 4143"
proof -
  let ?z = "round_block_size requested"
  have z: "16 \<le> unat ?z" "unat ?z \<le> 2 ^ 63 + 16"
    using round_block_size_props [of requested] assms by auto
  have e: "?z + BLOCK_HEADER_SIZE + PAGE - 1 = ?z + 4143" by simp
  have u: "unat (4143 :: u64) = 4143" by simp
  have "unat (?z + 4143) = unat ?z + 4143"
    using unat_plus_exact [of ?z 4143] z unfolding u by simp
  then have p: "unat (block_pages requested) = (unat ?z + 4143) div 4096"
    unfolding block_pages_def e unat_div by simp
  define q m where "q = (unat ?z + 4143) div 4096" and "m = (unat ?z + 4143) mod 4096"
  have qm: "unat ?z + 4143 = 4096 * q + m" "m < 4096" by (simp_all add: q_def m_def)
  show "0 < unat (block_pages requested)" "unat ?z \<le> 4096 * unat (block_pages requested) - 48"
    "4096 * unat (block_pages requested) \<le> unat ?z + 4143"
    unfolding p q_def [symmetric] using qm by auto
qed

text \<open>The block the allocator will use: the first that fits, or a new one.\<close>

lemma first_fit_cases:
  assumes "block_lists s fs bs"
  obtains (found) xs x ys where "fs = xs @ x # ys" "z \<le> block_size (headers s x)" "x \<noteq> 0"
      "block_first_fit (headers s) z (block_free_list_start s) = Some x"
      "\<forall>y \<in> set xs. \<not> z \<le> block_size (headers s y)"
    | (none) "block_first_fit (headers s) z (block_free_list_start s) = Some 0"
      "\<forall>y \<in> set fs. \<not> z \<le> block_size (headers s y)"
proof -
  have l: "links (headers s) 0 fs 0" and st: "block_free_list_start s = head_or 0 fs"
    using assms by (simp_all add: block_lists_def)
  note ff = first_fit_eq [OF l, of z]
  show thesis
  proof (cases "find (\<lambda>x. z \<le> block_size (headers s x)) fs")
    case None
    then have "\<forall>y \<in> set fs. \<not> z \<le> block_size (headers s y)" by (auto simp: find_None_iff)
    then show thesis using none ff st None by simp
  next
    case (Some x)
    then obtain i where i: "i < length fs" "z \<le> block_size (headers s (fs ! i))" "x = fs ! i"
      "\<forall>j < i. \<not> z \<le> block_size (headers s (fs ! j))"
      by (auto simp: find_Some_iff)
    have "fs = take i fs @ x # drop (Suc i) fs" using i id_take_nth_drop by blast
    moreover have "\<forall>y \<in> set (take i fs). \<not> z \<le> block_size (headers s y)"
      using i by (auto simp: in_set_conv_nth)
    moreover have "x \<noteq> 0" using links_nonzero [OF l] i nth_mem by metis
    ultimately show thesis using found [of "take i fs" x "drop (Suc i) fs"] ff st Some i by auto
  qed
qed

text \<open>The common end of both paths of \<open>block_allocate\<close>: split, move to the busy list, clear.\<close>

definition finish_allocate :: "u64 \<Rightarrow> u64 \<Rightarrow> 'a block_state_scheme \<Rightarrow> 'a block_state_scheme" where
  "finish_allocate z x s =
     (let s3 = block_allocator_move_to_busy_list x (s\<lparr>headers := split_block x z (headers s)\<rparr>)
      in s3\<lparr>block_allocator_lock := 0, heap_bytes := memset8 (heap_bytes s3) (x + BLOCK_HEADER_SIZE) 0 z\<rparr>)"

lemma block_allocate_found:
  assumes "block_allocator_lock s = 0" "x \<noteq> 0"
    and "block_first_fit (headers s) (round_block_size requested) (block_free_list_start s) = Some x"
  shows "block_allocate requested s = Inr (x + BLOCK_HEADER_SIZE, finish_allocate (round_block_size requested) x s)"
  using assms by (simp add: block_allocate_def Let_def finish_allocate_def)

lemma block_allocate_none:
  assumes "block_allocator_lock s = 0"
    and "block_first_fit (headers s) (round_block_size requested) (block_free_list_start s) = Some 0"
    and "block_allocator_create_free_block (block_pages requested) s = Inr (b, s1)"
  shows "block_allocate requested s = Inr (b + BLOCK_HEADER_SIZE, finish_allocate (round_block_size requested) b s1)"
  using assms by (simp add: block_allocate_def Let_def finish_allocate_def block_pages_def)

lemma move_to_busy_page_fields [simp]:
  "memory (block_allocator_move_to_busy_list x s) = memory s"
  "kernel_hhdm_offset (block_allocator_move_to_busy_list x s) = kernel_hhdm_offset s"
  "allocator_pools (block_allocator_move_to_busy_list x s) = allocator_pools s"
  "page_allocator_lock (block_allocator_move_to_busy_list x s) = page_allocator_lock s"
  "arch_bootstrap_page_table (block_allocator_move_to_busy_list x s) = arch_bootstrap_page_table s"
  "memory (block_allocator_move_to_free_list x s) = memory s"
  "kernel_hhdm_offset (block_allocator_move_to_free_list x s) = kernel_hhdm_offset s"
  "allocator_pools (block_allocator_move_to_free_list x s) = allocator_pools s"
  "page_allocator_lock (block_allocator_move_to_free_list x s) = page_allocator_lock s"
  "arch_bootstrap_page_table (block_allocator_move_to_free_list x s) = arch_bootstrap_page_table s"
  by (simp_all add: block_allocator_move_to_busy_list_def block_allocator_move_to_free_list_def
      block_allocator_remove_block_from_list_def Let_def)

text \<open>What a caller may rely on after an allocation.\<close>

definition allocated_ok ::
  "u64 set \<Rightarrow> u64 list \<Rightarrow> u64 \<Rightarrow> u64 \<Rightarrow> 'a block_state_scheme \<Rightarrow> 'a block_state_scheme \<Rightarrow> u64 list \<Rightarrow> bool" where
  "allocated_ok R bs requested x s s' fs' \<longleftrightarrow>
     heap_ok R s' fs' (x # bs) \<and> unat requested \<le> unat (block_size (headers s' x)) \<and>
     (\<forall>y \<in> set bs. block_size (headers s' y) = block_size (headers s y)) \<and>
     (\<forall>a. unat x + 48 \<le> unat a \<and> unat a < unat x + 48 + unat requested \<longrightarrow> heap_bytes s' a = 0) \<and>
     (\<forall>y \<in> set bs. \<forall>a. unat y + 48 \<le> unat a \<and> unat a < block_end (headers s) y \<longrightarrow> heap_bytes s' a = heap_bytes s a)"

lemma finish_allocate_ok:
  assumes ok: "heap_ok R s (xs @ x # ys) bs"
    and z: "z \<le> block_size (headers s x)" "16 dvd unat z" "16 \<le> unat z" and req: "unat requested \<le> unat z"
  shows "allocated_ok R bs requested x s (finish_allocate z x s) (xs @ rest_of_block (headers s) x z @ ys)"
proof -
  let ?s3 = "block_allocator_move_to_busy_list x (s\<lparr>headers := split_block x z (headers s)\<rparr>)"
  let ?s' = "finish_allocate z x s" and ?fs = "xs @ rest_of_block (headers s) x z @ ys"
  have inv: "block_inv s (xs @ x # ys) bs" and pt: "pt_inv R s" and boot: "arch_bootstrap_page_table s \<in> R"
    using ok by (simp_all add: heap_ok_def)
  note tb = take_block [OF inv z]
  have f: "headers ?s' = headers ?s3" by (simp add: finish_allocate_def Let_def)
  have "block_inv ?s' ?fs (x # bs)"
    using tb by (simp add: finish_allocate_def Let_def block_inv_def block_lists_def)
  moreover have "pt_inv R ?s'"
    using pt by (subst pt_inv_same [of _ s]) (simp_all add: finish_allocate_def Let_def)
  moreover have "arch_bootstrap_page_table ?s' \<in> R" using boot by (simp add: finish_allocate_def Let_def)
  ultimately have hk: "heap_ok R ?s' ?fs (x # bs)" by (simp add: heap_ok_def)
  have zx: "unat z \<le> unat (block_size (headers ?s' x))" using tb by (simp add: f word_le_nat_alt)
  have sz: "\<forall>y \<in> set bs. block_size (headers ?s' y) = block_size (headers s y)" using tb by (simp add: f)
  have okx: "block_ok (block_allocator_virtual_base ?s') (block_allocator_current_virtual_address ?s') (headers ?s') x"
    and ap: "\<And>y. y \<in> set bs \<Longrightarrow> y \<noteq> x \<Longrightarrow> apart (headers ?s') x y"
    using hk by (auto simp: heap_ok_def block_inv_def blocks_ok_def)
  have dist: "x \<notin> set bs" using hk by (auto simp: heap_ok_def block_inv_def block_lists_def)
  have ex: "unat x + 48 + unat (block_size (headers ?s' x)) < 2 ^ 64"
    using okx unat_less_2p64 [of "block_allocator_current_virtual_address ?s'"]
    by (auto simp: block_ok_def block_end_def intro: le_less_trans)
  have x48: "unat (x + 48) = unat x + 48" using ex by (subst unat_plus_exact) simp_all
  have bytes: "heap_bytes ?s' a = (if unat x + 48 \<le> unat a \<and> unat a < unat x + 48 + unat z then 0 else heap_bytes s a)" for a
    using unat_minus_less_iff [of "x + 48" "unat z" a] ex zx x48
    by (simp add: finish_allocate_def Let_def memset8_apply)
  have "heap_bytes ?s' a = heap_bytes s a" if "y \<in> set bs" "unat y + 48 \<le> unat a" "unat a < block_end (headers s) y" for y a
  proof -
    have "apart (headers ?s') x y" using ap [OF that(1)] dist that(1) by auto
    then show ?thesis using that sz zx unfolding bytes by (auto simp: apart_def block_end_def)
  qed
  then show ?thesis using hk zx req sz bytes by (auto simp: allocated_ok_def)
qed

text \<open>Enough virtual and physical memory to grow the heap by some pages.\<close>

definition heap_room :: "u64 \<Rightarrow> 'a block_state_scheme \<Rightarrow> bool" where
  "heap_room pages s \<longleftrightarrow>
     (let v = block_allocator_current_virtual_address s
      in unat v + 4096 * unat pages < 2 ^ 64 \<and> vpn v + unat pages \<le> 2 ^ 36 - 512 \<and>
         spare (unat pages + (3 + 3 * tables_of (vpn v mod 512) (unat pages))) s)"

lemma create_free_block_returns:
  assumes ok: "heap_ok R s fs bs" and pos: "0 < unat pages" and room: "heap_room pages s"
  shows "\<exists>b s'. block_allocator_create_free_block pages s = Inr (b, s')"
proof -
  let ?v = "block_allocator_current_virtual_address s"
  have inv: "block_inv s fs bs" and pt: "pt_inv R s" and boot: "arch_bootstrap_page_table s \<in> R"
    using ok by (simp_all add: heap_ok_def)
  have r: "unat ?v + 4096 * unat pages < 2 ^ 64" "vpn ?v + unat pages \<le> 2 ^ 36 - 512"
    "spare (unat pages + (3 + 3 * tables_of (vpn ?v mod 512) (unat pages))) s"
    using room by (simp_all add: heap_room_def Let_def)
  have al: "page_align_up ?v = ?v"
    by (rule page_align_up_aligned) (use inv r pos in \<open>auto simp: block_inv_def\<close>)
  have "at_least_one pages = pages" using pos by (auto simp: at_least_one_def)
  then obtain p s1 where a: "page_allocate pages s = Inr (p, s1)"
    and sp: "spare (3 + 3 * tables_of (vpn ?v mod 512) (unat pages)) s1"
    using page_allocate_spare_n [OF pt_inv_page [OF pt]] r(3) by metis
  note f1 = block_fields_more [OF page_allocate_more [OF a]]
  let ?s2 = "s1\<lparr>block_allocator_current_virtual_address := ?v + pages * PAGE\<rparr>"
  have pt2: "pt_inv R ?s2"
    using pt_inv_page_allocate [OF pt a] by (subst pt_inv_same [of _ s1]) simp_all
  have "spare (3 + 3 * tables_of (vpn ?v mod 512) (unat pages)) ?s2" using sp by (simp add: spare_def)
  from map_range_returns_aux [OF pt2 boot this r(2)]
  obtain s3 where "arch_table_manager_map_range (arch_bootstrap_page_table s) ?v (p - kernel_hhdm_offset s1)
      TABLE_ENTRY_READ_WRITE pages ?s2 = Inr s3" by blast
  then show ?thesis using a al
    by (auto simp: block_allocator_create_free_block_def block_allocator_allocate_block_def Let_def f1)
qed

lemma block_allocate_ok:
  assumes ok: "heap_ok R s fs bs" and req: "unat requested \<le> 2 ^ 63"
    and room: "(\<exists>x \<in> set fs. round_block_size requested \<le> block_size (headers s x)) \<or> heap_room (block_pages requested) s"
  shows "\<exists>x s' fs'. block_allocate requested s = Inr (x + BLOCK_HEADER_SIZE, s') \<and> x \<notin> set bs \<and>
    allocated_ok R bs requested x s s' fs'"
proof -
  let ?z = "round_block_size requested"
  have inv: "block_inv s fs bs" using ok by (simp add: heap_ok_def)
  then have lists: "block_lists s fs bs" and lock: "block_allocator_lock s = 0" by (simp_all add: block_inv_def)
  have z: "16 dvd unat ?z" "16 \<le> unat ?z" "unat requested \<le> unat ?z"
    using round_block_size_props [of requested] req by auto
  from lists show ?thesis
  proof (cases rule: first_fit_cases [of _ _ _ ?z])
    case (found xs x ys)
    have "x \<notin> set bs" using lists by (auto simp: block_lists_def found(1))
    then show ?thesis
      using block_allocate_found [OF lock found(3,4)] finish_allocate_ok [OF ok [unfolded found(1)] found(2) z] by blast
  next
    case none
    then have hr: "heap_room (block_pages requested) s" using room by blast
    note bp = block_pages_bounds [OF req]
    obtain b s1 where c: "block_allocator_create_free_block (block_pages requested) s = Inr (b, s1)"
      using create_free_block_returns [OF ok bp(1) hr] by blast
    have fit: "unat (block_allocator_current_virtual_address s) + 4096 * unat (block_pages requested) < 2 ^ 64"
      using hr by (simp add: heap_room_def Let_def)
    note k = create_free_block_ok [OF ok bp(1) fit c]
    have hk: "heap_ok R s1 ([] @ b # fs) bs" using k by simp
    have zb: "?z \<le> block_size (headers s1 b)" using k bp(2) by (simp add: word_le_nat_alt)
    note fin = finish_allocate_ok [OF hk zb z]
    have same: "\<forall>y \<in> set bs. block_size (headers s1 y) = block_size (headers s y)" "heap_bytes s1 = heap_bytes s"
      using k by simp_all
    then have "allocated_ok R bs requested b s (finish_allocate ?z b s1) ([] @ rest_of_block (headers s1) b ?z @ fs)"
      using fin by (simp add: allocated_ok_def block_end_def)
    then show ?thesis using block_allocate_none [OF lock none(1) c] k by fastforce
  qed
qed

lemma block_deallocate_ok:
  assumes ok: "heap_ok R s fs (xs @ x # ys)"
  shows "\<exists>s'. block_deallocate (x + BLOCK_HEADER_SIZE) s = Inr s' \<and> heap_ok R s' (x # fs) (xs @ ys) \<and>
    (\<forall>y. block_size (headers s' y) = block_size (headers s y)) \<and> heap_bytes s' = heap_bytes s"
proof -
  let ?b = "block_allocator_virtual_base s" and ?c = "block_allocator_current_virtual_address s"
  have inv: "block_inv s fs (xs @ x # ys)" and pt: "pt_inv R s" and boot: "arch_bootstrap_page_table s \<in> R"
    using ok by (simp_all add: heap_ok_def)
  have lists: "block_lists s fs (xs @ x # ys)" and lock: "block_allocator_lock s = 0"
    and bo: "block_ok ?b ?c (headers s) x" using inv by (simp_all add: block_inv_def blocks_ok_def)
  have ex: "unat x + 48 + unat (block_size (headers s x)) \<le> unat ?c" "16 \<le> unat (block_size (headers s x))"
    "unat ?b \<le> unat x" "signature (headers s x) = BLOCK_SIGNATURE"
    using bo by (simp_all add: block_ok_def block_end_def)
  have x48: "unat (x + 48) = unat x + 48"
    using ex unat_less_2p64 [of ?c] by (subst unat_plus_exact) simp_all
  have br: "?b < x + 48" "x + 48 < ?c" "x + 48 \<noteq> 0"
    using ex x48 by (auto simp: word_less_nat_alt)
  define s' where "s' = block_allocator_move_to_free_list x s\<lparr>block_allocator_lock := 0\<rparr>"
  have ret: "block_deallocate (x + BLOCK_HEADER_SIZE) s = Inr s'"
    using br ex(4) lock by (simp add: block_deallocate_def Let_def s'_def)
  have "block_lists s' (x # fs) (xs @ ys)"
    using move_to_free_lists [OF lists] by (simp add: s'_def block_lists_def)
  moreover have "blocks_ok ?b ?c (headers s') (set (fs @ xs @ x # ys))"
    using inv by (subst blocks_ok_cong [of _ _ "headers s"]) (simp_all add: s'_def block_inv_def)
  ultimately have "block_inv s' (x # fs) (xs @ ys)"
    using inv by (simp add: block_inv_def s'_def Un_ac insert_commute)
  moreover have "pt_inv R s'" using pt by (subst pt_inv_same [of _ s]) (simp_all add: s'_def)
  ultimately show ?thesis using ret boot by (simp add: heap_ok_def s'_def)
qed

subsection \<open>Initialisation\<close>

definition heap_base :: "memmap_entry list \<Rightarrow> u64 \<Rightarrow> u64" where
  "heap_base entries hhdm =
     page_align_up (entry_base (last entries) + entry_length (last entries) + hhdm)"

lemma block_init_ok:
  fixes s :: "'a block_state_scheme"
  assumes pt: "pt_inv R s" "arch_bootstrap_page_table s \<in> R" and e: "entries \<noteq> []"
    and empty: "block_free_list_start s = 0" "block_busy_list_start s = 0" "block_allocator_lock s = 0"
    and base: "base = heap_base entries (kernel_hhdm_offset s)" "0 < unat base" "4096 dvd unat base"
    and room: "heap_room 1 (s\<lparr>block_allocator_virtual_base := base, block_allocator_current_virtual_address := base\<rparr>)"
  shows "\<exists>s' b. block_allocator_init entries s = Inr s' \<and> heap_ok R s' [b] [] \<and>
    unat (block_size (headers s' b)) = 4048"
proof -
  let ?s1 = "s\<lparr>block_allocator_virtual_base := base, block_allocator_current_virtual_address := base\<rparr>"
  have "pt_inv R ?s1" using pt(1) by (subst pt_inv_same [of _ s]) simp_all
  then have hk: "heap_ok R ?s1 [] []"
    using pt(2) empty base by (simp add: heap_ok_def block_inv_def block_lists_def blocks_ok_def)
  obtain b s' where c: "block_allocator_create_free_block 1 ?s1 = Inr (b, s')"
    using create_free_block_returns [OF hk _ room] by auto
  have "heap_ok R s' [b] [] \<and> unat (block_size (headers s' b)) = 4048"
    using create_free_block_ok [OF hk _ _ c] room by (simp add: heap_room_def Let_def)
  moreover have "block_allocator_init entries s = Inr s'"
    using c e base(1) by (simp add: block_allocator_init_def block_allocator_find_lowest_free_virtual_address_def
        heap_base_def Let_def)
  ultimately show ?thesis by blast
qed

lemma first_fit_head:
  assumes "links h p (x # xs) 0" "z \<le> block_size (h x)"
  shows "block_first_fit h z x = Some x"
  using first_fit_eq [OF assms(1), of z] assms(2) by simp

subsection \<open>Properties\<close>

text \<open>A heap on the small machine of the page tables, initialised from a one-entry memory map.\<close>

definition heap_boot :: block_state where
  "heap_boot = \<lparr>memory = (\<lambda>_. 0), allocator_pools = [table_pool], page_allocator_lock = 0,
     kernel_hhdm_offset = 4096, arch_bootstrap_page_table = 0, cr3 = 0,
     headers = (\<lambda>_. \<lparr>signature = 0, block_size = 0, block_next = 0, block_previous = 0\<rparr>),
     heap_bytes = (\<lambda>_. 0xAA), block_free_list_start = 0, block_busy_list_start = 0,
     block_allocator_virtual_base = 0, block_allocator_current_virtual_address = 0,
     block_allocator_lock = 0\<rparr>"

definition heap_entries :: "memmap_entry list" where
  "heap_entries = [\<lparr>entry_base = 0x1000, entry_length = 0x30000, entry_type = MEMMAP_USABLE\<rparr>]"

text \<open>The initialisation sequence: a new table becomes the bootstrap table, then the heap.\<close>

definition heap_boot_sequence :: "block_state res" where
  "heap_boot_sequence =
     (case arch_table_manager_new heap_boot of
        Inl e \<Rightarrow> Inl e
      | Inr (r, s) \<Rightarrow> block_allocator_init heap_entries (s\<lparr>arch_bootstrap_page_table := r\<rparr>))"

lemma heap_boot_inv: "pt_inv {} heap_boot"
  by (simp add: pt_inv_def page_inv_def heap_boot_def table_pool_def pool_static_def pool_counts_def
      bitmap_bit_def pools_disjoint_def pools_physical_def pool_lo_def pool_hi_def)

lemma heap_boot_sequence_ok:
  obtains r s b where "heap_boot_sequence = Inr s" "heap_ok {r} s [b] []" "unat (block_size (headers s b)) = 4048"
proof -
  have "spare (Suc 31) heap_boot" by (simp add: spare_def heap_boot_def table_pool_def)
  then obtain r s where s: "arch_table_manager_new heap_boot = Inr (r, s)" "spare 31 s"
    using page_allocate_spare [OF pt_inv_page [OF heap_boot_inv]] unfolding arch_table_manager_new_def by blast
  then have a: "page_allocate 1 heap_boot = Inr (r, s)" by (simp add: arch_table_manager_new_def)
  note f = block_fields_more [OF page_allocate_more [OF a]]
  have h: "kernel_hhdm_offset s = 4096"
    using page_allocate_static(1) [OF pt_inv_page [OF heap_boot_inv] a] by (simp add: heap_boot_def)
  let ?s = "s\<lparr>arch_bootstrap_page_table := r\<rparr>"
  have pt: "pt_inv {r} ?s" using table_new_inv(1) [OF heap_boot_inv s(1)] by (subst pt_inv_same [of _ s]) simp_all
  have b: "heap_base heap_entries (kernel_hhdm_offset ?s) = 0x32000"
    by (simp add: heap_base_def heap_entries_def h page_align_up_def)
  have "spare (1 + (3 + 3 * tables_of (vpn 0x32000 mod 512) 1)) s"
    by (rule spare_mono [OF s(2)]) (simp add: vpn_eq tables_of_def)
  then have room: "heap_room 1 (?s\<lparr>block_allocator_virtual_base := 0x32000, block_allocator_current_virtual_address := 0x32000\<rparr>)"
    by (simp add: heap_room_def spare_def vpn_eq)
  have "\<exists>s' b. block_allocator_init heap_entries ?s = Inr s' \<and> heap_ok {r} s' [b] [] \<and> unat (block_size (headers s' b)) = 4048"
    by (rule block_init_ok [OF pt _ _ _ _ _ b [symmetric] _ _ room])
       (simp_all add: f heap_boot_def heap_entries_def)
  then show thesis using that s(1) by (auto simp: heap_boot_sequence_def)
qed

text \<open>
  (C2) \<open>block_allocate\<close> on a well-formed heap returns when a free block fits or memory is left. The
  block returned is at least as large as asked, was not in use, overlaps no block in use
  (header and contents), reads as zero, and neither the sizes nor the contents of the blocks
  in use change. The heap and the page tables under it stay well formed.
\<close>

theorem block_allocate_correct:
  assumes "heap_ok R s fs bs" "unat requested \<le> 2 ^ 63"
    and "(\<exists>x \<in> set fs. round_block_size requested \<le> block_size (headers s x)) \<or>
         heap_room (block_pages requested) s"
  shows "\<exists>x s' fs'. block_allocate requested s = Inr (x + 48, s') \<and> x \<notin> set bs \<and>
     heap_ok R s' fs' (x # bs) \<and> unat requested \<le> unat (block_size (headers s' x)) \<and>
     (\<forall>y \<in> set bs. block_size (headers s' y) = block_size (headers s y) \<and>
        (block_end (headers s') y \<le> unat x \<or> block_end (headers s') x \<le> unat y)) \<and>
     (\<forall>a. unat x + 48 \<le> unat a \<and> unat a < unat x + 48 + unat requested \<longrightarrow> heap_bytes s' a = 0) \<and>
     (\<forall>y \<in> set bs. \<forall>a. unat y + 48 \<le> unat a \<and> unat a < block_end (headers s) y \<longrightarrow>
        heap_bytes s' a = heap_bytes s a)"
proof -
  obtain x s' fs' where a: "block_allocate requested s = Inr (x + 48, s')" "x \<notin> set bs"
    and ok: "allocated_ok R bs requested x s s' fs'"
    using block_allocate_ok [OF assms] by blast
  have "\<forall>y \<in> set bs. block_end (headers s') y \<le> unat x \<or> block_end (headers s') x \<le> unat y"
    using ok a(2) unfolding allocated_ok_def heap_ok_def block_inv_def blocks_ok_def apart_def by auto
  then show ?thesis using a ok by (intro exI [of _ x] exI [of _ s'] exI [of _ fs']) (simp add: allocated_ok_def)
qed

lemma heap_boot_fits:
  assumes "unat (block_size (headers s b)) = 4048"
  shows "\<exists>x \<in> set [b]. round_block_size 100 \<le> block_size (headers s x)"
  using assms by (simp add: round_block_size_def word_le_nat_alt)

theorem block_allocate_correct_witness:
  "\<exists>s x s' r fs'. heap_boot_sequence = Inr s \<and> block_allocate 100 s = Inr (x + 48, s') \<and>
     heap_ok {r} s' fs' [x] \<and> 100 \<le> unat (block_size (headers s' x))"
proof -
  obtain r s b where s: "heap_boot_sequence = Inr s" "heap_ok {r} s [b] []" "unat (block_size (headers s b)) = 4048"
    using heap_boot_sequence_ok .
  from block_allocate_correct [OF s(2), of 100] heap_boot_fits [OF s(3)]
  obtain x s' fs' where "block_allocate 100 s = Inr (x + 48, s')" "heap_ok {r} s' fs' [x]"
    "100 \<le> unat (block_size (headers s' x))" by auto
  then show ?thesis using s(1) by blast
qed

lemma heap_with_one_busy:
  obtains r and s :: block_state and x fs where "heap_ok {r} s fs [x]" "round_block_size 10 \<le> block_size (headers s x)"
proof -
  obtain r s b where s: "heap_boot_sequence = Inr s" "heap_ok {r} s [b] []" "unat (block_size (headers s b)) = 4048"
    using heap_boot_sequence_ok .
  have "\<exists>x s' fs'. heap_ok {r} s' fs' [x] \<and> 100 \<le> unat (block_size (headers (s' :: block_state) x))"
    using block_allocate_ok [OF s(2), of 100] heap_boot_fits [OF s(3)] by (auto simp: allocated_ok_def)
  then obtain x and s' :: block_state and fs' where "heap_ok {r} s' fs' [x]" "100 \<le> unat (block_size (headers s' x))"
    by blast
  then show thesis using that by (auto simp: round_block_size_def word_le_nat_alt)
qed

text \<open>
  (C28) \<open>block_deallocate\<close> of a pointer that \<open>block_allocate\<close> returned, wherever its block is on
  the busy list, moves it to the head of the free list, keeps the heap well formed and
  changes no size and no contents.
\<close>

theorem block_deallocate_correct:
  assumes "heap_ok R s fs (xs @ x # ys)"
  shows "\<exists>s'. block_deallocate (x + 48) s = Inr s' \<and> heap_ok R s' (x # fs) (xs @ ys) \<and>
     (\<forall>y. block_size (headers s' y) = block_size (headers s y)) \<and> heap_bytes s' = heap_bytes s"
  using block_deallocate_ok [OF assms] .

theorem block_deallocate_correct_witness:
  "\<exists>r (s :: block_state) fs x s'. heap_ok {r} s fs [x] \<and> block_deallocate (x + 48) s = Inr s' \<and> heap_ok {r} s' (x # fs) []"
proof -
  obtain r and s :: block_state and x fs where s: "heap_ok {r} s fs [x]" using heap_with_one_busy by metis
  from block_deallocate_correct [of "{r}" s fs "[]" x "[]"] s
  obtain s' where "block_deallocate (x + 48) s = Inr s'" "heap_ok {r} s' (x # fs) []" by auto
  with s show ?thesis by blast
qed

text \<open>
  A block that is freed is found again: the next request that fits into it gets the same
  pointer.
\<close>

theorem block_reuse:
  assumes "heap_ok R s fs (xs @ x # ys)" "unat requested \<le> 2 ^ 63"
    and "round_block_size requested \<le> block_size (headers s x)"
  shows "\<exists>s1 s2. block_deallocate (x + 48) s = Inr s1 \<and> block_allocate requested s1 = Inr (x + 48, s2)"
proof -
  obtain s1 where d: "block_deallocate (x + 48) s = Inr s1" "heap_ok R s1 (x # fs) (xs @ ys)"
    "block_size (headers s1 x) = block_size (headers s x)"
    using block_deallocate_ok [OF assms(1)] by auto
  then have l: "links (headers s1) 0 (x # fs) 0" "block_free_list_start s1 = x" "block_allocator_lock s1 = 0"
    by (simp_all add: heap_ok_def block_inv_def block_lists_def)
  have "block_first_fit (headers s1) (round_block_size requested) (block_free_list_start s1) = Some x"
    using first_fit_head [OF l(1)] assms(3) d(3) l(2) by simp
  from block_allocate_found [OF l(3) _ this] show ?thesis
    using d(1) links_nonzero [OF l(1)] by auto
qed

theorem block_reuse_witness:
  "\<exists>r (s :: block_state) fs x s1 s2. heap_ok {r} s fs [x] \<and> block_deallocate (x + 48) s = Inr s1 \<and>
     block_allocate 10 s1 = Inr (x + 48, s2)"
proof -
  obtain r and s :: block_state and x fs
    where s: "heap_ok {r} s fs [x]" "round_block_size 10 \<le> block_size (headers s x)"
    using heap_with_one_busy .
  from block_reuse [of "{r}" s fs "[]" x "[]" 10] s
  obtain s1 s2 where "block_deallocate (x + 48) s = Inr s1" "block_allocate 10 s1 = Inr (x + 48, s2)" by auto
  with s(1) show ?thesis by blast
qed

lemma round_block_size_wraps:
  assumes "2 ^ 64 - 16 < unat requested"
  shows "round_block_size requested = 0"
proof -
  have m: "unat (requested mod 16) = unat requested mod 16" by (simp add: unat_mod)
  define k where "k = unat requested - (2 ^ 64 - 16)"
  have k: "unat requested = 2 ^ 64 - 16 + k" "0 < k" "k < 16"
    using assms unat_less_2p64 [of requested] by (simp_all add: k_def)
  have "unat requested = k + 16 * (2 ^ 60 - 1)" using k(1) by simp
  then have mk: "unat requested mod 16 = k" using k(3) by (simp only: mod_mult_self2 mod_less)
  then have nz: "requested mod 16 \<noteq> 0" using k m by (metis unat_0 less_numeral_extra(3))
  have "unat (16 - requested mod 16) = 16 - k" using m mk k by (subst unat_minus_exact) simp_all
  then have "unat (requested + (16 - requested mod 16)) = 0" using k by (simp add: unat_word_ariths)
  then have "requested + (16 - requested mod 16) = 0" by (simp only: unat_eq_zero)
  moreover have "\<not> requested < 16" using k by (simp add: word_less_nat_alt)
  ultimately show ?thesis using nz by (simp add: round_block_size_def Let_def)
qed

text \<open>
  The rounding of the size wraps: a request of more than 2 to the 64th minus 16 bytes is treated as one
  of zero bytes and succeeds with the first free block, whatever its size.
\<close>

theorem block_allocate_huge_request:
  assumes "heap_ok R s (x # fs) bs" "2 ^ 64 - 16 < unat requested"
  shows "\<exists>s'. block_allocate requested s = Inr (x + 48, s')"
proof -
  have l: "links (headers s) 0 (x # fs) 0" "block_free_list_start s = x" "block_allocator_lock s = 0"
    using assms(1) by (simp_all add: heap_ok_def block_inv_def block_lists_def)
  have "block_first_fit (headers s) (round_block_size requested) (block_free_list_start s) = Some x"
    using first_fit_head [OF l(1), of 0] l(2) by (simp add: round_block_size_wraps [OF assms(2)])
  from block_allocate_found [OF l(3) _ this] show ?thesis using links_nonzero [OF l(1)] by auto
qed

theorem block_allocate_huge_request_witness:
  "\<exists>r s b s'. heap_boot_sequence = Inr s \<and> heap_ok {r} s [b] [] \<and>
     block_allocate 0xFFFFFFFFFFFFFFFF s = Inr (b + 48, s')"
proof -
  obtain r s b where s: "heap_boot_sequence = Inr s" "heap_ok {r} s [b] []"
    using heap_boot_sequence_ok .
  have "2 ^ 64 - 16 < unat (0xFFFFFFFFFFFFFFFF :: u64)" by simp
  then show ?thesis using block_allocate_huge_request [OF s(2)] s by blast
qed

lemma list_usage_eq:
  "links h p xs 0 \<Longrightarrow> list_usage h bytes n (head_or 0 xs) =
     Some (bytes + sum_list (map (\<lambda>x. block_size (h x)) xs), n + of_nat (length xs))"
proof (induction xs arbitrary: p bytes n)
  case Nil
  then show ?case by (subst list_usage.simps) simp
next
  case (Cons x xs)
  then have "list_usage h (bytes + block_size (h x)) (n + 1) (head_or 0 xs) =
      Some (bytes + block_size (h x) + sum_list (map (\<lambda>x. block_size (h x)) xs), n + 1 + of_nat (length xs))"
    by (intro Cons.IH [of x]) simp
  then show ?case using Cons.prems by (subst list_usage.simps) (simp add: add.assoc)
qed

text \<open>
  The usage report walks both lists to their end and returns the sums of the sizes and the
  numbers of the blocks in use and free.
\<close>

theorem block_usage_correct:
  assumes "heap_ok R s fs bs"
  shows "\<exists>s'. block_allocate_dump_usage s =
     Inr ((sum_list (map (\<lambda>x. block_size (headers s x)) bs), of_nat (length bs)),
          (sum_list (map (\<lambda>x. block_size (headers s x)) fs), of_nat (length fs)), s')"
proof -
  have l: "links (headers s) 0 fs 0" "links (headers s) 0 bs 0" "block_allocator_lock s = 0"
    "block_free_list_start s = head_or 0 fs" "block_busy_list_start s = head_or 0 bs"
    using assms by (simp_all add: heap_ok_def block_inv_def block_lists_def)
  show ?thesis
    using list_usage_eq [OF l(1), of 0 0] list_usage_eq [OF l(2), of 0 0] l(3-5)
    by (simp add: block_allocate_dump_usage_def)
qed

theorem block_usage_correct_witness:
  "\<exists>s n s'. heap_boot_sequence = Inr s \<and> block_allocate_dump_usage s = Inr ((0, 0), (n, 1), s')"
proof -
  obtain r s b where s: "heap_boot_sequence = Inr s" "heap_ok {r} s [b] []"
    using heap_boot_sequence_ok .
  then show ?thesis using block_usage_correct [OF s(2)] by auto
qed

end
