(* ===== verification/Cpu_Context.thy ===== *)
theory Cpu_Context
  imports Block_Allocator_Correct
begin

text \<open>
  Tasks, run queues and the per-processor context (\<open>kernel/src/schedulers/task/round_robin/round_robin.h\<close>,
  \<open>kernel/src/arch/x86_64/state/state.h\<close>, \<open>kernel/src/arch/x86_64/context/context.c\<close>).

  Tasks and scheduler contexts are records in stores indexed by address. The state is that of
  the kernel as one processor runs it: \<open>gs_base\<close> and \<open>gs_kernel_base\<close> are this processor's MSRs,
  \<open>cpu_state\<close> and \<open>simd_regs\<close> its registers. Its preemption timer has been armed for a burst
  (\<open>one_shot_scheduled\<close>) or told to interrupt at once (\<open>preemption_requested\<close>). The first word behind \<open>gs_base\<close> tells a processor
  context (a magic value) from a task (whose first word is its id).
\<close>

subsection \<open>Records\<close>

record arch_cpu_state =
  reg_cr3 :: u64
  reg_rax :: u64
  reg_rbx :: u64
  reg_rcx :: u64
  reg_rdx :: u64
  reg_rsi :: u64
  reg_rdi :: u64
  reg_rbp :: u64
  reg_r8 :: u64
  reg_r9 :: u64
  reg_r10 :: u64
  reg_r11 :: u64
  reg_r12 :: u64
  reg_r13 :: u64
  reg_r14 :: u64
  reg_r15 :: u64
  reg_error :: u64
  reg_rip :: u64
  reg_cs :: u64
  reg_rflags :: u64
  reg_rsp :: u64
  reg_ss :: u64

type_synonym arch_simd_state = "u8 list"

abbreviation (input) RUN_MODE_RUNNING :: int where
  "RUN_MODE_RUNNING \<equiv> 0"

abbreviation (input) RUN_MODE_ZOMBIE :: int where
  "RUN_MODE_ZOMBIE \<equiv> 1"

record scheduler_task =
  task_id :: u64
  syscall_stack_top :: u64
  userspace_stack_top :: u64
  simd_state :: arch_simd_state
  task_state :: arch_cpu_state
  task_name :: u64
  name_length :: u64
  task_empty :: bool
  ppid :: u64
  exit_code :: int
  run_mode :: int
  is_waited :: bool
  virtual_stack_top :: u64
  fd_count :: u64
  fd_max :: u64
  fd_translation :: u64
  fd_allocated_pages :: u64
  parent_queue :: u64
  task_next :: u64
  task_previous :: u64

record scheduler_task_queue =
  queue_current :: u64
  queue_head :: u64
  queue_last :: u64
  queue_lock :: u64
  queue_count :: u64

record scheduler_context =
  context_cpu_id :: u64
  running :: scheduler_task_queue
  context_next :: u64
  context_previous :: u64

record arch_cpu_context =
  context_type :: u64
  cpu_id :: u64
  is_bsp :: bool
  cpu_gdt :: u64
  scheduler_context_ptr :: u64

text \<open>Freshly allocated memory reads as zero, and so do the structures in it.\<close>

definition zero_cpu_state :: arch_cpu_state where
  "zero_cpu_state = \<lparr>reg_cr3 = 0, reg_rax = 0, reg_rbx = 0, reg_rcx = 0, reg_rdx = 0, reg_rsi = 0,
     reg_rdi = 0, reg_rbp = 0, reg_r8 = 0, reg_r9 = 0, reg_r10 = 0, reg_r11 = 0, reg_r12 = 0,
     reg_r13 = 0, reg_r14 = 0, reg_r15 = 0, reg_error = 0, reg_rip = 0, reg_cs = 0, reg_rflags = 0,
     reg_rsp = 0, reg_ss = 0\<rparr>"

definition zero_task :: scheduler_task where
  "zero_task = \<lparr>task_id = 0, syscall_stack_top = 0, userspace_stack_top = 0,
     simd_state = replicate 512 0, task_state = zero_cpu_state, task_name = 0, name_length = 0,
     task_empty = False, ppid = 0, exit_code = 0, run_mode = 0, is_waited = False,
     virtual_stack_top = 0, fd_count = 0, fd_max = 0, fd_translation = 0, fd_allocated_pages = 0,
     parent_queue = 0, task_next = 0, task_previous = 0\<rparr>"

definition zero_queue :: scheduler_task_queue where
  "zero_queue = \<lparr>queue_current = 0, queue_head = 0, queue_last = 0, queue_lock = 0, queue_count = 0\<rparr>"

definition zero_context :: scheduler_context where
  "zero_context = \<lparr>context_cpu_id = 0, running = zero_queue, context_next = 0, context_previous = 0\<rparr>"

type_synonym task_store = "u64 \<Rightarrow> scheduler_task"

record sched_state = block_state +
  tasks :: task_store
  contexts :: "u64 \<Rightarrow> scheduler_context"
  cpu_contexts :: "u64 \<Rightarrow> arch_cpu_context option"
  last_context :: u64
  last_context_lock :: u64
  last_id :: u32
  last_id_lock :: u64
  gs_base :: u64
  gs_kernel_base :: u64
  cpu_state :: arch_cpu_state
  simd_regs :: arch_simd_state
  interrupts_enabled :: bool
  one_shot_scheduled :: bool
  preemption_requested :: bool

subsection \<open>The processor's own context\<close>

abbreviation (input) CONTEXT_TYPE_CPU :: u64 where
  "CONTEXT_TYPE_CPU \<equiv> 0x55555555"

text \<open>The word \<open>context->context_type\<close> reads at an address: the id, when a task is there.\<close>

definition context_word :: "'a sched_state_scheme \<Rightarrow> u64 \<Rightarrow> u64" where
  "context_word s a =
     (case cpu_contexts s a of Some c \<Rightarrow> context_type c | None \<Rightarrow> task_id (tasks s a))"

definition swapgs :: "'a sched_state_scheme \<Rightarrow> 'a sched_state_scheme" where
  "swapgs s = s\<lparr>gs_base := gs_kernel_base s, gs_kernel_base := gs_base s\<rparr>"

definition arch_get_cpu_context :: "'a sched_state_scheme \<Rightarrow> u64 \<times> 'a sched_state_scheme" where
  "arch_get_cpu_context s =
     (let context = gs_base s;
          s = (if context = 0 \<or> context_word s context \<noteq> CONTEXT_TYPE_CPU then swapgs s else s)
      in (gs_base s, s))"

definition arch_context_install :: "'a sched_state_scheme \<Rightarrow> (u64 \<times> 'a sched_state_scheme) res" where
  "arch_context_install s =
     (case page_allocate 1 s of
        Inl e \<Rightarrow> Inl e
      | Inr (context, s) \<Rightarrow>
          Inr (context, s\<lparr>cpu_contexts := (cpu_contexts s)(context \<mapsto>
                 \<lparr>context_type = CONTEXT_TYPE_CPU, cpu_id = 0, is_bsp = False, cpu_gdt = 0, scheduler_context_ptr = 0\<rparr>),
               gs_base := context, gs_kernel_base := 0\<rparr>))"

definition arch_install_scheduler_context ::
  "u64 \<Rightarrow> 'a sched_state_scheme \<Rightarrow> 'a sched_state_scheme res" where
  "arch_install_scheduler_context context s =
     (let (cpu_context, s) = arch_get_cpu_context s
      in case cpu_contexts s cpu_context of
           None \<Rightarrow> Inl Null_Dereference
         | Some c \<Rightarrow>
             Inr (s\<lparr>cpu_contexts := (cpu_contexts s)(cpu_context \<mapsto> c\<lparr>scheduler_context_ptr := context\<rparr>)\<rparr>))"

definition arch_get_scheduler_context :: "'a sched_state_scheme \<Rightarrow> (u64 \<times> 'a sched_state_scheme) res" where
  "arch_get_scheduler_context s =
     (let (cpu_context, s) = arch_get_cpu_context s
      in case cpu_contexts s cpu_context of
           None \<Rightarrow> Inl Null_Dereference
         | Some c \<Rightarrow> Inr (scheduler_context_ptr c, s))"

definition arch_get_task_context :: "'a sched_state_scheme \<Rightarrow> (u64 \<times> 'a sched_state_scheme) res" where
  "arch_get_task_context s =
     (let context = gs_base s
      in if context = 0 then Inl Null_Dereference
         else let s = (if context_word s context = CONTEXT_TYPE_CPU then swapgs s else s)
              in Inr (gs_base s, s))"

definition arch_install_task_context :: "u64 \<Rightarrow> 'a sched_state_scheme \<Rightarrow> 'a sched_state_scheme res" where
  "arch_install_task_context context s =
     (case arch_get_task_context s of
        Inl e \<Rightarrow> Inl e
      | Inr (_, s) \<Rightarrow> Inr (s\<lparr>gs_base := context\<rparr>))"

subsection \<open>The task that runs\<close>

text \<open>The processor runs a task: its GS base is that task and not taken for a processor's context.\<close>

definition running_task :: "u64 \<Rightarrow> 'a sched_state_scheme \<Rightarrow> bool" where
  "running_task t s \<longleftrightarrow> gs_base s = t \<and> t \<noteq> 0 \<and> context_word s t \<noteq> CONTEXT_TYPE_CPU"

lemma get_task_context_running [simp]: "running_task t s \<Longrightarrow> arch_get_task_context s = Inr (t, s)"
  by (simp add: running_task_def arch_get_task_context_def)

end
