(* ===== verification/Round_Robin.thy ===== *)
theory Round_Robin
  imports Cpu_Context
begin

text \<open>
  The round-robin scheduler of \<open>kernel/src/schedulers/task/round_robin/round_robin.c\<close>.

  A run queue is reached through its scheduler context; \<open>parent_queue\<close> of a task holds that
  context's address. A switch to a task never returns to its caller: the model's result is the
  state at that moment, with the processor's registers loaded. Reading through a null pointer
  is an error, and a walk over \<open>next\<close> pointers that never ends is \<open>Diverges\<close>.
\<close>

subsection \<open>Queues\<close>

definition set_task_next :: "task_store \<Rightarrow> u64 \<Rightarrow> u64 \<Rightarrow> task_store" where
  "set_task_next t a v = t(a := (t a)\<lparr>task_next := v\<rparr>)"

definition queue_of :: "'a sched_state_scheme \<Rightarrow> u64 \<Rightarrow> scheduler_task_queue" where
  "queue_of s c = running (contexts s c)"

definition set_queue :: "u64 \<Rightarrow> scheduler_task_queue \<Rightarrow> 'a sched_state_scheme \<Rightarrow> 'a sched_state_scheme" where
  "set_queue c q s = s\<lparr>contexts := (contexts s)(c := (contexts s c)\<lparr>running := q\<rparr>)\<rparr>"

definition task_scheduler_round_robin_pop_from_queue ::
  "u64 \<Rightarrow> 'a sched_state_scheme \<Rightarrow> (u64 \<times> 'a sched_state_scheme) res" where
  "task_scheduler_round_robin_pop_from_queue c s =
     (let queue = queue_of s c
      in case spinlock_acquire (queue_lock queue) of
           Inl e \<Rightarrow> Inl e
         | Inr lock \<Rightarrow>
             let to_pop = queue_head queue
             in if to_pop = 0 then Inl (Panic ''Failed to pop a nullptr task'')
                else if queue_count queue > 1 then
                  if queue_last queue = 0 then Inl Null_Dereference
                  else
                    let head = task_next (tasks s to_pop);
                        t = set_task_next (tasks s) (queue_last queue) to_pop;
                        t = set_task_next t to_pop head;
                        queue = queue\<lparr>queue_head := head, queue_last := to_pop, queue_current := to_pop,
                                      queue_lock := spinlock_release lock\<rparr>
                    in Inr (to_pop, set_queue c queue (s\<lparr>tasks := t\<rparr>))
                else Inr (to_pop, set_queue c (queue\<lparr>queue_lock := spinlock_release lock\<rparr>) s))"

definition task_scheduler_round_robin_push_to_queue ::
  "u64 \<Rightarrow> u64 \<Rightarrow> 'a sched_state_scheme \<Rightarrow> 'a sched_state_scheme res" where
  "task_scheduler_round_robin_push_to_queue c task s =
     (let queue = queue_of s c
      in case spinlock_acquire (queue_lock queue) of
           Inl e \<Rightarrow> Inl e
         | Inr lock \<Rightarrow>
             let t = (tasks s)(task := (tasks s task)\<lparr>parent_queue := c\<rparr>);
                 queue = queue\<lparr>queue_lock := spinlock_release lock, queue_count := queue_count queue + 1\<rparr>
             in if queue_count (queue_of s c) > 0 then
                  if queue_last queue = 0 then Inl Null_Dereference
                  else Inr (set_queue c (queue\<lparr>queue_last := task\<rparr>)
                              (s\<lparr>tasks := set_task_next t (queue_last queue) task\<rparr>))
                else Inr (set_queue c (queue\<lparr>queue_current := task, queue_head := task, queue_last := task\<rparr>)
                            (s\<lparr>tasks := t\<rparr>)))"

text \<open>The walk over one queue: \<open>Inr 0\<close> when no task has the id.\<close>

partial_function (option) find_in_queue :: "task_store \<Rightarrow> u64 \<Rightarrow> u64 \<Rightarrow> u64 \<Rightarrow> u64 option" where
  "find_in_queue t pid head current_task =
     (if task_id (t current_task) = pid then Some current_task
      else let next = task_next (t current_task)
           in if next \<noteq> 0 \<and> next \<noteq> head then find_in_queue t pid head next else Some 0)"

text \<open>The walk over all contexts, from the last one backwards.\<close>

partial_function (option) find_in_contexts ::
  "(u64 \<Rightarrow> scheduler_context) \<Rightarrow> task_store \<Rightarrow> u64 \<Rightarrow> u64 \<Rightarrow> u64 \<Rightarrow> u64 res option" where
  "find_in_contexts cs t pid start current_context =
     (if current_context = 0 then Some (Inl Null_Dereference)
      else let queue = running (cs current_context)
           in if queue_lock queue \<noteq> 0 then Some (Inl Deadlock)
              else if queue_head queue = 0 then Some (Inl Null_Dereference)
              else (case find_in_queue t pid (queue_head queue) (queue_head queue) of
                      None \<Rightarrow> None
                    | Some found \<Rightarrow>
                        if found \<noteq> 0 then Some (Inr found)
                        else let previous = context_previous (cs current_context)
                             in if previous \<noteq> 0 \<and> previous \<noteq> start
                                then find_in_contexts cs t pid start previous else Some (Inr 0)))"

definition task_scheduler_round_robin_get_pid ::
  "u64 \<Rightarrow> 'a sched_state_scheme \<Rightarrow> (u64 \<times> 'a sched_state_scheme) res" where
  "task_scheduler_round_robin_get_pid pid s =
     (if pid = 0 then Inr (0, s)
      else (case spinlock_acquire (last_context_lock s) of
              Inl e \<Rightarrow> Inl e
            | Inr lock \<Rightarrow>
                (case find_in_contexts (contexts s) (tasks s) pid (last_context s) (last_context s) of
                   None \<Rightarrow> Inl Diverges
                 | Some (Inl e) \<Rightarrow> Inl e
                 | Some (Inr task) \<Rightarrow> Inr (task, s\<lparr>last_context_lock := spinlock_release lock\<rparr>))))"

subsection \<open>Installing a context\<close>

text \<open>\<open>sizeof(scheduler_context_t)\<close>.\<close>

abbreviation (input) SCHEDULER_CONTEXT_SIZE :: u64 where
  "SCHEDULER_CONTEXT_SIZE \<equiv> 64"

text \<open>The registers of a kernel task: bootstrap tables, interrupts on, kernel segments.\<close>

definition kernel_task_state :: "u64 \<Rightarrow> u64 \<Rightarrow> u64 \<Rightarrow> arch_cpu_state \<Rightarrow> arch_cpu_state" where
  "kernel_task_state cr3_value entry stack st =
     st\<lparr>reg_cr3 := cr3_value, reg_rip := entry, reg_rflags := 0x202, reg_rsp := stack,
        reg_cs := 8 * 1 OR 0, reg_ss := 8 * 2 OR 0\<rparr>"

definition add_context :: "u64 \<Rightarrow> 'a sched_state_scheme \<Rightarrow> 'a sched_state_scheme" where
  "add_context new_context s =
     (if last_context s \<noteq> 0 then
        let cs = contexts s;
            cs = cs(last_context s := (cs (last_context s))\<lparr>context_next := new_context\<rparr>);
            cs = cs(new_context := (cs new_context)\<lparr>context_previous := last_context s\<rparr>)
        in s\<lparr>contexts := cs, last_context := new_context\<rparr>
      else s\<lparr>last_context := new_context\<rparr>)"

text \<open>
  \<open>debug_dump_queue\<close> prints; of its effects there remain the lock it takes, its panic, and that
  it returns only when the walk over the queue does.
\<close>

partial_function (option) dump_walk :: "task_store \<Rightarrow> u64 \<Rightarrow> u64 \<Rightarrow> unit option" where
  "dump_walk t head task =
     (let task = task_next (t task)
      in if task \<noteq> 0 \<and> task \<noteq> head then dump_walk t head task else Some ())"

definition debug_dump_queue :: "'a sched_state_scheme \<Rightarrow> 'a sched_state_scheme res" where
  "debug_dump_queue s =
     (case spinlock_acquire (last_id_lock s) of
        Inl e \<Rightarrow> Inl e
      | Inr lock \<Rightarrow>
          (case arch_get_scheduler_context s of
             Inl e \<Rightarrow> Inl e
           | Inr (context, s) \<Rightarrow>
               let head = queue_head (queue_of s context)
               in if head = 0 then Inl (Panic ''running queue has a corrupt task'')
                  else (case dump_walk (tasks s) head head of
                          None \<Rightarrow> Inl Diverges
                        | Some _ \<Rightarrow> Inr (s\<lparr>last_id_lock := spinlock_release lock\<rparr>))))"

definition task_scheduler_round_robin_install_context ::
  "u64 \<Rightarrow> u64 \<Rightarrow> u64 \<Rightarrow> 'a sched_state_scheme \<Rightarrow> 'a sched_state_scheme res" where
  "task_scheduler_round_robin_install_context arch_id idle_name idle_entry s =
     (case block_allocate SCHEDULER_CONTEXT_SIZE s of
        Inl e \<Rightarrow> Inl e
      | Inr (new_context, s) \<Rightarrow>
     let s = s\<lparr>contexts := (contexts s)(new_context := zero_context\<lparr>context_cpu_id := arch_id\<rparr>)\<rparr>
     in case spinlock_acquire (last_context_lock s) of
        Inl e \<Rightarrow> Inl e
      | Inr lock \<Rightarrow>
     let s = (add_context new_context s)\<lparr>last_context_lock := spinlock_release lock\<rparr>
     in case arch_install_scheduler_context new_context s of
        Inl e \<Rightarrow> Inl e
      | Inr s \<Rightarrow>
     case page_allocate 1 s of
        Inl e \<Rightarrow> Inl e
      | Inr (task, s) \<Rightarrow>
     case page_allocate 1 s of
        Inl e \<Rightarrow> Inl e
      | Inr (stack, s) \<Rightarrow>
     let t = zero_task\<lparr>task_name := idle_name, name_length := 4, task_empty := False,
               task_state := kernel_task_state (arch_bootstrap_page_table s - kernel_hhdm_offset s) idle_entry
                               (stack + PAGE) zero_cpu_state,
               simd_state := simd_regs s\<rparr>
     in case task_scheduler_round_robin_push_to_queue new_context task (s\<lparr>tasks := (tasks s)(task := t)\<rparr>) of
          Inl e \<Rightarrow> Inl e
        | Inr s \<Rightarrow> debug_dump_queue s)"

subsection \<open>Switching\<close>

definition runnable :: "scheduler_task \<Rightarrow> bool" where
  "runnable t \<longleftrightarrow> \<not> (task_empty t \<or> run_mode t = RUN_MODE_ZOMBIE)"

text \<open>Pop until a task can run. The number of pops is not bounded by the code; fuel is.\<close>

fun pop_runnable :: "nat \<Rightarrow> u64 \<Rightarrow> 'a sched_state_scheme \<Rightarrow> (u64 \<times> 'a sched_state_scheme) res" where
  "pop_runnable 0 c s = Inl Diverges"
| "pop_runnable (Suc fuel) c s =
     (case task_scheduler_round_robin_pop_from_queue c s of
        Inl e \<Rightarrow> Inl e
      | Inr (next_task, s) \<Rightarrow>
          if \<not> runnable (tasks s next_task) then pop_runnable fuel c s else Inr (next_task, s))"

text \<open>
  The registers of the processor become those saved in the task, its page table among them, and the timer is armed,
  which replaces a count that was about to run out.
\<close>

definition arch_switch_state :: "u64 \<Rightarrow> 'a sched_state_scheme \<Rightarrow> 'a sched_state_scheme" where
  "arch_switch_state task s =
     s\<lparr>simd_regs := simd_state (tasks s task), one_shot_scheduled := True, preemption_requested := False,
       cpu_state := task_state (tasks s task), cr3 := reg_cr3 (task_state (tasks s task))\<rparr>"

text \<open>
  A yield sets the count of the timer to one and returns: the interrupt comes as soon as it is allowed to, and its
  handler reschedules.
\<close>

definition task_scheduler_round_robin_yield :: "'a sched_state_scheme \<Rightarrow> 'a sched_state_scheme" where
  "task_scheduler_round_robin_yield s = s\<lparr>preemption_requested := True\<rparr>"

definition task_scheduler_round_robin_reschedule ::
  "nat \<Rightarrow> arch_cpu_state \<Rightarrow> 'a sched_state_scheme \<Rightarrow> (u64 \<times> 'a sched_state_scheme) res" where
  "task_scheduler_round_robin_reschedule fuel st s =
     (case arch_get_scheduler_context s of
        Inl e \<Rightarrow> Inl e
      | Inr (context, s) \<Rightarrow>
     case spinlock_acquire (queue_lock (queue_of s context)) of
        Inl e \<Rightarrow> Inl e
      | Inr lock \<Rightarrow>
     let current = queue_current (queue_of s context)
     in if current = 0 then Inl Null_Dereference
        else let s = s\<lparr>tasks := (tasks s)(current := (tasks s current)\<lparr>simd_state := simd_regs s, task_state := st\<rparr>)\<rparr>
             in case pop_runnable fuel context s of
                  Inl e \<Rightarrow> Inl e
                | Inr (next_task, s) \<Rightarrow>
                    (case arch_install_task_context next_task s of
                       Inl e \<Rightarrow> Inl e
                     | Inr s \<Rightarrow> Inr (next_task, arch_switch_state next_task s)))"

definition task_scheduler_round_robin_enable ::
  "'a sched_state_scheme \<Rightarrow> (u64 \<times> 'a sched_state_scheme) res" where
  "task_scheduler_round_robin_enable s =
     (case arch_get_scheduler_context s of
        Inl e \<Rightarrow> Inl e
      | Inr (context, s) \<Rightarrow>
          (case task_scheduler_round_robin_pop_from_queue context s of
             Inl e \<Rightarrow> Inl e
           | Inr (task, s) \<Rightarrow> Inr (task, arch_switch_state task s)))"

subsection \<open>Creating tasks\<close>

definition write_bytes :: "mem8 \<Rightarrow> u64 \<Rightarrow> u8 list \<Rightarrow> mem8" where
  "write_bytes m a bs = fold (\<lambda>i m. m(a + of_nat i := bs ! i)) [0..<length bs] m"

text \<open>The least busy context: strictly smaller counts win, walking backwards from the last one.\<close>

partial_function (option) least_busy ::
  "(u64 \<Rightarrow> scheduler_context) \<Rightarrow> u64 \<Rightarrow> u64 \<Rightarrow> u64 \<Rightarrow> u64 option" where
  "least_busy cs minimum free_context current_context =
     (let count = queue_count (running (cs current_context));
          (minimum, free_context) =
            (if count < minimum then (count, current_context) else (minimum, free_context));
          previous = context_previous (cs current_context)
      in if previous \<noteq> 0 then least_busy cs minimum free_context previous else Some free_context)"

definition task_scheduler_round_robin_create ::
  "u8 list \<Rightarrow> 'a sched_state_scheme \<Rightarrow> (u64 \<times> 'a sched_state_scheme) res" where
  "task_scheduler_round_robin_create name s =
     (case page_allocate 1 s of
        Inl e \<Rightarrow> Inl e
      | Inr (task, s) \<Rightarrow>
     let name_len = of_nat (length name)
     in case block_allocate name_len s of
        Inl e \<Rightarrow> Inl e
      | Inr (name_ptr, s) \<Rightarrow>
     let s = s\<lparr>heap_bytes := write_bytes (heap_bytes s) name_ptr name\<rparr>
     in case page_allocate 1 s of
        Inl e \<Rightarrow> Inl e
      | Inr (stack, s) \<Rightarrow>
     case spinlock_acquire (last_id_lock s) of
        Inl e \<Rightarrow> Inl e
      | Inr lock \<Rightarrow>
     let s = s\<lparr>last_id := last_id s + 1, last_id_lock := spinlock_release lock\<rparr>
     in case page_allocate 1 s of
        Inl e \<Rightarrow> Inl e
      | Inr (fds, s) \<Rightarrow>
     let t = zero_task\<lparr>task_name := name_ptr, name_length := name_len, syscall_stack_top := stack + PAGE,
               task_empty := True, task_id := scast (last_id s), fd_allocated_pages := 1, fd_count := 1,
               fd_translation := fds, fd_max := PAGE div 8\<rparr>
     in case arch_get_scheduler_context s of
        Inl e \<Rightarrow> Inl e
      | Inr (this_context, s) \<Rightarrow>
     if last_context s = 0 then Inl Null_Dereference
     else case least_busy (contexts s) 0xFFFFFFFFFFFFFFFF this_context (last_context s) of
        None \<Rightarrow> Inl Diverges
      | Some free_context \<Rightarrow>
     let s = s\<lparr>tasks := (tasks s)(task := t\<lparr>simd_state := simd_regs s\<rparr>)\<rparr>
     in case task_scheduler_round_robin_push_to_queue free_context task s of
          Inl e \<Rightarrow> Inl e
        | Inr s \<Rightarrow> Inr (task, s))"

definition task_scheduler_round_robin_create_kernel ::
  "u8 list \<Rightarrow> u64 \<Rightarrow> 'a sched_state_scheme \<Rightarrow> (u64 \<times> 'a sched_state_scheme) res" where
  "task_scheduler_round_robin_create_kernel name entry s =
     (case task_scheduler_round_robin_create name s of
        Inl e \<Rightarrow> Inl e
      | Inr (new_task, s) \<Rightarrow>
          (case page_allocate 1 s of
             Inl e \<Rightarrow> Inl e
           | Inr (stack, s) \<Rightarrow>
               Inr (new_task, s\<lparr>tasks := (tasks s)(new_task := (tasks s new_task)\<lparr>task_state :=
                 kernel_task_state (arch_bootstrap_page_table s - kernel_hhdm_offset s) entry (stack + PAGE)
                   (task_state (tasks s new_task))\<rparr>)\<rparr>)))"

end
