(* ===== verification/Libc.thy ===== *)
theory Libc
  imports Spinlock
begin

text \<open>
  The kernel's string and memory routines (\<open>kernel/src/misc/libc.c\<close>, \<open>kernel/src/misc/libc.h\<close>) over
  byte memory, and the formatted output built on them.

  A routine that walks a string to its terminating zero is a \<open>partial_function\<close>: on a memory without
  a zero byte from there on it never returns, which is the value \<open>None\<close>. A C \<open>int\<close> is the
  integer it stands for; \<open>int_of\<close> is the conversion of a \<open>size_t\<close> to it.
\<close>

subsection \<open>Integers and error values\<close>

definition int_of :: "u64 \<Rightarrow> int" where
  "int_of x = sint (ucast x :: u32)"

definition size_of_int :: "int \<Rightarrow> u64" where
  "size_of_int i = word_of_int i"

definition int_min :: "int \<Rightarrow> int \<Rightarrow> int" where
  "int_min a b = (if a > b then b else a)"

definition int_max :: "int \<Rightarrow> int \<Rightarrow> int" where
  "int_max a b = (if a > b then a else b)"

definition int_abs :: "int \<Rightarrow> int" where
  "int_abs a = (if a < 0 then sint (word_of_int (- a) :: u32) else a)"

definition is_error :: "u64 \<Rightarrow> bool" where
  "is_error x \<longleftrightarrow> sint x < 0 \<and> sint x \<ge> - 255"

subsection \<open>Memory\<close>

definition memcpy :: "mem8 \<Rightarrow> u64 \<Rightarrow> u64 \<Rightarrow> u64 \<Rightarrow> mem8" where
  "memcpy m dest src n = fold (\<lambda>i m. m(dest + of_nat i := m (src + of_nat i))) [0..<unat n] m"

definition memmove :: "mem8 \<Rightarrow> u64 \<Rightarrow> u64 \<Rightarrow> u64 \<Rightarrow> mem8" where
  "memmove m dest src n =
     (if src > dest then fold (\<lambda>i m. m(dest + of_nat i := m (src + of_nat i))) [0..<unat n] m
      else if src < dest then
        fold (\<lambda>i m. m(dest + of_nat i - 1 := m (src + of_nat i - 1))) (rev [1..<Suc (unat n)]) m
      else m)"

definition memcmp :: "mem8 \<Rightarrow> u64 \<Rightarrow> u64 \<Rightarrow> u64 \<Rightarrow> int" where
  "memcmp m s1 s2 n =
     (case find (\<lambda>i. m (s1 + of_nat i) \<noteq> m (s2 + of_nat i)) [0..<unat n] of
        None \<Rightarrow> 0
      | Some i \<Rightarrow> if m (s1 + of_nat i) < m (s2 + of_nat i) then - 1 else 1)"

text \<open>The little-endian number in some bytes: how the processor reads an integer.\<close>

fun load_le :: "mem8 \<Rightarrow> u64 \<Rightarrow> nat \<Rightarrow> u64" where
  "load_le m p 0 = 0"
| "load_le m p (Suc n) = ucast (m p) OR push_bit 8 (load_le m (p + 1) n)"

subsection \<open>Strings\<close>

partial_function (option) strlen_from :: "mem8 \<Rightarrow> u64 \<Rightarrow> u64 \<Rightarrow> u64 option" where
  "strlen_from m str i = (if m (str + i) \<noteq> 0 then strlen_from m str (i + 1) else Some i)"

definition strlen :: "mem8 \<Rightarrow> u64 \<Rightarrow> u64 option" where
  "strlen m str = strlen_from m str 0"

definition strcpy :: "mem8 \<Rightarrow> u64 \<Rightarrow> u64 \<Rightarrow> mem8 option" where
  "strcpy m dest src = map_option (memcpy m dest src) (strlen m src)"

fun strncmp_loop :: "mem8 \<Rightarrow> u64 \<Rightarrow> u64 \<Rightarrow> nat \<Rightarrow> int" where
  "strncmp_loop m s1 s2 0 = 0"
| "strncmp_loop m s1 s2 (Suc n) =
     (if m s1 \<noteq> 0 \<and> m s1 = m s2 then strncmp_loop m (s1 + 1) (s2 + 1) n
      else uint (m s1) - uint (m s2))"

definition strncmp :: "mem8 \<Rightarrow> u64 \<Rightarrow> u64 \<Rightarrow> u64 \<Rightarrow> int" where
  "strncmp m s1 s2 n = strncmp_loop m s1 s2 (unat n)"

text \<open>Swap the ends and go inwards, with \<open>int\<close> indices.\<close>

function reverse_bytes :: "mem8 \<Rightarrow> u64 \<Rightarrow> int \<Rightarrow> int \<Rightarrow> mem8" where
  "reverse_bytes m str i j =
     (if i < j then
        let a = m (str + word_of_int i);
            m1 = m(str + word_of_int i := m (str + word_of_int j))
        in reverse_bytes (m1(str + word_of_int j := a)) str (i + 1) (j - 1)
      else m)"
  by pat_completeness auto
termination reverse_bytes
  by (relation "measure (\<lambda>(m, str, i, j). nat (j - i))") auto

definition strrev :: "mem8 \<Rightarrow> u64 \<Rightarrow> mem8 option" where
  "strrev m str = map_option (\<lambda>len. reverse_bytes m str 0 (int_of (len - 1))) (strlen m str)"

subsection \<open>Numbers as text\<close>

text \<open>\<open>"0123456789ABCDEF"\<close>, with its terminating zero.\<close>

definition digit_chars :: "u8 list" where
  "digit_chars = [0x30, 0x31, 0x32, 0x33, 0x34, 0x35, 0x36, 0x37, 0x38, 0x39, 0x41, 0x42, 0x43, 0x44, 0x45, 0x46, 0]"

text \<open>
  The digits of a number, least significant first. The index starts at zero and the loop leaves at the
  latest when it reaches \<open>buffer_bytes\<close>, so it never wraps. A division by zero and a digit outside
  the table are errors.
\<close>

function split_digits :: "mem8 \<Rightarrow> u64 \<Rightarrow> u64 \<Rightarrow> u64 \<Rightarrow> u64 \<Rightarrow> nat \<Rightarrow> (mem8 \<times> nat) res" where
  "split_digits m buffer buffer_bytes base val buffer_index =
     (if val = 0 then Inr (m, buffer_index)
      else if base = 0 then Inl (Panic ''division by zero'')
      else let digit = unat (val mod base)
           in if digit \<ge> length digit_chars then Inl Out_Of_Bounds
              else let m1 = m(buffer + of_nat buffer_index := digit_chars ! digit)
                   in if Suc buffer_index \<ge> unat buffer_bytes then Inr (m1, Suc buffer_index)
                      else split_digits m1 buffer buffer_bytes base (val div base) (Suc buffer_index))"
  by pat_completeness auto
termination split_digits
  by (relation "measure (\<lambda>(m, buffer, bytes, base, val, i). unat bytes - i)") auto

definition num_to_string :: "mem8 \<Rightarrow> u64 \<Rightarrow> u64 \<Rightarrow> u64 \<Rightarrow> u64 \<Rightarrow> mem8 res" where
  "num_to_string m val buffer buffer_bytes base =
     (let buffer_bytes = buffer_bytes - 1
      in if val = 0 then Inr (m(buffer := 0x30, buffer + 1 := 0))
         else (case split_digits m buffer buffer_bytes base val 0 of
                 Inl e \<Rightarrow> Inl e
               | Inr (m, buffer_index) \<Rightarrow>
                   let m = reverse_bytes m buffer 0 (int_of (of_nat buffer_index - 1))
                   in Inr (m(buffer + of_nat buffer_index := 0))))"

subsection \<open>Formatted output\<close>

text \<open>
  \<open>printk\<close> and its variants are one loop over the format, once with the framebuffer and once with the
  serial port as the place the characters go: \<open>put\<close>. The variable arguments are the list of 64-bit
  values passed; reading one that was not passed is an error. \<open>buffer\<close> is the address of the
  32-byte conversion buffer on the stack.
\<close>

partial_function (option) put_string ::
  "(u8 \<Rightarrow> 's \<Rightarrow> 's res) \<Rightarrow> mem8 \<Rightarrow> u64 \<Rightarrow> 's \<Rightarrow> 's res option" where
  "put_string put m str s =
     (if m str = 0 then Some (Inr s)
      else (case put (m str) s of
              Inl e \<Rightarrow> Some (Inl e)
            | Inr s \<Rightarrow> put_string put m (str + 1) s))"

definition put_number ::
  "(u8 \<Rightarrow> 's \<Rightarrow> 's res) \<Rightarrow> mem8 \<Rightarrow> u64 \<Rightarrow> u64 \<Rightarrow> u64 \<Rightarrow> 's \<Rightarrow> (mem8 \<times> 's) res option" where
  "put_number put m buffer base val s =
     (case num_to_string m val buffer 32 base of
        Inl e \<Rightarrow> Some (Inl e)
      | Inr m \<Rightarrow> map_option (map_sum id (Pair m)) (put_string put m buffer s))"

text \<open>One conversion: the character behind the percent sign says which.\<close>

definition put_conversion ::
  "(u8 \<Rightarrow> 's \<Rightarrow> 's res) \<Rightarrow> mem8 \<Rightarrow> u64 \<Rightarrow> u8 \<Rightarrow> u64 \<Rightarrow> 's \<Rightarrow> (mem8 \<times> 's) res option" where
  "put_conversion put m buffer conversion arg s =
     (if conversion = 0x64 then put_number put m buffer 10 arg s
      else if conversion = 0x78 \<or> conversion = 0x70 then
        (case put 0x30 s of
           Inl e \<Rightarrow> Some (Inl e)
         | Inr s \<Rightarrow> (case put 0x78 s of
                       Inl e \<Rightarrow> Some (Inl e)
                     | Inr s \<Rightarrow> put_number put m buffer 16 arg s))
      else if conversion = 0x73 then map_option (map_sum id (Pair m)) (put_string put m arg s)
      else Some (map_sum id (Pair m) (put (ucast arg) s)))"

partial_function (option) vprintk_unsafe ::
  "(u8 \<Rightarrow> 's \<Rightarrow> 's res) \<Rightarrow> mem8 \<Rightarrow> u64 \<Rightarrow> u64 \<Rightarrow> u64 list \<Rightarrow> 's \<Rightarrow> (mem8 \<times> 's) res option" where
  "vprintk_unsafe put m buffer fmt args s =
     (if m fmt = 0 then Some (Inr (m, s))
      else if m fmt \<noteq> 0x25 then
        (case put (m fmt) s of
           Inl e \<Rightarrow> Some (Inl e)
         | Inr s \<Rightarrow> vprintk_unsafe put m buffer (fmt + 1) args s)
      else if m (fmt + 1) \<notin> {0x64, 0x78, 0x70, 0x73, 0x63} then vprintk_unsafe put m buffer (fmt + 1) args s
      else (case args of
              [] \<Rightarrow> Some (Inl Out_Of_Bounds)
            | arg # args \<Rightarrow>
                (case put_conversion put m buffer (m (fmt + 1)) arg s of
                   None \<Rightarrow> None
                 | Some (Inl e) \<Rightarrow> Some (Inl e)
                 | Some (Inr (m, s)) \<Rightarrow> vprintk_unsafe put m buffer (fmt + 2) args s)))"

text \<open>\<open>vprintk\<close>: the loop with the lock of all output taken.\<close>

definition vprintk ::
  "(u8 \<Rightarrow> 's \<Rightarrow> 's res) \<Rightarrow> mem8 \<Rightarrow> u64 \<Rightarrow> u64 \<Rightarrow> u64 list \<Rightarrow> u64 \<Rightarrow> 's \<Rightarrow> (u64 \<times> mem8 \<times> 's) res option" where
  "vprintk put m buffer fmt args printk_lock s =
     (case spinlock_acquire printk_lock of
        Inl e \<Rightarrow> Some (Inl e)
      | Inr lock \<Rightarrow> map_option (map_sum id (Pair (spinlock_release lock))) (vprintk_unsafe put m buffer fmt args s))"

text \<open>\<open>printk\<close>: nothing is printed before there is a framebuffer.\<close>

definition printk ::
  "bool \<Rightarrow> (u8 \<Rightarrow> 's \<Rightarrow> 's res) \<Rightarrow> mem8 \<Rightarrow> u64 \<Rightarrow> u64 \<Rightarrow> u64 list \<Rightarrow> u64 \<Rightarrow> 's \<Rightarrow> (u64 \<times> mem8 \<times> 's) res option" where
  "printk framebuffer_available put m buffer fmt args printk_lock s =
     (if \<not> framebuffer_available then Some (Inr (printk_lock, m, s))
      else vprintk put m buffer fmt args printk_lock s)"

end
