(* ===== verification/Libc_Correct.thy ===== *)
theory Libc_Correct
  imports Libc
begin

text \<open>
  What the string and memory routines promise: \<open>memmove\<close> as a block copy, strings as lists of bytes,
  \<open>strlen\<close>, \<open>strncmp\<close> and \<open>memcmp\<close> on them, the round trip of \<open>num_to_string\<close> and the characters
  \<open>printk\<close> prints.
\<close>

subsection \<open>Offsets\<close>

lemma unat_offset: "k < 2 ^ 64 \<Longrightarrow> unat (p + of_nat k - p :: u64) = k"
  by (simp add: unat_of_nat_exact)

lemma offset_eq_iff: "k < 2 ^ 64 \<Longrightarrow> a = p + of_nat k \<longleftrightarrow> unat (a - p :: u64) = k"
  by (metis add_diff_cancel_left' diff_add_cancel add.commute of_nat_unat ucast_id unat_of_nat_exact)

lemma offset_self: "p + of_nat (unat (a - p)) = (a :: u64)"
  by simp

subsection \<open>Blocks of bytes\<close>

definition put_bytes :: "mem8 \<Rightarrow> u64 \<Rightarrow> u8 list \<Rightarrow> mem8" where
  "put_bytes m p bs = (\<lambda>a. if unat (a - p) < length bs then bs ! unat (a - p) else m a)"

definition bytes_at :: "mem8 \<Rightarrow> u64 \<Rightarrow> nat \<Rightarrow> u8 list" where
  "bytes_at m p n = map (\<lambda>i. m (p + of_nat i)) [0..<n]"

lemma length_bytes_at [simp]: "length (bytes_at m p n) = n"
  by (simp add: bytes_at_def)

lemma nth_bytes_at [simp]: "i < n \<Longrightarrow> bytes_at m p n ! i = m (p + of_nat i)"
  by (simp add: bytes_at_def)

lemma put_bytes_Nil [simp]: "put_bytes m p [] = m"
  by (simp add: put_bytes_def)

lemma put_bytes_snoc:
  assumes "length bs < 2 ^ 64"
  shows "(put_bytes m p bs)(p + of_nat (length bs) := b) = put_bytes m p (bs @ [b])"
proof
  fix a
  show "((put_bytes m p bs)(p + of_nat (length bs) := b)) a = put_bytes m p (bs @ [b]) a"
    using offset_eq_iff [OF assms, of a p] by (auto simp: put_bytes_def nth_append)
qed

lemma bytes_at_put_bytes:
  assumes "length bs \<le> 2 ^ 64" "n \<le> length bs"
  shows "bytes_at (put_bytes m p bs) p n = take n bs"
  by (rule nth_equalityI) (use assms in \<open>auto simp: put_bytes_def unat_of_nat_exact\<close>)

lemma put_bytes_other: "length bs \<le> unat (a - p) \<Longrightarrow> put_bytes m p bs a = m a"
  by (simp add: put_bytes_def)

lemma load_le_4:
  "load_le m p 4 = ucast (m p) OR push_bit 8 (ucast (m (p + 1)) OR push_bit 8 (ucast (m (p + 2)) OR push_bit 8 (ucast (m (p + 3)))))"
  by (simp add: numeral_eq_Suc add.assoc)

subsection \<open>Copying\<close>

lemma copy_up_step:
  assumes "k < 2 ^ 64" "\<And>a. m' a = (if unat (a - dest) < k then m (src + (a - dest)) else m a)"
    and "unat (src + of_nat k - dest) \<ge> k"
  shows "(m'(dest + of_nat k := m' (src + of_nat k))) a =
    (if unat (a - dest) < Suc k then m (src + (a - dest)) else m (a :: u64))"
proof -
  have "m' (src + of_nat k) = m (src + of_nat k)" using assms(3) by (simp add: assms(2))
  moreover have "a - dest = of_nat k" if "unat (a - dest) = k"
    using that by (metis of_nat_unat ucast_id)
  ultimately show ?thesis
    using offset_eq_iff [OF assms(1), of a dest] by (auto simp: assms(2) less_Suc_eq)
qed

text \<open>The ascending copy is exact unless the destination starts inside the source, above its start.\<close>

lemma copy_up:
  assumes "\<And>k. k < n \<Longrightarrow> k \<le> unat (src + of_nat k - dest :: u64)" "n \<le> 2 ^ 64"
  shows "fold (\<lambda>i m. m(dest + of_nat i := m (src + of_nat i))) [0..<n] m a =
    (if unat (a - dest) < n then m (src + (a - dest)) else m (a :: u64) :: u8)"
proof -
  define f where "f i m = m(dest + of_nat i := m (src + of_nat i))" for i and m :: mem8
  have "fold f [0..<j] m a = (if unat (a - dest) < j then m (src + (a - dest)) else m a)" if "j \<le> n" for j a
    using that
  proof (induction j arbitrary: a)
    case (Suc j)
    then have j: "j < 2 ^ 64" "j \<le> unat (src + of_nat j - dest)" using assms by auto
    have "fold f [0..<Suc j] m = (fold f [0..<j] m)(dest + of_nat j := fold f [0..<j] m (src + of_nat j))"
      by (simp add: f_def)
    moreover have "fold f [0..<j] m a = (if unat (a - dest) < j then m (src + (a - dest)) else m a)" for a
      using Suc by simp
    ultimately show ?case using copy_up_step [OF j(1) _ j(2), of "fold f [0..<j] m" m a] by (simp only:)
  qed simp
  from this [of n a] show ?thesis by (simp add: f_def [abs_def])
qed

lemma copy_down_step:
  assumes "k < n" "n \<le> 2 ^ 64" "\<And>a. m' a = (if k < unat (a - dest) \<and> unat (a - dest) < n then m (src + (a - dest)) else m a)"
    and "\<not> (k < unat (src + of_nat k - dest) \<and> unat (src + of_nat k - dest) < n)"
  shows "(m'(dest + of_nat k := m' (src + of_nat k))) a =
    (if k \<le> unat (a - dest) \<and> unat (a - dest) < n then m (src + (a - dest)) else m (a :: u64))"
proof -
  have "m' (src + of_nat k) = m (src + of_nat k)" using assms(4) by (simp only: assms(3)) simp
  moreover have "a - dest = of_nat k" if "unat (a - dest) = k"
    using that by (metis of_nat_unat ucast_id)
  ultimately show ?thesis
    using offset_eq_iff [of k a dest] assms(1,2) by (auto simp: assms(3))
qed

lemma copy_down:
  assumes "\<And>k. k < n \<Longrightarrow> \<not> (k < unat (src + of_nat k - dest :: u64) \<and> unat (src + of_nat k - dest) < n)" "n \<le> 2 ^ 64"
  shows "fold (\<lambda>i m. m(dest + of_nat i - 1 := m (src + of_nat i - 1))) (rev [1..<Suc n]) m a =
    (if unat (a - dest) < n then m (src + (a - dest)) else m (a :: u64) :: u8)"
proof -
  define f where "f i m = m(dest + of_nat i - 1 := m (src + of_nat i - 1))" for i and m :: mem8
  have "fold f (rev [Suc (n - j)..<Suc n]) m a =
      (if n - j \<le> unat (a - dest) \<and> unat (a - dest) < n then m (src + (a - dest)) else m a)" if "j \<le> n" for j a
    using that
  proof (induction j arbitrary: a)
    case (Suc j)
    define k where "k = n - Suc j"
    have k: "k < n" "n - j = Suc k" "k = n - Suc j" using Suc.prems by (auto simp: k_def)
    let ?m = "fold f (rev [Suc (n - j)..<Suc n]) m"
    have IH: "?m a = (if k < unat (a - dest) \<and> unat (a - dest) < n then m (src + (a - dest)) else m a)" for a
      using Suc k by (simp add: Suc_le_eq)
    have "rev [Suc k..<Suc n] = rev [Suc (Suc k)..<Suc n] @ [Suc k]"
      using k(1) by (simp add: upt_conv_Cons del: upt_Suc)
    then have "fold f (rev [Suc k..<Suc n]) m = f (Suc k) ?m" by (simp only: k(2) fold_append) simp
    also have "f (Suc k) M = M(dest + of_nat k := M (src + of_nat k))" for M by (simp add: f_def algebra_simps)
    finally show ?case using copy_down_step [OF k(1) assms(2) IH assms(1) [OF k(1)], of a] k(3) by (simp only:)
  qed auto
  from this [of n a] show ?thesis by (simp add: f_def [abs_def] del: upt_Suc)
qed

text \<open>None of the \<open>k\<close> bytes at one address lies in the block of \<open>n\<close> bytes at the other.\<close>

definition off_block :: "u64 \<Rightarrow> nat \<Rightarrow> u64 \<Rightarrow> nat \<Rightarrow> bool" where
  "off_block p n q k \<longleftrightarrow> (\<forall>i < k. n \<le> unat (q + of_nat i - p))"

lemma memcpy_other: "unat n \<le> unat (a - dest) \<Longrightarrow> memcpy m dest src n a = m a"
proof -
  assume a: "unat n \<le> unat (a - dest)"
  have "fold (\<lambda>i m. m(dest + of_nat i := m (src + of_nat i))) [0..<k] m a = m a" if "k \<le> unat n" for k
    using that
  proof (induction k)
    case (Suc k)
    then have "a \<noteq> dest + of_nat k" using a offset_eq_iff [of k a dest] less_unat_2p64 [of k n] by auto
    then show ?case using Suc by simp
  qed simp
  then show ?thesis by (simp add: memcpy_def)
qed

lemma memcpy_first: "0 < unat n \<Longrightarrow> memcpy m dest src n dest = m src"
proof -
  assume n: "0 < unat n"
  have "fold (\<lambda>i m. m(dest + of_nat i := m (src + of_nat i))) [0..<Suc k] m dest = m src" if "Suc k \<le> unat n" for k
    using that
  proof (induction k)
    case (Suc k)
    then have "dest \<noteq> dest + of_nat (Suc k)"
      using offset_eq_iff [of "Suc k" dest dest] less_unat_2p64 [of "Suc k" n] by auto
    then show ?case using Suc by simp
  qed simp
  from this [of "unat n - 1"] n show ?thesis by (simp add: memcpy_def)
qed

lemma memcpy_block:
  assumes "off_block dest (unat n) src (unat n)"
  shows "memcpy m dest src n = put_bytes m dest (bytes_at m src (unat n))"
proof
  fix a
  have "k \<le> unat (src + of_nat k - dest)" if "k < unat n" for k
    using assms that by (auto simp: off_block_def intro: order_trans [OF less_imp_le])
  from copy_up [OF this] unat_less_2p64 [of n]
  show "memcpy m dest src n a = put_bytes m dest (bytes_at m src (unat n)) a"
    by (simp add: memcpy_def put_bytes_def)
qed

text \<open>
  (C29) \<open>memmove\<close> moves a block as if through a copy of it, whichever way the two overlap, as long
  as neither runs over the end of the address space.
\<close>

theorem memmove_correct:
  assumes "unat src + unat n \<le> 2 ^ 64" "unat dest + unat n \<le> 2 ^ 64"
  shows "memmove m dest src n = put_bytes m dest (bytes_at m src (unat n))"
proof
  fix a
  have n: "unat n \<le> 2 ^ 64" using unat_less_2p64 [of n] by simp
  have eq: "put_bytes m dest (bytes_at m src (unat n)) a =
      (if unat (a - dest) < unat n then m (src + (a - dest)) else m a)"
    by (simp add: put_bytes_def)
  consider "dest < src" | "src < dest" | "src = dest" by (meson linorder_neqE)
  then show "memmove m dest src n a = put_bytes m dest (bytes_at m src (unat n)) a"
  proof cases
    case 1
    have "k \<le> unat (src + of_nat k - dest)" if "k < unat n" for k
    proof -
      have "unat (src + of_nat k) = unat src + k" using that assms n by (subst unat_plus_exact) (simp_all add: unat_of_nat_exact)
      then show ?thesis using 1 by (subst unat_minus_exact) (auto simp: word_less_nat_alt)
    qed
    from copy_up [OF this n] show ?thesis unfolding eq memmove_def using 1 by simp
  next
    case 2
    have "\<not> (k < unat (src + of_nat k - dest) \<and> unat (src + of_nat k - dest) < unat n)" if "k < unat n" for k
    proof -
      have s: "unat (src + of_nat k) = unat src + k" using that assms n by (subst unat_plus_exact) (simp_all add: unat_of_nat_exact)
      have lt: "unat src < unat dest" using 2 by (simp add: word_less_nat_alt)
      have "unat (src + of_nat k - dest) < unat n \<longleftrightarrow> unat dest \<le> unat src + k \<and> unat src + k < unat dest + unat n"
        using unat_minus_less_iff [OF assms(2), of "src + of_nat k"] s by simp
      moreover have "unat (src + of_nat k - dest) = unat src + k - unat dest" if "unat dest \<le> unat src + k"
        using that s by (simp add: unat_minus_exact)
      ultimately show ?thesis using lt by auto
    qed
    from copy_down [OF this n] show ?thesis unfolding eq memmove_def using 2 by (simp add: less_not_sym del: upt_Suc)
  next
    case 3
    then show ?thesis unfolding eq memmove_def by simp
  qed
qed

theorem memmove_correct_witness:
  "bytes_at (memmove (\<lambda>a. ucast a) 2 1 3) 2 3 = [1, 2, 3]"
proof -
  have "unat (1 :: u64) + unat (3 :: u64) \<le> 2 ^ 64" "unat (2 :: u64) + unat (3 :: u64) \<le> 2 ^ 64" by simp_all
  note memmove_correct [OF this, of "\<lambda>a. ucast a"]
  moreover have "bytes_at (\<lambda>a. ucast a :: u8) 1 3 = [1, 2, 3]" by (simp add: bytes_at_def upt_rec)
  ultimately show ?thesis by (simp add: bytes_at_put_bytes)
qed

subsection \<open>Strings\<close>

text \<open>The string at an address: its characters, and a zero behind them.\<close>

fun cstr :: "mem8 \<Rightarrow> u64 \<Rightarrow> u8 list \<Rightarrow> bool" where
  "cstr m p [] \<longleftrightarrow> m p = 0"
| "cstr m p (c # cs) \<longleftrightarrow> m p = c \<and> c \<noteq> 0 \<and> cstr m (p + 1) cs"

lemma strlen_from_cstr: "cstr m (p + i) cs \<Longrightarrow> strlen_from m p i = Some (i + of_nat (length cs))"
proof (induction cs arbitrary: i)
  case Nil
  then show ?case by (subst strlen_from.simps) simp
next
  case (Cons c cs)
  then have "cstr m (p + (i + 1)) cs" by (simp add: add.assoc)
  from Cons.IH [OF this] show ?case using Cons.prems by (subst strlen_from.simps) (simp add: add.assoc)
qed

lemma strlen_cstr: "cstr m p cs \<Longrightarrow> strlen m p = Some (of_nat (length cs))"
  using strlen_from_cstr [of m p 0 cs] by (simp add: strlen_def)

lemma cstr_nth: "cstr m p cs \<Longrightarrow> i < length cs \<Longrightarrow> m (p + of_nat i) = cs ! i"
proof (induction cs arbitrary: p i)
  case (Cons c cs)
  have "m (p + 1 + of_nat k) = cs ! k" if "k < length cs" for k using Cons that by simp
  then show ?case using Cons.prems by (cases i) (auto simp: add.assoc)
qed simp

lemma cstr_end: "cstr m p cs \<Longrightarrow> m (p + of_nat (length cs)) = 0"
proof (induction cs arbitrary: p)
  case (Cons c cs)
  then have "m (p + 1 + of_nat (length cs)) = 0" by simp
  then show ?case by (simp add: add.assoc)
qed simp

lemma cstr_no_zero: "cstr m p cs \<Longrightarrow> 0 \<notin> set cs"
  by (induction cs arbitrary: p) auto

lemma cstr_iff:
  "cstr m p cs \<longleftrightarrow> bytes_at m p (length cs) = cs \<and> m (p + of_nat (length cs)) = 0 \<and> 0 \<notin> set cs"
proof (induction cs arbitrary: p)
  case Nil
  then show ?case by (simp add: bytes_at_def)
next
  case (Cons c cs)
  have "bytes_at m p (length (c # cs)) = m p # bytes_at m (p + 1) (length cs)"
    by (simp add: bytes_at_def upt_conv_Cons map_Suc_upt [symmetric] add.assoc del: upt_Suc)
  then show ?case using Cons by (auto simp: add.assoc)
qed

text \<open>A string keeps its terminating zero short of the end of the address space.\<close>

lemma cstr_length: "cstr m p cs \<Longrightarrow> length cs < 2 ^ 64"
proof (rule ccontr)
  assume c: "cstr m p cs" and "\<not> length cs < 2 ^ 64"
  then have "2 ^ 64 \<le> length cs" by simp
  define k where "k = length cs mod 2 ^ 64"
  have k: "k < length cs" unfolding k_def
    using \<open>2 ^ 64 \<le> length cs\<close> by (metis le_less_trans less_le_trans mod_less_divisor not_less zero_less_numeral zero_less_power)
  have "(of_nat (length cs) :: u64) = of_nat k" unfolding k_def by (simp add: unsigned_of_nat take_bit_eq_mod flip: word_unat_eq_iff) (simp add: word_unat_eq_iff unat_of_nat take_bit_eq_mod)
  then have "m (p + of_nat k) = 0" using cstr_end [OF c] by simp
  then show False using cstr_nth [OF c k] cstr_no_zero [OF c] nth_mem [OF k] by metis
qed

lemma strlen_cstr_unat: "cstr m p cs \<Longrightarrow> \<exists>n. strlen m p = Some n \<and> unat n = length cs"
  using strlen_cstr cstr_length by (auto simp: unat_of_nat_exact)

subsection \<open>Comparing\<close>

lemma uint_eq_iff: "uint (a :: u8) = uint b \<longleftrightarrow> a = b" "uint (a :: u8) = 0 \<longleftrightarrow> a = 0" "0 = uint (a :: u8) \<longleftrightarrow> a = 0"
  by (auto simp: word_uint_eq_iff)

lemma strncmp_loop_cstr:
  "cstr m p as \<Longrightarrow> cstr m q bs \<Longrightarrow> strncmp_loop m p q n = 0 \<longleftrightarrow> take n as = take n bs"
proof (induction n arbitrary: p q as bs)
  case (Suc n)
  have IH: "strncmp_loop m (p + 1) (q + 1) n = 0 \<longleftrightarrow> take n as' = take n bs'"
    if "as = a # as'" "bs = b # bs'" for a b as' bs' using Suc that by simp
  show ?case using Suc.prems IH by (cases as; cases bs) (auto simp: uint_eq_iff)
qed simp

lemma strncmp_loop_bytes:
  "cstr m p as \<Longrightarrow> n \<le> length as \<Longrightarrow> strncmp_loop m p q n = 0 \<longleftrightarrow> bytes_at m q n = take n as"
proof (induction n arbitrary: p q as)
  case 0
  then show ?case by (simp add: bytes_at_def)
next
  case (Suc n)
  then obtain a bs where as: "as = a # bs" by (cases as) auto
  have "bytes_at m q (Suc n) = m q # bytes_at m (q + 1) n"
    by (simp add: bytes_at_def upt_conv_Cons map_Suc_upt [symmetric] add.assoc del: upt_Suc)
  then show ?case using Suc as by (auto simp: uint_eq_iff)
qed

text \<open>The sign is that of the first difference, as with a comparison of unsigned bytes.\<close>

lemma strncmp_loop_sign:
  assumes "cstr m p (xs @ as)" "cstr m q (xs @ bs)" "length xs < n" "as = [] \<or> bs = [] \<or> hd as \<noteq> hd bs"
  shows "strncmp_loop m p q n = uint (hd (as @ [0])) - uint (hd (bs @ [0]))"
  using assms
proof (induction xs arbitrary: p q n)
  case Nil
  then obtain k where "n = Suc k" by (cases n) auto
  then show ?case using Nil by (cases as; cases bs) auto
next
  case (Cons x xs)
  then obtain k where "n = Suc k" "length xs < k" by (cases n) auto
  then show ?case using Cons by auto
qed

text \<open>\<open>memcmp\<close> is zero exactly on equal blocks.\<close>

lemma memcmp_zero_iff: "memcmp m p q n = 0 \<longleftrightarrow> bytes_at m p (unat n) = bytes_at m q (unat n)"
proof -
  have "memcmp m p q n = 0 \<longleftrightarrow> find (\<lambda>i. m (p + of_nat i) \<noteq> m (q + of_nat i)) [0..<unat n] = None"
    by (simp add: memcmp_def split: option.split)
  also have "\<dots> \<longleftrightarrow> bytes_at m p (unat n) = bytes_at m q (unat n)"
    by (auto simp: find_None_iff bytes_at_def)
  finally show ?thesis .
qed

subsection \<open>Reversing\<close>

declare reverse_bytes.simps [simp del]

lemma reverse_bytes_apply:
  assumes "0 \<le> i" "j < 2 ^ 63"
  shows "reverse_bytes m p i j a =
    (if i \<le> int (unat (a - p)) \<and> int (unat (a - p)) \<le> j then m (p + word_of_int (i + j - int (unat (a - p)))) else m a)"
  using assms
proof (induction m p i j arbitrary: a rule: reverse_bytes.induct)
  case (1 m p i j)
  let ?k = "int (unat (a - p))"
  show ?case
  proof (cases "i < j")
    case False
    have "m a = m (p + word_of_int (i + j - ?k))" if "i \<le> ?k" "?k \<le> j"
    proof -
      have "i + j - ?k = ?k" using that False by linarith
      then show ?thesis by simp
    qed
    then show ?thesis using False by (subst reverse_bytes.simps) (simp del: of_int_add of_int_diff)
  next
    case True
    let ?m = "m(p + word_of_int i := m (p + word_of_int j), p + word_of_int j := m (p + word_of_int i))"
    have at: "b = p + word_of_int k \<longleftrightarrow> int (unat (b - p)) = k" if "0 \<le> k" "k < 2 ^ 63" for b k
    proof -
      have "word_of_int k = (of_nat (nat k) :: u64)" using that by simp
      then have "b = p + word_of_int k \<longleftrightarrow> unat (b - p) = nat k" using offset_eq_iff [of "nat k" b p] that by simp
      then show ?thesis unfolding int_eq_iff using that by blast
    qed
    have off: "int (unat (word_of_int k :: u64)) = k" if "0 \<le> k" "k < 2 ^ 63" for k
      using at [OF that, of "p + word_of_int k"] by simp
    have rec: "reverse_bytes m p i j = reverse_bytes ?m p (i + 1) (j - 1)"
      using True by (subst reverse_bytes.simps) (simp add: Let_def)
    have IH: "reverse_bytes ?m p (i + 1) (j - 1) a =
      (if i + 1 \<le> ?k \<and> ?k \<le> j - 1 then ?m (p + word_of_int (i + j - ?k)) else ?m a)"
    proof -
      have e: "i + 1 + (j - 1) - ?k = i + j - ?k" by simp
      have "0 \<le> i + 1" "j - 1 < 2 ^ 63" using 1(2,3) by simp_all
      from 1(1) [OF True refl refl this, of a] show ?thesis unfolding e .
    qed
    have mid: "?m (p + word_of_int (i + j - ?k)) = m (p + word_of_int (i + j - ?k))" if "i + 1 \<le> ?k" "?k \<le> j - 1"
    proof -
      let ?b = "p + word_of_int (i + j - ?k)"
      have "0 \<le> i + j - ?k" "i + j - ?k < 2 ^ 63" using that 1(2,3) by linarith+
      then have o: "int (unat (?b - p)) = i + j - ?k" using off [of "i + j - ?k"] by (simp only: add_diff_cancel_left')
      have "i < 2 ^ 63" "0 \<le> j" using True 1(2,3) by linarith+
      then have "?b \<noteq> p + word_of_int i" "?b \<noteq> p + word_of_int j"
        using that 1(2,3) at [of i ?b] at [of j ?b] unfolding o by linarith+
      then show ?thesis by (metis fun_upd_other)
    qed
    have ends: "?m a = (if ?k = i \<or> ?k = j then m (p + word_of_int (i + j - ?k)) else m a)"
    proof -
      have "i < 2 ^ 63" "0 \<le> j" using True 1(2,3) by linarith+
      then have "a = p + word_of_int i \<longleftrightarrow> ?k = i" "a = p + word_of_int j \<longleftrightarrow> ?k = j"
        using at [of i a] at [of j a] 1(2,3) by blast+
      then show ?thesis using True by (auto simp only: fun_upd_apply add_diff_cancel_left' add_diff_cancel_right' if_True if_False simp_thms)
    qed
    show ?thesis unfolding rec IH using mid ends True by auto
  qed
qed

lemma reverse_put_bytes:
  assumes "length bs < 2 ^ 31"
  shows "reverse_bytes (put_bytes m p bs) p 0 (int (length bs) - 1) = put_bytes m p (rev bs)"
proof
  fix a
  let ?k = "unat (a - p)"
  have "put_bytes m p bs (p + word_of_int (int (length bs) - 1 - int ?k)) = rev bs ! ?k" if "?k < length bs"
  proof -
    have "int (length bs) - 1 - int ?k = int (length bs - 1 - ?k)" using that by simp
    then have "word_of_int (int (length bs) - 1 - int ?k) = (of_nat (length bs - 1 - ?k) :: u64)" by (metis of_int_of_nat_eq)
    moreover have "put_bytes m p bs (p + of_nat (length bs - 1 - ?k)) = rev bs ! ?k"
    proof -
      have "length bs - 1 - ?k < length bs" using that by simp
      moreover have "unat (of_nat (length bs - 1 - ?k) :: u64) = length bs - 1 - ?k"
        using assms by (intro unat_of_nat_exact) simp
      ultimately show ?thesis using that by (simp add: put_bytes_def rev_nth del: of_nat_diff)
    qed
    ultimately show ?thesis by metis
  qed
  moreover have "put_bytes m p bs a = m a" if "\<not> ?k < length bs" using that by (simp add: put_bytes_def)
  moreover have "0 \<le> int ?k \<and> int ?k \<le> int (length bs) - 1 \<longleftrightarrow> ?k < length bs" by linarith
  moreover have "int (length bs) - 1 < 2 ^ 63" using assms by simp
  ultimately show "reverse_bytes (put_bytes m p bs) p 0 (int (length bs) - 1) a = put_bytes m p (rev bs) a"
    unfolding reverse_bytes_apply [OF order.refl \<open>int (length bs) - 1 < 2 ^ 63\<close>]
    by (simp only: put_bytes_def [of m p "rev bs"] length_rev add_0) simp
qed

subsection \<open>Numbers as text\<close>

declare split_digits.simps [simp del]

text \<open>The digits of a number, the least significant first.\<close>

fun digit_list :: "nat \<Rightarrow> nat \<Rightarrow> nat list" where
  "digit_list b v = (if v = 0 \<or> b < 2 then [] else (v mod b) # digit_list b (v div b))"

declare digit_list.simps [simp del]

definition num_text :: "nat \<Rightarrow> nat \<Rightarrow> u8 list" where
  "num_text b v = (if v = 0 then [0x30] else map ((!) digit_chars) (rev (digit_list b v)))"

text \<open>Reading text as a number, digit by digit from the left.\<close>

definition digit_value :: "u8 \<Rightarrow> nat" where
  "digit_value c = (if c \<ge> 0x41 then unat c - 55 else unat c - 48)"

definition text_value :: "nat \<Rightarrow> u8 list \<Rightarrow> nat" where
  "text_value b cs = foldl (\<lambda>v c. v * b + digit_value c) 0 cs"

lemma digit_list_less: "d \<in> set (digit_list b v) \<Longrightarrow> d < b"
  by (induction b v rule: digit_list.induct) (subst (asm) (2) digit_list.simps, auto split: if_splits)

lemma digit_list_value: "2 \<le> b \<Longrightarrow> foldr (\<lambda>d v. v * b + d) (digit_list b v) 0 = v"
proof (induction b v rule: digit_list.induct)
  case (1 b v)
  then show ?case by (subst digit_list.simps) (auto simp: div_mult_mod_eq)
qed

lemma digit_list_length: "v < b ^ n \<Longrightarrow> length (digit_list b v) \<le> n"
proof (induction n arbitrary: v)
  case 0
  then show ?case by (subst digit_list.simps) simp
next
  case (Suc n)
  show ?case
  proof (cases "v = 0 \<or> b < 2")
    case False
    then have "v div b < b ^ n" using Suc.prems by (simp add: less_mult_imp_div_less mult.commute)
    from Suc.IH [OF this] show ?thesis using False by (subst digit_list.simps) simp
  qed (subst digit_list.simps, simp)
qed

lemma digit_value_char: "d < 16 \<Longrightarrow> digit_value (digit_chars ! d) = d \<and> digit_chars ! d \<noteq> 0"
proof -
  have "d \<in> {0,1,2,3,4,5,6,7,8,9,10,11,12,13,14,15} \<Longrightarrow> ?thesis"
    by (auto simp: digit_value_def digit_chars_def)
  moreover assume "d < 16"
  then have "d \<in> {0,1,2,3,4,5,6,7,8,9,10,11,12,13,14,15}" unfolding insert_iff empty_iff by presburger
  ultimately show ?thesis by blast
qed

lemma text_value_num_text:
  assumes "2 \<le> b" "b \<le> 16"
  shows "text_value b (num_text b v) = v" and "0 \<notin> set (num_text b v)"
proof -
  let ?c = "(!) digit_chars"
  have d: "digit_value (?c d) = d \<and> ?c d \<noteq> 0" if "d \<in> set (digit_list b v)" for d
    using digit_value_char digit_list_less [OF that] assms(2) by simp
  have "foldl (\<lambda>v c. v * b + digit_value c) 0 (map ?c (rev ds)) = foldr (\<lambda>d v. v * b + d) ds 0"
    if "set ds \<subseteq> set (digit_list b v)" for ds
    using that d by (induction ds) auto
  then show "text_value b (num_text b v) = v"
    using digit_list_value [OF assms(1), of v] by (auto simp: text_value_def num_text_def digit_value_def)
  show "0 \<notin> set (num_text b v)" using d by (auto simp: num_text_def)
qed

lemma split_digits_eq:
  assumes "2 \<le> unat base" "unat base \<le> 16"
  shows "length ds + length (digit_list (unat base) (unat val)) \<le> unat bytes \<Longrightarrow>
    split_digits (put_bytes m p ds) p bytes base val (length ds) =
      Inr (put_bytes m p (ds @ map ((!) digit_chars) (digit_list (unat base) (unat val))),
           length ds + length (digit_list (unat base) (unat val)))"
proof (induction "unat val" arbitrary: val ds rule: less_induct)
  case less
  let ?b = "unat base" and ?l = "\<lambda>v. digit_list (unat base) v"
  show ?case
  proof (cases "val = 0")
    case True
    then show ?thesis by (subst split_digits.simps, subst (1 2) digit_list.simps) simp
  next
    case False
    then have v: "unat val \<noteq> 0" by (simp add: unat_eq_zero)
    let ?c = "digit_chars ! (unat val mod ?b)"
    have dl: "?l (unat val) = unat val mod ?b # ?l (unat val div ?b)"
      using v assms(1) by (subst digit_list.simps) simp
    have q: "unat (val div base) = unat val div ?b" "unat (val mod base) = unat val mod ?b" by (simp_all add: unat_div unat_mod)
    have lt: "unat val mod ?b < 16" using assms mod_less_divisor [of ?b "unat val"] by linarith
    have len: "length digit_chars = 17" by (simp add: digit_chars_def)
    have "length ds < 2 ^ 64" using less.prems dl unat_less_2p64 [of bytes] by simp
    then have snoc: "(put_bytes m p ds)(p + of_nat (length ds) := ?c) = put_bytes m p (ds @ [?c])"
      by (rule put_bytes_snoc)
    have step: "split_digits (put_bytes m p ds) p bytes base val (length ds) =
      (if Suc (length ds) \<ge> unat bytes then Inr (put_bytes m p (ds @ [?c]), Suc (length ds))
       else split_digits (put_bytes m p (ds @ [?c])) p bytes base (val div base) (length (ds @ [?c])))"
      using False assms(1) lt len by (subst split_digits.simps) (auto simp: Let_def q snoc)
    show ?thesis
    proof (cases "Suc (length ds) \<ge> unat bytes")
      case True
      then have "length (?l (unat val div ?b)) = 0" using less.prems unfolding dl list.size by linarith
      then have "?l (unat val div ?b) = []" by simp
      then show ?thesis using step True dl by simp
    next
      case nf: False
      have "unat (val div base) < unat val" using v assms(1) by (simp add: q)
      from less.hyps [OF this, of "ds @ [?c]"] less.prems dl
      show ?thesis using step nf by (simp add: q)
    qed
  qed
qed

lemma int_of_nat:
  assumes "k < 2 ^ 31"
  shows "int_of (of_nat k) = int k"
proof -
  have "sint (of_nat k :: u32) = signed_take_bit 31 (int k)" by (simp add: signed_of_nat)
  also have "\<dots> = int k" using assms by (intro signed_take_bit_int_eq_self) simp_all
  finally have "sint (of_nat k :: u32) = int k" .
  moreover have "ucast (of_nat k :: u64) = (of_nat k :: u32)"
    by (simp add: unsigned_of_nat) (rule bit_word_eqI, simp add: bit_simps)
  ultimately show ?thesis by (simp add: int_of_def)
qed

lemma int_of_small:
  assumes "n < 2 ^ 31" "0 < n"
  shows "int_of (of_nat n - 1) = int n - 1"
proof -
  have "(of_nat n - 1 :: u64) = of_nat (n - 1)" using assms(2) by (simp add: of_nat_diff)
  then show ?thesis using int_of_nat [of "n - 1"] assms by simp
qed

lemma num_to_string_eq:
  assumes "2 \<le> unat base" "unat base \<le> 16" "2 \<le> unat buffer_bytes" "unat buffer_bytes \<le> 2 ^ 31"
    and "unat val < unat base ^ (unat buffer_bytes - 1)"
  shows "num_to_string m val buffer buffer_bytes base = Inr (put_bytes m buffer (num_text (unat base) (unat val) @ [0]))"
proof -
  let ?cs = "num_text (unat base) (unat val)" and ?ds = "digit_list (unat base) (unat val)"
  have b: "unat (buffer_bytes - 1) = unat buffer_bytes - 1" using assms(3) by (subst unat_minus_exact) simp_all
  have len: "length ?ds \<le> unat buffer_bytes - 1" using digit_list_length [OF assms(5)] .
  show ?thesis
  proof (cases "val = 0")
    case True
    have "put_bytes m buffer [0x30] = m(buffer := 0x30)" using put_bytes_snoc [of "[]" m buffer "0x30"] by simp
    then show ?thesis
      using True put_bytes_snoc [of "[0x30]" m buffer 0] by (simp add: num_to_string_def num_text_def)
  next
    case False
    then have v: "unat val \<noteq> 0" by (simp add: unat_eq_zero)
    then have pos: "0 < length ?ds" using assms(1) by (subst digit_list.simps) simp
    have "split_digits m buffer (buffer_bytes - 1) base val 0 =
        Inr (put_bytes m buffer (map ((!) digit_chars) ?ds), length ?ds)"
      using split_digits_eq [OF assms(1,2), of "[]" val "buffer_bytes - 1" m buffer] len b by simp
    moreover have "reverse_bytes (put_bytes m buffer (map ((!) digit_chars) ?ds)) buffer 0 (int (length ?ds) - 1) =
        put_bytes m buffer ?cs"
      using reverse_put_bytes [of "map ((!) digit_chars) ?ds"] len assms(3,4) v by (simp add: num_text_def rev_map)
    moreover have "int_of (of_nat (length ?ds) - 1) = int (length ?ds) - 1"
      using len assms(3,4) pos by (intro int_of_small) auto
    moreover have "(put_bytes m buffer ?cs)(buffer + of_nat (length ?ds) := 0) = put_bytes m buffer (?cs @ [0])"
      using put_bytes_snoc [of ?cs m buffer 0] len unat_less_2p64 [of buffer_bytes] v by (simp add: num_text_def)
    ultimately show ?thesis using False by (simp add: num_to_string_def)
  qed
qed

text \<open>
  (C30) \<open>num_to_string\<close>: for a base from 2 to 16 and a buffer the number fits into, the call returns, leaves
  the number's text with its terminating zero at the buffer and changes no other byte; the text reads back as the
  number, has no zero byte and is shorter than the buffer.
\<close>

theorem num_to_string_roundtrip:
  assumes "2 \<le> unat base" "unat base \<le> 16" "2 \<le> unat buffer_bytes" "unat buffer_bytes \<le> 2 ^ 31"
    and "unat val < unat base ^ (unat buffer_bytes - 1)"
  shows "\<exists>cs. num_to_string m val buffer buffer_bytes base = Inr (put_bytes m buffer (cs @ [0])) \<and>
    text_value (unat base) cs = unat val \<and> 0 \<notin> set cs \<and> 0 < length cs \<and> length cs < unat buffer_bytes"
proof -
  let ?cs = "num_text (unat base) (unat val)" and ?ds = "digit_list (unat base) (unat val)"
  have len: "length ?ds \<le> unat buffer_bytes - 1" using digit_list_length [OF assms(5)] .
  have "0 < length ?cs \<and> length ?cs < unat buffer_bytes"
  proof (cases "unat val = 0")
    case False
    then have "0 < length ?ds" using assms(1) by (subst digit_list.simps) simp
    then show ?thesis using len False assms(3) by (simp add: num_text_def)
  qed (use assms(3) in \<open>simp add: num_text_def\<close>)
  with num_to_string_eq [OF assms] text_value_num_text [OF assms(1,2), of "unat val"] show ?thesis by blast
qed

theorem num_to_string_roundtrip_witness:
  "\<exists>cs. num_to_string (\<lambda>_. 0) 255 0x1000 32 16 = Inr (put_bytes (\<lambda>_. 0) 0x1000 (cs @ [0])) \<and>
     text_value 16 cs = 255 \<and> length cs < 32"
proof -
  have "2 \<le> unat (16 :: u64)" "unat (16 :: u64) \<le> 16" "2 \<le> unat (32 :: u64)" "unat (32 :: u64) \<le> 2 ^ 31"
    "unat (255 :: u64) < unat (16 :: u64) ^ (unat (32 :: u64) - 1)" by simp_all
  from num_to_string_roundtrip [OF this, of "\<lambda>_. 0" "0x1000"] show ?thesis by auto
qed

subsection \<open>Formatted output\<close>

text \<open>
  What a format prints: \<open>f\<close> is the text behind a pointer argument. A percent sign that starts no
  conversion prints nothing itself and the character behind it is printed as it is.
\<close>

definition conversion_text :: "(u64 \<Rightarrow> u8 list) \<Rightarrow> u8 \<Rightarrow> u64 \<Rightarrow> u8 list" where
  "conversion_text f k a =
     (if k = 0x64 then num_text 10 (unat a)
      else if k = 0x78 \<or> k = 0x70 then [0x30, 0x78] @ num_text 16 (unat a)
      else if k = 0x73 then f a
      else [ucast a])"

fun render :: "(u64 \<Rightarrow> u8 list) \<Rightarrow> u8 list \<Rightarrow> u64 list \<Rightarrow> u8 list" where
  "render f [] args = []"
| "render f [c] args = (if c = 0x25 then [] else [c])"
| "render f (c # k # cs) args =
     (if c \<noteq> 0x25 then c # render f (k # cs) args
      else if k \<notin> {0x64, 0x78, 0x70, 0x73, 0x63} then render f (k # cs) args
      else (case args of [] \<Rightarrow> [] | a # as \<Rightarrow> conversion_text f k a @ render f cs as))"

text \<open>Enough arguments, and every string argument behind a \<open>%s\<close> is a string outside the conversion buffer.\<close>

fun args_ok :: "mem8 \<Rightarrow> u64 \<Rightarrow> (u64 \<Rightarrow> u8 list) \<Rightarrow> u8 list \<Rightarrow> u64 list \<Rightarrow> bool" where
  "args_ok m buffer f [] args \<longleftrightarrow> True"
| "args_ok m buffer f [c] args \<longleftrightarrow> True"
| "args_ok m buffer f (c # k # cs) args \<longleftrightarrow>
     (if c \<noteq> 0x25 \<or> k \<notin> {0x64, 0x78, 0x70, 0x73, 0x63} then args_ok m buffer f (k # cs) args
      else (case args of
              [] \<Rightarrow> False
            | a # as \<Rightarrow> (k = 0x73 \<longrightarrow> cstr m a (f a) \<and> off_block buffer 32 a (Suc (length (f a)))) \<and> args_ok m buffer f cs as))"

definition same_but_buffer :: "u64 \<Rightarrow> mem8 \<Rightarrow> mem8 \<Rightarrow> bool" where
  "same_but_buffer buffer m m' \<longleftrightarrow> (\<forall>a. 32 \<le> unat (a - buffer) \<longrightarrow> m' a = m a)"

lemma same_but_buffer_refl [simp]: "same_but_buffer buffer m m"
  by (simp add: same_but_buffer_def)

lemma same_but_buffer_trans:
  "same_but_buffer buffer m m1 \<Longrightarrow> same_but_buffer buffer m1 m2 \<Longrightarrow> same_but_buffer buffer m m2"
  by (simp add: same_but_buffer_def)

lemma off_block_Suc: "off_block buffer n p (Suc k) \<longleftrightarrow> n \<le> unat (p - buffer) \<and> off_block buffer n (p + 1) k"
  unfolding off_block_def All_less_Suc2 by (simp add: add.assoc)

lemma cstr_same:
  "same_but_buffer buffer m m' \<Longrightarrow> off_block buffer 32 p (Suc (length cs)) \<Longrightarrow> cstr m p cs \<Longrightarrow> cstr m' p cs"
proof (induction cs arbitrary: p)
  case Nil
  then show ?case by (simp add: off_block_Suc same_but_buffer_def)
next
  case (Cons c cs)
  then have "32 \<le> unat (p - buffer)" "off_block buffer 32 (p + 1) (Suc (length cs))"
    using off_block_Suc [of buffer 32 p "Suc (length cs)"] by simp_all
  then show ?case using Cons by (simp add: same_but_buffer_def)
qed

lemma args_ok_same:
  "same_but_buffer buffer m m' \<Longrightarrow> args_ok m buffer f cs args \<Longrightarrow> args_ok m' buffer f cs args"
proof (induction m buffer f cs args rule: args_ok.induct)
  case (3 m buffer f c k cs args)
  then show ?case by (cases args) (auto intro: cstr_same split: if_splits)
qed simp_all

subsubsection \<open>Characters sent one by one\<close>

text \<open>What a sink makes of a text, up to the first character it fails on.\<close>

primrec put_chars :: "(u8 \<Rightarrow> 's \<Rightarrow> 's res) \<Rightarrow> u8 list \<Rightarrow> 's \<Rightarrow> 's res" where
  "put_chars put [] s = Inr s"
| "put_chars put (c # cs) s = (case put c s of Inl e \<Rightarrow> Inl e | Inr s \<Rightarrow> put_chars put cs s)"

lemma put_chars_append: "put_chars put (xs @ ys) s = (case put_chars put xs s of Inl e \<Rightarrow> Inl e | Inr s \<Rightarrow> put_chars put ys s)"
  by (induction xs arbitrary: s) (simp_all split: sum.split)

lemma put_chars_total [simp]: "put_chars (\<lambda>c s. Inr (g c s)) cs s = Inr (fold g cs s)"
  by (induction cs arbitrary: s) simp_all

lemma put_string_chars: "cstr m p cs \<Longrightarrow> put_string put m p s = Some (put_chars put cs s)"
proof (induction cs arbitrary: p s)
  case Nil
  then show ?case by (subst put_string.simps) simp
next
  case (Cons c cs)
  then show ?case by (subst put_string.simps) (auto split: sum.split)
qed

lemma cstr_put_bytes:
  assumes "0 \<notin> set cs" "length cs < 2 ^ 64 - 1"
  shows "cstr (put_bytes m p (cs @ [0])) p cs"
  unfolding cstr_iff
proof (intro conjI)
  show "bytes_at (put_bytes m p (cs @ [0])) p (length cs) = cs"
    using assms by (subst bytes_at_put_bytes) simp_all
  show "put_bytes m p (cs @ [0]) (p + of_nat (length cs)) = 0"
    using assms by (simp add: put_bytes_def unat_of_nat_exact)
qed (rule assms)

lemma num_fits: "unat (v :: u64) < 10 ^ 31" "unat v < 16 ^ 31"
  using unat_less_2p64 [of v] by simp_all

lemma num_text_short: "b = 10 \<or> b = 16 \<Longrightarrow> length (num_text b (unat (v :: u64))) \<le> 31"
  using digit_list_length [OF num_fits(1) [of v]] digit_list_length [OF num_fits(2) [of v]]
  by (auto simp: num_text_def)

lemma num_to_string_text:
  assumes "base = 10 \<or> base = 16"
  shows "num_to_string m val buffer 32 base = Inr (put_bytes m buffer (num_text (unat base) (unat val) @ [0]))"
proof -
  have u: "unat (32 :: u64) = 32" by simp
  have b: "2 \<le> unat base" "unat base \<le> 16" "unat base = 10 \<or> unat base = 16" using assms by auto
  then have "unat val < unat base ^ (unat (32 :: u64) - 1)" using num_fits [of val] by (auto simp: u)
  from num_to_string_eq [OF b(1,2) _ _ this] show ?thesis by simp
qed

lemma put_number_chars:
  assumes "base = 10 \<or> base = 16"
  shows "\<exists>m'. put_number put m buffer base val s =
      Some (map_sum id (Pair m') (put_chars put (num_text (unat base) (unat val)) s)) \<and> same_but_buffer buffer m m'"
proof -
  let ?cs = "num_text (unat base) (unat val)"
  have b: "2 \<le> unat base" "unat base \<le> 16" "unat base = 10 \<or> unat base = 16" using assms by auto
  note len = num_text_short [OF b(3), of val]
  have "cstr (put_bytes m buffer (?cs @ [0])) buffer ?cs"
    using text_value_num_text(2) [OF b(1,2)] len by (intro cstr_put_bytes) auto
  then have "put_number put m buffer base val s = Some (map_sum id (Pair (put_bytes m buffer (?cs @ [0]))) (put_chars put ?cs s))"
    by (simp add: put_number_def num_to_string_text [OF assms] put_string_chars)
  moreover have "same_but_buffer buffer m (put_bytes m buffer (?cs @ [0]))"
    using len by (auto simp: same_but_buffer_def put_bytes_def)
  ultimately show ?thesis by blast
qed

lemma put_conversion_chars:
  assumes "k \<in> {0x64, 0x78, 0x70, 0x73, 0x63}" "k = 0x73 \<Longrightarrow> cstr m a (f a)"
  shows "\<exists>m'. put_conversion put m buffer k a s =
      Some (map_sum id (Pair m') (put_chars put (conversion_text f k a) s)) \<and> same_but_buffer buffer m m'"
proof -
  consider "k = 0x64" | "k = 0x78 \<or> k = 0x70" | "k = 0x73" | "k = 0x63" using assms(1) by blast
  then show ?thesis
  proof cases
    case 1
    then show ?thesis using put_number_chars [of 10 put m buffer a s] by (simp add: put_conversion_def conversion_text_def)
  next
    case 2
    show ?thesis
    proof (cases "\<exists>s'. put_chars put [0x30, 0x78] s = Inr s'")
      case True
      then obtain s' where "put_chars put [0x30, 0x78] s = Inr s'" by blast
      then show ?thesis using 2 put_number_chars [of 16 put m buffer a s']
        by (auto simp: put_conversion_def conversion_text_def split: sum.splits)
    next
      case False
      then show ?thesis using 2
        by (intro exI [of _ m]) (auto simp: put_conversion_def conversion_text_def split: sum.splits)
    qed
  next
    case 3
    then show ?thesis using put_string_chars [OF assms(2), of put s] by (auto simp: put_conversion_def conversion_text_def)
  next
    case 4
    then show ?thesis by (intro exI [of _ m]) (auto simp: put_conversion_def conversion_text_def split: sum.splits)
  qed
qed

lemma vprintk_unsafe_chars:
  assumes "cstr m fmt cs" "off_block buffer 32 fmt (Suc (length cs))" "args_ok m buffer f cs args"
  shows "\<exists>m'. vprintk_unsafe put m buffer fmt args s = Some (map_sum id (Pair m') (put_chars put (render f cs args) s)) \<and>
    same_but_buffer buffer m m'"
  using assms
proof (induction f cs args arbitrary: m fmt s rule: render.induct)
  case (1 f args)
  then show ?case by (subst vprintk_unsafe.simps) (auto simp: same_but_buffer_def)
next
  case (2 f c args)
  have e: "vprintk_unsafe put m buffer (fmt + 1) args s = Some (Inr (m, s))" for s
    using 2 by (subst vprintk_unsafe.simps) simp
  show ?case using 2 by (subst vprintk_unsafe.simps) (auto simp: e same_but_buffer_def split: sum.splits)
next
  case (3 f c k cs args)
  have mem: "m fmt = c" "c \<noteq> 0" "m (fmt + 1) = k" "k \<noteq> 0" "cstr m (fmt + 1) (k # cs)" "cstr m (fmt + 2) cs"
    using 3(4) by (simp_all add: add.assoc)
  have off1: "off_block buffer 32 (fmt + 1) (Suc (length (k # cs)))" "off_block buffer 32 (fmt + 2) (Suc (length cs))"
    using 3(5) off_block_Suc [of buffer 32 fmt "Suc (length (k # cs))"] off_block_Suc [of buffer 32 "fmt + 1" "Suc (length cs)"]
    by (simp_all add: add.assoc)
  show ?case
  proof (cases "c \<noteq> 0x25 \<or> k \<notin> {0x64, 0x78, 0x70, 0x73, 0x63}")
    case True
    have *: "\<exists>m'. vprintk_unsafe put m buffer (fmt + 1) args s = Some (map_sum id (Pair m') (put_chars put (render f (k # cs) args) s)) \<and>
        same_but_buffer buffer m m'" for s
    proof (cases "c \<noteq> 0x25")
      case c: True
      show ?thesis using c 3(6) by (intro 3(1) [OF c mem(5) off1(1)]) simp
    next
      case c: False
      then have k: "k \<notin> {0x64, 0x78, 0x70, 0x73, 0x63}" using True by simp
      show ?thesis using k 3(6) by (intro 3(2) [OF c k mem(5) off1(1)]) simp
    qed
    show ?thesis
    proof (cases "c = 0x25")
      case c: True
      then show ?thesis using True mem * [of s] by (subst vprintk_unsafe.simps) auto
    next
      case c: False
      then show ?thesis using mem *
        by (subst vprintk_unsafe.simps) (auto simp: same_but_buffer_def split: sum.splits)
    qed
  next
    case False
    then have k: "k \<in> {0x64, 0x78, 0x70, 0x73, 0x63}" "c = 0x25" by auto
    then obtain a as where args: "args = a # as" using 3(6) by (cases args) auto
    have ok: "k = 0x73 \<Longrightarrow> cstr m a (f a)" "args_ok m buffer f cs as" using 3(6) k args by auto
    obtain m1 where m1: "put_conversion put m buffer k a s =
        Some (map_sum id (Pair m1) (put_chars put (conversion_text f k a) s))" "same_but_buffer buffer m m1"
      using put_conversion_chars [of k m a f put buffer s] k(1) ok(1) by blast
    have r: "render f (c # k # cs) args = conversion_text f k a @ render f cs as"
      using k args by auto
    show ?thesis
    proof (cases "put_chars put (conversion_text f k a) s")
      case (Inl e)
      then show ?thesis using mem k m1 args r by (subst vprintk_unsafe.simps) (auto simp: put_chars_append)
    next
      case (Inr s1)
      obtain m2 where m2: "vprintk_unsafe put m1 buffer (fmt + 2) as s1 =
          Some (map_sum id (Pair m2) (put_chars put (render f cs as) s1))" "same_but_buffer buffer m1 m2"
        using 3(3) [OF _ _ args cstr_same [OF m1(2) off1(2) mem(6)] off1(2) args_ok_same [OF m1(2) ok(2)]] k by (auto simp: id_def)
      have "vprintk_unsafe put m buffer fmt args s = vprintk_unsafe put m1 buffer (fmt + 2) as s1"
        using mem k m1(1) args Inr by (subst vprintk_unsafe.simps) auto
      then show ?thesis using m2 same_but_buffer_trans [OF m1(2) m2(2)] r Inr by (auto simp: put_chars_append id_def)
    qed
  qed
qed

lemma vprintk_unsafe_text:
  assumes "cstr m fmt cs" "off_block buffer 32 fmt (Suc (length cs))" "args_ok m buffer f cs args"
  shows "\<exists>m'. vprintk_unsafe (\<lambda>c s. Inr (g c s)) m buffer fmt args s = Some (Inr (m', fold g (render f cs args) s)) \<and>
    same_but_buffer buffer m m'"
  using vprintk_unsafe_chars [OF assms, of "\<lambda>c s. Inr (g c s)" s] by simp

text \<open>
  (C31) \<open>vprintk\<close> sends exactly the characters its format stands for: on a free lock, with a format and
  string arguments that lie outside the conversion buffer and as many arguments as the format
  converts, the call returns, releases the lock, passes to the sink the rendered text in order and
  changes no memory but the conversion buffer.
\<close>

theorem vprintk_renders:
  assumes "cstr m fmt cs" "off_block buffer 32 fmt (Suc (length cs))" "args_ok m buffer f cs args"
  shows "\<exists>m'. vprintk (\<lambda>c s. Inr (g c s)) m buffer fmt args 0 s =
      Some (Inr (0, m', fold g (render f cs args) s)) \<and> same_but_buffer buffer m m'"
proof -
  obtain m' where "vprintk_unsafe (\<lambda>c s. Inr (g c s)) m buffer fmt args s = Some (Inr (m', fold g (render f cs args) s))"
    "same_but_buffer buffer m m'"
    using vprintk_unsafe_text [OF assms, where g = g and s = s] by (elim exE conjE)
  then show ?thesis by (simp add: vprintk_def)
qed

theorem vprintk_renders_witness:
  "\<exists>m'. vprintk (\<lambda>c s. Inr (s @ [c])) (put_bytes (\<lambda>_. 0) 0x1000 [0x25, 0x64]) 0x2000 0x1000 [7] 0 [] =
     Some (Inr (0, m', [0x37]))"
proof -
  let ?m = "put_bytes (\<lambda>_. 0) 0x1000 [0x25, 0x64]"
  have "cstr ?m 0x1000 [0x25, 0x64]" by (simp add: put_bytes_def)
  moreover have "off_block 0x2000 32 0x1000 (Suc (length [0x25, 0x64 :: u8]))"
    by (simp add: off_block_Suc) (simp add: off_block_def)
  moreover have "args_ok ?m 0x2000 (\<lambda>_. []) [0x25, 0x64] [7]" by simp
  moreover have "render (\<lambda>_. []) [0x25, 0x64] [7] = [0x37]"
  proof -
    have "digit_list 10 7 = [7]" by (subst digit_list.simps, subst digit_list.simps) simp
    then show ?thesis by (simp add: conversion_text_def num_text_def digit_chars_def)
  qed
  ultimately show ?thesis
    using vprintk_renders [where g = "\<lambda>c s. s @ [c]" and s = "[]" and m = ?m and fmt = "0x1000" and
        buffer = "0x2000" and cs = "[0x25, 0x64]" and args = "[7]" and f = "\<lambda>_. []"] by auto
qed

end
