(* ===== verification/Paths.thy ===== *)
theory Paths
  imports Libc_Correct
begin

text \<open>
  The path routines of \<open>kernel/src/filesystem/vfs.c\<close>: parent directory, base name and the removal of
  repeated delimiters, over byte memory, with what they compute on strings.
\<close>

abbreviation (input) SLASH :: u8 where
  "SLASH \<equiv> 0x2F"

subsection \<open>Operations\<close>

text \<open>\<open>min(max_len, n)\<close> with both converted to \<open>int\<close> and the result back to \<open>size_t\<close>.\<close>

definition clamp_length :: "u64 \<Rightarrow> u64 \<Rightarrow> u64" where
  "clamp_length max_len n = size_of_int (int_min (int_of max_len) (int_of n))"

text \<open>Walk back from an offset to the delimiter at or before it, or to the first character.\<close>

function find_delimiter :: "mem8 \<Rightarrow> u64 \<Rightarrow> u64 \<Rightarrow> u64" where
  "find_delimiter m path offset =
     (if m (path + offset) \<noteq> SLASH \<and> offset \<noteq> 0 then find_delimiter m path (offset - 1) else offset)"
  by pat_completeness auto
termination find_delimiter
  by (relation "measure (\<lambda>(m, path, offset). unat offset)") (auto simp: unat_minus_one unat_gt_0)

definition vfs_dirname :: "mem8 \<Rightarrow> u64 \<Rightarrow> u64 \<Rightarrow> u64 \<Rightarrow> mem8 option" where
  "vfs_dirname m path dirname max_len =
     (case strlen m path of
        None \<Rightarrow> None
      | Some max_offset \<Rightarrow>
          let max_offset = (if m (path + max_offset) = SLASH then max_offset - 1 else max_offset);
              max_offset = find_delimiter m path max_offset
          in Some (memcpy m dirname path (clamp_length max_len max_offset)))"

definition vfs_basename :: "mem8 \<Rightarrow> u64 \<Rightarrow> u64 \<Rightarrow> u64 \<Rightarrow> mem8 option" where
  "vfs_basename m path basename max_len =
     (case strlen m path of
        None \<Rightarrow> None
      | Some max_offset \<Rightarrow>
          let base_offset = find_delimiter m path max_offset;
              base_offset = (if m (path + base_offset) = SLASH then base_offset + 1 else base_offset)
          in Some (memcpy m basename (path + base_offset) (clamp_length max_len (max_offset - base_offset))))"

text \<open>Remove the character at a pointer by moving the rest of the string, its zero included, one to the left.\<close>

partial_function (option) shift_left :: "mem8 \<Rightarrow> u64 \<Rightarrow> mem8 option" where
  "shift_left m p = (if m p \<noteq> 0 then shift_left (m(p := m (p + 1))) (p + 1) else Some m)"

partial_function (option) sanatise_loop :: "mem8 \<Rightarrow> u64 \<Rightarrow> u64 \<Rightarrow> (mem8 \<times> u64) option" where
  "sanatise_loop m path index =
     (if m (path + index) \<noteq> 0 then
        if m (path + index - 1) = SLASH \<and> m (path + index) = SLASH then
          (case shift_left m (path + index) of
             None \<Rightarrow> None
           | Some m \<Rightarrow> sanatise_loop m path index)
        else sanatise_loop m path (index + 1)
      else Some (m, index))"

definition vfs_sanatise_path :: "mem8 \<Rightarrow> u64 \<Rightarrow> (mem8 \<times> u64) option" where
  "vfs_sanatise_path m path = (if m path = 0 then Some (m, 0) else sanatise_loop m path 1)"

subsection \<open>Base name and parent\<close>

declare find_delimiter.simps [simp del]

lemma find_delimiter_split:
  assumes "cstr m p (as @ SLASH # bs)" "SLASH \<notin> set bs"
  shows "find_delimiter m p (of_nat (length as + 1 + length bs)) = of_nat (length as)"
proof -
  let ?cs = "as @ SLASH # bs"
  have len: "length ?cs < 2 ^ 64" using cstr_length [OF assms(1)] .
  have "find_delimiter m p (of_nat (length as + k)) = of_nat (length as)" if "k \<le> 1 + length bs" for k
    using that
  proof (induction k)
    case 0
    have "m (p + of_nat (length as)) = SLASH" using cstr_nth [OF assms(1), of "length as"] by simp
    then show ?case by (subst find_delimiter.simps) simp
  next
    case (Suc k)
    let ?o = "of_nat (length as + Suc k) :: u64"
    have nz: "?o \<noteq> 0" using Suc.prems len by (subst of_nat_u64_eq_0_iff) auto
    have "m (p + ?o) \<noteq> SLASH"
    proof (cases "Suc k = 1 + length bs")
      case True
      then show ?thesis using cstr_end [OF assms(1)] by simp
    next
      case False
      then have k: "k < length bs" using Suc.prems by simp
      have "m (p + ?o) = ?cs ! (length as + Suc k)" using k by (intro cstr_nth [OF assms(1)]) simp
      also have "\<dots> = bs ! k" by (simp add: nth_append)
      finally show ?thesis using assms(2) nth_mem [OF k] by metis
    qed
    then have "find_delimiter m p ?o = find_delimiter m p (?o - 1)"
      using nz by (subst find_delimiter.simps) simp
    moreover have "?o - 1 = of_nat (length as + k)" by simp
    ultimately show ?case using Suc by simp
  qed
  from this [of "1 + length bs"] show ?thesis by (simp add: add.assoc)
qed

lemma clamp_length_fits:
  assumes "n \<le> k" "k < 2 ^ 31"
  shows "clamp_length (of_nat k) (of_nat n) = of_nat n"
proof -
  have "int_of (of_nat n) = int n" "int_of (of_nat k) = int k" using assms by (auto intro: int_of_nat)
  then show ?thesis using assms(1) by (auto simp: clamp_length_def int_min_def size_of_int_def)
qed

lemma bytes_at_cstr_append:
  assumes "cstr m p (as @ bs)"
  shows "bytes_at m p (length as) = as" "bytes_at m (p + of_nat (length as)) (length bs) = bs"
proof -
  show "bytes_at m p (length as) = as"
    by (rule nth_equalityI) (use cstr_nth [OF assms] in \<open>auto simp: nth_append\<close>)
  show "bytes_at m (p + of_nat (length as)) (length bs) = bs"
  proof (rule nth_equalityI)
    fix i assume "i < length (bytes_at m (p + of_nat (length as)) (length bs))"
    then have i: "i < length bs" by simp
    have "m (p + of_nat (length as + i)) = (as @ bs) ! (length as + i)" using i by (intro cstr_nth [OF assms]) simp
    then show "bytes_at m (p + of_nat (length as)) (length bs) ! i = bs ! i"
      using i by (simp add: add.assoc)
  qed simp
qed

text \<open>
  \<open>vfs_basename\<close>: of a path with a delimiter the characters behind the last one are copied to the
  destination, and no other byte changes.
\<close>

theorem vfs_basename_correct:
  assumes "cstr m path (as @ SLASH # bs)" "SLASH \<notin> set bs"
    and "length bs \<le> max_len" "max_len < 2 ^ 31"
    and "off_block basename (length bs) (path + of_nat (length as + 1)) (length bs)"
  shows "vfs_basename m path basename (of_nat max_len) = Some (put_bytes m basename bs)"
proof -
  have len: "length (as @ SLASH # bs) < 2 ^ 64" using cstr_length [OF assms(1)] .
  have fd: "find_delimiter m path (of_nat (length (as @ SLASH # bs))) = of_nat (length as)"
    using find_delimiter_split [OF assms(1,2)] by (simp add: algebra_simps)
  have sl: "m (path + of_nat (length as)) = SLASH" using cstr_nth [OF assms(1), of "length as"] by simp
  have "of_nat (length (as @ SLASH # bs)) - (of_nat (length as) + 1) = (of_nat (length bs) :: u64)" by simp
  then have cl: "clamp_length (of_nat max_len) (of_nat (length (as @ SLASH # bs)) - (of_nat (length as) + 1)) = of_nat (length bs)"
    using clamp_length_fits [OF assms(3,4)] by simp
  have "bytes_at m (path + of_nat (length as + 1)) (length bs) = bs"
    using bytes_at_cstr_append(2) [of m path "as @ [SLASH]" bs] assms(1) by simp
  moreover have "unat (of_nat (length bs) :: u64) = length bs" using len by (intro unat_of_nat_exact) simp
  ultimately have "memcpy m basename (path + of_nat (length as + 1)) (of_nat (length bs)) = put_bytes m basename bs"
    using memcpy_block [of basename "of_nat (length bs)" "path + of_nat (length as + 1)" m] assms(5) by simp
  then show ?thesis using strlen_cstr [OF assms(1)] fd sl cl by (simp add: vfs_basename_def Let_def add_ac)
qed

theorem vfs_basename_correct_witness:
  "vfs_basename (put_bytes (\<lambda>_. 0) 0x1000 [SLASH, 0x61, SLASH, 0x62]) 0x1000 0x2000 64 =
     Some (put_bytes (put_bytes (\<lambda>_. 0) 0x1000 [SLASH, 0x61, SLASH, 0x62]) 0x2000 [0x62])"
proof -
  let ?m = "put_bytes (\<lambda>_. 0) 0x1000 [SLASH, 0x61, SLASH, 0x62]"
  have "cstr ?m 0x1000 ([SLASH, 0x61] @ SLASH # [0x62])" by (simp add: put_bytes_def)
  from vfs_basename_correct [OF this, of 64 "0x2000"] show ?thesis by (simp add: off_block_def)
qed

text \<open>
  \<open>vfs_dirname\<close> copies what stands before the last delimiter, also when that delimiter ends the path:
  the parent of a path with a trailing delimiter is the path itself without it. The source means to skip
  a trailing delimiter, but the character it looks at is the terminating zero.
\<close>

theorem vfs_dirname_correct:
  assumes "cstr m path (as @ SLASH # bs)" "SLASH \<notin> set bs"
    and "length as \<le> max_len" "max_len < 2 ^ 31" "off_block dirname (length as) path (length as)"
  shows "vfs_dirname m path dirname (of_nat max_len) = Some (put_bytes m dirname as)"
proof -
  have len: "length (as @ SLASH # bs) < 2 ^ 64" using cstr_length [OF assms(1)] .
  have fd: "find_delimiter m path (of_nat (length (as @ SLASH # bs))) = of_nat (length as)"
    using find_delimiter_split [OF assms(1,2)] by (simp add: algebra_simps)
  have "bytes_at m path (length as) = as" using bytes_at_cstr_append(1) [OF assms(1)] .
  moreover have "unat (of_nat (length as) :: u64) = length as" using len by (intro unat_of_nat_exact) simp
  ultimately have "memcpy m dirname path (of_nat (length as)) = put_bytes m dirname as"
    using memcpy_block [of dirname "of_nat (length as)" path m] assms(5) by simp
  then show ?thesis
    using strlen_cstr [OF assms(1)] cstr_end [OF assms(1)] fd clamp_length_fits [OF assms(3,4)]
    by (simp add: vfs_dirname_def Let_def)
qed

theorem vfs_dirname_correct_witness:
  "vfs_dirname (put_bytes (\<lambda>_. 0) 0x1000 [SLASH, 0x61, SLASH]) 0x1000 0x2000 64 =
     Some (put_bytes (put_bytes (\<lambda>_. 0) 0x1000 [SLASH, 0x61, SLASH]) 0x2000 [SLASH, 0x61])"
proof -
  let ?m = "put_bytes (\<lambda>_. 0) 0x1000 [SLASH, 0x61, SLASH]"
  have "cstr ?m 0x1000 ([SLASH, 0x61] @ SLASH # [])" by (simp add: put_bytes_def)
  moreover have "off_block 0x2000 (length [SLASH, 0x61 :: u8]) 0x1000 (length [SLASH, 0x61 :: u8])"
    by (simp add: off_block_Suc) (simp add: off_block_def)
  ultimately show ?thesis using vfs_dirname_correct [of ?m "0x1000" "[SLASH, 0x61]" "[]" 64 "0x2000"] by simp
qed

subsection \<open>Repeated delimiters\<close>

lemma put_bytes_Cons:
  assumes "length bs < 2 ^ 64"
  shows "put_bytes (m(p := b)) (p + 1) bs = put_bytes m p (b # bs)"
proof
  fix a :: u64
  show "put_bytes (m(p := b)) (p + 1) bs a = put_bytes m p (b # bs) a"
  proof (cases "a = p")
    case True
    then have "unat (a - (p + 1)) = 2 ^ 64 - 1" using unat_minus_wrap [of 0 1] by simp
    then show ?thesis using True assms by (simp add: put_bytes_def)
  next
    case False
    then have "0 < unat (a - p)" by (simp add: unat_gt_0)
    moreover have "unat (a - (p + 1)) = unat (a - p) - 1"
    proof -
      have e: "a - (p + 1) = (a - p) - 1" by simp
      have "a - p \<noteq> 0" using False by simp
      then show ?thesis unfolding e by (rule unat_minus_one)
    qed
    ultimately show ?thesis using False by (auto simp: put_bytes_def nth_Cons')
  qed
qed

lemma cstr_cong:
  "(\<And>i. i \<le> length cs \<Longrightarrow> m' (p + of_nat i) = m (p + of_nat i)) \<Longrightarrow> cstr m p cs \<Longrightarrow> cstr m' p cs"
proof (induction cs arbitrary: p)
  case Nil
  then show ?case using Nil(1) [of 0] by simp
next
  case (Cons c cs)
  have "cstr m' (p + 1) cs"
  proof (rule Cons.IH)
    show "m' (p + 1 + of_nat i) = m (p + 1 + of_nat i)" if "i \<le> length cs" for i
      using Cons.prems(1) [of "Suc i"] that by (simp add: add.assoc)
  qed (use Cons.prems(2) in simp)
  then show ?case using Cons.prems(1) [of 0] Cons.prems(2) by simp
qed

lemma shift_left_eq: "cstr m p (c # cs) \<Longrightarrow> shift_left m p = Some (put_bytes m p (cs @ [0]))"
proof (induction cs arbitrary: m p c)
  case Nil
  have "p + 1 \<noteq> p" by simp
  then have "shift_left (m(p := m (p + 1))) (p + 1) = Some (m(p := m (p + 1)))"
    using Nil by (subst shift_left.simps) simp
  moreover have "put_bytes m p [0] = m(p := 0)" using put_bytes_snoc [of "[]" m p 0] by simp
  ultimately show ?case using Nil by (subst shift_left.simps) simp
next
  case (Cons d ds)
  have len: "length (c # d # ds) < 2 ^ 64" using cstr_length [OF Cons.prems] .
  have "cstr (m(p := d)) (p + 1) (d # ds)"
  proof (rule cstr_cong)
    show "cstr m (p + 1) (d # ds)" using Cons.prems by simp
    fix i assume "i \<le> length (d # ds)"
    then have "(of_nat (Suc i) :: u64) \<noteq> 0" using len by (subst of_nat_u64_eq_0_iff) auto
    then have "p + 1 + of_nat i \<noteq> p" by (simp add: add.assoc)
    then show "(m(p := d)) (p + 1 + of_nat i) = m (p + 1 + of_nat i)" by simp
  qed
  moreover have "put_bytes (m(p := d)) (p + 1) (ds @ [0]) = put_bytes m p (d # ds @ [0])"
    using len by (intro put_bytes_Cons) simp
  ultimately have "shift_left (m(p := d)) (p + 1) = Some (put_bytes m p (d # ds @ [0]))"
    using Cons.IH [of "m(p := d)" "p + 1" d] by metis
  then show ?case using Cons.prems by (subst shift_left.simps) simp
qed

text \<open>The reference: a delimiter that follows a delimiter is dropped.\<close>

fun collapse_after :: "u8 \<Rightarrow> u8 list \<Rightarrow> u8 list" where
  "collapse_after a [] = []"
| "collapse_after a (c # cs) = (if a = SLASH \<and> c = SLASH then collapse_after a cs else c # collapse_after c cs)"

definition collapse :: "u8 list \<Rightarrow> u8 list" where
  "collapse cs = (case cs of [] \<Rightarrow> [] | c # cs \<Rightarrow> c # collapse_after c cs)"

lemma collapse_after_no_double: "\<nexists>xs ys. a # collapse_after a cs = xs @ SLASH # SLASH # ys"
proof (induction cs arbitrary: a)
  case Nil
  then show ?case by (auto simp: Cons_eq_append_conv)
next
  case (Cons c cs)
  show ?case
  proof (cases "a = SLASH \<and> c = SLASH")
    case True
    then show ?thesis using Cons by simp
  next
    case False
    have "\<exists>zs ws. c # collapse_after c cs = zs @ SLASH # SLASH # ws"
      if "a # c # collapse_after c cs = xs @ SLASH # SLASH # ys" for xs ys
      using that False by (cases xs) auto
    then show ?thesis using Cons [of c] False by auto
  qed
qed

lemma put_bytes_suffix:
  assumes "cstr m p (xs @ ys)" "length zs \<le> length ys" "cstr (put_bytes m (p + of_nat (length xs)) (zs @ [0])) (p + of_nat (length xs)) zs"
  shows "cstr (put_bytes m (p + of_nat (length xs)) (zs @ [0])) p (xs @ zs)"
proof -
  let ?q = "p + of_nat (length xs)" and ?m = "put_bytes m (p + of_nat (length xs)) (zs @ [0])"
  have len: "length (xs @ ys) < 2 ^ 64" using cstr_length [OF assms(1)] .
  have before: "?m (p + of_nat i) = xs ! i" if "i < length xs" for i
  proof -
    have "p + of_nat i - ?q = 0 - of_nat (length xs - i)" using that by (simp add: of_nat_diff)
    moreover have "unat (of_nat (length xs - i) :: u64) = length xs - i" using len by (intro unat_of_nat_exact) simp
    ultimately have "unat (p + of_nat i - ?q) = 2 ^ 64 - (length xs - i)"
      using that unat_minus_wrap [of 0 "of_nat (length xs - i)"] by (simp only:) simp
    then have "\<not> unat (p + of_nat i - ?q) < length (zs @ [0])" using assms(2) len that by simp
    then have "?m (p + of_nat i) = m (p + of_nat i)" unfolding put_bytes_def by (simp only: if_False)
    then show ?thesis using cstr_nth [OF assms(1), of i] that by (simp add: nth_append)
  qed
  have "bytes_at ?m p (length xs) = xs" by (rule nth_equalityI) (use before in auto)
  moreover have "bytes_at ?m p (length xs + length zs) = bytes_at ?m p (length xs) @ bytes_at ?m ?q (length zs)"
    by (rule nth_equalityI) (auto simp: nth_append add.assoc)
  moreover have "0 \<notin> set xs" using cstr_no_zero [OF assms(1)] by simp
  ultimately show ?thesis using assms(3) unfolding cstr_iff by (simp add: add.assoc)
qed

lemma sanatise_loop_eq:
  assumes "cstr m path (xs @ ys)" "xs \<noteq> []"
  shows "\<exists>m'. sanatise_loop m path (of_nat (length xs)) = Some (m', of_nat (length (xs @ collapse_after (last xs) ys))) \<and>
    cstr m' path (xs @ collapse_after (last xs) ys) \<and> (\<forall>a. length (xs @ ys) < unat (a - path) \<longrightarrow> m' a = m a)"
  using assms
proof (induction ys arbitrary: m xs)
  case Nil
  then have "m (path + of_nat (length xs)) = 0" using cstr_end [OF Nil(1)] by simp
  then show ?case using Nil by (subst sanatise_loop.simps) simp
next
  case (Cons y ys)
  let ?o = "of_nat (length xs) :: u64"
  have len: "length (xs @ y # ys) < 2 ^ 64" using cstr_length [OF Cons.prems(1)] .
  have y: "m (path + ?o) = y" "y \<noteq> 0"
    using cstr_nth [OF Cons.prems(1), of "length xs"] cstr_no_zero [OF Cons.prems(1)] by auto
  have "path + ?o - 1 = path + of_nat (length xs - 1)" using Cons.prems(2) by (cases xs) (simp_all add: of_nat_diff)
  moreover have "m (path + of_nat (length xs - 1)) = last xs"
    using cstr_nth [OF Cons.prems(1), of "length xs - 1"] Cons.prems(2) by (simp add: nth_append last_conv_nth)
  ultimately have l: "m (path + ?o - 1) = last xs" by (simp only:)
  show ?case
  proof (cases "last xs = SLASH \<and> y = SLASH")
    case True
    let ?m = "put_bytes m (path + ?o) (ys @ [0])"
    have tail: "cstr m (path + ?o) (y # ys)"
      unfolding cstr_iff using bytes_at_cstr_append(2) [OF Cons.prems(1)] cstr_end [OF Cons.prems(1)] cstr_no_zero [OF Cons.prems(1)]
      by (simp add: add_ac)
    have "cstr ?m (path + ?o) ys"
      using cstr_no_zero [OF tail] len by (intro cstr_put_bytes) auto
    then have c: "cstr ?m path (xs @ ys)" using put_bytes_suffix [OF Cons.prems(1)] by simp
    have "sanatise_loop m path ?o = sanatise_loop ?m path ?o"
      using y l True shift_left_eq [OF tail] by (subst sanatise_loop.simps) simp
    moreover have "?m a = m a" if "length (xs @ y # ys) < unat (a - path)" for a
    proof -
      have "unat (a - (path + ?o)) = unat (a - path) - length xs"
      proof -
        have e: "a - (path + ?o) = (a - path) - ?o" by simp
        have "unat ?o = length xs" using len by (intro unat_of_nat_exact) simp
        then show ?thesis using that unat_minus_exact [of ?o "a - path"] unfolding e by simp
      qed
      then show ?thesis using that by (intro put_bytes_other) simp
    qed
    ultimately show ?thesis using Cons.IH [OF c Cons.prems(2)] True by auto
  next
    case False
    have "sanatise_loop m path ?o = sanatise_loop m path (of_nat (length (xs @ [y])))"
      using y l False by (subst sanatise_loop.simps) (auto simp: add.commute)
    then show ?thesis using Cons.IH [of m "xs @ [y]"] Cons.prems False by auto
  qed
qed

text \<open>
  \<open>vfs_sanatise_path\<close> ends, leaves at the path the string with every repeated delimiter dropped, returns its
  length and changes nothing behind the string; the result has no two delimiters in a row.
\<close>

theorem vfs_sanatise_path_correct:
  assumes "cstr m path cs"
  shows "\<exists>m'. vfs_sanatise_path m path = Some (m', of_nat (length (collapse cs))) \<and> cstr m' path (collapse cs) \<and>
    {a. length cs < unat (a - path) \<and> m' a \<noteq> m a} = {} \<and> (\<nexists>xs ys. collapse cs = xs @ SLASH # SLASH # ys)"
proof (cases cs)
  case Nil
  then show ?thesis using assms by (simp add: vfs_sanatise_path_def collapse_def)
next
  case (Cons c ds)
  obtain m' where "sanatise_loop m path 1 = Some (m', of_nat (length (c # collapse_after c ds)))"
    "cstr m' path (c # collapse_after c ds)" "\<forall>a. length cs < unat (a - path) \<longrightarrow> m' a = m a"
    using sanatise_loop_eq [of m path "[c]" ds] assms Cons by auto
  then show ?thesis
    using assms Cons collapse_after_no_double [of c ds] by (auto simp: vfs_sanatise_path_def collapse_def)
qed

theorem vfs_sanatise_path_correct_witness:
  "\<exists>m'. vfs_sanatise_path (put_bytes (\<lambda>_. 0) 0x1000 [SLASH, SLASH, 0x61]) 0x1000 = Some (m', 2) \<and>
     cstr m' 0x1000 [SLASH, 0x61]"
proof -
  have "cstr (put_bytes (\<lambda>_. 0) 0x1000 [SLASH, SLASH, 0x61]) 0x1000 [SLASH, SLASH, 0x61]" by (simp add: put_bytes_def)
  from vfs_sanatise_path_correct [OF this] show ?thesis by (auto simp: collapse_def)
qed

end
