(* ===== verification/Vfs.thy ===== *)
theory Vfs
  imports Round_Robin Paths
begin

text \<open>
  The virtual file system of \<open>kernel/src/filesystem/vfs.c\<close>: mount points, nodes and the dispatch to
  the operations of a file system.

  Nodes and mount points are records in stores indexed by address. A file system is an address too; the table
  \<open>ops\<close> says which callbacks are behind it, and a callback that is a null pointer is \<open>None\<close>. The
  callbacks work on the whole kernel state, so the table is an argument of the operations and not a
  part of the state. Strings and buffers are bytes at virtual addresses in \<open>heap_bytes\<close>. A result of
  type \<open>ssize_t\<close> and a pointer that may hold an error are 64-bit words.
\<close>

subsection \<open>Error values\<close>

abbreviation (input) EPERM :: u64 where "EPERM \<equiv> 1"
abbreviation (input) ENOENT :: u64 where "ENOENT \<equiv> 2"
abbreviation (input) EBADF :: u64 where "EBADF \<equiv> 9"
abbreviation (input) ECHILD :: u64 where "ECHILD \<equiv> 10"
abbreviation (input) EACCES :: u64 where "EACCES \<equiv> 13"
abbreviation (input) EFAULT :: u64 where "EFAULT \<equiv> 14"
abbreviation (input) EINVAL :: u64 where "EINVAL \<equiv> 22"

abbreviation (input) O_RDONLY :: u64 where "O_RDONLY \<equiv> 1"
abbreviation (input) O_WRONLY :: u64 where "O_WRONLY \<equiv> 2"

abbreviation (input) SEEK_SET :: int where "SEEK_SET \<equiv> 0"
abbreviation (input) SEEK_CUR :: int where "SEEK_CUR \<equiv> 1"
abbreviation (input) SEEK_END :: int where "SEEK_END \<equiv> 2"

subsection \<open>State\<close>

text \<open>
  A node; \<open>node_private\<close> is the pointer that the file systems keep behind it (\<open>ustar_header\<close> of a
  \<open>ustar_node_t\<close>, \<open>device\<close> of a \<open>device_node_t\<close>).
\<close>

record vfs_fs_node =
  node_path :: u64
  node_path_length :: u64
  node_mode :: u64
  seek_position :: u64
  max_seek_position :: u64
  is_device :: bool
  node_fs :: u64
  node_private :: u64

record vfs_mount_point =
  mount_name :: u64
  mount_name_length :: u64
  mount_fs :: u64
  mount_next :: u64

definition zero_node :: vfs_fs_node where
  "zero_node = \<lparr>node_path = 0, node_path_length = 0, node_mode = 0, seek_position = 0, max_seek_position = 0,
     is_device = False, node_fs = 0, node_private = 0\<rparr>"

definition zero_mount :: vfs_mount_point where
  "zero_mount = \<lparr>mount_name = 0, mount_name_length = 0, mount_fs = 0, mount_next = 0\<rparr>"

record vfs_state = sched_state +
  nodes :: "u64 \<Rightarrow> vfs_fs_node"
  mounts :: "u64 \<Rightarrow> vfs_mount_point"
  mount_points :: u64
  mount_lock :: u64

record 's vfs_fs_ops =
  fs_open :: "(u64 \<Rightarrow> u64 \<Rightarrow> u64 \<Rightarrow> 's \<Rightarrow> (u64 \<times> 's) res) option"
  fs_read :: "(u64 \<Rightarrow> u64 \<Rightarrow> u64 \<Rightarrow> 's \<Rightarrow> (u64 \<times> 's) res) option"
  fs_write :: "(u64 \<Rightarrow> u64 \<Rightarrow> u64 \<Rightarrow> 's \<Rightarrow> (u64 \<times> 's) res) option"
  fs_lseek :: "(u64 \<Rightarrow> u64 \<Rightarrow> int \<Rightarrow> 's \<Rightarrow> (u64 \<times> 's) res) option"
  fs_close :: "(u64 \<Rightarrow> 's \<Rightarrow> 's res) option"
  fs_dup :: "(u64 \<Rightarrow> 's \<Rightarrow> (u64 \<times> 's) res) option"
  fs_async_task_register :: "(u64 \<Rightarrow> u64 \<Rightarrow> 's \<Rightarrow> 's res) option"
  fs_async_task_update :: "(u64 \<Rightarrow> u64 \<Rightarrow> 's \<Rightarrow> 's res) option"
  fs_async_task_unregister :: "(u64 \<Rightarrow> u64 \<Rightarrow> 's \<Rightarrow> 's res) option"

text \<open>The field of an object in a store, and a fresh copy of a string on the heap.\<close>

definition set_node :: "u64 \<Rightarrow> vfs_fs_node \<Rightarrow> 'a vfs_state_scheme \<Rightarrow> 'a vfs_state_scheme" where
  "set_node p n s = s\<lparr>nodes := (nodes s)(p := n)\<rparr>"

definition duplicate_bytes ::
  "u64 \<Rightarrow> u64 \<Rightarrow> 'a block_state_scheme \<Rightarrow> (u64 \<times> 'a block_state_scheme) res" where
  "duplicate_bytes src n s =
     (case block_allocate n s of
        Inl e \<Rightarrow> Inl e
      | Inr (p, s) \<Rightarrow> Inr (p, s\<lparr>heap_bytes := memcpy (heap_bytes s) p src n\<rparr>))"

text \<open>A page used as a byte buffer: its bytes are zeroed with it.\<close>

definition allocate_buffer :: "'a block_state_scheme \<Rightarrow> (u64 \<times> 'a block_state_scheme) res" where
  "allocate_buffer s =
     (case page_allocate 1 s of
        Inl e \<Rightarrow> Inl e
      | Inr (p, s) \<Rightarrow> Inr (p, s\<lparr>heap_bytes := memset8 (heap_bytes s) p 0 PAGE\<rparr>))"

subsection \<open>Mounting\<close>

text \<open>\<open>sizeof(vfs_mount_point_t)\<close>.\<close>

abbreviation (input) MOUNT_POINT_SIZE :: u64 where
  "MOUNT_POINT_SIZE \<equiv> 40"

partial_function (option) last_mount :: "(u64 \<Rightarrow> vfs_mount_point) \<Rightarrow> u64 \<Rightarrow> u64 option" where
  "last_mount ms point =
     (if mount_next (ms point) \<noteq> 0 then last_mount ms (mount_next (ms point)) else Some point)"

definition vfs_mount_fs :: "u64 \<Rightarrow> u64 \<Rightarrow> 'a vfs_state_scheme \<Rightarrow> 'a vfs_state_scheme res" where
  "vfs_mount_fs name fs s =
     (case spinlock_acquire (mount_lock s) of
        Inl e \<Rightarrow> Inl e
      | Inr lock \<Rightarrow>
     case strlen (heap_bytes s) name of
        None \<Rightarrow> Inl Diverges
      | Some name_len \<Rightarrow>
     case block_allocate MOUNT_POINT_SIZE s of
        Inl e \<Rightarrow> Inl e
      | Inr (new_mount, s) \<Rightarrow>
     case duplicate_bytes name name_len s of
        Inl e \<Rightarrow> Inl e
      | Inr (copy, s) \<Rightarrow>
     let ms = (mounts s)(new_mount := zero_mount\<lparr>mount_name := copy, mount_name_length := name_len, mount_fs := fs\<rparr>)
     in if mount_points s = 0 then Inl Null_Dereference
        else case last_mount ms (mount_points s) of
               None \<Rightarrow> Inl Diverges
             | Some point \<Rightarrow>
                 Inr (s\<lparr>mounts := ms(point := (ms point)\<lparr>mount_next := new_mount\<rparr>),
                        mount_lock := spinlock_release lock\<rparr>))"

definition vfs_init :: "'a vfs_state_scheme \<Rightarrow> 'a vfs_state_scheme res" where
  "vfs_init s =
     (case block_allocate MOUNT_POINT_SIZE s of
        Inl e \<Rightarrow> Inl e
      | Inr (p, s) \<Rightarrow> Inr (s\<lparr>mounts := (mounts s)(p := zero_mount), mount_points := p\<rparr>))"

subsection \<open>Opening\<close>

partial_function (option) find_mount ::
  "mem8 \<Rightarrow> (u64 \<Rightarrow> vfs_mount_point) \<Rightarrow> u64 \<Rightarrow> u64 \<Rightarrow> u64 \<Rightarrow> u64 option" where
  "find_mount m ms path path_len mount =
     (if mount = 0 then Some 0
      else if path_len < mount_name_length (ms mount) then find_mount m ms path path_len (mount_next (ms mount))
      else if strncmp m path (mount_name (ms mount)) (mount_name_length (ms mount)) = 0 then Some mount
      else find_mount m ms path path_len (mount_next (ms mount)))"

definition vfs_open ::
  "(u64 \<Rightarrow> 'a vfs_state_scheme vfs_fs_ops) \<Rightarrow> u64 \<Rightarrow> u64 \<Rightarrow> 'a vfs_state_scheme \<Rightarrow> (u64 \<times> 'a vfs_state_scheme) res" where
  "vfs_open ops path mode s =
     (if path = 0 then Inr (- ENOENT, s)
      else case strlen (heap_bytes s) path of
        None \<Rightarrow> Inl Diverges
      | Some path_len \<Rightarrow>
     if heap_bytes s path \<noteq> SLASH then Inr (- ENOENT, s)
     else case spinlock_acquire (mount_lock s) of
        Inl e \<Rightarrow> Inl e
      | Inr lock \<Rightarrow>
     if mount_points s = 0 then Inl Null_Dereference
     else case find_mount (heap_bytes s) (mounts s) path path_len (mount_next (mounts s (mount_points s))) of
        None \<Rightarrow> Inl Diverges
      | Some mount \<Rightarrow>
     let s = s\<lparr>mount_lock := spinlock_release lock\<rparr>
     in if mount = 0 then Inr (- ENOENT, s)
        else case fs_open (ops (mount_fs (mounts s mount))) of
               None \<Rightarrow> Inl (Panic ''no open callback'')
             | Some callback \<Rightarrow>
                 callback (mount_fs (mounts s mount)) (path + mount_name_length (mounts s mount)) mode s)"

subsection \<open>Operations on nodes\<close>

definition vfs_read ::
  "(u64 \<Rightarrow> 'a vfs_state_scheme vfs_fs_ops) \<Rightarrow> u64 \<Rightarrow> u64 \<Rightarrow> u64 \<Rightarrow> 'a vfs_state_scheme \<Rightarrow> (u64 \<times> 'a vfs_state_scheme) res" where
  "vfs_read ops node buffer n s =
     (if node = 0 then Inl (Panic ''kernel bug: null vfs node'')
      else case fs_read (ops (node_fs (nodes s node))) of
             None \<Rightarrow> Inr (- EBADF, s)
           | Some callback \<Rightarrow> callback node buffer n s)"

definition vfs_write ::
  "(u64 \<Rightarrow> 'a vfs_state_scheme vfs_fs_ops) \<Rightarrow> u64 \<Rightarrow> u64 \<Rightarrow> u64 \<Rightarrow> 'a vfs_state_scheme \<Rightarrow> (u64 \<times> 'a vfs_state_scheme) res" where
  "vfs_write ops node buffer n s =
     (if node = 0 then Inl (Panic ''kernel bug: null vfs node'')
      else case fs_write (ops (node_fs (nodes s node))) of
             None \<Rightarrow> Inr (- EBADF, s)
           | Some callback \<Rightarrow> callback node buffer n s)"

definition vfs_lseek ::
  "(u64 \<Rightarrow> 'a vfs_state_scheme vfs_fs_ops) \<Rightarrow> u64 \<Rightarrow> u64 \<Rightarrow> int \<Rightarrow> 'a vfs_state_scheme \<Rightarrow> (u64 \<times> 'a vfs_state_scheme) res" where
  "vfs_lseek ops node offset whence s =
     (if node = 0 then Inl (Panic ''kernel bug: null vfs node'')
      else case fs_lseek (ops (node_fs (nodes s node))) of
             None \<Rightarrow> Inr (- EBADF, s)
           | Some callback \<Rightarrow> callback node offset whence s)"

definition vfs_close ::
  "(u64 \<Rightarrow> 'a vfs_state_scheme vfs_fs_ops) \<Rightarrow> u64 \<Rightarrow> 'a vfs_state_scheme \<Rightarrow> 'a vfs_state_scheme res" where
  "vfs_close ops node s =
     (if node = 0 then Inl (Panic ''kernel bug: null vfs node'')
      else case fs_close (ops (node_fs (nodes s node))) of
             None \<Rightarrow> Inl (Panic ''no close callback'')
           | Some callback \<Rightarrow> callback node s)"

definition vfs_dup ::
  "(u64 \<Rightarrow> 'a vfs_state_scheme vfs_fs_ops) \<Rightarrow> u64 \<Rightarrow> 'a vfs_state_scheme \<Rightarrow> (u64 \<times> 'a vfs_state_scheme) res" where
  "vfs_dup ops node s =
     (if node = 0 then Inl (Panic ''kernel bug: null vfs node'')
      else case fs_dup (ops (node_fs (nodes s node))) of
             None \<Rightarrow> Inl (Panic ''no dup callback'')
           | Some callback \<Rightarrow> callback node s)"

subsection \<open>Asynchronous tasks\<close>

text \<open>Asynchronous i/o needs all three callbacks.\<close>

definition async_callbacks ::
  "'s vfs_fs_ops \<Rightarrow> ((u64 \<Rightarrow> u64 \<Rightarrow> 's \<Rightarrow> 's res) \<times> (u64 \<Rightarrow> u64 \<Rightarrow> 's \<Rightarrow> 's res) \<times> (u64 \<Rightarrow> u64 \<Rightarrow> 's \<Rightarrow> 's res)) option" where
  "async_callbacks fs =
     (case (fs_async_task_register fs, fs_async_task_update fs, fs_async_task_unregister fs) of
        (Some register, Some update, Some unregister) \<Rightarrow> Some (register, update, unregister)
      | _ \<Rightarrow> None)"

definition vfs_async_task_register ::
  "(u64 \<Rightarrow> 'a vfs_state_scheme vfs_fs_ops) \<Rightarrow> u64 \<Rightarrow> u64 \<Rightarrow> 'a vfs_state_scheme \<Rightarrow> (bool \<times> 'a vfs_state_scheme) res" where
  "vfs_async_task_register ops node task s =
     (if node = 0 then Inl Null_Dereference
      else case async_callbacks (ops (node_fs (nodes s node))) of
             None \<Rightarrow> Inr (False, s)
           | Some (register, _, _) \<Rightarrow> map_sum id (Pair True) (register node task s))"

definition vfs_async_task_update ::
  "(u64 \<Rightarrow> 'a vfs_state_scheme vfs_fs_ops) \<Rightarrow> u64 \<Rightarrow> u64 \<Rightarrow> 'a vfs_state_scheme \<Rightarrow> 'a vfs_state_scheme res" where
  "vfs_async_task_update ops node task s =
     (if node = 0 then Inl Null_Dereference
      else case async_callbacks (ops (node_fs (nodes s node))) of
             None \<Rightarrow> Inr s
           | Some (_, update, _) \<Rightarrow> update node task s)"

definition vfs_async_task_unregister ::
  "(u64 \<Rightarrow> 'a vfs_state_scheme vfs_fs_ops) \<Rightarrow> u64 \<Rightarrow> u64 \<Rightarrow> 'a vfs_state_scheme \<Rightarrow> 'a vfs_state_scheme res" where
  "vfs_async_task_unregister ops node task s =
     (if node = 0 then Inl Null_Dereference
      else case async_callbacks (ops (node_fs (nodes s node))) of
             None \<Rightarrow> Inr s
           | Some (_, _, unregister) \<Rightarrow> unregister node task s)"

end
