(* ===== verification/Syscalls.thy ===== *)
theory Syscalls
  imports Vfs
begin

text \<open>
  The system calls of \<open>kernel/src/syscalls/\<close>.

  A handler gets the arguments the caller passed in registers and returns the value of \<open>rax\<close> with the new
  state. The caller is the task behind the processor's GS base. Its table of file descriptors is an array of node
  pointers in page memory. A pointer from user space is checked against the higher half and against the page
  table of the task, for its first byte. Tracing is output only. A yield asks the timer for an interrupt and returns;
  a handler that waits yields in a loop, and the state after its first yield is a result of its own.
\<close>

subsection \<open>The caller and its memory\<close>

definition IS_USER_MEMORY :: "u64 \<Rightarrow> scheduler_task \<Rightarrow> 'a page_state_scheme \<Rightarrow> bool" where
  "IS_USER_MEMORY address t s \<longleftrightarrow>
     \<not> address \<ge> kernel_hhdm_offset s \<and>
     arch_table_manager_translate_to_physical (reg_cr3 (task_state t) + kernel_hhdm_offset s) address s \<noteq> 0"

definition fd_slot :: "scheduler_task \<Rightarrow> u64 \<Rightarrow> u64" where
  "fd_slot t fd = fd_translation t + 8 * fd"

definition upd_task :: "u64 \<Rightarrow> (scheduler_task \<Rightarrow> scheduler_task) \<Rightarrow> 'a sched_state_scheme \<Rightarrow> 'a sched_state_scheme" where
  "upd_task p f s = s\<lparr>tasks := (tasks s)(p := f (tasks s p))\<rparr>"

subsection \<open>Files\<close>

text \<open>The node behind a descriptor, when \<open>sys_read\<close>, \<open>sys_write\<close> and \<open>sys_lseek\<close> accept it; null otherwise.\<close>

definition fd_node :: "scheduler_task \<Rightarrow> u64 \<Rightarrow> 'a page_state_scheme \<Rightarrow> u64" where
  "fd_node t fd s = (if fd \<ge> fd_count t then 0 else memory s (fd_slot t fd))"

definition sys_write ::
  "(u64 \<Rightarrow> 'a vfs_state_scheme vfs_fs_ops) \<Rightarrow> u64 \<Rightarrow> u64 \<Rightarrow> u64 \<Rightarrow> 'a vfs_state_scheme \<Rightarrow> (u64 \<times> 'a vfs_state_scheme) res" where
  "sys_write ops fd buffer n s =
     (case arch_get_task_context s of
        Inl e \<Rightarrow> Inl e
      | Inr (caller, s) \<Rightarrow>
          let t = tasks s caller
          in if \<not> IS_USER_MEMORY buffer t s then Inr (- EPERM, s)
             else let node = fd_node t fd s
                  in if node = 0 then Inr (- EBADF, s) else vfs_write ops node buffer n s)"

definition sys_read ::
  "(u64 \<Rightarrow> 'a vfs_state_scheme vfs_fs_ops) \<Rightarrow> u64 \<Rightarrow> u64 \<Rightarrow> u64 \<Rightarrow> 'a vfs_state_scheme \<Rightarrow> (u64 \<times> 'a vfs_state_scheme) res" where
  "sys_read ops fd buffer n s =
     (case arch_get_task_context s of
        Inl e \<Rightarrow> Inl e
      | Inr (caller, s) \<Rightarrow>
          let t = tasks s caller
          in if \<not> IS_USER_MEMORY buffer t s then Inr (- EPERM, s)
             else let node = fd_node t fd s
                  in if node = 0 then Inr (- EBADF, s) else vfs_read ops node buffer n s)"

text \<open>\<open>sys_lseek\<close> calls through the file system's table without asking whether there is a callback.\<close>

definition sys_lseek ::
  "(u64 \<Rightarrow> 'a vfs_state_scheme vfs_fs_ops) \<Rightarrow> u64 \<Rightarrow> u64 \<Rightarrow> int \<Rightarrow> 'a vfs_state_scheme \<Rightarrow> (u64 \<times> 'a vfs_state_scheme) res" where
  "sys_lseek ops fd offset whence s =
     (case arch_get_task_context s of
        Inl e \<Rightarrow> Inl e
      | Inr (caller, s) \<Rightarrow>
          let node = fd_node (tasks s caller) fd s
          in if node = 0 then Inr (- EBADF, s)
             else case fs_lseek (ops (node_fs (nodes s node))) of
                    None \<Rightarrow> Inl Null_Dereference
                  | Some callback \<Rightarrow> callback node offset whence s)"

text \<open>
  The search for a free descriptor: the first empty entry up to and including \<open>fd_max\<close>, which is one
  entry behind the table; the one after it when all are taken.
\<close>

definition find_free_fd :: "mem64 \<Rightarrow> scheduler_task \<Rightarrow> u64" where
  "find_free_fd m t =
     (case find (\<lambda>i. m (fd_slot t (of_nat i)) = 0) [0..<Suc (unat (fd_max t))] of
        Some i \<Rightarrow> of_nat i
      | None \<Rightarrow> fd_max t + 1)"

fun place_node :: "nat \<Rightarrow> u64 \<Rightarrow> u64 \<Rightarrow> 'a sched_state_scheme \<Rightarrow> (u64 \<times> 'a sched_state_scheme) res" where
  "place_node 0 caller node s = Inl Diverges"
| "place_node (Suc fuel) caller node s =
     (let t = tasks s caller;
          fd = find_free_fd (memory s) t
      in if fd = fd_max t then
           let old_pages = fd_allocated_pages t;
               new_pages = old_pages + 1
           in (case page_reallocate (fd_translation t) old_pages new_pages s of
                 Inl e \<Rightarrow> Inl e
               | Inr (table, s) \<Rightarrow>
                   place_node fuel caller node
                     (upd_task caller (\<lambda>t. t\<lparr>fd_translation := table, fd_allocated_pages := new_pages + 1,
                        fd_max := fd_max t + PAGE div 8\<rparr>) s))
         else Inr (fd, upd_task caller (\<lambda>t. t\<lparr>fd_count := fd_count t + 1\<rparr>)
                        (s\<lparr>memory := (memory s)(fd_slot t fd := node)\<rparr>)))"

definition sys_open ::
  "nat \<Rightarrow> (u64 \<Rightarrow> 'a vfs_state_scheme vfs_fs_ops) \<Rightarrow> u64 \<Rightarrow> u64 \<Rightarrow> 'a vfs_state_scheme \<Rightarrow> (u64 \<times> 'a vfs_state_scheme) res" where
  "sys_open fuel ops path oflag s =
     (case arch_get_task_context s of
        Inl e \<Rightarrow> Inl e
      | Inr (caller, s) \<Rightarrow>
          if \<not> IS_USER_MEMORY path (tasks s caller) s then Inr (- EPERM, s)
          else (case vfs_open ops path oflag s of
                  Inl e \<Rightarrow> Inl e
                | Inr (node, s) \<Rightarrow> if is_error node then Inr (node, s) else place_node fuel caller node s))"

definition sys_close ::
  "(u64 \<Rightarrow> 'a vfs_state_scheme vfs_fs_ops) \<Rightarrow> u64 \<Rightarrow> 'a vfs_state_scheme \<Rightarrow> (u64 \<times> 'a vfs_state_scheme) res" where
  "sys_close ops fd s =
     (case arch_get_task_context s of
        Inl e \<Rightarrow> Inl e
      | Inr (caller, s) \<Rightarrow>
          let t = tasks s caller
          in if fd \<ge> fd_max t \<or> memory s (fd_slot t fd) = 0 then Inr (- EBADF, s)
             else (case vfs_close ops (memory s (fd_slot t fd)) s of
                     Inl e \<Rightarrow> Inl e
                   | Inr s \<Rightarrow>
                       let s = upd_task caller (\<lambda>t. t\<lparr>fd_count := fd_count t - 1\<rparr>) s
                       in Inr (0, s\<lparr>memory := (memory s)(fd_slot (tasks s caller) fd := 0)\<rparr>)))"

subsection \<open>Processes\<close>

text \<open>\<open>sys_exit\<close> never returns: the result is the state after the first of its yields, which go on for ever.\<close>

definition sys_exit :: "int \<Rightarrow> 'a sched_state_scheme \<Rightarrow> 'a sched_state_scheme res" where
  "sys_exit code s =
     (case arch_get_task_context s of
        Inl e \<Rightarrow> Inl e
      | Inr (caller, s) \<Rightarrow>
          Inr (task_scheduler_round_robin_yield
                (upd_task caller (\<lambda>t. t\<lparr>exit_code := code, run_mode := RUN_MODE_ZOMBIE\<rparr>) s)))"

definition sys_yield :: "'a sched_state_scheme \<Rightarrow> (u64 \<times> 'a sched_state_scheme) res" where
  "sys_yield s = Inr (0, task_scheduler_round_robin_yield s)"

text \<open>Whether a task descends from the caller, by the ids of the parents.\<close>

fun is_descendant :: "nat \<Rightarrow> u64 \<Rightarrow> u64 \<Rightarrow> 'a sched_state_scheme \<Rightarrow> (bool \<times> 'a sched_state_scheme) res" where
  "is_descendant 0 caller_id current s = Inl Diverges"
| "is_descendant (Suc fuel) caller_id current s =
     (if ppid (tasks s current) = caller_id then Inr (True, s)
      else (case task_scheduler_round_robin_get_pid (ppid (tasks s current)) s of
              Inl e \<Rightarrow> Inl e
            | Inr (parent, s) \<Rightarrow> if parent = 0 then Inr (False, s) else is_descendant fuel caller_id parent s))"

text \<open>A call either returns or waits for the task it refers to.\<close>

datatype 's wait_outcome = Returned u64 's | Waiting u64 's

text \<open>The turn of the waiting loop: the exit code is stored at the caller's pointer as a four-byte integer.\<close>

definition waitpid_resume ::
  "u64 \<Rightarrow> u64 \<Rightarrow> u64 \<Rightarrow> 'a sched_state_scheme \<Rightarrow> 'a sched_state_scheme wait_outcome" where
  "waitpid_resume refered_task pid stat_loc s =
     (if run_mode (tasks s refered_task) \<noteq> RUN_MODE_ZOMBIE then Waiting refered_task (task_scheduler_round_robin_yield s)
      else let to_return = word_of_int (exit_code (tasks s refered_task)) AND 0xFF :: u8
           in Returned pid (s\<lparr>heap_bytes := (heap_bytes s)(stat_loc := to_return, stat_loc + 1 := 0,
                  stat_loc + 2 := 0, stat_loc + 3 := 0)\<rparr>))"

definition sys_waitpid ::
  "nat \<Rightarrow> u64 \<Rightarrow> u64 \<Rightarrow> 'a sched_state_scheme \<Rightarrow> 'a sched_state_scheme wait_outcome res" where
  "sys_waitpid fuel pid stat_loc s =
     (case task_scheduler_round_robin_get_pid pid s of
        Inl e \<Rightarrow> Inl e
      | Inr (refered_task, s) \<Rightarrow>
     case arch_get_task_context s of
        Inl e \<Rightarrow> Inl e
      | Inr (caller, s) \<Rightarrow>
     if pid <s 0 \<or> refered_task = 0 \<or> is_waited (tasks s refered_task) then Inr (Returned (- ECHILD) s)
     else if \<not> IS_USER_MEMORY stat_loc (tasks s caller) s then Inr (Returned (- EFAULT) s)
     else case is_descendant fuel (task_id (tasks s caller)) refered_task s of
        Inl e \<Rightarrow> Inl e
      | Inr (is_child, s) \<Rightarrow>
     if \<not> is_child \<or> is_waited (tasks s refered_task) then Inr (Returned (- ECHILD) s)
     else let s = upd_task refered_task (\<lambda>t. t\<lparr>is_waited := True\<rparr>) s
          in Inr (waitpid_resume refered_task pid stat_loc s))"

subsection \<open>Fork\<close>

text \<open>The higher half of a new table is that of the kernel's.\<close>

definition share_higher_half :: "u64 \<Rightarrow> u64 \<Rightarrow> mem64 \<Rightarrow> mem64" where
  "share_higher_half table bootstrap m =
     fold (\<lambda>i m. m(table + 8 * of_nat i := m (bootstrap + 8 * of_nat i))) [0x100..<0x200] m"

text \<open>One present page of the parent: copied to a new page, which is mapped at the same place with the same flags.\<close>

definition clone_page :: "u64 \<Rightarrow> u64 \<Rightarrow> u64 \<Rightarrow> 'a page_state_scheme \<Rightarrow> 'a page_state_scheme res" where
  "clone_page child_pt e4 virtual_address s =
     (let parent_page = arch_table_manager_get_address e4 + kernel_hhdm_offset s
      in case page_allocate 1 s of
           Inl e \<Rightarrow> Inl e
         | Inr (child_page, s) \<Rightarrow>
             arch_table_manager_map child_pt virtual_address (child_page - kernel_hhdm_offset s)
               (e4 AND 0xFFF0000000000FFF) (s\<lparr>memory := memcpy64 (memory s) child_page parent_page PAGE\<rparr>))"

text \<open>
  The entries of a table from a layer on: a present entry is followed to the layer behind it, at the last
  layer the page is cloned. The index of the entry is shifted into the virtual address.
\<close>

fun clone_layer :: "nat \<Rightarrow> u64 \<Rightarrow> u64 \<Rightarrow> nat \<Rightarrow> u64 \<Rightarrow> 'a page_state_scheme \<Rightarrow> 'a page_state_scheme res" where
  "clone_layer 0 child_pt layer count virtual_address s =
     for_range (\<lambda>i s. let e = memory s (layer + 8 * of_nat i)
                       in if e AND TABLE_ENTRY_PRESENT \<noteq> 0
                          then clone_page child_pt e (push_bit 12 (of_nat i) OR virtual_address) s else Inr s) [0..<count] s"
| "clone_layer (Suc level) child_pt layer count virtual_address s =
     for_range (\<lambda>i s. let e = memory s (layer + 8 * of_nat i)
                       in if e AND TABLE_ENTRY_PRESENT \<noteq> 0
                          then clone_layer level child_pt (arch_table_manager_get_address e + kernel_hhdm_offset s) 0x200
                                 (push_bit (12 + 9 * Suc level) (of_nat i) OR virtual_address) s
                          else Inr s) [0..<count] s"

text \<open>The page table of the child: the kernel's higher half and a copy of every page of the parent.\<close>

definition clone_address_space :: "u64 \<Rightarrow> 'a pt_state_scheme \<Rightarrow> (u64 \<times> 'a pt_state_scheme) res" where
  "clone_address_space parent_pt s =
     (case arch_table_manager_new s of
        Inl e \<Rightarrow> Inl e
      | Inr (child_pt, s) \<Rightarrow>
     let s = s\<lparr>memory := share_higher_half child_pt (arch_bootstrap_page_table s) (memory s)\<rparr>
     in case clone_layer 3 child_pt parent_pt 0x100 0 s of
        Inl e \<Rightarrow> Inl e
      | Inr s \<Rightarrow> Inr (child_pt, s))"

definition fork_registers :: "arch_cpu_state \<Rightarrow> u64 \<Rightarrow> arch_cpu_state" where
  "fork_registers st userspace_stack =
     st\<lparr>reg_rsp := userspace_stack, reg_rip := reg_rcx st, reg_rflags := reg_r11 st OR 0x200,
        reg_rax := 0, reg_rcx := 0, reg_r11 := 0, reg_cs := 8 * 4 OR 3, reg_ss := 8 * 3 OR 3\<rparr>"

text \<open>The open files of the parent, duplicated one by one into the child's table.\<close>

definition duplicate_fds ::
  "(u64 \<Rightarrow> 'a vfs_state_scheme vfs_fs_ops) \<Rightarrow> u64 \<Rightarrow> u64 \<Rightarrow> 'a vfs_state_scheme \<Rightarrow> 'a vfs_state_scheme res" where
  "duplicate_fds ops parent child s =
     for_range (\<lambda>i s. let node = memory s (fd_slot (tasks s parent) (of_nat i))
                       in if node = 0 then Inr s
                          else (case vfs_dup ops node s of
                                  Inl e \<Rightarrow> Inl e
                                | Inr (copy, s) \<Rightarrow>
                                    Inr (s\<lparr>memory := (memory s)(fd_slot (tasks s child) (of_nat i) := copy)\<rparr>)))
       [0..<unat (fd_count (tasks s child))] s"

definition sys_fork ::
  "(u64 \<Rightarrow> 'a vfs_state_scheme vfs_fs_ops) \<Rightarrow> arch_cpu_state \<Rightarrow> 'a vfs_state_scheme \<Rightarrow> (u64 \<times> 'a vfs_state_scheme) res" where
  "sys_fork ops st s =
     (case arch_get_task_context s of
        Inl e \<Rightarrow> Inl e
      | Inr (parent, s) \<Rightarrow>
     case strlen (heap_bytes s) (task_name (tasks s parent)) of
        None \<Rightarrow> Inl Diverges
      | Some n \<Rightarrow>
     case task_scheduler_round_robin_create (bytes_at (heap_bytes s) (task_name (tasks s parent)) (unat n)) s of
        Inl e \<Rightarrow> Inl e
      | Inr (child, s) \<Rightarrow>
     let s = upd_task child (\<lambda>t. t\<lparr>simd_state := simd_regs s, ppid := task_id (tasks s parent),
               task_state := fork_registers st (userspace_stack_top (tasks s parent))\<rparr>) s
     in case clone_address_space (reg_cr3 st + kernel_hhdm_offset s) s of
        Inl e \<Rightarrow> Inl e
      | Inr (child_pt, s) \<Rightarrow>
     let p = tasks s parent;
         s = upd_task child (\<lambda>t. t\<lparr>task_state := (task_state t)\<lparr>reg_cr3 := child_pt - kernel_hhdm_offset s\<rparr>,
               fd_count := fd_count p, fd_max := fd_max p, fd_allocated_pages := fd_allocated_pages p\<rparr>) s
     in case page_allocate (fd_allocated_pages (tasks s child)) s of
        Inl e \<Rightarrow> Inl e
      | Inr (fds, s) \<Rightarrow>
     case duplicate_fds ops parent child (upd_task child (\<lambda>t. t\<lparr>fd_translation := fds\<rparr>) s) of
        Inl e \<Rightarrow> Inl e
      | Inr s \<Rightarrow>
          let s = upd_task child (\<lambda>t. t\<lparr>task_empty := False\<rparr>) s
          in Inr (task_id (tasks s child), s))"

end
