(* ===== verification/Round_Robin_Correct.thy ===== *)
theory Round_Robin_Correct
  imports Round_Robin
begin

text \<open>
  Correctness of the round-robin scheduler: the contract of a run queue as a locale and its
  interpretation on the linked queue of the code, the choice of the next task, the invariant of
  the processor's GS bases, the search for a task by id and for the least busy processor.
\<close>

subsection \<open>What a run queue promises\<close>

text \<open>Repeated pops, as the scheduler makes them at every tick.\<close>

fun pop_many :: "('s \<Rightarrow> (u64 \<times> 's) res) \<Rightarrow> nat \<Rightarrow> 's \<Rightarrow> (u64 list \<times> 's) res" where
  "pop_many pop 0 s = Inr ([], s)"
| "pop_many pop (Suc n) s =
     (case pop s of
        Inl e \<Rightarrow> Inl e
      | Inr (x, s1) \<Rightarrow>
          (case pop_many pop n s1 of
             Inl e \<Rightarrow> Inl e
           | Inr (xs, s2) \<Rightarrow> Inr (x # xs, s2)))"

locale run_queue =
  fixes rep :: "'s \<Rightarrow> u64 list \<Rightarrow> bool"
    and new_task :: "'s \<Rightarrow> u64 \<Rightarrow> bool"
    and pop :: "'s \<Rightarrow> (u64 \<times> 's) res"
    and push :: "u64 \<Rightarrow> 's \<Rightarrow> 's res"
  assumes pop_rotates: "rep s (x # xs) \<Longrightarrow> \<exists>s'. pop s = Inr (x, s') \<and> rep s' (xs @ [x])"
    and push_appends: "rep s xs \<Longrightarrow> new_task s x \<Longrightarrow> x \<notin> set xs \<Longrightarrow> \<exists>s'. push x s = Inr s' \<and> rep s' (xs @ [x])"
    and rep_distinct: "rep s xs \<Longrightarrow> distinct xs"
begin

lemma pop_many_round_robin:
  "rep s xs \<Longrightarrow> xs \<noteq> [] \<Longrightarrow>
     \<exists>s'. pop_many pop n s = Inr (map (\<lambda>i. xs ! (i mod length xs)) [0..<n], s') \<and> rep s' (rotate n xs)"
proof (induction n arbitrary: s xs)
  case 0
  then show ?case by simp
next
  case (Suc n)
  obtain x ys where xs: "xs = x # ys" using Suc.prems(2) by (cases xs) auto
  obtain s1 where p: "pop s = Inr (x, s1)" and r1: "rep s1 (ys @ [x])"
    using pop_rotates Suc.prems(1) xs by blast
  obtain s2 where m: "pop_many pop n s1 = Inr (map (\<lambda>i. (ys @ [x]) ! (i mod length (ys @ [x]))) [0..<n], s2)"
    and r2: "rep s2 (rotate n (ys @ [x]))"
    using Suc.IH [OF r1] by auto
  have "(ys @ [x]) ! (i mod length (ys @ [x])) = xs ! (Suc i mod length xs)" for i
  proof -
    have "i mod Suc (length ys) < Suc (length ys)" by simp
    then show ?thesis by (auto simp: xs mod_Suc nth_append less_Suc_eq)
  qed
  then have "x # map (\<lambda>i. (ys @ [x]) ! (i mod length (ys @ [x]))) [0..<n] = map (\<lambda>i. xs ! (i mod length xs)) [0..<Suc n]"
    by (simp add: upt_conv_Cons map_Suc_upt [symmetric] xs del: upt_Suc)
  moreover have "rotate n (ys @ [x]) = rotate (Suc n) xs"
    by (metis rotate1.simps(2) rotate1_rotate_swap rotate_Suc xs)
  ultimately show ?case using p m r2 by auto
qed

text \<open>One full round serves every task exactly once and leaves the queue as it was.\<close>

lemma full_round:
  assumes "rep s xs" "xs \<noteq> []"
  shows "\<exists>s'. pop_many pop (length xs) s = Inr (xs, s') \<and> rep s' xs"
proof -
  have "map (\<lambda>i. xs ! (i mod length xs)) [0..<length xs] = xs"
    by (rule nth_equalityI) simp_all
  then show ?thesis using pop_many_round_robin [OF assms, of "length xs"] by simp
qed

end

subsection \<open>The linked queue\<close>

fun chain :: "task_store \<Rightarrow> u64 list \<Rightarrow> bool" where
  "chain t [] \<longleftrightarrow> True"
| "chain t [x] \<longleftrightarrow> True"
| "chain t (x # y # zs) \<longleftrightarrow> task_next (t x) = y \<and> chain t (y # zs)"

lemma chain_cong:
  "(\<And>x. x \<in> set (butlast xs) \<Longrightarrow> task_next (t' x) = task_next (t x)) \<Longrightarrow> chain t' xs = chain t xs"
  by (induction xs rule: chain.induct) auto

lemma chain_snoc: "chain t (xs @ [x]) \<longleftrightarrow> chain t xs \<and> (xs = [] \<or> task_next (t (last xs)) = x)"
  by (induction xs rule: chain.induct) auto

text \<open>
  The queue of a context holds the given tasks in this order, from \<open>head\<close> to \<open>last\<close>. The last
  task points nowhere or back to the head; the current one is a task of the queue.
\<close>

definition queue_rep :: "u64 \<Rightarrow> 'a sched_state_scheme \<Rightarrow> u64 list \<Rightarrow> bool" where
  "queue_rep c s xs \<longleftrightarrow>
     (let q = queue_of s c
      in queue_lock q = 0 \<and> unat (queue_count q) = length xs \<and> distinct xs \<and> 0 \<notin> set xs \<and>
         chain (tasks s) xs \<and>
         (xs \<noteq> [] \<longrightarrow> queue_head q = hd xs \<and> queue_last q = last xs \<and> queue_current q \<in> set xs \<and>
            task_next (tasks s (last xs)) \<in> {0, hd xs}))"

definition fresh_task :: "u64 \<Rightarrow> 'a sched_state_scheme \<Rightarrow> u64 \<Rightarrow> bool" where
  "fresh_task c s x \<longleftrightarrow> x \<noteq> 0 \<and> task_next (tasks s x) = 0 \<and> queue_count (queue_of s c) \<noteq> 0xFFFFFFFFFFFFFFFF"

lemma set_queue_simps [simp]:
  "queue_of (set_queue c q s) d = (if d = c then q else queue_of s d)"
  "tasks (set_queue c q s) = tasks s"
  by (simp_all add: queue_of_def set_queue_def)

lemma queue_of_tasks [simp]: "queue_of (s\<lparr>tasks := t\<rparr>) c = queue_of s c"
  by (simp add: queue_of_def)

lemma set_task_next_simps [simp]:
  "task_next (set_task_next t a v x) = (if x = a then v else task_next (t x))"
  by (simp add: set_task_next_def)

text \<open>Queue operations change links of tasks and nothing else of them.\<close>

definition only_links :: "task_store \<Rightarrow> task_store \<Rightarrow> bool" where
  "only_links t t' \<longleftrightarrow> (\<forall>y. \<exists>n p. t' y = (t y)\<lparr>task_next := n, parent_queue := p\<rparr>)"

lemma only_links_refl [simp]: "only_links t t"
proof -
  have "t y = (t y)\<lparr>task_next := task_next (t y), parent_queue := parent_queue (t y)\<rparr>" for y by simp
  then show ?thesis unfolding only_links_def by blast
qed

lemma only_links_fields:
  assumes "only_links t t'"
  shows "task_empty (t' y) = task_empty (t y)" "run_mode (t' y) = run_mode (t y)" "task_id (t' y) = task_id (t y)"
    "task_state (t' y) = task_state (t y)" "simd_state (t' y) = simd_state (t y)"
proof -
  obtain n p where e: "t' y = (t y)\<lparr>task_next := n, parent_queue := p\<rparr>"
    using assms unfolding only_links_def by blast
  show "task_empty (t' y) = task_empty (t y)" "run_mode (t' y) = run_mode (t y)" "task_id (t' y) = task_id (t y)"
    "task_state (t' y) = task_state (t y)" "simd_state (t' y) = simd_state (t y)"
    by (simp_all add: e)
qed

lemma only_links_trans:
  assumes "only_links t t1" "only_links t1 t2"
  shows "only_links t t2"
  unfolding only_links_def
proof
  fix y
  obtain n1 p1 n2 p2 where e: "t1 y = (t y)\<lparr>task_next := n1, parent_queue := p1\<rparr>"
    "t2 y = (t1 y)\<lparr>task_next := n2, parent_queue := p2\<rparr>"
    using assms unfolding only_links_def by metis
  then have "t2 y = (t y)\<lparr>task_next := n2, parent_queue := p2\<rparr>" by simp
  then show "\<exists>n p. t2 y = (t y)\<lparr>task_next := n, parent_queue := p\<rparr>" by blast
qed

lemma only_links_set: "only_links t (set_task_next t a v)"
  unfolding only_links_def
proof
  fix y
  have "set_task_next t a v y = (t y)\<lparr>task_next := (if y = a then v else task_next (t y)), parent_queue := parent_queue (t y)\<rparr>"
    by (simp add: set_task_next_def)
  then show "\<exists>n p. set_task_next t a v y = (t y)\<lparr>task_next := n, parent_queue := p\<rparr>" by blast
qed

lemma queue_count_gt_1: "unat (n :: u64) = k \<Longrightarrow> n > 1 \<longleftrightarrow> k > 1" "unat (n :: u64) = k \<Longrightarrow> n > 0 \<longleftrightarrow> k > 0"
  by (auto simp: word_less_nat_alt)

lemma pop_rotates_queue:
  assumes rep: "queue_rep c s (x # xs)"
  shows "\<exists>q t. task_scheduler_round_robin_pop_from_queue c s = Inr (x, set_queue c q (s\<lparr>tasks := t\<rparr>)) \<and>
    queue_rep c (set_queue c q (s\<lparr>tasks := t\<rparr>)) (xs @ [x]) \<and> queue_current q = x \<and> only_links (tasks s) t"
proof -
  let ?q = "queue_of s c"
  have q: "queue_lock ?q = 0" "queue_head ?q = x" "queue_last ?q = last (x # xs)" "x \<noteq> 0"
    "unat (queue_count ?q) = Suc (length xs)" "distinct (x # xs)" "0 \<notin> set (x # xs)" "chain (tasks s) (x # xs)"
    "queue_current ?q \<in> set (x # xs)" "task_next (tasks s (last (x # xs))) \<in> {0, x}"
    using rep by (auto simp: queue_rep_def Let_def)
  show ?thesis
  proof (cases xs)
    case Nil
    let ?q' = "?q\<lparr>queue_lock := 0\<rparr>"
    have "task_scheduler_round_robin_pop_from_queue c s = Inr (x, set_queue c ?q' (s\<lparr>tasks := tasks s\<rparr>))"
      using q queue_count_gt_1(1) [OF q(5)] by (simp add: task_scheduler_round_robin_pop_from_queue_def Let_def Nil)
    moreover have "queue_rep c (set_queue c ?q' (s\<lparr>tasks := tasks s\<rparr>)) (xs @ [x])" "queue_current ?q' = x"
      using q by (simp_all add: queue_rep_def Nil)
    ultimately show ?thesis by (metis only_links_refl)
  next
    case (Cons y ys)
    let ?l = "last xs"
    have nx: "task_next (tasks s x) = y" using q(8) by (simp add: Cons)
    have ls: "?l \<in> set xs" by (simp add: Cons)
    then have l: "?l \<noteq> x" "?l \<noteq> 0" using q(6,7) by auto
    let ?t = "set_task_next (set_task_next (tasks s) ?l x) x y"
    let ?q' = "?q\<lparr>queue_head := y, queue_last := x, queue_current := x, queue_lock := 0\<rparr>"
    have pop: "task_scheduler_round_robin_pop_from_queue c s = Inr (x, set_queue c ?q' (s\<lparr>tasks := ?t\<rparr>))"
      using q(1-4) l nx queue_count_gt_1(1) [OF q(5)]
      by (simp add: task_scheduler_round_robin_pop_from_queue_def Let_def Cons)
    have "chain ?t xs = chain (tasks s) xs"
    proof (rule chain_cong)
      fix z assume z: "z \<in> set (butlast xs)"
      have "xs \<noteq> []" by (simp add: Cons)
      then have "distinct (butlast xs @ [last xs])" using q(6) by simp
      with z have "z \<noteq> ?l" "z \<noteq> x" using q(6) in_set_butlastD [OF z] by auto
      then show "task_next (?t z) = task_next (tasks s z)" by simp
    qed
    moreover have "chain (tasks s) xs" using q(8) by (simp add: Cons)
    ultimately have "chain ?t (xs @ [x])" unfolding chain_snoc using l by simp
    then have "queue_rep c (set_queue c ?q' (s\<lparr>tasks := ?t\<rparr>)) (xs @ [x])"
      using q(5-7) by (auto simp: queue_rep_def Cons)
    then show ?thesis
      using pop only_links_trans [OF only_links_set only_links_set] by (intro exI conjI) auto
  qed
qed

lemma push_appends_queue:
  assumes rep: "queue_rep c s xs" and f: "fresh_task c s x" and x: "x \<notin> set xs"
  obtains s' where "task_scheduler_round_robin_push_to_queue c x s = Inr s'" "queue_rep c s' (xs @ [x])"
    "\<And>d. d \<noteq> c \<Longrightarrow> queue_of s' d = queue_of s d"
    "\<And>y. y \<notin> set xs \<Longrightarrow> task_next (tasks s' y) = task_next (tasks s y)"
proof -
  let ?q = "queue_of s c"
  have q: "queue_lock ?q = 0" "unat (queue_count ?q) = length xs" "distinct xs" "0 \<notin> set xs" "chain (tasks s) xs"
    and fx: "x \<noteq> 0" "task_next (tasks s x) = 0" "queue_count ?q \<noteq> 0xFFFFFFFFFFFFFFFF"
    using rep f by (auto simp: queue_rep_def Let_def fresh_task_def)
  have "unat (queue_count ?q) \<noteq> unat (0xFFFFFFFFFFFFFFFF :: u64)" using fx(3) by (simp only: u64_eq_unat_iff) simp
  then have cnt: "unat (queue_count ?q + 1) = Suc (length xs)"
    using q(2) unat_less_2p64 [of "queue_count ?q"] by (subst unat_plus_exact) simp_all
  let ?t = "(tasks s)(x := (tasks s x)\<lparr>parent_queue := c\<rparr>)"
  show thesis
  proof (cases "xs = []")
    case True
    let ?s = "set_queue c (?q\<lparr>queue_lock := 0, queue_count := queue_count ?q + 1, queue_current := x,
                queue_head := x, queue_last := x\<rparr>) (s\<lparr>tasks := ?t\<rparr>)"
    have push: "task_scheduler_round_robin_push_to_queue c x s = Inr ?s"
      using q True queue_count_gt_1(2) [OF q(2)] by (simp add: task_scheduler_round_robin_push_to_queue_def Let_def)
    have "queue_rep c ?s (xs @ [x])" using True fx cnt by (simp add: queue_rep_def)
    then show thesis by (rule that [OF push]) auto
  next
    case False
    have ql: "queue_last ?q = last xs" "queue_head ?q = hd xs" "queue_current ?q \<in> set xs"
      using rep False by (auto simp: queue_rep_def Let_def)
    have "last xs \<in> set xs" using False by simp
    then have lx: "last xs \<in> set xs" "last xs \<noteq> x" "last xs \<noteq> 0" using x q(4) by metis+
    let ?t2 = "set_task_next ?t (last xs) x"
    let ?s = "set_queue c (?q\<lparr>queue_lock := 0, queue_count := queue_count ?q + 1, queue_last := x\<rparr>) (s\<lparr>tasks := ?t2\<rparr>)"
    have push: "task_scheduler_round_robin_push_to_queue c x s = Inr ?s"
      using q ql lx False queue_count_gt_1(2) [OF q(2)] by (simp add: task_scheduler_round_robin_push_to_queue_def Let_def)
    have "chain ?t2 xs = chain (tasks s) xs"
    proof (rule chain_cong)
      fix z assume "z \<in> set (butlast xs)"
      moreover have "distinct (butlast xs @ [last xs])" using q(3) False by simp
      ultimately show "task_next (?t2 z) = task_next (tasks s z)" using x by (auto dest: in_set_butlastD)
    qed
    then have "queue_rep c ?s (xs @ [x])"
      using q ql lx False fx cnt x by (auto simp: queue_rep_def Let_def chain_snoc)
    then show thesis by (rule that [OF push]) (use lx in auto)
  qed
qed

interpretation rq: run_queue "queue_rep c" "fresh_task c"
  "task_scheduler_round_robin_pop_from_queue c" "task_scheduler_round_robin_push_to_queue c" for c
proof
  fix s :: "'a sched_state_scheme" and x xs
  show "\<exists>s'. task_scheduler_round_robin_pop_from_queue c s = Inr (x, s') \<and> queue_rep c s' (xs @ [x])"
    if "queue_rep c s (x # xs)" using pop_rotates_queue [OF that] by blast
  show "\<exists>s'. task_scheduler_round_robin_push_to_queue c x s = Inr s' \<and> queue_rep c s' (xs @ [x])"
    if "queue_rep c s xs" "fresh_task c s x" "x \<notin> set xs" using push_appends_queue [OF that] by metis
  show "distinct xs" if "queue_rep c s xs" using that by (simp add: queue_rep_def Let_def)
qed

subsection \<open>Choosing the next task\<close>

lemma runnable_only_links: "only_links t t' \<Longrightarrow> runnable (t' y) = runnable (t y)"
  by (simp add: runnable_def only_links_fields)

text \<open>
  The search for a task that can run ends after at most one round when there is one, and it
  is the first such task in queue order.
\<close>

lemma pop_runnable_first:
  assumes "queue_rep c s (xs @ y # ys)" "runnable (tasks s y)" "\<forall>x \<in> set xs. \<not> runnable (tasks s x)"
    and "length xs < fuel"
  shows "\<exists>q t. pop_runnable fuel c s = Inr (y, set_queue c q (s\<lparr>tasks := t\<rparr>)) \<and>
    queue_rep c (set_queue c q (s\<lparr>tasks := t\<rparr>)) (ys @ xs @ [y]) \<and> queue_current q = y \<and> only_links (tasks s) t"
  using assms
proof (induction xs arbitrary: s ys fuel)
  case Nil
  then obtain f where f: "fuel = Suc f" by (cases fuel) auto
  obtain q t where "task_scheduler_round_robin_pop_from_queue c s = Inr (y, set_queue c q (s\<lparr>tasks := t\<rparr>))"
    "queue_rep c (set_queue c q (s\<lparr>tasks := t\<rparr>)) (ys @ [y])" "queue_current q = y" "only_links (tasks s) t"
    using pop_rotates_queue [of c s y ys] Nil.prems(1) by auto
  then show ?case using Nil.prems(2) by (auto simp: f runnable_only_links)
next
  case (Cons x xs)
  then obtain f where f: "fuel = Suc f" "length xs < f" by (cases fuel) auto
  obtain q t where p: "task_scheduler_round_robin_pop_from_queue c s = Inr (x, set_queue c q (s\<lparr>tasks := t\<rparr>))"
    "queue_rep c (set_queue c q (s\<lparr>tasks := t\<rparr>)) ((xs @ y # ys) @ [x])" "only_links (tasks s) t"
    using pop_rotates_queue [of c s x "xs @ y # ys"] Cons.prems(1) by auto
  let ?s = "set_queue c q (s\<lparr>tasks := t\<rparr>)"
  have r: "runnable (tasks ?s z) = runnable (tasks s z)" for z using runnable_only_links [OF p(3)] by simp
  obtain q' t' where h: "pop_runnable f c ?s = Inr (y, set_queue c q' (?s\<lparr>tasks := t'\<rparr>))"
    "queue_rep c (set_queue c q' (?s\<lparr>tasks := t'\<rparr>)) ((ys @ [x]) @ xs @ [y])" "queue_current q' = y" "only_links (tasks ?s) t'"
    using Cons.IH [of ?s "ys @ [x]" f] p(2) Cons.prems(2,3) f(2) r by auto
  have eq: "set_queue c q' (?s\<lparr>tasks := t'\<rparr>) = set_queue c q' (s\<lparr>tasks := t'\<rparr>)" by (simp add: set_queue_def)
  have "only_links (tasks s) t'" using only_links_trans [OF p(3)] h(4) by simp
  moreover have "pop_runnable fuel c s = Inr (y, set_queue c q' (s\<lparr>tasks := t'\<rparr>))"
    using p(1) h(1) Cons.prems(3) r by (simp add: f(1) eq [symmetric] del: set_queue_simps)
  ultimately show ?case using h(2,3) unfolding eq by (intro exI conjI) auto
qed

subsection \<open>The processor's context\<close>

text \<open>
  One of the two GS bases is the processor's context, the other is null or a task; no task
  has the magic value as its id.
\<close>

definition gs_ok :: "'a sched_state_scheme \<Rightarrow> u64 \<Rightarrow> u64 \<Rightarrow> bool" where
  "gs_ok s k c \<longleftrightarrow>
     (\<exists>ctx. cpu_contexts s k = Some ctx \<and> context_type ctx = CONTEXT_TYPE_CPU \<and> scheduler_context_ptr ctx = c) \<and>
     k \<noteq> 0 \<and>
     (gs_base s = k \<or>
      gs_kernel_base s = k \<and>
      (gs_base s = 0 \<or> cpu_contexts s (gs_base s) = None \<and> task_id (tasks s (gs_base s)) \<noteq> CONTEXT_TYPE_CPU))"

lemma get_scheduler_context_ok:
  assumes "gs_ok s k c"
  obtains s' where "arch_get_scheduler_context s = Inr (c, s')" "gs_base s' = k"
    "s' = s\<lparr>gs_base := gs_base s', gs_kernel_base := gs_kernel_base s'\<rparr>"
proof (cases "gs_base s = k")
  case True
  then show thesis using assms
    by (intro that [of s]) (auto simp: gs_ok_def arch_get_scheduler_context_def arch_get_cpu_context_def context_word_def Let_def)
next
  case False
  then show thesis using assms
    by (intro that [of "swapgs s"])
       (auto simp: gs_ok_def arch_get_scheduler_context_def arch_get_cpu_context_def context_word_def swapgs_def Let_def)
qed

lemma install_task_context_ok:
  assumes "gs_ok s k c" "gs_base s = k"
  shows "arch_install_task_context task s = Inr (s\<lparr>gs_base := task, gs_kernel_base := k\<rparr>)"
  using assms by (auto simp: gs_ok_def arch_install_task_context_def arch_get_task_context_def context_word_def swapgs_def)

subsection \<open>Rescheduling\<close>

lemma queue_rep_cong:
  "queue_of s' c = queue_of s c \<Longrightarrow> (\<And>x. x \<in> set xs \<Longrightarrow> task_next (tasks s' x) = task_next (tasks s x)) \<Longrightarrow>
     queue_rep c s' xs = queue_rep c s xs"
proof -
  assume q: "queue_of s' c = queue_of s c" and t: "\<And>x. x \<in> set xs \<Longrightarrow> task_next (tasks s' x) = task_next (tasks s x)"
  have "chain (tasks s') xs = chain (tasks s) xs" using t by (intro chain_cong) (auto dest: in_set_butlastD)
  moreover have "xs \<noteq> [] \<Longrightarrow> task_next (tasks s' (last xs)) = task_next (tasks s (last xs))" using t by simp
  ultimately show ?thesis unfolding queue_rep_def q by (auto simp: Let_def)
qed

text \<open>The tasks of a queue are tasks to the processor: none is mistaken for its context.\<close>

definition queue_tasks_ok :: "'a sched_state_scheme \<Rightarrow> u64 list \<Rightarrow> bool" where
  "queue_tasks_ok s xs \<longleftrightarrow>
     (\<forall>x \<in> set xs. cpu_contexts s x = None \<and> task_id (tasks s x) \<noteq> CONTEXT_TYPE_CPU)"

lemma reschedule_ok:
  assumes gs: "gs_ok s k c" and rep: "queue_rep c s (xs @ y # ys)" and ok: "queue_tasks_ok s (xs @ y # ys)"
    and run: "runnable (tasks s y)" "\<forall>x \<in> set xs. \<not> runnable (tasks s x)" and fuel: "length xs < fuel"
  defines "cur \<equiv> queue_current (queue_of s c)"
  shows "\<exists>s'. task_scheduler_round_robin_reschedule fuel st s = Inr (y, s') \<and>
    gs_ok s' k c \<and> gs_base s' = y \<and> queue_rep c s' (ys @ xs @ [y]) \<and> queue_current (queue_of s' c) = y \<and>
    task_state (tasks s' cur) = st \<and> simd_state (tasks s' cur) = simd_regs s \<and>
    (\<forall>x. x \<noteq> cur \<longrightarrow> task_state (tasks s' x) = task_state (tasks s x) \<and> simd_state (tasks s' x) = simd_state (tasks s x)) \<and>
    cpu_state s' = task_state (tasks s' y) \<and> simd_regs s' = simd_state (tasks s' y) \<and>
    cr3 s' = reg_cr3 (task_state (tasks s' y)) \<and> one_shot_scheduled s' \<and> \<not> preemption_requested s'"
proof -
  obtain s0 where g: "arch_get_scheduler_context s = Inr (c, s0)" "gs_base s0 = k"
    "s0 = s\<lparr>gs_base := gs_base s0, gs_kernel_base := gs_kernel_base s0\<rparr>"
    using get_scheduler_context_ok [OF gs] .
  have f0: "tasks s0 = tasks s" "queue_of s0 = queue_of s" "simd_regs s0 = simd_regs s" "cpu_contexts s0 = cpu_contexts s"
    by (subst g(3), simp add: queue_of_def fun_eq_iff)+
  have q: "queue_lock (queue_of s c) = 0" "cur \<in> set (xs @ y # ys)" "0 \<notin> set (xs @ y # ys)"
    using rep by (auto simp: queue_rep_def Let_def cur_def)
  then have cur: "cur \<noteq> 0" by metis
  let ?t1 = "(tasks s)(cur := (tasks s cur)\<lparr>simd_state := simd_regs s, task_state := st\<rparr>)"
  let ?s1 = "s0\<lparr>tasks := ?t1\<rparr>"
  have rep1: "queue_rep c ?s1 (xs @ y # ys)"
    using rep by (subst queue_rep_cong [of _ _ s]) (simp_all add: f0)
  have run1: "runnable (tasks ?s1 x) = runnable (tasks s x)" for x by (simp add: runnable_def)
  obtain q2 t2 where p: "pop_runnable fuel c ?s1 = Inr (y, set_queue c q2 (?s1\<lparr>tasks := t2\<rparr>))"
    "queue_rep c (set_queue c q2 (?s1\<lparr>tasks := t2\<rparr>)) (ys @ xs @ [y])" "queue_current q2 = y" "only_links (tasks ?s1) t2"
    using pop_runnable_first [OF rep1 _ _ fuel] run run1 by auto
  let ?s2 = "set_queue c q2 (?s1\<lparr>tasks := t2\<rparr>)"
  have f2: "gs_base ?s2 = k" "cpu_contexts ?s2 = cpu_contexts s" by (simp_all add: set_queue_def g(2) f0)
  then have gs2: "gs_ok ?s2 k c" using gs by (simp add: gs_ok_def)
  let ?s3 = "?s2\<lparr>gs_base := y, gs_kernel_base := k\<rparr>"
  let ?s4 = "arch_switch_state y ?s3"
  have ret: "task_scheduler_round_robin_reschedule fuel st s = Inr (y, ?s4)"
    unfolding task_scheduler_round_robin_reschedule_def
    using g(1) q(1) cur p(1) install_task_context_ok [OF gs2 f2(1)] by (simp add: f0 cur_def [symmetric])
  have t4: "tasks ?s4 = t2" by (simp add: arch_switch_state_def)
  have rep4: "queue_rep c ?s4 (ys @ xs @ [y])"
    using p(2) by (subst queue_rep_cong [of _ _ ?s2]) (simp_all add: arch_switch_state_def queue_of_def)
  note fl = only_links_fields [OF p(4)]
  have st4: "task_state (t2 x) = (if x = cur then st else task_state (tasks s x))"
    "simd_state (t2 x) = (if x = cur then simd_regs s else simd_state (tasks s x))" for x
    by (simp_all add: fl)
  have idy: "task_id (t2 y) \<noteq> CONTEXT_TYPE_CPU" "cpu_contexts s y = None"
    using ok by (auto simp: queue_tasks_ok_def fl)
  have gs4: "gs_ok ?s4 k c"
    using gs2 idy f2 by (auto simp: gs_ok_def arch_switch_state_def set_queue_def)
  show ?thesis
    using ret gs4 rep4 p(3) st4 by (simp add: t4) (simp add: arch_switch_state_def set_queue_def queue_of_def)
qed

subsection \<open>Finding a task\<close>

text \<open>The contexts from the last installed one back to the first.\<close>

fun context_chain :: "(u64 \<Rightarrow> scheduler_context) \<Rightarrow> u64 list \<Rightarrow> bool" where
  "context_chain cs [] \<longleftrightarrow> False"
| "context_chain cs [c] \<longleftrightarrow> c \<noteq> 0 \<and> context_previous (cs c) = 0"
| "context_chain cs (c # d # ds) \<longleftrightarrow> c \<noteq> 0 \<and> context_previous (cs c) = d \<and> context_chain cs (d # ds)"

lemma context_chain_nonzero: "context_chain cs ds \<Longrightarrow> c \<in> set ds \<Longrightarrow> c \<noteq> 0"
  by (induction cs ds rule: context_chain.induct) auto

definition first_with :: "(u64 \<Rightarrow> bool) \<Rightarrow> u64 list \<Rightarrow> u64" where
  "first_with P xs = (case find P xs of None \<Rightarrow> 0 | Some x \<Rightarrow> x)"

lemma first_with_simps [simp]:
  "first_with P [] = 0" "first_with P (x # xs) = (if P x then x else first_with P xs)"
  by (simp_all add: first_with_def)

lemma first_with_in: "first_with P xs \<noteq> 0 \<Longrightarrow> first_with P xs \<in> set xs"
  by (induction xs) (auto split: if_splits)

lemma first_with_append:
  "0 \<notin> set xs \<Longrightarrow> first_with P (xs @ ys) = (if first_with P xs \<noteq> 0 then first_with P xs else first_with P ys)"
  by (induction xs) auto

lemma find_in_queue_eq:
  "chain t (x # xs) \<Longrightarrow> 0 \<notin> set xs \<Longrightarrow> h0 \<notin> set xs \<Longrightarrow> task_next (t (last (x # xs))) \<in> {0, h0} \<Longrightarrow>
     find_in_queue t pid h0 x = Some (first_with (\<lambda>y. task_id (t y) = pid) (x # xs))"
proof (induction xs arbitrary: x)
  case Nil
  then show ?case by (subst find_in_queue.simps) auto
next
  case (Cons y ys)
  have "find_in_queue t pid h0 y = Some (first_with (\<lambda>y. task_id (t y) = pid) (y # ys))"
    using Cons.prems by (intro Cons.IH) auto
  then show ?case using Cons.prems by (subst find_in_queue.simps) auto
qed

lemma find_in_queue_rep:
  assumes "queue_rep c s xs" "xs \<noteq> []"
  defines "h \<equiv> queue_head (queue_of s c)"
  shows "find_in_queue (tasks s) pid h h = Some (first_with (\<lambda>y. task_id (tasks s y) = pid) xs)"
proof -
  obtain x ys where xs: "xs = x # ys" using assms(2) by (cases xs) auto
  have h: "h = x" using assms(1,2) by (simp add: queue_rep_def Let_def h_def xs)
  show ?thesis using assms(1) unfolding xs h
    by (intro find_in_queue_eq) (auto simp: queue_rep_def Let_def)
qed

lemma queue_rep_head:
  assumes "queue_rep c s xs" "xs \<noteq> []"
  shows "queue_lock (running (contexts s c)) = 0" "queue_head (running (contexts s c)) \<noteq> 0" "0 \<notin> set xs"
proof -
  have q: "queue_lock (queue_of s c) = 0" "queue_head (queue_of s c) = hd xs" "0 \<notin> set xs"
    using assms by (auto simp: queue_rep_def Let_def)
  then show "queue_lock (running (contexts s c)) = 0" "queue_head (running (contexts s c)) \<noteq> 0" "0 \<notin> set xs"
    using hd_in_set [OF assms(2)] by (auto simp: queue_of_def)
qed

lemma find_in_contexts_eq:
  assumes "context_chain (contexts s) ds" "start \<notin> set (tl ds)"
    and "list_all2 (\<lambda>d xs. queue_rep d s xs \<and> xs \<noteq> []) ds xss"
  shows "find_in_contexts (contexts s) (tasks s) pid start (hd ds) =
           Some (Inr (first_with (\<lambda>y. task_id (tasks s y) = pid) (concat xss)))"
  using assms
proof (induction "contexts s" ds arbitrary: xss rule: context_chain.induct)
  case 1
  then show ?case by simp
next
  case (2 c)
  then obtain xs where xss: "xss = [xs]" and r: "queue_rep c s xs" "xs \<noteq> []"
    by (auto simp: list_all2_Cons1)
  note q = queue_rep_head [OF r]
  show ?case using 2 q find_in_queue_rep [OF r, of pid]
    by (subst find_in_contexts.simps) (simp add: xss queue_of_def)
next
  case (3 c d ds)
  then obtain xs yss where xss: "xss = xs # yss" and r: "queue_rep c s xs" "xs \<noteq> []"
    and l: "list_all2 (\<lambda>d xs. queue_rep d s xs \<and> xs \<noteq> []) (d # ds) yss"
    by (auto simp: list_all2_Cons1)
  note q = queue_rep_head [OF r]
  have d: "d \<noteq> 0" "d \<noteq> start" using 3 context_chain_nonzero [of "contexts s" "d # ds" d] by auto
  have IH: "find_in_contexts (contexts s) (tasks s) pid start d =
      Some (Inr (first_with (\<lambda>y. task_id (tasks s y) = pid) (concat yss)))"
    using 3 l by auto
  show ?case using 3 q d IH find_in_queue_rep [OF r, of pid]
    by (subst find_in_contexts.simps) (auto simp: xss queue_of_def first_with_append)
qed

lemma get_pid_eq:
  assumes "context_chain (contexts s) ds" "distinct ds" "hd ds = last_context s" "last_context_lock s = 0"
    and "list_all2 (\<lambda>d xs. queue_rep d s xs \<and> xs \<noteq> []) ds xss" "pid \<noteq> 0"
  shows "task_scheduler_round_robin_get_pid pid s =
    Inr (case find (\<lambda>x. task_id (tasks s x) = pid) (concat xss) of None \<Rightarrow> 0 | Some x \<Rightarrow> x, s)"
proof -
  have "last_context s \<notin> set (tl ds)" using assms(1,2,3) by (cases ds) auto
  then have "find_in_contexts (contexts s) (tasks s) pid (last_context s) (last_context s) =
      Some (Inr (first_with (\<lambda>y. task_id (tasks s y) = pid) (concat xss)))"
    using find_in_contexts_eq [OF assms(1) _ assms(5)] assms(3) by metis
  then show ?thesis using assms(4,6)
    by (simp add: task_scheduler_round_robin_get_pid_def first_with_def)
qed

subsection \<open>The least busy context\<close>

lemma least_busy_eq:
  "context_chain cs ds \<Longrightarrow>
     \<exists>r. least_busy cs m f (hd ds) = Some r \<and>
       (if \<exists>d \<in> set ds. queue_count (running (cs d)) < m
        then r \<in> set ds \<and> queue_count (running (cs r)) < m \<and> (\<forall>d \<in> set ds. queue_count (running (cs r)) \<le> queue_count (running (cs d)))
        else r = f)"
proof (induction cs ds arbitrary: m f rule: context_chain.induct)
  case (1 cs)
  then show ?case by simp
next
  case (2 cs c)
  then show ?case by (subst least_busy.simps) auto
next
  case (3 cs c d ds)
  let ?n = "\<lambda>d. queue_count (running (cs d))"
  have d: "d \<noteq> 0" using 3 context_chain_nonzero [of cs "d # ds" d] by auto
  show ?case
  proof (cases "?n c < m")
    case True
    obtain r where r: "least_busy cs (?n c) c d = Some r"
      "if \<exists>d \<in> set (d # ds). ?n d < ?n c then r \<in> set (d # ds) \<and> ?n r < ?n c \<and> (\<forall>e \<in> set (d # ds). ?n r \<le> ?n e) else r = c"
      using 3(1) [of "?n c" c] 3(2) by auto
    have "least_busy cs m f c = Some r" using 3(2) True d r(1) by (subst least_busy.simps) simp
    moreover have "r \<in> set (c # d # ds) \<and> ?n r < m \<and> (\<forall>e \<in> set (c # d # ds). ?n r \<le> ?n e)"
      using r(2) True by (auto split: if_splits simp: not_less)
    ultimately show ?thesis using True by auto
  next
    case False
    obtain r where r: "least_busy cs m f d = Some r"
      "if \<exists>d \<in> set (d # ds). ?n d < m then r \<in> set (d # ds) \<and> ?n r < m \<and> (\<forall>e \<in> set (d # ds). ?n r \<le> ?n e) else r = f"
      using 3(1) [of m f] 3(2) by auto
    have "least_busy cs m f c = Some r" using 3(2) False d r(1) by (subst least_busy.simps) simp
    then show ?thesis using r(2) False by (auto split: if_splits)
  qed
qed

subsection \<open>A small machine for the witnesses\<close>

text \<open>
  One processor with context \<open>0x4000\<close> and scheduler context \<open>0x1000\<close>; its queue holds the idle
  task \<open>0x2000\<close>, which runs, an empty task \<open>0x5000\<close> and a ready one \<open>0x3000\<close> with ids 0, 2 and 1.
\<close>

definition small_machine :: sched_state where
  "small_machine =
     \<lparr>memory = (\<lambda>_. 0), allocator_pools = [], page_allocator_lock = 0, kernel_hhdm_offset = 0,
      arch_bootstrap_page_table = 0, cr3 = 0,
      headers = (\<lambda>_. \<lparr>signature = 0, block_size = 0, block_next = 0, block_previous = 0\<rparr>),
      heap_bytes = (\<lambda>_. 0), block_free_list_start = 0, block_busy_list_start = 0,
      block_allocator_virtual_base = 0, block_allocator_current_virtual_address = 0, block_allocator_lock = 0,
      tasks = (\<lambda>_. zero_task)(0x2000 := zero_task\<lparr>task_next := 0x5000\<rparr>,
                0x5000 := zero_task\<lparr>task_id := 2, task_empty := True, task_next := 0x3000\<rparr>,
                0x3000 := zero_task\<lparr>task_id := 1, task_next := 0x2000, simd_state := [7],
                            task_state := zero_cpu_state\<lparr>reg_rip := 0x400000\<rparr>\<rparr>),
      contexts = (\<lambda>_. zero_context)(0x1000 := zero_context\<lparr>running :=
                   \<lparr>queue_current = 0x2000, queue_head = 0x5000, queue_last = 0x2000, queue_lock = 0, queue_count = 3\<rparr>\<rparr>),
      cpu_contexts = [0x4000 \<mapsto> \<lparr>context_type = CONTEXT_TYPE_CPU, cpu_id = 0, is_bsp = True, cpu_gdt = 0, scheduler_context_ptr = 0x1000\<rparr>],
      last_context = 0x1000, last_context_lock = 0, last_id = 2, last_id_lock = 0,
      gs_base = 0x2000, gs_kernel_base = 0x4000, cpu_state = zero_cpu_state, simd_regs = [9],
      interrupts_enabled = True, one_shot_scheduled = False, preemption_requested = False\<rparr>"

lemma small_machine_ok:
  "queue_rep 0x1000 small_machine [0x5000, 0x3000, 0x2000]" "gs_ok small_machine 0x4000 0x1000"
  "queue_tasks_ok small_machine [0x5000, 0x3000, 0x2000]" "context_chain (contexts small_machine) [0x1000]"
  by (simp_all add: queue_rep_def queue_of_def gs_ok_def queue_tasks_ok_def small_machine_def zero_context_def zero_task_def)

subsection \<open>The scheduler's guarantees\<close>

text \<open>
  (C19) Round robin: \<open>n\<close> pops serve the tasks of a queue in turn, the \<open>i\<close>-th pop the task at place
  \<open>i\<close> modulo the length of the queue, and leave the queue rotated by \<open>n\<close>. So among any
  \<open>length xs\<close> consecutive pops every task is served exactly once.
\<close>

theorem round_robin_fair:
  assumes "queue_rep c s xs" "xs \<noteq> []"
  shows "\<exists>s'. pop_many (task_scheduler_round_robin_pop_from_queue c) n s =
      Inr (map (\<lambda>i. xs ! (i mod length xs)) [0..<n], s') \<and> queue_rep c s' (rotate n xs)"
  using rq.pop_many_round_robin [OF assms] .

theorem round_robin_fair_witness:
  "\<exists>s'. pop_many (task_scheduler_round_robin_pop_from_queue 0x1000) 5 small_machine =
      Inr ([0x5000, 0x3000, 0x2000, 0x5000, 0x3000], s') \<and> queue_rep 0x1000 s' [0x2000, 0x5000, 0x3000]"
proof -
  have "[0..<5] = [0, 1, 2, 3, 4 :: nat]" by (simp add: upt_rec)
  moreover have "rotate 5 [0x5000, 0x3000, 0x2000] = [0x2000, 0x5000, 0x3000 :: u64]"
    by (simp add: rotate_drop_take)
  ultimately show ?thesis using round_robin_fair [OF small_machine_ok(1), of 5] by simp
qed

text \<open>
  (C11) \<open>task_scheduler_round_robin_reschedule\<close>: with a task of the queue ready to run, the tick ends,
  saves the interrupted registers in the current task and in no other, switches to the first
  ready task in queue order, loads its saved registers and its page table, arms the timer, and keeps the queue and
  the processor's GS bases well formed. Tasks that are empty or zombies are passed over and only
  move to the back. As many pops as there are tasks before the chosen one, plus one, are enough.
\<close>

theorem reschedule_correct:
  assumes "gs_ok s k c" "queue_rep c s (xs @ y # ys)" "queue_tasks_ok s (xs @ y # ys)"
    and "runnable (tasks s y)" "filter (\<lambda>x. runnable (tasks s x)) xs = []" "length xs < fuel"
  shows "\<exists>s'. task_scheduler_round_robin_reschedule fuel st s = Inr (y, s') \<and>
    gs_ok s' k c \<and> gs_base s' = y \<and> queue_rep c s' (ys @ xs @ [y]) \<and> queue_current (queue_of s' c) = y \<and>
    (\<forall>x. task_state (tasks s' x) = (if x = queue_current (queue_of s c) then st else task_state (tasks s x)) \<and>
         simd_state (tasks s' x) = (if x = queue_current (queue_of s c) then simd_regs s else simd_state (tasks s x))) \<and>
    cpu_state s' = task_state (tasks s' y) \<and> simd_regs s' = simd_state (tasks s' y) \<and>
    cr3 s' = reg_cr3 (task_state (tasks s' y)) \<and> one_shot_scheduled s' \<and> \<not> preemption_requested s'"
proof -
  have "\<forall>x \<in> set xs. \<not> runnable (tasks s x)" using assms(5) by (auto simp: filter_empty_conv)
  from reschedule_ok [where st = st, OF assms(1-4) this assms(6)] show ?thesis by fastforce
qed

theorem reschedule_correct_witness:
  "\<exists>s'. task_scheduler_round_robin_reschedule 2 zero_cpu_state small_machine = Inr (0x3000, s') \<and>
     queue_rep 0x1000 s' [0x2000, 0x5000, 0x3000] \<and> simd_state (tasks s' 0x2000) = [9] \<and>
     simd_regs s' = [7] \<and> reg_rip (cpu_state s') = 0x400000"
proof -
  have r: "runnable (tasks small_machine 0x3000)" "filter (\<lambda>x. runnable (tasks small_machine x)) [0x5000] = []"
    "queue_current (queue_of small_machine 0x1000) = 0x2000" "simd_regs small_machine = [9]"
    "simd_state (tasks small_machine 0x3000) = [7]" "reg_rip (task_state (tasks small_machine 0x3000)) = 0x400000"
    by (simp_all add: runnable_def small_machine_def zero_task_def queue_of_def)
  show ?thesis
    using reschedule_correct [where s = small_machine and k = "0x4000" and c = "0x1000" and xs = "[0x5000]" and y = "0x3000" and ys = "[0x2000]" and fuel = 2 and st = zero_cpu_state]
      small_machine_ok r by auto
qed

text \<open>
  \<open>task_scheduler_round_robin_get_pid\<close>: with every installed context holding at least its idle
  task, the call ends, changes nothing, and returns the first task with the given id in the
  queues walked from the last context backwards, or the null pointer when no task has it.
\<close>

theorem get_pid_correct:
  assumes "context_chain (contexts s) ds" "distinct ds" "hd ds = last_context s" "last_context_lock s = 0"
    and "list_all2 (\<lambda>d xs. queue_rep d s xs \<and> xs \<noteq> []) ds xss" "pid \<noteq> 0"
  shows "task_scheduler_round_robin_get_pid pid s =
    Inr (case find (\<lambda>x. task_id (tasks s x) = pid) (concat xss) of None \<Rightarrow> 0 | Some x \<Rightarrow> x, s)"
  by (rule get_pid_eq [OF assms])

theorem get_pid_correct_witness:
  "task_scheduler_round_robin_get_pid 1 small_machine = Inr (0x3000, small_machine)"
proof -
  have "task_id (tasks small_machine 0x5000) = 2" "task_id (tasks small_machine 0x3000) = 1"
    "last_context small_machine = 0x1000" "last_context_lock small_machine = 0"
    by (simp_all add: small_machine_def)
  then show ?thesis
    using get_pid_correct [of small_machine "[0x1000]" "[[0x5000, 0x3000, 0x2000]]" 1] small_machine_ok by simp
qed

text \<open>
  The search of \<open>task_scheduler_round_robin_create\<close> for the least busy processor ends, and the
  context it returns holds no more tasks than any other installed context; only when every
  context counts \<open>UINT64_MAX\<close> tasks it falls back to the caller's own.
\<close>

theorem least_busy_minimal:
  assumes "context_chain cs ds"
  shows "\<exists>r. least_busy cs 0xFFFFFFFFFFFFFFFF this (hd ds) = Some r \<and>
    (r \<in> set ds \<and> {d \<in> set ds. queue_count (running (cs d)) < queue_count (running (cs r))} = {} \<or>
     r = this \<and> (\<lambda>d. queue_count (running (cs d))) ` set ds = {0xFFFFFFFFFFFFFFFF})"
proof -
  let ?n = "\<lambda>d. queue_count (running (cs d))"
  obtain r where r: "least_busy cs 0xFFFFFFFFFFFFFFFF this (hd ds) = Some r"
    "if \<exists>d \<in> set ds. ?n d < 0xFFFFFFFFFFFFFFFF then r \<in> set ds \<and> ?n r < 0xFFFFFFFFFFFFFFFF \<and> (\<forall>d \<in> set ds. ?n r \<le> ?n d) else r = this"
    using least_busy_eq [OF assms] by blast
  show ?thesis
  proof (cases "\<exists>d \<in> set ds. ?n d < 0xFFFFFFFFFFFFFFFF")
    case True
    then show ?thesis using r by (auto simp: not_less)
  next
    case False
    have "?n d = 0xFFFFFFFFFFFFFFFF" if "d \<in> set ds" for d
    proof -
      have "0xFFFFFFFFFFFFFFFF = (- 1 :: u64)" by simp
      then show ?thesis using False that by (metis not_less word_order.extremum_unique)
    qed
    moreover have "ds \<noteq> []" using assms by auto
    ultimately have "?n ` set ds = {0xFFFFFFFFFFFFFFFF}" by (cases ds) auto
    then show ?thesis using r False by auto
  qed
qed

theorem least_busy_minimal_witness:
  "least_busy (contexts small_machine) 0xFFFFFFFFFFFFFFFF 0 0x1000 = Some 0x1000"
  using least_busy_minimal [OF small_machine_ok(4), of 0] by (auto simp: small_machine_def)

end
