(* ===== verification/Syscalls_Correct.thy ===== *)
theory Syscalls_Correct
  imports Syscalls Round_Robin_Correct
begin

text \<open>
  Properties of the system calls: the table of file descriptors, and waiting for a child.
\<close>

subsection \<open>Descriptors\<close>

lemma fd_slot_eq_iff:
  assumes "i < 2 ^ 61" "j < 2 ^ 61"
  shows "fd_slot t (of_nat i) = fd_slot t (of_nat j) \<longleftrightarrow> i = j"
proof -
  have "fd_slot t (of_nat i) = fd_slot t (of_nat j) \<longleftrightarrow> (of_nat (8 * i) :: u64) = of_nat (8 * j)" by (simp add: fd_slot_def)
  also have "\<dots> \<longleftrightarrow> 8 * i = 8 * j" by (rule of_nat_u64_eq_iff) (use assms in simp_all)
  finally show ?thesis by simp
qed

text \<open>The lowest free descriptor is found.\<close>

lemma find_free_fd_first:
  assumes "m (fd_slot t (of_nat i)) = 0" "\<forall>j < i. m (fd_slot t (of_nat j)) \<noteq> 0" "i \<le> unat (fd_max t)"
  shows "find_free_fd m t = of_nat i"
proof -
  have "find (\<lambda>i. m (fd_slot t (of_nat i)) = 0) [0..<Suc (unat (fd_max t))] = Some i"
    using assms by (subst find_upt_Some_iff) auto
  then show ?thesis by (simp add: find_free_fd_def)
qed

lemma place_node_first:
  assumes "memory s (fd_slot (tasks s c) (of_nat i)) = 0" "\<forall>j < i. memory s (fd_slot (tasks s c) (of_nat j)) \<noteq> 0"
    and "i < unat (fd_max (tasks s c))"
  shows "place_node (Suc fuel) c node s =
    Inr (of_nat i, upd_task c (\<lambda>t. t\<lparr>fd_count := fd_count t + 1\<rparr>)
           (s\<lparr>memory := (memory s)(fd_slot (tasks s c) (of_nat i) := node)\<rparr>))"
proof -
  have f: "find_free_fd (memory s) (tasks s c) = of_nat i"
    using find_free_fd_first [OF assms(1,2)] assms(3) by simp
  have "unat (of_nat i :: u64) = i" using assms(3) unat_less_2p64 [of "fd_max (tasks s c)"] by (intro unat_of_nat_exact) simp
  then have "of_nat i \<noteq> fd_max (tasks s c)" using assms(3) by auto
  then show ?thesis using f by (simp add: Let_def)
qed

lemma place_node_beyond:
  assumes "\<forall>j \<le> unat (fd_max (tasks s c)). memory s (fd_slot (tasks s c) (of_nat j)) \<noteq> 0"
  shows "place_node (Suc fuel) c node s =
    Inr (fd_max (tasks s c) + 1, upd_task c (\<lambda>t. t\<lparr>fd_count := fd_count t + 1\<rparr>)
           (s\<lparr>memory := (memory s)(fd_slot (tasks s c) (fd_max (tasks s c) + 1) := node)\<rparr>))"
proof -
  have "find (\<lambda>i. memory s (fd_slot (tasks s c) (of_nat i)) = 0) [0..<Suc (unat (fd_max (tasks s c)))] = None"
    using assms by (subst find_upt_None_iff) auto
  then have "find_free_fd (memory s) (tasks s c) = fd_max (tasks s c) + 1" by (simp add: find_free_fd_def)
  then show ?thesis by (simp add: Let_def)
qed

text \<open>What a close callback leaves alone: the task that runs, its descriptors and page memory.\<close>

definition keeps_tasks :: "'a vfs_state_scheme \<Rightarrow> 'a vfs_state_scheme \<Rightarrow> bool" where
  "keeps_tasks s s' \<longleftrightarrow> tasks s' = tasks s \<and> memory s' = memory s \<and> gs_base s' = gs_base s \<and> cpu_contexts s' = cpu_contexts s \<and>
     kernel_hhdm_offset s' = kernel_hhdm_offset s"

lemma running_task_keeps: "keeps_tasks s s' \<Longrightarrow> running_task c s' = running_task c s"
  by (auto simp: keeps_tasks_def running_task_def context_word_def split: option.split)

lemma running_task_upd [simp]:
  assumes "\<And>t. task_id (f t) = task_id t"
  shows "running_task c (upd_task p f s) = running_task c s"
  using assms by (simp add: running_task_def context_word_def upd_task_def split: option.split)

lemma running_task_memory [simp]:
  "running_task c (s\<lparr>memory := m\<rparr>) = running_task c s" "running_task c (s\<lparr>heap_bytes := m8\<rparr>) = running_task c s"
  by (simp_all add: running_task_def context_word_def split: option.split)

lemma upd_task_same [simp]: "tasks (upd_task c f s) c = f (tasks s c)" "memory (upd_task c f s) = memory s"
  by (simp_all add: upd_task_def)

lemma sys_close_eq:
  assumes "running_task c s" "fd < fd_max (tasks s c)" "memory s (fd_slot (tasks s c) fd) = node" "node \<noteq> 0"
    and "vfs_close ops node s = Inr s1" "keeps_tasks s s1"
  shows "\<exists>s'. sys_close ops fd s = Inr (0, s') \<and> running_task c s' \<and>
    tasks s' c = (tasks s c)\<lparr>fd_count := fd_count (tasks s c) - 1\<rparr> \<and>
    memory s' = (memory s)(fd_slot (tasks s c) fd := 0)"
proof -
  let ?s2 = "upd_task c (\<lambda>t. t\<lparr>fd_count := fd_count t - 1\<rparr>) s1"
  have k: "tasks s1 = tasks s" "memory s1 = memory s" "running_task c s1"
    using assms(1,6) running_task_keeps [OF assms(6)] by (simp_all add: keeps_tasks_def)
  have slot: "fd_slot (t\<lparr>fd_count := x\<rparr>) fd = fd_slot t fd" for t x by (simp add: fd_slot_def)
  have "sys_close ops fd s = Inr (0, ?s2\<lparr>memory := (memory s)(fd_slot (tasks s c) fd := 0)\<rparr>)"
    using assms k slot by (simp add: sys_close_def Let_def not_le)
  moreover have "running_task c ?s2" using k(3) by simp
  ultimately show ?thesis using k by simp
qed

text \<open>Where the scheduler finds tasks depends on links and ids only.\<close>

lemma queue_rep_same:
  assumes "\<And>x. task_next (tasks s' x) = task_next (tasks s x)" "contexts s' = contexts s"
  shows "queue_rep d s' xs = queue_rep d s xs"
  using assms chain_cong [of xs "tasks s'" "tasks s"] by (simp add: queue_rep_def queue_of_def)

lemma find_child_same:
  assumes "\<And>x. task_next (tasks s' x) = task_next (tasks s x) \<and> task_id (tasks s' x) = task_id (tasks s x)"
    and "contexts s' = contexts s" "last_context s' = last_context s" "last_context_lock s' = last_context_lock s"
    and "context_chain (contexts s) ds" "distinct ds" "hd ds = last_context s" "last_context_lock s = 0"
    and "list_all2 (\<lambda>d xs. queue_rep d s xs \<and> xs \<noteq> []) ds xss" "pid \<noteq> 0"
    and "find (\<lambda>x. task_id (tasks s x) = pid) (concat xss) = Some child"
  shows "task_scheduler_round_robin_get_pid pid s' = Inr (child, s')" "child \<noteq> 0"
proof -
  have "list_all2 (\<lambda>d xs. queue_rep d s' xs \<and> xs \<noteq> []) ds xss" using assms(1,2,9) queue_rep_same [of s' s] by simp
  then show "task_scheduler_round_robin_get_pid pid s' = Inr (child, s')"
    using get_pid_eq [of s' ds xss pid] assms by simp
  obtain i where "i < length (concat xss)" "child = concat xss ! i" using assms(11) by (auto simp: find_Some_iff)
  then have "child \<in> set (concat xss)" by (simp only: nth_mem)
  then obtain xs where "xs \<in> set xss" "child \<in> set xs" by auto
  then show "child \<noteq> 0" using assms(9) by (auto simp: list_all2_conv_all_nth in_set_conv_nth queue_rep_def Let_def)
qed

lemma sys_lseek_refused:
  assumes "running_task c s" "fd_node (tasks s c) fd s = 0"
  shows "sys_lseek ops fd offset whence s = Inr (- EBADF, s)"
  using assms by (simp add: sys_lseek_def)


subsection \<open>Properties\<close>

text \<open>
  (C21) \<open>sys_open\<close> returns the lowest descriptor that is free: when the path opens and entry \<open>i\<close> of the caller's table is
  the first empty one, the call returns \<open>i\<close>, the entry then holds the node, no other entry below the
  table's end changes and the count of descriptors grows by one.
\<close>

theorem sys_open_lowest_fd:
  assumes "running_task c s" "IS_USER_MEMORY path (tasks s c) s"
    and "vfs_open ops path oflag s = Inr (node, s1)" "\<not> is_error node" "t = tasks s1 c"
    and "memory s1 (fd_slot t (of_nat i)) = 0" "\<forall>j < i. memory s1 (fd_slot t (of_nat j)) \<noteq> 0"
    and "i < unat (fd_max t)" "unat (fd_max t) < 2 ^ 61"
  shows "\<exists>s'. sys_open (Suc fuel) ops path oflag s = Inr (of_nat i, s') \<and>
    tasks s' c = t\<lparr>fd_count := fd_count t + 1\<rparr> \<and>
    (\<forall>j < unat (fd_max t). memory s' (fd_slot t (of_nat j)) = (if j = i then node else memory s1 (fd_slot t (of_nat j))))"
proof -
  let ?s' = "upd_task c (\<lambda>t. t\<lparr>fd_count := fd_count t + 1\<rparr>) (s1\<lparr>memory := (memory s1)(fd_slot t (of_nat i) := node)\<rparr>)"
  have "place_node (Suc fuel) c node s1 = Inr (of_nat i, ?s')"
    using place_node_first [of s1 c i fuel node] assms(5-8) by simp
  then have "sys_open (Suc fuel) ops path oflag s = Inr (of_nat i, ?s')"
    using assms(1-4) by (simp add: sys_open_def del: place_node.simps)
  moreover have "memory ?s' (fd_slot t (of_nat j)) = (if j = i then node else memory s1 (fd_slot t (of_nat j)))"
    if "j < unat (fd_max t)" for j
    using fd_slot_eq_iff [of j i t] that assms(8,9) by simp
  ultimately show ?thesis using assms(5) by auto
qed

text \<open>
  A full table is overrun: when no entry of the table is empty and the word behind the table is not zero
  either, \<open>sys_open\<close> does not grow the table but stores the node two entries behind its last one.
\<close>

theorem sys_open_overruns_table:
  assumes "running_task c s" "IS_USER_MEMORY path (tasks s c) s"
    and "vfs_open ops path oflag s = Inr (node, s1)" "\<not> is_error node"
    and "\<forall>j \<le> unat (fd_max (tasks s1 c)). memory s1 (fd_slot (tasks s1 c) (of_nat j)) \<noteq> 0"
  shows "\<exists>s'. sys_open (Suc fuel) ops path oflag s = Inr (fd_max (tasks s1 c) + 1, s') \<and>
    memory s' (fd_translation (tasks s1 c) + 8 * fd_max (tasks s1 c) + 8) = node"
  using place_node_beyond [OF assms(5), of fuel node] assms(1-4)
  by (simp add: sys_open_def fd_slot_def add.assoc distrib_left del: place_node.simps)

text \<open>
  (C25) A closed descriptor is dead: after \<open>sys_close\<close>, whose callback leaves tasks and page memory alone, the descriptor
  can neither be sought nor closed again, and reading and writing through it are refused; none of
  these calls changes the state.
\<close>

theorem sys_close_kills_fd:
  assumes "running_task c s" "fd < fd_max (tasks s c)" "memory s (fd_slot (tasks s c) fd) \<noteq> 0"
    and "vfs_close ops (memory s (fd_slot (tasks s c) fd)) s = Inr s1" "keeps_tasks s s1"
  shows "\<exists>s'. sys_close ops fd s = Inr (0, s') \<and>
    sys_close ops fd s' = Inr (- EBADF, s') \<and> sys_lseek ops fd offset whence s' = Inr (- EBADF, s') \<and>
    sys_read ops fd buffer n s' \<in> {Inr (- EBADF, s'), Inr (- EPERM, s')} \<and>
    sys_write ops fd buffer n s' \<in> {Inr (- EBADF, s'), Inr (- EPERM, s')}"
proof -
  obtain s' where c: "sys_close ops fd s = Inr (0, s')" "running_task c s'"
    "tasks s' c = (tasks s c)\<lparr>fd_count := fd_count (tasks s c) - 1\<rparr>" "memory s' = (memory s)(fd_slot (tasks s c) fd := 0)"
    using sys_close_eq [OF assms(1,2) refl assms(3-5)] by blast
  then have m: "memory s' (fd_slot (tasks s' c) fd) = 0" by (simp add: fd_slot_def)
  then have n: "fd_node (tasks s' c) fd s' = 0" by (simp add: fd_node_def)
  have "sys_close ops fd s' = Inr (- EBADF, s')" using c(2) m by (simp add: sys_close_def)
  moreover have "sys_read ops fd buffer n s' \<in> {Inr (- EBADF, s'), Inr (- EPERM, s')}"
    "sys_write ops fd buffer n s' \<in> {Inr (- EBADF, s'), Inr (- EPERM, s')}"
    using c(2) n by (auto simp: sys_read_def sys_write_def Let_def)
  ultimately show ?thesis using c(1) sys_lseek_refused [OF c(2) n] by blast
qed

text \<open>
  An open descriptor is lost: with three open files (and the count at four, where a new task with three
  files has it), closing the first two makes the third unusable, although its entry still holds the node.
\<close>

theorem live_fd_refused:
  assumes "running_task c s" "fd_count (tasks s c) = 4" "2 < fd_max (tasks s c)"
    and "memory s (fd_slot (tasks s c) 0) = a" "memory s (fd_slot (tasks s c) 1) = b" "memory s (fd_slot (tasks s c) 2) = d"
    and "a \<noteq> 0" "b \<noteq> 0" "d \<noteq> 0" "\<And>node s. node \<noteq> 0 \<Longrightarrow> \<exists>s'. vfs_close ops node s = Inr s' \<and> keeps_tasks s s'"
  shows "\<exists>s1 s2. sys_close ops 0 s = Inr (0, s1) \<and> sys_close ops 1 s1 = Inr (0, s2) \<and>
    memory s2 (fd_slot (tasks s2 c) 2) = d \<and> sys_lseek ops 2 offset whence s2 = Inr (- EBADF, s2)"
proof -
  let ?t = "tasks s c"
  have slots: "fd_slot ?t 0 \<noteq> fd_slot ?t 1" "fd_slot ?t 0 \<noteq> fd_slot ?t 2" "fd_slot ?t 1 \<noteq> fd_slot ?t 2"
    by (simp_all add: fd_slot_def)
  have lt: "0 < fd_max ?t" "1 < fd_max ?t" using assms(3) by (simp_all add: word_less_nat_alt)
  obtain r1 where "vfs_close ops a s = Inr r1" "keeps_tasks s r1" using assms(10) [OF assms(7)] by blast
  then obtain s1 where s1: "sys_close ops 0 s = Inr (0, s1)" "running_task c s1"
    "tasks s1 c = ?t\<lparr>fd_count := fd_count ?t - 1\<rparr>" "memory s1 = (memory s)(fd_slot ?t 0 := 0)"
    using sys_close_eq [OF assms(1) lt(1) assms(4,7)] by blast
  have t1: "fd_slot (tasks s1 c) = fd_slot ?t" "fd_max (tasks s1 c) = fd_max ?t" using s1(3) by (simp_all add: fd_slot_def fun_eq_iff)
  have m1: "memory s1 (fd_slot (tasks s1 c) 1) = b" using s1(4) slots assms(5) by (simp add: t1)
  obtain r2 where "vfs_close ops b s1 = Inr r2" "keeps_tasks s1 r2" using assms(10) [OF assms(8)] by blast
  then obtain s2 where s2: "sys_close ops 1 s1 = Inr (0, s2)" "running_task c s2"
    "tasks s2 c = (tasks s1 c)\<lparr>fd_count := fd_count (tasks s1 c) - 1\<rparr>" "memory s2 = (memory s1)(fd_slot (tasks s1 c) 1 := 0)"
    using sys_close_eq [OF s1(2) _ m1 assms(8)] lt(2) t1(2) by auto
  have t2: "fd_slot (tasks s2 c) = fd_slot ?t" "fd_count (tasks s2 c) = 2"
    using s2(3) s1(3) assms(2) t1 by (simp_all add: fd_slot_def fun_eq_iff)
  have "fd_node (tasks s2 c) 2 s2 = 0" using t2(2) by (simp add: fd_node_def)
  then have "sys_lseek ops 2 offset whence s2 = Inr (- EBADF, s2)" using sys_lseek_refused [OF s2(2)] by blast
  moreover have "memory s2 (fd_slot (tasks s2 c) 2) = d" using s2(4) s1(4) t1 t2 slots assms(6) by simp
  ultimately show ?thesis using s1(1) s2(1) by blast
qed


text \<open>
  (C24) A child that has exited is reaped once: waiting for it returns its id and stores the low byte of its exit code as
  a four-byte integer at the caller's pointer, and waiting for it again is refused.
\<close>

theorem waitpid_reaps_once:
  assumes "context_chain (contexts s) ds" "distinct ds" "hd ds = last_context s" "last_context_lock s = 0"
    and "list_all2 (\<lambda>d xs. queue_rep d s xs \<and> xs \<noteq> []) ds xss" "pid \<noteq> 0" "\<not> pid <s 0"
    and "find (\<lambda>x. task_id (tasks s x) = pid) (concat xss) = Some child" "running_task c s"
    and "ppid (tasks s child) = task_id (tasks s c)" "\<not> is_waited (tasks s child)" "run_mode (tasks s child) = RUN_MODE_ZOMBIE"
    and "IS_USER_MEMORY stat_loc (tasks s c) s"
  shows "\<exists>s'. sys_waitpid (Suc fuel) pid stat_loc s = Inr (Returned pid s') \<and>
    bytes_at (heap_bytes s') stat_loc 4 = [word_of_int (exit_code (tasks s child)) AND 0xFF, 0, 0, 0] \<and>
    sys_waitpid (Suc fuel) pid stat_loc s' = Inr (Returned (- ECHILD) s')"
proof -
  let ?b = "word_of_int (exit_code (tasks s child)) AND 0xFF :: u8"
  let ?s1 = "upd_task child (\<lambda>t. t\<lparr>is_waited := True\<rparr>) s"
  let ?s' = "?s1\<lparr>heap_bytes := (heap_bytes s)(stat_loc := ?b, stat_loc + 1 := 0, stat_loc + 2 := 0, stat_loc + 3 := 0)\<rparr>"
  note g = find_child_same [OF _ _ _ _ assms(1-6,8)]
  have run: "running_task c ?s'" using assms(9) by simp
  have "sys_waitpid (Suc fuel) pid stat_loc s = Inr (Returned pid ?s')"
    using g [of s] assms(7,9-13) by (simp add: sys_waitpid_def waitpid_resume_def Let_def upd_task_def)
  moreover have "sys_waitpid (Suc fuel) pid stat_loc ?s' = Inr (Returned (- ECHILD) ?s')"
    using g(1) [of ?s'] run by (simp add: sys_waitpid_def upd_task_def)
  moreover have "[0..<4] = [0, 1, 2, 3 :: nat]" by (simp add: upt_rec)
  ultimately show ?thesis by (intro exI [of _ ?s']) (simp add: bytes_at_def)
qed


subsection \<open>Witnesses\<close>

text \<open>
  The small machine with higher-half offset \<open>0x80000000\<close>: the running task maps the page at \<open>0x1000\<close>, which holds the path
  \<open>/x\<close>; one file system with trivial callbacks is mounted at \<open>/\<close>. The word store holds the page table and the table of descriptors, at
  \<open>0x20000\<close>.
\<close>

definition call_memory :: mem64 where
  "call_memory = (\<lambda>_. 0)(0x80010000 := 0x11001, 0x80011000 := 0x12001, 0x80012000 := 0x13001, 0x80013008 := 0x5001)"

definition caller_task :: scheduler_task where
  "caller_task = zero_task\<lparr>task_id := 5, task_state := zero_cpu_state\<lparr>reg_cr3 := 0x10000\<rparr>, fd_translation := 0x20000, fd_max := 3\<rparr>"

definition call_machine :: "mem64 \<Rightarrow> u64 \<Rightarrow> vfs_state" where
  "call_machine m n = sched_state.extend
     (small_machine\<lparr>kernel_hhdm_offset := 0x80000000, memory := m, tasks := (tasks small_machine)(0x2000 := caller_task\<lparr>fd_count := n, task_next := 0x5000\<rparr>,
        0x3000 := (tasks small_machine 0x3000)\<lparr>ppid := 5, exit_code := 0x1FE, run_mode := RUN_MODE_ZOMBIE\<rparr>),
        heap_bytes := (\<lambda>_. 0)(0x1000 := 0x2F, 0x1001 := 0x78, 0x9200 := 0x2F)\<rparr>)
     (vfs_state.fields (\<lambda>_. zero_node) ((\<lambda>_. zero_mount)(0x9000 := zero_mount\<lparr>mount_next := 0x9100\<rparr>,
        0x9100 := zero_mount\<lparr>mount_name := 0x9200, mount_name_length := 1, mount_fs := 7\<rparr>)) 0x9000 0)"

definition call_ops :: "u64 \<Rightarrow> vfs_state vfs_fs_ops" where
  "call_ops fs = \<lparr>fs_open = Some (\<lambda>_ _ _ s. Inr (0xA000, s)), fs_read = None, fs_write = None, fs_lseek = None,
     fs_close = Some (\<lambda>_ s. Inr s), fs_dup = None, fs_async_task_register = None, fs_async_task_update = None,
     fs_async_task_unregister = None\<rparr>"

lemma call_machine_fields [simp]:
  "memory (call_machine m n) = m" "kernel_hhdm_offset (call_machine m n) = 0x80000000"
  "tasks (call_machine m n) 0x2000 = caller_task\<lparr>fd_count := n, task_next := 0x5000\<rparr>"
  "heap_bytes (call_machine m n) = (\<lambda>_. 0)(0x1000 := 0x2F, 0x1001 := 0x78, 0x9200 := 0x2F)"
  "mount_points (call_machine m n) = 0x9000" "mount_lock (call_machine m n) = 0"
  "mounts (call_machine m n) = (\<lambda>_. zero_mount)(0x9000 := zero_mount\<lparr>mount_next := 0x9100\<rparr>,
     0x9100 := zero_mount\<lparr>mount_name := 0x9200, mount_name_length := 1, mount_fs := 7\<rparr>)"
  by (simp_all add: call_machine_def sched_state.defs vfs_state.defs small_machine_def)

lemma call_machine_running: "running_task 0x2000 (call_machine m n)"
  by (simp add: call_machine_def sched_state.defs vfs_state.defs small_machine_def running_task_def context_word_def
      caller_task_def)

lemma call_machine_user:
  assumes "m 0x80010000 = 0x11001" "m 0x80011000 = 0x12001" "m 0x80012000 = 0x13001" "m 0x80013008 = 0x5001"
  shows "IS_USER_MEMORY 0x1000 (caller_task\<lparr>fd_count := n, task_next := 0x5000\<rparr>) (call_machine m n)"
  using assms by (simp add: IS_USER_MEMORY_def caller_task_def arch_table_manager_translate_to_physical_def
      arch_table_manager_get_next_layer_def arch_table_manager_get_address_def table_index_def entry_present_def Let_def)

lemma call_machine_open: "vfs_open call_ops 0x1000 1 (call_machine m n) = Inr (0xA000, call_machine m n)"
proof -
  let ?s = "call_machine m n"
  have "cstr (heap_bytes ?s) 0x1000 [0x2F, 0x78]" by simp
  note len = strlen_cstr [OF this]
  have "strncmp (heap_bytes ?s) 0x1000 0x9200 1 = 0" by (simp add: strncmp_def)
  then have "find_mount (heap_bytes ?s) (mounts ?s) 0x1000 2 0x9100 = Some 0x9100"
    by (subst find_mount.simps) (simp add: zero_mount_def)
  moreover have "?s\<lparr>mount_lock := 0\<rparr> = ?s" by (simp add: call_machine_def sched_state.defs vfs_state.defs small_machine_def)
  ultimately show ?thesis using len by (simp add: vfs_open_def zero_mount_def call_ops_def)
qed


theorem sys_open_lowest_fd_witness:
  "\<exists>s'. sys_open 1 call_ops 0x1000 1 (call_machine (call_memory(0x20000 := 1)) 2) = Inr (1, s') \<and> memory s' 0x20008 = 0xA000"
proof -
  let ?m = "call_memory(0x20000 := 1)" and ?t = "caller_task\<lparr>fd_count := 2, task_next := 0x5000\<rparr>"
  let ?s = "call_machine ?m 2"
  have f: "fd_max ?t = 3" "fd_slot ?t (of_nat j) = 0x20000 + 8 * of_nat j" for j by (simp_all add: caller_task_def fd_slot_def)
  have "IS_USER_MEMORY 0x1000 (tasks ?s 0x2000) ?s" using call_machine_user [of ?m] by (simp add: call_memory_def)
  moreover have "\<not> is_error 0xA000" by (simp add: is_error_def)
  ultimately have "\<exists>s'. sys_open (Suc 0) call_ops 0x1000 1 ?s = Inr (of_nat 1, s') \<and> tasks s' 0x2000 = ?t\<lparr>fd_count := fd_count ?t + 1\<rparr> \<and>
      (\<forall>j < unat (fd_max ?t). memory s' (fd_slot ?t (of_nat j)) = (if j = 1 then 0xA000 else memory ?s (fd_slot ?t (of_nat j))))"
    by (intro sys_open_lowest_fd [OF call_machine_running _ call_machine_open]) (simp_all add: call_memory_def caller_task_def fd_slot_def)
  then obtain s' where s': "sys_open (Suc 0) call_ops 0x1000 1 ?s = Inr (of_nat 1, s')"
    "\<forall>j < 3. memory s' (fd_slot ?t (of_nat j)) = (if j = 1 then 0xA000 else memory ?s (fd_slot ?t (of_nat j)))"
    unfolding f by auto
  have "memory s' 0x20008 = 0xA000" using s'(2) [rule_format, of 1] by (simp add: caller_task_def fd_slot_def)
  then show ?thesis using s'(1) by (intro exI [of _ s']) simp
qed

theorem sys_open_overruns_table_witness:
  "\<exists>s'. sys_open 1 call_ops 0x1000 1 (call_machine (call_memory(0x20000 := 1, 0x20008 := 1, 0x20010 := 1, 0x20018 := 1)) 4) = Inr (4, s') \<and>
     memory s' 0x20020 = 0xA000"
proof -
  let ?m = "call_memory(0x20000 := 1, 0x20008 := 1, 0x20010 := 1, 0x20018 := 1)" and ?t = "caller_task\<lparr>fd_count := 4, task_next := 0x5000\<rparr>"
  let ?s = "call_machine ?m 4"
  have f: "fd_max ?t = 3" "fd_slot ?t (of_nat j) = 0x20000 + 8 * of_nat j" "fd_translation ?t = 0x20000" for j
    by (simp_all add: caller_task_def fd_slot_def)
  have "IS_USER_MEMORY 0x1000 (tasks ?s 0x2000) ?s" using call_machine_user [of ?m] by (simp add: call_memory_def)
  moreover have "\<not> is_error 0xA000" by (simp add: is_error_def)
  moreover have "memory ?s (fd_slot ?t (of_nat j)) \<noteq> 0" if "j \<le> 3" for j
  proof -
    have "j = 0 \<or> j = 1 \<or> j = 2 \<or> j = 3" using that by auto
    then show ?thesis by (auto simp: f)
  qed
  ultimately show ?thesis
    using sys_open_overruns_table [OF call_machine_running _ call_machine_open, of ?m 4 0] by (simp add: f)
qed

lemma call_ops_close: "node \<noteq> 0 \<Longrightarrow> vfs_close call_ops node s = Inr s \<and> keeps_tasks s s"
  by (simp add: vfs_close_def call_ops_def keeps_tasks_def)

theorem sys_close_kills_fd_witness:
  "\<exists>s'. sys_close call_ops 0 (call_machine (call_memory(0x20000 := 1)) 2) = Inr (0, s') \<and>
     sys_lseek call_ops 0 0 0 s' = Inr (- EBADF, s') \<and> sys_close call_ops 0 s' = Inr (- EBADF, s')"
proof -
  let ?s = "call_machine (call_memory(0x20000 := 1)) 2"
  have f: "fd_max (tasks ?s 0x2000) = 3" "memory ?s (fd_slot (tasks ?s 0x2000) 0) = 1"
    by (simp_all add: caller_task_def fd_slot_def)
  show ?thesis
    using sys_close_kills_fd [where offset = 0 and whence = 0 and buffer = 0 and n = 0 and fd = 0 and ops = call_ops,
        OF call_machine_running, of "call_memory(0x20000 := 1)" 2 ?s] call_ops_close [of 1 ?s]
    unfolding f by auto
qed

theorem live_fd_refused_witness:
  "\<exists>s1 s2. sys_close call_ops 0 (call_machine (call_memory(0x20000 := 1, 0x20008 := 2, 0x20010 := 3)) 4) = Inr (0, s1) \<and>
     sys_close call_ops 1 s1 = Inr (0, s2) \<and> memory s2 (fd_slot (tasks s2 0x2000) 2) = 3 \<and> sys_lseek call_ops 2 0 0 s2 = Inr (- EBADF, s2)"
proof -
  let ?s = "call_machine (call_memory(0x20000 := 1, 0x20008 := 2, 0x20010 := 3)) 4"
  have f: "fd_max (tasks ?s 0x2000) = 3" "fd_count (tasks ?s 0x2000) = 4" "memory ?s (fd_slot (tasks ?s 0x2000) 0) = 1"
    "memory ?s (fd_slot (tasks ?s 0x2000) 1) = 2" "memory ?s (fd_slot (tasks ?s 0x2000) 2) = 3"
    by (simp_all add: caller_task_def fd_slot_def)
  show ?thesis
    by (rule live_fd_refused [OF call_machine_running f(2) _ f(3-5)]) (use call_ops_close f(1) in auto)
qed

theorem waitpid_reaps_once_witness:
  "\<exists>s'. sys_waitpid 1 1 0x1000 (call_machine call_memory 1) = Inr (Returned 1 s') \<and> bytes_at (heap_bytes s') 0x1000 4 = [0xFE, 0, 0, 0] \<and>
     sys_waitpid 1 1 0x1000 s' = Inr (Returned (- ECHILD) s')"
proof -
  let ?s = "call_machine call_memory 1"
  have t: "tasks ?s 0x3000 = (tasks small_machine 0x3000)\<lparr>ppid := 5, exit_code := 0x1FE, run_mode := RUN_MODE_ZOMBIE\<rparr>"
    "contexts ?s = contexts small_machine" "last_context ?s = 0x1000" "last_context_lock ?s = 0"
    "task_id (tasks ?s 0x5000) = 2" "task_id (tasks ?s 0x3000) = 1" "task_id (tasks ?s 0x2000) = 5"
    by (simp_all add: call_machine_def sched_state.defs vfs_state.defs small_machine_def zero_task_def caller_task_def)
  have "task_next (tasks ?s x) = task_next (tasks small_machine x)" for x
    by (simp add: call_machine_def sched_state.defs vfs_state.defs small_machine_def caller_task_def zero_task_def)
  then have q: "queue_rep 0x1000 ?s [0x5000, 0x3000, 0x2000]"
    using queue_rep_same [of ?s small_machine] t(2) small_machine_ok(1) by simp
  have u: "IS_USER_MEMORY 0x1000 (tasks ?s 0x2000) ?s" using call_machine_user [of call_memory] by (simp add: call_memory_def)
  have c: "ppid (tasks ?s 0x3000) = task_id (tasks ?s 0x2000)" "\<not> is_waited (tasks ?s 0x3000)"
    "run_mode (tasks ?s 0x3000) = RUN_MODE_ZOMBIE" "exit_code (tasks ?s 0x3000) = 0x1FE"
    unfolding t by (simp_all add: small_machine_def zero_task_def)
  show ?thesis
    using waitpid_reaps_once [of ?s "[0x1000]" "[[0x5000, 0x3000, 0x2000]]" 1 "0x3000" "0x2000" "0x1000" 0]
      small_machine_ok(4) call_machine_running q u c t by (simp add: word_sless_alt)
qed

end
