(* ===== verification/Elf.thy ===== *)
theory Elf
  imports Syscalls
begin

text \<open>
  The loader of executables, \<open>kernel/src/executables/elf.c\<close>, with the structures of
  \<open>kernel/src/executables/elfabi.h\<close> as they lie in memory.

  The headers are read from the file into variables on the stack; \<open>hdr\<close> and \<open>ph\<close> are their addresses. What
  the file system returns is not looked at, as in the source.
\<close>

subsection \<open>Headers\<close>

record Elf64_Ehdr =
  e_ident :: "u8 list"
  e_type :: u64
  e_machine :: u64
  e_version :: u64
  e_entry :: u64
  e_phoff :: u64
  e_shoff :: u64
  e_flags :: u64
  e_ehsize :: u64
  e_phentsize :: u64
  e_phnum :: u64
  e_shentsize :: u64
  e_shnum :: u64
  e_shstrndx :: u64

definition read_ehdr :: "mem8 \<Rightarrow> u64 \<Rightarrow> Elf64_Ehdr" where
  "read_ehdr m p =
     \<lparr>e_ident = bytes_at m p 16, e_type = load_le m (p + 16) 2, e_machine = load_le m (p + 18) 2,
      e_version = load_le m (p + 20) 4, e_entry = load_le m (p + 24) 8, e_phoff = load_le m (p + 32) 8,
      e_shoff = load_le m (p + 40) 8, e_flags = load_le m (p + 48) 4, e_ehsize = load_le m (p + 52) 2,
      e_phentsize = load_le m (p + 54) 2, e_phnum = load_le m (p + 56) 2, e_shentsize = load_le m (p + 58) 2,
      e_shnum = load_le m (p + 60) 2, e_shstrndx = load_le m (p + 62) 2\<rparr>"

record Elf64_Phdr =
  p_type :: u64
  p_flags :: u64
  p_offset :: u64
  p_vaddr :: u64
  p_paddr :: u64
  p_filesz :: u64
  p_memsz :: u64
  p_align :: u64

definition read_phdr :: "mem8 \<Rightarrow> u64 \<Rightarrow> Elf64_Phdr" where
  "read_phdr m p =
     \<lparr>p_type = load_le m p 4, p_flags = load_le m (p + 4) 4, p_offset = load_le m (p + 8) 8,
      p_vaddr = load_le m (p + 16) 8, p_paddr = load_le m (p + 24) 8, p_filesz = load_le m (p + 32) 8,
      p_memsz = load_le m (p + 40) 8, p_align = load_le m (p + 48) 8\<rparr>"

text \<open>\<open>sizeof\<close> of the two structures, and the constants the loader checks for.\<close>

abbreviation (input) EHDR_SIZE :: u64 where "EHDR_SIZE \<equiv> 64"
abbreviation (input) PHDR_SIZE :: u64 where "PHDR_SIZE \<equiv> 56"
abbreviation (input) ELFMAG :: "u8 list" where "ELFMAG \<equiv> [0x7F, 0x45, 0x4C, 0x46]"
abbreviation (input) ELFDATA2MSB :: u8 where "ELFDATA2MSB \<equiv> 2"
abbreviation (input) ET_EXEC :: u64 where "ET_EXEC \<equiv> 2"
abbreviation (input) EM_X86_64 :: u64 where "EM_X86_64 \<equiv> 62"
abbreviation (input) PT_LOAD :: u64 where "PT_LOAD \<equiv> 1"

abbreviation (input) TABLE_ENTRY_NO_EXECUTE :: u64 where
  "TABLE_ENTRY_NO_EXECUTE \<equiv> 0x8000000000000000"

definition elf_header_valid :: "Elf64_Ehdr \<Rightarrow> bool" where
  "elf_header_valid h \<longleftrightarrow>
     take 4 (e_ident h) = ELFMAG \<and> e_ident h ! 4 = ELFDATA2MSB \<and> e_type h = ET_EXEC \<and> e_machine h = EM_X86_64"

subsection \<open>Reading\<close>

definition read_at ::
  "(u64 \<Rightarrow> 'a vfs_state_scheme vfs_fs_ops) \<Rightarrow> u64 \<Rightarrow> u64 \<Rightarrow> u64 \<Rightarrow> u64 \<Rightarrow> 'a vfs_state_scheme \<Rightarrow> 'a vfs_state_scheme res" where
  "read_at ops node offset buffer n s =
     (case vfs_lseek ops node offset SEEK_SET s of
        Inl e \<Rightarrow> Inl e
      | Inr (_, s) \<Rightarrow> map_sum id snd (vfs_read ops node buffer n s))"

definition read_program_header ::
  "(u64 \<Rightarrow> 'a vfs_state_scheme vfs_fs_ops) \<Rightarrow> u64 \<Rightarrow> u64 \<Rightarrow> u64 \<Rightarrow> nat \<Rightarrow> 'a vfs_state_scheme \<Rightarrow>
     (Elf64_Phdr \<times> 'a vfs_state_scheme) res" where
  "read_program_header ops hdr ph node i s =
     (case read_at ops node (e_phoff (read_ehdr (heap_bytes s) hdr) + PHDR_SIZE * of_nat i) ph PHDR_SIZE s of
        Inl e \<Rightarrow> Inl e
      | Inr s \<Rightarrow> Inr (read_phdr (heap_bytes s) ph, s))"

text \<open>The lowest address any segment is loaded to; all ones when there is none.\<close>

fun lowest_segment ::
  "(u64 \<Rightarrow> 'a vfs_state_scheme vfs_fs_ops) \<Rightarrow> u64 \<Rightarrow> u64 \<Rightarrow> u64 \<Rightarrow> nat list \<Rightarrow> u64 \<Rightarrow> 'a vfs_state_scheme \<Rightarrow>
     (u64 \<times> 'a vfs_state_scheme) res" where
  "lowest_segment ops hdr ph node [] base_address s = Inr (base_address, s)"
| "lowest_segment ops hdr ph node (i # is) base_address s =
     (case read_program_header ops hdr ph node i s of
        Inl e \<Rightarrow> Inl e
      | Inr (p, s) \<Rightarrow>
          lowest_segment ops hdr ph node is
            (if p_type p = PT_LOAD \<and> p_vaddr p < base_address then p_vaddr p else base_address) s)"

subsection \<open>Loading\<close>

text \<open>
  How many bytes of the file go to the page at offset \<open>i\<close> of a segment: \<open>None\<close> when the page is skipped. The
  difference is a \<open>long long\<close>; \<open>abs\<close> and \<open>min\<close> work on \<open>int\<close>.
\<close>

definition load_size :: "u64 \<Rightarrow> u64 \<Rightarrow> u64 option" where
  "load_size filesz i =
     (let d = sint (filesz - i)
      in if d < - 4096 then None
         else let d = int_abs (int_of (word_of_int d))
              in Some (size_of_int (int_min d 4096)))"

definition load_page ::
  "(u64 \<Rightarrow> 'a vfs_state_scheme vfs_fs_ops) \<Rightarrow> u64 \<Rightarrow> u64 \<Rightarrow> Elf64_Phdr \<Rightarrow> u64 \<Rightarrow> 'a vfs_state_scheme \<Rightarrow> 'a vfs_state_scheme res" where
  "load_page ops node page_table p i s =
     (case page_allocate 1 s of
        Inl e \<Rightarrow> Inl e
      | Inr (page, s) \<Rightarrow>
     case arch_table_manager_map page_table (p_vaddr p + i) (page - kernel_hhdm_offset s)
            (TABLE_ENTRY_USER OR TABLE_ENTRY_READ_WRITE) (s\<lparr>heap_bytes := memset8 (heap_bytes s) page 0 PAGE\<rparr>) of
        Inl e \<Rightarrow> Inl e
      | Inr s \<Rightarrow>
     case load_size (p_filesz p) i of
        None \<Rightarrow> Inr s
      | Some n \<Rightarrow> read_at ops node (p_offset p + i) page n s)"

text \<open>The pages at offsets \<open>0\<close>, \<open>PAGE\<close>, \<open>2 * PAGE\<close> and so on, up to and including the size of the segment.\<close>

definition load_segment ::
  "(u64 \<Rightarrow> 'a vfs_state_scheme vfs_fs_ops) \<Rightarrow> u64 \<Rightarrow> u64 \<Rightarrow> Elf64_Phdr \<Rightarrow> 'a vfs_state_scheme \<Rightarrow> 'a vfs_state_scheme res" where
  "load_segment ops node page_table p s =
     (if p_type p \<noteq> PT_LOAD then Inr s
      else for_range (\<lambda>k. load_page ops node page_table p (of_nat k * PAGE)) [0..<Suc (unat (p_memsz p) div 4096)] s)"

definition elf_load_from ::
  "(u64 \<Rightarrow> 'a vfs_state_scheme vfs_fs_ops) \<Rightarrow> u64 \<Rightarrow> u64 \<Rightarrow> u64 \<Rightarrow> 'a vfs_state_scheme \<Rightarrow> (bool \<times> 'a vfs_state_scheme) res" where
  "elf_load_from ops hdr ph node s =
     (case read_at ops node 0 hdr EHDR_SIZE s of
        Inl e \<Rightarrow> Inl e
      | Inr s \<Rightarrow>
     if \<not> elf_header_valid (read_ehdr (heap_bytes s) hdr) then map_sum id (Pair False) (vfs_close ops node s)
     else let phnum = unat (e_phnum (read_ehdr (heap_bytes s) hdr))
     in case lowest_segment ops hdr ph node [0..<phnum] (- 1) s of
        Inl e \<Rightarrow> Inl e
      | Inr (base_address, s) \<Rightarrow>
     case arch_table_manager_new s of
        Inl e \<Rightarrow> Inl e
      | Inr (page_table, s) \<Rightarrow>
     let s = s\<lparr>memory := share_higher_half page_table (arch_bootstrap_page_table s) (memory s)\<rparr>
     in case for_range (\<lambda>i s. case read_program_header ops hdr ph node i s of
                                Inl e \<Rightarrow> Inl e
                              | Inr (p, s) \<Rightarrow> load_segment ops node page_table p s) [0..<phnum] s of
        Inl e \<Rightarrow> Inl e
      | Inr s \<Rightarrow>
     let stack_base = base_address - PAGE
     in case page_allocate 1 s of
        Inl e \<Rightarrow> Inl e
      | Inr (stack, s) \<Rightarrow>
     case arch_table_manager_map page_table stack_base (stack - kernel_hhdm_offset s)
            (TABLE_ENTRY_USER OR TABLE_ENTRY_READ_WRITE OR TABLE_ENTRY_NO_EXECUTE) s of
        Inl e \<Rightarrow> Inl e
      | Inr s \<Rightarrow>
     case strlen (heap_bytes s) (node_path (nodes s node)) of
        None \<Rightarrow> Inl Diverges
      | Some n \<Rightarrow>
     case task_scheduler_round_robin_create (bytes_at (heap_bytes s) (node_path (nodes s node)) (unat n)) s of
        Inl e \<Rightarrow> Inl e
      | Inr (new_task, s) \<Rightarrow>
     let s = upd_task new_task (\<lambda>t. t\<lparr>task_state := (task_state t)\<lparr>reg_cr3 := page_table - kernel_hhdm_offset s,
               reg_rip := e_entry (read_ehdr (heap_bytes s) hdr), reg_rflags := 0x202,
               reg_rsp := stack_base + PAGE - 8, reg_cs := 8 * 4 OR 3, reg_ss := 8 * 3 OR 3\<rparr>,
               virtual_stack_top := stack_base + PAGE, task_empty := False\<rparr>) s
     in map_sum id (Pair True) (vfs_close ops node s))"

text \<open>
  The last part of \<open>_start\<close> in \<open>kernel/src/main.c\<close>: the first program is loaded. \<open>path\<close> is the address of the string
  \<open>/init.elf\<close>; a file that cannot be opened is a panic, and what the loader answers is not looked at.
\<close>

definition load_init ::
  "(u64 \<Rightarrow> 'a vfs_state_scheme vfs_fs_ops) \<Rightarrow> u64 \<Rightarrow> u64 \<Rightarrow> u64 \<Rightarrow> 'a vfs_state_scheme \<Rightarrow> 'a vfs_state_scheme res" where
  "load_init ops hdr ph path s =
     (case vfs_open ops path O_RDONLY s of
        Inl e \<Rightarrow> Inl e
      | Inr (init_node, s) \<Rightarrow>
     if is_error init_node then Inl (Panic ''failed to open init.elf from initrd'')
     else map_sum id snd (elf_load_from ops hdr ph init_node s))"

end
