(* ===== verification/Devices.thy ===== *)
theory Devices
  imports Vfs
begin

text \<open>
  The device manager of \<open>kernel/src/devices/manager.c\<close>: the tree of devices and the file system \<open>devfs\<close>
  that opens them by path.

  A device is a record in a store; \<open>dev_next\<close> leads to its siblings, \<open>dev_child\<close> to the dummy
  device at the head of its children, \<open>dev_parent\<close> up. Callbacks are addresses, zero for a null pointer. What
  runs behind them is \<open>rw\<close> for read and write and \<open>init\<close> for the initialisation of a node: arguments of the
  operations that call them. \<open>dot\<close> is the address of the string constant that names a dummy device. Walks
  that may never end have fuel: the number of turns of a loop and the depth of a recursion.
\<close>

datatype device_type = other | reserved | serial | framebuffer | timer | hmi | module | acpi_table

record device =
  dev_name :: u64
  dev_name_length :: u64
  dev_type :: device_type
  dev_read :: u64
  dev_write :: u64
  dev_initialise_node :: u64
  dev_parent :: u64
  dev_child :: u64
  dev_next :: u64

definition zero_device :: device where
  "zero_device = \<lparr>dev_name = 0, dev_name_length = 0, dev_type = other, dev_read = 0, dev_write = 0,
     dev_initialise_node = 0, dev_parent = 0, dev_child = 0, dev_next = 0\<rparr>"

record dev_state = vfs_state +
  devices :: "u64 \<Rightarrow> device"
  device_list :: u64

definition upd_device :: "u64 \<Rightarrow> (device \<Rightarrow> device) \<Rightarrow> 'a dev_state_scheme \<Rightarrow> 'a dev_state_scheme" where
  "upd_device d f s = s\<lparr>devices := (devices s)(d := f (devices s d))\<rparr>"

text \<open>\<open>sizeof(device_t)\<close> and \<open>sizeof(device_node_t)\<close>.\<close>

abbreviation (input) DEVICE_SIZE :: u64 where "DEVICE_SIZE \<equiv> 80"
abbreviation (input) DEVICE_NODE_SIZE :: u64 where "DEVICE_NODE_SIZE \<equiv> 64"

subsection \<open>Creating devices\<close>

definition allocate_device ::
  "u64 \<Rightarrow> device_type \<Rightarrow> u64 \<Rightarrow> u64 \<Rightarrow> u64 \<Rightarrow> 'a dev_state_scheme \<Rightarrow> (u64 \<times> 'a dev_state_scheme) res" where
  "allocate_device path type initialise_node read write s =
     (case block_allocate DEVICE_SIZE s of
        Inl e \<Rightarrow> Inl e
      | Inr (dev, s) \<Rightarrow>
     case strlen (heap_bytes s) path of
        None \<Rightarrow> Inl Diverges
      | Some path_len \<Rightarrow>
     case duplicate_bytes path path_len s of
        Inl e \<Rightarrow> Inl e
      | Inr (name, s) \<Rightarrow>
          Inr (dev, s\<lparr>devices := (devices s)(dev := zero_device\<lparr>dev_name := name, dev_name_length := path_len,
                 dev_read := read, dev_write := write, dev_type := type, dev_initialise_node := initialise_node\<rparr>)\<rparr>))"

definition allocate_dummy :: "u64 \<Rightarrow> 'a dev_state_scheme \<Rightarrow> (u64 \<times> 'a dev_state_scheme) res" where
  "allocate_dummy dot s = allocate_device dot reserved 0 0 0 s"

text \<open>The number of characters up to the next delimiter or the end.\<close>

partial_function (option) directory_length :: "mem8 \<Rightarrow> u64 \<Rightarrow> u64 \<Rightarrow> u64 option" where
  "directory_length m path dir_len =
     (if m (path + dir_len) \<noteq> SLASH \<and> m (path + dir_len) \<noteq> 0 then directory_length m path (dir_len + 1)
      else Some dir_len)"

text \<open>The first device of a list whose whole name is the given one; null when there is none.\<close>

partial_function (option) find_device :: "mem8 \<Rightarrow> (u64 \<Rightarrow> device) \<Rightarrow> u64 \<Rightarrow> u64 \<Rightarrow> u64 \<Rightarrow> u64 option" where
  "find_device m devs name dir_len dev =
     (if dev = 0 then Some 0
      else if dir_len = dev_name_length (devs dev) \<and> strncmp m name (dev_name (devs dev)) dir_len = 0 then Some dev
      else find_device m devs name dir_len (dev_next (devs dev)))"

text \<open>Step down into a directory: its list of children is created on the way when it has none.\<close>

definition enter_directory :: "u64 \<Rightarrow> u64 \<Rightarrow> 'a dev_state_scheme \<Rightarrow> (u64 \<times> 'a dev_state_scheme) res" where
  "enter_directory dot dev s =
     (case (if dev_child (devices s dev) = 0
            then map_sum id (\<lambda>(child, s). upd_device dev (dev_child_update (\<lambda>_. child)) s) (allocate_dummy dot s)
            else Inr s) of
        Inl e \<Rightarrow> Inl e
      | Inr s \<Rightarrow>
          let child = dev_child (devices s dev)
          in Inr (child, upd_device child (dev_parent_update (\<lambda>_. dev)) s))"

text \<open>The search of one directory on the way down: the name is copied, compared and freed.\<close>

definition descend ::
  "u64 \<Rightarrow> u64 \<Rightarrow> u64 \<Rightarrow> u64 \<Rightarrow> 'a dev_state_scheme \<Rightarrow> (u64 \<times> u64 \<times> 'a dev_state_scheme) res" where
  "descend dot path dir_len list s =
     (case duplicate_bytes path dir_len s of
        Inl e \<Rightarrow> Inl e
      | Inr (name, s) \<Rightarrow>
     case find_device (heap_bytes s) (devices s) name dir_len list of
        None \<Rightarrow> Inl Diverges
      | Some dev \<Rightarrow>
     case (if dev \<noteq> 0 then enter_directory dot dev s else Inr (list, s)) of
        Inl e \<Rightarrow> Inl e
      | Inr (list, s) \<Rightarrow>
     case block_deallocate name s of
        Inl e \<Rightarrow> Inl e
      | Inr s \<Rightarrow> Inr (dev, list, s))"

text \<open>
  The last device of a list, unless one has a name that starts with the path: then \<open>Inl\<close>. The walk
  does not end on a list with a cycle.
\<close>

partial_function (option) last_device ::
  "mem8 \<Rightarrow> (u64 \<Rightarrow> device) \<Rightarrow> u64 \<Rightarrow> u64 \<Rightarrow> u64 \<Rightarrow> u64 \<Rightarrow> (unit + u64) option" where
  "last_device m devs path path_len last_one current =
     (if current = 0 then Some (Inr last_one)
      else if strncmp m (dev_name (devs current)) path path_len = 0 then Some (Inl ())
      else last_device m devs path path_len current (dev_next (devs current)))"

text \<open>The deepest component of a path: the device itself, appended to its list.\<close>

definition append_device ::
  "u64 \<Rightarrow> u64 \<Rightarrow> u64 \<Rightarrow> device_type \<Rightarrow> u64 \<Rightarrow> u64 \<Rightarrow> u64 \<Rightarrow> 'a dev_state_scheme \<Rightarrow> (u64 \<times> 'a dev_state_scheme) res" where
  "append_device dot path list type initialise_node read write s =
     (case strlen (heap_bytes s) path of
        None \<Rightarrow> Inl Diverges
      | Some path_len \<Rightarrow>
     let create_as_dir = heap_bytes s (path + path_len - 1) = SLASH
     in case last_device (heap_bytes s) (devices s) path path_len 0 list of
        None \<Rightarrow> Inl Diverges
      | Some (Inl _) \<Rightarrow> Inr (0, s)
      | Some (Inr last_one) \<Rightarrow>
     if last_one = 0 then Inl Null_Dereference
     else case allocate_device path type initialise_node read write s of
        Inl e \<Rightarrow> Inl e
      | Inr (dev, s) \<Rightarrow>
     let s = upd_device last_one (dev_next_update (\<lambda>_. dev)) s;
         s = upd_device dev (dev_parent_update (\<lambda>_. dev_parent (devices s last_one))) s
     in if \<not> create_as_dir then Inr (dev, s)
        else case allocate_dummy dot s of
               Inl e \<Rightarrow> Inl e
             | Inr (child, s) \<Rightarrow>
                 let s = upd_device dev (\<lambda>d. d\<lparr>dev_child := child, dev_name_length := dev_name_length d - 1\<rparr>) s;
                     name = dev_name (devices s dev)
                 in case strlen (heap_bytes s) name of
                      None \<Rightarrow> Inl Diverges
                    | Some n \<Rightarrow> Inr (dev, s\<lparr>heap_bytes := (heap_bytes s)(name + n - 1 := 0)\<rparr>))"

text \<open>
  The loop over the components of a path; \<open>create\<close> makes a missing parent directory. The copy of
  the path is freed on every return.
\<close>

fun create_walk ::
  "nat \<Rightarrow> (u64 \<Rightarrow> 'a dev_state_scheme \<Rightarrow> (u64 \<times> 'a dev_state_scheme) res) \<Rightarrow> u64 \<Rightarrow> u64 \<Rightarrow> u64 \<Rightarrow> u64 \<Rightarrow> u64 \<Rightarrow>
     device_type \<Rightarrow> u64 \<Rightarrow> u64 \<Rightarrow> u64 \<Rightarrow> 'a dev_state_scheme \<Rightarrow> (u64 \<times> 'a dev_state_scheme) res" where
  "create_walk 0 create dot path_orig path total_path_offset list type initialise_node read write s = Inl Diverges"
| "create_walk (Suc fuel) create dot path_orig path total_path_offset list type initialise_node read write s =
     (if heap_bytes s path = 0 then map_sum id (Pair 0) (block_deallocate path_orig s)
      else case directory_length (heap_bytes s) path 0 of
        None \<Rightarrow> Inl Diverges
      | Some dir_len \<Rightarrow>
     if dir_len = 0 then
       create_walk fuel create dot path_orig (path + 1) (total_path_offset + 1) list type initialise_node read write s
     else if heap_bytes s (path + dir_len) = SLASH \<and> heap_bytes s (path + dir_len + 1) \<noteq> 0 then
       (case descend dot path dir_len list s of
          Inl e \<Rightarrow> Inl e
        | Inr (dev, list, s) \<Rightarrow>
       let path = path + dir_len;
           total_path_offset = total_path_offset + dir_len;
           (path, total_path_offset) =
             (if heap_bytes s path = SLASH then (path + 1, total_path_offset + 1) else (path, total_path_offset))
       in if dev \<noteq> 0 then
            create_walk fuel create dot path_orig path total_path_offset list type initialise_node read write s
          else
            (case block_allocate total_path_offset s of
               Inl e \<Rightarrow> Inl e
             | Inr (parent, s) \<Rightarrow>
            case create parent (s\<lparr>heap_bytes := memcpy (heap_bytes s) parent path_orig (total_path_offset - 1)\<rparr>) of
               Inl e \<Rightarrow> Inl e
             | Inr (new_dev, s) \<Rightarrow>
            case allocate_dummy dot s of
               Inl e \<Rightarrow> Inl e
             | Inr (child, s) \<Rightarrow>
            if new_dev = 0 then Inl Null_Dereference
            else let s = upd_device new_dev (dev_child_update (\<lambda>_. child)) s;
                     s = upd_device child (dev_parent_update (\<lambda>_. new_dev)) s
                 in case block_deallocate parent s of
                      Inl e \<Rightarrow> Inl e
                    | Inr s \<Rightarrow>
                        create_walk fuel create dot path_orig path total_path_offset child type initialise_node read write s))
     else
       (case append_device dot path list type initialise_node read write s of
          Inl e \<Rightarrow> Inl e
        | Inr (dev, s) \<Rightarrow> map_sum id (Pair dev) (block_deallocate path_orig s)))"

fun device_create_at ::
  "nat \<Rightarrow> u64 \<Rightarrow> u64 \<Rightarrow> device_type \<Rightarrow> u64 \<Rightarrow> u64 \<Rightarrow> u64 \<Rightarrow> 'a dev_state_scheme \<Rightarrow> (u64 \<times> 'a dev_state_scheme) res" where
  "device_create_at 0 dot path type initialise_node read write s = Inl Diverges"
| "device_create_at (Suc fuel) dot path type initialise_node read write s =
     (case strlen (heap_bytes s) path of
        None \<Rightarrow> Inl Diverges
      | Some n \<Rightarrow>
     case block_allocate (n + 1) s of
        Inl e \<Rightarrow> Inl e
      | Inr (sanatised_path, s) \<Rightarrow>
     case strcpy (heap_bytes s) sanatised_path path of
        None \<Rightarrow> Inl Diverges
      | Some m \<Rightarrow>
     case vfs_sanatise_path m sanatised_path of
        None \<Rightarrow> Inl Diverges
      | Some (m, _) \<Rightarrow>
     let s = s\<lparr>heap_bytes := m\<rparr>;
         (path, total_path_offset) =
           (if m sanatised_path = SLASH then (sanatised_path + 1, 1) else (sanatised_path, 0))
     in create_walk (Suc fuel) (\<lambda>parent. device_create_at fuel dot parent reserved 0 0 0) dot sanatised_path path
          total_path_offset (device_list s) type initialise_node read write s)"

subsection \<open>Paths of devices\<close>

text \<open>A device and its ancestors, from the device up to the root.\<close>

partial_function (option) ancestors :: "(u64 \<Rightarrow> device) \<Rightarrow> u64 \<Rightarrow> u64 list option" where
  "ancestors devs d =
     (if d = 0 then Some []
      else Option.bind (ancestors devs (dev_parent (devs d))) (\<lambda>ds. Some (d # ds)))"

fun write_path :: "mem8 \<Rightarrow> (u64 \<Rightarrow> device) \<Rightarrow> u64 \<Rightarrow> u64 \<Rightarrow> u64 list \<Rightarrow> u64 \<Rightarrow> (mem8 \<times> u64) option" where
  "write_path m devs path path_len [] offset = Some (m, offset)"
| "write_path m devs path path_len (d # ds) offset =
     (if path_len \<le> offset then Some (m, offset)
      else let m = m(path + offset := SLASH);
               offset = offset + 1
           in if path_len \<le> offset then Some (m, offset)
              else (case strlen m (dev_name (devs d)) of
                      None \<Rightarrow> None
                    | Some n \<Rightarrow>
                        let m = memcpy m (path + offset) (dev_name (devs d)) (clamp_length n (path_len - offset))
                        in (case strlen m (dev_name (devs d)) of
                              None \<Rightarrow> None
                            | Some n \<Rightarrow> write_path m devs path path_len ds (offset + n))))"

definition device_generate_path_of ::
  "u64 \<Rightarrow> u64 \<Rightarrow> u64 \<Rightarrow> 'a dev_state_scheme \<Rightarrow> (u64 \<times> 'a dev_state_scheme) res" where
  "device_generate_path_of device path path_len s =
     (case ancestors (devices s) device of
        None \<Rightarrow> Inl Diverges
      | Some ds \<Rightarrow>
     case block_allocate (of_nat (length ds) * 8) s of
        Inl e \<Rightarrow> Inl e
      | Inr (hierarchy, s) \<Rightarrow>
     case write_path (heap_bytes s) (devices s) path (path_len - 1) (rev ds) 0 of
        None \<Rightarrow> Inl Diverges
      | Some (m, offset) \<Rightarrow>
          map_sum id (Pair path) (block_deallocate hierarchy (s\<lparr>heap_bytes := m(path + offset := 0)\<rparr>)))"

text \<open>The tree is searched depth first; the index counts down at every device of the type.\<close>

fun device_get_by_type_recursive ::
  "nat \<Rightarrow> u64 \<Rightarrow> device_type \<Rightarrow> u64 \<Rightarrow> u64 \<Rightarrow> u64 \<Rightarrow> 'a dev_state_scheme \<Rightarrow> (u64 \<times> u64 \<times> 'a dev_state_scheme) res" where
  "device_get_by_type_recursive 0 dev type path path_len index s = Inl Diverges"
| "device_get_by_type_recursive (Suc fuel) dev type path path_len index s =
     (if dev = 0 then Inr (0, index, s)
      else if dev_type (devices s dev) = type \<and> index = 0 then
        (case device_generate_path_of dev path path_len s of
           Inl e \<Rightarrow> Inl e
         | Inr (ret, s) \<Rightarrow> Inr (ret, index - 1, s))
      else
        let index = (if dev_type (devices s dev) = type then index - 1 else index)
        in if dev_child (devices s dev) = 0 then
             device_get_by_type_recursive fuel (dev_next (devices s dev)) type path path_len index s
           else
             (case device_get_by_type_recursive fuel (dev_child (devices s dev)) type path path_len index s of
                Inl e \<Rightarrow> Inl e
              | Inr (ret, index, s) \<Rightarrow>
                  if ret \<noteq> 0 then Inr (ret, index, s)
                  else device_get_by_type_recursive fuel (dev_next (devices s dev)) type path path_len index s))"

definition device_get_by_type ::
  "nat \<Rightarrow> device_type \<Rightarrow> u64 \<Rightarrow> u64 \<Rightarrow> u64 \<Rightarrow> 'a dev_state_scheme \<Rightarrow> (u64 \<times> 'a dev_state_scheme) res" where
  "device_get_by_type fuel type path path_len index s =
     map_sum id (\<lambda>(ret, _, s). (ret, s))
       (device_get_by_type_recursive fuel (device_list s) type path path_len index s)"

subsection \<open>The file system of devices\<close>

text \<open>The device at the end of a path: access is checked, a node is made and the device may initialise it.\<close>

definition open_device ::
  "(u64 \<Rightarrow> u64 \<Rightarrow> 'a dev_state_scheme \<Rightarrow> 'a dev_state_scheme res) \<Rightarrow> u64 \<Rightarrow> u64 \<Rightarrow> u64 \<Rightarrow> u64 \<Rightarrow>
     'a dev_state_scheme \<Rightarrow> (u64 \<times> 'a dev_state_scheme) res" where
  "open_device init fs path_orig mode dev s =
     (if mode AND O_RDONLY \<noteq> 0 \<and> dev_read (devices s dev) = 0 then Inr (- EACCES, s)
      else if mode AND O_WRONLY \<noteq> 0 \<and> dev_write (devices s dev) = 0 then Inr (- EACCES, s)
      else case block_allocate DEVICE_NODE_SIZE s of
        Inl e \<Rightarrow> Inl e
      | Inr (node, s) \<Rightarrow>
     case strlen (heap_bytes s) path_orig of
        None \<Rightarrow> Inl Diverges
      | Some path_len \<Rightarrow>
     case duplicate_bytes path_orig path_len s of
        Inl e \<Rightarrow> Inl e
      | Inr (path, s) \<Rightarrow>
     let s = set_node node (zero_node\<lparr>node_path_length := path_len, node_path := path, node_fs := fs,
               is_device := True, node_mode := mode, node_private := dev\<rparr>) s
     in if dev_initialise_node (devices s dev) \<noteq> 0
        then map_sum id (Pair node) (init (dev_initialise_node (devices s dev)) node s)
        else Inr (node, s))"

fun devfs_walk ::
  "nat \<Rightarrow> (u64 \<Rightarrow> u64 \<Rightarrow> 'a dev_state_scheme \<Rightarrow> 'a dev_state_scheme res) \<Rightarrow> u64 \<Rightarrow> u64 \<Rightarrow> u64 \<Rightarrow> u64 \<Rightarrow> u64 \<Rightarrow> u64 \<Rightarrow>
     'a dev_state_scheme \<Rightarrow> (u64 \<times> 'a dev_state_scheme) res" where
  "devfs_walk 0 init dot fs path_orig path list mode s = Inl Diverges"
| "devfs_walk (Suc fuel) init dot fs path_orig path list mode s =
     (if heap_bytes s path = 0 then Inr (- ENOENT, s)
      else case directory_length (heap_bytes s) path 0 of
        None \<Rightarrow> Inl Diverges
      | Some dir_len \<Rightarrow>
     if dir_len = 0 then devfs_walk fuel init dot fs path_orig (path + 1) list mode s
     else if heap_bytes s (path + dir_len) = SLASH \<and> heap_bytes s (path + dir_len + 1) \<noteq> 0 then
       (case descend dot path dir_len list s of
          Inl e \<Rightarrow> Inl e
        | Inr (dev, list, s) \<Rightarrow>
            let path = path + dir_len;
                path = (if heap_bytes s path = SLASH then path + 1 else path)
            in if dev = 0 then Inr (- ENOENT, s)
               else devfs_walk fuel init dot fs path_orig path list mode s)
     else
       (case find_device (heap_bytes s) (devices s) path dir_len list of
          None \<Rightarrow> Inl Diverges
        | Some dev \<Rightarrow> if dev = 0 then Inr (- ENOENT, s) else open_device init fs path_orig mode dev s))"

definition devfs_open ::
  "nat \<Rightarrow> (u64 \<Rightarrow> u64 \<Rightarrow> 'a dev_state_scheme \<Rightarrow> 'a dev_state_scheme res) \<Rightarrow> u64 \<Rightarrow> u64 \<Rightarrow> u64 \<Rightarrow> u64 \<Rightarrow>
     'a dev_state_scheme \<Rightarrow> (u64 \<times> 'a dev_state_scheme) res" where
  "devfs_open fuel init dot fs path mode s =
     devfs_walk fuel init dot fs path (if heap_bytes s path = SLASH then path + 1 else path) (device_list s) mode s"

definition devfs_close :: "u64 \<Rightarrow> 'a dev_state_scheme \<Rightarrow> 'a dev_state_scheme res" where
  "devfs_close node s =
     (case (if node_path (nodes s node) \<noteq> 0 then block_deallocate (node_path (nodes s node)) s else Inr s) of
        Inl e \<Rightarrow> Inl e
      | Inr s \<Rightarrow> block_deallocate node s)"

text \<open>Reading and writing call the device; \<open>rw\<close> is the code behind the callback addresses.\<close>

type_synonym 's rw_callback = "u64 \<Rightarrow> u64 \<Rightarrow> u64 \<Rightarrow> u64 \<Rightarrow> 's \<Rightarrow> (u64 \<times> 's) res"

definition devfs_read ::
  "'a dev_state_scheme rw_callback \<Rightarrow> u64 \<Rightarrow> u64 \<Rightarrow> u64 \<Rightarrow> 'a dev_state_scheme \<Rightarrow> (u64 \<times> 'a dev_state_scheme) res" where
  "devfs_read rw node buffer n s =
     (let callback = dev_read (devices s (node_private (nodes s node)))
      in if callback = 0 then Inr (- EBADF, s) else rw callback node buffer n s)"

definition devfs_write ::
  "'a dev_state_scheme rw_callback \<Rightarrow> u64 \<Rightarrow> u64 \<Rightarrow> u64 \<Rightarrow> 'a dev_state_scheme \<Rightarrow> (u64 \<times> 'a dev_state_scheme) res" where
  "devfs_write rw node buffer n s =
     (let callback = dev_write (devices s (node_private (nodes s node)))
      in if callback = 0 then Inr (- EBADF, s) else rw callback node buffer n s)"

text \<open>A node that could not be opened again is an error value, and writing to it is an invalid access.\<close>

definition devfs_dup ::
  "nat \<Rightarrow> (u64 \<Rightarrow> u64 \<Rightarrow> 'a dev_state_scheme \<Rightarrow> 'a dev_state_scheme res) \<Rightarrow> u64 \<Rightarrow> u64 \<Rightarrow>
     'a dev_state_scheme \<Rightarrow> (u64 \<times> 'a dev_state_scheme) res" where
  "devfs_dup fuel init dot node s =
     (case devfs_open fuel init dot (node_fs (nodes s node)) (node_path (nodes s node)) (node_mode (nodes s node)) s of
        Inl e \<Rightarrow> Inl e
      | Inr (new_node, s) \<Rightarrow>
          if is_error new_node then Inl Null_Dereference
          else Inr (new_node, set_node new_node ((nodes s new_node)\<lparr>seek_position := seek_position (nodes s node),
                 max_seek_position := max_seek_position (nodes s node)\<rparr>) s))"

definition devfs ::
  "nat \<Rightarrow> (u64 \<Rightarrow> u64 \<Rightarrow> 'a dev_state_scheme \<Rightarrow> 'a dev_state_scheme res) \<Rightarrow> 'a dev_state_scheme rw_callback \<Rightarrow> u64 \<Rightarrow>
     'a dev_state_scheme vfs_fs_ops" where
  "devfs fuel init rw dot =
     \<lparr>fs_open = Some (devfs_open fuel init dot), fs_read = Some (devfs_read rw), fs_write = Some (devfs_write rw),
      fs_lseek = None, fs_close = Some devfs_close, fs_dup = Some (devfs_dup fuel init dot),
      fs_async_task_register = None, fs_async_task_update = None, fs_async_task_unregister = None\<rparr>"

text \<open>
  Start-up: mount the file system, create the head of the tree and let every driver add its devices, in
  the order of the list.
\<close>

fun create_devices ::
  "('a dev_state_scheme \<Rightarrow> 'a dev_state_scheme res) list \<Rightarrow> 'a dev_state_scheme \<Rightarrow> 'a dev_state_scheme res" where
  "create_devices [] s = Inr s"
| "create_devices (create # creates) s =
     (case create s of Inl e \<Rightarrow> Inl e | Inr s \<Rightarrow> create_devices creates s)"

definition device_manager_init ::
  "u64 \<Rightarrow> u64 \<Rightarrow> u64 \<Rightarrow> ('a dev_state_scheme \<Rightarrow> 'a dev_state_scheme res) list \<Rightarrow>
     'a dev_state_scheme \<Rightarrow> 'a dev_state_scheme res" where
  "device_manager_init dot mount_path fs creates s =
     (case vfs_mount_fs mount_path fs s of
        Inl e \<Rightarrow> Inl e
      | Inr s \<Rightarrow>
     case allocate_dummy dot s of
        Inl e \<Rightarrow> Inl e
      | Inr (head, s) \<Rightarrow> create_devices creates (s\<lparr>device_list := head\<rparr>))"

end
