(* ===== verification/Ustar.thy ===== *)
theory Ustar
  imports Devices
begin

text \<open>
  The initial ramdisk: modules handed over by the boot loader (\<open>kernel/src/boot/limine.c\<close>) and the read-only
  tar file system on one of them (\<open>kernel/src/filesystem/ustar.c\<close>).

  An archive is bytes in memory: a header block of 512 bytes with the name at offset 0 and the size,
  in octal digits, at offset 124, followed by the contents padded to full blocks. The modules are what the
  boot loader's response lists; \<open>None\<close> when there is no response.
\<close>

subsection \<open>Modules\<close>

record limine_file =
  file_address :: u64
  file_size :: u64
  file_path :: u64

partial_function (option) skip_delimiters :: "mem8 \<Rightarrow> u64 \<Rightarrow> u64 option" where
  "skip_delimiters m p = (if m p \<noteq> 0 \<and> m p = SLASH then skip_delimiters m (p + 1) else Some p)"

fun find_module :: "mem8 \<Rightarrow> u64 \<Rightarrow> limine_file list \<Rightarrow> limine_file option option" where
  "find_module m path [] = Some None"
| "find_module m path (file # files) =
     (case (if m path \<noteq> SLASH then skip_delimiters m (file_path file) else Some (file_path file)) of
        None \<Rightarrow> None
      | Some fpath \<Rightarrow>
          (case strlen m path of
             None \<Rightarrow> None
           | Some n \<Rightarrow> if strncmp m fpath path n = 0 then Some (Some file) else find_module m path files))"

definition limine_get_module :: "limine_file list option \<Rightarrow> mem8 \<Rightarrow> u64 \<Rightarrow> limine_file option res" where
  "limine_get_module modules m path =
     (case modules of
        None \<Rightarrow> Inl Null_Dereference
      | Some files \<Rightarrow> (case find_module m path files of None \<Rightarrow> Inl Diverges | Some f \<Rightarrow> Inr f))"

text \<open>The offset of the direct map is what the boot loader's response says.\<close>

definition limine_init :: "u64 \<Rightarrow> 'a dev_state_scheme \<Rightarrow> 'a dev_state_scheme" where
  "limine_init offset s = s\<lparr>kernel_hhdm_offset := offset\<rparr>"

fun create_module_devices ::
  "nat \<Rightarrow> u64 \<Rightarrow> u64 \<Rightarrow> limine_file list \<Rightarrow> 'a dev_state_scheme \<Rightarrow> 'a dev_state_scheme res" where
  "create_module_devices fuel dot path [] s = Inr s"
| "create_module_devices fuel dot path (f # files) s =
     (case strcpy (heap_bytes s) (path + 14) (file_path f) of
        None \<Rightarrow> Inl Diverges
      | Some m \<Rightarrow>
     case device_create_at fuel dot path module 0 0 0 (s\<lparr>heap_bytes := m\<rparr>) of
        Inl e \<Rightarrow> Inl e
      | Inr (_, s) \<Rightarrow> create_module_devices fuel dot path files s)"

text \<open>\<open>root\<close> is the address of the string \<open>"/boot/modules/"\<close>. The page of the path is not given back.\<close>

definition limine_create_device ::
  "nat \<Rightarrow> u64 \<Rightarrow> u64 \<Rightarrow> limine_file list option \<Rightarrow> 'a dev_state_scheme \<Rightarrow> 'a dev_state_scheme res" where
  "limine_create_device fuel dot root modules s =
     (case allocate_buffer s of
        Inl e \<Rightarrow> Inl e
      | Inr (path, s) \<Rightarrow>
     case strcpy (heap_bytes s) path root of
        None \<Rightarrow> Inl Diverges
      | Some m \<Rightarrow>
     case device_create_at fuel dot path reserved 0 0 0 (s\<lparr>heap_bytes := m\<rparr>) of
        Inl e \<Rightarrow> Inl e
      | Inr (_, s) \<Rightarrow>
     case modules of
        None \<Rightarrow> Inr s
      | Some files \<Rightarrow> create_module_devices fuel dot path files s)"

subsection \<open>Headers\<close>

record ustar_state = dev_state +
  initrd :: u64

abbreviation (input) TAR_BLOCK_SIZE :: u64 where "TAR_BLOCK_SIZE \<equiv> 512"
abbreviation (input) USTAR_NODE_SIZE :: u64 where "USTAR_NODE_SIZE \<equiv> 64"

text \<open>\<open>offsetof(ustar_header_t, size)\<close>.\<close>

abbreviation (input) SIZE_OFFSET :: u64 where "SIZE_OFFSET \<equiv> 124"

definition parse_size_step :: "u8 \<Rightarrow> u64 \<Rightarrow> u64" where
  "parse_size_step c n = (if c = 0 \<or> c = 0x20 then n else n * 8 + (scast c - 0x30))"

definition parse_size_of :: "mem8 \<Rightarrow> u64 \<Rightarrow> u64" where
  "parse_size_of m header = fold (\<lambda>i. parse_size_step (m (header + SIZE_OFFSET + of_nat i))) [0..<12] 0"

definition real_size :: "u64 \<Rightarrow> u64" where
  "real_size n =
     (let n = n + TAR_BLOCK_SIZE
      in if n mod TAR_BLOCK_SIZE \<noteq> 0 then n + (512 - n mod TAR_BLOCK_SIZE) else n)"

partial_function (option) open_header_loop :: "mem8 \<Rightarrow> u64 \<Rightarrow> u64 \<Rightarrow> u64 \<Rightarrow> u64 option" where
  "open_header_loop m path path_len header =
     (if m header = 0 then Some 0
      else if strncmp m path (header + 2) path_len = 0 then Some header
      else open_header_loop m path path_len (header + real_size (parse_size_of m header)))"

definition ustar_open_header :: "u64 \<Rightarrow> 'a ustar_state_scheme \<Rightarrow> u64 res" where
  "ustar_open_header path s =
     (let header = initrd s + TAR_BLOCK_SIZE
      in if heap_bytes s header = 0 then Inr 0
         else case strlen (heap_bytes s) path of
                None \<Rightarrow> Inl Diverges
              | Some path_len \<Rightarrow>
                  (case open_header_loop (heap_bytes s) path path_len header of
                     None \<Rightarrow> Inl Diverges
                   | Some h \<Rightarrow> Inr h))"

subsection \<open>Operations\<close>

definition ustar_open ::
  "u64 \<Rightarrow> u64 \<Rightarrow> u64 \<Rightarrow> 'a ustar_state_scheme \<Rightarrow> (u64 \<times> 'a ustar_state_scheme) res" where
  "ustar_open fs path mode s =
     (if mode AND O_WRONLY \<noteq> 0 then Inr (- EACCES, s)
      else case block_allocate USTAR_NODE_SIZE s of
        Inl e \<Rightarrow> Inl e
      | Inr (node, s) \<Rightarrow>
     case ustar_open_header path s of
        Inl e \<Rightarrow> Inl e
      | Inr header \<Rightarrow>
     if header = 0 then Inr (- ENOENT, s)
     else case strlen (heap_bytes s) path of
        None \<Rightarrow> Inl Diverges
      | Some path_len \<Rightarrow>
     case duplicate_bytes path path_len s of
        Inl e \<Rightarrow> Inl e
      | Inr (copy, s) \<Rightarrow>
          Inr (node, set_node node (zero_node\<lparr>node_path_length := path_len, node_path := copy, node_fs := fs,
                 max_seek_position := parse_size_of (heap_bytes s) header, node_mode := mode,
                 node_private := header\<rparr>) s))"

definition ustar_dup :: "u64 \<Rightarrow> 'a ustar_state_scheme \<Rightarrow> (u64 \<times> 'a ustar_state_scheme) res" where
  "ustar_dup node s =
     (case ustar_open (node_fs (nodes s node)) (node_path (nodes s node)) (node_mode (nodes s node)) s of
        Inl e \<Rightarrow> Inl e
      | Inr (new_node, s) \<Rightarrow>
          if is_error new_node then Inl Null_Dereference
          else Inr (new_node, set_node new_node
                 ((nodes s new_node)\<lparr>seek_position := seek_position (nodes s node)\<rparr>) s))"

definition ustar_read ::
  "u64 \<Rightarrow> u64 \<Rightarrow> u64 \<Rightarrow> 'a ustar_state_scheme \<Rightarrow> (u64 \<times> 'a ustar_state_scheme) res" where
  "ustar_read node buffer n s =
     (let nd = nodes s node;
          node_size = parse_size_of (heap_bytes s) (node_private nd);
          n = clamp_length node_size n
      in if seek_position nd \<ge> node_size then Inr (- EINVAL, s)
         else let n = (if seek_position nd \<ge> node_size then node_size - seek_position nd else n);
                  contents = node_private nd + TAR_BLOCK_SIZE;
                  m = memcpy (heap_bytes s) buffer (contents + seek_position nd) n
              in Inr (n, set_node node (nd\<lparr>seek_position := seek_position nd + n\<rparr>) (s\<lparr>heap_bytes := m\<rparr>)))"

definition ustar_lseek ::
  "u64 \<Rightarrow> u64 \<Rightarrow> int \<Rightarrow> 'a ustar_state_scheme \<Rightarrow> (u64 \<times> 'a ustar_state_scheme) res" where
  "ustar_lseek node offset whence s =
     (let nd = nodes s node;
          pos = (if whence = SEEK_SET then offset
                 else if whence = SEEK_CUR then seek_position nd + offset
                 else if whence = SEEK_END then max_seek_position nd + offset
                 else seek_position nd);
          pos = (if pos > max_seek_position nd then max_seek_position nd else pos)
      in Inr (pos, set_node node (nd\<lparr>seek_position := pos\<rparr>) s))"

definition ustar_close :: "u64 \<Rightarrow> 'a ustar_state_scheme \<Rightarrow> 'a ustar_state_scheme res" where
  "ustar_close node s =
     (case (if node_path (nodes s node) \<noteq> 0 then block_deallocate (node_path (nodes s node)) s else Inr s) of
        Inl e \<Rightarrow> Inl e
      | Inr s \<Rightarrow> block_deallocate node s)"

definition ustar :: "'a ustar_state_scheme vfs_fs_ops" where
  "ustar = \<lparr>fs_open = Some ustar_open, fs_read = Some ustar_read, fs_write = None, fs_lseek = Some ustar_lseek,
     fs_close = Some ustar_close, fs_dup = Some ustar_dup,
     fs_async_task_register = None, fs_async_task_update = None, fs_async_task_unregister = None\<rparr>"

subsection \<open>Finding the archive\<close>

text \<open>The first module, by index, whose path ends in \<open>.tar\<close>; no module left is a null status.\<close>

fun find_tarball :: "nat \<Rightarrow> u64 \<Rightarrow> u64 \<Rightarrow> 'a ustar_state_scheme \<Rightarrow> (bool \<times> 'a ustar_state_scheme) res" where
  "find_tarball 0 path i s = Inl Diverges"
| "find_tarball (Suc fuel) path i s =
     (case device_get_by_type (Suc fuel) module path 4096 i s of
        Inl e \<Rightarrow> Inl e
      | Inr (ret, s) \<Rightarrow>
          if ret = 0 then Inr (False, s)
          else case strlen (heap_bytes s) path of
                 None \<Rightarrow> Inl Diverges
               | Some n \<Rightarrow>
                   if bytes_at (heap_bytes s) (path + n - 4) 4 \<noteq> [0x2E, 0x74, 0x61, 0x72]
                   then find_tarball fuel path (i + 1) s
                   else Inr (True, s))"

definition ustar_init ::
  "nat \<Rightarrow> limine_file list option \<Rightarrow> u64 \<Rightarrow> u64 \<Rightarrow> 'a ustar_state_scheme \<Rightarrow> 'a ustar_state_scheme res" where
  "ustar_init fuel modules root fs s =
     (case allocate_buffer s of
        Inl e \<Rightarrow> Inl e
      | Inr (path, s) \<Rightarrow>
     case find_tarball fuel path 0 s of
        Inl e \<Rightarrow> Inl e
      | Inr (status, s) \<Rightarrow>
     if \<not> status then Inr s
     else case allocate_buffer s of
        Inl e \<Rightarrow> Inl e
      | Inr (basename, s) \<Rightarrow>
     case vfs_basename (heap_bytes s) path basename PAGE of
        None \<Rightarrow> Inl Diverges
      | Some m \<Rightarrow>
     case limine_get_module modules m basename of
        Inl e \<Rightarrow> Inl e
      | Inr initrd_file \<Rightarrow>
     case page_deallocate path 1 (s\<lparr>heap_bytes := m\<rparr>) of
        Inl e \<Rightarrow> Inl e
      | Inr s \<Rightarrow>
     case page_deallocate basename 1 s of
        Inl e \<Rightarrow> Inl e
      | Inr s \<Rightarrow>
     case initrd_file of
        None \<Rightarrow> Inr s
      | Some file \<Rightarrow>
     let s = s\<lparr>initrd := file_address file\<rparr>
     in case arch_table_manager_map_range (arch_bootstrap_page_table s) (initrd s) (initrd s - kernel_hhdm_offset s)
               TABLE_ENTRY_READ_WRITE (file_size file div PAGE) s of
          Inl e \<Rightarrow> Inl e
        | Inr s \<Rightarrow> vfs_mount_fs root fs s)"

end
