(* ===== verification/Kernel_Heap.thy ===== *)
theory Kernel_Heap
  imports Block_Allocator_Correct Libc_Correct
begin

text \<open>
  The heap as its clients see it: a list of live objects, each an address and its bytes, and a number of
  requests that are sure to succeed. The locale states what a client relies on; it is interpreted
  on \<open>block_allocate\<close> and \<open>block_deallocate\<close>.
\<close>

lemma bytes_at_cong: "(\<And>i. i < n \<Longrightarrow> m' (p + of_nat i) = m (p + of_nat i)) \<Longrightarrow> bytes_at m' p n = bytes_at m p n"
  by (simp add: bytes_at_def)

subsection \<open>Interface\<close>

type_synonym heap_object = "u64 \<times> u8 list"

text \<open>
  \<open>heap k objs s\<close>: the objects are live in \<open>s\<close> and hold these bytes, and \<open>k\<close> more requests
  succeed. \<open>outside k s a\<close>: the address stays outside the heap while it serves \<open>k\<close> requests; every address below \<open>base\<close>
  does. \<open>rest\<close> is the part of the state the heap never touches.
\<close>

locale kernel_heap =
  fixes heap :: "nat \<Rightarrow> heap_object list \<Rightarrow> 's \<Rightarrow> bool"
    and alloc :: "u64 \<Rightarrow> 's \<Rightarrow> (u64 \<times> 's) res"
    and free :: "u64 \<Rightarrow> 's \<Rightarrow> 's res"
    and bytes :: "'s \<Rightarrow> mem8"
    and set_bytes :: "mem8 \<Rightarrow> 's \<Rightarrow> 's"
    and base :: "'s \<Rightarrow> u64"
    and outside :: "nat \<Rightarrow> 's \<Rightarrow> u64 \<Rightarrow> bool"
    and rest :: "'s \<Rightarrow> 'r"
  assumes alloc_law: "heap (Suc k) objs s \<Longrightarrow> unat n \<le> 4048 \<Longrightarrow>
      \<exists>p s'. alloc n s = Inr (p, s') \<and> heap k ((p, replicate (unat n) 0) # objs) s' \<and> rest s' = rest s \<and>
        base s' = base s \<and> (\<forall>a. outside (Suc k) s a \<longrightarrow> outside k s' a \<and> bytes s' a = bytes s a)"
    and below_law: "unat a < unat (base s) \<Longrightarrow> outside k s a"
    and free_law: "heap k objs s \<Longrightarrow> (p, xs) \<in> set objs \<Longrightarrow>
      \<exists>s'. free p s = Inr s' \<and> heap k (filter (\<lambda>(q, _). q \<noteq> p) objs) s' \<and> rest s' = rest s \<and>
        base s' = base s \<and> outside k s' = outside k s \<and> bytes s' = bytes s"
    and store_law: "heap k ((p, xs) # objs) s \<Longrightarrow> length ys = length xs \<Longrightarrow>
      heap k ((p, ys) # objs) (set_bytes (put_bytes (bytes s) p ys) s)"
    and load_law: "heap k objs s \<Longrightarrow> (p, xs) \<in> set objs \<Longrightarrow> bytes_at (bytes s) p (length xs) = xs"
    and static_law: "heap k objs s \<Longrightarrow> (p, xs) \<in> set objs \<Longrightarrow> outside k s a \<Longrightarrow> length xs \<le> unat (a - p)"
    and address_law: "heap k objs s \<Longrightarrow> distinct (map fst objs) \<and> 0 \<notin> fst ` set objs"
    and sub_law: "heap k objs s \<Longrightarrow> set objs' \<subseteq> set objs \<Longrightarrow> distinct (map fst objs') \<Longrightarrow> heap k objs' s"
    and set_bytes_law: "bytes (set_bytes m s) = m" "rest (set_bytes m s) = rest s" "base (set_bytes m s) = base s"
      "outside k (set_bytes m s) = outside k s"
begin

lemma alloc_below:
  assumes "heap (Suc k) objs s" "unat n \<le> 4048"
  shows "\<exists>p s'. alloc n s = Inr (p, s') \<and> heap k ((p, replicate (unat n) 0) # objs) s' \<and> rest s' = rest s \<and>
    base s' = base s \<and> (\<forall>a. unat a < unat (base s) \<longrightarrow> bytes s' a = bytes s a)"
  using alloc_law [OF assms] below_law by blast

text \<open>A block filled with a copy of bytes outside the heap.\<close>

lemma alloc_copy:
  assumes "heap (Suc k) objs s" "unat n \<le> 4048" "\<And>i. i < unat n \<Longrightarrow> outside (Suc k) s (src + of_nat i)"
  shows "\<exists>p s1 s'. alloc n s = Inr (p, s1) \<and> s' = set_bytes (memcpy (bytes s1) p src n) s1 \<and>
    heap k ((p, bytes_at (bytes s) src (unat n)) # objs) s' \<and> rest s' = rest s \<and> base s' = base s \<and>
    (\<forall>a. outside (Suc k) s a \<longrightarrow> outside k s' a \<and> bytes s' a = bytes s a)"
proof -
  obtain p s1 where a: "alloc n s = Inr (p, s1)" "heap k ((p, replicate (unat n) 0) # objs) s1"
    and r: "rest s1 = rest s" "base s1 = base s" "\<And>a. outside (Suc k) s a \<Longrightarrow> outside k s1 a \<and> bytes s1 a = bytes s a"
    using alloc_law [OF assms(1,2)] by blast
  let ?bs = "bytes_at (bytes s) src (unat n)"
  have off: "unat n \<le> unat (a - p)" if "outside (Suc k) s a" for a
    using static_law [OF a(2), of p "replicate (unat n) 0" a] r(3) [OF that] by simp
  have "bytes_at (bytes s1) src (unat n) = ?bs" using assms(3) r(3) by (simp add: bytes_at_def)
  then have "memcpy (bytes s1) p src n = put_bytes (bytes s1) p ?bs"
    using off assms(3) by (subst memcpy_block) (simp_all add: off_block_def)
  moreover have "outside k s1 a \<and> put_bytes (bytes s1) p ?bs a = bytes s a" if "outside (Suc k) s a" for a
    using off [OF that] r(3) [OF that] by (simp add: put_bytes_other)
  ultimately show ?thesis
    using a store_law [OF a(2), of ?bs] r by (simp add: set_bytes_law)
qed

end

subsection \<open>How many requests are left\<close>

text \<open>
  A request of at most 4048 bytes needs no more than one new page for the block and six for layers of
  the page table.
\<close>

definition heap_supply :: "nat \<Rightarrow> 'a block_state_scheme \<Rightarrow> bool" where
  "heap_supply k s \<longleftrightarrow>
     (let v = block_allocator_current_virtual_address s
      in unat v + 4096 * k < 2 ^ 64 \<and> vpn v + k \<le> 2 ^ 36 - 512 \<and> spare (7 * k) s)"

text \<open>
  Where the heap is not and will not be: below its first page, or above what it can grow to. String literals and the other
  static data of the kernel's image are above it, everything in the direct map of the memory is below.
\<close>

definition outside_heap :: "nat \<Rightarrow> 'a block_state_scheme \<Rightarrow> u64 \<Rightarrow> bool" where
  "outside_heap k s a \<longleftrightarrow> unat a < unat (block_allocator_virtual_base s) \<or>
     unat (block_allocator_current_virtual_address s) + 4096 * k \<le> unat a"

lemma outside_heap_mono: "outside_heap (Suc k) s a \<Longrightarrow> outside_heap k s a"
  by (auto simp: outside_heap_def)

lemma outside_heap_cong:
  "block_allocator_virtual_base s' = block_allocator_virtual_base s \<Longrightarrow>
     block_allocator_current_virtual_address s' = block_allocator_current_virtual_address s \<Longrightarrow> outside_heap k s' = outside_heap k s"
  by (simp add: outside_heap_def fun_eq_iff)

lemma heap_supply_mono: "heap_supply (Suc k) s \<Longrightarrow> heap_supply k s"
  unfolding heap_supply_def Let_def by (auto intro: spare_mono)

lemma tables_of_one: "tables_of (n mod 512) 1 = 1"
proof -
  have "n mod 512 + 1 + 511 = n mod 512 + 512" by simp
  also have "\<dots> div 512 = 1" by (subst div_add_self2) simp_all
  finally show ?thesis by (simp add: tables_of_def)
qed

lemma heap_supply_room: "heap_supply (Suc k) s \<Longrightarrow> heap_room 1 s"
  unfolding heap_supply_def heap_room_def Let_def
  by (auto simp: tables_of_one [simplified One_nat_def] elim!: spare_mono)

lemma create_free_block_supply:
  assumes ok: "heap_ok R s fs bs" and sup: "heap_supply (Suc k) s"
    and ret: "block_allocator_create_free_block 1 s = Inr (b, s')"
  shows "heap_supply k s' \<and> block_allocator_virtual_base s' = block_allocator_virtual_base s \<and>
    unat (block_allocator_current_virtual_address s') = unat (block_allocator_current_virtual_address s) + 4096 \<and>
    block_state.more s' = block_state.more s"
proof -
  let ?v = "block_allocator_current_virtual_address s"
  have inv: "block_inv s fs bs" and pt: "pt_inv R s" and boot: "arch_bootstrap_page_table s \<in> R"
    using ok by (simp_all add: heap_ok_def)
  have r: "unat ?v + 4096 * Suc k < 2 ^ 64" "vpn ?v + Suc k \<le> 2 ^ 36 - 512" "spare (7 * Suc k) s"
    using sup by (simp_all add: heap_supply_def Let_def)
  have al: "page_align_up ?v = ?v" by (rule page_align_up_aligned) (use inv r in \<open>auto simp: block_inv_def\<close>)
  obtain p s1 s3 where a: "page_allocate 1 s = Inr (p, s1)"
    and m: "arch_table_manager_map_range (arch_bootstrap_page_table s) ?v (p - kernel_hhdm_offset s1)
       TABLE_ENTRY_READ_WRITE 1 (s1\<lparr>block_allocator_current_virtual_address := ?v + 1 * PAGE\<rparr>) = Inr s3"
    and b: "b = ?v"
    and s': "s' = s3\<lparr>headers := block_allocator_push_block (block_free_list_start s) b ((headers s)(b := fresh_header 1)),
             block_free_list_start := b\<rparr>"
    using create_free_block_shape [OF ret] unfolding al .
  let ?s2 = "s1\<lparr>block_allocator_current_virtual_address := ?v + 1 * PAGE\<rparr>"
  note f1 = block_fields_more [OF page_allocate_more [OF a]] and f3 = block_fields_more [OF map_range_more [OF m]]
  have "spare (unat (at_least_one 1) + (7 * k + 6)) s"
    by (rule spare_mono [OF r(3)]) (simp add: at_least_one_def)
  then have "spare (7 * k + 6) s1"
    using page_allocate_spare_n [OF pt_inv_page [OF pt], of 1 "7 * k + 6"] a by auto
  then have "spare (7 * k + (3 + 3 * tables_of (vpn ?v mod 512) (unat (1 :: u64)))) ?s2"
    by (simp add: spare_def tables_of_one [simplified One_nat_def])
  moreover have "pt_inv R ?s2"
    using pt_inv_page_allocate [OF pt a] by (subst pt_inv_same [of _ s1]) simp_all
  moreover have "vpn ?v + unat (1 :: u64) \<le> 2 ^ 36 - 512" using r(2) by simp
  ultimately have "spare (7 * k) s3"
    using map_range_returns_spare [OF _ boot, of ?s2 "7 * k" ?v 1 "p - kernel_hhdm_offset s1" TABLE_ENTRY_READ_WRITE] m by auto
  then have "spare (7 * k) s'" by (simp add: s' spare_def)
  moreover have "unat (?v + PAGE) = unat ?v + 4096" using r(1) by (subst unat_plus_exact) simp_all
  moreover have "vpn (?v + PAGE) = vpn ?v + 1" using vpn_add [of ?v 1] r(2) by simp
  ultimately show ?thesis using r f1 f3 create_free_block_more [OF ret] by (simp add: s' heap_supply_def)
qed


lemma round_block_size_small:
  assumes "unat n \<le> 4048"
  shows "unat (round_block_size n) \<le> 4048"
proof -
  obtain q where "unat (round_block_size n) = 16 * q" using round_block_size_props(1) [of n] assms by (auto elim: dvdE)
  then show ?thesis using round_block_size_props(4) [of n] assms by auto
qed

lemma block_pages_one:
  assumes "unat n \<le> 4048"
  shows "block_pages n = 1"
proof -
  have "unat (round_block_size n) \<le> 4048" using round_block_size_small [OF assms] .
  then have "0 < unat (block_pages n)" "4096 * unat (block_pages n) \<le> 4048 + 4143"
    using block_pages_bounds [of n] assms by simp_all
  then have "unat (block_pages n) = unat (1 :: u64)" by simp
  then show ?thesis by (simp only: u64_eq_unat_iff)
qed

lemma finish_allocate_fields [simp]:
  "heap_supply k (finish_allocate z x s) = heap_supply k s"
  "block_allocator_virtual_base (finish_allocate z x s) = block_allocator_virtual_base s"
  "block_state.more (finish_allocate z x s) = block_state.more s"
  "block_allocator_current_virtual_address (finish_allocate z x s) = block_allocator_current_virtual_address s"
  by (simp_all add: finish_allocate_def heap_supply_def spare_def Let_def block_allocator_move_to_busy_list_def
      block_allocator_remove_block_from_list_def)

lemma finish_allocate_static:
  assumes "heap_ok R s fs bs" "x \<in> set fs" "z \<le> block_size (headers s x)" "outside_heap k s a"
  shows "heap_bytes (finish_allocate z x s) a = heap_bytes s a"
proof -
  have "block_ok (block_allocator_virtual_base s) (block_allocator_current_virtual_address s) (headers s) x"
    using assms(1,2) by (simp add: heap_ok_def block_inv_def blocks_ok_def)
  then have b: "unat (block_allocator_virtual_base s) \<le> unat x"
    "unat x + 48 + unat (block_size (headers s x)) \<le> unat (block_allocator_current_virtual_address s)"
    "unat x + 48 + unat (block_size (headers s x)) < 2 ^ 64"
    using unat_less_2p64 [of "block_allocator_current_virtual_address s"]
    by (auto simp: block_ok_def block_end_def intro: le_less_trans)
  then have x48: "unat (x + 48) = unat x + 48" by (subst unat_plus_exact) simp_all
  have "\<not> unat (a - (x + 48)) < unat z"
    using unat_minus_less_iff [of "x + 48" "unat z" a] b assms(3,4) x48 by (auto simp: word_le_nat_alt outside_heap_def)
  then show ?thesis
    by (simp add: finish_allocate_def Let_def memset8_apply block_allocator_move_to_busy_list_def
        block_allocator_remove_block_from_list_def)
qed

lemma block_allocate_supply:
  assumes ok: "heap_ok R s fs bs" and sup: "heap_supply (Suc k) s" and n: "unat n \<le> 4048"
    and ret: "block_allocate n s = Inr (p, s')"
  shows "heap_supply k s' \<and> block_allocator_virtual_base s' = block_allocator_virtual_base s \<and>
    block_state.more s' = block_state.more s \<and>
    (\<forall>a. outside_heap (Suc k) s a \<longrightarrow> outside_heap k s' a \<and> heap_bytes s' a = heap_bytes s a)"
proof -
  let ?z = "round_block_size n"
  have lists: "block_lists s fs bs" and lock: "block_allocator_lock s = 0"
    using ok by (simp_all add: heap_ok_def block_inv_def)
  from lists show ?thesis
  proof (cases rule: first_fit_cases [of _ _ _ ?z])
    case (found xs x ys)
    then show ?thesis
      using ret block_allocate_found [OF lock found(3,4)] heap_supply_mono [OF sup]
        finish_allocate_static [OF ok _ found(2)] outside_heap_mono [of k s] outside_heap_cong [of "finish_allocate ?z x s" s k] by auto
  next
    case none
    obtain b s1 where c: "block_allocator_create_free_block 1 s = Inr (b, s1)"
      using create_free_block_returns [OF ok _ heap_supply_room [OF sup]] by auto
    have fit: "unat (block_allocator_current_virtual_address s) + 4096 * unat (1 :: u64) < 2 ^ 64"
      using sup by (simp add: heap_supply_def Let_def)
    note k = create_free_block_ok [OF ok _ fit c] and sp = create_free_block_supply [OF ok sup c]
    have grown: "outside_heap k s1 a" if "outside_heap (Suc k) s a" for a
      using that sp by (auto simp: outside_heap_def)
    have "unat ?z \<le> 4048" using round_block_size_small [OF n] .
    then have "?z \<le> block_size (headers s1 b)" using k by (simp add: word_le_nat_alt)
    then show ?thesis
      using ret block_allocate_none [OF lock none(1)] block_pages_one [OF n] c k sp
        finish_allocate_static [of R s1 "b # fs" bs b ?z k] grown outside_heap_cong [of "finish_allocate ?z b s1" s1 k] by auto
  qed
qed

subsection \<open>The block allocator provides the interface\<close>

definition object_at :: "'a block_state_scheme \<Rightarrow> u64 list \<Rightarrow> heap_object \<Rightarrow> bool" where
  "object_at s bs obj \<longleftrightarrow>
     fst obj - 48 \<in> set bs \<and> length (snd obj) \<le> unat (block_size (headers s (fst obj - 48))) \<and>
     bytes_at (heap_bytes s) (fst obj) (length (snd obj)) = snd obj"

definition heap_view :: "u64 set \<Rightarrow> nat \<Rightarrow> heap_object list \<Rightarrow> 'a block_state_scheme \<Rightarrow> bool" where
  "heap_view R k objs s \<longleftrightarrow>
     (\<exists>fs bs. heap_ok R s fs bs \<and> heap_supply k s \<and> distinct (map fst objs) \<and> list_all (object_at s bs) objs)"


lemma block_extent:
  assumes "heap_ok R s fs bs" "x \<in> set bs"
  shows "unat (x + 48) = unat x + 48" "unat x + 48 + unat (block_size (headers s x)) < 2 ^ 64"
    "unat (block_allocator_virtual_base s) \<le> unat x" "x + 48 \<noteq> 0"
    "unat x + 48 + unat (block_size (headers s x)) \<le> unat (block_allocator_current_virtual_address s)"
proof -
  have "block_ok (block_allocator_virtual_base s) (block_allocator_current_virtual_address s) (headers s) x"
    using assms by (simp add: heap_ok_def block_inv_def blocks_ok_def)
  then show b: "unat (block_allocator_virtual_base s) \<le> unat x" "unat x + 48 + unat (block_size (headers s x)) < 2 ^ 64"
    "unat x + 48 + unat (block_size (headers s x)) \<le> unat (block_allocator_current_virtual_address s)"
    using unat_less_2p64 [of "block_allocator_current_virtual_address s"]
    by (auto simp: block_ok_def block_end_def intro: le_less_trans)
  then show e: "unat (x + 48) = unat x + 48" by (subst unat_plus_exact) simp_all
  then show "x + 48 \<noteq> 0" by (metis add_is_0 unat_0 zero_neq_numeral)
qed

text \<open>Bytes of one live block are not bytes of another.\<close>

lemma blocks_apart:
  assumes "heap_ok R s fs bs" "x \<in> set bs" "y \<in> set bs" "x \<noteq> y" "i < unat (block_size (headers s y))"
  shows "unat (block_size (headers s x)) \<le> unat (y + 48 + of_nat i - (x + 48))"
proof -
  have "apart (headers s) x y" using assms(1-4) by (auto simp: heap_ok_def block_inv_def blocks_ok_def)
  moreover note block_extent [OF assms(1,2)] block_extent [OF assms(1,3)]
  moreover have "unat (y + 48 + of_nat i) = unat y + 48 + i"
    using block_extent [OF assms(1,3)] assms(5) unat_less_2p64 [of "block_size (headers s y)"]
    by (subst unat_plus_exact) (simp_all add: unat_of_nat_exact)
  ultimately show ?thesis
    using unat_minus_less_iff [of "x + 48" "unat (block_size (headers s x))" "y + 48 + of_nat i"] assms(5)
    by (auto simp: apart_def block_end_def not_less [symmetric])
qed

lemma heap_view_address: "heap_view R k objs s \<Longrightarrow> distinct (map fst objs) \<and> 0 \<notin> fst ` set objs"
proof -
  assume "heap_view R k objs s"
  then obtain fs bs where h: "heap_ok R s fs bs" "distinct (map fst objs)" "list_all (object_at s bs) objs"
    by (auto simp: heap_view_def)
  have "fst obj \<noteq> 0" if "obj \<in> set objs" for obj
    using h(3) that block_extent(4) [OF h(1), of "fst obj - 48"] by (auto simp: list_all_iff object_at_def)
  then show ?thesis using h(2) by fastforce
qed

lemma heap_view_load:
  "heap_view R k objs s \<Longrightarrow> (p, xs) \<in> set objs \<Longrightarrow> bytes_at (heap_bytes s) p (length xs) = xs"
  by (auto simp: heap_view_def list_all_iff object_at_def)

lemma heap_view_static:
  assumes "heap_view R k objs s" "(p, xs) \<in> set objs" "outside_heap k s a"
  shows "length xs \<le> unat (a - p)"
proof -
  obtain fs bs where h: "heap_ok R s fs bs" "p - 48 \<in> set bs" "length xs \<le> unat (block_size (headers s (p - 48)))"
    using assms(1,2) by (auto simp: heap_view_def list_all_iff object_at_def)
  note e = block_extent [OF h(1,2)]
  show ?thesis
    using unat_minus_less_iff [of p "length xs" a] e h(3) assms(3) by (auto simp: outside_heap_def not_less [symmetric])
qed

lemma heap_view_store:
  assumes "heap_view R k ((p, xs) # objs) s" "length ys = length xs"
  shows "heap_view R k ((p, ys) # objs) (s\<lparr>heap_bytes := put_bytes (heap_bytes s) p ys\<rparr>)"
proof -
  let ?s = "s\<lparr>heap_bytes := put_bytes (heap_bytes s) p ys\<rparr>"
  obtain fs bs where h: "heap_ok R s fs bs" "heap_supply k s" "distinct (p # map fst objs)"
    "object_at s bs (p, xs)" "list_all (object_at s bs) objs"
    using assms(1) by (auto simp: heap_view_def)
  have ok: "heap_ok R ?s fs bs"
    using h(1) by (simp add: heap_ok_def block_inv_def block_lists_def pt_inv_same [of ?s s])
  have "heap_supply k ?s" using h(2) by (simp add: heap_supply_def spare_def Let_def)
  moreover have px: "p - 48 \<in> set bs" "length ys \<le> unat (block_size (headers s (p - 48)))"
    using h(4) assms(2) by (auto simp: object_at_def)
  then have "object_at ?s bs (p, ys)"
    using less_imp_le [OF unat_less_2p64 [of "block_size (headers s (p - 48))"]]
    by (simp add: object_at_def bytes_at_put_bytes)
  moreover have "object_at ?s bs obj" if "obj \<in> set objs" for obj
  proof -
    obtain q zs where q: "obj = (q, zs)" by (cases obj)
    then have o: "q - 48 \<in> set bs" "length zs \<le> unat (block_size (headers s (q - 48)))"
      "bytes_at (heap_bytes s) q (length zs) = zs" "q - 48 \<noteq> p - 48"
      using that h(3,5) by (force simp: list_all_iff object_at_def)+
    have "put_bytes (heap_bytes s) p ys (q + of_nat i) = heap_bytes s (q + of_nat i)" if "i < length zs" for i
      using blocks_apart [OF h(1) px(1) o(1) o(4) [symmetric], of i] o(2) that px(2)
      by (intro put_bytes_other) simp
    then have "bytes_at (put_bytes (heap_bytes s) p ys) q (length zs) = zs"
      using bytes_at_cong [of "length zs" _ q "heap_bytes s"] o(3) by metis
    then show ?thesis using o q by (simp add: object_at_def)
  qed
  ultimately show ?thesis
    using ok h(3) unfolding heap_view_def by (intro exI [of _ fs] exI [of _ bs]) (simp add: list_all_iff)
qed

lemma heap_view_alloc:
  assumes "heap_view R (Suc k) objs s" "unat n \<le> 4048"
  shows "\<exists>p s'. block_allocate n s = Inr (p, s') \<and> heap_view R k ((p, replicate (unat n) 0) # objs) s' \<and>
    block_state.more s' = block_state.more s \<and>
    block_allocator_virtual_base s' = block_allocator_virtual_base s \<and>
    (\<forall>a. outside_heap (Suc k) s a \<longrightarrow> outside_heap k s' a \<and> heap_bytes s' a = heap_bytes s a)"
proof -
  obtain fs bs where h: "heap_ok R s fs bs" "heap_supply (Suc k) s" "distinct (map fst objs)" "list_all (object_at s bs) objs"
    using assms(1) by (auto simp: heap_view_def)
  have room: "heap_room (block_pages n) s" using heap_supply_room [OF h(2)] block_pages_one [OF assms(2)] by simp
  obtain x s' fs' where a: "block_allocate n s = Inr (x + 48, s')" "x \<notin> set bs" and ok: "allocated_ok R bs n x s s' fs'"
    using block_allocate_ok [OF h(1) _ disjI2 [OF room]] assms(2) by auto
  note sup = block_allocate_supply [OF h(1,2) assms(2) a(1)]
  have hk: "heap_ok R s' fs' (x # bs)" and sz: "unat n \<le> unat (block_size (headers s' x))"
    and same: "\<And>y. y \<in> set bs \<Longrightarrow> block_size (headers s' y) = block_size (headers s y)"
    and zero: "\<And>a. unat x + 48 \<le> unat a \<Longrightarrow> unat a < unat x + 48 + unat n \<Longrightarrow> heap_bytes s' a = 0"
    and keep: "\<And>y a. y \<in> set bs \<Longrightarrow> unat y + 48 \<le> unat a \<Longrightarrow> unat a < block_end (headers s) y \<Longrightarrow> heap_bytes s' a = heap_bytes s a"
    using ok by (auto simp: allocated_ok_def)
  have idx: "unat (y + 48 + of_nat i) = unat y + 48 + i"
    if "y \<in> set (x # bs)" "i < unat (block_size (headers s' y))" for y i
    using block_extent [OF hk that(1)] that(2) unat_less_2p64 [of "block_size (headers s' y)"]
    by (subst unat_plus_exact) (simp_all add: unat_of_nat_exact)
  have "object_at s' (x # bs) (x + 48, replicate (unat n) 0)"
    using sz idx [of x] zero by (auto simp: object_at_def intro!: nth_equalityI)
  moreover have "object_at s' (x # bs) obj" if "obj \<in> set objs" for obj
  proof -
    obtain q zs where q: "obj = (q, zs)" by (cases obj)
    then have o: "q - 48 \<in> set bs" "length zs \<le> unat (block_size (headers s (q - 48)))"
      "bytes_at (heap_bytes s) q (length zs) = zs"
      using that h(4) by (auto simp: list_all_iff object_at_def)
    have "heap_bytes s' (q + of_nat i) = heap_bytes s (q + of_nat i)" if "i < length zs" for i
      using keep [OF o(1), of "q + of_nat i"] idx [of "q - 48" i] o that same [OF o(1)] by (simp add: block_end_def)
    then have "bytes_at (heap_bytes s') q (length zs) = zs"
      using bytes_at_cong [of "length zs" _ q "heap_bytes s"] o(3) by metis
    then show ?thesis using o q same [OF o(1)] by (simp add: object_at_def)
  qed
  moreover have "x + 48 \<notin> fst ` set objs"
    using h(4) a(2) by (force simp: list_all_iff object_at_def)
  ultimately have "heap_view R k ((x + 48, replicate (unat n) 0) # objs) s'"
    using hk sup h(3) unfolding heap_view_def by (intro exI [of _ fs'] exI [of _ "x # bs"]) (simp add: list_all_iff)
  then show ?thesis using a(1) sup by auto
qed

lemma heap_view_free:
  assumes "heap_view R k objs s" "(p, xs) \<in> set objs"
  shows "\<exists>s'. block_deallocate p s = Inr s' \<and> heap_view R k (filter (\<lambda>(q, _). q \<noteq> p) objs) s' \<and>
    block_state.more s' = block_state.more s \<and>
    block_allocator_virtual_base s' = block_allocator_virtual_base s \<and> outside_heap k s' = outside_heap k s \<and>
    heap_bytes s' = heap_bytes s"
proof -
  obtain fs bs where h: "heap_ok R s fs bs" "heap_supply k s" "distinct (map fst objs)" "list_all (object_at s bs) objs"
    using assms(1) by (auto simp: heap_view_def)
  have "p - 48 \<in> set bs" using h(4) assms(2) by (auto simp: list_all_iff object_at_def)
  then obtain as cs where bs: "bs = as @ (p - 48) # cs" by (auto simp: in_set_conv_decomp)
  obtain s' where r: "block_deallocate p s = Inr s'" "heap_ok R s' ((p - 48) # fs) (as @ cs)"
    "\<And>y. block_size (headers s' y) = block_size (headers s y)" "heap_bytes s' = heap_bytes s"
    using block_deallocate_ok [OF h(1) [unfolded bs]] by auto
  have f: "block_state.more s' = block_state.more s" "block_allocator_virtual_base s' = block_allocator_virtual_base s"
    "heap_supply k s' = heap_supply k s" "outside_heap k s' = outside_heap k s"
    using r(1) by (auto simp: block_deallocate_def Let_def block_allocator_move_to_free_list_def heap_supply_def spare_def outside_heap_def
        block_allocator_remove_block_from_list_def split: if_splits sum.splits)
  have "object_at s' (as @ cs) obj" if "obj \<in> set objs" "fst obj \<noteq> p" for obj
    using h(4) that r(3,4) by (auto simp: bs list_all_iff object_at_def)
  then have "heap_view R k (filter (\<lambda>(q, _). q \<noteq> p) objs) s'"
    using r(2) h(2,3) f(3) unfolding heap_view_def
    by (intro exI [of _ "(p - 48) # fs"] exI [of _ "as @ cs"]) (auto simp: list_all_iff distinct_map inj_on_def)
  then show ?thesis using r(1,4) f by auto
qed

lemma heap_view_sub:
  "heap_view R k objs s \<Longrightarrow> set objs' \<subseteq> set objs \<Longrightarrow> distinct (map fst objs') \<Longrightarrow> heap_view R k objs' s"
  unfolding heap_view_def list_all_iff by blast

interpretation kh: kernel_heap "heap_view R" block_allocate block_deallocate heap_bytes
  "\<lambda>m s. s\<lparr>heap_bytes := m\<rparr>" block_allocator_virtual_base outside_heap block_state.more
  by unfold_locales
     (fact heap_view_alloc heap_view_free heap_view_store heap_view_load heap_view_static heap_view_address
        heap_view_sub | simp add: outside_heap_def fun_eq_iff)+


subsection \<open>The fields the heap depends on\<close>

lemma heap_view_same:
  assumes "headers s' = headers s" "heap_bytes s' = heap_bytes s" "memory s' = memory s"
    "allocator_pools s' = allocator_pools s" "page_allocator_lock s' = page_allocator_lock s"
    "kernel_hhdm_offset s' = kernel_hhdm_offset s" "arch_bootstrap_page_table s' = arch_bootstrap_page_table s"
    "block_free_list_start s' = block_free_list_start s" "block_busy_list_start s' = block_busy_list_start s"
    "block_allocator_virtual_base s' = block_allocator_virtual_base s" "block_allocator_lock s' = block_allocator_lock s"
    "block_allocator_current_virtual_address s' = block_allocator_current_virtual_address s"
  shows "heap_view R k objs s' = heap_view R k objs s"
proof -
  have "heap_ok R s' fs bs = heap_ok R s fs bs" for fs bs
    using assms by (simp add: heap_ok_def block_inv_def block_lists_def pt_inv_same [OF assms(3,6,4,5)])
  moreover have "object_at s' bs = object_at s bs" for bs by (rule ext) (simp add: assms object_at_def)
  moreover have "heap_supply k s' = heap_supply k s" using assms by (simp add: heap_supply_def spare_def)
  ultimately show ?thesis by (simp add: heap_view_def)
qed

lemma heap_view_extend:
  assumes "heap_view R k objs s"
  shows "heap_view R k objs (block_state.extend s m)"
  using assms by (subst heap_view_same [where s = s]) (simp_all add: block_state.defs)

text \<open>A booted heap can serve three requests on the small machine of the page tables.\<close>

lemma heap_boot_view:
  obtains r s where "heap_view {r} 3 [] s" "block_allocator_virtual_base (s :: block_state) = 0x32000"
    "unat (block_allocator_current_virtual_address s) = 0x33000" "heap_bytes s = m"
proof -
  have "spare (Suc 31) heap_boot" by (simp add: spare_def heap_boot_def table_pool_def)
  then obtain r s where a: "page_allocate 1 heap_boot = Inr (r, s)" and sp: "spare 31 s"
    using page_allocate_spare [OF pt_inv_page [OF heap_boot_inv]] by blast
  have new: "arch_table_manager_new heap_boot = Inr (r, s)" using a by (simp add: arch_table_manager_new_def)
  note f = block_fields_more [OF page_allocate_more [OF a]]
  define t where "t = s\<lparr>arch_bootstrap_page_table := r, block_allocator_virtual_base := 0x32000,
    block_allocator_current_virtual_address := 0x32000\<rparr>"
  have "pt_inv {r} t" using table_new_inv(1) [OF heap_boot_inv new] by (subst pt_inv_same [of _ s]) (simp_all add: t_def)
  then have ok: "heap_ok {r} t [] []"
    by (simp add: heap_ok_def block_inv_def block_lists_def blocks_ok_def t_def f heap_boot_def)
  have sup: "heap_supply (Suc 3) t"
    using spare_mono [OF sp, of 28] by (simp add: heap_supply_def t_def spare_def vpn_eq)
  obtain b t' where c: "block_allocator_create_free_block 1 t = Inr (b, t')"
    using create_free_block_returns [OF ok _ heap_supply_room [OF sup]] by auto
  have "heap_ok {r} t' [b] []"
    using create_free_block_ok [OF ok _ _ c] by (simp_all add: t_def)
  moreover have cur: "heap_supply 3 t'" "block_allocator_virtual_base t' = 0x32000"
    "unat (block_allocator_current_virtual_address t') = 0x33000"
    using create_free_block_supply [OF ok sup c] by (simp_all add: t_def)
  ultimately have "heap_ok {r} (t'\<lparr>heap_bytes := m\<rparr>) [b] []" "heap_supply 3 (t'\<lparr>heap_bytes := m\<rparr>)"
    "block_allocator_virtual_base t' = 0x32000"
    by (simp_all add: heap_ok_def block_inv_def block_lists_def heap_supply_def spare_def
        pt_inv_same [of "t'\<lparr>heap_bytes := m\<rparr>" t'])
  then show thesis using that [of r "t'\<lparr>heap_bytes := m\<rparr>"] cur(3) unfolding heap_view_def by fastforce
qed

end
