(* ===== verification/Vfs_Correct.thy ===== *)
theory Vfs_Correct
  imports Vfs Kernel_Heap
begin

text \<open>
  The mount table as a list of names and file systems, in the order of mounting: mounting appends to it, opening
  a path goes to the first entry whose name the path starts with. The mount points and their names
  are objects of the heap.
\<close>

subsection \<open>Fields behind the heap\<close>

lemma vfs_fields_more:
  fixes s s' :: "'a vfs_state_scheme"
  assumes "block_state.more s' = block_state.more s"
  shows "nodes s' = nodes s" "mounts s' = mounts s" "mount_points s' = mount_points s" "mount_lock s' = mount_lock s"
    "tasks s' = tasks s" "gs_base s' = gs_base s" "cpu_contexts s' = cpu_contexts s"
  using assms by (cases s; cases s'; simp)+

lemma duplicate_bytes_ok:
  assumes "heap_view R (Suc k) objs s" "unat n \<le> 4048"
    and "\<And>i. i < unat n \<Longrightarrow> outside_heap (Suc k) s (src + of_nat i)"
  shows "\<exists>p s'. duplicate_bytes src n s = Inr (p, s') \<and> heap_view R k ((p, bytes_at (heap_bytes s) src (unat n)) # objs) s' \<and>
    block_state.more s' = block_state.more s \<and> block_allocator_virtual_base s' = block_allocator_virtual_base s \<and>
    (\<forall>a. outside_heap (Suc k) s a \<longrightarrow> outside_heap k s' a \<and> heap_bytes s' a = heap_bytes s a)"
proof -
  obtain p s1 s' where p: "block_allocate n s = Inr (p, s1)" "s' = s1\<lparr>heap_bytes := memcpy (heap_bytes s1) p src n\<rparr>"
    and r: "heap_view R k ((p, bytes_at (heap_bytes s) src (unat n)) # objs) s'" "block_state.more s' = block_state.more s"
      "block_allocator_virtual_base s' = block_allocator_virtual_base s"
      "\<forall>a. outside_heap (Suc k) s a \<longrightarrow> outside_heap k s' a \<and> heap_bytes s' a = heap_bytes s a"
    using kh.alloc_copy [OF assms] by blast
  have "duplicate_bytes src n s = Inr (p, s')" using p by (simp add: duplicate_bytes_def)
  then show ?thesis using r by blast
qed

lemma duplicate_bytes_below:
  assumes "heap_view R (Suc k) objs s" "unat n \<le> 4048"
    and "\<And>i. i < unat n \<Longrightarrow> unat (src + of_nat i) < unat (block_allocator_virtual_base s)"
  shows "\<exists>p s'. duplicate_bytes src n s = Inr (p, s') \<and> heap_view R k ((p, bytes_at (heap_bytes s) src (unat n)) # objs) s' \<and>
    block_state.more s' = block_state.more s \<and> block_allocator_virtual_base s' = block_allocator_virtual_base s \<and>
    (\<forall>a. unat a < unat (block_allocator_virtual_base s) \<longrightarrow> heap_bytes s' a = heap_bytes s a)"
  using duplicate_bytes_ok [OF assms(1,2), of src] assms(3) kh.below_law by blast

subsection \<open>The mount table\<close>

text \<open>A mount: the address of the mount point, the address of its name, the name and the file system.\<close>

type_synonym mount = "u64 \<times> u64 \<times> u8 list \<times> u64"

fun mount_chain :: "(u64 \<Rightarrow> vfs_mount_point) \<Rightarrow> u64 \<Rightarrow> mount list \<Rightarrow> bool" where
  "mount_chain ms p [] \<longleftrightarrow> p = 0"
| "mount_chain ms p ((x, n, name, fs) # rest) \<longleftrightarrow>
     p = x \<and> x \<noteq> 0 \<and> mount_name (ms x) = n \<and> mount_name_length (ms x) = of_nat (length name) \<and> length name \<le> 4048 \<and>
     mount_fs (ms x) = fs \<and> mount_chain ms (mount_next (ms x)) rest"

fun mount_objects :: "mount list \<Rightarrow> heap_object list" where
  "mount_objects [] = []"
| "mount_objects ((x, n, name, fs) # rest) = (x, replicate 40 0) # (n, name) # mount_objects rest"

definition vfs_table :: "u64 set \<Rightarrow> nat \<Rightarrow> mount list \<Rightarrow> heap_object list \<Rightarrow> 'a vfs_state_scheme \<Rightarrow> bool" where
  "vfs_table R k ms objs s \<longleftrightarrow>
     mount_lock s = 0 \<and> mount_chain (mounts s) (mount_next (mounts s (mount_points s))) ms \<and>
     heap_view R k ((mount_points s, replicate 40 0) # mount_objects ms @ objs) s"

lemma mount_objects_append [simp]: "mount_objects (xs @ ys) = mount_objects xs @ mount_objects ys"
  by (induction xs rule: mount_objects.induct) simp_all

lemma mount_object: "(x, n, name, fs) \<in> set ms \<Longrightarrow> (x, replicate 40 0) \<in> set (mount_objects ms) \<and> (n, name) \<in> set (mount_objects ms)"
  by (induction ms rule: mount_objects.induct) auto

text \<open>The first mount whose name the path starts with.\<close>

definition resolve :: "mount list \<Rightarrow> u8 list \<Rightarrow> mount option" where
  "resolve ms cs = find (\<lambda>(x, n, name, fs). take (length name) cs = name) ms"

lemma name_matches:
  assumes "cstr m path cs" "bytes_at m n (length name) = name" "length name \<le> 4048"
  shows "(\<not> of_nat (length cs) < (of_nat (length name) :: u64) \<and> strncmp m path n (of_nat (length name)) = 0) \<longleftrightarrow>
    take (length name) cs = name"
proof -
  have u: "unat (of_nat (length name) :: u64) = length name" "unat (of_nat (length cs) :: u64) = length cs"
    using assms(3) cstr_length [OF assms(1)] by (simp_all add: unat_of_nat_exact)
  show ?thesis
  proof (cases "length name \<le> length cs")
    case True
    then show ?thesis
      using strncmp_loop_bytes [OF assms(1) True, of n] assms(2) u by (auto simp: strncmp_def word_less_nat_alt)
  next
    case False
    then have "take (length name) cs \<noteq> name" by (metis length_take min_def nat_le_linear)
    then show ?thesis using False u by (simp add: word_less_nat_alt)
  qed
qed

lemma find_mount_resolve:
  assumes "cstr m path cs"
  shows "mount_chain ms p rest \<Longrightarrow> (\<And>x n name fs. (x, n, name, fs) \<in> set rest \<Longrightarrow> bytes_at m n (length name) = name) \<Longrightarrow>
    find_mount m ms path (of_nat (length cs)) p = Some (case resolve rest cs of None \<Rightarrow> 0 | Some mt \<Rightarrow> fst mt)"
proof (induction ms p rest rule: mount_chain.induct)
  case (1 ms p)
  then show ?case by (subst find_mount.simps) (simp add: resolve_def)
next
  case (2 ms p x n name fs rest)
  have "bytes_at m n (length name) = name" using 2(3) [of x n name fs] by simp
  note nm = name_matches [OF assms this, of]
  have IH: "find_mount m ms path (of_nat (length cs)) (mount_next (ms x)) =
      Some (case resolve rest cs of None \<Rightarrow> 0 | Some mt \<Rightarrow> fst mt)"
    using 2 by auto
  have "take (length name) cs = name \<Longrightarrow> \<not> of_nat (length cs) < (of_nat (length name) :: u64)" using nm 2(2) by simp
  then show ?case using 2(2) nm IH
    by (subst find_mount.simps) (auto simp: resolve_def)
qed


lemma resolve_chain:
  assumes "mount_chain ms p rest" "resolve rest cs = Some (x, n, name, fs)"
  shows "x \<noteq> 0" "mount_name_length (ms x) = of_nat (length name)" "mount_fs (ms x) = fs"
  using assms by (induction ms p rest rule: mount_chain.induct) (auto simp: resolve_def split: if_splits)

lemma vfs_open_resolve:
  assumes "vfs_table R k ms objs s" "cstr (heap_bytes s) path cs" "path \<noteq> 0"
  shows "vfs_open ops path mode s =
    (if take 1 cs \<noteq> [SLASH] then Inr (- ENOENT, s)
     else case resolve ms cs of
            None \<Rightarrow> Inr (- ENOENT, s)
          | Some (x, n, name, fs) \<Rightarrow>
              (case fs_open (ops fs) of
                 None \<Rightarrow> Inl (Panic ''no open callback'')
               | Some callback \<Rightarrow> callback fs (path + of_nat (length name)) mode s))"
proof -
  have lock: "mount_lock s = 0" and ch: "mount_chain (mounts s) (mount_next (mounts s (mount_points s))) ms"
    and h: "heap_view R k ((mount_points s, replicate 40 0) # mount_objects ms @ objs) s"
    using assms(1) by (simp_all add: vfs_table_def)
  have head: "mount_points s \<noteq> 0" using kh.address_law [OF h] by simp
  have first: "heap_bytes s path = SLASH \<longleftrightarrow> take 1 cs = [SLASH]" using assms(2) by (cases cs) auto
  have "bytes_at (heap_bytes s) n (length name) = name" if "(x, n, name, fs) \<in> set ms" for x n name fs
    by (rule kh.load_law [OF h]) (use mount_object [OF that] in simp)
  note fm = find_mount_resolve [OF assms(2) ch this]
  have same: "s\<lparr>mount_lock := 0\<rparr> = s" using lock by simp
  show ?thesis
  proof (cases "resolve ms cs")
    case None
    then show ?thesis
      using assms(3) lock head first fm by (simp add: vfs_open_def strlen_cstr [OF assms(2)] same)
  next
    case (Some mt)
    obtain x n name fs where mt: "mt = (x, n, name, fs)" by (cases mt)
    note r = resolve_chain [OF ch Some [unfolded mt]]
    show ?thesis
      using assms(3) lock head first fm Some mt r
      by (simp add: vfs_open_def strlen_cstr [OF assms(2)] same split: option.split)
  qed
qed

subsection \<open>Mounting\<close>

text \<open>Pointing the last mount point of a chain to a new one appends it.\<close>

lemma last_mount_append:
  assumes "mount_next (ms p) = q" "mount_chain ms q rest" "distinct (p # x # map fst rest)" "x \<noteq> 0"
    and "mount_name (ms x) = n" "mount_name_length (ms x) = of_nat (length name)" "length name \<le> 4048" "mount_fs (ms x) = fs"
    and "mount_next (ms x) = 0"
  shows "\<exists>l. last_mount ms p = Some l \<and>
    mount_chain (ms(l := (ms l)\<lparr>mount_next := x\<rparr>)) (mount_next ((ms(l := (ms l)\<lparr>mount_next := x\<rparr>)) p)) (rest @ [(x, n, name, fs)]) \<and>
    l \<in> set (p # map fst rest)"
  using assms
proof (induction rest arbitrary: p q)
  case Nil
  then show ?case by (intro exI [of _ p]) (subst last_mount.simps, simp)
next
  case (Cons mt rest)
  obtain y n' name' fs' where mt: "mt = (y, n', name', fs')" by (cases mt)
  have y: "q = y" "y \<noteq> 0" using Cons.prems(2) by (simp_all add: mt)
  have "mount_chain ms (mount_next (ms y)) rest" "distinct (y # x # map fst rest)"
    using Cons.prems(2,3) by (auto simp: mt)
  from Cons.IH [OF refl this Cons.prems(4-9)]
  obtain l where l: "last_mount ms y = Some l" "l \<in> set (y # map fst rest)"
    "mount_chain (ms(l := (ms l)\<lparr>mount_next := x\<rparr>)) (mount_next ((ms(l := (ms l)\<lparr>mount_next := x\<rparr>)) y)) (rest @ [(x, n, name, fs)])"
    by blast
  have "p \<noteq> l" using l(2) Cons.prems(3) by (auto simp: mt)
  then show ?case
    using l y Cons.prems by (intro exI [of _ l]) (subst last_mount.simps, auto simp: mt)
qed

lemma vfs_mount_append:
  assumes "vfs_table R (k + 2) ms objs s" "cstr (heap_bytes s) name cs" "length cs \<le> 4048"
    and static: "\<And>i. i \<le> length cs \<Longrightarrow> outside_heap (k + 2) s (name + of_nat i)"
  shows "\<exists>x n s'. vfs_mount_fs name fs s = Inr s' \<and> vfs_table R k (ms @ [(x, n, cs, fs)]) objs s' \<and> nodes s' = nodes s \<and>
    (\<forall>a. outside_heap (k + 2) s a \<longrightarrow> outside_heap k s' a \<and> heap_bytes s' a = heap_bytes s a)"
proof -
  let ?head = "mount_points s" and ?len = "of_nat (length cs) :: u64"
  have len: "unat ?len = length cs" using assms(3) by (simp add: unat_of_nat_exact)
  have lock: "mount_lock s = 0" and ch: "mount_chain (mounts s) (mount_next (mounts s ?head)) ms"
    and h: "heap_view R (Suc (Suc k)) ((?head, replicate 40 0) # mount_objects ms @ objs) s"
    using assms(1) by (simp_all add: vfs_table_def)
  have "unat (40 :: u64) = 40" "(40 :: nat) \<le> 4048" by simp_all
  from kh.alloc_law [OF h, of 40, unfolded this(1), OF this(2)]
  obtain x s1 where a: "block_allocate 40 s = Inr (x, s1)"
    and h1: "heap_view R (Suc k) ((x, replicate 40 0) # (?head, replicate 40 0) # mount_objects ms @ objs) s1"
    and m1: "block_state.more s1 = block_state.more s"
    and b1: "\<And>a. outside_heap (Suc (Suc k)) s a \<Longrightarrow> outside_heap (Suc k) s1 a \<and> heap_bytes s1 a = heap_bytes s a"
    by blast
  have static: "outside_heap (Suc (Suc k)) s (name + of_nat i)" if "i \<le> length cs" for i using static [OF that] by simp
  have name1: "outside_heap (Suc k) s1 (name + of_nat i)" if "i < unat ?len" for i
    using b1 [OF static [of i]] that len by simp
  have "bytes_at (heap_bytes s1) name (length cs) = cs"
    using cstr_iff [of "heap_bytes s" name cs] assms(2) bytes_at_cong [of "length cs" "heap_bytes s1" name "heap_bytes s"]
      b1 [OF static] by simp
  then obtain n s2 where d: "duplicate_bytes name ?len s1 = Inr (n, s2)"
    and h2: "heap_view R k ((n, cs) # (x, replicate 40 0) # (?head, replicate 40 0) # mount_objects ms @ objs) s2"
    and m2: "block_state.more s2 = block_state.more s1"
    and b2: "\<And>a. outside_heap (Suc k) s1 a \<Longrightarrow> outside_heap k s2 a \<and> heap_bytes s2 a = heap_bytes s1 a"
    using duplicate_bytes_ok [OF h1 _ name1, of ?len, unfolded len] assms(3) by auto
  note f = vfs_fields_more [OF trans [OF m2 m1]]
  note adr = kh.address_law [OF h2]
  define ms' where "ms' = (mounts s)(x := zero_mount\<lparr>mount_name := n, mount_name_length := ?len, mount_fs := fs\<rparr>)"
  have fresh: "distinct (?head # x # map fst ms)"
  proof -
    have "fst mt \<in> fst ` set (mount_objects ms)" if "mt \<in> set ms" for mt
      using mount_object [of "fst mt"] that by (cases mt) force
    then have "x \<notin> fst ` set ms" "?head \<notin> fst ` set ms" using adr by auto
    moreover have "distinct (map fst (mount_objects ms)) \<Longrightarrow> distinct (map fst ms)"
    proof (induction ms rule: mount_objects.induct)
      case (2 y n name fs rest)
      then show ?case using mount_object [of _ _ _ _ rest] by force
    qed simp
    ultimately show ?thesis using adr by auto
  qed
  have "mount_chain ms' (mount_next (mounts s ?head)) ms"
  proof -
    have "mount_chain ms' p rest" if "mount_chain (mounts s) p rest" "x \<notin> fst ` set rest" for p rest
      using that by (induction "mounts s" p rest rule: mount_chain.induct) (auto simp: ms'_def)
    then show ?thesis using ch fresh by auto
  qed
  moreover have "mount_next (ms' ?head) = mount_next (mounts s ?head)" using fresh by (auto simp: ms'_def)
  ultimately obtain l where l: "last_mount ms' ?head = Some l"
    "mount_chain (ms'(l := (ms' l)\<lparr>mount_next := x\<rparr>)) (mount_next ((ms'(l := (ms' l)\<lparr>mount_next := x\<rparr>)) ?head)) (ms @ [(x, n, cs, fs)])"
    using last_mount_append [of ms' ?head _ ms x n cs fs] fresh adr assms(3) by (auto simp: ms'_def zero_mount_def)
  define s' where "s' = s2\<lparr>mounts := ms'(l := (ms' l)\<lparr>mount_next := x\<rparr>), mount_lock := 0\<rparr>"
  have "heap_view R k ((?head, replicate 40 0) # mount_objects (ms @ [(x, n, cs, fs)]) @ objs) s2"
    by (rule kh.sub_law [OF h2]) (use adr in auto)
  then have "heap_view R k ((?head, replicate 40 0) # mount_objects (ms @ [(x, n, cs, fs)]) @ objs) s'"
    by (subst heap_view_same [where s = s2]) (simp_all add: s'_def)
  then have "vfs_table R k (ms @ [(x, n, cs, fs)]) objs s'"
    using l(2) f by (simp add: vfs_table_def s'_def)
  moreover have "vfs_mount_fs name fs s = Inr s'"
    using lock a d f adr l(1) by (simp add: vfs_mount_fs_def strlen_cstr [OF assms(2)] ms'_def [symmetric] s'_def)
  moreover have "outside_heap k s' a \<and> heap_bytes s' a = heap_bytes s a" if "outside_heap (k + 2) s a" for a
    using b1 [of a] b2 [of a] that outside_heap_cong [of s' s2 k] by (simp add: s'_def)
  moreover have "nodes s' = nodes s" using f by (simp add: s'_def)
  ultimately show ?thesis by blast
qed


lemma vfs_init_table:
  assumes "heap_view R (Suc k) [] s" "mount_lock s = 0"
  shows "\<exists>s'. vfs_init s = Inr s' \<and> vfs_table R k [] [] s' \<and>
    block_allocator_virtual_base s' = block_allocator_virtual_base s \<and>
    (\<forall>a. outside_heap (Suc k) s a \<longrightarrow> outside_heap k s' a \<and> heap_bytes s' a = heap_bytes s a)"
proof -
  have "unat (40 :: u64) = 40" "(40 :: nat) \<le> 4048" by simp_all
  from kh.alloc_law [OF assms(1), of 40, unfolded this(1), OF this(2)]
  obtain p s1 where a: "block_allocate 40 s = Inr (p, s1)" "heap_view R k [(p, replicate 40 0)] s1"
    and m1: "block_state.more s1 = block_state.more s" "block_allocator_virtual_base s1 = block_allocator_virtual_base s"
    and b1: "\<forall>a. outside_heap (Suc k) s a \<longrightarrow> outside_heap k s1 a \<and> heap_bytes s1 a = heap_bytes s a"
    by blast
  note f = vfs_fields_more [OF m1(1)]
  let ?s' = "s1\<lparr>mounts := (mounts s1)(p := zero_mount), mount_points := p\<rparr>"
  have "heap_view R k [(p, replicate 40 0)] ?s'" using a(2) by (subst heap_view_same [where s = s1]) simp_all
  then have "vfs_table R k [] [] ?s'" using f assms(2) by (simp add: vfs_table_def zero_mount_def)
  then show ?thesis using a(1) m1 b1 outside_heap_cong [of ?s' s1 k] by (simp add: vfs_init_def)
qed

subsection \<open>Properties\<close>

text \<open>A booted kernel whose static data is a given memory, before any file system is mounted.\<close>

definition vfs_boot :: "block_state \<Rightarrow> vfs_state" where
  "vfs_boot s = sched_state.extend
     (block_state.extend s (sched_state.fields (\<lambda>_. zero_task) (\<lambda>_. zero_context) (\<lambda>_. None) 0 0 0 0 0 0 zero_cpu_state []
        False False False))
     (vfs_state.fields (\<lambda>_. zero_node) (\<lambda>_. zero_mount) 0 0)"

text \<open>Addresses below the heap of that kernel and well above it: the literals of its image are among them.\<close>

definition static_data :: "u64 \<Rightarrow> bool" where
  "static_data a \<longleftrightarrow> unat a < 0x32000 \<or> 0x100000 \<le> unat a"

lemma vfs_boot_table:
  obtains r s where "vfs_table {r} 2 [] [] (s :: vfs_state)" "block_allocator_virtual_base s = 0x32000"
    "\<And>a. static_data a \<Longrightarrow> outside_heap 2 s a \<and> heap_bytes s a = m a"
proof -
  obtain r b where b: "heap_view {r} 3 [] (b :: block_state)" "block_allocator_virtual_base b = 0x32000"
    "unat (block_allocator_current_virtual_address b) = 0x33000" "heap_bytes b = m"
    using heap_boot_view .
  have f: "mount_lock (vfs_boot b) = 0" "block_allocator_virtual_base (vfs_boot b) = 0x32000" "heap_bytes (vfs_boot b) = m"
    "unat (block_allocator_current_virtual_address (vfs_boot b)) = 0x33000"
    using b by (simp_all add: vfs_boot_def block_state.defs sched_state.defs vfs_state.defs)
  have "heap_view {r} (Suc 2) [] (vfs_boot b)" using b(1)
    by (subst heap_view_same [where s = b]) (simp_all add: vfs_boot_def block_state.defs sched_state.defs vfs_state.defs)
  from vfs_init_table [OF this f(1)] obtain s where s: "vfs_table {r} 2 [] [] (s :: vfs_state)" "block_allocator_virtual_base s = 0x32000"
    "\<forall>a. outside_heap (Suc 2) (vfs_boot b) a \<longrightarrow> outside_heap 2 s a \<and> heap_bytes s a = m a"
    unfolding f(2,3) by blast
  have "outside_heap (Suc 2) (vfs_boot b) a" if "static_data a" for a
    using that f by (auto simp: static_data_def outside_heap_def)
  then show thesis using that s by blast
qed

text \<open>
  (C15) Mounting a file system, with heap for two more blocks of at most a page, returns and appends an entry with the given name and
  file system to the mount table; the entries before it stay as they are. The name is a string that lies outside the heap and
  outside the two pages by which the heap may grow, as the string literals of the kernel's image do.
\<close>

theorem vfs_mount_correct:
  assumes "vfs_table R (k + 2) ms objs s" "cstr (heap_bytes s) name cs" "length cs \<le> 4048"
    and "\<And>i. i \<le> length cs \<Longrightarrow> outside_heap (k + 2) s (name + of_nat i)"
  shows "\<exists>x n s'. vfs_mount_fs name fs s = Inr s' \<and> vfs_table R k (ms @ [(x, n, cs, fs)]) objs s'"
  using vfs_mount_append [OF assms] by blast

text \<open>
  (C14) Opening a path, with the mount table well formed: a null pointer and a path that does not start with a
  delimiter are refused; otherwise the first mount, in the order of mounting, whose name is a prefix of
  the path gets the rest of the path, and without one the path is refused. Nothing is changed by a refusal.
\<close>

theorem vfs_open_correct:
  assumes "vfs_table R k ms objs s" "cstr (heap_bytes s) path cs"
  shows "vfs_open ops path mode s =
    (if path = 0 \<or> take 1 cs \<noteq> [SLASH] then Inr (- ENOENT, s)
     else case resolve ms cs of
            None \<Rightarrow> Inr (- ENOENT, s)
          | Some (x, n, name, fs) \<Rightarrow>
              (case fs_open (ops fs) of
                 None \<Rightarrow> Inl (Panic ''no open callback'')
               | Some callback \<Rightarrow> callback fs (path + of_nat (length name)) mode s))"
proof (cases "path = 0")
  case True
  then show ?thesis by (simp add: vfs_open_def)
next
  case False
  then show ?thesis using vfs_open_resolve [OF assms False] by simp
qed

text \<open>The string \<open>/dev\<close> in the kernel's image and the string \<open>/developer\<close> below the heap.\<close>

definition two_strings :: mem8 where
  "two_strings = put_bytes (put_bytes (\<lambda>_. 0) 0xFFFFFFFF80001000 [0x2F, 0x64, 0x65, 0x76]) 0x200
     [0x2F, 0x64, 0x65, 0x76, 0x65, 0x6C, 0x6F, 0x70, 0x65, 0x72]"

lemma static_strings:
  assumes "\<And>a. static_data a \<Longrightarrow> m a = two_strings a"
  shows "cstr m 0xFFFFFFFF80001000 [0x2F, 0x64, 0x65, 0x76]"
    "cstr m 0x200 [0x2F, 0x64, 0x65, 0x76, 0x65, 0x6C, 0x6F, 0x70, 0x65, 0x72]"
  by (simp_all add: assms two_strings_def put_bytes_def static_data_def)

lemma literal_addresses: "i \<le> 4 \<Longrightarrow> static_data (0xFFFFFFFF80001000 + of_nat i)"
  unfolding static_data_def by (subst unat_plus_exact) (simp_all add: unat_of_nat_exact)

theorem vfs_mount_correct_witness:
  "\<exists>r s s' x n. vfs_mount_fs 0xFFFFFFFF80001000 7 s = Inr s' \<and>
     vfs_table {r} 0 [(x, n, [0x2F, 0x64, 0x65, 0x76], 7)] [] (s' :: vfs_state)"
proof -
  obtain r s where s: "vfs_table {r} 2 [] [] (s :: vfs_state)"
    "\<And>a. static_data a \<Longrightarrow> outside_heap 2 s a \<and> heap_bytes s a = two_strings a"
    using vfs_boot_table [of two_strings] by metis
  have t: "vfs_table {r} (0 + 2) [] [] s" using s(1) by (simp only: plus_nat.add_0)
  have c: "cstr (heap_bytes s) 0xFFFFFFFF80001000 [0x2F, 0x64, 0x65, 0x76]" using static_strings(1) s(2) by blast
  have "outside_heap (0 + 2) s (0xFFFFFFFF80001000 + of_nat i)" if "i \<le> length [0x2F, 0x64, 0x65, 0x76 :: u8]" for i
    using s(2) [OF literal_addresses, of i] that by (simp only: plus_nat.add_0) simp
  from vfs_mount_correct [OF t c _ this, of 7]
  obtain x n s' where "vfs_mount_fs 0xFFFFFFFF80001000 7 s = Inr s'" "vfs_table {r} 0 ([] @ [(x, n, [0x2F, 0x64, 0x65, 0x76], 7)]) [] s'"
    by auto
  then show ?thesis unfolding append_Nil by blast
qed

theorem vfs_open_correct_witness:
  "\<exists>s. vfs_open (\<lambda>_. \<lparr>fs_open = Some (\<lambda>fs p mode s. Inr (fs + p, s)), fs_read = None, fs_write = None, fs_lseek = None,
     fs_close = None, fs_dup = None, fs_async_task_register = None, fs_async_task_update = None,
     fs_async_task_unregister = None\<rparr>) 0x200 1 (s :: vfs_state) = Inr (0x20B, s)"
proof -
  obtain r s where s: "vfs_table {r} 2 [] [] (s :: vfs_state)"
    "\<And>a. static_data a \<Longrightarrow> outside_heap 2 s a \<and> heap_bytes s a = two_strings a"
    using vfs_boot_table [of two_strings] by metis
  have t: "vfs_table {r} (0 + 2) [] [] s" using s(1) by (simp only: plus_nat.add_0)
  have c: "cstr (heap_bytes s) 0xFFFFFFFF80001000 [0x2F, 0x64, 0x65, 0x76]" using static_strings(1) s(2) by blast
  have "outside_heap (0 + 2) s (0xFFFFFFFF80001000 + of_nat i)" if "i \<le> length [0x2F, 0x64, 0x65, 0x76 :: u8]" for i
    using s(2) [OF literal_addresses, of i] that by (simp only: plus_nat.add_0) simp
  moreover have "length [0x2F, 0x64, 0x65, 0x76 :: u8] \<le> 4048" by simp
  ultimately
  obtain x n s' where u: "vfs_table {r} 0 ([] @ [(x, n, [0x2F, 0x64, 0x65, 0x76], 7)]) [] (s' :: vfs_state)"
    "\<forall>a. outside_heap (0 + 2) s a \<longrightarrow> outside_heap 0 s' a \<and> heap_bytes s' a = heap_bytes s a"
    using vfs_mount_append [OF t c, of 7] by blast
  have "heap_bytes s' a = two_strings a" if "static_data a" for a using u(2) [unfolded plus_nat.add_0] s(2) that by fastforce
  from vfs_open_correct [OF u(1) static_strings(2) [OF this]] show ?thesis by (intro exI [of _ s']) (simp add: resolve_def)
qed

end
