(* ===== verification/Ustar_Correct.thy ===== *)
theory Ustar_Correct
  imports Ustar Vfs_Correct
begin

text \<open>
  Archives as lists of names and contents, laid out in memory the way the tar format has it; the search
  for a header and reading, in terms of that list.
\<close>

subsection \<open>Sizes in octal\<close>

fun octal_digits :: "nat \<Rightarrow> nat \<Rightarrow> u8 list" where
  "octal_digits 0 n = []"
| "octal_digits (Suc k) n = octal_digits k (n div 8) @ [0x30 + of_nat (n mod 8)]"

text \<open>The size field of a header: eleven digits and a zero byte.\<close>

definition octal_field :: "nat \<Rightarrow> u8 list" where
  "octal_field n = octal_digits 11 n @ [0]"

lemma length_octal_digits [simp]: "length (octal_digits k n) = k"
  by (induction k arbitrary: n) simp_all

lemma parse_digit:
  assumes "d < 8"
  shows "parse_size_step (0x30 + of_nat d) n = n * 8 + of_nat d"
proof -
  have "d \<in> {0, 1, 2, 3, 4, 5, 6, 7}" using assms by auto
  then show ?thesis unfolding parse_size_step_def by (elim insertE emptyE) simp_all
qed

lemma parse_octal_digits: "n < 8 ^ k \<Longrightarrow> fold parse_size_step (octal_digits k n) 0 = of_nat n"
proof (induction k arbitrary: n)
  case (Suc k)
  then have "fold parse_size_step (octal_digits k (n div 8)) 0 = of_nat (n div 8)" by simp
  moreover have "(of_nat (n div 8) * 8 + of_nat (n mod 8) :: u64) = of_nat (n div 8 * 8 + n mod 8)"
    by (simp only: of_nat_add of_nat_mult of_nat_numeral)
  ultimately show ?case by (simp add: parse_digit del: of_nat_div of_nat_mod)
qed simp

lemma parse_size_field:
  assumes "bytes_at m (h + 124) 12 = octal_field n" "n < 8 ^ 11"
  shows "parse_size_of m h = of_nat n"
proof -
  have "parse_size_of m h = fold parse_size_step (bytes_at m (h + 124) 12) 0"
    by (simp add: parse_size_of_def bytes_at_def fold_map comp_def)
  also have "\<dots> = of_nat n"
    unfolding assms(1) octal_field_def using parse_octal_digits [OF assms(2)] by (simp add: parse_size_step_def)
  finally show ?thesis .
qed

subsection \<open>Archives\<close>

text \<open>The bytes a file takes up: its header and its contents in whole blocks.\<close>

definition span :: "nat \<Rightarrow> nat" where
  "span n = 512 + 512 * ((n + 511) div 512)"

lemma real_size_span:
  assumes "n < 2 ^ 40"
  shows "real_size (of_nat n) = of_nat (span n)"
proof -
  let ?x = "n + 512"
  have e: "(of_nat n + 512 :: u64) = of_nat ?x" by simp
  have mod: "(of_nat ?x mod 512 :: u64) = of_nat (?x mod 512)" 
  proof -
    have "unat (of_nat ?x :: u64) = ?x" "unat (of_nat (?x mod 512) :: u64) = ?x mod 512"
      by (rule unat_of_nat_exact, use assms in simp)+
    then show ?thesis by (simp only: word_unat_eq_iff unat_mod) simp
  qed
  have "?x mod 512 < 512" by simp
  then have z: "(of_nat (?x mod 512) :: u64) = 0 \<longleftrightarrow> ?x mod 512 = 0"
    by (intro of_nat_u64_eq_0_iff) (rule less_trans, assumption, simp)
  have sp: "span n = (if ?x mod 512 = 0 then ?x else ?x + (512 - ?x mod 512))"
  proof -
    define q r where "q = n div 512" and "r = n mod 512"
    have n: "n = 512 * q + r" "r < 512" by (simp_all add: q_def r_def)
    have "(n + 511) div 512 = (if r = 0 then q else q + 1)" using n by (auto simp: div_nat_eqI)
    moreover have "?x mod 512 = r" using n by simp
    ultimately show ?thesis using n by (simp add: span_def)
  qed
  have "(512 - of_nat (?x mod 512) :: u64) = of_nat (512 - ?x mod 512)" by (simp add: of_nat_diff del: of_nat_mod)
  then show ?thesis
    unfolding real_size_def Let_def e mod z sp by (auto simp: of_nat_diff simp del: of_nat_mod)
qed

type_synonym tar_file = "u8 list \<times> u8 list"

text \<open>
  \<open>archive m b h files\<close>: at \<open>h\<close> there are the headers and contents of the files, below \<open>b\<close>, ended by
  a header that starts with a zero byte. Names start with two characters (\<open>./\<close>) that are not part of the path.
\<close>

fun archive :: "mem8 \<Rightarrow> u64 \<Rightarrow> u64 \<Rightarrow> tar_file list \<Rightarrow> bool" where
  "archive m b h [] \<longleftrightarrow> 0 < unat h \<and> unat h < unat b \<and> m h = 0"
| "archive m b h ((name, contents) # rest) \<longleftrightarrow>
     0 < unat h \<and> unat h + span (length contents) < unat b \<and> length contents < 8 ^ 11 \<and> length name \<le> 97 \<and> m h \<noteq> 0 \<and>
     cstr m (h + 2) name \<and> bytes_at m (h + 124) 12 = octal_field (length contents) \<and>
     bytes_at m (h + 512) (length contents) = contents \<and>
     archive m b (h + of_nat (span (length contents))) rest"

text \<open>The header the search ends at: the first file whose name starts with the path.\<close>

fun tar_find :: "u8 list \<Rightarrow> u64 \<Rightarrow> tar_file list \<Rightarrow> (u64 \<times> u8 list) option" where
  "tar_find cs h [] = None"
| "tar_find cs h ((name, contents) # rest) =
     (if take (length cs) name = cs then Some (h, contents)
      else tar_find cs (h + of_nat (span (length contents))) rest)"

lemma span_bounds: "512 \<le> span n" "n + 512 \<le> span n"
  unfolding span_def by linarith+

lemma unat_add_bounded:
  assumes "unat (h :: u64) + k < unat (b :: u64)"
  shows "unat (h + of_nat k) = unat h + k"
  using unat_less_2p64 [of b] assms by (subst unat_plus_exact) (simp_all add: unat_of_nat_exact)

lemma archive_cong:
  "archive m b h files \<Longrightarrow> (\<And>a. unat a < unat b \<Longrightarrow> m' a = m a) \<Longrightarrow> archive m' b h files"
proof (induction m b h files rule: archive.induct)
  case (2 m b h name contents rest)
  have below: "unat h + k < unat b" if "k < 512 + length contents" for k
    using 2(2) span_bounds [of "length contents"] that by simp
  then have same: "m' (h + of_nat k) = m (h + of_nat k)" if "k < 512 + length contents" for k
    using 2(3) unat_add_bounded that by metis
  have blk: "bytes_at m' (h + of_nat k) j = bytes_at m (h + of_nat k) j" if "k + j \<le> 512 + length contents" for k j
  proof (rule bytes_at_cong)
    fix i assume "i < j"
    then show "m' (h + of_nat k + of_nat i) = m (h + of_nat k + of_nat i)"
      using same [of "k + i"] that by (simp add: add.assoc)
  qed
  have "cstr m' (h + 2) name"
    using 2(2) blk [of 2 "length name"] same [of "2 + length name"] by (simp add: cstr_iff add.assoc)
  moreover have "m' h = m h" using same [of 0] by simp
  ultimately show ?case
    using 2 blk [of 124 12] blk [of 512 "length contents"] by simp
qed simp



lemma open_header_find:
  assumes "cstr m path cs"
  shows "archive m b h files \<Longrightarrow>
    open_header_loop m path (of_nat (length cs)) h = Some (case tar_find cs h files of None \<Rightarrow> 0 | Some (h', _) \<Rightarrow> h')"
proof (induction files arbitrary: h)
  case Nil
  then show ?case by (subst open_header_loop.simps) simp
next
  case (Cons f rest)
  obtain name contents where f: "f = (name, contents)" by (cases f)
  have a: "m h \<noteq> 0" "cstr m (h + 2) name" "bytes_at m (h + 124) 12 = octal_field (length contents)"
    "length contents < 8 ^ 11" "archive m b (h + of_nat (span (length contents))) rest"
    using Cons.prems by (simp_all add: f)
  have "strncmp m path (h + 2) (of_nat (length cs)) = 0 \<longleftrightarrow> take (length cs) name = cs"
    using strncmp_loop_cstr [OF assms a(2), of "length cs"] cstr_length [OF assms]
    by (auto simp: strncmp_def unat_of_nat_exact)
  moreover have "real_size (parse_size_of m h) = of_nat (span (length contents))"
    using parse_size_field [OF a(3,4)] real_size_span [of "length contents"] a(4) by simp
  ultimately show ?case using a(1) Cons.IH [OF a(5)] by (subst open_header_loop.simps) (simp add: f)
qed

lemma tar_find_archive:
  "archive m b h files \<Longrightarrow> tar_find cs h files = Some (h', contents) \<Longrightarrow>
     unat h \<le> unat h' \<and> unat h' + 512 + length contents < unat b \<and> length contents < 8 ^ 11 \<and> h' \<noteq> 0 \<and>
     bytes_at m (h' + 124) 12 = octal_field (length contents) \<and> bytes_at m (h' + 512) (length contents) = contents"
proof (induction m b h files rule: archive.induct)
  case (2 m b h name c rest)
  have u: "unat (h + of_nat (span (length c))) = unat h + span (length c)"
    using 2(2) by (intro unat_add_bounded [of h _ b]) simp
  show ?case
  proof (cases "take (length cs) name = cs")
    case True
    then show ?thesis using 2(2,3) span_bounds(2) [of "length c"] by auto
  next
    case False
    then show ?thesis using 2 u by auto
  qed
qed simp

lemma archive_first: "archive m b h files \<Longrightarrow> m h = 0 \<longleftrightarrow> files = []"
  by (cases files) auto

lemma open_header_eq:
  assumes "archive (heap_bytes s) b (initrd s + 512) files" "cstr (heap_bytes s) path cs"
  shows "ustar_open_header path s = Inr (case tar_find cs (initrd s + 512) files of None \<Rightarrow> 0 | Some (h', _) \<Rightarrow> h')"
  using archive_first [OF assms(1)] open_header_find [OF assms(2,1)] strlen_cstr [OF assms(2)]
  by (cases files) (auto simp: ustar_open_header_def Let_def)

subsection \<open>Opening and reading\<close>

lemma ustar_fields_more:
  fixes s s' :: "'a ustar_state_scheme"
  assumes "block_state.more s' = block_state.more s"
  shows "initrd s' = initrd s" "nodes s' = nodes s"
  using assms by (cases s; cases s'; simp)+

lemma take_bytes_at: "take k (bytes_at m p n) = bytes_at m p (min k n)"
  by (cases "k \<le> n") (simp_all add: bytes_at_def take_map min_def)

lemma clamp_length_min:
  assumes "a < 2 ^ 31" "b < 2 ^ 31"
  shows "clamp_length (of_nat a) (of_nat b) = of_nat (min a b)"
  using int_of_nat [OF assms(1)] int_of_nat [OF assms(2)]
  by (auto simp: clamp_length_def int_min_def size_of_int_def min_def)

definition node_of :: "u64 \<Rightarrow> u64 \<Rightarrow> u8 list \<Rightarrow> u64 \<Rightarrow> u64 \<Rightarrow> u8 list \<Rightarrow> vfs_fs_node" where
  "node_of fs mode cs copy h contents =
     zero_node\<lparr>node_path_length := of_nat (length cs), node_path := copy, node_fs := fs,
       max_seek_position := of_nat (length contents), node_mode := mode, node_private := h\<rparr>"

lemma ustar_open_ok:
  assumes h: "heap_view R (k + 2) objs s"
    and ar: "archive (heap_bytes s) (block_allocator_virtual_base s) (initrd s + 512) files"
    and path: "cstr (heap_bytes s) path cs" "length cs \<le> 4048"
    and static: "\<And>i. i \<le> length cs \<Longrightarrow> outside_heap (k + 2) s (path + of_nat i)"
    and found: "tar_find cs (initrd s + 512) files = Some (h', contents)" and mode: "mode AND O_WRONLY = 0"
  shows "\<exists>node copy s'. ustar_open fs path mode s = Inr (node, s') \<and>
    heap_view R k ((copy, cs) # (node, replicate 64 0) # objs) s' \<and>
    nodes s' = (nodes s)(node := node_of fs mode cs copy h' contents) \<and> initrd s' = initrd s \<and>
    block_allocator_virtual_base s' = block_allocator_virtual_base s \<and>
    (\<forall>a. outside_heap (k + 2) s a \<longrightarrow> outside_heap k s' a \<and> heap_bytes s' a = heap_bytes s a)"
proof -
  let ?len = "of_nat (length cs) :: u64" and ?b = "block_allocator_virtual_base s"
  have len: "unat ?len = length cs" using path(2) by (simp add: unat_of_nat_exact)
  have h2: "heap_view R (Suc (Suc k)) objs s" using h by simp
  have "unat (64 :: u64) = 64" "(64 :: nat) \<le> 4048" by simp_all
  from kh.alloc_law [OF h2, of 64, unfolded this(1), OF this(2)]
  obtain node s1 where a: "block_allocate 64 s = Inr (node, s1)" and h1: "heap_view R (Suc k) ((node, replicate 64 0) # objs) s1"
    and m1: "block_state.more s1 = block_state.more s" and st: "block_allocator_virtual_base s1 = ?b"
    and b1: "\<And>a. outside_heap (Suc (Suc k)) s a \<Longrightarrow> outside_heap (Suc k) s1 a \<and> heap_bytes s1 a = heap_bytes s a"
    by blast
  have static: "outside_heap (Suc (Suc k)) s (path + of_nat i)" if "i \<le> length cs" for i using static [OF that] by simp
  have below: "outside_heap j s a" if "unat a < unat ?b" for j a using that by (rule kh.below_law)
  note f1 = ustar_fields_more [OF m1]
  have ar1: "archive (heap_bytes s1) ?b (initrd s1 + 512) files" using archive_cong [OF ar, of "heap_bytes s1"] b1 [OF below] f1 by simp
  have path1: "cstr (heap_bytes s1) path cs" using cstr_cong [OF _ path(1), of "heap_bytes s1"] b1 [OF static] by simp
  note tf = tar_find_archive [OF ar1, of cs h' contents]
  have oh: "ustar_open_header path s1 = Inr h'" using open_header_eq [OF ar1 path1] found f1 by simp
  have "outside_heap (Suc k) s1 (path + of_nat i)" if "i < unat ?len" for i
    using b1 [OF static [of i]] that len by simp
  from duplicate_bytes_ok [OF h1 _ this, of ?len, unfolded len, OF path(2)]
  obtain copy s2 where d: "duplicate_bytes path ?len s1 = Inr (copy, s2)"
    and v: "heap_view R k ((copy, bytes_at (heap_bytes s1) path (length cs)) # (node, replicate 64 0) # objs) s2"
    and m2: "block_state.more s2 = block_state.more s1"
    and vb2: "block_allocator_virtual_base s2 = block_allocator_virtual_base s1"
    and b2: "\<forall>a. outside_heap (Suc k) s1 a \<longrightarrow> outside_heap k s2 a \<and> heap_bytes s2 a = heap_bytes s1 a"
    by blast
  note f2 = ustar_fields_more [OF m2]
  have bytes: "outside_heap k s2 a \<and> heap_bytes s2 a = heap_bytes s a" if "outside_heap (k + 2) s a" for a
    using b1 [of a] b2 that by simp
  have ar2: "archive (heap_bytes s2) ?b (initrd s + 512) files" using archive_cong [OF ar, of "heap_bytes s2"] bytes [OF below] by simp
  have size: "parse_size_of (heap_bytes s2) h' = of_nat (length contents)"
    using tar_find_archive [OF ar2 found] parse_size_field by simp
  let ?s' = "set_node node (node_of fs mode cs copy h' contents) s2"
  have "ustar_open fs path mode s = Inr (node, ?s')"
    using mode a oh tar_find_archive [OF ar found] d size strlen_cstr [OF path1]
    by (simp add: ustar_open_def node_of_def)
  moreover have "heap_view R k ((copy, cs) # (node, replicate 64 0) # objs) ?s'"
    using v cstr_iff [of "heap_bytes s1" path cs] path1
    by (subst heap_view_same [where s = s2]) (simp_all add: set_node_def)
  ultimately show ?thesis using bytes f1 f2 vb2 st outside_heap_cong [of ?s' s2 k]
    by (intro exI [of _ node] exI [of _ copy] exI [of _ ?s']) (simp add: set_node_def)
qed

lemma ustar_read_eq:
  assumes nd: "nodes s node = nd" "node_private nd = h" "unat (seek_position nd) < length contents"
    and tar: "bytes_at (heap_bytes s) (h + 124) 12 = octal_field (length contents)" "length contents < 2 ^ 31" "unat n < 2 ^ 31"
  defines "len \<equiv> min (length contents) (unat n)"
  shows "ustar_read node buffer n s =
    Inr (of_nat len, set_node node (nd\<lparr>seek_position := seek_position nd + of_nat len\<rparr>)
      (s\<lparr>heap_bytes := memcpy (heap_bytes s) buffer (h + 512 + seek_position nd) (of_nat len)\<rparr>))"
proof -
  have size: "parse_size_of (heap_bytes s) h = of_nat (length contents)"
    using parse_size_field [OF tar(1)] tar(2) by simp
  have "clamp_length (of_nat (length contents)) n = of_nat len"
    using clamp_length_min [OF tar(2,3)] by (simp add: len_def)
  moreover have "\<not> of_nat (length contents) \<le> seek_position nd"
    using nd(3) tar(2) by (simp add: word_le_nat_alt unat_of_nat_exact)
  ultimately show ?thesis using nd(1,2) size by (simp add: ustar_read_def Let_def)
qed


subsection \<open>Properties\<close>

text \<open>
  The search compares as many characters as the path has, so it stops at the first name that starts with the path. It finds the
  file of exactly that name when no file in front of it has a longer name that starts with the path.
\<close>

definition unambiguous :: "u8 list \<Rightarrow> tar_file list \<Rightarrow> bool" where
  "unambiguous cs files \<longleftrightarrow> list_all (\<lambda>(name, _). take (length cs) name \<noteq> cs) (takeWhile (\<lambda>(name, _). name \<noteq> cs) files)"

lemma tar_find_exact:
  "map_of files cs = Some contents \<Longrightarrow> unambiguous cs files \<Longrightarrow> \<exists>h'. tar_find cs h files = Some (h', contents)"
proof (induction files arbitrary: h)
  case (Cons f rest)
  then show ?case by (cases f) (auto simp: unambiguous_def split: if_splits)
qed simp

text \<open>The search that the comment in the code promises is another one: a path also opens a file that only starts with it.\<close>

lemma tar_find_prefix: "tar_find cs h ((cs @ ending, contents) # rest) = Some (h, contents)"
  by simp

text \<open>
  (C8) A file of the archive can be read by its name: with heap for two more blocks, and with no file in front of it whose longer name
  starts with the path, opening the path for reading returns a node, and reading from it into a buffer below the archive
  copies the contents of the file of exactly that name, as many bytes of them as asked for. The path is a string outside the heap.
\<close>

theorem ustar_reads_file:
  assumes "heap_view R (k + 2) objs s"
    and "archive (heap_bytes s) (block_allocator_virtual_base s) (initrd s + 512) files"
    and "cstr (heap_bytes s) path cs" "length cs \<le> 4048"
    and "\<And>i. i \<le> length cs \<Longrightarrow> outside_heap (k + 2) s (path + of_nat i)"
    and "map_of files cs = Some contents" "unambiguous cs files" "mode AND O_WRONLY = 0"
    and "contents \<noteq> []" "length contents < 2 ^ 31" "unat n < 2 ^ 31" "unat buffer + unat n \<le> unat (initrd s + 512)"
  shows "\<exists>node s1 s2. ustar_open fs path mode s = Inr (node, s1) \<and>
    ustar_read node buffer n s1 = Inr (of_nat (length (take (unat n) contents)), s2) \<and>
    bytes_at (heap_bytes s2) buffer (length (take (unat n) contents)) = take (unat n) contents"
proof -
  let ?b = "block_allocator_virtual_base s" and ?len = "min (length contents) (unat n)"
  obtain h where found: "tar_find cs (initrd s + 512) files = Some (h, contents)" using tar_find_exact [OF assms(6,7)] by blast
  obtain node copy s1 where o: "ustar_open fs path mode s = Inr (node, s1)"
    "nodes s1 = (nodes s)(node := node_of fs mode cs copy h contents)"
    "\<forall>a. unat a < unat ?b \<longrightarrow> heap_bytes s1 a = heap_bytes s a"
    using ustar_open_ok [OF assms(1-5) found assms(8)] kh.below_law by blast
  have "archive (heap_bytes s1) ?b (initrd s + 512) files" using archive_cong [OF assms(2), of "heap_bytes s1"] o(3) by simp
  note tf = tar_find_archive [OF this found]
  let ?nd = "node_of fs mode cs copy h contents"
  have nd: "nodes s1 node = ?nd" "node_private ?nd = h" "seek_position ?nd = 0"
    using o(2) by (simp_all add: node_of_def zero_node_def)
  let ?m = "memcpy (heap_bytes s1) buffer (h + 512) (of_nat ?len)"
  have read: "ustar_read node buffer n s1 = Inr (of_nat ?len, set_node node (?nd\<lparr>seek_position := of_nat ?len\<rparr>) (s1\<lparr>heap_bytes := ?m\<rparr>))"
    using ustar_read_eq [OF nd(1,2) _ _ assms(10,11)] tf assms(9) nd(3) by simp
  have len: "unat (of_nat ?len :: u64) = ?len" using assms(10) by (intro unat_of_nat_exact) simp
  have "off_block buffer ?len (h + 512) ?len" unfolding off_block_def
  proof (intro allI impI)
    fix i assume i: "i < ?len"
    have "unat (h + of_nat (512 + i)) = unat h + (512 + i)" using tf i by (intro unat_add_bounded [of h _ ?b]) simp
    then have u: "unat (h + 512 + of_nat i) = unat h + (512 + i)" by (simp add: add.assoc)
    have "\<not> unat (h + 512 + of_nat i - buffer) < ?len"
      using u tf assms(12) i unat_less_2p64 [of "initrd s + 512"] by (subst unat_minus_less_iff) auto
    then show "?len \<le> unat (h + 512 + of_nat i - buffer)" by (simp only: not_less)
  qed
  then have "?m = put_bytes (heap_bytes s1) buffer (bytes_at (heap_bytes s1) (h + 512) ?len)"
    using memcpy_block [of buffer "of_nat ?len" "h + 512" "heap_bytes s1"] unfolding len by simp
  moreover have "bytes_at (heap_bytes s1) (h + 512) ?len = take ?len contents"
    using tf take_bytes_at [of ?len "heap_bytes s1" "h + 512" "length contents"] by (simp add: min.commute)
  ultimately have "bytes_at ?m buffer ?len = take ?len contents"
    using assms(10) by (simp add: bytes_at_put_bytes)
  moreover have "take ?len contents = take (unat n) contents" by (simp add: min_def)
  ultimately show ?thesis using o(1) read by (simp add: set_node_def min.commute)
qed

text \<open>
  The second read of a file runs past its end: from a position inside the file that is not its start, a request
  for at least the file's size returns that whole size, more bytes than there are left, and leaves the position
  behind the end.
\<close>

theorem ustar_read_overruns:
  assumes "node_private (nodes s node) = h" "bytes_at (heap_bytes s) (h + 124) 12 = octal_field len"
    and "0 < unat (seek_position (nodes s node))" "unat (seek_position (nodes s node)) < len"
    and "len \<le> unat n" "unat n < 2 ^ 31"
  shows "\<exists>s'. ustar_read node buffer n s = Inr (of_nat len, s') \<and>
    unat (seek_position (nodes s' node)) = unat (seek_position (nodes s node)) + len"
proof -
  let ?pos = "seek_position (nodes s node)"
  have b: "len < 2 ^ 31" using assms(5,6) by simp
  have "unat (of_nat len :: u64) = len" using b by (intro unat_of_nat_exact) simp
  then have "unat (?pos + of_nat len) = unat ?pos + len" using assms(4) b by (subst unat_plus_exact) simp_all
  moreover have "min len (unat n) = len" using assms(5) by simp
  ultimately show ?thesis
    using ustar_read_eq [of s node _ h "replicate len 0" n buffer] assms b by (simp add: set_node_def)
qed

text \<open>An archive with one file \<open>a\<close> of two bytes, and the path \<open>a\<close>.\<close>

definition tar_memory :: mem8 where
  "tar_memory = put_bytes (put_bytes (put_bytes (put_bytes (\<lambda>_. 0) 0x200 [0x61]) 0x1200 [0x2E, 0x2F, 0x61])
     0x127C [0x30, 0x30, 0x30, 0x30, 0x30, 0x30, 0x30, 0x30, 0x30, 0x30, 0x32, 0]) 0x1400 [0x68, 0x69]"

definition ustar_boot :: "block_state \<Rightarrow> ustar_state" where
  "ustar_boot s = dev_state.extend (vfs_state.extend (vfs_boot s) (dev_state.fields (\<lambda>_. zero_device) 0)) (ustar_state.fields 0x1000)"

lemmas boot_defs = ustar_boot_def vfs_boot_def block_state.defs sched_state.defs vfs_state.defs dev_state.defs ustar_state.defs


lemma octal_digits_zero: "octal_digits k 0 = replicate k 0x30"
  by (induction k) (simp_all add: replicate_append_same)

lemma octal_field_2: "octal_field (Suc (Suc 0)) = [0x30, 0x30, 0x30, 0x30, 0x30, 0x30, 0x30, 0x30, 0x30, 0x30, 0x32, 0]"
proof -
  have "octal_digits (Suc 10) (Suc (Suc 0)) = octal_digits 10 0 @ [0x32]" by (simp only: octal_digits.simps) simp
  moreover have "octal_digits 10 0 = [0x30, 0x30, 0x30, 0x30, 0x30, 0x30, 0x30, 0x30, 0x30, 0x30]"
    unfolding octal_digits_zero by (simp add: numeral_eq_Suc)
  moreover have "(11 :: nat) = Suc 10" by simp
  ultimately show ?thesis by (simp only: octal_field_def append.simps)
qed

lemma tar_memory_archive: "archive tar_memory 0x32000 0x1200 [([0x61], [0x68, 0x69])]"
proof -
  have "bytes_at tar_memory 0x127C 12 = [0x30, 0x30, 0x30, 0x30, 0x30, 0x30, 0x30, 0x30, 0x30, 0x30, 0x32, 0]"
  proof -
    have "[0..<12] = [0, 1, 2, 3, 4, 5, 6, 7, 8, 9, 10, 11]" by (simp add: upt_rec)
    then show ?thesis by (simp add: bytes_at_def tar_memory_def put_bytes_def)
  qed
  moreover have "bytes_at tar_memory 0x1400 (Suc (Suc 0)) = [0x68, 0x69]"
    by (simp add: bytes_at_def tar_memory_def put_bytes_def)
  moreover have "tar_memory 0x1200 \<noteq> 0" "tar_memory 0x1202 = 0x61" "tar_memory 0x1203 = 0" "tar_memory 0x1600 = 0"
    by (simp_all add: tar_memory_def put_bytes_def)
  moreover have "span (Suc (Suc 0)) = 1024" by (simp add: span_def)
  ultimately show ?thesis by (simp add: octal_field_2)
qed

theorem ustar_reads_file_witness:
  "\<exists>s node s1 s2. ustar_open 7 0x200 1 (s :: ustar_state) = Inr (node, s1) \<and>
     ustar_read node 0x300 10 s1 = Inr (2, s2) \<and> bytes_at (heap_bytes s2) 0x300 2 = [0x68, 0x69]"
proof -
  obtain r b where b: "heap_view {r} 3 [] (b :: block_state)" "block_allocator_virtual_base b = 0x32000" "heap_bytes b = tar_memory"
    using heap_boot_view by metis
  let ?s = "ustar_boot b"
  have f: "block_allocator_virtual_base ?s = 0x32000" "heap_bytes ?s = tar_memory" "initrd ?s = 0x1000"
    using b by (simp_all add: boot_defs)
  have "heap_view {r} 3 [] ?s" using b(1) by (subst heap_view_same [where s = b]) (simp_all add: boot_defs)
  then have "heap_view {r} (1 + 2) [] ?s" by (simp add: numeral_3_eq_3)
  note h = this
  have ar: "archive (heap_bytes ?s) (block_allocator_virtual_base ?s) (initrd ?s + 512) [([0x61], [0x68, 0x69])]"
    unfolding f using tar_memory_archive by simp
  have path: "cstr (heap_bytes ?s) 0x200 [0x61]" by (simp add: f tar_memory_def put_bytes_def)
  have static: "outside_heap (1 + 2) ?s (0x200 + of_nat i)" if "i \<le> length [0x61 :: u8]" for i
    by (rule kh.below_law) (unfold f, use that in \<open>cases i, auto\<close>)
  have found: "map_of [([0x61], [0x68, 0x69])] [0x61] = Some [0x68, 0x69 :: u8]" "unambiguous [0x61] [([0x61], [0x68, 0x69])]"
    by (simp_all add: unambiguous_def)
  have e: "take (unat (10 :: u64)) [0x68, 0x69 :: u8] = [0x68, 0x69]" "length [0x68, 0x69 :: u8] = 2"
    "(of_nat 2 :: u64) = 2" by simp_all
  have "1 AND O_WRONLY = (0 :: u64)" "[0x68, 0x69 :: u8] \<noteq> []" "length [0x68, 0x69 :: u8] < 2 ^ 31" "unat (10 :: u64) < 2 ^ 31"
    "unat (0x300 :: u64) + unat (10 :: u64) \<le> unat (initrd ?s + 512)" "length [0x61 :: u8] \<le> 4048" by (simp_all add: f)
  from ustar_reads_file [OF h ar path this(6) static found this(1-5), of 7] show ?thesis unfolding e by blast
qed

theorem ustar_read_overruns_witness:
  "\<exists>s'. ustar_read 0x5000 0x300 10 (set_node 0x5000 (zero_node\<lparr>node_private := 0x1200, seek_position := 1\<rparr>)
      (ustar_boot (heap_boot\<lparr>heap_bytes := tar_memory\<rparr>))) = Inr (2, s') \<and> unat (seek_position (nodes s' 0x5000)) = 3"
proof -
  let ?s = "set_node 0x5000 (zero_node\<lparr>node_private := 0x1200, seek_position := 1\<rparr>) (ustar_boot (heap_boot\<lparr>heap_bytes := tar_memory\<rparr>))"
  have f: "nodes ?s 0x5000 = zero_node\<lparr>node_private := 0x1200, seek_position := 1\<rparr>" "heap_bytes ?s = tar_memory"
    by (simp_all add: set_node_def boot_defs)
  have "bytes_at tar_memory (0x1200 + 124) 12 = octal_field 2" using tar_memory_archive by (simp add: numeral_2_eq_2)
  then show ?thesis
    using ustar_read_overruns [of ?s "0x5000" "0x1200" 2 10 "0x300"] unfolding f by (simp add: numeral_3_eq_3)
qed

end
