(* ===== verification/Elf_Correct.thy ===== *)
theory Elf_Correct
  imports Elf Ustar_Correct
begin

text \<open>
  Properties of the loader: how much of the file a page of a segment gets, and what happens to a file in the
  initial ramdisk that is not an executable.
\<close>

subsection \<open>The size to load\<close>

lemma sint_word_of_int_small:
  assumes "- (2 ^ 63) \<le> k" "k < 2 ^ 63"
  shows "sint (word_of_int k :: u64) = k"
  using assms by (simp add: signed_of_int) (intro signed_take_bit_int_eq_self; simp)

lemma sint32_word_of_int_small:
  assumes "- (2 ^ 31) \<le> k" "k < 2 ^ 31"
  shows "sint (word_of_int k :: u32) = k"
  using assms by (simp add: signed_of_int) (intro signed_take_bit_int_eq_self; simp)

lemma int_of_word_of_int:
  assumes "- (2 ^ 31) \<le> k" "k < 2 ^ 31"
  shows "int_of (word_of_int k) = k"
  using sint32_word_of_int_small [OF assms] by (simp add: int_of_def unsigned_of_int signed_of_int signed_take_bit_take_bit)

text \<open>The difference of two sizes survives the conversions to \<open>int\<close>.\<close>

lemma difference_small:
  fixes a b :: nat
  assumes "a < 2 ^ 31" "b < 2 ^ 31"
  shows "sint (word_of_int (int a - int b) :: u64) = int a - int b" "int_of (word_of_int (int a - int b)) = int a - int b"
    "int_abs (int a - int b) = int (if b \<le> a then a - b else b - a)"
proof -
  have b: "- (2 ^ 31) \<le> int a - int b" "int a - int b < 2 ^ 31" "- (2 ^ 31) \<le> int b - int a" "int b - int a < 2 ^ 31"
    using assms by simp_all
  show "int_of (word_of_int (int a - int b)) = int a - int b"
    using b(1,2) by (rule int_of_word_of_int)
  show "sint (word_of_int (int a - int b) :: u64) = int a - int b" by (rule sint_word_of_int_small) (use b in simp_all)
  show "int_abs (int a - int b) = int (if b \<le> a then a - b else b - a)"
    using sint32_word_of_int_small [OF b(3,4)] by (simp add: int_abs_def of_nat_diff)
qed

text \<open>
  How many bytes of the file a page of a segment gets. Pages that start inside the segment's part of the file get what is left
  of it, one page at most. A page that starts up to one page behind the end of that part is not left
  clear: it gets as many bytes from the file as it lies behind the end. Pages further behind get nothing.
\<close>

theorem load_size_correct:
  assumes "unat filesz < 2 ^ 31" "unat i < 2 ^ 31"
  shows "load_size filesz i =
    (if unat i \<le> unat filesz then Some (of_nat (min (unat filesz - unat i) 4096))
     else if unat i \<le> unat filesz + 4096 then Some (of_nat (unat i - unat filesz))
     else None)"
proof -
  let ?d = "int (unat filesz) - int (unat i)"
  have "filesz - i = word_of_int ?d" by (simp add: uint_nat [symmetric])
  then have d: "sint (filesz - i) = ?d" using difference_small(1) [OF assms] by (simp only:)
  note io = difference_small(2) [OF assms]
  have m: "size_of_int (int_min (int k) 4096) = of_nat (min k 4096)" for k
    by (simp add: int_min_def size_of_int_def min_def)
  have "load_size filesz i = (if ?d < - 4096 then None
      else Some (of_nat (min (if unat i \<le> unat filesz then unat filesz - unat i else unat i - unat filesz) 4096)))"
    unfolding load_size_def Let_def d io difference_small(3) [OF assms] m ..
  moreover have "?d < - 4096 \<longleftrightarrow> \<not> unat i \<le> unat filesz + 4096" by linarith
  ultimately show ?thesis by (auto simp: min_def)
qed

theorem load_size_correct_witness: "load_size 0x1010 0x2000 = Some 0xFF0 \<and> load_size 0x1010 0x1000 = Some 0x10"
  using load_size_correct [of "0x1010" "0x2000"] load_size_correct [of "0x1010" "0x1000"] by simp_all


subsection \<open>Files that are not executables\<close>

lemma heap_view_static_write:
  assumes "heap_view R k objs s" "\<And>a. unat (block_allocator_virtual_base s) \<le> unat a \<Longrightarrow> m a = heap_bytes s a"
  shows "heap_view R k objs (s\<lparr>heap_bytes := m\<rparr>)"
proof -
  let ?s = "s\<lparr>heap_bytes := m\<rparr>"
  obtain fs bs where h: "heap_ok R s fs bs" "heap_supply k s" "distinct (map fst objs)" "list_all (object_at s bs) objs"
    using assms(1) by (auto simp: heap_view_def)
  have "heap_ok R ?s fs bs" using h(1) by (simp add: heap_ok_def block_inv_def block_lists_def pt_inv_same [of ?s s])
  moreover have "heap_supply k ?s" using h(2) by (simp add: heap_supply_def spare_def Let_def)
  moreover have "object_at ?s bs obj" if "obj \<in> set objs" for obj
  proof -
    obtain p xs where p: "obj = (p, xs)" by (cases obj)
    then have o: "p - 48 \<in> set bs" "length xs \<le> unat (block_size (headers s (p - 48)))" "bytes_at (heap_bytes s) p (length xs) = xs"
      using h(4) that by (auto simp: list_all_iff object_at_def)
    note e = block_extent [OF h(1) o(1)]
    have "m (p + of_nat i) = heap_bytes s (p + of_nat i)" if "i < length xs" for i
    proof (rule assms(2))
      have "unat p + i < 2 ^ 64" using e o(2) that by simp
      then have "unat (p + of_nat i) = unat p + i" by (subst unat_plus_exact) (simp_all add: unat_of_nat_exact)
      then show "unat (block_allocator_virtual_base s) \<le> unat (p + of_nat i)" using e by simp
    qed
    then have "bytes_at m p (length xs) = xs" using bytes_at_cong [of "length xs" m p "heap_bytes s"] o(3) by simp
    then show ?thesis using o p by (simp add: object_at_def)
  qed
  ultimately show ?thesis using h(3) unfolding heap_view_def
    by (intro exI [of _ fs] exI [of _ bs]) (simp add: list_all_iff)
qed

text \<open>Reading the start of a file into static memory that does not overlap the archive.\<close>

lemma ustar_read_at_start:
  assumes nd: "nodes s node = nd" "node \<noteq> 0" "node_private nd = h" "ops (node_fs nd) = ustar"
    and tar: "bytes_at (heap_bytes s) (h + 124) 12 = octal_field (length contents)" "length contents < 2 ^ 31"
      "bytes_at (heap_bytes s) (h + 512) (length contents) = contents" "0 < unat n" "unat n \<le> length contents"
    and off: "off_block buffer (unat n) (h + 512) (unat n)"
  shows "read_at ops node 0 buffer n s = Inr (set_node node (nd\<lparr>seek_position := n\<rparr>)
    (s\<lparr>heap_bytes := put_bytes (heap_bytes s) buffer (take (unat n) contents)\<rparr>))"
proof -
  let ?s = "set_node node (nd\<lparr>seek_position := 0\<rparr>) s"
  have ne: "contents \<noteq> []" using tar(4,5) by auto
  have seek: "vfs_lseek ops node 0 SEEK_SET s = Inr (0, ?s)"
    using nd by (simp add: vfs_lseek_def ustar_def ustar_lseek_def)
  have n: "min (length contents) (unat n) = unat n" using tar(5) by simp
  have f: "nodes ?s node = nd\<lparr>seek_position := 0\<rparr>" "heap_bytes ?s = heap_bytes s" by (simp_all add: set_node_def)
  have "take (unat n) contents = bytes_at (heap_bytes s) (h + 512) (unat n)"
    using tar(3,5) take_bytes_at [of "unat n" "heap_bytes s" "h + 512" "length contents"] by (simp add: min.absorb1)
  then have "memcpy (heap_bytes s) buffer (h + 512) n = put_bytes (heap_bytes s) buffer (take (unat n) contents)"
    using memcpy_block [OF off] by simp
  moreover have "unat n < 2 ^ 31" using tar(2,5) by simp
  ultimately have "ustar_read node buffer n ?s = Inr (n, set_node node (nd\<lparr>seek_position := n\<rparr>)
      (?s\<lparr>heap_bytes := put_bytes (heap_bytes s) buffer (take (unat n) contents)\<rparr>))"
    using ustar_read_eq [OF f(1), of h contents n buffer] nd(3) tar ne unfolding f n by simp
  then have "vfs_read ops node buffer n ?s = Inr (n, set_node node (nd\<lparr>seek_position := n\<rparr>)
      (?s\<lparr>heap_bytes := put_bytes (heap_bytes s) buffer (take (unat n) contents)\<rparr>))"
    using nd by (simp add: vfs_read_def f ustar_def)
  then show ?thesis using seek by (simp add: read_at_def set_node_def)
qed

lemma ustar_close_ok:
  assumes "heap_view R k objs s" "(node, xs) \<in> set objs" "(node_path (nodes s node), ys) \<in> set objs" "node_path (nodes s node) \<noteq> node"
  shows "\<exists>s'. ustar_close node s = Inr s' \<and>
    heap_view R k (filter (\<lambda>(q, _). q \<noteq> node) (filter (\<lambda>(q, _). q \<noteq> node_path (nodes s node)) objs)) s' \<and>
    block_state.more s' = block_state.more s"
proof -
  let ?p = "node_path (nodes s node)"
  have "?p \<noteq> 0" using kh.address_law [OF assms(1)] assms(3) by force
  obtain s1 where s1: "block_deallocate ?p s = Inr s1" "heap_view R k (filter (\<lambda>(q, _). q \<noteq> ?p) objs) s1"
    "block_state.more s1 = block_state.more s"
    using kh.free_law [OF assms(1,3)] by blast
  have "(node, xs) \<in> set (filter (\<lambda>(q, _). q \<noteq> ?p) objs)" using assms(2,4) by auto
  from kh.free_law [OF s1(2) this] obtain s2 where s2: "block_deallocate node s1 = Inr s2"
    "heap_view R k (filter (\<lambda>(q, _). q \<noteq> node) (filter (\<lambda>(q, _). q \<noteq> ?p) objs)) s2" "block_state.more s2 = block_state.more s1"
    by blast
  then show ?thesis using s1 \<open>?p \<noteq> 0\<close> by (simp add: ustar_close_def)
qed

text \<open>
  (C22) A file of the initial ramdisk that does not start with the ELF signature is refused: loading it from its open node, with
  the header buffer in static memory apart from the file, returns false, creates no task, and closes the node,
  so that its two heap blocks are free again.
\<close>

theorem elf_refuses_other_files:
  fixes s :: "'a ustar_state_scheme"
  assumes "heap_view R k objs s" "(node, xs) \<in> set objs" "(node_path nd, ys) \<in> set objs" "node_path nd \<noteq> node"
    and "nodes s node = nd" "node_private nd = h" "ops (node_fs nd) = ustar"
    and "bytes_at (heap_bytes s) (h + 124) 12 = octal_field (length contents)" "length contents < 2 ^ 31" "64 \<le> length contents"
    and "bytes_at (heap_bytes s) (h + 512) (length contents) = contents" "take 4 contents \<noteq> ELFMAG"
    and "off_block hdr 64 (h + 512) 64" "unat hdr + 64 \<le> unat (block_allocator_virtual_base s)"
  shows "\<exists>s'. elf_load_from ops hdr ph node s = Inr (False, s') \<and> tasks s' = tasks s \<and>
    heap_view R k (filter (\<lambda>(q, _). q \<noteq> node \<and> q \<noteq> node_path nd) objs) s'"
proof -
  have node: "node \<noteq> 0" using kh.address_law [OF assms(1)] assms(2) by force
  let ?m = "put_bytes (heap_bytes s) hdr (take 64 contents)"
  let ?s1 = "set_node node (nd\<lparr>seek_position := 64\<rparr>) (s\<lparr>heap_bytes := ?m\<rparr>)"
  have rd: "read_at ops node 0 hdr 64 s = Inr ?s1"
    using ustar_read_at_start [where n = 64 and buffer = hdr and ops = ops and nd = nd and s = s and h = h and contents = contents,
      OF assms(5) node assms(6-9,11)] assms(10,13) by simp
  have hb: "heap_bytes ?s1 = ?m" by (simp add: set_node_def)
  have "take 4 (e_ident (read_ehdr ?m hdr)) = take 4 contents"
    using assms(10) by (simp add: read_ehdr_def take_bytes_at bytes_at_put_bytes)
  then have inv: "\<not> elf_header_valid (read_ehdr (heap_bytes ?s1) hdr)" using assms(12) by (simp add: elf_header_valid_def hb)
  have "?m a = heap_bytes s a" if "unat (block_allocator_virtual_base s) \<le> unat a" for a
  proof (rule put_bytes_other)
    have "\<not> unat (a - hdr) < 64"
      using that assms(14) unat_less_2p64 [of "block_allocator_virtual_base s"] by (subst unat_minus_less_iff) auto
    then show "length (take 64 contents) \<le> unat (a - hdr)" by simp
  qed
  then have "heap_view R k objs (s\<lparr>heap_bytes := ?m\<rparr>)" using heap_view_static_write [OF assms(1)] by blast
  then have h1: "heap_view R k objs ?s1" by (subst heap_view_same [where s = "s\<lparr>heap_bytes := ?m\<rparr>"]) (simp_all add: set_node_def)
  have nd1: "node_path (nodes ?s1 node) = node_path nd" "node_fs (nodes ?s1 node) = node_fs nd" by (simp_all add: set_node_def)
  obtain s' where c: "ustar_close node ?s1 = Inr s'" "block_state.more s' = block_state.more ?s1"
    "heap_view R k (filter (\<lambda>(q, _). q \<noteq> node) (filter (\<lambda>(q, _). q \<noteq> node_path nd) objs)) s'"
    using ustar_close_ok [OF h1 assms(2)] assms(3,4) unfolding nd1 by blast
  have "vfs_close ops node ?s1 = Inr s'" using node c(1) nd1 assms(7) by (simp add: vfs_close_def ustar_def)
  then have "elf_load_from ops hdr ph node s = Inr (False, s')" using rd inv by (simp add: elf_load_from_def)
  moreover have "tasks s' = tasks s" using vfs_fields_more(5) [OF c(2)] by (simp add: set_node_def)
  moreover have "filter (\<lambda>(q, _). q \<noteq> node) (filter (\<lambda>(q, _). q \<noteq> node_path nd) objs) =
      filter (\<lambda>(q, _). q \<noteq> node \<and> q \<noteq> node_path nd) objs" by (simp add: case_prod_unfold conj_commute)
  ultimately show ?thesis using c(3) by auto
qed


text \<open>An archive with one text file \<open>a\<close> of 64 characters, and the path \<open>a\<close>.\<close>

definition text_memory :: mem8 where
  "text_memory = put_bytes (put_bytes (put_bytes (put_bytes (\<lambda>_. 0) 0x200 [0x61]) 0x1200 [0x2E, 0x2F, 0x61])
     0x127C (octal_field 64)) 0x1400 (replicate 64 0x23)"

lemma bytes_at_put_apart:
  assumes "unat q + n \<le> unat p" "unat p + length bs \<le> 2 ^ 64"
  shows "bytes_at (put_bytes m p bs) q n = bytes_at m q n"
proof (intro bytes_at_cong put_bytes_other)
  fix i assume "i < n"
  then have "unat (q + of_nat i) = unat q + i" using assms(1) unat_less_2p64 [of p]
    by (subst unat_plus_exact) (simp_all add: unat_of_nat_exact)
  then have "\<not> unat (q + of_nat i - p) < length bs" using assms \<open>i < n\<close> by (subst unat_minus_less_iff) auto
  then show "length bs \<le> unat (q + of_nat i - p)" by simp
qed

lemma text_memory_archive: "archive text_memory 0x32000 0x1200 [([0x61], replicate 64 0x23)]"
proof -
  have l: "length (octal_field 64) = 12" by (simp add: octal_field_def)
  have "bytes_at text_memory 0x1400 64 = replicate 64 0x23" by (simp add: text_memory_def bytes_at_put_bytes)
  moreover have "bytes_at text_memory 0x127C 12 = octal_field 64"
    by (simp add: text_memory_def bytes_at_put_apart bytes_at_put_bytes l)
  moreover have "text_memory 0x1200 = 0x2E" "text_memory 0x1202 = 0x61" "text_memory 0x1203 = 0" "text_memory 0x1600 = 0"
    by (simp_all add: text_memory_def put_bytes_def l)
  moreover have "span 64 = 1024" by (simp add: span_def)
  ultimately show ?thesis by simp
qed

lemma text_not_elf: "take 4 (replicate 64 0x23) \<noteq> ELFMAG"
proof
  assume "take 4 (replicate 64 0x23) = ELFMAG"
  then have "take 4 (replicate 64 0x23) ! 0 = ELFMAG ! 0" by (rule arg_cong)
  then show False by simp
qed

theorem elf_refuses_other_files_witness:
  "\<exists>s node s'. elf_load_from (\<lambda>_. ustar) 0x3000 0x3100 node (s :: ustar_state) = Inr (False, s') \<and> tasks s' = tasks s"
proof -
  obtain r b where b: "heap_view {r} 3 [] (b :: block_state)" "block_allocator_virtual_base b = 0x32000" "heap_bytes b = text_memory"
    using heap_boot_view by metis
  let ?s = "ustar_boot b" and ?c = "replicate 64 (0x23 :: u8)"
  have f: "block_allocator_virtual_base ?s = 0x32000" "heap_bytes ?s = text_memory" "initrd ?s = 0x1000"
    using b by (simp_all add: boot_defs)
  have "heap_view {r} 3 [] ?s" using b(1) by (subst heap_view_same [where s = b]) (simp_all add: boot_defs)
  then have h: "heap_view {r} (1 + 2) [] ?s" by (simp add: numeral_3_eq_3)
  have ar: "archive (heap_bytes ?s) (block_allocator_virtual_base ?s) (initrd ?s + 512) [([0x61], ?c)]"
    unfolding f using text_memory_archive by simp
  have l: "length (octal_field 64) = 12" by (simp add: octal_field_def)
  have path: "cstr (heap_bytes ?s) 0x200 [0x61]" by (simp add: f text_memory_def put_bytes_def l)
  have static: "outside_heap (1 + 2) ?s (0x200 + of_nat i)" if "i \<le> length [0x61 :: u8]" for i
    by (rule kh.below_law) (unfold f, use that in \<open>cases i, auto\<close>)
  have found: "tar_find [0x61] (initrd ?s + 512) [([0x61], ?c)] = Some (0x1200, ?c)" by (simp add: f)
  have "length [0x61 :: u8] \<le> 4048" "1 AND O_WRONLY = (0 :: u64)" by simp_all
  from ustar_open_ok [OF h ar path this(1) static found this(2), of 7]
  obtain node copy and s1 :: ustar_state where v: "heap_view {r} 1 [(copy, [0x61]), (node, replicate 64 0)] s1"
    and ns: "nodes s1 = (nodes ?s)(node := node_of 7 1 [0x61] copy 0x1200 ?c)"
    and same: "\<forall>a. unat a < unat (block_allocator_virtual_base ?s) \<longrightarrow> heap_bytes s1 a = heap_bytes ?s a"
    and vb: "block_allocator_virtual_base s1 = block_allocator_virtual_base ?s"
    using kh.below_law [of _ ?s "1 + 2"] by (auto simp del: plus_nat.simps)
  have n: "nodes s1 node = node_of 7 1 [0x61] copy 0x1200 ?c" using ns by simp
  have "archive (heap_bytes s1) 0x32000 0x1200 [([0x61], ?c)]"
    using archive_cong [OF text_memory_archive, of "heap_bytes s1"] same f by simp
  then have tar: "bytes_at (heap_bytes s1) (0x1200 + 124) 12 = octal_field (length ?c)" "bytes_at (heap_bytes s1) (0x1200 + 512) (length ?c) = ?c"
    by simp_all
  have o: "off_block 0x3000 64 (0x1200 + 512) 64" unfolding off_block_def
  proof (intro allI impI)
    fix i :: nat assume "i < 64"
    then have "unat (0x1400 + of_nat i :: u64) = 0x1400 + i" by (subst unat_plus_exact) (simp_all add: unat_of_nat_exact)
    then have "\<not> unat (0x1400 + of_nat i - 0x3000 :: u64) < 64" using \<open>i < 64\<close> by (subst unat_minus_less_iff) auto
    then show "64 \<le> unat (0x1200 + 512 + of_nat i - 0x3000 :: u64)" by simp
  qed
  have ne: "copy \<noteq> node" using kh.address_law [OF v] by simp
  have "\<exists>s'. elf_load_from (\<lambda>_. ustar) 0x3000 0x3100 node s1 = Inr (False, s') \<and> tasks s' = tasks s1 \<and>
      heap_view {r} 1 (filter (\<lambda>(q, _). q \<noteq> node \<and> q \<noteq> node_path (node_of 7 1 [0x61] copy 0x1200 ?c))
        [(copy, [0x61]), (node, replicate 64 0)]) s'"
  proof (rule elf_refuses_other_files [OF v _ _ _ n _ _ tar(1) _ _ tar(2) _ o])
    show "(node, replicate 64 0) \<in> set [(copy, [0x61]), (node, replicate 64 0)]" by simp
    show "(node_path (node_of 7 1 [0x61] copy 0x1200 ?c), [0x61]) \<in> set [(copy, [0x61]), (node, replicate 64 0)]"
      by (simp add: node_of_def)
    show "take 4 ?c \<noteq> ELFMAG" by (rule text_not_elf)
  qed (simp_all add: node_of_def vb f ne)
  then show ?thesis by blast
qed

end
