(* ===== verification/Devices_Correct.thy ===== *)
theory Devices_Correct
  imports Devices Vfs_Correct
begin

text \<open>
  Opening a device by its name: which device is found, when access is refused, and the node that is made.
\<close>

text \<open>A list of devices with their names.\<close>

fun device_chain :: "mem8 \<Rightarrow> (u64 \<Rightarrow> device) \<Rightarrow> u64 \<Rightarrow> (u64 \<times> u8 list) list \<Rightarrow> bool" where
  "device_chain m devs p [] \<longleftrightarrow> p = 0"
| "device_chain m devs p ((d, name) # ds) \<longleftrightarrow>
     p = d \<and> d \<noteq> 0 \<and> dev_name_length (devs d) = of_nat (length name) \<and> length name < 2 ^ 64 \<and>
     bytes_at m (dev_name (devs d)) (length name) = name \<and> device_chain m devs (dev_next (devs d)) ds"

definition device_named :: "u8 list \<Rightarrow> (u64 \<times> u8 list) list \<Rightarrow> u64" where
  "device_named name ds = (case find (\<lambda>(d, n). n = name) ds of None \<Rightarrow> 0 | Some (d, n) \<Rightarrow> d)"

lemma device_named_simps [simp]:
  "device_named name [] = 0" "device_named name ((d, n) # ds) = (if n = name then d else device_named name ds)"
  by (simp_all add: device_named_def)

lemma find_device_named:
  assumes "cstr m p name"
  shows "device_chain m devs d ds \<Longrightarrow> find_device m devs p (of_nat (length name)) d = Some (device_named name ds)"
proof (induction ds arbitrary: d)
  case Nil
  then show ?case by (subst find_device.simps) simp
next
  case (Cons dn ds)
  obtain e n where dn: "dn = (e, n)" by (cases dn)
  have c: "d = e" "e \<noteq> 0" "dev_name_length (devs e) = of_nat (length n)" "length n < 2 ^ 64"
    "bytes_at m (dev_name (devs e)) (length n) = n" "device_chain m devs (dev_next (devs e)) ds"
    using Cons.prems by (simp_all add: dn)
  have len: "(of_nat (length name) :: u64) = of_nat (length n) \<longleftrightarrow> length name = length n"
    using cstr_length [OF assms] c(4) by (rule of_nat_u64_eq_iff)
  have cmp: "strncmp m p (dev_name (devs e)) (of_nat (length name)) = 0 \<longleftrightarrow> bytes_at m (dev_name (devs e)) (length name) = name"
    using strncmp_loop_bytes [OF assms order_refl, of "dev_name (devs e)"] unat_of_nat_exact [OF cstr_length [OF assms]]
    by (simp add: strncmp_def)
  have "length name = length n \<and> bytes_at m (dev_name (devs e)) (length name) = name \<longleftrightarrow> n = name"
    using c(5) by metis
  then have iff: "of_nat (length name) = dev_name_length (devs e) \<and>
      strncmp m p (dev_name (devs e)) (of_nat (length name)) = 0 \<longleftrightarrow> n = name"
    unfolding c(3) len cmp .
  have "find_device m devs p (of_nat (length name)) e =
      (if n = name then Some e else find_device m devs p (of_nat (length name)) (dev_next (devs e)))"
    using c(2) iff by (subst find_device.simps) (simp only: if_False simp_thms)
  then show ?case using c(1) Cons.IH [OF c(6)] by (simp add: dn)
qed

lemma directory_length_name:
  assumes "cstr m p name" "SLASH \<notin> set name"
  shows "directory_length m p 0 = Some (of_nat (length name))"
proof -
  have "directory_length m p (of_nat (length name - k)) = Some (of_nat (length name))" if "k \<le> length name" for k
    using that
  proof (induction k)
    case 0
    then show ?case using cstr_end [OF assms(1)] by (subst directory_length.simps) simp
  next
    case (Suc k)
    let ?i = "length name - Suc k"
    have i: "?i < length name" using Suc.prems by simp
    have "m (p + of_nat ?i) = name ! ?i" using cstr_nth [OF assms(1) i] .
    then have "m (p + of_nat ?i) \<noteq> SLASH" "m (p + of_nat ?i) \<noteq> 0"
      using assms cstr_no_zero [OF assms(1)] nth_mem [OF i] by metis+
    moreover have "(of_nat ?i + 1 :: u64) = of_nat (length name - k)"
      using Suc.prems by (metis Suc_diff_Suc Suc_le_eq add.commute of_nat_Suc)
    ultimately show ?case using Suc by (subst directory_length.simps) simp
  qed
  from this [of "length name"] show ?thesis by simp
qed

lemma devfs_open_name:
  assumes "cstr (heap_bytes s) path (SLASH # name)" "SLASH \<notin> set name" "name \<noteq> []"
    and "device_chain (heap_bytes s) (devices s) (device_list s) ds"
  shows "devfs_open (Suc fuel) init dot fs path mode s =
    (if device_named name ds = 0 then Inr (- ENOENT, s) else open_device init fs path mode (device_named name ds) s)"
proof -
  have c: "heap_bytes s path = SLASH" "cstr (heap_bytes s) (path + 1) name" using assms(1) by simp_all
  have ne: "heap_bytes s (path + 1) \<noteq> 0" using c(2) assms(3) by (cases name) auto
  have len: "(of_nat (length name) :: u64) \<noteq> 0" using of_nat_u64_eq_0_iff [OF cstr_length [OF c(2)]] assms(3) by simp
  have "heap_bytes s (path + 1 + of_nat (length name)) = 0" using cstr_end [OF c(2)] .
  then show ?thesis
    using c ne len directory_length_name [OF c(2) assms(2)] find_device_named [OF c(2) assms(4)]
    by (simp add: devfs_open_def)
qed


lemma dev_fields_more:
  fixes s s' :: "'a dev_state_scheme"
  assumes "block_state.more s' = block_state.more s"
  shows "devices s' = devices s" "device_list s' = device_list s"
  using assms by (cases s; cases s'; simp)+

definition device_node :: "u64 \<Rightarrow> u64 \<Rightarrow> u8 list \<Rightarrow> u64 \<Rightarrow> u64 \<Rightarrow> vfs_fs_node" where
  "device_node fs mode cs copy dev =
     zero_node\<lparr>node_path_length := of_nat (length cs), node_path := copy, node_fs := fs, is_device := True,
       node_mode := mode, node_private := dev\<rparr>"

lemma open_device_ok:
  assumes h: "heap_view R (k + 2) objs s" and path: "cstr (heap_bytes s) path cs" "length cs \<le> 4048"
    and static: "\<And>i. i \<le> length cs \<Longrightarrow> unat (path + of_nat i) < unat (block_allocator_virtual_base s)"
    and access: "mode AND O_RDONLY = 0 \<or> dev_read (devices s dev) \<noteq> 0" "mode AND O_WRONLY = 0 \<or> dev_write (devices s dev) \<noteq> 0"
    and init: "dev_initialise_node (devices s dev) = 0"
  shows "\<exists>node copy s'. open_device init fs path mode dev s = Inr (node, s') \<and>
    heap_view R k ((copy, cs) # (node, replicate 64 0) # objs) s' \<and>
    nodes s' = (nodes s)(node := device_node fs mode cs copy dev)"
proof -
  let ?len = "of_nat (length cs) :: u64" and ?b = "block_allocator_virtual_base s"
  have len: "unat ?len = length cs" using path(2) by (simp add: unat_of_nat_exact)
  have h2: "heap_view R (Suc (Suc k)) objs s" using h by simp
  have "unat (64 :: u64) = 64" "(64 :: nat) \<le> 4048" by simp_all
  from kh.alloc_below [OF h2, of 64, unfolded this(1), OF this(2)]
  obtain node s1 where a: "block_allocate 64 s = Inr (node, s1)" and h1: "heap_view R (Suc k) ((node, replicate 64 0) # objs) s1"
    and m1: "block_state.more s1 = block_state.more s" and st: "block_allocator_virtual_base s1 = ?b"
    and b1: "\<forall>a. unat a < unat ?b \<longrightarrow> heap_bytes s1 a = heap_bytes s a"
    by blast
  have path1: "cstr (heap_bytes s1) path cs" using cstr_cong [OF _ path(1), of "heap_bytes s1"] b1 static by simp
  have "unat (path + of_nat i) < unat (block_allocator_virtual_base s1)" if "i < unat ?len" for i
    using static [of i] st that len by simp
  from duplicate_bytes_below [OF h1 _ this, of ?len, unfolded len, OF path(2)]
  obtain copy s2 where d: "duplicate_bytes path ?len s1 = Inr (copy, s2)"
    and v: "heap_view R k ((copy, bytes_at (heap_bytes s1) path (length cs)) # (node, replicate 64 0) # objs) s2"
    and m2: "block_state.more s2 = block_state.more s1"
    by blast
  note f = vfs_fields_more(1) [OF trans [OF m2 m1]] dev_fields_more [OF trans [OF m2 m1]]
  let ?s' = "set_node node (device_node fs mode cs copy dev) s2"
  have "open_device init fs path mode dev s = Inr (node, ?s')"
    using a d strlen_cstr [OF path1] access init f by (auto simp: open_device_def device_node_def set_node_def)
  moreover have "heap_view R k ((copy, cs) # (node, replicate 64 0) # objs) ?s'"
    using v cstr_iff [of "heap_bytes s1" path cs] path1
    by (subst heap_view_same [where s = s2]) (simp_all add: set_node_def)
  ultimately show ?thesis using f by (intro exI [of _ node] exI [of _ copy] exI [of _ ?s']) (simp add: set_node_def)
qed

subsection \<open>Properties\<close>

text \<open>
  (C23) Opening a device by name at the top of the device tree: without a device of exactly that name the call is refused, and
  so it is, with another error, when the mode asks for an operation the device does not have; the state does not
  change. Otherwise, with heap for two more blocks and a device that leaves its nodes alone, the call returns a node on
  that device.
\<close>

theorem devfs_open_correct:
  assumes "heap_view R (k + 2) objs s" "cstr (heap_bytes s) path (SLASH # name)" "length name < 4048"
    and "\<And>i. i \<le> length (SLASH # name) \<Longrightarrow> unat (path + of_nat i) < unat (block_allocator_virtual_base s)"
    and "SLASH \<notin> set name" "name \<noteq> []" "device_chain (heap_bytes s) (devices s) (device_list s) ds"
    and "dev = device_named name ds" "dev_initialise_node (devices s dev) = 0"
  shows "if dev = 0 then devfs_open (Suc fuel) init dot fs path mode s = Inr (- ENOENT, s)
    else if mode AND O_RDONLY \<noteq> 0 \<and> dev_read (devices s dev) = 0 \<or> mode AND O_WRONLY \<noteq> 0 \<and> dev_write (devices s dev) = 0
    then devfs_open (Suc fuel) init dot fs path mode s = Inr (- EACCES, s)
    else \<exists>node copy s'. devfs_open (Suc fuel) init dot fs path mode s = Inr (node, s') \<and>
      heap_view R k ((copy, SLASH # name) # (node, replicate 64 0) # objs) s' \<and>
      nodes s' = (nodes s)(node := device_node fs mode (SLASH # name) copy dev)"
proof -
  note o = devfs_open_name [OF assms(2,5-7), of fuel init dot fs mode, folded assms(8)]
  have l: "length (SLASH # name) \<le> 4048" using assms(3) by simp
  note ok = open_device_ok [OF assms(1,2) l assms(4) _ _ assms(9), of mode init fs]
  show ?thesis
  proof (cases "dev = 0 \<or> mode AND O_RDONLY \<noteq> 0 \<and> dev_read (devices s dev) = 0 \<or> mode AND O_WRONLY \<noteq> 0 \<and> dev_write (devices s dev) = 0")
    case True
    then show ?thesis using o by (auto simp: open_device_def)
  next
    case False
    then have "\<exists>node copy s'. open_device init fs path mode dev s = Inr (node, s') \<and>
        heap_view R k ((copy, SLASH # name) # (node, replicate 64 0) # objs) s' \<and>
        nodes s' = (nodes s)(node := device_node fs mode (SLASH # name) copy dev)"
      by (intro ok) auto
    then show ?thesis using o False by auto
  qed
qed


text \<open>A kernel with one device \<open>tty\<close> that can be written only, and the path \<open>/tty\<close> in static memory.\<close>

definition tty_memory :: mem8 where
  "tty_memory = put_bytes (put_bytes (\<lambda>_. 0) 0x200 [0x2F, 0x74, 0x74, 0x79]) 0x7100 [0x74, 0x74, 0x79]"

definition tty_boot :: "block_state \<Rightarrow> dev_state" where
  "tty_boot s = vfs_state.extend (vfs_boot s) (dev_state.fields
     ((\<lambda>_. zero_device)(0x7000 := zero_device\<lparr>dev_name := 0x7100, dev_name_length := 3, dev_write := 0x8000\<rparr>)) 0x7000)"

theorem devfs_open_correct_witness:
  "\<exists>s node s'. devfs_open 1 (\<lambda>_ _ s. Inr s) 0 7 0x200 1 (s :: dev_state) = Inr (- EACCES, s) \<and>
     devfs_open 1 (\<lambda>_ _ s. Inr s) 0 7 0x200 2 s = Inr (node, s') \<and> node_private (nodes s' node) = 0x7000"
proof -
  obtain r b where b: "heap_view {r} 3 [] (b :: block_state)" "block_allocator_virtual_base b = 0x32000" "heap_bytes b = tty_memory"
    using heap_boot_view by metis
  let ?s = "tty_boot b" and ?n = "[0x74, 0x74, 0x79 :: u8]"
  note defs = tty_boot_def vfs_boot_def block_state.defs sched_state.defs vfs_state.defs dev_state.defs
  have f: "block_allocator_virtual_base ?s = 0x32000" "heap_bytes ?s = tty_memory" "device_list ?s = 0x7000"
    "devices ?s 0x7000 = zero_device\<lparr>dev_name := 0x7100, dev_name_length := 3, dev_write := 0x8000\<rparr>"
    using b by (simp_all add: defs)
  have "heap_view {r} 3 [] ?s" using b(1) by (subst heap_view_same [where s = b]) (simp_all add: defs)
  then have h: "heap_view {r} (1 + 2) [] ?s" by (simp add: numeral_3_eq_3)
  have path: "cstr (heap_bytes ?s) 0x200 (SLASH # ?n)" by (simp add: f tty_memory_def put_bytes_def)
  have static: "unat (0x200 + of_nat i :: u64) < unat (block_allocator_virtual_base ?s)" if "i \<le> length (SLASH # ?n)" for i
    unfolding f using that by (subst unat_plus_exact) (simp_all add: unat_of_nat_exact)
  have "bytes_at tty_memory 0x7100 3 = ?n" by (simp add: tty_memory_def bytes_at_def put_bytes_def upt_rec)
  then have ch: "device_chain (heap_bytes ?s) (devices ?s) (device_list ?s) [(0x7000, ?n)]"
    by (simp add: f zero_device_def numeral_3_eq_3)
  have side: "length ?n < 4048" "SLASH \<notin> set ?n" "?n \<noteq> []" "0x7000 = device_named ?n [(0x7000, ?n)]"
    "dev_initialise_node (devices ?s 0x7000) = 0" by (simp_all add: f zero_device_def)
  note ok = devfs_open_correct [where fuel = 0 and init = "\<lambda>_ _ s. Inr s" and dot = 0 and fs = 7, OF h path side(1) static side(2,3) ch side(4,5)]
  have "devfs_open (Suc 0) (\<lambda>_ _ s. Inr s) 0 7 0x200 1 ?s = Inr (- EACCES, ?s)" using ok [where mode = 1] by (simp add: f zero_device_def)
  moreover have "\<exists>node copy s'. devfs_open (Suc 0) (\<lambda>_ _ s. Inr s) 0 7 0x200 2 ?s = Inr (node, s') \<and>
      nodes s' = (nodes ?s)(node := device_node 7 2 (SLASH # ?n) copy 0x7000)"
    using ok [where mode = 2] by (auto simp: f zero_device_def)
  ultimately show ?thesis by (fastforce simp: device_node_def)
qed

end
