(* ===== verification/Address_Space.thy ===== *)
theory Address_Space
  imports Syscalls
begin

text \<open>
  The address space of a forked task: every page of the parent is copied to a page of its own, and the kernel's half is shared.

  Tables of tasks share the layers of the kernel's half, so they are not disjoint trees as \<open>pt_inv\<close> wants them. The invariant
  here, \<open>tables_ok\<close>, looks at the memory with the upper half of these roots hidden; operations on user addresses act on both
  views in the same way.
\<close>

subsection \<open>Writes inside pages and hidden words\<close>

lemma page_inv_frames_write:
  assumes inv: "page_inv s"
    and same: "allocator_pools s' = allocator_pools s" "page_allocator_lock s' = page_allocator_lock s"
    and mem: "\<And>a. memory s' a \<noteq> memory s a \<Longrightarrow> \<exists>f \<in> frames s. f \<le> unat a \<and> unat a < f + 4096"
  shows "page_inv s'" "frames s' = frames s"
proof -
  have bits: "bitmap_bit (memory s') (bitmap_base p) k = bitmap_bit (memory s) (bitmap_base p) k"
    if p: "p \<in> set (allocator_pools s)" and k: "k < unat (bitmap_entries p)" for p k
  proof (rule bitmap_bit_cong [OF _ k])
    show "pool_static p" using inv p by (auto simp: page_inv_def)
    show "memory s' a = memory s a" if "pool_lo p \<le> unat a" "unat a < unat (allocate_base p)" for a
      using mem [of a] frame_not_in_bitmap [OF inv _ _ _ p, of _ "unat a"] that by force
  qed
  show "page_inv s'" using inv bits unfolding page_inv_def pool_counts_def by (auto simp: same)
  have "marked s' = marked s" using bits by (auto simp: marked_def same)
  then show "frames s' = frames s" by (simp add: frames_def same)
qed

definition hide :: "u64 set \<Rightarrow> 'a page_state_scheme \<Rightarrow> 'a page_state_scheme" where
  "hide H s = s\<lparr>memory := (\<lambda>a. if a \<in> H then 0 else memory s a)\<rparr>"

lemma hide_fields [simp]:
  "allocator_pools (hide H s) = allocator_pools s" "page_allocator_lock (hide H s) = page_allocator_lock s"
  "kernel_hhdm_offset (hide H s) = kernel_hhdm_offset s" "spare k (hide H s) = spare k s"
  "memory (hide H s) a = (if a \<in> H then 0 else memory s a)"
  by (simp_all add: hide_def spare_def)

lemma unhide: "s = (hide H s)\<lparr>memory := memory s\<rparr>"
  by (simp add: hide_def)

text \<open>The words of the upper half of a set of roots.\<close>

definition upper_half :: "u64 set \<Rightarrow> u64 set" where
  "upper_half T = {t + 8 * i | t i. t \<in> T \<and> 256 \<le> unat i \<and> unat i < 512}"

definition tables_ok :: "u64 set \<Rightarrow> u64 set \<Rightarrow> 'a page_state_scheme \<Rightarrow> bool" where
  "tables_ok R T s \<longleftrightarrow> T \<subseteq> R \<and> pt_inv R (hide (upper_half T) s)"

lemma tables_root:
  assumes "tables_ok R T s" "r \<in> R"
  shows "unat r \<in> frames (hide (upper_half T) s)"
  using pt_inv_frame [of R "hide (upper_half T) s" r "[]" r] assms by (simp add: tables_ok_def)

lemma upper_half_in_frame:
  assumes ok: "tables_ok R T s" and a: "a \<in> upper_half T"
  shows "\<exists>f \<in> frames (hide (upper_half T) s). f \<le> unat a \<and> unat a < f + 4096"
proof -
  obtain t i where t: "a = t + 8 * i" "t \<in> T" "unat i < 512" using a by (auto simp: upper_half_def)
  have f: "unat t \<in> frames (hide (upper_half T) s)" using tables_root [OF ok] ok t(2) by (auto simp: tables_ok_def)
  have "page_inv (hide (upper_half T) s)" using ok by (auto simp: tables_ok_def dest: pt_inv_page)
  from pz.held_slot [OF this f t(3)] show ?thesis using f t by (intro bexI [of _ "unat t"]) simp_all
qed

lemma tables_page:
  assumes ok: "tables_ok R T s"
  shows "page_inv s" "frames (hide (upper_half T) s) = frames s"
proof -
  have inv: "page_inv (hide (upper_half T) s)" using ok by (auto simp: tables_ok_def dest: pt_inv_page)
  have "\<exists>f \<in> frames (hide (upper_half T) s). f \<le> unat a \<and> unat a < f + 4096"
    if "memory s a \<noteq> memory (hide (upper_half T) s) a" for a
    using upper_half_in_frame [OF ok, of a] that by (auto split: if_splits)
  then show "page_inv s" "frames (hide (upper_half T) s) = frames s"
    using page_inv_frames_write [OF inv, of s] by simp_all
qed

lemma hidden_in_page:
  assumes "tables_ok R T s" "a \<in> upper_half T"
  obtains t where "t \<in> T" "unat t \<in> frames s" "unat t \<le> unat a" "unat a < unat t + 4096"
proof -
  obtain t i where t: "a = t + 8 * i" "t \<in> T" "unat i < 512" using assms(2) by (auto simp: upper_half_def)
  have f: "unat t \<in> frames s" using tables_root [OF assms(1)] assms(1) t(2) tables_page(2) [OF assms(1)] by (auto simp: tables_ok_def)
  from pz.held_slot [OF tables_page(1) [OF assms(1)] f t(3)] show thesis using that f t by simp
qed

subsection \<open>Operations on both views\<close>

lemma page_scan_hide:
  assumes "\<And>p k. p \<in> set ps \<Longrightarrow> k < unat (bitmap_entries p) \<Longrightarrow> bitmap_bit m' (bitmap_base p) k = bitmap_bit m (bitmap_base p) k"
  shows "page_scan m' 1 req ps = page_scan m 1 req ps"
  using assms
proof (induction ps)
  case (Cons p ps)
  have "run_free m' p 1 (of_nat k) = run_free m p 1 (of_nat k)" if "k < unat (bitmap_entries p)" for k
    using Cons.prems [of p k] that less_unat_2p64 [OF that]
    by (simp add: run_free_one [OF that] bitmap_get_iff unat_of_nat_exact)
  then have "find (\<lambda>k. run_free m' p 1 (of_nat k)) [unat (last_allocated_page_index p)..<unat (bitmap_entries p)] =
      find (\<lambda>k. run_free m p 1 (of_nat k)) [unat (last_allocated_page_index p)..<unat (bitmap_entries p)]"
    by (intro find_cong) auto
  then show ?case using Cons by (simp add: Let_def)
qed simp

lemma hide_allocate:
  assumes ok: "tables_ok R T s" and a: "page_allocate 1 (hide (upper_half T) s) = Inr (p, s1)"
  shows "\<exists>s'. page_allocate 1 s = Inr (p, s') \<and> s1 = hide (upper_half T) s'"
proof -
  let ?H = "upper_half T" and ?ps = "allocator_pools s"
  have pinv: "page_inv (hide ?H s)" using ok by (auto simp: tables_ok_def dest: pt_inv_page)
  have "bitmap_bit (memory (hide ?H s)) (bitmap_base q) k = bitmap_bit (memory s) (bitmap_base q) k"
    if "q \<in> set ?ps" "k < unat (bitmap_entries q)" for q k
  proof (rule bitmap_bit_cong [OF _ that(2)])
    show "pool_static q" using pinv that(1) by (simp add: page_inv_def)
    show "memory (hide ?H s) a = memory s a" if a: "pool_lo q \<le> unat a" "unat a < unat (allocate_base q)" for a
      using upper_half_in_frame [OF ok, of a] frame_not_in_bitmap [OF pinv _ _ _, of _ "unat a" q] a \<open>q \<in> _\<close> by fastforce
  qed
  then have scan: "page_scan (memory (hide ?H s)) 1 (1 * PAGE) ?ps = page_scan (memory s) 1 (1 * PAGE) ?ps"
    by (rule page_scan_hide)
  have a1: "page_allocate_multi 1 (hide ?H s) = Inr (p, s1)" using a by (simp add: page_allocate_eq at_least_one_def)
  obtain i index where i: "page_scan (memory s) 1 (1 * PAGE) ?ps = Some (i, index)" and lock: "page_allocator_lock s = 0"
    using a1 scan pinv by (auto simp: page_allocate_multi_def Let_def page_inv_def split: sum.splits option.splits)
  have zero: "memory s1 b = 0" if b: "b \<in> ?H" for b
  proof -
    obtain f where "f \<in> frames (hide ?H s)" "f \<le> unat b" "unat b < f + 4096" using upper_half_in_frame [OF ok b] by blast
    from page_allocate_keeps [OF pinv a this] show ?thesis using b by simp
  qed
  let ?m = "\<lambda>m. arch_zero_pages (bitmap_set_run m (bitmap_base (?ps ! i)) index 1) (allocate_base (?ps ! i) + index * PAGE) 1"
  obtain ps where s1: "s1 = (hide ?H s)\<lparr>memory := ?m (memory (hide ?H s)), allocator_pools := ps, page_allocator_lock := 0\<rparr>"
    and m: "page_allocate_multi 1 s = Inr (p, s\<lparr>memory := ?m (memory s), allocator_pools := ps, page_allocator_lock := 0\<rparr>)"
    using a1 i lock scan by (auto simp: page_allocate_multi_def Let_def)
  have "?m (memory (hide ?H s)) b = (if b \<in> ?H then 0 else ?m (memory s) b)" for b
  proof (cases "b \<in> ?H")
    case True
    then show ?thesis using zero [OF True] by (simp add: s1)
  next
    case False
    then show ?thesis by (auto simp: arch_zero_pages_def bitmap_set_run_one bitmap_set_def Let_def)
  qed
  then have "?m (memory (hide ?H s)) = (\<lambda>b. if b \<in> ?H then 0 else ?m (memory s) b)" by (rule ext)
  then have "s1 = hide ?H (s\<lparr>memory := ?m (memory s), allocator_pools := ps, page_allocator_lock := 0\<rparr>)"
    unfolding s1 by (simp add: hide_def cong: if_cong)
  then show ?thesis using m by (auto simp: page_allocate_eq at_least_one_def)
qed

lemma hide_next_layer:
  assumes ok: "tables_ok R T s" and slot: "l + 8 * i \<notin> upper_half T"
    and a: "arch_table_manager_allocate_next_layer l i flags (hide (upper_half T) s) = Inr (l', s1)"
  shows "\<exists>s'. arch_table_manager_allocate_next_layer l i flags s = Inr (l', s') \<and> s1 = hide (upper_half T) s'"
proof (cases "entry_present (memory s (l + 8 * i))")
  case True
  then show ?thesis using a slot
    by (auto simp: arch_table_manager_allocate_next_layer_def Let_def hide_def fun_eq_iff split: if_splits)
next
  case False
  then obtain p s2 where p: "page_allocate 1 (hide (upper_half T) s) = Inr (p, s2)"
    using a slot by (auto simp: arch_table_manager_allocate_next_layer_def Let_def split: if_splits sum.splits)
  then obtain s3 where "page_allocate 1 s = Inr (p, s3)" "s2 = hide (upper_half T) s3" using hide_allocate [OF ok] by blast
  then show ?thesis using a slot False p
    by (auto simp: arch_table_manager_allocate_next_layer_def Let_def hide_def fun_eq_iff split: if_splits)
qed

lemma slot_visible:
  assumes ok: "tables_ok R T s" and r: "r \<in> R" and p: "path_ok p" "unat i < 512" and n: "pt_node (hide (upper_half T) s) r p = Some l"
    and low: "p = [] \<Longrightarrow> unat i < 256"
  shows "l + 8 * i \<notin> upper_half T"
proof
  assume "l + 8 * i \<in> upper_half T"
  then obtain t j where t: "l + 8 * i = t + 8 * j" "t \<in> T" "256 \<le> unat j" "unat j < 512" by (auto simp: upper_half_def)
  have inv: "pt_inv R (hide (upper_half T) s)" "t \<in> R" using ok t(2) by (auto simp: tables_ok_def)
  have "p = [] \<and> i = j" using pt_slot_eq [OF inv(1) r inv(2) p(1) _ n _ p(2) t(4), of "[]"] t(1) by simp
  then show False using low t(3) by simp
qed

lemma next_layer_keeps:
  assumes inv: "page_inv s" and f: "f \<in> frames s" "f \<le> unat a" "unat a < f + 4096" and a: "a \<noteq> l + 8 * i"
    and ok: "arch_table_manager_allocate_next_layer l i flags s = Inr (l', s')"
  shows "memory s' a = memory s a"
proof (cases "entry_present (memory s (l + 8 * i))")
  case True
  then show ?thesis using ok a by (auto simp: arch_table_manager_allocate_next_layer_def Let_def split: if_splits)
next
  case False
  then obtain p s1 where p: "page_allocate 1 s = Inr (p, s1)"
    using ok by (auto simp: arch_table_manager_allocate_next_layer_def Let_def split: if_splits sum.splits)
  then have "memory s' a = memory s1 a"
    using ok False a by (auto simp: arch_table_manager_allocate_next_layer_def Let_def split: if_splits)
  then show ?thesis using page_allocate_keeps [OF inv p f] by simp
qed

text \<open>One layer of a user address, on both views.\<close>

lemma user_next_layer:
  assumes ok: "tables_ok R T s" and r: "r \<in> R" and p: "path_ok (p @ [i])" and n: "pt_node (hide (upper_half T) s) r p = Some l"
    and low: "p = [] \<Longrightarrow> unat i < 256" and sp: "spare (Suc k) s"
  obtains l' s' where "arch_table_manager_allocate_next_layer l i flags s = Inr (l', s')" "spare k s'" "tables_ok R T s'"
    "pt_extends R (hide (upper_half T) s) (hide (upper_half T) s')" "pt_node (hide (upper_half T) s') r (p @ [i]) = Some l'"
    "\<And>f a. f \<in> frames s \<Longrightarrow> f \<le> unat a \<Longrightarrow> unat a < f + 4096 \<Longrightarrow> a \<noteq> l + 8 * i \<Longrightarrow> memory s' a = memory s a"
proof -
  let ?H = "upper_half T"
  have pi: "path_ok p" "unat i < 512" and inv: "pt_inv R (hide ?H s)" using p ok by (simp_all add: tables_ok_def)
  obtain l' s1 where a: "arch_table_manager_allocate_next_layer l i flags (hide ?H s) = Inr (l', s1)" "spare k s1"
    using allocate_next_layer_returns [OF pt_inv_page [OF inv] _ pi(2), of k l flags] sp by auto
  obtain s' where s': "arch_table_manager_allocate_next_layer l i flags s = Inr (l', s')" "s1 = hide ?H s'"
    using hide_next_layer [OF ok slot_visible [OF ok r pi n low] a(1)] by blast
  have e: "pt_extends R (hide ?H s) (hide ?H s')" "pt_node (hide ?H s') r (p @ [i]) = Some l'"
    using allocate_next_layer_extend [OF inv r p n a(1)] s'(2) by simp_all
  have "tables_ok R T s'" using pt_extends_inv [OF e(1)] ok by (simp add: tables_ok_def)
  then show thesis
    using that [OF s'(1) _ _ e next_layer_keeps [OF tables_page(1) [OF ok] _ _ _ _ s'(1)]] a(2) s'(2) by simp
qed

lemma write_leaf_hide:
  "l + 8 * i \<notin> H \<Longrightarrow> write_leaf l i pa flags (hide H s) = hide H (write_leaf l i pa flags s)"
  by (auto simp: write_leaf_def hide_def Let_def fun_eq_iff)

text \<open>The layers of a table below its root.\<close>

definition inner_layers :: "u64 set \<Rightarrow> 'a page_state_scheme \<Rightarrow> u64 \<Rightarrow> nat set" where
  "inner_layers T s r = {unat l | l p. path_ok p \<and> p \<noteq> [] \<and> pt_node (hide (upper_half T) s) r p = Some l}"

text \<open>
  Mapping a page of the lower half: what is mapped changes at that page only, and no word of a page in use changes but those of
  the layers of the table and of the lower half of its root.
\<close>

lemma user_map:
  assumes ok: "tables_ok R T s" and r: "r \<in> R" and low: "unat (table_index 39 va) < 256" and sp: "spare (k + 3) s"
  obtains s' where "arch_table_manager_map r va pa flags s = Inr s'" "spare k s'" "tables_ok R T s'" "frames s \<subseteq> frames s'"
    "kernel_hhdm_offset s' = kernel_hhdm_offset s"
    "\<And>r' n. r' \<in> R \<Longrightarrow> n < 2 ^ 36 \<Longrightarrow> pt_maps (hide (upper_half T) s') r' n =
       (if r' = r \<and> n = vpn va then Some (arch_table_manager_get_address pa) else pt_maps (hide (upper_half T) s) r' n)"
    "inner_layers T s' r \<inter> frames s \<subseteq> inner_layers T s r"
    "\<And>f j. unat f \<in> frames s \<Longrightarrow> unat j < 512 \<Longrightarrow> unat f \<notin> inner_layers T s r \<Longrightarrow> f \<noteq> r \<or> 256 \<le> unat j \<Longrightarrow>
       memory s' (f + 8 * j) = memory s (f + 8 * j)"
proof -
  let ?H = "upper_half T"
  let ?a = "table_index 39 va" and ?b = "table_index 30 va" and ?c = "table_index 21 va" and ?d = "table_index 12 va"
  have ix: "unat ?a < 512" "unat ?b < 512" "unat ?c < 512" "unat ?d < 512" by (simp_all add: table_index_less)
  have P: "path_ok ([] @ [?a])" "path_ok ([?a] @ [?b])" "path_ok ([?a, ?b] @ [?c])" using ix by (simp_all add: path_ok_def)
  obtain k3 s1 where s1: "arch_table_manager_allocate_next_layer r ?a flags s = Inr (k3, s1)" "spare (k + 2) s1" "tables_ok R T s1"
    "pt_extends R (hide ?H s) (hide ?H s1)" "pt_node (hide ?H s1) r ([] @ [?a]) = Some k3"
    "\<And>f a. f \<in> frames s \<Longrightarrow> f \<le> unat a \<Longrightarrow> unat a < f + 4096 \<Longrightarrow> a \<noteq> r + 8 * ?a \<Longrightarrow> memory s1 a = memory s a"
    by (rule user_next_layer [OF ok r P(1), of r "k + 2" flags]) (use low sp in \<open>simp_all add: numeral_3_eq_3 numeral_2_eq_2\<close>)
  obtain k2 s2 where s2: "arch_table_manager_allocate_next_layer k3 ?b flags s1 = Inr (k2, s2)" "spare (k + 1) s2" "tables_ok R T s2"
    "pt_extends R (hide ?H s1) (hide ?H s2)" "pt_node (hide ?H s2) r ([?a] @ [?b]) = Some k2"
    "\<And>f a. f \<in> frames s1 \<Longrightarrow> f \<le> unat a \<Longrightarrow> unat a < f + 4096 \<Longrightarrow> a \<noteq> k3 + 8 * ?b \<Longrightarrow> memory s2 a = memory s1 a"
    by (rule user_next_layer [OF s1(3) r P(2), of k3 "k + 1" flags]) (use s1 in \<open>simp_all add: numeral_2_eq_2\<close>)
  obtain k1 s3 where s3: "arch_table_manager_allocate_next_layer k2 ?c flags s2 = Inr (k1, s3)" "spare k s3" "tables_ok R T s3"
    "pt_extends R (hide ?H s2) (hide ?H s3)" "pt_node (hide ?H s3) r ([?a, ?b] @ [?c]) = Some k1"
    "\<And>f a. f \<in> frames s2 \<Longrightarrow> f \<le> unat a \<Longrightarrow> unat a < f + 4096 \<Longrightarrow> a \<noteq> k2 + 8 * ?c \<Longrightarrow> memory s3 a = memory s2 a"
    by (rule user_next_layer [OF s2(3) r P(3), of k2 k flags]) (use s2 in simp_all)
  have e: "pt_extends R (hide ?H s) (hide ?H s3)" using s1(4) s2(4) s3(4) pt_extends_trans by blast
  have inv3: "pt_inv R (hide ?H s3)" by (rule pt_extends_inv [OF e])
  have n: "pt_node (hide ?H s3) r [?a, ?b, ?c] = Some k1" "pt_node (hide ?H s3) r [?a, ?b] = Some k2" "pt_node (hide ?H s3) r [?a] = Some k3"
    using s3(5) pt_extends_node [OF s3(4) r P(2)] s2(5) pt_extends_node [OF pt_extends_trans [OF s2(4) s3(4)] r P(1)] s1(5) P
    by (auto simp: path_ok_def)
  define s' where "s' = write_leaf k1 ?d pa flags s3"
  have p3: "path_ok [?a, ?b, ?c]" using P(3) by simp
  have h': "hide ?H s' = write_leaf k1 ?d pa flags (hide ?H s3)"
    unfolding s'_def by (rule write_leaf_hide [symmetric, OF slot_visible [OF s3(3) r p3 ix(4) n(1)]]) simp
  note w = write_leaf_inv [OF inv3 r p3 _ n(1) ix(4), where pa = pa and flags = flags, folded h', simplified]
  have ok': "tables_ok R T s'" using w(1) ok by (simp add: tables_ok_def)
  note fr = tables_page(2) [OF ok] tables_page(2) [OF s1(3)] tables_page(2) [OF s2(3)] tables_page(2) [OF s3(3)] tables_page(2) [OF ok']
  have sub: "frames s \<subseteq> frames s1" "frames s1 \<subseteq> frames s2" "frames s2 \<subseteq> frames s3"
    using s1(4) s2(4) s3(4) unfolding pt_extends_def fr by simp_all
  have old: "pt_node (hide ?H s) r q = Some l \<or> unat l \<notin> frames s" if "path_ok q" "pt_node (hide ?H s3) r q = Some l" for q l
    using e r that unfolding pt_extends_def fr(1) by blast
  show thesis
  proof (rule that [of s'])
    show "arch_table_manager_map r va pa flags s = Inr s'"
      using s1(1) s2(1) s3(1) by (simp add: arch_table_manager_map_def s'_def)
    show "spare k s'" using s3(2) by (simp add: s'_def write_leaf_def Let_def spare_def)
    show "tables_ok R T s'" by (rule ok')
    show "frames s \<subseteq> frames s'" using sub w(3) unfolding fr by simp
    show "kernel_hhdm_offset s' = kernel_hhdm_offset s" using w(4) e by (simp add: pt_extends_def)
    show "pt_maps (hide ?H s') r' m = (if r' = r \<and> m = vpn va then Some (arch_table_manager_get_address pa) else pt_maps (hide ?H s) r' m)"
      if "r' \<in> R" "m < 2 ^ 36" for r' m
      using write_leaf_maps [OF inv3 r p3 n(1) ix(4) that, of pa flags] pt_extends_maps [OF e that] by (simp add: h' vpn_def)
    show "inner_layers T s' r \<inter> frames s \<subseteq> inner_layers T s r"
      using old w(2) r by (fastforce simp: inner_layers_def)
    show "memory s' (f + 8 * j) = memory s (f + 8 * j)"
      if f: "unat f \<in> frames s" "unat j < 512" "unat f \<notin> inner_layers T s r" "f \<noteq> r \<or> 256 \<le> unat j" for f j
    proof -
      have "f + 8 * j \<noteq> l + 8 * i" if q: "path_ok q" "q \<noteq> []" "pt_node (hide ?H s3) r q = Some l" "unat i < 512" for l i q
      proof -
        have "f \<noteq> l" using old [OF q(1,3)] q f(1,3) by (auto simp: inner_layers_def)
        moreover have "unat l \<in> frames s3" using pt_inv_frame [OF inv3 r q(1,3)] unfolding fr .
        ultimately show ?thesis
          using pz.slot_eq_iff [OF tables_page(1) [OF s3(3)] _ f(2) _ q(4), of f l] f(1) sub by auto
      qed
      note ne = this [OF _ _ n(3) ix(2)] this [OF _ _ n(2) ix(3)] this [OF p3 _ n(1) ix(4)]
      have ne0: "f + 8 * j \<noteq> r + 8 * ?a"
        using pz.slot_eq_iff [OF tables_page(1) [OF ok] f(1,2) _ ix(1), of r] tables_root [OF ok r] f(4) low unfolding fr by auto
      have at: "unat f \<le> unat (f + 8 * j)" "unat (f + 8 * j) < unat f + 4096"
        using pz.held_slot [OF tables_page(1) [OF ok] f(1,2)] f(2) by simp_all
      have "memory s' (f + 8 * j) = memory s3 (f + 8 * j)" using ne(3) by (simp add: s'_def write_leaf_def Let_def)
      also have "\<dots> = memory s2 (f + 8 * j)" by (rule s3(6) [OF _ at]) (use f(1) sub ne(2) P in \<open>auto simp: path_ok_def\<close>)
      also have "\<dots> = memory s1 (f + 8 * j)" by (rule s2(6) [OF _ at]) (use f(1) sub ne(1) P in \<open>auto simp: path_ok_def\<close>)
      also have "\<dots> = memory s (f + 8 * j)" by (rule s1(6) [OF f(1) at ne0])
      finally show ?thesis .
    qed
  qed
qed

text \<open>A change of memory that leaves the layers of the tables alone.\<close>

lemma tables_transfer:
  assumes ok: "tables_ok R T s" and s': "page_inv s'" "pools_physical s'" "frames s \<subseteq> frames s'"
    and h: "kernel_hhdm_offset s' = kernel_hhdm_offset s"
    and same: "\<And>l j. unat l \<in> frames s \<Longrightarrow> unat j < 512 \<Longrightarrow> memory s' (l + 8 * j) = memory s (l + 8 * j)"
  shows "tables_ok R T s'" "r \<in> R \<Longrightarrow> path_ok p \<Longrightarrow> pt_node (hide (upper_half T) s') r p = pt_node (hide (upper_half T) s) r p"
    and "r \<in> R \<Longrightarrow> n < 2 ^ 36 \<Longrightarrow> pt_maps (hide (upper_half T) s') r n = pt_maps (hide (upper_half T) s) r n"
proof -
  let ?H = "upper_half T"
  have inv: "pt_inv R (hide ?H s)" using ok by (simp add: tables_ok_def)
  have mem: "memory (hide ?H s') (l + 8 * j) = memory (hide ?H s) (l + 8 * j)" if "unat l \<in> frames (hide ?H s)" "unat j < 512" for l j
    using same that unfolding tables_page(2) [OF ok] by simp
  have lay: "unat l \<in> frames (hide ?H s)" if "r \<in> R" "path_ok q" "pt_node (hide ?H s) r q = Some l" for r q l
    using pt_inv_frame [OF inv that] .
  have node: "pt_node (hide ?H s') r p = pt_node (hide ?H s) r p" if "r \<in> R" "path_ok p" for r p
    by (rule pt_node_cong [OF _ _ that(2)]) (use h mem lay [OF that(1)] in simp_all)
  have "\<exists>f \<in> frames s'. f \<le> unat a \<and> unat a < f + 4096" if a: "memory (hide ?H s') a \<noteq> memory s' a" for a
  proof -
    have "a \<in> ?H" using a by (auto split: if_splits)
    then obtain t where "t \<in> T" "unat t \<in> frames s" "unat t \<le> unat a" "unat a < unat t + 4096" by (rule hidden_in_page [OF ok])
    then show ?thesis using s'(3) by blast
  qed
  note w = page_inv_frames_write [OF s'(1), of "hide ?H s'", OF hide_fields(1,2) this]
  have "pt_inv R (hide ?H s')"
  proof (rule pt_inv_transfer [OF inv w(1) _ _ node])
    show "pools_physical (hide ?H s')" using s'(2) by (simp add: pools_physical_def)
    show "frames (hide ?H s) \<subseteq> frames (hide ?H s')" using s'(3) w(2) tables_page(2) [OF ok] by simp
    show "entry_present (memory (hide ?H s') (l + 8 * i)) \<or> memory (hide ?H s') (l + 8 * i) = 0"
      if "r \<in> R" "path_ok p" "length p < 3" "pt_node (hide ?H s) r p = Some l" "unat i < 512" for r p l i
      unfolding mem [OF lay [OF that(1,2,4)] that(5)] using pt_inv_clear [OF inv that] by blast
  qed
  then show "tables_ok R T s'" using ok by (simp add: tables_ok_def)
  show "pt_node (hide ?H s') r p = pt_node (hide ?H s) r p" if "r \<in> R" "path_ok p" using node [OF that] .
  show "pt_maps (hide ?H s') r n = pt_maps (hide ?H s) r n" if "r \<in> R" "n < 2 ^ 36"
  proof -
    note pn = vpn_path_bounds(1) [OF that(2)]
    have "unat (of_nat (n mod 512) :: u64) < 512" by (simp add: of_nat_mod_512 del: of_nat_mod)
    then show ?thesis unfolding pt_maps_def
      using pt_leaf_unchanged [OF node [OF that(1) pn], of "of_nat (n mod 512)"] mem [OF lay [OF that(1) pn]]
      by (simp del: of_nat_mod)
  qed
qed

subsection \<open>New pages\<close>

text \<open>A step that leaves the tables and the pages in use as they are.\<close>

definition same_tables :: "u64 set \<Rightarrow> u64 set \<Rightarrow> 'a page_state_scheme \<Rightarrow> 'a page_state_scheme \<Rightarrow> bool" where
  "same_tables R T s s' \<longleftrightarrow>
     tables_ok R T s' \<and> kernel_hhdm_offset s' = kernel_hhdm_offset s \<and> frames s \<subseteq> frames s' \<and>
     (\<forall>r \<in> R. (\<forall>p. path_ok p \<longrightarrow> pt_node (hide (upper_half T) s') r p = pt_node (hide (upper_half T) s) r p) \<and>
        (\<forall>n < 2 ^ 36. pt_maps (hide (upper_half T) s') r n = pt_maps (hide (upper_half T) s) r n)) \<and>
     (\<forall>l j. unat l \<in> frames s \<longrightarrow> unat j < 512 \<longrightarrow> memory s' (l + 8 * j) = memory s (l + 8 * j))"

lemma same_tables_trans: "same_tables R T s s1 \<Longrightarrow> same_tables R T s1 s2 \<Longrightarrow> same_tables R T s s2"
  unfolding same_tables_def by (auto simp: subset_iff)

lemma same_tables_same:
  assumes "tables_ok R T s" "memory s' = memory s" "kernel_hhdm_offset s' = kernel_hhdm_offset s"
    "allocator_pools s' = allocator_pools s" "page_allocator_lock s' = page_allocator_lock s"
  shows "same_tables R T s s'" "frames s' = frames s" "spare k s' = spare k s"
proof -
  let ?H = "upper_half T"
  have h: "memory (hide ?H s') = memory (hide ?H s)" "kernel_hhdm_offset (hide ?H s') = kernel_hhdm_offset (hide ?H s)"
    using assms(2,3) by (simp_all add: hide_def cong: if_cong)
  have "pt_inv R (hide ?H s') = pt_inv R (hide ?H s)" using pt_inv_same [OF h] assms(4,5) by simp
  moreover show f: "frames s' = frames s" "spare k s' = spare k s" using assms by (simp_all add: frames_def marked_def spare_def)
  ultimately show "same_tables R T s s'"
    using assms(1-3) pt_node_same [OF h] pt_maps_same [OF h] by (simp add: same_tables_def tables_ok_def)
qed

lemma same_tables_inner: "same_tables R T s s' \<Longrightarrow> C \<in> R \<Longrightarrow> inner_layers T s' C = inner_layers T s C"
  unfolding inner_layers_def same_tables_def by (rule Collect_cong) metis

lemma inner_layers_frames: "tables_ok R T s \<Longrightarrow> C \<in> R \<Longrightarrow> inner_layers T s C \<subseteq> frames s"
  using pt_inv_frame [of R "hide (upper_half T) s" C] tables_page(2) [of R T s] by (auto simp: inner_layers_def tables_ok_def)

text \<open>A new page, which may be written.\<close>

lemma page_new:
  assumes ok: "tables_ok R T s" and sp: "spare (Suc k) s"
  obtains c s1 where "page_allocate 1 s = Inr (c, s1)" "kernel_hhdm_offset s1 = kernel_hhdm_offset s" "spare k s1" "page_inv s1"
    "frames s1 = insert (unat c) (frames s)" "unat c \<notin> frames s"
    "arch_table_manager_get_address (c - kernel_hhdm_offset s) = c - kernel_hhdm_offset s"
    "\<And>m. \<forall>a. m a \<noteq> memory s1 a \<longrightarrow> unat c \<le> unat a \<and> unat a < unat c + 4096 \<Longrightarrow>
       same_tables R T s (s1\<lparr>memory := m\<rparr>) \<and> frames (s1\<lparr>memory := m\<rparr>) = frames s1"
proof -
  let ?H = "upper_half T"
  have pinv: "page_inv s" and hinv: "pt_inv R (hide ?H s)" using tables_page(1) [OF ok] ok by (simp_all add: tables_ok_def)
  obtain c x where x: "page_allocate 1 (hide ?H s) = Inr (c, x)" "spare k x"
    using page_allocate_spare [OF pt_inv_page [OF hinv], of k] sp by auto
  obtain s1 where s1: "page_allocate 1 s = Inr (c, s1)" "x = hide ?H s1" using hide_allocate [OF ok x(1)] by blast
  note one = pz.alloc_one [OF pinv s1(1)] and st = page_allocate_static [OF pinv s1(1)]
  have pinv1: "page_inv s1" by (rule page_allocate_inv [OF pinv s1(1)])
  have pool: "pools_physical s" using pt_inv_physical [OF hinv] by (simp add: pools_physical_def)
  have cf: "unat c \<in> frames s1" using one by auto
  show thesis
  proof (rule that [OF s1(1) st(1) _ pinv1 one])
    show "spare k s1" using x(2) by (simp add: s1(2) spare_def)
    show "arch_table_manager_get_address (c - kernel_hhdm_offset s) = c - kernel_hhdm_offset s"
      using frame_physical(2) [OF pinv1 st(4) [OF pool] cf] st(1) by simp
    fix m :: mem64 assume m: "\<forall>a. m a \<noteq> memory s1 a \<longrightarrow> unat c \<le> unat a \<and> unat a < unat c + 4096"
    let ?s = "s1\<lparr>memory := m\<rparr>"
    have w: "page_inv ?s" "frames ?s = frames s1" using page_inv_frames_write [OF pinv1, of ?s] m cf by auto
    have keep: "memory ?s (l + 8 * j) = memory s (l + 8 * j)" if l: "unat l \<in> frames s" "unat j < 512" for l j
    proof -
      have lf: "unat l \<in> frames s1" "unat l \<noteq> unat c" using l(1) one by auto
      have al: "4096 dvd unat l" "4096 dvd unat c" using pz.held_page [OF pinv1] lf(1) cf by auto
      have "unat (l + 8 * j) = unat l + 8 * unat j" by (rule pz.held_slot [OF pinv1 lf(1) l(2)])
      moreover obtain a b where "unat l = 4096 * a" "unat c = 4096 * b" using al by (auto elim!: dvdE)
      ultimately have "\<not> (unat c \<le> unat (l + 8 * j) \<and> unat (l + 8 * j) < unat c + 4096)" using l(2) lf(2) by auto
      then have "m (l + 8 * j) = memory s1 (l + 8 * j)" using m by blast
      then show ?thesis using pz.alloc_keeps_slot [OF pinv s1(1) l] by simp
    qed
    have t: "pools_physical ?s" "frames s \<subseteq> frames ?s" "kernel_hhdm_offset ?s = kernel_hhdm_offset s"
      using st(4) [OF pool] w(2) one st(1) by (auto simp: pools_physical_def)
    show "same_tables R T s ?s \<and> frames ?s = frames s1"
      using tables_transfer [OF ok w(1) t keep] w(2) t keep unfolding same_tables_def by simp
  qed
qed

subsection \<open>Copying a page\<close>

lemma copy_words:
  fixes dest src :: u64 and m :: mem64
  assumes apart: "\<And>i j. i < n \<Longrightarrow> j < n \<Longrightarrow> dest + 8 * of_nat i \<noteq> src + 8 * of_nat j"
    and inj: "\<And>i j. i < n \<Longrightarrow> j < n \<Longrightarrow> dest + 8 * of_nat i = dest + 8 * of_nat j \<Longrightarrow> i = j" and lo: "lo \<le> n"
  defines "copied k \<equiv> fold (\<lambda>i m. m(dest + 8 * of_nat i := m (src + 8 * of_nat i))) [lo..<k] m"
  shows "lo \<le> j \<Longrightarrow> j < n \<Longrightarrow> copied n (dest + 8 * of_nat j) = m (src + 8 * of_nat j)"
    and "(\<And>j. lo \<le> j \<Longrightarrow> j < n \<Longrightarrow> a \<noteq> dest + 8 * of_nat j) \<Longrightarrow> copied n a = m a"
proof -
  have "k \<le> n \<Longrightarrow> (\<forall>j. lo \<le> j \<longrightarrow> j < k \<longrightarrow> copied k (dest + 8 * of_nat j) = m (src + 8 * of_nat j)) \<and>
    (\<forall>a. (\<forall>j. lo \<le> j \<longrightarrow> j < k \<longrightarrow> a \<noteq> dest + 8 * of_nat j) \<longrightarrow> copied k a = m a)" if "lo \<le> k" for k
    using that
  proof (induction k rule: dec_induct)
    case base
    then show ?case by (simp add: copied_def)
  next
    case (step k)
    have s: "copied (Suc k) = (copied k)(dest + 8 * of_nat k := copied k (src + 8 * of_nat k))"
      using step(1) by (simp add: copied_def)
    have IH: "\<And>j. lo \<le> j \<Longrightarrow> j < k \<Longrightarrow> copied k (dest + 8 * of_nat j) = m (src + 8 * of_nat j)"
      "\<And>a. (\<And>j. lo \<le> j \<Longrightarrow> j < k \<Longrightarrow> a \<noteq> dest + 8 * of_nat j) \<Longrightarrow> copied k a = m a"
      using step by auto
    have "copied k (src + 8 * of_nat k) = m (src + 8 * of_nat k)"
      by (rule IH(2), rule apart [THEN not_sym]) (use step in simp_all)
    then show ?case unfolding s using IH inj [of k] step by (auto simp: less_Suc_eq)
  qed
  from this [OF lo] show "lo \<le> j \<Longrightarrow> j < n \<Longrightarrow> copied n (dest + 8 * of_nat j) = m (src + 8 * of_nat j)"
    and "(\<And>j. lo \<le> j \<Longrightarrow> j < n \<Longrightarrow> a \<noteq> dest + 8 * of_nat j) \<Longrightarrow> copied n a = m a" by auto
qed

lemma frame_words_eq:
  fixes k l :: u64
  assumes "page_inv s" "unat k \<in> frames s" "unat l \<in> frames s" "i < 512" "j < 512"
  shows "k + 8 * of_nat i = l + 8 * of_nat j \<longleftrightarrow> k = l \<and> i = j"
proof -
  have "unat (of_nat x :: u64) = x" if "x < 512" for x using that by (intro unat_of_nat_exact) simp
  then show ?thesis
    using pz.slot_eq_iff [OF assms(1,2) _ assms(3), of "of_nat i" "of_nat j"] assms(4,5) by (auto simp: u64_eq_unat_iff)
qed

lemma copy_frame_words:
  fixes dest src :: u64 and m :: mem64
  assumes inv: "page_inv s" and f: "unat dest \<in> frames s" "unat src \<in> frames s" "dest \<noteq> src" and lo: "lo \<le> 512"
  defines "copied \<equiv> fold (\<lambda>i m. m(dest + 8 * of_nat i := m (src + 8 * of_nat i))) [lo..<512] m"
  shows "lo \<le> j \<Longrightarrow> j < 512 \<Longrightarrow> copied (dest + 8 * of_nat j) = m (src + 8 * of_nat j)"
    and "(\<And>j. lo \<le> j \<Longrightarrow> j < 512 \<Longrightarrow> a \<noteq> dest + 8 * of_nat j) \<Longrightarrow> copied a = m a"
proof -
  have ap: "dest + 8 * of_nat i \<noteq> src + 8 * of_nat j" if "i < 512" "j < 512" for i j
    using frame_words_eq [OF inv f(1,2) that] f(3) by blast
  have inj: "i = j" if "i < 512" "j < 512" "dest + 8 * of_nat i = dest + 8 * of_nat j" for i j
    using frame_words_eq [OF inv f(1,1) that(1,2)] that(3) by blast
  note c = copy_words [of 512, OF ap inj lo]
  show "copied (dest + 8 * of_nat j) = m (src + 8 * of_nat j)" if "lo \<le> j" "j < 512"
    unfolding copied_def by (rule c(1)) (use that in simp_all)
  show "copied a = m a" if "\<And>j. lo \<le> j \<Longrightarrow> j < 512 \<Longrightarrow> a \<noteq> dest + 8 * of_nat j"
    unfolding copied_def by (rule c(2)) (use that in simp_all)
qed

lemma memcpy64_page:
  assumes inv: "page_inv s" and f: "unat dest \<in> frames s" "unat src \<in> frames s" "dest \<noteq> src"
  shows "unat j < 512 \<Longrightarrow> memcpy64 (memory s) dest src PAGE (dest + 8 * j) = memory s (src + 8 * j)"
    and "unat l \<in> frames s \<Longrightarrow> l \<noteq> dest \<Longrightarrow> unat j < 512 \<Longrightarrow> memcpy64 (memory s) dest src PAGE (l + 8 * j) = memory s (l + 8 * j)"
    and "memcpy64 (memory s) dest src PAGE a \<noteq> memory s a \<Longrightarrow> unat dest \<le> unat a \<and> unat a < unat dest + 4096"
proof -
  have u: "unat (of_nat i :: u64) = i" if "i < 512" for i using that by (intro unat_of_nat_exact) simp
  note slot = frame_words_eq [OF inv]
  define c where "c = memcpy64 (memory s) dest src PAGE"
  have c: "c (dest + 8 * of_nat j) = memory s (src + 8 * of_nat j)" if "j < 512" for j
    using copy_frame_words(1) [OF inv f, of 0 j "memory s"] that by (simp add: c_def memcpy64_def)
  have c2: "c a = memory s a" if "\<And>j. j < 512 \<Longrightarrow> a \<noteq> dest + 8 * of_nat j" for a
    using copy_frame_words(2) [OF inv f, of 0 a "memory s"] that by (simp add: c_def memcpy64_def)
  show "memcpy64 (memory s) dest src PAGE (dest + 8 * j) = memory s (src + 8 * j)" if "unat j < 512" for j
    using c [OF that] by (simp add: c_def)
  show "memcpy64 (memory s) dest src PAGE (l + 8 * j) = memory s (l + 8 * j)"
    if "unat l \<in> frames s" "l \<noteq> dest" "unat j < 512"
    using c2 [of "l + 8 * j"] slot [OF that(1) f(1) that(3)] that(2) by (simp add: c_def)
  show "unat dest \<le> unat a \<and> unat a < unat dest + 4096" if a: "memcpy64 (memory s) dest src PAGE a \<noteq> memory s a"
  proof -
    obtain j where j: "j < 512" "a = dest + 8 * of_nat j" using c2 [of a] a by (auto simp: c_def)
    then have "unat a = unat dest + 8 * j" using pz.held_slot [OF inv f(1), of "of_nat j"] u by simp
    then show ?thesis using j(1) by simp
  qed
qed

text \<open>
  The state of the copy before page number \<open>N\<close> is looked at: the pages below have been copied to pages that were free, nothing
  above is mapped yet, and of the pages in use before only the lower half of the child's root has changed.
\<close>

definition page_cloned :: "u64 set \<Rightarrow> u64 \<Rightarrow> u64 \<Rightarrow> 'a page_state_scheme \<Rightarrow> 'a page_state_scheme \<Rightarrow> nat \<Rightarrow> bool" where
  "page_cloned T P C s0 s n \<longleftrightarrow>
     (case pt_maps (hide (upper_half T) s0) P n of
        None \<Rightarrow> pt_maps (hide (upper_half T) s) C n = None
      | Some a \<Rightarrow> \<exists>b. pt_maps (hide (upper_half T) s) C n = Some b \<and>
          unat (b + kernel_hhdm_offset s0) \<in> frames s - frames s0 - inner_layers T s C \<and>
          (\<forall>j. unat j < 512 \<longrightarrow> memory s (b + kernel_hhdm_offset s0 + 8 * j) = memory s0 (a + kernel_hhdm_offset s0 + 8 * j)))"

definition pages_from :: "u64 set \<Rightarrow> u64 \<Rightarrow> 'a page_state_scheme \<Rightarrow> nat \<Rightarrow> nat set" where
  "pages_from T P s0 N = {n. N \<le> n \<and> n < 2 ^ 35 \<and> pt_maps (hide (upper_half T) s0) P n \<noteq> None}"

definition clone_inv ::
  "u64 set \<Rightarrow> u64 set \<Rightarrow> u64 \<Rightarrow> u64 \<Rightarrow> 'a page_state_scheme \<Rightarrow> nat \<Rightarrow> 'a page_state_scheme \<Rightarrow> bool" where
  "clone_inv R T P C s0 N s \<longleftrightarrow>
     tables_ok R T s \<and> kernel_hhdm_offset s = kernel_hhdm_offset s0 \<and> frames s0 \<subseteq> frames s \<and>
     spare (4 * card (pages_from T P s0 N)) s \<and>
     (\<forall>f j. unat f \<in> frames s0 \<longrightarrow> unat j < 512 \<longrightarrow> f \<noteq> C \<or> 256 \<le> unat j \<longrightarrow> memory s (f + 8 * j) = memory s0 (f + 8 * j)) \<and>
     inner_layers T s C \<inter> frames s0 = {} \<and>
     (\<forall>r \<in> R. \<forall>n < 2 ^ 36. r \<noteq> C \<longrightarrow> pt_maps (hide (upper_half T) s) r n = pt_maps (hide (upper_half T) s0) r n) \<and>
     (\<forall>n < 2 ^ 36. N \<le> n \<longrightarrow> pt_maps (hide (upper_half T) s) C n = None) \<and>
     (\<forall>n n' b. n < 2 ^ 36 \<longrightarrow> n' < 2 ^ 36 \<longrightarrow> pt_maps (hide (upper_half T) s) C n = Some b \<longrightarrow>
        pt_maps (hide (upper_half T) s) C n' = Some b \<longrightarrow> n = n') \<and>
     (\<forall>n < N. page_cloned T P C s0 s n)"

lemma finite_pages_from: "finite (pages_from T P s0 N)"
  by (rule finite_subset [of _ "{..<2 ^ 35}"]) (auto simp: pages_from_def)

lemma clone_inv_skip:
  assumes inv: "clone_inv R T P C s0 N s" and M: "N \<le> M" "M \<le> 2 ^ 35"
    and none: "\<And>n. N \<le> n \<Longrightarrow> n < M \<Longrightarrow> pt_maps (hide (upper_half T) s0) P n = None"
  shows "clone_inv R T P C s0 M s"
proof -
  have "pages_from T P s0 M \<subseteq> pages_from T P s0 N" using M by (auto simp: pages_from_def)
  then have "card (pages_from T P s0 M) \<le> card (pages_from T P s0 N)" by (rule card_mono [OF finite_pages_from])
  then have "spare (4 * card (pages_from T P s0 M)) s" using inv spare_mono by (fastforce simp: clone_inv_def)
  moreover have "page_cloned T P C s0 s n" if "n < M" for n
    using inv M none [of n] that by (cases "n < N") (auto simp: clone_inv_def page_cloned_def)
  ultimately show ?thesis using inv M(1) by (auto simp: clone_inv_def)
qed

lemma vpn_lower_half: "vpn va < 2 ^ 35 \<Longrightarrow> unat (table_index 39 va) < 256"
  by (simp add: vpn_def join_index_def)

lemma page_cloned_keep:
  assumes "page_cloned T P C s0 s n" "pt_maps (hide (upper_half T) s') C n = pt_maps (hide (upper_half T) s) C n"
    and "\<And>f j. unat f \<in> frames s - frames s0 - inner_layers T s C \<Longrightarrow> unat j < 512 \<Longrightarrow>
      unat f \<in> frames s' - frames s0 - inner_layers T s' C \<and> memory s' (f + 8 * j) = memory s (f + 8 * j)"
  shows "page_cloned T P C s0 s' n"
  using assms(1) assms(3) [of _ 0] assms(3) unfolding page_cloned_def assms(2) by (auto split: option.splits)

lemma clone_inv_range:
  assumes inv: "clone_inv R T P C s0 N s" and n: "n < 2 ^ 36" and b: "unat (b + kernel_hhdm_offset s0) \<notin> frames s"
  shows "pt_maps (hide (upper_half T) s) C n \<noteq> Some b"
proof (cases "n < N")
  case True
  then have "page_cloned T P C s0 s n" using inv by (simp add: clone_inv_def)
  then show ?thesis using b by (auto simp: page_cloned_def split: option.splits)
next
  case False
  then have "pt_maps (hide (upper_half T) s) C n = None" using inv n by (simp add: clone_inv_def)
  then show ?thesis by simp
qed

text \<open>A new page with the contents of page \<open>p\<close>: the tables stay, and so does every page in use.\<close>

lemma page_copy:
  assumes ok: "tables_ok R T s" and p: "unat p \<in> frames s" and C: "C \<in> R" and sp: "spare (Suc k) s"
  obtains c s1 s2 where "page_allocate 1 s = Inr (c, s1)" "s2 = s1\<lparr>memory := memcpy64 (memory s1) c p PAGE\<rparr>"
    "kernel_hhdm_offset s1 = kernel_hhdm_offset s" "spare k s2" "tables_ok R T s2"
    "frames s2 = insert (unat c) (frames s)" "unat c \<notin> frames s" "arch_table_manager_get_address (c - kernel_hhdm_offset s) = c - kernel_hhdm_offset s"
    "\<And>r n. r \<in> R \<Longrightarrow> n < 2 ^ 36 \<Longrightarrow> pt_maps (hide (upper_half T) s2) r n = pt_maps (hide (upper_half T) s) r n"
    "inner_layers T s2 C = inner_layers T s C" "inner_layers T s C \<subseteq> frames s"
    "\<And>l j. unat l \<in> frames s \<Longrightarrow> unat j < 512 \<Longrightarrow> memory s2 (l + 8 * j) = memory s (l + 8 * j)"
    "\<And>j. unat j < 512 \<Longrightarrow> memory s2 (c + 8 * j) = memory s (p + 8 * j)"
proof -
  obtain c s1 where s1: "page_allocate 1 s = Inr (c, s1)" "kernel_hhdm_offset s1 = kernel_hhdm_offset s" "spare k s1" "page_inv s1"
    and one: "frames s1 = insert (unat c) (frames s)" "unat c \<notin> frames s"
    and ca: "arch_table_manager_get_address (c - kernel_hhdm_offset s) = c - kernel_hhdm_offset s"
    and wr: "\<And>m. \<forall>a. m a \<noteq> memory s1 a \<longrightarrow> unat c \<le> unat a \<and> unat a < unat c + 4096 \<Longrightarrow>
       same_tables R T s (s1\<lparr>memory := m\<rparr>) \<and> frames (s1\<lparr>memory := m\<rparr>) = frames s1"
    using page_new [OF ok sp] by blast
  have pc: "unat p \<in> frames s1" "unat c \<in> frames s1" "c \<noteq> p" using one p by auto
  define s2 where "s2 = s1\<lparr>memory := memcpy64 (memory s1) c p PAGE\<rparr>"
  note cp = memcpy64_page [OF s1(4) pc(2,1,3)]
  have w: "same_tables R T s s2" "frames s2 = frames s1" unfolding s2_def using wr cp(3) by blast+
  have "memory s1 (p + 8 * j) = memory s (p + 8 * j)" if "unat j < 512" for j
    using wr [of "memory s1"] p that by (simp add: same_tables_def)
  then have "memory s2 (c + 8 * j) = memory s (p + 8 * j)" if "unat j < 512" for j
    using cp(1) [OF that] that by (simp add: s2_def)
  moreover have "spare k s2" using s1(3) by (simp add: s2_def spare_def)
  ultimately show thesis
    by (intro that [OF s1(1) s2_def s1(2) _ _ _ one(2) ca _ same_tables_inner [OF w(1) C] inner_layers_frames [OF ok C]])
      (use w one in \<open>auto simp: same_tables_def\<close>)
qed

lemma clone_page_step:
  assumes inv: "clone_inv R T P C s0 N s" and C: "C \<in> R" "unat C \<in> frames s0" and N: "N < 2 ^ 35"
    and e: "pt_maps (hide (upper_half T) s0) P N = Some (arch_table_manager_get_address e)"
    and user: "unat (arch_table_manager_get_address e + kernel_hhdm_offset s0) \<in> frames s0"
      "arch_table_manager_get_address e + kernel_hhdm_offset s0 \<noteq> C"
    and va: "vpn va = N"
  shows "\<exists>s'. clone_page C e va s = Inr s' \<and> clone_inv R T P C s0 (Suc N) s'"
proof -
  let ?H = "upper_half T" and ?h = "kernel_hhdm_offset s0"
  let ?k = "4 * card (pages_from T P s0 (Suc N))" and ?p = "arch_table_manager_get_address e + ?h"
  have ok: "tables_ok R T s" and h: "kernel_hhdm_offset s = ?h" and sub: "frames s0 \<subseteq> frames s"
    and mem: "\<And>f j. unat f \<in> frames s0 \<Longrightarrow> unat j < 512 \<Longrightarrow> f \<noteq> C \<or> 256 \<le> unat j \<Longrightarrow> memory s (f + 8 * j) = memory s0 (f + 8 * j)"
    and lay: "inner_layers T s C \<inter> frames s0 = {}"
    using inv by (simp_all add: clone_inv_def)
  have "pages_from T P s0 N = insert N (pages_from T P s0 (Suc N))" "N \<notin> pages_from T P s0 (Suc N)"
    using N e by (auto simp: pages_from_def not_less_eq_eq)
  then have sp: "spare (Suc (?k + 3)) s" using inv by (simp add: clone_inv_def finite_pages_from)
  have pf: "unat ?p \<in> frames s" using user(1) sub by blast
  obtain c s1 s2 where s1: "page_allocate 1 s = Inr (c, s1)" "s2 = s1\<lparr>memory := memcpy64 (memory s1) c ?p PAGE\<rparr>"
    "kernel_hhdm_offset s1 = kernel_hhdm_offset s" and sp2: "spare (?k + 3) s2" and tr: "tables_ok R T s2"
    and fr: "frames s2 = insert (unat c) (frames s)" "unat c \<notin> frames s"
    and ca: "arch_table_manager_get_address (c - kernel_hhdm_offset s) = c - kernel_hhdm_offset s"
    and same: "\<And>r n. r \<in> R \<Longrightarrow> n < 2 ^ 36 \<Longrightarrow> pt_maps (hide ?H s2) r n = pt_maps (hide ?H s) r n"
    and in2: "inner_layers T s2 C = inner_layers T s C" and inf: "inner_layers T s C \<subseteq> frames s"
    and keep: "\<And>l j. unat l \<in> frames s \<Longrightarrow> unat j < 512 \<Longrightarrow> memory s2 (l + 8 * j) = memory s (l + 8 * j)"
    and copy: "\<And>j. unat j < 512 \<Longrightarrow> memory s2 (c + 8 * j) = memory s (?p + 8 * j)"
    by (rule page_copy [OF ok pf C(1) sp]) (rule that)
  have low: "unat (table_index 39 va) < 256" using va N by (intro vpn_lower_half) simp
  obtain s' where m: "arch_table_manager_map C va (c - ?h) (e AND 0xFFF0000000000FFF) s2 = Inr s'"
    "spare ?k s'" "tables_ok R T s'" "frames s2 \<subseteq> frames s'" "kernel_hhdm_offset s' = kernel_hhdm_offset s2"
    "\<And>r n. r \<in> R \<Longrightarrow> n < 2 ^ 36 \<Longrightarrow> pt_maps (hide ?H s') r n =
       (if r = C \<and> n = vpn va then Some (arch_table_manager_get_address (c - ?h)) else pt_maps (hide ?H s2) r n)"
    "inner_layers T s' C \<inter> frames s2 \<subseteq> inner_layers T s2 C"
    "\<And>f j. unat f \<in> frames s2 \<Longrightarrow> unat j < 512 \<Longrightarrow> unat f \<notin> inner_layers T s2 C \<Longrightarrow> f \<noteq> C \<or> 256 \<le> unat j \<Longrightarrow>
       memory s' (f + 8 * j) = memory s2 (f + 8 * j)"
    by (rule user_map [OF tr C(1) low sp2, where pa = "c - ?h" and flags = "e AND 0xFFF0000000000FFF"]) (rule that)
  have maps: "pt_maps (hide ?H s') r n = (if r = C \<and> n = N then Some (c - ?h) else pt_maps (hide ?H s) r n)"
    if "r \<in> R" "n < 2 ^ 36" for r n
    using m(6) [OF that] same [OF that] va ca h by simp
  have new: "unat f \<in> frames s' - inner_layers T s' C"
    "unat j < 512 \<Longrightarrow> f \<noteq> C \<Longrightarrow> memory s' (f + 8 * j) = memory s2 (f + 8 * j)"
    if "unat f \<in> frames s2" "unat f \<notin> inner_layers T s C" for f j
    using that m(4,7) m(8) [of f j] in2 by auto
  have cn: "c \<noteq> C" "unat c \<notin> inner_layers T s C" "unat c \<notin> frames s0" using fr(2) C(2) inf sub by auto
  have "memory s' (c + 8 * j) = memory s0 (?p + 8 * j)" if "unat j < 512" for j
    using new(2) [of c j] fr(1) cn(1,2) that copy [OF that] mem [OF user(1) that] user(2) by simp
  then have "page_cloned T P C s0 s' N"
    using maps [OF C(1), of N] N e new(1) [of c] cn(2,3) fr(1) by (auto simp: page_cloned_def)
  moreover have "page_cloned T P C s0 s' n" if n: "n < N" for n
  proof (rule page_cloned_keep)
    show "page_cloned T P C s0 s n" using inv n by (simp add: clone_inv_def)
    show "pt_maps (hide ?H s') C n = pt_maps (hide ?H s) C n" using maps [OF C(1), of n] n N by simp
    show "unat f \<in> frames s' - frames s0 - inner_layers T s' C \<and> memory s' (f + 8 * j) = memory s (f + 8 * j)"
      if f: "unat f \<in> frames s - frames s0 - inner_layers T s C" "unat j < 512" for f j
    proof -
      have "unat f \<in> frames s2" "f \<noteq> C" using f fr(1) C(2) by auto
      then show ?thesis using new(1) [of f] new(2) [of f j] f keep [of f j] by auto
    qed
  qed
  moreover have "memory s' (f + 8 * j) = memory s0 (f + 8 * j)"
    if "unat f \<in> frames s0" "unat j < 512" "f \<noteq> C \<or> 256 \<le> unat j" for f j
  proof -
    have f: "unat f \<in> frames s" "unat f \<notin> inner_layers T s2 C" using that(1) sub lay in2 by auto
    then have "memory s' (f + 8 * j) = memory s2 (f + 8 * j)" using m(8) that(2,3) fr(1) by blast
    then show ?thesis using keep [OF f(1) that(2)] mem [OF that] by simp
  qed
  moreover have "inner_layers T s' C \<inter> frames s0 = {}" using m(7) in2 lay sub fr(1) by blast
  moreover have "clone_page C e va s = Inr s'"
    using s1 m(1) h by (simp add: clone_page_def)
  moreover have "pt_maps (hide ?H s) C n \<noteq> Some (c - ?h)" if "n < 2 ^ 36" for n
    by (rule clone_inv_range [OF inv that]) (use fr(2) in simp)
  moreover have "n = n'" if "n < 2 ^ 36" "n' < 2 ^ 36" "pt_maps (hide ?H s) C n = Some b" "pt_maps (hide ?H s) C n' = Some b" for n n' b
    using inv that unfolding clone_inv_def by blast
  ultimately show ?thesis
    using inv m(2,3,4,5) maps fr(1) s1(2,3) h sub C(1) unfolding clone_inv_def by (auto simp: less_Suc_eq)
qed

subsection \<open>Copying the tables\<close>

text \<open>The number a path of indices stands for: its digits in base 512.\<close>

definition path_number :: "u64 list \<Rightarrow> nat" where
  "path_number p = foldl (\<lambda>x i. x * 512 + unat i) 0 p"

lemma path_number_snoc [simp]: "path_number (p @ [i]) = path_number p * 512 + unat i" "path_number [] = 0"
  by (simp_all add: path_number_def)

lemma vpn_path_take:
  assumes "n < 2 ^ 36" "path_ok p" "n div 512 ^ (4 - length p) = path_number p"
  shows "take (length p) (vpn_path n) = p"
proof -
  have len: "length p \<le> 3" using assms(2) by (simp add: path_ok_def)
  have u: "of_nat (unat x) = (x :: u64)" for x by simp
  consider "p = []" | a where "p = [a]" | a b where "p = [a, b]" | a b c where "p = [a, b, c]"
    using len by (cases p; cases "tl p"; cases "tl (tl p)"; cases "tl (tl (tl p))") auto
  then show ?thesis
  proof cases
    case (2 a)
    then have "n div 512 div 512 div 512 = unat a" using assms(3) by (simp add: path_number_def div_mult2_eq [symmetric])
    then show ?thesis using 2 by (simp add: vpn_path_def)
  next
    case (3 a b)
    then have x: "n div 512 div 512 = unat a * 512 + unat b" using assms(3) by (simp add: path_number_def div_mult2_eq [symmetric])
    have "unat b < 512" using 3 assms(2) by (simp add: path_ok_def)
    then show ?thesis unfolding vpn_path_def x 3 by simp
  next
    case (4 a b c)
    then have x: "n div 512 = (unat a * 512 + unat b) * 512 + unat c" using assms(3) by (simp add: path_number_def)
    have "unat b < 512" "unat c < 512" using 4 assms(2) by (simp_all add: path_ok_def)
    then show ?thesis unfolding vpn_path_def x 4 by (simp only: div_mod_512) simp
  qed simp
qed

lemma index_or:
  assumes "512 ^ Suc k dvd N" "i < 512"
  shows "push_bit (12 + 9 * k) (of_nat i) OR of_nat (4096 * N) = (of_nat (4096 * (N + i * 512 ^ k)) :: u64)"
proof -
  obtain q where q: "N = 512 ^ Suc k * q" using assms(1) by (rule dvdE)
  have pow: "(512 :: 'b :: comm_semiring_1) ^ k = 2 ^ (9 * k)" by (simp add: power_mult)
  have N: "(of_nat (4096 * N) :: u64) = push_bit (21 + 9 * k) (of_nat q)"
    by (simp add: q push_bit_eq_mult power_add pow ac_simps)
  have "\<not> bit (of_nat i :: u64) n" if "9 \<le> n" for n
  proof -
    have "take_bit 9 (of_nat i :: u64) = of_nat i" using assms(2) by (simp add: take_bit_of_nat take_bit_nat_eq_self)
    then show ?thesis using that by (metis bit_take_bit_iff not_less)
  qed
  then have "push_bit (12 + 9 * k) (of_nat i) AND push_bit (21 + 9 * k) (of_nat q) = (0 :: u64)"
    by (intro bit_word_eqI) (auto simp: bit_simps)
  then have "push_bit (12 + 9 * k) (of_nat i) OR of_nat (4096 * N) = push_bit (12 + 9 * k) (of_nat i) + (of_nat (4096 * N) :: u64)"
    unfolding N by (rule disjunctive_add_eq_or [symmetric])
  then show ?thesis by (simp add: push_bit_eq_mult power_add pow algebra_simps)
qed

text \<open>What the copy needs of the state it starts in: the parent's pages are pages in use, none of them the child's root.\<close>

definition clone_start :: "u64 set \<Rightarrow> u64 set \<Rightarrow> u64 \<Rightarrow> u64 \<Rightarrow> 'a page_state_scheme \<Rightarrow> bool" where
  "clone_start R T P C s0 \<longleftrightarrow> tables_ok R T s0 \<and> P \<in> R \<and> C \<in> R \<and> P \<noteq> C \<and>
     (\<forall>n < 2 ^ 35. \<forall>a. pt_maps (hide (upper_half T) s0) P n = Some a \<longrightarrow>
        unat (a + kernel_hhdm_offset s0) \<in> frames s0 \<and> a + kernel_hhdm_offset s0 \<noteq> C)"

lemma clone_entry:
  assumes st: "clone_start R T P C s0" and inv: "clone_inv R T P C s0 N s"
    and p: "path_ok p" "pt_node (hide (upper_half T) s0) P p = Some l" and i: "unat i < 512" "p = [] \<Longrightarrow> unat i < 256"
  shows "memory s (l + 8 * i) = memory (hide (upper_half T) s0) (l + 8 * i)"
proof -
  let ?H = "upper_half T"
  have ok: "tables_ok R T s0" "P \<in> R" "C \<in> R" "P \<noteq> C" and hinv: "pt_inv R (hide ?H s0)"
    using st by (simp_all add: clone_start_def tables_ok_def)
  have "unat l \<in> frames s0" using pt_inv_frame [OF hinv ok(2) p] tables_page(2) [OF ok(1)] by simp
  moreover have "l \<noteq> C" using pt_inv_inj [OF hinv ok(2,3) p(1), of "[]" l] p(2) ok(4) by auto
  moreover have "l + 8 * i \<notin> ?H" by (rule slot_visible [OF ok(1,2) p(1) i(1) p(2) i(2)])
  ultimately show ?thesis using inv i(1) by (simp add: clone_inv_def)
qed

lemma absent_pages:
  assumes p: "path_ok (p @ [i])" "pt_node s r p = Some l" "\<not> entry_present (memory s (l + 8 * i))"
    and n: "n < 2 ^ 36" "n div 512 ^ (3 - length p) = path_number (p @ [i])"
  shows "pt_maps s r n = None"
proof -
  have len: "length p < 3" using p(1) by simp
  have "take (length (p @ [i])) (vpn_path n) = p @ [i]" by (rule vpn_path_take [OF n(1) p(1)]) (use n(2) in simp)
  then obtain q where "vpn_path n = (p @ [i]) @ q" by (metis append_take_drop_id)
  then show ?thesis using p(2,3) by (simp add: pt_maps_def pt_leaf_def pt_node_append pt_child_def)
qed

lemma present_page:
  assumes p: "path_ok p" "length p = 3" "pt_node s r p = Some l" and n: "n < 2 ^ 36" "n div 512 = path_number p"
  shows "pt_maps s r n = (let e = memory s (l + 8 * of_nat (n mod 512)) in
    if entry_present e then Some (arch_table_manager_get_address e) else None)"
proof -
  have "take (length p) (vpn_path n) = p" by (rule vpn_path_take [OF n(1) p(1)]) (use n(2) p(2) in simp)
  then have "vpn_path n = p" using p(2) vpn_path_bounds(2) [OF n(1)] by simp
  then show ?thesis using p(3) by (simp add: pt_maps_def pt_leaf_def Let_def)
qed

text \<open>One entry of a last layer, and one of a layer above, where \<open>clone\<close> is the copy of the layer below.\<close>

lemma clone_leaf_entry:
  assumes st: "clone_start R T P C s0" and p: "path_ok p" "length p = 3" "pt_node (hide (upper_half T) s0) P p = Some l"
    and i: "i < 512" and N: "N = path_number p * 512" "N + i < 2 ^ 35" and inv: "clone_inv R T P C s0 (N + i) s"
  shows "\<exists>s'. (let e = memory s (l + 8 * of_nat i)
      in if e AND TABLE_ENTRY_PRESENT \<noteq> 0 then clone_page C e (push_bit 12 (of_nat i) OR of_nat (4096 * N)) s else Inr s) = Inr s' \<and>
      clone_inv R T P C s0 (N + Suc i) s'"
proof -
  let ?H = "upper_half T"
  have C: "C \<in> R" "unat C \<in> frames s0"
    using st tables_root [of R T s0 C] tables_page(2) [of R T s0] by (simp_all add: clone_start_def)
  define e where "e = memory s (l + 8 * of_nat i)"
  have ui: "unat (of_nat i :: u64) = i" using i by (intro unat_of_nat_exact) simp
  have e: "e = memory (hide ?H s0) (l + 8 * of_nat i)"
    unfolding e_def by (rule clone_entry [OF st inv p(1,3)]) (use i p(2) ui in auto)
  have top: "(N + i) div 512 = path_number p" "(N + i) mod 512 = i" using N(1) i by simp_all
  then have m: "pt_maps (hide ?H s0) P (N + i) = (if entry_present e then Some (arch_table_manager_get_address e) else None)"
    using present_page [OF p, of "N + i"] N(2) by (simp add: e Let_def)
  show ?thesis
  proof (cases "entry_present e")
    case True
    have va: "push_bit 12 (of_nat i) OR of_nat (4096 * N) = (of_nat (4096 * (N + i)) :: u64)"
      using index_or [of 0 N i] N(1) i by simp
    have "unat (of_nat (4096 * (N + i)) :: u64) = 4096 * (N + i)" using N(2) by (intro unat_of_nat_exact) simp
    then have "vpn (of_nat (4096 * (N + i))) = N + i" using N(2) by (simp only: vpn_eq) simp
    moreover have "unat (arch_table_manager_get_address e + kernel_hhdm_offset s0) \<in> frames s0"
      "arch_table_manager_get_address e + kernel_hhdm_offset s0 \<noteq> C"
      using st m True N(2) by (simp_all add: clone_start_def)
    ultimately show ?thesis
      using clone_page_step [OF inv C N(2), of e "of_nat (4096 * (N + i))"] m True
      unfolding e_def [symmetric] va by (simp add: entry_present_def)
  next
    case False
    have "clone_inv R T P C s0 (N + Suc i) s"
      by (rule clone_inv_skip [OF inv]) (use N(2) m False in \<open>auto simp: le_less_Suc_eq\<close>)
    then show ?thesis using False unfolding e_def [symmetric] by (simp add: entry_present_def)
  qed
qed

lemma clone_inner_entry:
  fixes clone :: "u64 \<Rightarrow> u64 \<Rightarrow> 'a page_state_scheme \<Rightarrow> 'a page_state_scheme res"
  assumes st: "clone_start R T P C s0" and p: "path_ok p" "length p + k = 2" "pt_node (hide (upper_half T) s0) P p = Some l"
    and i: "i < 512" "p = [] \<Longrightarrow> i < 256"
    and N: "N = path_number p * 512 ^ Suc (Suc k)" "N + Suc i * 512 ^ Suc k \<le> 2 ^ 35"
    and inv: "clone_inv R T P C s0 (N + i * 512 ^ Suc k) s"
    and clone: "\<And>l'. pt_node (hide (upper_half T) s0) P (p @ [of_nat i]) = Some l' \<Longrightarrow>
      \<exists>s'. clone l' (of_nat (4096 * (N + i * 512 ^ Suc k))) s = Inr s' \<and> clone_inv R T P C s0 (N + Suc i * 512 ^ Suc k) s'"
  shows "\<exists>s'. (let e = memory s (l + 8 * of_nat i)
      in if e AND TABLE_ENTRY_PRESENT \<noteq> 0
         then clone (arch_table_manager_get_address e + kernel_hhdm_offset s) (push_bit (12 + 9 * Suc k) (of_nat i) OR of_nat (4096 * N)) s
         else Inr s) = Inr s' \<and> clone_inv R T P C s0 (N + Suc i * 512 ^ Suc k) s'"
proof -
  let ?H = "upper_half T"
  define e where "e = memory s (l + 8 * of_nat i)"
  have ui: "unat (of_nat i :: u64) = i" using i by (intro unat_of_nat_exact) simp
  have e: "e = memory (hide ?H s0) (l + 8 * of_nat i)"
    unfolding e_def by (rule clone_entry [OF st inv p(1,3)]) (use i ui in auto)
  have pi: "path_ok (p @ [of_nat i])" using p(1,2) i(1) ui by (simp add: path_ok_def)
  have h: "kernel_hhdm_offset s = kernel_hhdm_offset s0" using inv by (simp add: clone_inv_def)
  show ?thesis
  proof (cases "entry_present e")
    case True
    have va: "push_bit (12 + 9 * Suc k) (of_nat i) OR of_nat (4096 * N) = (of_nat (4096 * (N + i * 512 ^ Suc k)) :: u64)"
      using index_or [of "Suc k" N i] N(1) i(1) by simp
    have "pt_node (hide ?H s0) P (p @ [of_nat i]) = Some (arch_table_manager_get_address e + kernel_hhdm_offset s0)"
      using p(3) True by (simp add: pt_node_append pt_child_def e)
    from clone [OF this] show ?thesis
      using True unfolding e_def [symmetric] va h by (simp add: entry_present_def)
  next
    case False
    have "pt_maps (hide ?H s0) P n = None" if n: "N + i * 512 ^ Suc k \<le> n" "n < N + Suc i * 512 ^ Suc k" for n
    proof (rule absent_pages [OF pi p(3)])
      show "\<not> entry_present (memory (hide ?H s0) (l + 8 * of_nat i))" using False e by simp
      show "n < 2 ^ 36" using n(2) N(2) by simp
      define c where "c = (512 :: nat) ^ Suc k"
      define x where "x = path_number p * 512 + i"
      have "N = path_number p * 512 * c" using N(1) by (simp add: c_def)
      then have "x * c \<le> n" "n < Suc x * c" using n unfolding x_def c_def [symmetric] by (simp_all add: algebra_simps)
      then have "n div c = x" by (intro div_nat_eqI) (simp_all add: mult.commute)
      moreover have "3 - length p = Suc k" using p(2) by simp
      ultimately show "n div 512 ^ (3 - length p) = path_number (p @ [of_nat i])" using ui by (simp add: x_def c_def)
    qed
    then have "clone_inv R T P C s0 (N + Suc i * 512 ^ Suc k) s"
      using N(2) by (intro clone_inv_skip [OF inv]) simp_all
    then show ?thesis using False unfolding e_def [symmetric] by (simp add: entry_present_def)
  qed
qed

lemma clone_layer_ok:
  assumes st: "clone_start R T P C s0"
    and "path_ok p" "length p + level = 3" "pt_node (hide (upper_half T) s0) P p = Some l"
    and "count \<le> 512" "p = [] \<Longrightarrow> count \<le> 256" "N = path_number p * 512 ^ Suc level" "N + count * 512 ^ level \<le> 2 ^ 35"
    and "clone_inv R T P C s0 N s"
  shows "\<exists>s'. clone_layer level C l count (of_nat (4096 * N)) s = Inr s' \<and> clone_inv R T P C s0 (N + count * 512 ^ level) s'"
  using assms(2-)
proof (induction level arbitrary: p l count N s)
  case 0
  then show ?case unfolding clone_layer.simps power_0 mult_1_right
    by (intro for_range_inv [of 0 count "\<lambda>i. clone_inv R T P C s0 (N + i)"] clone_leaf_entry [OF st]) simp_all
next
  case (Suc k)
  have le: "Suc i * 512 ^ Suc k \<le> count * 512 ^ Suc k" if "i < count" for i using that by (intro mult_le_mono1) simp
  have below: "\<exists>s'. clone_layer k C l' 0x200 (of_nat (4096 * (N + i * 512 ^ Suc k))) s = Inr s' \<and>
      clone_inv R T P C s0 (N + Suc i * 512 ^ Suc k) s'"
    if i: "i < count" and inv: "clone_inv R T P C s0 (N + i * 512 ^ Suc k) s"
      and l': "pt_node (hide (upper_half T) s0) P (p @ [of_nat i]) = Some l'" for i s l'
  proof -
    have ui: "unat (of_nat i :: u64) = i" using i Suc.prems(4) by (intro unat_of_nat_exact) simp
    have pi: "path_ok (p @ [of_nat i])" using Suc.prems i ui by (simp add: path_ok_def)
    show ?thesis
      using Suc.IH [OF pi _ l', where N = "N + i * 512 ^ Suc k" and count = "0x200" and s = s] Suc.prems inv le [OF i] ui
      by (simp add: algebra_simps)
  qed
  show ?case unfolding clone_layer.simps
  proof (rule for_range_inv [of 0 count "\<lambda>i. clone_inv R T P C s0 (N + i * 512 ^ Suc k)"])
    fix i s assume i: "i < count" and inv: "clone_inv R T P C s0 (N + i * 512 ^ Suc k) s"
    show "\<exists>s'. (let e = memory s (l + 8 * of_nat i)
        in if e AND TABLE_ENTRY_PRESENT \<noteq> 0
           then clone_layer k C (arch_table_manager_get_address e + kernel_hhdm_offset s) 0x200
                  (push_bit (12 + 9 * Suc k) (of_nat i) OR of_nat (4096 * N)) s
           else Inr s) = Inr s' \<and> clone_inv R T P C s0 (N + Suc i * 512 ^ Suc k) s'"
      by (rule clone_inner_entry [where clone = "\<lambda>l'. clone_layer k C l' 0x200", OF st Suc.prems(1) _ Suc.prems(3) _ _ Suc.prems(6) _ inv below [OF i inv]])
        (use Suc.prems i le [OF i] in auto)
  qed (use Suc.prems(8) in simp_all)
qed

subsection \<open>The address space of a child\<close>

lemma share_higher_half_apply:
  assumes inv: "page_inv s" and f: "unat table \<in> frames s" "unat boot \<in> frames s" "table \<noteq> boot"
  shows "256 \<le> unat j \<Longrightarrow> unat j < 512 \<Longrightarrow> share_higher_half table boot (memory s) (table + 8 * j) = memory s (boot + 8 * j)"
    and "a \<notin> upper_half {table} \<Longrightarrow> share_higher_half table boot (memory s) a = memory s a"
proof -
  note copy = copy_frame_words [OF inv f, of 256 _ "memory s", folded share_higher_half_def]
  show "share_higher_half table boot (memory s) (table + 8 * j) = memory s (boot + 8 * j)" if "256 \<le> unat j" "unat j < 512"
    using copy(1) [OF _ that] by simp
  show "share_higher_half table boot (memory s) a = memory s a" if a: "a \<notin> upper_half {table}"
  proof (rule copy(2))
    fix j :: nat assume j: "256 \<le> j" "j < 512"
    have "unat (of_nat j :: u64) = j" using j(2) by (intro unat_of_nat_exact) simp
    then have "table + 8 * of_nat j \<in> upper_half {table}" using j unfolding upper_half_def by fastforce
    then show "a \<noteq> table + 8 * of_nat j" using a by blast
  qed simp
qed

text \<open>What user addresses map to is seen in both views.\<close>

lemma user_node:
  assumes ok: "tables_ok R T s" and r: "r \<in> R"
  shows "path_ok p \<Longrightarrow> p = [] \<or> unat (hd p) < 256 \<Longrightarrow> pt_node s r p = pt_node (hide (upper_half T) s) r p"
proof (induction p rule: rev_induct)
  case (snoc i p)
  have p: "path_ok p" "unat i < 512" "p = [] \<or> unat (hd p) < 256" using snoc.prems by (auto simp: path_ok_def hd_append split: if_splits)
  have "pt_child s l i = pt_child (hide (upper_half T) s) l i" if l: "pt_node (hide (upper_half T) s) r p = Some l" for l
  proof -
    have "l + 8 * i \<notin> upper_half T" by (rule slot_visible [OF ok r p(1,2) l]) (use snoc.prems in simp)
    then show ?thesis by (simp add: pt_child_def cong: if_cong)
  qed
  then show ?case using snoc.IH [OF p(1,3)] by (simp add: pt_node_append split: option.splits)
qed simp

lemma user_maps:
  assumes ok: "tables_ok R T s" and r: "r \<in> R" and n: "n < 2 ^ 35"
  shows "pt_maps (hide (upper_half T) s) r n = pt_maps s r n"
proof -
  have n36: "n < 2 ^ 36" using n by simp
  have "n div 512 div 512 div 512 < 256" using n by (simp add: div_mult2_eq [symmetric] less_mult_imp_div_less)
  moreover from this have "unat (of_nat (n div 512 div 512 div 512) :: u64) = n div 512 div 512 div 512" by (intro unat_of_nat_exact) simp
  ultimately have hd: "unat (hd (vpn_path n)) < 256" by (simp add: vpn_path_def)
  have ne: "vpn_path n \<noteq> []" by (simp add: vpn_path_def)
  note b = vpn_path_bounds(1) [OF n36]
  have "unat (of_nat (n mod 512) :: u64) < 512" by (simp add: of_nat_mod_512 del: of_nat_mod)
  from slot_visible [OF ok r b this] ne
  have "l + 8 * of_nat (n mod 512) \<notin> upper_half T" if "pt_node (hide (upper_half T) s) r (vpn_path n) = Some l" for l
    using that by blast
  then show ?thesis
    using user_node [OF ok r b] hd by (simp add: pt_maps_def pt_leaf_def del: of_nat_mod split: option.splits)
qed

text \<open>A new root that shares the upper half of the kernel's table.\<close>

lemma upper_half_insert: "upper_half (insert t T) = upper_half {t} \<union> upper_half T"
  by (auto simp: upper_half_def)

lemma clone_root:
  fixes s :: "'a pt_state_scheme"
  assumes ok: "tables_ok R T s" and boot: "unat (arch_bootstrap_page_table s) \<in> frames s" and sp: "spare (Suc k) s"
  obtains C s1 s0 where "arch_table_manager_new s = Inr (C, s1)"
    "s0 = s1\<lparr>memory := share_higher_half C (arch_bootstrap_page_table s1) (memory s1)\<rparr>"
    "kernel_hhdm_offset s0 = kernel_hhdm_offset s" "C \<notin> R" "unat C \<notin> frames s" "frames s0 = insert (unat C) (frames s)"
    "tables_ok (insert C R) (insert C T) s0" "spare k s0" "inner_layers (insert C T) s0 C = {}"
    "\<And>n. n < 2 ^ 36 \<Longrightarrow> pt_maps (hide (upper_half (insert C T)) s0) C n = None"
    "\<And>r n. r \<in> R \<Longrightarrow> n < 2 ^ 36 \<Longrightarrow> pt_maps (hide (upper_half (insert C T)) s0) r n = pt_maps (hide (upper_half T) s) r n"
    "\<And>f j. unat f \<in> frames s \<Longrightarrow> unat j < 512 \<Longrightarrow> memory s0 (f + 8 * j) = memory s (f + 8 * j)"
    "\<And>j. 256 \<le> unat j \<Longrightarrow> unat j < 512 \<Longrightarrow> memory s0 (C + 8 * j) = memory s (arch_bootstrap_page_table s + 8 * j)"
proof -
  let ?H = "upper_half T" and ?b = "arch_bootstrap_page_table s"
  have hinv: "pt_inv R (hide ?H s)" and pinv: "page_inv s" using ok tables_page(1) [OF ok] by (simp_all add: tables_ok_def)
  obtain C x where x: "page_allocate 1 (hide ?H s) = Inr (C, x)" "spare k x"
    using page_allocate_spare [OF pt_inv_page [OF hinv], of k] sp by auto
  obtain s1 where s1: "page_allocate 1 s = Inr (C, s1)" "x = hide ?H s1" using hide_allocate [OF ok x(1)] by blast
  have new: "arch_table_manager_new (hide ?H s) = Inr (C, hide ?H s1)" using x(1) s1(2) by (simp add: arch_table_manager_new_def)
  note t = table_new_inv [OF hinv new] and one = pz.alloc_one [OF pinv s1(1)] and fr = page_allocate_frame [OF s1(1)]
  have pinv1: "page_inv s1" by (rule page_allocate_inv [OF pinv s1(1)])
  have b1: "arch_bootstrap_page_table s1 = ?b" "kernel_hhdm_offset s1 = kernel_hhdm_offset s"
    using fr by (cases s; cases s1; simp add: page_frame_def)+
  have f: "unat C \<in> frames s1" "unat ?b \<in> frames s1" "C \<noteq> ?b" using one boot by auto
  define s0 where "s0 = s1\<lparr>memory := share_higher_half C ?b (memory s1)\<rparr>"
  note sh = share_higher_half_apply [OF pinv1 f]
  have zero: "memory s1 (C + 8 * j) = 0" if "unat j < 512" for j using pz.alloc_zero_slot [OF pinv s1(1) that] .
  have hid: "hide (upper_half (insert C T)) s0 = hide ?H s1"
  proof -
    have "memory s1 a = 0" if "a \<in> upper_half {C}" for a using that zero by (auto simp: upper_half_def)
    then have "(if a \<in> upper_half (insert C T) then 0 else share_higher_half C ?b (memory s1) a) = (if a \<in> ?H then 0 else memory s1 a)" for a
      using sh(2) [of a] unfolding upper_half_insert [of C T] by auto
    then show ?thesis by (simp add: hide_def s0_def cong: if_cong)
  qed
  have tok: "tables_ok (insert C R) (insert C T) s0" using ok t(1) by (auto simp: tables_ok_def hid)
  have inn: "inner_layers (insert C T) s0 C = {}"
    using pt_node_fresh [of "hide ?H s1" C] zero by (auto simp: inner_layers_def hid)
  have mem: "memory s0 (f + 8 * j) = memory s (f + 8 * j)" if "unat f \<in> frames s" "unat j < 512" for f j
  proof -
    have "f + 8 * j \<notin> upper_half {C}"
    proof
      assume "f + 8 * j \<in> upper_half {C}"
      then obtain i where "f + 8 * j = C + 8 * i" "unat i < 512" by (auto simp: upper_half_def)
      then have "f = C" using frame_words_eq [OF pinv1, of f C "unat j" "unat i"] one that by auto
      then show False using one that by auto
    qed
    then show ?thesis using sh(2) pz.alloc_keeps_slot [OF pinv s1(1) that] by (simp add: s0_def)
  qed
  have frs: "frames s0 = insert (unat C) (frames s)"
    using tables_page(2) [OF tok] tables_page(2) [OF ok] pz.alloc_one(1) [OF pt_inv_page [OF hinv] x(1)] hid s1(2) by simp
  have maps0: "pt_maps (hide (upper_half (insert C T)) s0) r n = pt_maps (hide ?H s1) r n" for r n by (simp only: hid)
  show thesis
    by (rule that [of C s1 s0]; (simp only: maps0)?)
      (use s1 x(2) sh(1) pz.alloc_keeps_slot [OF pinv s1(1) boot] tok inn mem t one frs in \<open>simp_all add: arch_table_manager_new_def s0_def b1 spare_def\<close>)
qed

text \<open>
  The copy of an address space, over the real memory: the pages of the parent below the kernel's half are copied to pages that
  were free, one for each; no page in use before has changed; and the kernel's half of the root is that of the kernel's table.
\<close>

definition user_pages :: "u64 \<Rightarrow> 'a page_state_scheme \<Rightarrow> nat set" where
  "user_pages r s = {n. n < 2 ^ 35 \<and> pt_maps s r n \<noteq> None}"

definition copies_page :: "u64 \<Rightarrow> u64 \<Rightarrow> 'a page_state_scheme \<Rightarrow> 'a page_state_scheme \<Rightarrow> nat \<Rightarrow> bool" where
  "copies_page parent child s s' n \<longleftrightarrow>
     (case pt_maps s parent n of
        None \<Rightarrow> pt_maps s' child n = None
      | Some a \<Rightarrow> \<exists>b. pt_maps s' child n = Some b \<and> unat (b + kernel_hhdm_offset s) \<in> frames s' - frames s \<and>
          (\<forall>j. unat j < 512 \<longrightarrow> memory s' (b + kernel_hhdm_offset s + 8 * j) = memory s (a + kernel_hhdm_offset s + 8 * j)))"

text \<open>
  (C5) \<open>fork\<close>, copying the address space of the parent: with four pages to spare for each page of the parent and one for the
  root, the copy is made. The child's root is a page that was free; every user page the parent maps is mapped in the child, to
  a page of its own that was free before and has the parent's contents; every other user page stays unmapped; the pages of
  the child are different from each other; no word of a page that was in use, of the parent's memory and tables among them, has
  changed; and the kernel's half of the root is that of the kernel's table.
\<close>

theorem fork_copies_address_space:
  fixes s :: "'a pt_state_scheme"
  assumes ok: "tables_ok R T s" and P: "parent \<in> R" and boot: "unat (arch_bootstrap_page_table s) \<in> frames s"
    and user: "\<forall>n a. n < 2 ^ 35 \<longrightarrow> pt_maps s parent n = Some a \<longrightarrow> unat (a + kernel_hhdm_offset s) \<in> frames s"
    and sp: "spare (Suc (4 * card (user_pages parent s))) s"
  shows "\<exists>child s'. clone_address_space parent s = Inr (child, s') \<and> child \<notin> R \<and> unat child \<notin> frames s \<and>
    tables_ok (insert child R) (insert child T) s' \<and> (\<forall>n < 2 ^ 35. copies_page parent child s s' n) \<and>
    inj_on (pt_maps s' child) (user_pages child s') \<and>
    (\<forall>f j. unat f \<in> frames s \<longrightarrow> unat j < 512 \<longrightarrow> memory s' (f + 8 * j) = memory s (f + 8 * j)) \<and>
    (\<forall>j. 256 \<le> unat j \<longrightarrow> unat j < 512 \<longrightarrow> memory s' (child + 8 * j) = memory s (arch_bootstrap_page_table s + 8 * j))"
proof -
  note um = user_maps [OF ok P]
  obtain C s1 s0 where c: "arch_table_manager_new s = Inr (C, s1)"
    "s0 = s1\<lparr>memory := share_higher_half C (arch_bootstrap_page_table s1) (memory s1)\<rparr>"
    "kernel_hhdm_offset s0 = kernel_hhdm_offset s" "C \<notin> R" "unat C \<notin> frames s" "frames s0 = insert (unat C) (frames s)"
    "tables_ok (insert C R) (insert C T) s0" "spare (4 * card (user_pages parent s)) s0" "inner_layers (insert C T) s0 C = {}"
    "\<And>n. n < 2 ^ 36 \<Longrightarrow> pt_maps (hide (upper_half (insert C T)) s0) C n = None"
    "\<And>r n. r \<in> R \<Longrightarrow> n < 2 ^ 36 \<Longrightarrow> pt_maps (hide (upper_half (insert C T)) s0) r n = pt_maps (hide (upper_half T) s) r n"
    "\<And>f j. unat f \<in> frames s \<Longrightarrow> unat j < 512 \<Longrightarrow> memory s0 (f + 8 * j) = memory s (f + 8 * j)"
    "\<And>j. 256 \<le> unat j \<Longrightarrow> unat j < 512 \<Longrightarrow> memory s0 (C + 8 * j) = memory s (arch_bootstrap_page_table s + 8 * j)"
    by (rule clone_root [OF ok boot sp]) (rule that)
  let ?R = "insert C R" and ?T = "insert C T" and ?h = "kernel_hhdm_offset s"
  have PC: "parent \<noteq> C" using P c(4) by auto
  have maps0: "pt_maps (hide (upper_half ?T) s0) parent n = pt_maps s parent n" if "n < 2 ^ 35" for n
    using c(11) [OF P, of n] um [OF that] that by simp
  have st: "clone_start ?R ?T parent C s0"
    unfolding clone_start_def using c(5,6,7) P PC user maps0 by (auto simp: c(3))
  have "pages_from ?T parent s0 0 = user_pages parent s" using maps0 by (auto simp: pages_from_def user_pages_def)
  then have "clone_inv ?R ?T parent C s0 0 s0"
    unfolding clone_inv_def using c(7,8,9,10) by simp
  from clone_layer_ok [OF st, of "[]" 3 parent 256 0 s0] this
  obtain s' where s': "clone_layer 3 C parent 256 0 s0 = Inr s'" "clone_inv ?R ?T parent C s0 (2 ^ 35) s'" by auto
  have ok': "tables_ok ?R ?T s'" and ff: "frames s0 \<subseteq> frames s'" using s'(2) by (simp_all add: clone_inv_def)
  have umC: "pt_maps (hide (upper_half ?T) s') C n = pt_maps s' C n" if "n < 2 ^ 35" for n
    by (rule user_maps [OF ok' _ that]) simp
  have keep: "memory s' (f + 8 * j) = memory s (f + 8 * j)" if "unat f \<in> frames s" "unat j < 512" for f j
  proof -
    have "memory s' (f + 8 * j) = memory s0 (f + 8 * j)" using s'(2) that c(5,6) by (auto simp: clone_inv_def)
    then show ?thesis using c(12) [OF that] by simp
  qed
  have "copies_page parent C s s' n" if n: "n < 2 ^ 35" for n
  proof -
    have "page_cloned ?T parent C s0 s' n" using s'(2) n by (simp add: clone_inv_def)
    then show ?thesis using c(12) user n
      unfolding page_cloned_def copies_page_def maps0 [OF n] umC [OF n] c(3,6) by (fastforce split: option.splits)
  qed
  moreover have "inj_on (pt_maps s' C) (user_pages C s')"
  proof (rule inj_onI)
    fix n n' assume "n \<in> user_pages C s'" "n' \<in> user_pages C s'" "pt_maps s' C n = pt_maps s' C n'"
    then obtain b where "n < 2 ^ 35" "n' < 2 ^ 35" "pt_maps s' C n = Some b" "pt_maps s' C n' = Some b"
      by (auto simp: user_pages_def)
    then show "n = n'" using s'(2) umC unfolding clone_inv_def by auto
  qed
  moreover have "memory s' (C + 8 * j) = memory s (arch_bootstrap_page_table s + 8 * j)" if "256 \<le> unat j" "unat j < 512" for j
    using s'(2) c(6) c(13) [OF that] that by (simp add: clone_inv_def)
  moreover have "clone_address_space parent s = Inr (C, s')"
    using c(1) s'(1) by (simp add: clone_address_space_def c(2))
  ultimately show ?thesis using ok' keep c(4,5) by blast
qed

text \<open>A small machine: the kernel's table, and a task whose table maps one page at \<open>0x400000\<close>.\<close>

definition task_with_page :: "(u64 \<times> u64 \<times> u64 \<times> block_state) res" where
  "task_with_page =
     (case arch_table_manager_new heap_boot of
        Inl e \<Rightarrow> Inl e
      | Inr (r, s) \<Rightarrow>
     case arch_table_manager_new (s\<lparr>arch_bootstrap_page_table := r\<rparr>) of
        Inl e \<Rightarrow> Inl e
      | Inr (p, s) \<Rightarrow>
     case page_allocate 1 s of
        Inl e \<Rightarrow> Inl e
      | Inr (page, s) \<Rightarrow>
     case arch_table_manager_map p 0x400000 (page - kernel_hhdm_offset s) 7 s of
        Inl e \<Rightarrow> Inl e
      | Inr s \<Rightarrow> Inr (r, p, page, s))"

lemma task_with_page_ok:
  obtains r p page s where "task_with_page = Inr (r, p, page, s)" "pt_inv {p, r} s" "spare 26 s"
    "unat (arch_bootstrap_page_table s) \<in> frames s" "unat page \<in> frames s"
    "\<And>n. n < 2 ^ 36 \<Longrightarrow> pt_maps s p n = (if n = 0x400 then Some (page - kernel_hhdm_offset s) else None)"
    "arch_bootstrap_page_table s = r"
proof -
  have "spare (Suc 31) heap_boot" by (simp add: spare_def heap_boot_def table_pool_def)
  then obtain r s where s: "arch_table_manager_new heap_boot = Inr (r, s)" "spare 31 s"
    using page_allocate_spare [OF pt_inv_page [OF heap_boot_inv]] unfolding arch_table_manager_new_def by blast
  define s1 where "s1 = s\<lparr>arch_bootstrap_page_table := r\<rparr>"
  have inv1: "pt_inv {r} s1" using table_new_inv(1) [OF heap_boot_inv s(1)] by (subst pt_inv_same [of _ s]) (simp_all add: s1_def)
  have "spare (Suc 30) s1" by (rule spare_mono [of 31]) (use s(2) in \<open>simp_all add: s1_def spare_def\<close>)
  then obtain p s2 where s2: "page_allocate 1 s1 = Inr (p, s2)" "spare 30 s2"
    using page_allocate_spare [OF pt_inv_page [OF inv1]] by blast
  then have new2: "arch_table_manager_new s1 = Inr (p, s2)" by (simp add: arch_table_manager_new_def)
  note inv2 = table_new_inv [OF inv1 new2]
  obtain page s3 where s3: "page_allocate 1 s2 = Inr (page, s3)" "spare 29 s3"
    using page_allocate_spare [OF pt_inv_page [OF inv2(1)], of 29] s2(2) by auto
  then have new3: "arch_table_manager_new s2 = Inr (page, s3)" by (simp add: arch_table_manager_new_def)
  have inv3: "pt_inv {p, r} s3" by (rule pt_inv_page_allocate [OF inv2(1) s3(1)])
  have pr: "p \<in> {p, r}" "r \<in> {p, r}" by simp_all
  obtain s4 where s4: "arch_table_manager_map p 0x400000 (page - kernel_hhdm_offset s3) 7 s3 = Inr s4" "spare 26 s4"
    using map_returns_spare [OF inv3 pr(1), of 26 "0x400000" "page - kernel_hhdm_offset s3" 7] s3(2) by auto
  note m = map_refines [OF inv3 pr(1) s4(1)]
  have pf: "unat page \<in> frames s3" using pz.alloc_one(1) [OF pt_inv_page [OF inv2(1)] s3(1)] by simp
  have ga: "arch_table_manager_get_address (page - kernel_hhdm_offset s3) = page - kernel_hhdm_offset s3"
    by (rule frame_physical(2) [OF pt_inv_page [OF inv3] pt_inv_physical [OF inv3] pf])
  have fr: "page_frame s4 = page_frame s1"
    using map_frame [OF s4(1)] page_allocate_frame [OF s3(1)] page_allocate_frame [OF s2(1)] by simp
  have b: "arch_bootstrap_page_table s4 = r" "kernel_hhdm_offset s4 = kernel_hhdm_offset s3"
    using block_fields_more(8) [of s4 s1] fr map_frame [OF s4(1)] by (simp_all add: page_frame_def s1_def)
  have "task_with_page = Inr (r, p, page, s4)" using s(1) new2 s3(1) s4(1) by (simp add: task_with_page_def s1_def)
  moreover have "unat r \<in> frames s4" using pt_inv_frame [OF m(1) pr(2), of "[]"] by simp
  moreover have "pt_maps s4 p n = (if n = 0x400 then Some (page - kernel_hhdm_offset s4) else None)" if "n < 2 ^ 36" for n
    using m(3) [OF pr(1) that] table_new_inv(4) [OF inv2(1) new3 pr(1) that] inv2(3) [OF that] ga b(2) by (simp add: vpn_eq)
  ultimately show thesis using that [of r p page s4] m(1,2) s4(2) b(1) pf by auto
qed

theorem fork_copies_address_space_witness:
  "\<exists>r p page s child s' b. task_with_page = Inr (r, p, page, s) \<and> clone_address_space p s = Inr (child, s') \<and>
     pt_maps s p 0x400 = Some (page - kernel_hhdm_offset s) \<and> pt_maps s' child 0x400 = Some b \<and>
     b \<noteq> page - kernel_hhdm_offset s \<and> memory s' (b + kernel_hhdm_offset s + 8 * 5) = memory s (page + 8 * 5) \<and>
     pt_maps s' child 0x401 = None \<and> memory s' (child + 8 * 511) = memory s (r + 8 * 511)"
proof -
  obtain r p page s where s: "task_with_page = Inr (r, p, page, s)" "pt_inv {p, r} s" "spare 26 s"
    "unat (arch_bootstrap_page_table s) \<in> frames s" "unat page \<in> frames s"
    "\<And>n. n < 2 ^ 36 \<Longrightarrow> pt_maps s p n = (if n = 0x400 then Some (page - kernel_hhdm_offset s) else None)"
    "arch_bootstrap_page_table s = r"
    by (rule task_with_page_ok) (rule that)
  have ok: "tables_ok {p, r} {} s" using s(2) by (simp add: tables_ok_def hide_def upper_half_def)
  have "user_pages p s = {0x400}" using s(6) by (auto simp: user_pages_def split: if_splits)
  then have sp: "spare (Suc (4 * card (user_pages p s))) s" using spare_mono [OF s(3), of 5] by simp
  have user: "\<forall>n a. n < 2 ^ 35 \<longrightarrow> pt_maps s p n = Some a \<longrightarrow> unat (a + kernel_hhdm_offset s) \<in> frames s"
    using s(5,6) by (auto split: if_splits)
  obtain child s' where c: "clone_address_space p s = Inr (child, s')" "\<And>n. n < 2 ^ 35 \<Longrightarrow> copies_page p child s s' n"
    "\<And>j. 256 \<le> unat j \<Longrightarrow> unat j < 512 \<Longrightarrow> memory s' (child + 8 * j) = memory s (arch_bootstrap_page_table s + 8 * j)"
    using fork_copies_address_space [OF ok _ s(4) user sp] by auto
  have p: "pt_maps s p 0x400 = Some (page - kernel_hhdm_offset s)" "pt_maps s p 0x401 = None" using s(6) by simp_all
  obtain b where b: "pt_maps s' child 0x400 = Some b" "unat (b + kernel_hhdm_offset s) \<notin> frames s"
    "\<And>j. unat j < 512 \<Longrightarrow> memory s' (b + kernel_hhdm_offset s + 8 * j) = memory s (page + 8 * j)"
    using c(2) [of "0x400"] p(1) by (auto simp: copies_page_def)
  have "b \<noteq> page - kernel_hhdm_offset s" using b(2) s(5) by auto
  moreover have "pt_maps s' child 0x401 = None" using c(2) [of "0x401"] p(2) by (simp add: copies_page_def)
  moreover have "memory s' (child + 8 * 511) = memory s (r + 8 * 511)" using c(3) [of 511] s(7) by simp
  ultimately show ?thesis using s(1) c(1) p(1) b(1) b(3) [of 5]
    by (intro exI [of _ r] exI [of _ p] exI [of _ page] exI [of _ s] exI [of _ child] exI [of _ s'] exI [of _ b]) simp
qed

end
