(* ===== verification/Interrupts.thy ===== *)
theory Interrupts
  imports Round_Robin_Correct Address_Space
begin

text \<open>
  The interrupt descriptor table and the handler of exceptions (\<open>kernel/src/arch/x86_64/idt/idt.c\<close>) and the
  segment descriptors (\<open>kernel/src/arch/x86_64/gdt/gdt.c\<close>).

  Gates are a store indexed by vector; the table has room for 256 of them. A halt is a panic without a message.
  \<open>cr2\<close> is the address a page fault reports.
\<close>

subsection \<open>Gates\<close>

record arch_idt_gate_descriptor =
  gate_offset :: u16
  segment_selector :: u16
  gate_ist :: u8
  gate_attributes :: u8
  gate_offset2 :: u16
  gate_offset3 :: u32

definition zero_gate :: arch_idt_gate_descriptor where
  "zero_gate = \<lparr>gate_offset = 0, segment_selector = 0, gate_ist = 0, gate_attributes = 0, gate_offset2 = 0, gate_offset3 = 0\<rparr>"

record arch_idtr =
  idtr_size :: u16
  idtr_offset :: u64

record int_state = sched_state +
  idt_gates :: "u64 \<Rightarrow> arch_idt_gate_descriptor"
  arch_global_idtr :: arch_idtr
  interrupts_vector_base :: u16

definition arch_interrupts_map_vector ::
  "u64 \<Rightarrow> u64 \<Rightarrow> (u64 \<Rightarrow> arch_idt_gate_descriptor) \<Rightarrow> (u64 \<Rightarrow> arch_idt_gate_descriptor)" where
  "arch_interrupts_map_vector vector handler gates =
     gates(vector := (gates vector)\<lparr>gate_offset := ucast handler, gate_offset2 := ucast (drop_bit 16 handler),
       gate_offset3 := ucast (drop_bit 32 handler), segment_selector := 8 * 1, gate_ist := 1, gate_attributes := 0xEE\<rparr>)"

text \<open>The loop installs the handlers of the vectors below 255 and so leaves out the last one.\<close>

definition arch_interrupts_init :: "(u64 \<Rightarrow> u64) \<Rightarrow> 'a int_state_scheme \<Rightarrow> 'a int_state_scheme res" where
  "arch_interrupts_init arch_isr_handlers s =
     (case page_allocate 1 s of
        Inl e \<Rightarrow> Inl e
      | Inr (table, s) \<Rightarrow>
          Inr (s\<lparr>arch_global_idtr := \<lparr>idtr_size = 0xFF * 16 - 1, idtr_offset = table\<rparr>,
                 idt_gates := fold (\<lambda>i. arch_interrupts_map_vector (of_nat i) (arch_isr_handlers (of_nat i)))
                   [0..<0xFF] (\<lambda>_. zero_gate),
                 interrupts_enabled := True\<rparr>))"

definition arch_interrupts_reserve_kernel_vector :: "'a int_state_scheme \<Rightarrow> u16 \<times> 'a int_state_scheme" where
  "arch_interrupts_reserve_kernel_vector s =
     (interrupts_vector_base s, s\<lparr>interrupts_vector_base := interrupts_vector_base s + 1\<rparr>)"

text \<open>Where the processor continues when the vector is raised: the offset it puts together from a present gate.\<close>

definition gate_target :: "arch_idt_gate_descriptor \<Rightarrow> u64 option" where
  "gate_target g =
     (if bit (gate_attributes g) 7
      then Some (ucast (gate_offset g) OR push_bit 16 (ucast (gate_offset2 g)) OR push_bit 32 (ucast (gate_offset3 g)))
      else None)"

subsection \<open>Exceptions\<close>

definition arch_isr_handler ::
  "u64 \<Rightarrow> arch_cpu_state \<Rightarrow> u64 \<Rightarrow> 'a sched_state_scheme \<Rightarrow> 'a sched_state_scheme res" where
  "arch_isr_handler cr2 st interrupt_number s =
     (if interrupt_number = 2 \<or> interrupt_number = 8 then Inl (Panic '''')
      else if interrupt_number < 0x20 then
        if interrupt_number = 0xE then
          (case arch_get_task_context s of
             Inl e \<Rightarrow> Inl e
           | Inr (task, s) \<Rightarrow>
               if reg_cs st AND 3 \<noteq> 0 \<and> cr2 \<ge> 0x1000 \<and> cr2 < virtual_stack_top (tasks s task) then
                 (case page_allocate 1 s of
                    Inl e \<Rightarrow> Inl e
                  | Inr (page, s) \<Rightarrow>
                      arch_table_manager_map (reg_cr3 (task_state (tasks s task)) + kernel_hhdm_offset s)
                        (cr2 AND NOT 0xFFF) (page - kernel_hhdm_offset s) (TABLE_ENTRY_USER OR TABLE_ENTRY_READ_WRITE) s)
               else if cr2 < 0x1000 then Inl (Panic ''null dereference'')
               else Inl (Panic ''page fault''))
        else Inl (Panic ''exception'')
      else Inr s)"

subsection \<open>Segments\<close>

record gdt_segment =
  seg_limit :: u16
  seg_base :: u16
  seg_base2 :: u8
  seg_access :: u8
  seg_limit2 :: "4 word"
  seg_flags :: "4 word"
  seg_base3 :: u8

record gdt_system_segment =
  sys_limit :: u16
  sys_base :: u16
  sys_base2 :: u8
  sys_access :: u8
  sys_limit2 :: u8
  sys_base3 :: u8
  sys_base4 :: u32

record gdt_tss =
  tss_rsp :: "u64 list"
  tss_ist :: "u64 list"

record gdt_info =
  gdtr_size :: u16
  gdtr_entries :: u64
  gdt_kernel_code :: gdt_segment
  gdt_kernel_data :: gdt_segment
  gdt_user_data :: gdt_segment
  gdt_user_code :: gdt_segment
  gdt_tss_segment :: gdt_system_segment
  gdt_tss_data :: gdt_tss

definition flat_segment :: "u8 \<Rightarrow> gdt_segment" where
  "flat_segment access = \<lparr>seg_limit = 0, seg_base = 0, seg_base2 = 0, seg_access = access, seg_limit2 = 0,
     seg_flags = 0xA, seg_base3 = 0\<rparr>"

text \<open>\<open>sizeof(gdt_tss_t)\<close>, and the offsets of the table and of the task state in \<open>gdt_info_t\<close>.\<close>

abbreviation (input) TSS_SIZE :: u16 where "TSS_SIZE \<equiv> 104"
abbreviation (input) GDT_NULL_OFFSET :: u64 where "GDT_NULL_OFFSET \<equiv> 16"
abbreviation (input) GDT_TSS_OFFSET :: u64 where "GDT_TSS_OFFSET \<equiv> 80"

definition tss_descriptor :: "u64 \<Rightarrow> gdt_system_segment" where
  "tss_descriptor tss_address =
     \<lparr>sys_limit = TSS_SIZE, sys_base = ucast tss_address, sys_base2 = ucast (drop_bit 16 tss_address), sys_access = 0x89,
      sys_limit2 = 0, sys_base3 = ucast (drop_bit 24 tss_address), sys_base4 = ucast (drop_bit 32 tss_address)\<rparr>"

text \<open>The address a descriptor names, as the processor puts it together.\<close>

definition descriptor_base :: "gdt_system_segment \<Rightarrow> u64" where
  "descriptor_base d =
     ucast (sys_base d) OR push_bit 16 (ucast (sys_base2 d)) OR push_bit 24 (ucast (sys_base3 d)) OR
     push_bit 32 (ucast (sys_base4 d))"

definition arch_load_gdt :: "'a sched_state_scheme \<Rightarrow> (gdt_info \<times> 'a sched_state_scheme) res" where
  "arch_load_gdt s =
     (case page_allocate 1 s of
        Inl e \<Rightarrow> Inl e
      | Inr (info, s) \<Rightarrow>
     case page_allocate 1 s of
        Inl e \<Rightarrow> Inl e
      | Inr (ist0, s) \<Rightarrow>
     case page_allocate 1 s of
        Inl e \<Rightarrow> Inl e
      | Inr (rsp0, s) \<Rightarrow>
     case page_allocate 1 s of
        Inl e \<Rightarrow> Inl e
      | Inr (rsp2, s) \<Rightarrow>
     case arch_context_install s of
        Inl e \<Rightarrow> Inl e
      | Inr (context, s) \<Rightarrow>
          Inr (\<lparr>gdtr_size = 8 * 5 + 16 - 1, gdtr_entries = info + GDT_NULL_OFFSET,
                gdt_kernel_code = flat_segment 0x9A, gdt_kernel_data = flat_segment 0x92,
                gdt_user_data = flat_segment 0xF2, gdt_user_code = flat_segment 0xFA,
                gdt_tss_segment = tss_descriptor (info + GDT_TSS_OFFSET),
                gdt_tss_data = \<lparr>tss_rsp = [rsp0 + PAGE, 0, rsp2 + PAGE], tss_ist = [ist0 + PAGE, 0, 0, 0, 0, 0, 0]\<rparr>\<rparr>,
               s\<lparr>cpu_contexts := (cpu_contexts s)(context := map_option (cpu_gdt_update (\<lambda>_. info)) (cpu_contexts s context))\<rparr>))"

subsection \<open>What the processor reads back\<close>

lemma split_word:
  "ucast (ucast (x :: u64) :: u16) OR push_bit 16 (ucast (ucast (drop_bit 16 x) :: u16)) OR
     push_bit 32 (ucast (ucast (drop_bit 32 x) :: u32)) = x"
  "ucast (ucast (x :: u64) :: u16) OR push_bit 16 (ucast (ucast (drop_bit 16 x) :: u8)) OR
     push_bit 24 (ucast (ucast (drop_bit 24 x) :: u8)) OR push_bit 32 (ucast (ucast (drop_bit 32 x) :: u32)) = x"
proof -
  show "ucast (ucast (x :: u64) :: u16) OR push_bit 16 (ucast (ucast (drop_bit 16 x) :: u16)) OR
     push_bit 32 (ucast (ucast (drop_bit 32 x) :: u32)) = x"
  proof (rule bit_word_eqI)
    fix n assume "n < LENGTH(64)"
    then consider "n < 16" | "16 \<le> n" "n < 32" | "32 \<le> n" "n < 64" by fastforce
    then show "bit (ucast (ucast x :: u16) OR push_bit 16 (ucast (ucast (drop_bit 16 x) :: u16)) OR
        push_bit 32 (ucast (ucast (drop_bit 32 x) :: u32)) :: u64) n = bit x n"
      by cases (auto simp: bit_simps)
  qed
  show "ucast (ucast (x :: u64) :: u16) OR push_bit 16 (ucast (ucast (drop_bit 16 x) :: u8)) OR
     push_bit 24 (ucast (ucast (drop_bit 24 x) :: u8)) OR push_bit 32 (ucast (ucast (drop_bit 32 x) :: u32)) = x"
  proof (rule bit_word_eqI)
    fix n assume "n < LENGTH(64)"
    then consider "n < 16" | "16 \<le> n" "n < 24" | "24 \<le> n" "n < 32" | "32 \<le> n" "n < 64" by fastforce
    then show "bit (ucast (ucast x :: u16) OR push_bit 16 (ucast (ucast (drop_bit 16 x) :: u8)) OR
        push_bit 24 (ucast (ucast (drop_bit 24 x) :: u8)) OR push_bit 32 (ucast (ucast (drop_bit 32 x) :: u32)) :: u64) n = bit x n"
      by cases (auto simp: bit_simps)
  qed
qed

lemma fold_map_vector:
  assumes "n \<le> 256" "v < 256"
  shows "fold (\<lambda>i. arch_interrupts_map_vector (of_nat i) (h (of_nat i))) [0..<n] g (of_nat v) =
    (if v < n then arch_interrupts_map_vector (of_nat v) (h (of_nat v)) g (of_nat v) else g (of_nat v))"
  using assms(1)
proof (induction n)
  case (Suc n)
  have "(of_nat v :: u64) = of_nat n \<longleftrightarrow> v = n" using Suc.prems assms(2) by (intro of_nat_u64_eq_iff) simp_all
  moreover have "arch_interrupts_map_vector (of_nat n) x F (of_nat n) = arch_interrupts_map_vector (of_nat n) x g (of_nat n)"
    if "F (of_nat n) = g (of_nat n)" for x F using that by (simp add: arch_interrupts_map_vector_def)
  ultimately show ?case using Suc assms(2) by (auto simp: arch_interrupts_map_vector_def less_Suc_eq)
qed simp

text \<open>
  \<open>arch_interrupts_init\<close> returns when a page can be allocated, and then every vector below 255 continues at
  its handler: the processor puts the handler's address together again from the three fields of the gate.
  Vector 255 has no present gate, and the limit of the table excludes it.
\<close>

theorem idt_dispatches:
  assumes "page_allocate 1 s = Inr (table, s1)" "v < 256"
  shows "\<exists>s'. arch_interrupts_init h s = Inr s' \<and>
    gate_target (idt_gates s' (of_nat v)) = (if v < 255 then Some (h (of_nat v)) else None) \<and>
    (16 * v + 15 \<le> unat (idtr_size (arch_global_idtr s'))) = (v < 255)"
proof -
  let ?g = "fold (\<lambda>i. arch_interrupts_map_vector (of_nat i) (h (of_nat i))) [0..<0xFF] (\<lambda>_. zero_gate)"
  let ?s = "s1\<lparr>arch_global_idtr := \<lparr>idtr_size = 0xFF * 16 - 1, idtr_offset = table\<rparr>, idt_gates := ?g, interrupts_enabled := True\<rparr>"
  have "?g (of_nat v) = (if v < 255 then arch_interrupts_map_vector (of_nat v) (h (of_nat v)) (\<lambda>_. zero_gate) (of_nat v) else zero_gate)"
    using fold_map_vector [of 255 v h "\<lambda>_. zero_gate"] assms(2) by simp
  then have "gate_target (?g (of_nat v)) = (if v < 255 then Some (h (of_nat v)) else None)"
    using split_word(1) [of "h (of_nat v)"] by (simp add: gate_target_def arch_interrupts_map_vector_def zero_gate_def bit_numeral_rec)
  moreover have "unat (idtr_size (arch_global_idtr ?s)) = 4079" by simp
  then have "(16 * v + 15 \<le> unat (idtr_size (arch_global_idtr ?s))) = (v < 255)" by auto
  moreover have "arch_interrupts_init h s = Inr ?s" using assms(1) by (simp add: arch_interrupts_init_def)
  ultimately show ?thesis by (intro exI [of _ ?s]) simp
qed

subsection \<open>Growing the stack\<close>

lemma table_index_page:
  assumes "12 \<le> k"
  shows "table_index k (a AND - 4096) = table_index k a"
proof -
  have "(- 4096 :: u64) = NOT (mask 12)" by (simp add: mask_eq_exp_minus_1)
  moreover have "table_index k (a AND NOT (mask 12)) = table_index k a"
    unfolding table_index_def using assms by (intro bit_word_eqI) (auto simp: bit_simps)
  ultimately show ?thesis by metis
qed

lemma vpn_page [simp]: "vpn (a AND - 4096) = vpn a"
  by (simp add: vpn_def table_index_page)

text \<open>The entries the processor reads, from the root to the page, to find where an address leads and who may use it.\<close>

definition page_entries :: "u64 \<Rightarrow> u64 \<Rightarrow> 'a page_state_scheme \<Rightarrow> u64 list" where
  "page_entries root va s =
     (let next = (\<lambda>e. arch_table_manager_get_address e + kernel_hhdm_offset s);
          e4 = memory s (root + 8 * table_index 39 va);
          e3 = memory s (next e4 + 8 * table_index 30 va);
          e2 = memory s (next e3 + 8 * table_index 21 va);
          e1 = memory s (next e2 + 8 * table_index 12 va)
      in [e4, e3, e2, e1])"

lemma or_permits:
  fixes e :: u64
  shows "entry_present e \<Longrightarrow> (e OR f) AND (f OR 1) = f OR 1" "(e OR x OR (f OR 1)) AND (f OR 1) = f OR 1"
proof -
  show "(e OR f) AND (f OR 1) = f OR 1" if "entry_present e"
  proof -
    have "bit e 0" using that by (simp add: entry_present_def and_one_eq bit_0 odd_iff_mod_2_eq_one split: if_splits)
    then show ?thesis by (intro bit_word_eqI) (auto simp: bit_simps)
  qed
  show "(e OR x OR (f OR 1)) AND (f OR 1) = f OR 1" by (intro bit_word_eqI) (auto simp: bit_simps)
qed

lemma next_layer_entry:
  assumes "arch_table_manager_allocate_next_layer l i flags s = Inr (l', s')"
  shows "arch_table_manager_get_address (memory s' (l + 8 * i)) + kernel_hhdm_offset s' = l'"
    "memory s' (l + 8 * i) AND (flags AND 0xFF OR 1) = flags AND 0xFF OR 1"
  using assms or_permits
  by (auto simp: arch_table_manager_allocate_next_layer_def Let_def split: if_splits sum.splits)

lemma write_leaf_permits:
  "memory (write_leaf l i pa flags s) (l + 8 * i) AND (flags AND 0xFF OR 1) = flags AND 0xFF OR 1"
proof -
  have "bit (0xFFF0000000000FFF :: u64) n" if "n < 8" for n
  proof -
    have "n \<in> {0, 1, 2, 3, 4, 5, 6, 7}" using that by auto
    then show ?thesis by (auto simp: bit_numeral_rec)
  qed
  moreover have "bit (0xFF :: u64) n \<Longrightarrow> n < 8" for n
    using bit_mask_iff [where 'a = "64 word", of 8 n] by (simp add: mask_eq_exp_minus_1)
  ultimately show ?thesis
    unfolding write_leaf_def Let_def by (intro bit_word_eqI) (auto simp: arch_table_manager_set_address_def bit_simps)
qed

text \<open>After a user page is mapped, every entry on the way to it grants what the flags ask for.\<close>

lemma user_map_entries:
  assumes ok: "tables_ok R T s" and r: "r \<in> R" and low: "unat (table_index 39 va) < 256" and sp: "spare 3 s"
    and m: "arch_table_manager_map r va pa flags s = Inr s'"
  shows "\<forall>e \<in> set (page_entries r va s'). e AND (flags AND 0xFF OR 1) = flags AND 0xFF OR 1"
proof -
  let ?H = "upper_half T"
  let ?a = "table_index 39 va" and ?b = "table_index 30 va" and ?c = "table_index 21 va" and ?d = "table_index 12 va"
  have ix: "unat ?a < 512" "unat ?b < 512" "unat ?c < 512" "unat ?d < 512" by (simp_all add: table_index_less)
  have P: "path_ok ([] @ [?a])" "path_ok ([?a] @ [?b])" "path_ok ([?a, ?b] @ [?c])" using ix by (simp_all add: path_ok_def)
  obtain k3 s1 where s1: "arch_table_manager_allocate_next_layer r ?a flags s = Inr (k3, s1)" "spare 2 s1" "tables_ok R T s1"
    "pt_extends R (hide ?H s) (hide ?H s1)" "pt_node (hide ?H s1) r ([] @ [?a]) = Some k3"
    by (rule user_next_layer [OF ok r P(1), of r 2 flags]) (use low sp in \<open>simp_all add: numeral_3_eq_3 numeral_2_eq_2\<close>)
  obtain k2 s2 where s2: "arch_table_manager_allocate_next_layer k3 ?b flags s1 = Inr (k2, s2)" "spare 1 s2" "tables_ok R T s2"
    "pt_extends R (hide ?H s1) (hide ?H s2)" "pt_node (hide ?H s2) r ([?a] @ [?b]) = Some k2"
    "\<And>f a. f \<in> frames s1 \<Longrightarrow> f \<le> unat a \<Longrightarrow> unat a < f + 4096 \<Longrightarrow> a \<noteq> k3 + 8 * ?b \<Longrightarrow> memory s2 a = memory s1 a"
    by (rule user_next_layer [OF s1(3) r P(2), of k3 1 flags]) (use s1 in \<open>simp_all add: numeral_2_eq_2\<close>)
  obtain k1 s3 where s3: "arch_table_manager_allocate_next_layer k2 ?c flags s2 = Inr (k1, s3)" "tables_ok R T s3"
    "pt_extends R (hide ?H s2) (hide ?H s3)" "pt_node (hide ?H s3) r ([?a, ?b] @ [?c]) = Some k1"
    "\<And>f a. f \<in> frames s2 \<Longrightarrow> f \<le> unat a \<Longrightarrow> unat a < f + 4096 \<Longrightarrow> a \<noteq> k2 + 8 * ?c \<Longrightarrow> memory s3 a = memory s2 a"
    by (rule user_next_layer [OF s2(3) r P(3), of k2 0 flags]) (use s2 in simp_all)
  have s': "s' = write_leaf k1 ?d pa flags s3" using m s1(1) s2(1) s3(1) by (simp add: arch_table_manager_map_def)
  have inv: "pt_inv R (hide ?H s1)" "pt_inv R (hide ?H s2)" "pt_inv R (hide ?H s3)" using s1(3) s2(3) s3(2) by (simp_all add: tables_ok_def)
  have nd: "pt_node (hide ?H s2) r [?a] = Some k3" "pt_node (hide ?H s3) r [?a] = Some k3" "pt_node (hide ?H s3) r [?a, ?b] = Some k2"
    using pt_extends_node [OF s2(4) r P(1) s1(5)] pt_extends_node [OF s3(3) r P(1) pt_extends_node [OF s2(4) r P(1) s1(5)]]
      pt_extends_node [OF s3(3) r P(2) s2(5)] by simp_all
  have slot: "unat (l + 8 * i) = unat l + 8 * unat i \<and> unat l \<in> frames t"
    if "tables_ok R T t" "path_ok p" "pt_node (hide ?H t) r p = Some l" "unat i < 512" for t p l i
  proof -
    have "unat l \<in> frames t"
      using pt_inv_frame [OF _ r that(2,3)] that(1) tables_page(2) [OF that(1)] by (simp add: tables_ok_def)
    then show ?thesis using pz.held_slot [OF tables_page(1) [OF that(1)]] that(4) by simp
  qed
  have p0: "path_ok []" "path_ok [?a]" "path_ok [?a, ?b]" "path_ok [?a, ?b, ?c]" using ix by (simp_all add: path_ok_def)
  note eq = pt_slot_eq [OF _ r r]
  have e4: "memory s' (r + 8 * ?a) = memory s1 (r + 8 * ?a)"
  proof -
    have "memory s2 (r + 8 * ?a) = memory s1 (r + 8 * ?a)"
      using slot [OF s1(3) p0(1) _ ix(1), of r] eq [OF inv(1) p0(1,2) _ _ ix(1,2), of r k3] s1(5) ix by (intro s2(6)) auto
    moreover have "memory s3 (r + 8 * ?a) = memory s2 (r + 8 * ?a)"
      using slot [OF s2(3) p0(1) _ ix(1), of r] eq [OF inv(2) p0(1,3) _ _ ix(1,3), of r k2] s2(5) ix by (intro s3(5)) auto
    moreover have "memory s' (r + 8 * ?a) = memory s3 (r + 8 * ?a)"
      using eq [OF inv(3) p0(1,4) _ _ ix(1,4), of r k1] s3(4) by (auto simp: s' write_leaf_def Let_def)
    ultimately show ?thesis by simp
  qed
  have e3: "memory s' (k3 + 8 * ?b) = memory s2 (k3 + 8 * ?b)"
  proof -
    have "memory s3 (k3 + 8 * ?b) = memory s2 (k3 + 8 * ?b)"
      using slot [OF s2(3) p0(2) nd(1) ix(2)] eq [OF inv(2) p0(2,3) nd(1) _ ix(2,3), of k2] s2(5) ix by (intro s3(5)) auto
    moreover have "memory s' (k3 + 8 * ?b) = memory s3 (k3 + 8 * ?b)"
      using eq [OF inv(3) p0(2,4) nd(2) _ ix(2,4), of k1] s3(4) by (auto simp: s' write_leaf_def Let_def)
    ultimately show ?thesis by simp
  qed
  have e2: "memory s' (k2 + 8 * ?c) = memory s3 (k2 + 8 * ?c)"
    using eq [OF inv(3) p0(3,4) nd(3) _ ix(3,4), of k1] s3(4) by (auto simp: s' write_leaf_def Let_def)
  have h: "kernel_hhdm_offset s' = kernel_hhdm_offset s3" "kernel_hhdm_offset s3 = kernel_hhdm_offset s2" "kernel_hhdm_offset s2 = kernel_hhdm_offset s1"
    using s2(4) s3(3) by (simp_all add: s' write_leaf_def Let_def pt_extends_def)
  note n = next_layer_entry [OF s1(1)] next_layer_entry [OF s2(1)] next_layer_entry [OF s3(1)]
  have "page_entries r va s' = [memory s1 (r + 8 * ?a), memory s2 (k3 + 8 * ?b), memory s3 (k2 + 8 * ?c), memory s' (k1 + 8 * ?d)]"
    using n(1,3,5) by (simp add: page_entries_def e4 e3 e2 h Let_def)
  then show ?thesis using n(2,4,6) write_leaf_permits [of k1 ?d pa flags s3] by (simp add: s')
qed

text \<open>
  (C20) A page fault of user code between the first page and the top of the task's stack is handled. The tables in use, of which
  some share the kernel's half, are as the kernel keeps them, and there are four pages to spare. Then the handler returns. The
  page of the faulting address leads to a page that was handed out to nobody before and is zero, and every entry the processor
  reads on the way there is present, writable and open to user code. Every other user page of this table and every user page of
  every other table leads where it did. No word of a page that was in use changes but in the layers of this table, and not in
  the kernel's half of its root. All the state beside the page allocator's - tasks, queue, heap, descriptors, registers - is the same.
\<close>

theorem page_fault_grows_stack:
  assumes "running_task task s" "root = reg_cr3 (task_state (tasks s task)) + kernel_hhdm_offset s"
    and ok: "tables_ok R T s" and r: "root \<in> R" and "spare 4 s"
    and "reg_cs st AND 3 \<noteq> 0" "0x1000 \<le> fault" "fault < virtual_stack_top (tasks s task)" "fault < 0x800000000000"
  shows "\<exists>s' page. arch_isr_handler fault st 0xE s = Inr s' \<and> tables_ok R T s' \<and>
    unat page \<in> frames s' - frames s \<and> (\<forall>j. unat j < 512 \<longrightarrow> memory s' (page + 8 * j) = 0) \<and>
    (\<forall>r \<in> R. \<forall>n < 2 ^ 35. pt_maps s' r n =
       (if r = root \<and> n = vpn fault then Some (page - kernel_hhdm_offset s) else pt_maps s r n)) \<and>
    (\<forall>e \<in> set (page_entries root fault s').
       e AND (TABLE_ENTRY_PRESENT OR TABLE_ENTRY_READ_WRITE OR TABLE_ENTRY_USER) =
         TABLE_ENTRY_PRESENT OR TABLE_ENTRY_READ_WRITE OR TABLE_ENTRY_USER) \<and>
    (\<forall>f j. unat f \<in> frames s \<longrightarrow> unat j < 512 \<longrightarrow> unat f \<notin> inner_layers T s root \<longrightarrow> f \<noteq> root \<or> 256 \<le> unat j \<longrightarrow>
       memory s' (f + 8 * j) = memory s (f + 8 * j)) \<and>
    kernel_hhdm_offset s' = kernel_hhdm_offset s \<and> page_state.more s' = page_state.more s"
proof -
  let ?h = "kernel_hhdm_offset s" and ?va = "fault AND NOT 0xFFF" and ?fl = "TABLE_ENTRY_USER OR TABLE_ENTRY_READ_WRITE"
  have pinv: "page_inv s" by (rule tables_page(1) [OF ok])
  obtain c s1 where c: "page_allocate 1 s = Inr (c, s1)" "kernel_hhdm_offset s1 = ?h" "spare 3 s1" "page_inv s1"
    "frames s1 = insert (unat c) (frames s)" "unat c \<notin> frames s" "arch_table_manager_get_address (c - ?h) = c - ?h"
    "\<And>m. \<forall>a. m a \<noteq> memory s1 a \<longrightarrow> unat c \<le> unat a \<and> unat a < unat c + 4096 \<Longrightarrow>
       same_tables R T s (s1\<lparr>memory := m\<rparr>) \<and> frames (s1\<lparr>memory := m\<rparr>) = frames s1"
    by (rule page_new [OF ok, of 3]) (use assms(5) in \<open>simp_all\<close>)
  have st: "same_tables R T s s1" using c(8) [of "memory s1"] by simp
  have ok1: "tables_ok R T s1" and keep1: "\<And>l j. unat l \<in> frames s \<Longrightarrow> unat j < 512 \<Longrightarrow> memory s1 (l + 8 * j) = memory s (l + 8 * j)"
    and maps1: "\<And>r n. r \<in> R \<Longrightarrow> n < 2 ^ 36 \<Longrightarrow> pt_maps (hide (upper_half T) s1) r n = pt_maps (hide (upper_half T) s) r n"
    using st by (simp_all add: same_tables_def)
  have tasks1: "tasks s1 = tasks s" using page_allocate_frame [OF c(1)] by (cases s; cases s1) (simp add: page_frame_def)
  have "vpn fault < 2 ^ 35" using assms(9) by (simp add: vpn_eq word_less_nat_alt)
  then have low: "unat (table_index 39 ?va) < 256" using vpn_lower_half by (simp add: table_index_page)
  obtain s' where m: "arch_table_manager_map root ?va (c - ?h) ?fl s1 = Inr s'" "tables_ok R T s'" "frames s1 \<subseteq> frames s'"
    "kernel_hhdm_offset s' = kernel_hhdm_offset s1"
    "\<And>r n. r \<in> R \<Longrightarrow> n < 2 ^ 36 \<Longrightarrow> pt_maps (hide (upper_half T) s') r n =
       (if r = root \<and> n = vpn ?va then Some (arch_table_manager_get_address (c - ?h)) else pt_maps (hide (upper_half T) s1) r n)"
    "\<And>f j. unat f \<in> frames s1 \<Longrightarrow> unat j < 512 \<Longrightarrow> unat f \<notin> inner_layers T s1 root \<Longrightarrow> f \<noteq> root \<or> 256 \<le> unat j \<Longrightarrow>
       memory s' (f + 8 * j) = memory s1 (f + 8 * j)"
    by (rule user_map [OF ok1 r low, of 0]) (use c(3) in auto)
  have inn: "inner_layers T s1 root = inner_layers T s root" "inner_layers T s root \<subseteq> frames s"
    using same_tables_inner [OF st r] inner_layers_frames [OF ok r] by simp_all
  have rf: "unat root \<in> frames s" using tables_root [OF ok r] tables_page(2) [OF ok] by simp
  have "arch_isr_handler fault st 0xE s = Inr s'"
    using assms(1,2,6-8) c(1,2) m(1) tasks1 by (simp add: arch_isr_handler_def)
  moreover have "unat c \<in> frames s' - frames s" using c(5,6) m(3) by auto
  moreover have "memory s' (c + 8 * j) = 0" if "unat j < 512" for j
    using m(6) [of c j] pz.alloc_zero_slot [OF pinv c(1) that] c(5,6) inn rf that by auto
  moreover have "pt_maps s' r n = (if r = root \<and> n = vpn fault then Some (c - ?h) else pt_maps s r n)" if "r \<in> R" "n < 2 ^ 35" for r n
    using m(5) [OF that(1), of n] maps1 [OF that(1), of n] user_maps [OF m(2) that] user_maps [OF ok that] c(7) that(2) by simp
  moreover have "\<forall>e \<in> set (page_entries root fault s'). e AND (1 OR 2 OR 4) = 1 OR 2 OR 4"
    using user_map_entries [OF ok1 r low c(3) m(1)] by (simp add: page_entries_def table_index_page)
  moreover have "memory s' (f + 8 * j) = memory s (f + 8 * j)"
    if "unat f \<in> frames s" "unat j < 512" "unat f \<notin> inner_layers T s root" "f \<noteq> root \<or> 256 \<le> unat j" for f j
    using m(6) [of f j] keep1 [OF that(1,2)] that c(5) inn by auto
  moreover have "page_state.more s' = page_state.more s"
    using map_frame [OF m(1)] page_allocate_frame [OF c(1)] by (simp add: page_frame_def)
  ultimately show ?thesis using m(2,4) c(2) by (intro exI [of _ s'] exI [of _ c]) simp
qed

text \<open>The small machine on a given memory, with a task whose stack ends at \<open>0x400000\<close>.\<close>

definition machine_on :: "'b page_state_scheme \<Rightarrow> u64 \<Rightarrow> sched_state" where
  "machine_on s r = small_machine\<lparr>memory := memory s, allocator_pools := allocator_pools s,
     page_allocator_lock := page_allocator_lock s, kernel_hhdm_offset := kernel_hhdm_offset s,
     tasks := (tasks small_machine)(0x2000 := zero_task\<lparr>virtual_stack_top := 0x400000,
       task_state := zero_cpu_state\<lparr>reg_cr3 := r - kernel_hhdm_offset s\<rparr>\<rparr>)\<rparr>"

lemma machine_on_ok:
  "pt_inv R s \<Longrightarrow> pt_inv R (machine_on s r)" "spare k s \<Longrightarrow> spare k (machine_on s r)" "running_task 0x2000 (machine_on s r)"
proof -
  show "pt_inv R (machine_on s r)" if "pt_inv R s"
    using that by (subst pt_inv_same [of _ s]) (simp_all add: machine_on_def)
  show "spare k (machine_on s r)" if "spare k s" using that by (simp add: spare_def machine_on_def)
  show "running_task 0x2000 (machine_on s r)"
    by (simp add: running_task_def context_word_def machine_on_def small_machine_def zero_task_def)
qed

theorem page_fault_grows_stack_witness:
  "\<exists>r s s' page. arch_isr_handler 0x3FFF10 (zero_cpu_state\<lparr>reg_cs := 0x23\<rparr>) 0xE (machine_on (s :: page_state) r) = Inr s' \<and>
     pt_maps s' r 0x3FF = Some (page - kernel_hhdm_offset s) \<and> memory s' (page + 8 * 3) = 0 \<and>
     page_entries r 0x3FFF10 s' ! 3 AND 4 = 4 \<and> tasks s' = tasks (machine_on s r)"
proof -
  obtain r s where s: "pt_inv {r} (s :: page_state)" "spare 31 s" using table_state_new by metis
  let ?m = "machine_on s r"
  have ok: "tables_ok {r} {} ?m" using machine_on_ok(1) [OF s(1)] by (simp add: tables_ok_def hide_def upper_half_def)
  have "spare 4 ?m" using machine_on_ok(2) [OF spare_mono [OF s(2)], of 4] by simp
  moreover have "r = reg_cr3 (task_state (tasks ?m 0x2000)) + kernel_hhdm_offset ?m"
    "virtual_stack_top (tasks ?m 0x2000) = 0x400000" and h: "kernel_hhdm_offset ?m = kernel_hhdm_offset s"
    by (simp_all add: machine_on_def)
  ultimately obtain s' page where c: "arch_isr_handler 0x3FFF10 (zero_cpu_state\<lparr>reg_cs := 0x23\<rparr>) 0xE ?m = Inr s'"
    "\<forall>j. unat j < 512 \<longrightarrow> memory s' (page + 8 * j) = 0"
    "\<forall>r' \<in> {r}. \<forall>n < 2 ^ 35. pt_maps s' r' n =
       (if r' = r \<and> n = vpn 0x3FFF10 then Some (page - kernel_hhdm_offset ?m) else pt_maps ?m r' n)"
    "\<forall>e \<in> set (page_entries r 0x3FFF10 s'). e AND (1 OR 2 OR 4) = 1 OR 2 OR 4"
    "page_state.more s' = page_state.more ?m"
    using page_fault_grows_stack [where st = "zero_cpu_state\<lparr>reg_cs := 0x23\<rparr>" and fault = "0x3FFF10" and root = r,
      OF machine_on_ok(3) _ ok] by auto
  have "page_entries r 0x3FFF10 s' ! 3 AND 7 = 7" using c(4) by (simp add: page_entries_def Let_def)
  then have "(page_entries r 0x3FFF10 s' ! 3 AND 7) AND 4 = 4" by simp
  then have "page_entries r 0x3FFF10 s' ! 3 AND 4 = 4" by (simp add: and.assoc)
  moreover have "tasks s' = tasks ?m" using c(5) by (cases s') (simp add: machine_on_def small_machine_def)
  moreover have "vpn 0x3FFF10 = 0x3FF" by (simp add: vpn_eq)
  then have "pt_maps s' r 0x3FF = Some (page - kernel_hhdm_offset s)" using c(3) h by simp
  moreover have "memory s' (page + 8 * 3) = 0" using c(2) [rule_format, of 3] by simp
  ultimately show ?thesis using c(1) by (intro exI [of _ r] exI [of _ s] exI [of _ s'] exI [of _ page]) simp
qed

theorem idt_dispatches_witness:
  "\<exists>s s'. arch_interrupts_init (\<lambda>v. 0xFFFF800000000000 + 16 * v) (s :: int_state) = Inr s' \<and>
     gate_target (idt_gates s' 14) = Some 0xFFFF8000000000E0"
proof -
  obtain r s where s: "pt_inv {r} (s :: page_state)" "spare 31 s" using table_state_new by metis
  define t where "t = sched_state.extend (machine_on s r)
    (int_state.fields (\<lambda>_. zero_gate) \<lparr>idtr_size = 0, idtr_offset = 0\<rparr> 0x20)"
  have "page_inv t"
  proof -
    have "pt_inv {r} t"
      using s(1) by (subst pt_inv_same [of _ s]) (simp_all add: t_def machine_on_def small_machine_def sched_state.defs)
    then show ?thesis by (rule pt_inv_page)
  qed
  moreover have "spare (Suc 30) t"
    using s(2) by (simp add: spare_def t_def machine_on_def small_machine_def sched_state.defs)
  ultimately obtain p t1 where "page_allocate 1 t = Inr (p, t1)" using page_allocate_spare by blast
  from idt_dispatches [OF this, of 14 "\<lambda>v. 0xFFFF800000000000 + 16 * v"]
  have "\<exists>s'. arch_interrupts_init (\<lambda>v. 0xFFFF800000000000 + 16 * v) t = Inr s' \<and>
     gate_target (idt_gates s' 14) = Some 0xFFFF8000000000E0" by auto
  then show ?thesis by blast
qed

end
