(* ===== verification/Clock.thy ===== *)
theory Clock
  imports GaOS_Prelude
begin

text \<open>
  The registry of time sources, \<open>kernel/src/clock/clock.c\<close>: one source is the system timer, one the timer
  of preemption. Callbacks are addresses.
\<close>

record clock_time_source =
  source_name :: u64
  time_keeping_capable :: bool
  ticks_per_second :: u64
  read_nanoseconds :: u64
  sleep_nanoseconds :: u64
  one_shot_capable :: bool
  schedule_one_shot :: u64
  interrupt_now :: u64

definition no_source :: clock_time_source where
  "no_source = \<lparr>source_name = 0, time_keeping_capable = False, ticks_per_second = 0, read_nanoseconds = 0,
     sleep_nanoseconds = 0, one_shot_capable = False, schedule_one_shot = 0, interrupt_now = 0\<rparr>"

record clock_state =
  clock_system_timer :: clock_time_source
  clock_preemption_timer :: clock_time_source

definition clock_register_time_source :: "clock_time_source \<Rightarrow> 'a clock_state_scheme \<Rightarrow> 'a clock_state_scheme" where
  "clock_register_time_source time_source s =
     (let s = (if one_shot_capable time_source \<and> ticks_per_second time_source > ticks_per_second (clock_preemption_timer s)
               then s\<lparr>clock_preemption_timer := time_source\<rparr> else s)
      in if time_keeping_capable time_source \<and> ticks_per_second time_source > ticks_per_second (clock_system_timer s)
         then s\<lparr>clock_system_timer := time_source\<rparr> else s)"

text \<open>A register that keeps the best of what it has seen: the reference both timers follow.\<close>

fun best :: "('a \<Rightarrow> bool) \<Rightarrow> ('a \<Rightarrow> u64) \<Rightarrow> 'a \<Rightarrow> 'a list \<Rightarrow> 'a" where
  "best P f b [] = b"
| "best P f b (x # xs) = best P f (if P x \<and> f x > f b then x else b) xs"

lemma best_cases:
  "(best P f b xs = b \<or> best P f b xs \<in> set xs \<and> P (best P f b xs) \<and> f (best P f b xs) > f b) \<and>
   f b \<le> f (best P f b xs) \<and> (\<forall>x \<in> set xs. P x \<longrightarrow> f x \<le> f (best P f b xs))"
proof (induction xs arbitrary: b)
  case (Cons x xs)
  let ?b = "if P x \<and> f x > f b then x else b"
  note IH = Cons [of ?b]
  have le: "f b \<le> f ?b" "P x \<Longrightarrow> f x \<le> f ?b" by (auto simp: not_less)
  show ?case using IH le by (auto split: if_splits dest: le_less_trans intro: order_trans)
qed simp

lemma fold_register:
  "clock_preemption_timer (fold clock_register_time_source xs s) =
     best one_shot_capable ticks_per_second (clock_preemption_timer s) xs"
  "clock_system_timer (fold clock_register_time_source xs s) =
     best time_keeping_capable ticks_per_second (clock_system_timer s) xs"
  by (induction xs arbitrary: s) (auto simp: clock_register_time_source_def Let_def)

text \<open>
  Whatever time sources register and in whatever order, the preemption timer ends up a one-shot capable
  and the system timer a time keeping one, each with at least as many ticks per second as any other
  capable source; a timer stays unset only when no capable source ticks at all.
\<close>

theorem clock_selects_finest:
  fixes xs
  defines "s \<equiv> fold clock_register_time_source xs \<lparr>clock_system_timer = no_source, clock_preemption_timer = no_source\<rparr>"
  shows "(clock_preemption_timer s = no_source \<and> {x \<in> set xs. one_shot_capable x \<and> ticks_per_second x > 0} = {} \<or>
      clock_preemption_timer s \<in> set xs \<and> one_shot_capable (clock_preemption_timer s) \<and>
      {x \<in> set xs. one_shot_capable x \<and> ticks_per_second x > ticks_per_second (clock_preemption_timer s)} = {}) \<and>
    (clock_system_timer s = no_source \<and> {x \<in> set xs. time_keeping_capable x \<and> ticks_per_second x > 0} = {} \<or>
      clock_system_timer s \<in> set xs \<and> time_keeping_capable (clock_system_timer s) \<and>
      {x \<in> set xs. time_keeping_capable x \<and> ticks_per_second x > ticks_per_second (clock_system_timer s)} = {})"
proof -
  have t: "ticks_per_second no_source = 0" by (simp add: no_source_def)
  show ?thesis unfolding s_def fold_register clock_state.simps
    using best_cases [of one_shot_capable ticks_per_second no_source xs]
      best_cases [of time_keeping_capable ticks_per_second no_source xs] t
    by (auto simp: not_less [symmetric])
qed

end
