(* ===== verification/Framebuffer.thy ===== *)
theory Framebuffer
  imports Devices
begin

text \<open>
  The text console on the framebuffer and the device \<open>/dev/fb0\<close>
  (\<open>kernel/src/devices/framebuffer/framebuffer.c\<close>, \<open>framebuffer.h\<close>).

  The font is a file linked into the kernel image: \<open>kfont\<close>, the list of its bytes, is an argument, and \<open>font_glyphs\<close> is an
  offset into it. Reading outside the file is an access outside the array. What the boot loader reports about the screen is an
  argument of the initialisation. Pixels are bytes of \<open>heap_bytes\<close>.
\<close>

subsection \<open>State\<close>

record framebuffer_t =
  fb_base :: u64
  fb_width :: u64
  fb_height :: u64
  fb_pitch :: u64
  fb_bpp :: u64

record cursor_t =
  cursor_x :: u64
  cursor_y :: u64
  cursor_colour :: u32

record fb_state = dev_state +
  framebuffer_available :: bool
  main_framebuffer :: framebuffer_t
  main_cursor :: cursor_t
  font_glyphs :: u64
  framebuffer_spinlock :: u64

type_synonym psf_font = "u8 list"

definition font_byte :: "psf_font \<Rightarrow> u64 \<Rightarrow> u8 res" where
  "font_byte kfont a = (if unat a < length kfont then Inr (kfont ! unat a) else Inl Out_Of_Bounds)"

text \<open>
  The fields of \<open>psf2_header_t\<close> that the code reads; \<open>framebuffer_init\<close>, which comes first, fails when the file is shorter than
  the header. \<open>length\<close>, the number of glyphs, is never read.
\<close>

abbreviation (input) PSF2_HEADER_SIZE :: nat where "PSF2_HEADER_SIZE \<equiv> 32"

definition font_field :: "psf_font \<Rightarrow> u64 \<Rightarrow> u32" where
  "font_field kfont p = ucast (load_le (\<lambda>a. if unat a < length kfont then kfont ! unat a else 0) p 4)"

definition font_header_size :: "psf_font \<Rightarrow> u32" where "font_header_size kfont = font_field kfont 8"
definition font_length :: "psf_font \<Rightarrow> u32" where "font_length kfont = font_field kfont 16"
definition font_glyph_size :: "psf_font \<Rightarrow> u32" where "font_glyph_size kfont = font_field kfont 20"
definition font_height :: "psf_font \<Rightarrow> u32" where "font_height kfont = font_field kfont 24"
definition font_width :: "psf_font \<Rightarrow> u32" where "font_width kfont = font_field kfont 28"

definition PSF2_MAGIC :: "u8 list" where "PSF2_MAGIC = [0x72, 0xB5, 0x4A, 0x86]"

definition store32 :: "mem8 \<Rightarrow> u64 \<Rightarrow> u32 \<Rightarrow> mem8" where
  "store32 m p v = fold (\<lambda>i m. m(p + of_nat i := ucast (drop_bit (8 * i) v))) [0..<4] m"

subsection \<open>Drawing\<close>

definition framebuffer_plot_pixel :: "framebuffer_t \<Rightarrow> u64 \<Rightarrow> u64 \<Rightarrow> u32 \<Rightarrow> mem8 \<Rightarrow> mem8" where
  "framebuffer_plot_pixel f x y colour m =
     (let line = fb_base f + y * fb_pitch f in store32 m (line + x * 4) colour)"

text \<open>
  Is a pixel of a glyph set? The character is a signed \<open>char\<close>; the product with the glyph size is
  taken in 32 bits, and so is the start of a line of the glyph, whose length is kept in a byte.
\<close>

definition glyph_bit :: "psf_font \<Rightarrow> u64 \<Rightarrow> u8 \<Rightarrow> u32 \<Rightarrow> u32 \<Rightarrow> bool res" where
  "glyph_bit kfont glyphs c xx yy =
     (let character = glyphs + ucast (scast c * font_glyph_size kfont :: u32);
          line_pitch = ucast (font_glyph_size kfont div font_height kfont) :: u8
      in map_sum id (\<lambda>b. b AND drop_bit (unat (xx mod 8)) 0x80 \<noteq> 0)
           (font_byte kfont (character + (ucast (yy * ucast line_pitch) + ucast xx div 8))))"

definition plot_line :: "psf_font \<Rightarrow> u64 \<Rightarrow> framebuffer_t \<Rightarrow> u8 \<Rightarrow> u64 \<Rightarrow> u64 \<Rightarrow> u32 \<Rightarrow> u32 \<Rightarrow> mem8 \<Rightarrow> mem8 res" where
  "plot_line kfont glyphs f c x y colour yy m =
     for_range (\<lambda>xx m. case glyph_bit kfont glyphs c (of_nat xx) yy of
                  Inl e \<Rightarrow> Inl e
                | Inr lit \<Rightarrow> Inr (if lit then framebuffer_plot_pixel f (x + of_nat xx) (y + ucast yy) colour m else m))
       [0..<unat (font_width kfont)] m"

definition framebuffer_plot_character ::
  "psf_font \<Rightarrow> u8 \<Rightarrow> u64 \<Rightarrow> u64 \<Rightarrow> u32 \<Rightarrow> 'a fb_state_scheme \<Rightarrow> 'a fb_state_scheme res" where
  "framebuffer_plot_character kfont c x y colour s =
     (if \<not> framebuffer_available s then Inr s
      else if font_height kfont = 0 then Inl (Panic ''division by zero'')
      else case for_range (\<lambda>yy. plot_line kfont (font_glyphs s) (main_framebuffer s) c x y colour (of_nat yy))
                  [0..<unat (font_height kfont)] (heap_bytes s) of
             Inl e \<Rightarrow> Inl e
           | Inr m \<Rightarrow> Inr (s\<lparr>heap_bytes := m\<rparr>))"

subsection \<open>The console\<close>

abbreviation (input) NEWLINE :: u8 where "NEWLINE \<equiv> 0x0A"

definition framebuffer_write_character ::
  "psf_font \<Rightarrow> u8 \<Rightarrow> 'a fb_state_scheme \<Rightarrow> 'a fb_state_scheme res" where
  "framebuffer_write_character kfont c s =
     (if \<not> framebuffer_available s then Inr s
      else case spinlock_acquire (framebuffer_spinlock s) of
        Inl e \<Rightarrow> Inl e
      | Inr lock \<Rightarrow>
     let f = main_framebuffer s;
         width = ucast (font_width kfont) :: u64;
         height = ucast (font_height kfont) :: u64;
         s = (if cursor_x (main_cursor s) + width \<ge> fb_width f \<or> c = NEWLINE
              then s\<lparr>main_cursor := (main_cursor s)\<lparr>cursor_y := cursor_y (main_cursor s) + height, cursor_x := 0\<rparr>\<rparr>
              else s)
     in if c = NEWLINE then Inr (s\<lparr>framebuffer_spinlock := spinlock_release lock\<rparr>)
        else let s = (if cursor_y (main_cursor s) + height \<ge> fb_height f
                      then s\<lparr>main_cursor := (main_cursor s)\<lparr>cursor_y := 0, cursor_x := 0\<rparr>,
                             heap_bytes := memset8 (heap_bytes s) (fb_base f) 0 (fb_height f * fb_pitch f div PAGE * PAGE)\<rparr>
                      else s);
                 k = main_cursor s
             in (case framebuffer_plot_character kfont c (cursor_x k) (cursor_y k) (cursor_colour k) s of
                   Inl e \<Rightarrow> Inl e
                 | Inr s \<Rightarrow> Inr (s\<lparr>main_cursor := k\<lparr>cursor_x := cursor_x k + width\<rparr>,
                                    framebuffer_spinlock := spinlock_release lock\<rparr>)))"

text \<open>A string is written character by character, up to its terminating zero.\<close>

partial_function (option) framebuffer_write_string ::
  "psf_font \<Rightarrow> u64 \<Rightarrow> 'a fb_state_scheme \<Rightarrow> 'a fb_state_scheme res option" where
  "framebuffer_write_string kfont string s =
     (if heap_bytes s string = 0 then Some (Inr s)
      else (case framebuffer_write_character kfont (heap_bytes s string) s of
              Inl e \<Rightarrow> Some (Inl e)
            | Inr s \<Rightarrow> framebuffer_write_string kfont (string + 1) s))"

subsection \<open>Initialisation\<close>

definition framebuffer_generate_structure_from_limine :: "framebuffer_t list option \<Rightarrow> framebuffer_t option" where
  "framebuffer_generate_structure_from_limine response =
     (case response of Some (fb # _) \<Rightarrow> Some fb | _ \<Rightarrow> None)"

definition framebuffer_init ::
  "psf_font \<Rightarrow> framebuffer_t list option \<Rightarrow> 'a fb_state_scheme \<Rightarrow> 'a fb_state_scheme res" where
  "framebuffer_init kfont response s =
     (case framebuffer_generate_structure_from_limine response of
        None \<Rightarrow> Inr s
      | Some f \<Rightarrow>
     let s = s\<lparr>main_framebuffer := f\<rparr>
     in if fb_bpp f \<noteq> 32 then Inr s
        else if length kfont < PSF2_HEADER_SIZE then Inl Out_Of_Bounds
        else let s = s\<lparr>font_glyphs := ucast (font_header_size kfont)\<rparr>
             in if take 4 kfont \<noteq> PSF2_MAGIC then Inr s
                else Inr (s\<lparr>main_cursor := \<lparr>cursor_x = 0, cursor_y = 0, cursor_colour = 0xFFFFFF\<rparr>,
                            framebuffer_available := True\<rparr>))"

subsection \<open>The device\<close>

definition framebuffer_read :: "u64 \<Rightarrow> u64 \<Rightarrow> u64 \<Rightarrow> 'a fb_state_scheme \<Rightarrow> (u64 \<times> 'a fb_state_scheme) res" where
  "framebuffer_read node buffer n s =
     (let pos = seek_position (nodes s node)
      in Inr (n, s\<lparr>heap_bytes := memcpy (heap_bytes s) buffer (fb_base (main_framebuffer s) + pos) n,
                   nodes := (nodes s)(node := (nodes s node)\<lparr>seek_position := pos + n\<rparr>)\<rparr>))"

definition framebuffer_write :: "u64 \<Rightarrow> u64 \<Rightarrow> u64 \<Rightarrow> 'a fb_state_scheme \<Rightarrow> (u64 \<times> 'a fb_state_scheme) res" where
  "framebuffer_write node buffer n s =
     (let nd = nodes s node;
          pos = (if seek_position nd + n > max_seek_position nd then max_seek_position nd - n else seek_position nd)
      in Inr (n, s\<lparr>heap_bytes := memcpy (heap_bytes s) (fb_base (main_framebuffer s) + pos) buffer n,
                   nodes := (nodes s)(node := nd\<lparr>seek_position := pos + n\<rparr>)\<rparr>))"

definition framebuffer_initialise_node :: "u64 \<Rightarrow> 'a fb_state_scheme \<Rightarrow> 'a fb_state_scheme res" where
  "framebuffer_initialise_node node s =
     Inr (s\<lparr>nodes := (nodes s)(node := (nodes s node)\<lparr>max_seek_position :=
            fb_pitch (main_framebuffer s) * fb_height (main_framebuffer s) - 1\<rparr>)\<rparr>)"

text \<open>\<open>path\<close> is the address of the string \<open>"/fb0"\<close>; the callbacks are the addresses of the three functions.\<close>

definition framebuffer_create_device ::
  "nat \<Rightarrow> u64 \<Rightarrow> u64 \<Rightarrow> u64 \<Rightarrow> u64 \<Rightarrow> u64 \<Rightarrow> 'a fb_state_scheme \<Rightarrow> 'a fb_state_scheme res" where
  "framebuffer_create_device fuel dot path initialise_node read write s =
     (if \<not> framebuffer_available s then Inr s
      else map_sum id snd (device_create_at fuel dot path framebuffer initialise_node read write s))"

end
