(* ===== verification/Framebuffer_Correct.thy ===== *)
theory Framebuffer_Correct
  imports Framebuffer Vfs_Correct
begin

text \<open>
  The console as a terminal of pixels: every character is a change of the abstract screen, and no byte
  outside the framebuffer is written. The same bound for writes to \<open>/dev/fb0\<close>, with its exception.
\<close>

subsection \<open>Pixels\<close>

text \<open>A screen whose lines hold their pixels and that lies in the address space.\<close>

definition screen_ok :: "framebuffer_t \<Rightarrow> bool" where
  "screen_ok f \<longleftrightarrow> 4 * unat (fb_width f) \<le> unat (fb_pitch f) \<and> 4 dvd unat (fb_pitch f) \<and>
     unat (fb_pitch f) * unat (fb_height f) < 2 ^ 64"

definition fb_bytes :: "framebuffer_t \<Rightarrow> nat" where
  "fb_bytes f = unat (fb_pitch f) * unat (fb_height f)"

definition pixel_offset :: "framebuffer_t \<Rightarrow> nat \<Rightarrow> nat \<Rightarrow> nat" where
  "pixel_offset f x y = unat (fb_pitch f) * y + 4 * x"

definition pixel_at :: "framebuffer_t \<Rightarrow> mem8 \<Rightarrow> nat \<Rightarrow> nat \<Rightarrow> u8 list" where
  "pixel_at f m x y = bytes_at m (fb_base f + of_nat (pixel_offset f x y)) 4"

definition off_screen :: "framebuffer_t \<Rightarrow> u64 \<Rightarrow> bool" where
  "off_screen f a \<longleftrightarrow> fb_bytes f \<le> unat (a - fb_base f)"

definition on_screen :: "framebuffer_t \<Rightarrow> nat \<Rightarrow> nat \<Rightarrow> bool" where
  "on_screen f x y \<longleftrightarrow> x < unat (fb_width f) \<and> y < unat (fb_height f)"

definition colour_bytes :: "u32 \<Rightarrow> u8 list" where
  "colour_bytes v = map (\<lambda>i. ucast (drop_bit (8 * i) v)) [0..<4]"

lemma colour_bytes_length [simp]: "length (colour_bytes v) = 4"
  by (simp add: colour_bytes_def)

lemma store32_put: "store32 m p v = put_bytes m p (colour_bytes v)"
proof -
  have "fold (\<lambda>i m. m(p + of_nat i := ucast (drop_bit (8 * i) v))) [0..<n] m =
      put_bytes m p (map (\<lambda>i. ucast (drop_bit (8 * i) v)) [0..<n])" if "n \<le> 4" for n
    using that
  proof (induction n)
    case (Suc n)
    have "(put_bytes m p (map (\<lambda>i. ucast (drop_bit (8 * i) v)) [0..<n]))(p + of_nat n := ucast (drop_bit (8 * n) v)) =
        put_bytes m p (map (\<lambda>i. ucast (drop_bit (8 * i) v)) [0..<n] @ [ucast (drop_bit (8 * n) v)])"
      using put_bytes_snoc [of "map (\<lambda>i. ucast (drop_bit (8 * i) v)) [0..<n]" m p "ucast (drop_bit (8 * n) v)"] Suc by simp
    then show ?case using Suc by (simp del: fun_upd_apply)
  qed simp
  then show ?thesis by (simp add: store32_def colour_bytes_def)
qed

lemma pixel_offset_bound:
  assumes "screen_ok f" "on_screen f x y"
  shows "pixel_offset f x y + 4 \<le> fb_bytes f"
proof -
  have "4 * x + 4 \<le> unat (fb_pitch f)" using assms by (simp add: screen_ok_def on_screen_def)
  moreover have "unat (fb_pitch f) * Suc y \<le> unat (fb_pitch f) * unat (fb_height f)"
    using assms(2) by (intro mult_le_mono2) (simp add: on_screen_def)
  ultimately show ?thesis by (simp add: fb_bytes_def pixel_offset_def)
qed

lemma pixels_apart:
  assumes "screen_ok f" "on_screen f x y" "on_screen f x' y'" "(x, y) \<noteq> (x', y')"
  shows "pixel_offset f x y + 4 \<le> pixel_offset f x' y' \<or> pixel_offset f x' y' + 4 \<le> pixel_offset f x y"
proof -
  let ?p = "unat (fb_pitch f)"
  have row: "?p * y + ?p \<le> ?p * y'" if "y < y'" for y y' :: nat
    using mult_le_mono2 [of "Suc y" y' ?p] that by simp
  have w: "4 * x + 4 \<le> ?p" "4 * x' + 4 \<le> ?p" using assms(1-3) by (simp_all add: screen_ok_def on_screen_def)
  consider "y < y'" | "y' < y" | "y = y'" "x < x'" | "y = y'" "x' < x" using assms(4) by fastforce
  then show ?thesis using w row [of y y'] row [of y' y] by cases (auto simp: pixel_offset_def)
qed

lemma plot_pixel_put:
  "framebuffer_plot_pixel f (of_nat x) (of_nat y) c m = put_bytes m (fb_base f + of_nat (pixel_offset f x y)) (colour_bytes c)"
proof -
  have "fb_base f + of_nat y * fb_pitch f + of_nat x * 4 = fb_base f + of_nat (pixel_offset f x y)"
    by (simp add: pixel_offset_def algebra_simps)
  then show ?thesis unfolding framebuffer_plot_pixel_def Let_def store32_put by (simp only:)
qed

text \<open>Two memories differ by pixels painted in one colour, and by nothing off the screen.\<close>

definition painted :: "framebuffer_t \<Rightarrow> (nat \<times> nat) set \<Rightarrow> u32 \<Rightarrow> mem8 \<Rightarrow> mem8 \<Rightarrow> bool" where
  "painted f S c m m' \<longleftrightarrow>
     (\<forall>x y. on_screen f x y \<longrightarrow> pixel_at f m' x y = (if (x, y) \<in> S then colour_bytes c else pixel_at f m x y)) \<and>
     (\<forall>a. off_screen f a \<longrightarrow> m' a = m a)"

lemma painted_refl: "painted f {} c m m"
  by (simp add: painted_def)

lemma painted_trans: "painted f S c m m1 \<Longrightarrow> painted f T c m1 m2 \<Longrightarrow> painted f (S \<union> T) c m m2"
  by (auto simp: painted_def)

lemma put_bytes_offset:
  assumes "i < 2 ^ 64" "j + length bs < 2 ^ 64" "i < j \<or> j + length bs \<le> i"
  shows "put_bytes m (p + of_nat j) bs (p + of_nat i :: u64) = m (p + of_nat i)"
proof (rule put_bytes_other)
  have "unat (of_nat i - of_nat j :: u64) \<ge> length bs"
    using assms unat_minus_exact [of "of_nat j" "of_nat i"] unat_minus_wrap [of "of_nat i" "of_nat j"]
    by (auto simp: unat_of_nat_exact)
  then show "length bs \<le> unat (p + of_nat i - (p + of_nat j))" by simp
qed

lemma painted_pixel:
  assumes ok: "screen_ok f" and xy: "on_screen f x y"
  shows "painted f {(x, y)} c m (framebuffer_plot_pixel f (of_nat x) (of_nat y) c m)"
  unfolding painted_def plot_pixel_put
proof (intro conjI allI impI)
  let ?o = "pixel_offset f x y" and ?b = "fb_base f"
  let ?m = "put_bytes m (?b + of_nat ?o) (colour_bytes c)"
  have le: "?o + 4 \<le> fb_bytes f" "fb_bytes f < 2 ^ 64" using pixel_offset_bound [OF assms] ok by (simp_all add: screen_ok_def fb_bytes_def)
  have other: "?m (?b + of_nat i) = m (?b + of_nat i)" if "i < 2 ^ 64" "i < ?o \<or> ?o + 4 \<le> i" for i
    using put_bytes_offset [of i ?o "colour_bytes c" m ?b] that le by simp
  fix x' y' assume x'y': "on_screen f x' y'"
  show "pixel_at f ?m x' y' = (if (x', y') \<in> {(x, y)} then colour_bytes c else pixel_at f m x' y')"
  proof (cases "(x', y') = (x, y)")
    case True
    then show ?thesis using bytes_at_put_bytes [of "colour_bytes c" 4 m "?b + of_nat ?o"] by (simp add: pixel_at_def)
  next
    case False
    have "bytes_at ?m (?b + of_nat (pixel_offset f x' y')) 4 = bytes_at m (?b + of_nat (pixel_offset f x' y')) 4"
    proof (rule nth_equalityI)
      fix i assume "i < length (bytes_at ?m (?b + of_nat (pixel_offset f x' y')) 4)"
      then have i: "i < 4" by simp
      have "?m (?b + of_nat (pixel_offset f x' y' + i)) = m (?b + of_nat (pixel_offset f x' y' + i))"
        using other [of "pixel_offset f x' y' + i"] pixels_apart [OF ok x'y' xy] False i
          pixel_offset_bound [OF ok x'y'] le by auto
      then show "bytes_at ?m (?b + of_nat (pixel_offset f x' y')) 4 ! i = bytes_at m (?b + of_nat (pixel_offset f x' y')) 4 ! i"
        using i by (simp add: add.assoc)
    qed simp
    then show ?thesis using False by (auto simp: pixel_at_def)
  qed
next
  let ?o = "pixel_offset f x y" and ?b = "fb_base f"
  have le: "?o + 4 \<le> fb_bytes f" "fb_bytes f < 2 ^ 64" using pixel_offset_bound [OF assms] ok by (simp_all add: screen_ok_def fb_bytes_def)
  fix a assume a: "off_screen f a"
  have "put_bytes m (?b + of_nat ?o) (colour_bytes c) (?b + of_nat (unat (a - ?b))) = m (?b + of_nat (unat (a - ?b)))"
    using put_bytes_offset [of "unat (a - ?b)" ?o "colour_bytes c" m ?b] a le unat_less_2p64 [of "a - ?b"]
    by (simp add: off_screen_def)
  then show "put_bytes m (?b + of_nat ?o) (colour_bytes c) a = m a" by simp
qed

lemma painted_range:
  assumes "\<And>i m. i < n \<Longrightarrow> \<exists>m'. g i m = Inr m' \<and> painted f (S i) c m m'"
  shows "\<exists>m'. for_range g [0..<n] m = Inr m' \<and> painted f (\<Union>i<n. S i) c m m'"
proof (rule for_range_inv [of 0 n "\<lambda>i m'. painted f (\<Union>j<i. S j) c m m'"])
  fix i m1 assume i: "i < n" "painted f (\<Union>j<i. S j) c m m1"
  from assms [OF i(1)] obtain m2 where "g i m1 = Inr m2" "painted f (S i) c m1 m2" by blast
  moreover from painted_trans [OF i(2) this(2)] have "painted f (\<Union>j<Suc i. S j) c m m2" by (simp add: lessThan_Suc Un_commute)
  ultimately show "\<exists>m'. g i m1 = Inr m' \<and> painted f (\<Union>j<Suc i. S j) c m m'" by blast
qed (simp_all add: painted_refl)

subsection \<open>Glyphs\<close>

text \<open>
  The file format of the font: behind the header lie the glyphs, all of one size, one for each code. A glyph is a sequence of rows from
  top to bottom, a row a whole number of bytes, and the leftmost pixel of a byte is its highest bit.
\<close>

definition psf_glyph :: "psf_font \<Rightarrow> u8 \<Rightarrow> u8 list" where
  "psf_glyph kfont c =
     take (unat (font_glyph_size kfont)) (drop (unat (font_header_size kfont) + unat c * unat (font_glyph_size kfont)) kfont)"

definition psf_row :: "psf_font \<Rightarrow> nat" where
  "psf_row kfont = (unat (font_width kfont) + 7) div 8"

definition glyph_shows :: "psf_font \<Rightarrow> u8 \<Rightarrow> nat \<Rightarrow> nat \<Rightarrow> bool" where
  "glyph_shows kfont c xx yy \<longleftrightarrow> bit (psf_glyph kfont c ! (yy * psf_row kfont + xx div 8)) (7 - xx mod 8)"

text \<open>A well-formed font with the glyphs of ASCII at least.\<close>

definition psf_ok :: "psf_font \<Rightarrow> bool" where
  "psf_ok kfont \<longleftrightarrow> PSF2_HEADER_SIZE \<le> length kfont \<and> length kfont < 2 ^ 31 \<and> font_height kfont \<noteq> 0 \<and>
     unat (font_glyph_size kfont) = unat (font_height kfont) * psf_row kfont \<and> psf_row kfont < 256 \<and> 128 \<le> unat (font_length kfont) \<and>
     unat (font_header_size kfont) + unat (font_length kfont) * unat (font_glyph_size kfont) \<le> length kfont"

lemma psf_glyph_in_file:
  assumes "psf_ok kfont" "n \<le> 128"
  shows "unat (font_header_size kfont) + n * unat (font_glyph_size kfont) \<le> length kfont"
proof -
  have f: "128 \<le> unat (font_length kfont)"
    "unat (font_header_size kfont) + unat (font_length kfont) * unat (font_glyph_size kfont) \<le> length kfont"
    using assms(1) unfolding psf_ok_def by blast+
  have "n * unat (font_glyph_size kfont) \<le> unat (font_length kfont) * unat (font_glyph_size kfont)"
    using assms(2) f(1) by (intro mult_le_mono1) simp
  then show ?thesis using f(2) by linarith
qed

lemma highest_bit:
  assumes "k < 8"
  shows "(b :: u8) AND drop_bit k 0x80 \<noteq> 0 \<longleftrightarrow> bit b (7 - k)"
proof -
  have "k \<in> {0, 1, 2, 3, 4, 5, 6, 7}" using assms by auto
  then have d: "drop_bit k (0x80 :: u8) = 2 ^ (7 - k)" by (auto simp: drop_bit_eq_div)
  have "7 - k < LENGTH(8)" by simp
  then have "bit (2 ^ (7 - k) :: u8) n \<longleftrightarrow> n = 7 - k" for n by (auto simp: bit_exp_iff possible_bit_word)
  then have "bit (b AND 2 ^ (7 - k)) n \<longleftrightarrow> n = 7 - k \<and> bit b (7 - k)" for n by (auto simp: bit_and_iff)
  then show ?thesis unfolding d by (metis bit_0_eq bot_apply bot_bool_def bit_eqI)
qed

text \<open>The code finds the pixel in the file: the products it takes in 32 bits and the pitch it keeps in a byte lose nothing.\<close>

lemma glyph_bit_shows:
  assumes font: "psf_ok kfont" and c: "c < 0x80" and xx: "xx < unat (font_width kfont)" and yy: "yy < unat (font_height kfont)"
  shows "glyph_bit kfont (ucast (font_header_size kfont)) c (of_nat xx) (of_nat yy) = Inr (glyph_shows kfont c xx yy)"
proof -
  let ?gs = "unat (font_glyph_size kfont)" and ?h = "unat (font_height kfont)" and ?H = "unat (font_header_size kfont)" and ?r = "psf_row kfont"
  have f: "length kfont < 2 ^ 31" "?gs = ?h * ?r" "?r < 256" "font_height kfont \<noteq> 0" using font by (simp_all add: psf_ok_def)
  have c7: "unat c < 128" using c by (simp add: word_less_nat_alt)
  then have glyph: "?H + (unat c + 1) * ?gs \<le> length kfont" using psf_glyph_in_file [OF font, of "unat c + 1"] by simp
  have sc: "(scast c :: u32) = ucast c"
  proof -
    have "bit c 7 \<longleftrightarrow> bit (unat c) 7" by (simp add: bit_unsigned_iff)
    then have "\<not> bit c 7" using c7 by (simp add: bit_iff_odd)
    then show ?thesis by (intro bit_word_eqI) (auto simp: bit_simps min_def dest: bit_imp_le_length dest!: le_neq_implies_less)
  qed
  have u1: "unat (scast c * font_glyph_size kfont :: u32) = unat c * ?gs"
    unfolding sc using glyph f(1) c7 by (subst unat_word_ariths) (simp add: unsigned_ucast_eq take_bit_eq_mod)
  have hp: "0 < ?h" using f(4) by (simp add: unat_gt_0)
  have u2: "unat (ucast (font_glyph_size kfont div font_height kfont) :: u8) = ?r"
    using f(2,3) hp by (simp add: unsigned_ucast_eq take_bit_eq_mod unat_div)
  have row: "yy * ?r + xx div 8 < ?gs"
  proof -
    have "xx div 8 < ?r" using xx unfolding psf_row_def by linarith
    moreover have "(yy + 1) * ?r \<le> ?h * ?r" using yy by (intro mult_le_mono1) simp
    ultimately show ?thesis using f(2) by simp
  qed
  have small: "?H + unat c * ?gs + (yy * ?r + xx div 8) < length kfont" using glyph row by simp
  have y: "unat (of_nat yy :: u32) = yy" "unat (of_nat xx :: u32) = xx"
    using yy xx unat_less_2p32 [of "font_height kfont"] unat_less_2p32 [of "font_width kfont"]
    by (simp_all add: unat_of_nat take_bit_eq_mod)
  let ?lp = "ucast (font_glyph_size kfont div font_height kfont) :: u8"
  have a1: "unat (ucast (font_header_size kfont) + ucast (scast c * font_glyph_size kfont :: u32) :: u64) = ?H + unat c * ?gs"
    using small f(1) by (subst unat_plus_exact) (simp_all add: unat_u32_u64 u1)
  have "unat (of_nat yy * ucast ?lp :: u32) = yy * ?r"
    using small f(1,3) u2 by (subst unat_word_ariths) (simp add: y unsigned_ucast_eq [of ?lp] take_bit_eq_mod)
  then have "unat (ucast (of_nat yy * ucast ?lp :: u32) + ucast (of_nat xx :: u32) div 8 :: u64) = yy * ?r + xx div 8"
    using small f(1) by (subst unat_plus_exact) (simp_all add: unat_u32_u64 unat_div y)
  then have "unat (ucast (font_header_size kfont) + ucast (scast c * font_glyph_size kfont :: u32) +
      (ucast (of_nat yy * ucast ?lp :: u32) + ucast (of_nat xx :: u32) div 8) :: u64) = ?H + unat c * ?gs + (yy * ?r + xx div 8)"
    using small f(1) a1 by (subst unat_plus_exact) simp_all
  then have b: "font_byte kfont (ucast (font_header_size kfont) + ucast (scast c * font_glyph_size kfont :: u32) +
      (ucast (of_nat yy * ucast ?lp :: u32) + ucast (of_nat xx :: u32) div 8)) = Inr (psf_glyph kfont c ! (yy * ?r + xx div 8))"
    using small row unfolding font_byte_def psf_glyph_def by (simp add: add.assoc)
  have "unat ((of_nat xx :: u32) mod 8) = xx mod 8" by (simp add: unat_mod y)
  then show ?thesis using b highest_bit [of "xx mod 8"] by (simp add: glyph_bit_def Let_def glyph_shows_def)
qed

text \<open>A character beyond ASCII is negative as a \<open>char\<close>: its glyph is looked for far behind the file.\<close>

lemma high_character_bit:
  assumes font: "psf_ok kfont" and c: "0x80 \<le> c" and w: "font_width kfont \<noteq> 0"
  shows "glyph_bit kfont (ucast (font_header_size kfont)) c 0 0 = Inl Out_Of_Bounds"
proof -
  let ?gs = "unat (font_glyph_size kfont)" and ?k = "256 - unat c" and ?H = "unat (font_header_size kfont)"
  have c8: "128 \<le> unat c" "unat c < 256" using c unsigned_less [of c] by (simp_all add: word_le_nat_alt)
  have f: "length kfont < 2 ^ 31" "?gs = unat (font_height kfont) * psf_row kfont" "font_height kfont \<noteq> 0" using font by (simp_all add: psf_ok_def)
  have "?k \<le> 128" using c8(1) by simp
  from psf_glyph_in_file [OF font this] have gs: "?H + ?k * ?gs \<le> length kfont" .
  have "0 < psf_row kfont" using w unat_gt_0 [of "font_width kfont"] by (simp add: psf_row_def div_greater_zero_iff)
  then have pos: "0 < ?k * ?gs" using f(2,3) c8(2) by (simp add: unat_gt_0)
  have "sint c = int (unat c) - 256"
  proof -
    have "unat c div 128 = 1" by (rule div_nat_eqI) (use c8 in simp_all)
    then have "bit (unat c) 7" by (simp add: bit_iff_odd)
    then have "bit (uint c) 7" by (simp add: bit_unsigned_iff)
    then have "sint c = take_bit 8 (uint c) - 2 ^ 8" by (simp add: sint_uint signed_take_bit_eq_take_bit_minus)
    moreover have "take_bit 8 (uint c) = uint c" by (rule bintr_uint) simp
    ultimately show ?thesis by simp
  qed
  then have "(scast c :: u32) = of_int (int (unat c) - 256)" by (metis of_int_sint)
  also have "\<dots> = - of_nat ?k" using c8(2) by (simp add: of_nat_diff)
  finally have "(scast c * font_glyph_size kfont :: u32) = - of_nat (?k * ?gs)" by simp
  also have "\<dots> = of_nat (2 ^ 32 - ?k * ?gs)"
  proof -
    have "(of_nat (2 ^ 32 - ?k * ?gs) :: u32) = of_nat (2 ^ 32) - of_nat (?k * ?gs)" using gs f(1) by (intro of_nat_diff) simp
    moreover have "(of_nat (2 ^ 32) :: u32) = 0" by simp
    ultimately show ?thesis by (simp only: diff_0)
  qed
  finally have u: "unat (scast c * font_glyph_size kfont :: u32) = 2 ^ 32 - ?k * ?gs" using pos by (simp only: unat_of_nat take_bit_eq_mod) simp
  have "unat (ucast (font_header_size kfont) + ucast (scast c * font_glyph_size kfont :: u32) :: u64) = ?H + (2 ^ 32 - ?k * ?gs)"
    using unat_less_2p32 [of "font_header_size kfont"] by (subst unat_plus_exact) (simp_all only: unat_u32_u64 u, simp)
  moreover have "length kfont \<le> ?H + (2 ^ 32 - ?k * ?gs)" using gs f(1) by simp
  ultimately show ?thesis by (simp add: glyph_bit_def font_byte_def Let_def)
qed

lemma high_character_faults:
  assumes "psf_ok kfont" "0x80 \<le> c" "font_width kfont \<noteq> 0" "framebuffer_available s" "font_glyphs s = ucast (font_header_size kfont)"
  shows "framebuffer_plot_character kfont c x y colour s = Inl Out_Of_Bounds"
proof -
  have "0 < unat (font_width kfont)" "0 < unat (font_height kfont)" using assms(1,3) by (simp_all add: unat_gt_0 psf_ok_def)
  then show ?thesis
    using high_character_bit [OF assms(1-3)] assms(1,4,5) by (simp add: framebuffer_plot_character_def plot_line_def psf_ok_def upt_conv_Cons)
qed

text \<open>The pixels of a character drawn with its corner at a place.\<close>

definition glyph_pixels :: "psf_font \<Rightarrow> u8 \<Rightarrow> nat \<Rightarrow> nat \<Rightarrow> (nat \<times> nat) set" where
  "glyph_pixels kfont c x y =
     {(x + xx, y + yy) | xx yy. xx < unat (font_width kfont) \<and> yy < unat (font_height kfont) \<and> glyph_shows kfont c xx yy}"

definition font_fits :: "psf_font \<Rightarrow> framebuffer_t \<Rightarrow> bool" where
  "font_fits kfont f \<longleftrightarrow> psf_ok kfont \<and> unat (font_height kfont) \<le> unat (fb_height f) \<and>
     unat (font_width kfont) \<le> unat (fb_width f)"

lemma plot_line_painted:
  assumes ok: "screen_ok f" and font: "psf_ok kfont" "c < 0x80" and "x + unat (font_width kfont) \<le> unat (fb_width f)"
    and "y + yy < unat (fb_height f)" and yy: "yy < unat (font_height kfont)"
  shows "\<exists>m'. plot_line kfont (ucast (font_header_size kfont)) f c (of_nat x) (of_nat y) colour (of_nat yy) m = Inr m' \<and>
    painted f {(x + xx, y + yy) | xx. xx < unat (font_width kfont) \<and> glyph_shows kfont c xx yy} colour m m'"
proof -
  let ?S = "\<lambda>xx. if glyph_shows kfont c xx yy then {(x + xx, y + yy)} else {}"
  have uy: "ucast (of_nat yy :: u32) = (of_nat yy :: u64)"
    using yy unat_less_2p32 [of "font_height kfont"] by (simp add: u64_eq_unat_iff unat_of_nat take_bit_eq_mod unsigned_ucast_eq)
  have "(\<Union>xx<unat (font_width kfont). ?S xx) = {(x + xx, y + yy) | xx. xx < unat (font_width kfont) \<and> glyph_shows kfont c xx yy}"
    by (auto split: if_splits)
  moreover have "\<exists>m'. plot_line kfont (ucast (font_header_size kfont)) f c (of_nat x) (of_nat y) colour (of_nat yy) m = Inr m' \<and>
    painted f (\<Union>xx<unat (font_width kfont). ?S xx) colour m m'"
    unfolding plot_line_def
  proof (rule painted_range)
    fix xx m assume xx: "xx < unat (font_width kfont)"
    then have "on_screen f (x + xx) (y + yy)" using assms by (simp add: on_screen_def)
    from painted_pixel [OF ok this, of colour m]
    show "\<exists>m'. (case glyph_bit kfont (ucast (font_header_size kfont)) c (of_nat xx) (of_nat yy) of Inl e \<Rightarrow> Inl e
        | Inr lit \<Rightarrow> Inr (if lit then framebuffer_plot_pixel f (of_nat x + of_nat xx) (of_nat y + ucast (of_nat yy :: u32)) colour m else m)) = Inr m' \<and>
      painted f (?S xx) colour m m'"
      unfolding glyph_bit_shows [OF font xx yy] by (simp add: uy painted_refl)
  qed
  ultimately show ?thesis by simp
qed

lemma plot_character_painted:
  assumes "screen_ok (main_framebuffer s)" "framebuffer_available s" "font_glyphs s = ucast (font_header_size kfont)"
    and font: "psf_ok kfont" "c < 0x80" and x: "x + unat (font_width kfont) \<le> unat (fb_width (main_framebuffer s))"
    and y: "y + unat (font_height kfont) \<le> unat (fb_height (main_framebuffer s))"
  shows "\<exists>m. framebuffer_plot_character kfont c (of_nat x) (of_nat y) colour s = Inr (s\<lparr>heap_bytes := m\<rparr>) \<and>
    painted (main_framebuffer s) (glyph_pixels kfont c x y) colour (heap_bytes s) m"
proof -
  let ?f = "main_framebuffer s"
  let ?S = "\<lambda>yy. {(x + xx, y + yy) | xx. xx < unat (font_width kfont) \<and> glyph_shows kfont c xx yy}"
  have "\<exists>m. for_range (\<lambda>yy. plot_line kfont (font_glyphs s) ?f c (of_nat x) (of_nat y) colour (of_nat yy))
      [0..<unat (font_height kfont)] (heap_bytes s) = Inr m \<and>
    painted ?f (\<Union>yy<unat (font_height kfont). ?S yy) colour (heap_bytes s) m"
    unfolding assms(3) by (rule painted_range, rule plot_line_painted [OF assms(1) font x]) (use y in simp_all)
  moreover have "(\<Union>yy<unat (font_height kfont). ?S yy) = glyph_pixels kfont c x y"
    by (auto simp: glyph_pixels_def)
  moreover have "font_height kfont \<noteq> 0" using font(1) by (simp add: psf_ok_def)
  ultimately show ?thesis using assms(2) by (auto simp: framebuffer_plot_character_def)
qed

subsection \<open>The terminal\<close>

text \<open>
  The abstract console: a cursor and a grid of pixels. A character that does not fit into the line goes to the
  next one; when there is no room below, the grid is cleared and the cursor goes home. Clearing
  works in pages, so the pixels in the last part of a page keep their colour.
\<close>

record terminal =
  term_x :: nat
  term_y :: nat
  term_pixel :: "nat \<Rightarrow> nat \<Rightarrow> u8 list"

definition term_clear :: "framebuffer_t \<Rightarrow> terminal \<Rightarrow> terminal" where
  "term_clear f t = t\<lparr>term_x := 0, term_y := 0, term_pixel := (\<lambda>x y.
     if on_screen f x y \<and> pixel_offset f x y < fb_bytes f div 4096 * 4096 then [0, 0, 0, 0] else term_pixel t x y)\<rparr>"

definition term_draw :: "framebuffer_t \<Rightarrow> (nat \<times> nat) set \<Rightarrow> u32 \<Rightarrow> terminal \<Rightarrow> terminal" where
  "term_draw f S colour t = t\<lparr>term_pixel := (\<lambda>x y.
     if on_screen f x y \<and> (x, y) \<in> S then colour_bytes colour else term_pixel t x y)\<rparr>"

definition term_put :: "psf_font \<Rightarrow> framebuffer_t \<Rightarrow> u32 \<Rightarrow> u8 \<Rightarrow> terminal \<Rightarrow> terminal" where
  "term_put kfont f colour c t =
     (let fw = unat (font_width kfont); fh = unat (font_height kfont);
          t = (if c = NEWLINE \<or> unat (fb_width f) \<le> term_x t + fw then t\<lparr>term_x := 0, term_y := term_y t + fh\<rparr> else t)
      in if c = NEWLINE then t
         else let t = (if unat (fb_height f) \<le> term_y t + fh then term_clear f t else t);
                  t = term_draw f (glyph_pixels kfont c (term_x t) (term_y t)) colour t
              in t\<lparr>term_x := term_x t + fw\<rparr>)"

definition terminal_of :: "'a fb_state_scheme \<Rightarrow> terminal" where
  "terminal_of s = \<lparr>term_x = unat (cursor_x (main_cursor s)), term_y = unat (cursor_y (main_cursor s)),
     term_pixel = (\<lambda>x y. if on_screen (main_framebuffer s) x y then pixel_at (main_framebuffer s) (heap_bytes s) x y else [])\<rparr>"

definition console_ok :: "psf_font \<Rightarrow> 'a fb_state_scheme \<Rightarrow> bool" where
  "console_ok kfont s \<longleftrightarrow> framebuffer_available s \<and> framebuffer_spinlock s = 0 \<and> screen_ok (main_framebuffer s) \<and>
     font_fits kfont (main_framebuffer s) \<and> font_glyphs s = ucast (font_header_size kfont) \<and> unat (cursor_x (main_cursor s)) \<le> unat (fb_width (main_framebuffer s)) \<and>
     unat (fb_width (main_framebuffer s)) < 2 ^ 62"

text \<open>What writing keeps: everything but the cursor, the lock and the pixels.\<close>

definition same_console :: "'a fb_state_scheme \<Rightarrow> 'a fb_state_scheme \<Rightarrow> bool" where
  "same_console s s' \<longleftrightarrow> (\<exists>m k. s' = s\<lparr>heap_bytes := m, main_cursor := k\<rparr> \<and> cursor_colour k = cursor_colour (main_cursor s) \<and>
     (\<forall>a. off_screen (main_framebuffer s) a \<longrightarrow> m a = heap_bytes s a))"

lemma terminal_of_draw:
  assumes "painted (main_framebuffer s) S colour (heap_bytes s) m"
  shows "terminal_of (s\<lparr>heap_bytes := m\<rparr>) = term_draw (main_framebuffer s) S colour (terminal_of s)"
  using assms by (auto simp: terminal_of_def term_draw_def painted_def fun_eq_iff)

lemma multiple_of_4_less:
  assumes "4 dvd (a :: nat)" "4 dvd b" "i < 4"
  shows "a + i < b \<longleftrightarrow> a < b"
proof -
  obtain j k where "a = 4 * j" "b = 4 * k" using assms(1,2) by (auto elim!: dvdE)
  then show ?thesis using assms(3) by (auto simp: less_eq_Suc_le [symmetric])
qed

lemma clear_pixels:
  fixes f m
  defines "m' \<equiv> memset8 m (fb_base f) 0 (fb_height f * fb_pitch f div PAGE * PAGE)"
  assumes ok: "screen_ok f"
  shows "off_screen f a \<Longrightarrow> m' a = m a"
    and "on_screen f x y \<Longrightarrow>
      pixel_at f m' x y = (if pixel_offset f x y < fb_bytes f div 4096 * 4096 then [0, 0, 0, 0] else pixel_at f m x y)"
proof -
  let ?n = "fb_bytes f div 4096 * 4096"
  have small: "fb_bytes f < 2 ^ 64" using ok by (simp add: screen_ok_def fb_bytes_def)
  have "unat (fb_height f * fb_pitch f) = fb_bytes f"
    using small by (subst unat_times_exact) (simp_all add: fb_bytes_def mult.commute)
  then have n: "unat (fb_height f * fb_pitch f div PAGE * PAGE) = ?n"
    using small by (subst unat_times_exact) (simp_all add: unat_div)
  have m': "m' a = (if unat (a - fb_base f) < ?n then 0 else m a)" for a
    by (simp add: m'_def memset8_apply n)
  show "m' a = m a" if "off_screen f a"
  proof -
    have "?n \<le> unat (a - fb_base f)"
      by (rule le_trans [OF div_times_less_eq_dividend that [unfolded off_screen_def]])
    then show ?thesis by (simp add: m')
  qed
  show "pixel_at f m' x y = (if pixel_offset f x y < ?n then [0, 0, 0, 0] else pixel_at f m x y)" if "on_screen f x y"
  proof -
    let ?o = "pixel_offset f x y"
    have "4 dvd ?o" using ok by (simp add: screen_ok_def pixel_offset_def)
    moreover have "4 dvd ?n" by (rule dvd_mult) simp
    ultimately have o: "?o + i < ?n \<longleftrightarrow> ?o < ?n" if "i < 4" for i by (rule multiple_of_4_less [OF _ _ that])
    have b: "?o + 4 < 2 ^ 64" using pixel_offset_bound [OF ok that] small by simp
    have "bytes_at m' (fb_base f + of_nat ?o) 4 ! i =
        (if ?o < ?n then [0, 0, 0, 0] else bytes_at m (fb_base f + of_nat ?o) 4) ! i" if i: "i < 4" for i
    proof -
      have "unat (fb_base f + of_nat (?o + i) - fb_base f) = ?o + i" using b i by (intro unat_offset) simp
      then have "m' (fb_base f + of_nat (?o + i)) = (if ?o < ?n then 0 else m (fb_base f + of_nat (?o + i)))"
        by (simp only: m' o [OF i])
      moreover have "[0, 0, 0, 0 :: u8] ! i = 0" using i by (simp add: nth_Cons split: nat.split)
      ultimately show ?thesis using i by (simp add: add.assoc)
    qed
    then show ?thesis unfolding pixel_at_def by (intro nth_equalityI) simp_all
  qed
qed

lemma terminal_of_clear:
  assumes "screen_ok (main_framebuffer s)"
  shows "terminal_of (s\<lparr>main_cursor := (main_cursor s)\<lparr>cursor_y := 0, cursor_x := 0\<rparr>,
      heap_bytes := memset8 (heap_bytes s) (fb_base (main_framebuffer s)) 0
        (fb_height (main_framebuffer s) * fb_pitch (main_framebuffer s) div PAGE * PAGE)\<rparr>) =
    term_clear (main_framebuffer s) (terminal_of s)"
  using clear_pixels(2) [OF assms, of _ _ "heap_bytes s"] by (auto simp: terminal_of_def term_clear_def fun_eq_iff)

lemma same_console_trans: "same_console s s1 \<Longrightarrow> same_console s1 s2 \<Longrightarrow> same_console s s2"
  by (force simp: same_console_def)

lemma term_of_simps:
  "term_x (terminal_of s) = unat (cursor_x (main_cursor s))" "term_y (terminal_of s) = unat (cursor_y (main_cursor s))"
  by (simp_all add: terminal_of_def)

lemma terminal_of_cursor:
  "terminal_of (s\<lparr>main_cursor := k\<rparr>) = (terminal_of s)\<lparr>term_x := unat (cursor_x k), term_y := unat (cursor_y k)\<rparr>"
  by (simp add: terminal_of_def cong: if_cong)

text \<open>The three parts of writing a character, each on the abstract terminal.\<close>

lemma line_feed_ok:
  fixes s kfont c
  defines "s1 \<equiv> (if cursor_x (main_cursor s) + ucast (font_width kfont) \<ge> fb_width (main_framebuffer s) \<or> c = NEWLINE
      then s\<lparr>main_cursor := (main_cursor s)\<lparr>cursor_y := cursor_y (main_cursor s) + ucast (font_height kfont), cursor_x := 0\<rparr>\<rparr> else s)"
  assumes ok: "console_ok kfont s" and y: "unat (cursor_y (main_cursor s)) + 2 * unat (font_height kfont) < 2 ^ 64"
  shows "same_console s s1"
    and "terminal_of s1 = (if c = NEWLINE \<or> unat (fb_width (main_framebuffer s)) \<le> term_x (terminal_of s) + unat (font_width kfont)
      then (terminal_of s)\<lparr>term_x := 0, term_y := term_y (terminal_of s) + unat (font_height kfont)\<rparr> else terminal_of s)"
    and "unat (cursor_y (main_cursor s1)) + unat (font_height kfont) < 2 ^ 64"
    and "c \<noteq> NEWLINE \<Longrightarrow> unat (cursor_x (main_cursor s1)) + unat (font_width kfont) \<le> unat (fb_width (main_framebuffer s))"
proof -
  note lt = unat_less_2p32 [of "font_width kfont"]
  have x: "unat (cursor_x (main_cursor s) + ucast (font_width kfont)) = unat (cursor_x (main_cursor s)) + unat (font_width kfont)"
    using ok lt by (subst unat_plus_exact) (auto simp: unat_u32_u64 console_ok_def)
  have y': "unat (cursor_y (main_cursor s) + ucast (font_height kfont)) = unat (cursor_y (main_cursor s)) + unat (font_height kfont)"
    using y by (subst unat_plus_exact) (auto simp: unat_u32_u64)
  have same: "s = s\<lparr>heap_bytes := heap_bytes s, main_cursor := main_cursor s\<rparr>" by simp
  show "same_console s s1"
    unfolding same_console_def s1_def using same
    by (intro exI [of _ "heap_bytes s"] exI [of _ "main_cursor s1"]) (auto simp: s1_def)
  show "terminal_of s1 = (if c = NEWLINE \<or> unat (fb_width (main_framebuffer s)) \<le> term_x (terminal_of s) + unat (font_width kfont)
      then (terminal_of s)\<lparr>term_x := 0, term_y := term_y (terminal_of s) + unat (font_height kfont)\<rparr> else terminal_of s)"
    by (auto simp: s1_def terminal_of_def word_le_nat_alt x y' cong: if_cong)
  show "unat (cursor_y (main_cursor s1)) + unat (font_height kfont) < 2 ^ 64" using y by (simp add: s1_def y')
  show "unat (cursor_x (main_cursor s1)) + unat (font_width kfont) \<le> unat (fb_width (main_framebuffer s))" if "c \<noteq> NEWLINE"
    using that ok by (auto simp: s1_def console_ok_def font_fits_def word_le_nat_alt x)
qed

lemma make_room_ok:
  fixes s kfont
  defines "f \<equiv> main_framebuffer s"
  defines "s2 \<equiv> (if cursor_y (main_cursor s) + ucast (font_height kfont) \<ge> fb_height f
      then s\<lparr>main_cursor := (main_cursor s)\<lparr>cursor_y := 0, cursor_x := 0\<rparr>,
             heap_bytes := memset8 (heap_bytes s) (fb_base f) 0 (fb_height f * fb_pitch f div PAGE * PAGE)\<rparr> else s)"
  assumes ok: "screen_ok f" "font_fits kfont f" and y: "unat (cursor_y (main_cursor s)) + unat (font_height kfont) < 2 ^ 64"
    and x: "unat (cursor_x (main_cursor s)) + unat (font_width kfont) \<le> unat (fb_width f)"
  shows "same_console s s2"
    and "terminal_of s2 = (if unat (fb_height f) \<le> term_y (terminal_of s) + unat (font_height kfont)
      then term_clear f (terminal_of s) else terminal_of s)"
    and "unat (cursor_y (main_cursor s2)) + unat (font_height kfont) \<le> unat (fb_height f)"
    and "unat (cursor_x (main_cursor s2)) + unat (font_width kfont) \<le> unat (fb_width f)"
proof -
  have y': "unat (cursor_y (main_cursor s) + ucast (font_height kfont)) = unat (cursor_y (main_cursor s)) + unat (font_height kfont)"
    using y by (subst unat_plus_exact) (auto simp: unat_u32_u64)
  have same: "s = s\<lparr>heap_bytes := heap_bytes s, main_cursor := main_cursor s\<rparr>" by simp
  show "same_console s s2"
    unfolding same_console_def using same clear_pixels(1) [OF ok(1)]
    by (intro exI [of _ "heap_bytes s2"] exI [of _ "main_cursor s2"]) (auto simp: s2_def f_def)
  show "terminal_of s2 = (if unat (fb_height f) \<le> term_y (terminal_of s) + unat (font_height kfont)
      then term_clear f (terminal_of s) else terminal_of s)"
    using terminal_of_clear [of s] ok(1) by (simp add: s2_def f_def word_le_nat_alt y' term_of_simps)
  show "unat (cursor_y (main_cursor s2)) + unat (font_height kfont) \<le> unat (fb_height f)"
    using ok(2) by (auto simp: s2_def word_le_nat_alt y' font_fits_def)
  show "unat (cursor_x (main_cursor s2)) + unat (font_width kfont) \<le> unat (fb_width f)"
    using ok(2) x by (auto simp: s2_def font_fits_def)
qed

lemma write_character_ok:
  assumes ok: "console_ok kfont s" and c: "c < 0x80" and y: "unat (cursor_y (main_cursor s)) + 2 * unat (font_height kfont) < 2 ^ 64"
  shows "\<exists>s'. framebuffer_write_character kfont c s = Inr s' \<and> console_ok kfont s' \<and> same_console s s' \<and>
    terminal_of s' = term_put kfont (main_framebuffer s) (cursor_colour (main_cursor s)) c (terminal_of s)"
proof -
  let ?f = "main_framebuffer s" and ?w = "ucast (font_width kfont) :: u64" and ?h = "ucast (font_height kfont) :: u64"
  define s1 where "s1 = (if cursor_x (main_cursor s) + ?w \<ge> fb_width ?f \<or> c = NEWLINE
      then s\<lparr>main_cursor := (main_cursor s)\<lparr>cursor_y := cursor_y (main_cursor s) + ?h, cursor_x := 0\<rparr>\<rparr> else s)"
  note lf = line_feed_ok [OF ok y, of c, folded s1_def]
  have f1: "main_framebuffer s1 = ?f" "framebuffer_spinlock s = 0" "framebuffer_available s" "screen_ok ?f" "font_fits kfont ?f"
    using ok by (simp_all add: s1_def console_ok_def)
  have acq: "spinlock_acquire 0 = Inr 1" by (simp add: spinlock_acquire_free)
  show ?thesis
  proof (cases "c = NEWLINE")
    case True
    then have "framebuffer_write_character kfont c s = Inr s1"
      using f1 by (simp add: framebuffer_write_character_def s1_def acq spinlock_release_eq)
    moreover have "console_ok kfont s1" using ok True by (simp add: s1_def console_ok_def)
    ultimately show ?thesis using lf(1,2) True by (simp add: term_put_def Let_def)
  next
    case False
    define s2 where "s2 = (if cursor_y (main_cursor s1) + ?h \<ge> fb_height ?f
      then s1\<lparr>main_cursor := (main_cursor s1)\<lparr>cursor_y := 0, cursor_x := 0\<rparr>,
             heap_bytes := memset8 (heap_bytes s1) (fb_base ?f) 0 (fb_height ?f * fb_pitch ?f div PAGE * PAGE)\<rparr> else s1)"
    note mr = make_room_ok [of s1 kfont, unfolded f1(1), folded s2_def, OF f1(4,5) lf(3) lf(4) [OF False]]
    have f2: "main_framebuffer s2 = ?f" "framebuffer_available s2" "font_glyphs s2 = font_glyphs s"
      "cursor_colour (main_cursor s2) = cursor_colour (main_cursor s)" "framebuffer_spinlock s2 = 0"
      using f1 by (simp_all add: s2_def s1_def)
    let ?k = "main_cursor s2"
    obtain m where m: "framebuffer_plot_character kfont c (cursor_x ?k) (cursor_y ?k) (cursor_colour ?k) s2 = Inr (s2\<lparr>heap_bytes := m\<rparr>)"
      "painted ?f (glyph_pixels kfont c (unat (cursor_x ?k)) (unat (cursor_y ?k))) (cursor_colour ?k) (heap_bytes s2) m"
      using plot_character_painted [of s2 kfont c "unat (cursor_x ?k)" "unat (cursor_y ?k)" "cursor_colour ?k"] f1 f2 mr(3,4) c ok
      by (auto simp: font_fits_def console_ok_def)
    let ?s = "s2\<lparr>heap_bytes := m, main_cursor := ?k\<lparr>cursor_x := cursor_x ?k + ?w\<rparr>\<rparr>"
    have x: "unat (cursor_x ?k + ?w) = unat (cursor_x ?k) + unat (font_width kfont)"
      using mr(4) unat_less_2p64 [of "fb_width ?f"] by (subst unat_plus_exact) (simp_all add: unat_u32_u64)
    have "framebuffer_write_character kfont c s = Inr (?s\<lparr>framebuffer_spinlock := 0\<rparr>)"
      using m(1) f1 False unfolding framebuffer_write_character_def s1_def [symmetric] Let_def
      by (simp add: acq spinlock_release_eq s2_def [symmetric])
    moreover have "?s\<lparr>framebuffer_spinlock := 0\<rparr> = ?s" using f2(5) by simp
    moreover have "console_ok kfont ?s" using ok f2 mr(4) x by (simp add: console_ok_def)
    moreover have "same_console s2 ?s" 
      unfolding same_console_def using m(2)
      by (intro exI [of _ m] exI [of _ "?k\<lparr>cursor_x := cursor_x ?k + ?w\<rparr>"]) (simp add: painted_def f2)
    moreover have "terminal_of ?s = (let t = terminal_of s2;
        t = term_draw ?f (glyph_pixels kfont c (term_x t) (term_y t)) (cursor_colour (main_cursor s)) t
        in t\<lparr>term_x := term_x t + unat (font_width kfont)\<rparr>)"
      using terminal_of_draw [of s2 _ _ m] m(2) f2 x
      by (intro terminal.equality) (simp_all add: terminal_of_cursor term_of_simps term_draw_def Let_def)
    ultimately show ?thesis
      using same_console_trans [OF same_console_trans [OF lf(1) mr(1)]] lf(2) mr(2) False
      by (simp add: term_put_def Let_def)
  qed
qed

lemma same_console_refl: "same_console s s"
  unfolding same_console_def by (intro exI [of _ "heap_bytes s"] exI [of _ "main_cursor s"]) simp

lemma same_console_fields:
  assumes "same_console s s'"
  shows "main_framebuffer s' = main_framebuffer s" "font_glyphs s' = font_glyphs s"
    "cursor_colour (main_cursor s') = cursor_colour (main_cursor s)"
    "off_screen (main_framebuffer s) a \<Longrightarrow> heap_bytes s' a = heap_bytes s a"
  using assms by (auto simp: same_console_def)

lemma term_put_y: "term_y (term_put kfont f colour c t) \<le> term_y t + unat (font_height kfont)"
  by (simp add: term_put_def Let_def term_draw_def term_clear_def)

lemma write_string_ok:
  assumes "console_ok kfont s" "cstr (heap_bytes s) string cs"
    and "unat (cursor_y (main_cursor s)) + (length cs + 1) * unat (font_height kfont) < 2 ^ 64"
    and "\<And>i. i \<le> length cs \<Longrightarrow> off_screen (main_framebuffer s) (string + of_nat i)" "list_all (\<lambda>c. c < 0x80) cs"
  shows "\<exists>s'. framebuffer_write_string kfont string s = Some (Inr s') \<and> console_ok kfont s' \<and> same_console s s' \<and>
    terminal_of s' =
      fold (term_put kfont (main_framebuffer s) (cursor_colour (main_cursor s))) cs (terminal_of s)"
  using assms
proof (induction cs arbitrary: string s)
  case Nil
  then show ?case by (subst framebuffer_write_string.simps) (simp add: same_console_refl)
next
  case (Cons c cs)
  have c: "heap_bytes s string = c" "c \<noteq> 0" "cstr (heap_bytes s) (string + 1) cs" using Cons.prems(2) by auto
  obtain s1 where s1: "framebuffer_write_character kfont c s = Inr s1" "console_ok kfont s1" "same_console s s1"
    "terminal_of s1 = term_put kfont (main_framebuffer s) (cursor_colour (main_cursor s)) c (terminal_of s)"
    using write_character_ok [OF Cons.prems(1), of c] Cons.prems(3,5) by auto
  note f = same_console_fields [OF s1(3)]
  have off: "off_screen (main_framebuffer s) (string + 1 + of_nat i)" if "i \<le> length cs" for i
    using Cons.prems(4) [of "Suc i"] that by (simp add: add.assoc)
  have "cstr (heap_bytes s1) (string + 1) cs"
    by (rule cstr_cong [OF _ c(3)]) (simp add: f(4) off)
  moreover have "unat (cursor_y (main_cursor s1)) + (length cs + 1) * unat (font_height kfont) < 2 ^ 64"
    using Cons.prems(3) term_put_y [of kfont "main_framebuffer s" "cursor_colour (main_cursor s)" c "terminal_of s"]
    by (simp add: s1(4) [symmetric] term_of_simps)
  ultimately obtain s' where s': "framebuffer_write_string kfont (string + 1) s1 = Some (Inr s')" "console_ok kfont s'" "same_console s1 s'"
    "terminal_of s' = fold (term_put kfont (main_framebuffer s) (cursor_colour (main_cursor s))) cs (terminal_of s1)"
    using Cons.IH [OF s1(2), of "string + 1"] Cons.prems(5) off f by auto
  have "framebuffer_write_string kfont string s = Some (Inr s')"
    using c(1,2) s1(1) s'(1) by (subst framebuffer_write_string.simps) simp
  then show ?case using s' s1(4) same_console_trans [OF s1(3) s'(3)] by auto
qed

subsection \<open>Properties\<close>

text \<open>
  (C13) Writing a string of ASCII characters to the console returns, shows on the screen what the abstract terminal shows after the
  same characters - every character as its glyph in the font file, row by row and bit by bit - and changes no byte outside the
  framebuffer. The font is a well-formed file with the glyphs of ASCII at least; the string lies off the screen, and
  the cursor's line does not wrap. (A character beyond ASCII makes the code read outside the font: \<open>high_character_faults\<close>.)
\<close>

theorem console_refines_terminal:
  assumes "console_ok kfont s" "cstr (heap_bytes s) string cs"
    and "unat (cursor_y (main_cursor s)) + (length cs + 1) * unat (font_height kfont) < 2 ^ 64"
    and "\<And>i. i \<le> length cs \<Longrightarrow> off_screen (main_framebuffer s) (string + of_nat i)" "list_all (\<lambda>c. c < 0x80) cs"
  shows "\<exists>s'. framebuffer_write_string kfont string s = Some (Inr s') \<and> console_ok kfont s' \<and>
    terminal_of s' = fold (term_put kfont (main_framebuffer s) (cursor_colour (main_cursor s))) cs (terminal_of s) \<and>
    (\<forall>a. off_screen (main_framebuffer s) a \<longrightarrow> heap_bytes s' a = heap_bytes s a)"
  using write_string_ok [OF assms] same_console_fields(4) by blast

text \<open>
  (C32) A write to \<open>/dev/fb0\<close> that is shorter than the framebuffer stays inside it, wherever the position
  was, and so does the position. A longer one starts in front of the framebuffer: its first byte
  overwrites memory that does not belong to the screen.
\<close>

theorem framebuffer_write_bounds:
  fixes s node
  defines "f \<equiv> main_framebuffer s"
  assumes ok: "screen_ok f" "fb_bytes f \<noteq> 0" and limit: "max_seek_position (nodes s node) = of_nat (fb_bytes f - 1)"
    and pos: "unat (seek_position (nodes s node)) + unat n < 2 ^ 64"
  shows "\<exists>s'. framebuffer_write node buffer n s = Inr (n, s') \<and>
    (if unat n < fb_bytes f
     then (\<forall>a. off_screen f a \<longrightarrow> heap_bytes s' a = heap_bytes s a) \<and> unat (seek_position (nodes s' node)) < fb_bytes f
     else (let a = fb_base f - of_nat (unat n + 1 - fb_bytes f) in off_screen f a \<and> heap_bytes s' a = heap_bytes s buffer))"
proof -
  let ?nd = "nodes s node"
  define p where "p = (if seek_position ?nd + n > max_seek_position ?nd then max_seek_position ?nd - n else seek_position ?nd)"
  define s' where "s' = s\<lparr>heap_bytes := memcpy (heap_bytes s) (fb_base f + p) buffer n,
      nodes := (nodes s)(node := ?nd\<lparr>seek_position := p + n\<rparr>)\<rparr>"
  have w: "framebuffer_write node buffer n s = Inr (n, s')"
    by (simp add: framebuffer_write_def Let_def p_def s'_def f_def)
  have small: "fb_bytes f < 2 ^ 64" using ok(1) by (simp add: screen_ok_def fb_bytes_def)
  have lim: "unat (max_seek_position ?nd) = fb_bytes f - 1" unfolding limit by (rule unat_of_nat_exact) (use small in simp)
  have sum: "unat (seek_position ?nd + n) = unat (seek_position ?nd) + unat n" using pos by (rule unat_plus_exact)
  show ?thesis
  proof (cases "unat n < fb_bytes f")
    case True
    then have p: "unat p + unat n < fb_bytes f"
      using lim sum ok(2) by (auto simp: p_def word_less_nat_alt unat_minus_exact)
    have "memcpy (heap_bytes s) (fb_base f + p) buffer n a = heap_bytes s a" if a: "off_screen f a" for a
    proof (rule memcpy_other)
      have "unat (a - (fb_base f + p)) = unat (a - fb_base f) - unat p"
        using a p by (subst diff_diff_add [symmetric], subst unat_minus_exact) (simp_all add: off_screen_def)
      then show "unat n \<le> unat (a - (fb_base f + p))" using a p by (simp add: off_screen_def)
    qed
    moreover have "unat (p + n) < fb_bytes f" using p small by (simp add: unat_plus_exact)
    ultimately show ?thesis using w True by (simp add: s'_def)
  next
    case False
    define k where "k = unat n + 1 - fb_bytes f"
    have k: "0 < k" "k + fb_bytes f \<le> 2 ^ 64" using False ok(2) unat_less_2p64 [of n] by (auto simp: k_def)
    have "max_seek_position ?nd < seek_position ?nd + n" using False lim sum ok(2) unfolding word_less_nat_alt by linarith
    then have "p = of_nat (fb_bytes f - 1) - of_nat (unat n)" by (simp add: p_def limit)
    also have "\<dots> = - of_nat k" using False ok(2) by (simp add: k_def of_nat_diff)
    finally have p: "fb_base f + p = fb_base f - of_nat k" by simp
    have "unat (fb_base f - of_nat k - fb_base f) = 2 ^ 64 - k"
      using unat_minus_wrap [of 0 "of_nat k"] k ok(2) by (simp add: unat_of_nat_exact)
    then have "off_screen f (fb_base f - of_nat k)" using k by (simp add: off_screen_def)
    moreover have "memcpy (heap_bytes s) (fb_base f + p) buffer n (fb_base f + p) = heap_bytes s buffer"
      by (rule memcpy_first) (use False ok(2) in auto)
    ultimately show ?thesis using w False by (simp add: s'_def Let_def p k_def)
  qed
qed

text \<open>
  A screen of 64 by 32 pixels set up by \<open>framebuffer_init\<close>, a font of 128 glyphs of 8 by 8 pixels with one pixel in its letter A, and
  the string \<open>"A"\<close>.
\<close>

definition dot_font :: psf_font where
  "dot_font = [0x72, 0xB5, 0x4A, 0x86, 0, 0, 0, 0, 32, 0, 0, 0, 0, 0, 0, 0, 128, 0, 0, 0, 8, 0, 0, 0, 8, 0, 0, 0, 8, 0, 0, 0] @
     replicate 520 0 @ [0x80] @ replicate 503 0"

definition small_screen :: framebuffer_t where
  "small_screen = \<lparr>fb_base = 0x100000, fb_width = 64, fb_height = 32, fb_pitch = 256, fb_bpp = 32\<rparr>"

definition screen_machine :: fb_state where
  "screen_machine = projr (framebuffer_init dot_font (Some [small_screen])
     (dev_state.extend (vfs_state.extend (vfs_boot (heap_boot\<lparr>heap_bytes := (\<lambda>_. 0)(0x200 := 0x41)\<rparr>))
        (dev_state.fields (\<lambda>_. zero_device) 0))
       (fb_state.fields False small_screen \<lparr>cursor_x = 0, cursor_y = 0, cursor_colour = 0\<rparr> 0 0)))"

lemma dot_font_length: "length dot_font = 1056" "take 4 dot_font = PSF2_MAGIC"
  by (simp_all add: dot_font_def PSF2_MAGIC_def)

lemma dot_font_sizes:
  "font_width dot_font = 8" "font_height dot_font = 8" "font_glyph_size dot_font = 8" "font_header_size dot_font = 32"
  "font_length dot_font = 128"
  by (simp_all add: font_width_def font_height_def font_glyph_size_def font_header_size_def font_length_def font_field_def
      load_le_4 dot_font_length(1) push_bit_eq_mult) (simp_all add: dot_font_def)

lemma dot_font_ok: "psf_ok dot_font"
  by (simp add: psf_ok_def psf_row_def dot_font_sizes dot_font_length)

lemma screen_machine_fields:
  "main_framebuffer screen_machine = small_screen" "framebuffer_available screen_machine" "framebuffer_spinlock screen_machine = 0"
  "main_cursor screen_machine = \<lparr>cursor_x = 0, cursor_y = 0, cursor_colour = 0xFFFFFF\<rparr>" "font_glyphs screen_machine = 32"
  "heap_bytes screen_machine = (\<lambda>_. 0)(0x200 := 0x41)" "nodes screen_machine = (\<lambda>_. zero_node)"
  by (simp_all add: screen_machine_def framebuffer_init_def framebuffer_generate_structure_from_limine_def dot_font_sizes
      small_screen_def dot_font_length dev_state.defs vfs_state.defs sched_state.defs block_state.defs fb_state.defs vfs_boot_def)

lemma term_put_dot:
  assumes "term_x t = 0" "term_y t = 0"
  shows "term_x (term_put dot_font small_screen 0xFFFFFF 0x41 t) = 8"
    "term_pixel (term_put dot_font small_screen 0xFFFFFF 0x41 t) 0 0 = [0xFF, 0xFF, 0xFF, 0]"
proof -
  have "(0, 0) \<in> glyph_pixels dot_font 0x41 0 0"
    by (simp add: glyph_pixels_def glyph_shows_def psf_glyph_def psf_row_def dot_font_sizes) (simp add: dot_font_def nth_append)
  moreover have "colour_bytes 0xFFFFFF = [0xFF, 0xFF, 0xFF, 0]" by (simp add: colour_bytes_def upt_rec drop_bit_eq_div)
  moreover have "unat (fb_width small_screen) = 64" "unat (fb_height small_screen) = 32" by (simp_all add: small_screen_def)
  ultimately show "term_x (term_put dot_font small_screen 0xFFFFFF 0x41 t) = 8"
    "term_pixel (term_put dot_font small_screen 0xFFFFFF 0x41 t) 0 0 = [0xFF, 0xFF, 0xFF, 0]"
    using assms by (simp_all add: term_put_def Let_def term_draw_def dot_font_sizes on_screen_def)
qed

theorem console_refines_terminal_witness:
  "\<exists>s'. framebuffer_write_string dot_font 0x200 screen_machine = Some (Inr s') \<and> term_x (terminal_of s') = 8 \<and>
     term_pixel (terminal_of s') 0 0 = [0xFF, 0xFF, 0xFF, 0]"
proof -
  have "console_ok dot_font screen_machine"
    by (simp add: console_ok_def screen_machine_fields screen_ok_def font_fits_def dot_font_ok dot_font_sizes small_screen_def)
  moreover have "cstr (heap_bytes screen_machine) 0x200 [0x41]" by (simp add: screen_machine_fields)
  moreover have "unat (cursor_y (main_cursor screen_machine)) + (length [0x41 :: u8] + 1) * unat (font_height dot_font) < 2 ^ 64"
    by (simp add: screen_machine_fields dot_font_sizes)
  moreover have "off_screen (main_framebuffer screen_machine) (0x200 + of_nat i)" if "i \<le> length [0x41 :: u8]" for i
    using that by (cases i) (simp_all add: off_screen_def screen_machine_fields small_screen_def fb_bytes_def)
  ultimately obtain s' where s': "framebuffer_write_string dot_font 0x200 screen_machine = Some (Inr s')"
    "terminal_of s' = fold (term_put dot_font small_screen 0xFFFFFF) [0x41] (terminal_of screen_machine)"
    using console_refines_terminal [of dot_font screen_machine "0x200" "[0x41]"] by (auto simp: screen_machine_fields)
  have "term_x (terminal_of screen_machine) = 0" "term_y (terminal_of screen_machine) = 0"
    by (simp_all add: term_of_simps screen_machine_fields)
  note dot = term_put_dot [OF this]
  have "term_x (terminal_of s') = 8" "term_pixel (terminal_of s') 0 0 = [0xFF, 0xFF, 0xFF, 0]"
    unfolding s'(2) using dot by simp_all
  then show ?thesis using s'(1) by blast
qed

theorem framebuffer_write_bounds_witness:
  "\<exists>s s'. framebuffer_write 0 0x200 0x2001 s = Inr (0x2001, s' :: fb_state) \<and> heap_bytes s 0xFFFFE = 0 \<and> heap_bytes s' 0xFFFFE = 0x41"
proof -
  let ?s = "screen_machine\<lparr>nodes := (\<lambda>_. zero_node\<lparr>max_seek_position := 0x1FFF\<rparr>)\<rparr>"
  have f: "main_framebuffer ?s = small_screen" "heap_bytes ?s = (\<lambda>_. 0)(0x200 := 0x41)" by (simp_all add: screen_machine_fields)
  have b: "fb_bytes small_screen = 0x2000" by (simp add: fb_bytes_def small_screen_def)
  have "screen_ok (main_framebuffer ?s)" "fb_bytes (main_framebuffer ?s) \<noteq> 0"
    "max_seek_position (nodes ?s 0) = of_nat (fb_bytes (main_framebuffer ?s) - 1)"
    "unat (seek_position (nodes ?s 0)) + unat (0x2001 :: u64) < 2 ^ 64"
    unfolding f by (simp_all add: b screen_ok_def zero_node_def) (simp_all add: small_screen_def)
  from framebuffer_write_bounds [OF this, of "0x200"]
  obtain s' where "framebuffer_write 0 0x200 0x2001 ?s = Inr (0x2001, s')" "heap_bytes s' 0xFFFFE = heap_bytes ?s 0x200"
    unfolding f b by (auto simp: small_screen_def)
  then show ?thesis using f(2) by fastforce
qed

end
