(* ===== verification/Io_Queue.thy ===== *)
theory Io_Queue
  imports Vfs_Correct
begin

text \<open>
  The queue of asynchronous input and output, \<open>kernel/src/io/queue.c\<close>: requests are appended by
  \<open>io_queue_task\<close> and worked on by a kernel task that goes over the whole queue each time it is
  scheduled. Requests stay in the queue when they are done.
\<close>

subsection \<open>State\<close>

datatype io_op_t = io_read | io_write

record io_task =
  io_done :: bool
  is_async :: bool
  io_next :: u64
  io_prev :: u64
  io_node :: u64
  io_operation :: io_op_t
  io_buffer :: u64
  io_size :: u64
  io_offset :: u64
  fs_status :: u64

definition zero_io_task :: io_task where
  "zero_io_task = \<lparr>io_done = False, is_async = False, io_next = 0, io_prev = 0, io_node = 0, io_operation = io_read,
     io_buffer = 0, io_size = 0, io_offset = 0, fs_status = 0\<rparr>"

record io_state = vfs_state +
  io_tasks :: "u64 \<Rightarrow> io_task"
  io_queue_start :: u64
  io_queue_last :: u64
  io_queue_lock :: u64

text \<open>\<open>sizeof(io_task_t)\<close>.\<close>

abbreviation (input) IO_TASK_SIZE :: u64 where "IO_TASK_SIZE \<equiv> 72"

definition upd_io_task :: "u64 \<Rightarrow> (io_task \<Rightarrow> io_task) \<Rightarrow> 'a io_state_scheme \<Rightarrow> 'a io_state_scheme" where
  "upd_io_task t f s = s\<lparr>io_tasks := (io_tasks s)(t := f (io_tasks s t))\<rparr>"

subsection \<open>Operations\<close>

text \<open>Linking a request to the end of the queue, under the lock.\<close>

definition enqueue_io_task :: "u64 \<Rightarrow> 'a io_state_scheme \<Rightarrow> 'a io_state_scheme res" where
  "enqueue_io_task new_task s =
     (case spinlock_acquire (io_queue_lock s) of
        Inl e \<Rightarrow> Inl e
      | Inr lock \<Rightarrow>
     let s = (if io_queue_start s \<noteq> 0
              then let s = upd_io_task (io_queue_last s) (io_next_update (\<lambda>_. new_task)) s;
                       s = upd_io_task new_task (io_prev_update (\<lambda>_. io_queue_last s)) s
                   in s\<lparr>io_queue_last := new_task\<rparr>
              else s\<lparr>io_queue_start := new_task, io_queue_last := new_task\<rparr>)
     in Inr (s\<lparr>io_queue_lock := spinlock_release lock\<rparr>))"

definition io_queue_task ::
  "(u64 \<Rightarrow> 'a io_state_scheme vfs_fs_ops) \<Rightarrow> u64 \<Rightarrow> io_op_t \<Rightarrow> u64 \<Rightarrow> u64 \<Rightarrow> u64 \<Rightarrow>
     'a io_state_scheme \<Rightarrow> (u64 \<times> 'a io_state_scheme) res" where
  "io_queue_task ops node operation buffer n offset s =
     (case block_allocate IO_TASK_SIZE s of
        Inl e \<Rightarrow> Inl e
      | Inr (new_task, s) \<Rightarrow>
     let s = upd_io_task new_task (\<lambda>_. zero_io_task\<lparr>io_done := False, io_buffer := buffer, io_offset := offset,
               io_size := n, io_operation := operation, io_node := node\<rparr>) s
     in case vfs_async_task_register ops node new_task s of
        Inl e \<Rightarrow> Inl e
      | Inr (async, s) \<Rightarrow>
          map_sum id (Pair new_task) (enqueue_io_task new_task (upd_io_task new_task (is_async_update (\<lambda>_. async)) s)))"

text \<open>One pass over the queue: requests that are not done are updated, and unregistered once they are.\<close>

partial_function (option) io_update_tasks ::
  "(u64 \<Rightarrow> 'a io_state_scheme vfs_fs_ops) \<Rightarrow> u64 \<Rightarrow> 'a io_state_scheme \<Rightarrow> 'a io_state_scheme res option" where
  "io_update_tasks ops task s =
     (if task = 0 then Some (Inr s)
      else if io_done (io_tasks s task) then io_update_tasks ops (io_next (io_tasks s task)) s
      else (case vfs_async_task_update ops (io_node (io_tasks s task)) task s of
              Inl e \<Rightarrow> Some (Inl e)
            | Inr s \<Rightarrow>
                if io_done (io_tasks s task)
                then (case vfs_async_task_unregister ops (io_node (io_tasks s task)) task s of
                        Inl e \<Rightarrow> Some (Inl e)
                      | Inr s \<Rightarrow> io_update_tasks ops (io_next (io_tasks s task)) s)
                else io_update_tasks ops (io_next (io_tasks s task)) s))"

text \<open>
  One turn of the endless loop of the executor, from the end of its wait for an interrupt to the next
  wait. What other tasks do in between happens to the state between two turns.
\<close>

definition io_executor_turn ::
  "(u64 \<Rightarrow> 'a io_state_scheme vfs_fs_ops) \<Rightarrow> 'a io_state_scheme \<Rightarrow> 'a io_state_scheme res option" where
  "io_executor_turn ops s =
     (let s = s\<lparr>interrupts_enabled := False\<rparr>
      in case spinlock_acquire (io_queue_lock s) of
           Inl e \<Rightarrow> Some (Inl e)
         | Inr lock \<Rightarrow>
             map_option (map_sum id (\<lambda>s. s\<lparr>io_queue_lock := spinlock_release lock\<rparr>))
               (io_update_tasks ops (io_queue_start s) (s\<lparr>io_queue_lock := lock\<rparr>)))"

text \<open>\<open>io_executor_task\<close> is the address of the executor.\<close>

definition io_queue_init :: "u64 \<Rightarrow> 'a sched_state_scheme \<Rightarrow> 'a sched_state_scheme res" where
  "io_queue_init io_executor_task s =
     map_sum id snd (task_scheduler_round_robin_create_kernel (map (of_nat \<circ> of_char) ''io executor'') io_executor_task s)"

subsection \<open>The queue as a list\<close>

fun io_chain :: "(u64 \<Rightarrow> io_task) \<Rightarrow> u64 \<Rightarrow> u64 list \<Rightarrow> bool" where
  "io_chain ts p [] \<longleftrightarrow> p = 0"
| "io_chain ts p (x # xs) \<longleftrightarrow> p = x \<and> x \<noteq> 0 \<and> io_chain ts (io_next (ts x)) xs"

definition io_queue :: "u64 list \<Rightarrow> 'a io_state_scheme \<Rightarrow> bool" where
  "io_queue xs s \<longleftrightarrow> io_queue_lock s = 0 \<and> io_chain (io_tasks s) (io_queue_start s) xs \<and> distinct xs \<and>
     (xs \<noteq> [] \<longrightarrow> io_queue_last s = last xs)"

lemma io_chain_cong:
  assumes "\<And>x. x \<in> set xs \<Longrightarrow> io_next (ts' x) = io_next (ts x)"
  shows "io_chain ts' p xs \<longleftrightarrow> io_chain ts p xs"
  using assms by (induction xs arbitrary: p) auto

lemma io_chain_append:
  assumes "io_chain ts p xs" "xs \<noteq> []" "distinct (x # xs)" "x \<noteq> 0" "io_next (ts x) = 0"
  shows "io_chain (ts(last xs := (ts (last xs))\<lparr>io_next := x\<rparr>)) p (xs @ [x])"
  using assms
proof (induction xs arbitrary: p)
  case (Cons y ys)
  show ?case
  proof (cases "ys = []")
    case True
    then show ?thesis using Cons.prems by auto
  next
    case False
    then have "last ys \<noteq> y" using Cons.prems(3) last_in_set by fastforce
    then show ?thesis using Cons False by auto
  qed
qed simp

lemma enqueue_appends:
  assumes q: "io_queue xs s" and x: "x \<notin> set xs" "x \<noteq> 0" "io_next (io_tasks s x) = 0"
  shows "\<exists>s'. enqueue_io_task x s = Inr s' \<and> io_queue (xs @ [x]) s' \<and>
    (\<forall>t. t \<noteq> x \<longrightarrow> t \<notin> set xs \<longrightarrow> io_tasks s' t = io_tasks s t) \<and>
    (\<forall>t. io_tasks s' t = (io_tasks s t)\<lparr>io_next := io_next (io_tasks s' t), io_prev := io_prev (io_tasks s' t)\<rparr>) \<and>
    io_prev (io_tasks s' x) = (if xs = [] then io_prev (io_tasks s x) else last xs) \<and>
    s' = s\<lparr>io_tasks := io_tasks s', io_queue_start := io_queue_start s', io_queue_last := io_queue_last s'\<rparr>"
proof (cases "xs = []")
  case True
  then show ?thesis using q x by (auto simp: enqueue_io_task_def io_queue_def)
next
  case False
  have ne: "io_queue_start s \<noteq> 0" "io_queue_last s = last xs" "last xs \<noteq> x"
    using q False x last_in_set [OF False] by (cases xs; auto simp: io_queue_def)+
  let ?ts = "(io_tasks s)(last xs := (io_tasks s (last xs))\<lparr>io_next := x\<rparr>)"
  have "io_chain ?ts (io_queue_start s) (xs @ [x])"
    by (rule io_chain_append) (use q x False in \<open>auto simp: io_queue_def\<close>)
  then have "io_chain (?ts(x := (?ts x)\<lparr>io_prev := last xs\<rparr>)) (io_queue_start s) (xs @ [x])"
    by (subst io_chain_cong) auto
  then show ?thesis using q x ne False last_in_set [OF False]
    by (auto simp: enqueue_io_task_def io_queue_def upd_io_task_def)
qed

lemma io_fields_more:
  fixes s s' :: "'a io_state_scheme"
  assumes "block_state.more s' = block_state.more s"
  shows "io_tasks s' = io_tasks s" "io_queue_start s' = io_queue_start s" "io_queue_last s' = io_queue_last s"
    "io_queue_lock s' = io_queue_lock s" "nodes s' = nodes s"
  using assms by (cases s; cases s'; simp)+

lemma io_queue_same:
  assumes "\<And>x. x \<in> set xs \<Longrightarrow> io_next (io_tasks s' x) = io_next (io_tasks s x)"
    and "io_queue_start s' = io_queue_start s" "io_queue_last s' = io_queue_last s" "io_queue_lock s' = io_queue_lock s"
  shows "io_queue xs s' \<longleftrightarrow> io_queue xs s"
  using io_chain_cong [OF assms(1)] assms by (simp add: io_queue_def)

text \<open>
  What a turn does depends on the file systems of the requests. None of the repository has asynchronous operations, and
  then \<open>vfs_async_task_update\<close> returns at once.
\<close>

lemma io_update_tasks_idle:
  assumes "\<And>fs. async_callbacks (ops fs) = None"
  shows "io_chain (io_tasks s) p xs \<Longrightarrow> (\<And>x. x \<in> set xs \<Longrightarrow> io_node (io_tasks s x) \<noteq> 0) \<Longrightarrow> io_update_tasks ops p s = Some (Inr s)"
proof (induction xs arbitrary: p)
  case Nil
  then show ?case by (subst io_update_tasks.simps) simp
next
  case (Cons x xs)
  then show ?case by (subst io_update_tasks.simps) (simp add: vfs_async_task_update_def assms)
qed

lemma io_executor_turn_idle:
  assumes "io_queue xs s" "\<And>x. x \<in> set xs \<Longrightarrow> io_node (io_tasks s x) \<noteq> 0" "\<And>fs. async_callbacks (ops fs) = None"
  shows "io_executor_turn ops s = Some (Inr (s\<lparr>interrupts_enabled := False\<rparr>))"
  using assms io_update_tasks_idle [of ops "s\<lparr>interrupts_enabled := False, io_queue_lock := 1\<rparr>" "io_queue_start s" xs]
  by (simp add: io_executor_turn_def io_queue_def spinlock_release_eq)

subsection \<open>Properties\<close>

text \<open>
  (C33) A request for input or output, with the file systems of the repository, of which none has asynchronous operations. With
  room on the heap \<open>io_queue_task\<close> returns a new request that holds what was asked, at the end of the queue; the requests before
  keep their place and, links aside, their contents. A turn of the executor then returns, releases the queue and leaves every
  request as it is: only a file system with asynchronous operations would finish one.
\<close>

theorem io_queue_task_appends:
  assumes "heap_view R (Suc k) objs s" "io_queue xs s" "set xs \<subseteq> fst ` set objs" "node \<noteq> 0"
    and none: "\<And>fs. async_callbacks (ops fs) = None" and "\<And>y. y \<in> set xs \<Longrightarrow> io_node (io_tasks s y) \<noteq> 0"
  shows "\<exists>x s'. io_queue_task ops node operation buffer n offset s = Inr (x, s') \<and> io_queue (xs @ [x]) s' \<and>
    heap_view R k ((x, replicate 72 0) # objs) s' \<and>
    io_tasks s' x = zero_io_task\<lparr>io_node := node, io_operation := operation, io_buffer := buffer, io_size := n,
      io_offset := offset, io_prev := if xs = [] then 0 else last xs\<rparr> \<and>
    (\<forall>t. t \<noteq> x \<longrightarrow> io_tasks s' t = (io_tasks s t)\<lparr>io_next := io_next (io_tasks s' t), io_prev := io_prev (io_tasks s' t)\<rparr>) \<and>
    io_executor_turn ops s' = Some (Inr (s'\<lparr>interrupts_enabled := False\<rparr>))"
proof -
  have "unat (72 :: u64) = 72" "(72 :: nat) \<le> 4048" by simp_all
  from kh.alloc_below [OF assms(1), of 72, unfolded this(1), OF this(2)]
  obtain x s1 where a: "block_allocate 72 s = Inr (x, s1)" and h: "heap_view R k ((x, replicate 72 0) # objs) s1"
    and m: "block_state.more s1 = block_state.more s" by blast
  note f = io_fields_more [OF m]
  let ?t = "zero_io_task\<lparr>io_done := False, io_buffer := buffer, io_offset := offset, io_size := n, io_operation := operation, io_node := node\<rparr>"
  define s2 where "s2 = upd_io_task x (is_async_update (\<lambda>_. False)) (upd_io_task x (\<lambda>_. ?t) s1)"
  have x: "x \<notin> set xs" "x \<noteq> 0" using kh.address_law [OF h] assms(3) by auto
  have t: "io_tasks s2 = (io_tasks s)(x := ?t)" by (auto simp: s2_def upd_io_task_def f zero_io_task_def)
  have "io_queue xs s2"
    by (subst io_queue_same [where s = s]) (use assms(2) x in \<open>auto simp: t s2_def upd_io_task_def f\<close>)
  moreover have "io_next (io_tasks s2 x) = 0" by (simp add: t zero_io_task_def)
  ultimately obtain s' where s': "enqueue_io_task x s2 = Inr s'" "io_queue (xs @ [x]) s'"
    "\<And>t. io_tasks s' t = (io_tasks s2 t)\<lparr>io_next := io_next (io_tasks s' t), io_prev := io_prev (io_tasks s' t)\<rparr>"
    "io_prev (io_tasks s' x) = (if xs = [] then io_prev (io_tasks s2 x) else last xs)"
    "s' = s2\<lparr>io_tasks := io_tasks s', io_queue_start := io_queue_start s', io_queue_last := io_queue_last s'\<rparr>"
    using enqueue_appends [OF _ x] by blast
  have "io_queue_task ops node operation buffer n offset s = Inr (x, s')"
    using a s'(1) assms(4,5) by (simp add: io_queue_task_def vfs_async_task_register_def s2_def upd_io_task_def f)
  moreover have "heap_view R k ((x, replicate 72 0) # objs) s'"
    using h by (subst heap_view_same [where s = s1]) (subst s'(5), simp add: s2_def upd_io_task_def)+
  moreover have nx: "io_next (io_tasks s' x) = 0"
  proof -
    have "io_chain ts p (ys @ [x]) \<Longrightarrow> io_next (ts x) = 0" for ts p ys by (induction ys arbitrary: p) auto
    then show ?thesis using s'(2) by (auto simp: io_queue_def)
  qed
  moreover from nx s'(3) [of x] s'(4) have "io_tasks s' x = zero_io_task\<lparr>io_node := node, io_operation := operation,
      io_buffer := buffer, io_size := n, io_offset := offset, io_prev := if xs = [] then 0 else last xs\<rparr>"
    by (simp add: t zero_io_task_def)
  moreover have "io_tasks s' u = (io_tasks s u)\<lparr>io_next := io_next (io_tasks s' u), io_prev := io_prev (io_tasks s' u)\<rparr>"
    if "u \<noteq> x" for u using s'(3) [of u] that by (simp add: t)
  moreover have "io_node (io_tasks s' y) \<noteq> 0" if "y \<in> set (xs @ [x])" for y
  proof -
    have "io_node (io_tasks s' y) = io_node (io_tasks s2 y)" using s'(3) [of y] by (metis io_task.select_convs(5) io_task.surjective io_task.update_convs(3,4))
    then show ?thesis using that assms(4,6) x(1) by (auto simp: t)
  qed
  then have "io_executor_turn ops s' = Some (Inr (s'\<lparr>interrupts_enabled := False\<rparr>))"
    by (rule io_executor_turn_idle [OF s'(2) _ none])
  ultimately show ?thesis using s'(2) by blast
qed

text \<open>A booted kernel with an empty queue, and file systems without asynchronous operations.\<close>

definition io_boot :: "block_state \<Rightarrow> io_state" where
  "io_boot s = vfs_state.extend (vfs_boot s) (io_state.fields (\<lambda>_. zero_io_task) 0 0 0)"

definition plain_ops :: "u64 \<Rightarrow> io_state vfs_fs_ops" where
  "plain_ops fs = \<lparr>fs_open = None, fs_read = None, fs_write = None, fs_lseek = None, fs_close = None, fs_dup = None,
     fs_async_task_register = None, fs_async_task_update = None, fs_async_task_unregister = None\<rparr>"

lemmas io_boot_defs = io_boot_def vfs_boot_def block_state.defs sched_state.defs vfs_state.defs io_state.defs

theorem io_queue_task_appends_witness:
  "\<exists>s x s'. io_queue_task plain_ops 7 io_write 0x100 8 0 s = Inr (x, s') \<and> io_queue [x] s' \<and> io_size (io_tasks s' x) = 8 \<and>
     io_executor_turn plain_ops s' = Some (Inr (s'\<lparr>interrupts_enabled := False\<rparr>))"
proof -
  obtain r b where b: "heap_view {r} 3 [] (b :: block_state)" using heap_boot_view by metis
  let ?s = "io_boot b"
  have h: "heap_view {r} (Suc 2) [] ?s" using b by (subst heap_view_same [where s = b]) (simp_all add: io_boot_defs numeral_3_eq_3 numeral_2_eq_2)
  have q: "io_queue [] ?s" by (simp add: io_queue_def io_boot_defs)
  have n: "async_callbacks (plain_ops fs) = None" for fs by (simp add: async_callbacks_def plain_ops_def)
  note w = io_queue_task_appends [where node = 7 and ops = plain_ops and operation = io_write and buffer = "0x100" and n = 8 and offset = 0,
      OF h q _ _ n]
  obtain x s' where "io_queue_task plain_ops 7 io_write 0x100 8 0 ?s = Inr (x, s')" "io_queue ([] @ [x]) s'"
    "io_tasks s' x = zero_io_task\<lparr>io_node := 7, io_operation := io_write, io_buffer := 0x100, io_size := 8, io_offset := 0,
       io_prev := if ([] :: u64 list) = [] then 0 else last []\<rparr>"
    "io_executor_turn plain_ops s' = Some (Inr (s'\<lparr>interrupts_enabled := False\<rparr>))"
    using w by auto
  then show ?thesis by (intro exI [of _ ?s] exI [of _ x] exI [of _ s']) simp
qed

end
