(* ===== verification/Acpi.thy ===== *)
theory Acpi
  imports Devices Vfs_Correct
begin

text \<open>
  The tables of the firmware, \<open>kernel/src/acpi/acpi.c\<close>: finding a table by its signature through the
  root table of either revision, and the devices made of the tables.

  The tables are bytes in memory, laid out as the packed structures of \<open>acpi.c\<close> and \<open>acpi.h\<close> have it.
\<close>

subsection \<open>Structures\<close>

record acpi_state = dev_state +
  sdt :: u64
  sdp :: u64
  acpi_revision :: u8

text \<open>The fields of \<open>acpi_xsdp_t\<close> and \<open>acpi_sdt_header_t\<close> that are read; \<open>sizeof(acpi_sdt_header_t)\<close>.\<close>

definition xsdp_revision :: "mem8 \<Rightarrow> u64 \<Rightarrow> u8" where "xsdp_revision m p = m (p + 15)"
definition xsdp_rsdt :: "mem8 \<Rightarrow> u64 \<Rightarrow> u64" where "xsdp_rsdt m p = load_le m (p + 16) 4"
definition xsdp_xsdt :: "mem8 \<Rightarrow> u64 \<Rightarrow> u64" where "xsdp_xsdt m p = load_le m (p + 24) 8"
definition sdt_length :: "mem8 \<Rightarrow> u64 \<Rightarrow> u64" where "sdt_length m p = load_le m (p + 4) 4"

abbreviation (input) SDT_HEADER_SIZE :: u64 where "SDT_HEADER_SIZE \<equiv> 36"

subsection \<open>Looking up a table\<close>

text \<open>The header that the entry \<open>i\<close> of a root table with entries of \<open>width\<close> bytes points to.\<close>

definition sdt_entries :: "mem8 \<Rightarrow> u64 \<Rightarrow> u64 \<Rightarrow> u64" where
  "sdt_entries m table width = (sdt_length m table - SDT_HEADER_SIZE) div width"

definition sdt_entry :: "mem8 \<Rightarrow> u64 \<Rightarrow> u64 \<Rightarrow> nat \<Rightarrow> nat \<Rightarrow> u64" where
  "sdt_entry m hhdm table width i = load_le m (table + SDT_HEADER_SIZE + of_nat i * of_nat width) width + hhdm"

definition acpi_get_table_xsdt :: "u64 \<Rightarrow> 'a acpi_state_scheme \<Rightarrow> u64" where
  "acpi_get_table_xsdt sig s =
     (let m = heap_bytes s;
          header = sdt_entry m (kernel_hhdm_offset s) (sdt s) 8
      in case find (\<lambda>i. memcmp m (header i) sig 4 = 0) [0..<unat (sdt_entries m (sdt s) 8)] of
           None \<Rightarrow> 0
         | Some i \<Rightarrow> header i)"

definition acpi_get_table_rsdt :: "u64 \<Rightarrow> 'a acpi_state_scheme \<Rightarrow> u64" where
  "acpi_get_table_rsdt sig s =
     (let m = heap_bytes s;
          header = sdt_entry m (kernel_hhdm_offset s) (sdt s) 4
      in case find (\<lambda>i. memcmp m (header i) sig 4 = 0) [0..<unat (sdt_entries m (sdt s) 4)] of
           None \<Rightarrow> 0
         | Some i \<Rightarrow> header i)"

definition acpi_get_table :: "u64 \<Rightarrow> 'a acpi_state_scheme \<Rightarrow> u64" where
  "acpi_get_table sig s =
     (if xsdp_revision (heap_bytes s) (sdp s) = 0 then acpi_get_table_rsdt sig s
      else acpi_get_table_xsdt sig s)"

text \<open>\<open>rsdp\<close> is the address in the boot loader's response.\<close>

definition acpi_init :: "u64 \<Rightarrow> 'a acpi_state_scheme \<Rightarrow> 'a acpi_state_scheme" where
  "acpi_init rsdp s =
     (let m = heap_bytes s;
          s = s\<lparr>sdp := rsdp, acpi_revision := xsdp_revision m rsdp\<rparr>
      in if xsdp_revision m rsdp = 0 then s\<lparr>sdt := xsdp_rsdt m rsdp + kernel_hhdm_offset s\<rparr>
         else s\<lparr>sdt := xsdp_xsdt m rsdp + kernel_hhdm_offset s\<rparr>)"

subsection \<open>Devices\<close>

text \<open>The callbacks of the devices return the buffer they were given, whatever was asked.\<close>

definition acpi_read :: "u64 \<Rightarrow> u64 \<Rightarrow> u64 \<Rightarrow> 'a acpi_state_scheme \<Rightarrow> (u64 \<times> 'a acpi_state_scheme) res" where
  "acpi_read node buffer n s = Inr (buffer, s)"

definition acpi_write :: "u64 \<Rightarrow> u64 \<Rightarrow> u64 \<Rightarrow> 'a acpi_state_scheme \<Rightarrow> (u64 \<times> 'a acpi_state_scheme) res" where
  "acpi_write node buffer n s = Inr (buffer, s)"

text \<open>The loop over the tables: \<open>path\<close> already holds \<open>/acpi/\<close>, the signature goes behind it.\<close>

fun create_table_devices ::
  "nat \<Rightarrow> u64 \<Rightarrow> u64 \<Rightarrow> u64 \<Rightarrow> u64 \<Rightarrow> nat \<Rightarrow> nat list \<Rightarrow> 'a acpi_state_scheme \<Rightarrow> 'a acpi_state_scheme res" where
  "create_table_devices fuel dot path read write width [] s = Inr s"
| "create_table_devices fuel dot path read write width (i # is) s =
     (let header = sdt_entry (heap_bytes s) (kernel_hhdm_offset s) (sdt s) width i;
          m = memcpy (heap_bytes s) (path + 6) header 4
      in case device_create_at fuel dot path acpi_table 0 read write (s\<lparr>heap_bytes := m(path + (6 + 4) := 0)\<rparr>) of
           Inl e \<Rightarrow> Inl e
         | Inr (_, s) \<Rightarrow> create_table_devices fuel dot path read write width is s)"

text \<open>\<open>root\<close> is the address of the string \<open>"/acpi/"\<close>, \<open>read\<close> and \<open>write\<close> of the two callbacks.\<close>

definition acpi_create_device ::
  "nat \<Rightarrow> u64 \<Rightarrow> u64 \<Rightarrow> u64 \<Rightarrow> u64 \<Rightarrow> 'a acpi_state_scheme \<Rightarrow> 'a acpi_state_scheme res" where
  "acpi_create_device fuel dot root read write s =
     (case allocate_buffer s of
        Inl e \<Rightarrow> Inl e
      | Inr (path, s) \<Rightarrow>
     case strcpy (heap_bytes s) path root of
        None \<Rightarrow> Inl Diverges
      | Some m \<Rightarrow>
     case device_create_at fuel dot path reserved 0 0 0 (s\<lparr>heap_bytes := m\<rparr>) of
        Inl e \<Rightarrow> Inl e
      | Inr (_, s) \<Rightarrow>
     let width = (if xsdp_revision (heap_bytes s) (sdp s) = 0 then 4 else 8)
     in case create_table_devices fuel dot path read write width
               [0..<unat (sdt_entries (heap_bytes s) (sdt s) (of_nat width))] s of
          Inl e \<Rightarrow> Inl e
        | Inr s \<Rightarrow> page_deallocate path 1 s)"

subsection \<open>The root table as a list\<close>

text \<open>A root table whose entries are the given physical addresses, in the width of its revision.\<close>

definition root_table :: "u64 list \<Rightarrow> 'a acpi_state_scheme \<Rightarrow> bool" where
  "root_table tables s \<longleftrightarrow>
     (let m = heap_bytes s; width = (if xsdp_revision m (sdp s) = 0 then 4 else 8)
      in length tables < 2 ^ 32 \<and> sdt_length m (sdt s) = 36 + of_nat (length tables) * of_nat width \<and>
         (\<forall>i < length tables. load_le m (sdt s + 36 + of_nat i * of_nat width) width = tables ! i))"

text \<open>The first table with a signature, as the tables are listed; null when there is none.\<close>

fun table_with :: "mem8 \<Rightarrow> u64 \<Rightarrow> u8 list \<Rightarrow> u64 list \<Rightarrow> u64" where
  "table_with m hhdm sig [] = 0"
| "table_with m hhdm sig (t # ts) = (if bytes_at m (t + hhdm) 4 = sig then t + hhdm else table_with m hhdm sig ts)"

lemma find_table:
  assumes "\<And>i. i < length tables \<Longrightarrow> header i = tables ! i + hhdm"
  shows "(case find (\<lambda>i. memcmp m (header i) sig 4 = 0) [0..<length tables] of None \<Rightarrow> 0 | Some i \<Rightarrow> header i) =
    table_with m hhdm (bytes_at m sig 4) tables"
proof -
  have "(case find (\<lambda>i. memcmp m (header i) sig 4 = 0) [k..<length tables] of None \<Rightarrow> 0 | Some i \<Rightarrow> header i) =
    table_with m hhdm (bytes_at m sig 4) (drop k tables)" if "k \<le> length tables" for k
    using that
  proof (induction "length tables - k" arbitrary: k)
    case 0
    then show ?case by simp
  next
    case (Suc n)
    then have k: "k < length tables" by simp
    have "[k..<length tables] = k # [Suc k..<length tables]" using k by (rule upt_conv_Cons)
    moreover have "drop k tables = tables ! k # drop (Suc k) tables" using k by (simp add: Cons_nth_drop_Suc)
    moreover have "memcmp m (tables ! k + hhdm) sig 4 = 0 \<longleftrightarrow> bytes_at m (tables ! k + hhdm) 4 = bytes_at m sig 4"
      using memcmp_zero_iff [of m "tables ! k + hhdm" sig 4] by simp
    ultimately show ?case using Suc k assms [OF k] by simp
  qed
  from this [of 0] show ?thesis by simp
qed

lemma root_entries:
  assumes "n < 2 ^ 32" "w \<in> {4, 8}"
  shows "unat ((36 + of_nat n * w - 36) div w :: u64) = n"
proof -
  have "unat (of_nat n * w :: u64) = n * unat w"
    using assms by (subst unat_times_exact) (auto simp: unat_of_nat_exact)
  then show ?thesis using assms(2) by (auto simp: unat_div)
qed

subsection \<open>Properties\<close>

text \<open>
  Looking up a signature gives the first table of the root table that carries it, and null when none does, with
  entries of four bytes in revision 0 and of eight bytes in later ones.
\<close>

theorem acpi_get_table_correct:
  assumes "root_table tables s"
  shows "acpi_get_table sig s =
    table_with (heap_bytes s) (kernel_hhdm_offset s) (bytes_at (heap_bytes s) sig 4) tables"
proof (cases "xsdp_revision (heap_bytes s) (sdp s) = 0")
  case True
  have "unat (sdt_entries (heap_bytes s) (sdt s) 4) = length tables"
    using assms True root_entries [of "length tables" 4] by (simp add: root_table_def sdt_entries_def Let_def)
  moreover have "sdt_entry (heap_bytes s) (kernel_hhdm_offset s) (sdt s) 4 i = tables ! i + kernel_hhdm_offset s" if "i < length tables" for i
    using assms True that by (simp add: root_table_def sdt_entry_def Let_def)
  ultimately show ?thesis
    using True find_table [of tables "sdt_entry (heap_bytes s) (kernel_hhdm_offset s) (sdt s) 4"]
    by (simp add: acpi_get_table_def acpi_get_table_rsdt_def Let_def)
next
  case False
  have "unat (sdt_entries (heap_bytes s) (sdt s) 8) = length tables"
    using assms False root_entries [of "length tables" 8] by (simp add: root_table_def sdt_entries_def Let_def)
  moreover have "sdt_entry (heap_bytes s) (kernel_hhdm_offset s) (sdt s) 8 i = tables ! i + kernel_hhdm_offset s" if "i < length tables" for i
    using assms False that by (simp add: root_table_def sdt_entry_def Let_def)
  ultimately show ?thesis
    using False find_table [of tables "sdt_entry (heap_bytes s) (kernel_hhdm_offset s) (sdt s) 8"]
    by (simp add: acpi_get_table_def acpi_get_table_xsdt_def Let_def)
qed

text \<open>Firmware of revision 0 with the tables \<open>FACP\<close> and \<open>HPET\<close>, and the string \<open>"HPET"\<close>.\<close>

definition acpi_memory :: mem8 where
  "acpi_memory = (\<lambda>_. 0)(0x111 := 4, 0x404 := 44, 0x425 := 0x10, 0x429 := 0x20,
     0x1000 := 0x46, 0x1001 := 0x41, 0x1002 := 0x43, 0x1003 := 0x50,
     0x2000 := 0x48, 0x2001 := 0x50, 0x2002 := 0x45, 0x2003 := 0x54, 0x300 := 0x48, 0x301 := 0x50, 0x302 := 0x45, 0x303 := 0x54)"

definition acpi_machine :: acpi_state where
  "acpi_machine = acpi_init 0x100 (dev_state.extend (vfs_state.extend
     (vfs_boot (heap_boot\<lparr>heap_bytes := acpi_memory, kernel_hhdm_offset := 0\<rparr>)) (dev_state.fields (\<lambda>_. zero_device) 0))
     (acpi_state.fields 0 0 0))"

lemma acpi_machine_fields:
  "heap_bytes acpi_machine = acpi_memory" "kernel_hhdm_offset acpi_machine = 0" "sdp acpi_machine = 0x100" "sdt acpi_machine = 0x400"
  "xsdp_revision acpi_memory 0x100 = 0"
  by (simp_all add: acpi_machine_def acpi_init_def Let_def xsdp_revision_def xsdp_rsdt_def load_le_4 push_bit_eq_mult vfs_boot_def
      block_state.defs sched_state.defs vfs_state.defs dev_state.defs acpi_state.defs) (simp_all add: acpi_memory_def)

theorem acpi_get_table_correct_witness: "acpi_get_table 0x300 acpi_machine = 0x2000"
proof -
  have "load_le acpi_memory (0x400 + 36 + of_nat i * 4) 4 = [0x1000, 0x2000] ! i" if "i < 2" for i
    using that by (cases i) (simp_all add: load_le_4 push_bit_eq_mult acpi_memory_def)
  moreover have "sdt_length acpi_memory 0x400 = 44" by (simp add: sdt_length_def load_le_4 push_bit_eq_mult acpi_memory_def)
  ultimately have "root_table [0x1000, 0x2000] acpi_machine"
    by (simp add: root_table_def Let_def acpi_machine_fields numeral_2_eq_2 [symmetric])
  then have "acpi_get_table 0x300 acpi_machine = table_with acpi_memory 0 (bytes_at acpi_memory 0x300 4) [0x1000, 0x2000]"
    using acpi_get_table_correct by (metis acpi_machine_fields(1,2))
  also have "\<dots> = 0x2000" by (simp add: bytes_at_def upt_rec acpi_memory_def)
  finally show ?thesis .
qed

end
