(* ===== verification/Uart.thy ===== *)
theory Uart
  imports Devices Libc_Correct
begin

text \<open>
  The serial port, \<open>kernel/src/devices/serial/uart16550/uart.c\<close> and \<open>kernel/src/devices/serial/serial.c\<close>, and the
  kernel output that goes there.

  The port is hardware: \<open>pio\<close> holds what reading and writing a port does to it (the instructions of
  \<open>kernel/src/arch/x86_64/pio.h\<close>) and is an argument; its state has the type \<open>'h\<close>. A wait for the
  port that never ends is \<open>None\<close>.
\<close>

subsection \<open>Ports\<close>

record 'h pio =
  arch_pio_read8 :: "u16 \<Rightarrow> 'h \<Rightarrow> u8 \<times> 'h"
  arch_pio_write8 :: "u16 \<Rightarrow> u8 \<Rightarrow> 'h \<Rightarrow> 'h"

abbreviation (input) COM_PORT_DATA :: u16 where "COM_PORT_DATA \<equiv> 0x3F8"
abbreviation (input) COM_PORT_INTERRUPT_ENABLE :: u16 where "COM_PORT_INTERRUPT_ENABLE \<equiv> 0x3F9"
abbreviation (input) COM_PORT_FIFO_CONTROL :: u16 where "COM_PORT_FIFO_CONTROL \<equiv> 0x3FA"
abbreviation (input) COM_PORT_LINE_CONTROL :: u16 where "COM_PORT_LINE_CONTROL \<equiv> 0x3FB"
abbreviation (input) COM_PORT_MODEM_CONTROL :: u16 where "COM_PORT_MODEM_CONTROL \<equiv> 0x3FC"
abbreviation (input) COM_PORT_LINE_STATUS :: u16 where "COM_PORT_LINE_STATUS \<equiv> 0x3FD"

text \<open>Read a port, change the value, write it back.\<close>

definition modify_port :: "'h pio \<Rightarrow> u16 \<Rightarrow> (u8 \<Rightarrow> u8) \<Rightarrow> 'h \<Rightarrow> 'h" where
  "modify_port pio port f h = (let (v, h) = arch_pio_read8 pio port h in arch_pio_write8 pio port (f v) h)"

subsection \<open>Initialisation\<close>

definition uart16650_detect :: "'h pio \<Rightarrow> 'h \<Rightarrow> bool \<times> 'h" where
  "uart16650_detect pio h =
     (let h = modify_port pio COM_PORT_MODEM_CONTROL (\<lambda>v. v OR 0x10) h;
          h = arch_pio_write8 pio COM_PORT_DATA 0x58 h;
          (v, h) = arch_pio_read8 pio COM_PORT_DATA h
      in if v \<noteq> 0x58 then (False, h)
         else (True, modify_port pio COM_PORT_MODEM_CONTROL (\<lambda>v. v AND NOT 0x10) h))"

text \<open>The result is whether the port is present: the new value of \<open>uart16650_present\<close> if it was false.\<close>

definition uart16550_init :: "'h pio \<Rightarrow> 'h \<Rightarrow> bool \<times> 'h" where
  "uart16550_init pio h =
     (let divisor = 1 :: u16;
          h = modify_port pio COM_PORT_LINE_CONTROL (\<lambda>v. v OR 0x80) h;
          h = arch_pio_write8 pio COM_PORT_DATA (ucast (divisor AND 0xFF)) h;
          h = arch_pio_write8 pio COM_PORT_INTERRUPT_ENABLE (ucast (drop_bit 8 divisor)) h;
          h = modify_port pio COM_PORT_LINE_CONTROL (\<lambda>v. v AND NOT 0x80) h;
          h = modify_port pio COM_PORT_LINE_CONTROL (\<lambda>v. v AND NOT 7) h;
          h = modify_port pio COM_PORT_LINE_CONTROL (\<lambda>v. v OR 3) h;
          h = modify_port pio COM_PORT_LINE_CONTROL (\<lambda>v. v OR 0) h;
          h = arch_pio_write8 pio COM_PORT_FIFO_CONTROL 0x31 h
      in uart16650_detect pio h)"

subsection \<open>Sending\<close>

definition uart16550_can_send :: "'h pio \<Rightarrow> 'h \<Rightarrow> bool \<times> 'h" where
  "uart16550_can_send pio h = (let (v, h) = arch_pio_read8 pio COM_PORT_LINE_STATUS h in (v AND 0x20 \<noteq> 0, h))"

partial_function (option) wait_can_send :: "'h pio \<Rightarrow> 'h \<Rightarrow> 'h option" where
  "wait_can_send pio h =
     (case uart16550_can_send pio h of (ready, h) \<Rightarrow> if ready then Some h else wait_can_send pio h)"

definition send_when_ready :: "'h pio \<Rightarrow> u8 \<Rightarrow> 'h \<Rightarrow> 'h option" where
  "send_when_ready pio byte h = map_option (arch_pio_write8 pio COM_PORT_DATA byte) (wait_can_send pio h)"

text \<open>
  A line feed is preceded by a carriage return: the one call of \<open>uart16550_send_byte\<close> to itself, which does
  not call again.
\<close>

definition uart16550_send_byte :: "'h pio \<Rightarrow> bool \<Rightarrow> u8 \<Rightarrow> 'h \<Rightarrow> 'h option" where
  "uart16550_send_byte pio uart16650_present byte h =
     (if \<not> uart16650_present then Some h
      else Option.bind (if byte = 0x0A then send_when_ready pio 0x0D h else Some h) (send_when_ready pio byte))"

partial_function (option) send_characters :: "'h pio \<Rightarrow> bool \<Rightarrow> mem8 \<Rightarrow> u64 \<Rightarrow> 'h \<Rightarrow> 'h option" where
  "send_characters pio uart16650_present m string h =
     (if m string = 0 then Some h
      else Option.bind (uart16550_send_byte pio uart16650_present (m string) h)
             (send_characters pio uart16650_present m (string + 1)))"

definition uart16550_send_string :: "'h pio \<Rightarrow> bool \<Rightarrow> mem8 \<Rightarrow> u64 \<Rightarrow> 'h \<Rightarrow> 'h option" where
  "uart16550_send_string pio uart16650_present m string h =
     (if \<not> uart16650_present then Some h else send_characters pio uart16650_present m string h)"

subsection \<open>The device\<close>

text \<open>
  The callbacks take an \<open>offset\<close> that the device manager does not pass; it is whatever the register holds. The
  result is a pointer, read by the caller as a number of bytes.
\<close>

definition uart16550_read :: "u64 \<Rightarrow> u64 \<Rightarrow> u64 \<Rightarrow> u64 \<Rightarrow> 'h \<Rightarrow> u64 \<times> 'h" where
  "uart16550_read node buffer n offset h = (0, h)"

definition uart16550_write :: "'h pio \<Rightarrow> bool \<Rightarrow> mem8 \<Rightarrow> u64 \<Rightarrow> u64 \<Rightarrow> u64 \<Rightarrow> u64 \<Rightarrow> 'h \<Rightarrow> (u64 \<times> 'h) option" where
  "uart16550_write pio uart16650_present m node buffer n offset h =
     map_option (Pair (buffer + offset))
       (fold (\<lambda>i h. Option.bind h (uart16550_send_byte pio uart16650_present (m (buffer + offset + of_nat i))))
          [0..<unat n] (Some h))"

text \<open>\<open>path\<close> is the address of the string \<open>"/uart0"\<close>.\<close>

definition uart16550_create_device ::
  "nat \<Rightarrow> u64 \<Rightarrow> bool \<Rightarrow> u64 \<Rightarrow> u64 \<Rightarrow> u64 \<Rightarrow> 'a dev_state_scheme \<Rightarrow> 'a dev_state_scheme res" where
  "uart16550_create_device fuel dot uart16650_present path read write s =
     (if \<not> uart16650_present then Inr s
      else map_sum id snd (device_create_at fuel dot path serial 0 read write s))"

subsection \<open>Kernel output on the serial port\<close>

definition serial_init :: "'h pio \<Rightarrow> 'h \<Rightarrow> bool \<times> 'h" where
  "serial_init pio = uart16550_init pio"

definition serial_send_string :: "'h pio \<Rightarrow> bool \<Rightarrow> mem8 \<Rightarrow> u64 \<Rightarrow> 'h \<Rightarrow> 'h option" where
  "serial_send_string pio uart16650_present m string h = uart16550_send_string pio uart16650_present m string h"

definition serial_create_device ::
  "nat \<Rightarrow> u64 \<Rightarrow> bool \<Rightarrow> u64 \<Rightarrow> u64 \<Rightarrow> u64 \<Rightarrow> 'a dev_state_scheme \<Rightarrow> 'a dev_state_scheme res" where
  "serial_create_device = uart16550_create_device"

definition serial_send_byte :: "'h pio \<Rightarrow> bool \<Rightarrow> u8 \<Rightarrow> 'h \<Rightarrow> 'h res" where
  "serial_send_byte pio uart16650_present byte h =
     (case uart16550_send_byte pio uart16650_present byte h of None \<Rightarrow> Inl Diverges | Some h \<Rightarrow> Inr h)"

definition vprintk_serial_unsafe ::
  "'h pio \<Rightarrow> bool \<Rightarrow> mem8 \<Rightarrow> u64 \<Rightarrow> u64 \<Rightarrow> u64 list \<Rightarrow> 'h \<Rightarrow> (mem8 \<times> 'h) res option" where
  "vprintk_serial_unsafe pio uart16650_present = vprintk_unsafe (serial_send_byte pio uart16650_present)"

definition vprintk_serial ::
  "'h pio \<Rightarrow> bool \<Rightarrow> mem8 \<Rightarrow> u64 \<Rightarrow> u64 \<Rightarrow> u64 list \<Rightarrow> u64 \<Rightarrow> 'h \<Rightarrow> (u64 \<times> mem8 \<times> 'h) res option" where
  "vprintk_serial pio uart16650_present m buffer fmt args printk_lock h =
     (case spinlock_acquire printk_lock of
        Inl e \<Rightarrow> Some (Inl e)
      | Inr lock \<Rightarrow> map_option (map_sum id (Pair (spinlock_release lock)))
          (vprintk_serial_unsafe pio uart16650_present m buffer fmt args h))"

subsection \<open>A port that works\<close>

text \<open>
  What the data sheet of the 16550 says of the transmitter: bit 5 of the line status tells that it is empty,
  which it is after some time, and a byte written to the data port then goes out on the line.
  \<open>sent\<close> is what went out so far, \<open>busy\<close> how many more looks at the status find the transmitter occupied.
\<close>

definition uart_transmits :: "'h pio \<Rightarrow> ('h \<Rightarrow> u8 list) \<Rightarrow> ('h \<Rightarrow> nat) \<Rightarrow> bool" where
  "uart_transmits pio sent busy \<longleftrightarrow>
     (\<forall>h. let (v, h') = arch_pio_read8 pio COM_PORT_LINE_STATUS h
          in (v AND 0x20 \<noteq> 0 \<longleftrightarrow> busy h = 0) \<and> sent h' = sent h \<and> (if busy h = 0 then busy h' = 0 else busy h' < busy h)) \<and>
     (\<forall>h b. busy h = 0 \<longrightarrow> sent (arch_pio_write8 pio COM_PORT_DATA b h) = sent h @ [b])"

text \<open>Line feeds as a serial terminal wants them.\<close>

definition crlf :: "u8 list \<Rightarrow> u8 list" where
  "crlf cs = concat (map (\<lambda>c. if c = 0x0A then [0x0D, 0x0A] else [c]) cs)"

lemma wait_can_send_returns:
  assumes "uart_transmits pio sent busy"
  shows "\<exists>h'. wait_can_send pio h = Some h' \<and> busy h' = 0 \<and> sent h' = sent h"
proof (induction "busy h" arbitrary: h rule: less_induct)
  case less
  obtain v h1 where r: "arch_pio_read8 pio COM_PORT_LINE_STATUS h = (v, h1)" by fastforce
  have law: "v AND 0x20 \<noteq> 0 \<longleftrightarrow> busy h = 0" "sent h1 = sent h" "if busy h = 0 then busy h1 = 0 else busy h1 < busy h"
    using assms r unfolding uart_transmits_def by (auto dest!: spec [of _ h] simp: Let_def split: if_splits)
  show ?case
  proof (cases "busy h = 0")
    case True
    then show ?thesis using law r by (subst wait_can_send.simps) (simp add: uart16550_can_send_def)
  next
    case False
    then show ?thesis using law r less [of h1] by (subst wait_can_send.simps) (simp add: uart16550_can_send_def)
  qed
qed

lemma send_when_ready_sends:
  assumes "uart_transmits pio sent busy"
  shows "\<exists>h'. send_when_ready pio b h = Some h' \<and> sent h' = sent h @ [b]"
  using wait_can_send_returns [OF assms, of h] assms by (auto simp: send_when_ready_def uart_transmits_def)

lemma send_byte_sends:
  assumes "uart_transmits pio sent busy"
  shows "\<exists>h'. uart16550_send_byte pio True b h = Some h' \<and> sent h' = sent h @ crlf [b]"
proof (cases "b = 0x0A")
  case True
  obtain h1 where h1: "send_when_ready pio 0x0D h = Some h1" "sent h1 = sent h @ [0x0D]"
    using send_when_ready_sends [OF assms] by blast
  obtain h2 where "send_when_ready pio 0x0A h1 = Some h2" "sent h2 = sent h1 @ [0x0A]"
    using send_when_ready_sends [OF assms] by blast
  then show ?thesis using h1 True by (simp add: uart16550_send_byte_def crlf_def)
next
  case False
  then show ?thesis using send_when_ready_sends [OF assms, of b h] by (simp add: uart16550_send_byte_def crlf_def)
qed

lemma crlf_append [simp]: "crlf (xs @ ys) = crlf xs @ crlf ys"
  by (simp add: crlf_def)

lemma crlf_Nil [simp]: "crlf [] = []"
  by (simp add: crlf_def)

lemma crlf_Cons: "crlf (c # cs) = crlf [c] @ crlf cs"
  using crlf_append [of "[c]" cs] by simp

lemma send_string_sends:
  assumes "uart_transmits pio sent busy" "cstr m string cs"
  shows "\<exists>h'. send_characters pio True m string h = Some h' \<and> sent h' = sent h @ crlf cs"
  using assms(2)
proof (induction cs arbitrary: string h)
  case Nil
  then show ?case by (subst send_characters.simps) simp
next
  case (Cons c cs)
  obtain h1 where h1: "uart16550_send_byte pio True c h = Some h1" "sent h1 = sent h @ crlf [c]"
    using send_byte_sends [OF assms(1)] by blast
  obtain h2 where "send_characters pio True m (string + 1) h1 = Some h2" "sent h2 = sent h1 @ crlf cs"
    using Cons by auto
  then show ?case using h1 Cons.prems by (subst send_characters.simps) (auto simp: crlf_Cons [of c cs])
qed

text \<open>The port as a place for output that never fails.\<close>

definition serial_sink :: "'h pio \<Rightarrow> u8 \<Rightarrow> 'h \<Rightarrow> 'h" where
  "serial_sink pio b h = the (uart16550_send_byte pio True b h)"

lemma serial_send_byte_sink:
  assumes "uart_transmits pio sent busy"
  shows "serial_send_byte pio True = (\<lambda>b h. Inr (serial_sink pio b h))"
proof (intro ext)
  fix b h
  show "serial_send_byte pio True b h = Inr (serial_sink pio b h)"
    using send_byte_sends [OF assms, of b h] by (auto simp: serial_send_byte_def serial_sink_def)
qed

lemma serial_sink_sent:
  assumes "uart_transmits pio sent busy"
  shows "sent (fold (serial_sink pio) cs h) = sent h @ crlf cs"
proof (induction cs arbitrary: h)
  case (Cons c cs)
  then show ?case using send_byte_sends [OF assms, of c h] by (auto simp: serial_sink_def crlf_Cons [of c cs])
qed simp

lemma serial_text:
  assumes dev: "uart_transmits pio sent busy"
    and "cstr m fmt cs" "off_block buffer 32 fmt (Suc (length cs))" "args_ok m buffer f cs args"
  shows "\<exists>m' h'. vprintk_serial pio True m buffer fmt args 0 h = Some (Inr (0, m', h')) \<and>
    sent h' = sent h @ crlf (render f cs args) \<and> same_but_buffer buffer m m'"
proof -
  obtain m' where "vprintk_unsafe (\<lambda>c s. Inr (serial_sink pio c s)) m buffer fmt args h =
      Some (Inr (m', fold (serial_sink pio) (render f cs args) h))" "same_but_buffer buffer m m'"
    using vprintk_unsafe_text [OF assms(2-4), where g = "serial_sink pio" and s = h] by (elim exE conjE)
  then have "vprintk_serial pio True m buffer fmt args 0 h = Some (Inr (0, m', fold (serial_sink pio) (render f cs args) h))"
    "same_but_buffer buffer m m'"
    by (simp_all add: vprintk_serial_def vprintk_serial_unsafe_def serial_send_byte_sink [OF dev])
  then show ?thesis using serial_sink_sent [OF dev, of "render f cs args" h] by auto
qed

subsection \<open>Properties\<close>

text \<open>
  On a port that works, kernel output on the serial line returns and puts on the line exactly the rendered text, with
  every line feed preceded by a carriage return; the lock is free again and only the conversion buffer is
  overwritten. Strings sent directly come out the same way.
\<close>

theorem serial_output_correct:
  assumes dev: "uart_transmits pio sent busy"
    and "cstr m fmt cs" "off_block buffer 32 fmt (Suc (length cs))" "args_ok m buffer f cs args"
  shows "(\<exists>m' h'. vprintk_serial pio True m buffer fmt args 0 h = Some (Inr (0, m', h')) \<and>
      sent h' = sent h @ crlf (render f cs args) \<and> same_but_buffer buffer m m') \<and>
    (\<exists>h'. uart16550_send_string pio True m fmt h = Some h' \<and> sent h' = sent h @ crlf cs)"
  using serial_text [OF assms] send_string_sends [OF dev assms(2), of h] by (auto simp: uart16550_send_string_def)

text \<open>A port that is busy for two looks at its status after each byte.\<close>

record slow_port =
  port_busy :: nat
  port_sent :: "u8 list"

definition slow_pio :: "slow_port pio" where
  "slow_pio = \<lparr>arch_pio_read8 = (\<lambda>port h. if port = COM_PORT_LINE_STATUS
       then (if port_busy h = 0 then (0x20, h) else (0, h\<lparr>port_busy := port_busy h - 1\<rparr>)) else (0, h)),
     arch_pio_write8 = (\<lambda>port b h. if port = COM_PORT_DATA \<and> port_busy h = 0
       then h\<lparr>port_busy := 2, port_sent := port_sent h @ [b]\<rparr> else h)\<rparr>"

theorem serial_output_correct_witness:
  "\<exists>m' h'. vprintk_serial slow_pio True (put_bytes (\<lambda>_. 0) 0x1000 [0x25, 0x63, 0x0A]) 0x2000 0x1000 [0x41] 0 \<lparr>port_busy = 1, port_sent = []\<rparr> =
     Some (Inr (0, m', h')) \<and> port_sent h' = [0x41, 0x0D, 0x0A]"
proof -
  let ?m = "put_bytes (\<lambda>_. 0) 0x1000 [0x25, 0x63, 0x0A]"
  have "uart_transmits slow_pio port_sent port_busy" by (auto simp: uart_transmits_def slow_pio_def)
  moreover have "cstr ?m 0x1000 [0x25, 0x63, 0x0A]" by (simp add: put_bytes_def)
  moreover have "off_block 0x2000 32 0x1000 (Suc (length [0x25, 0x63, 0x0A :: u8]))"
    by (simp add: off_block_Suc) (simp add: off_block_def)
  moreover have "args_ok ?m 0x2000 (\<lambda>_. []) [0x25, 0x63, 0x0A] [0x41]" by simp
  moreover have "render (\<lambda>_. []) [0x25, 0x63, 0x0A] [0x41] = [0x41, 0x0A]" by (simp add: conversion_text_def)
  ultimately show ?thesis
    using serial_output_correct [of slow_pio port_sent port_busy ?m "0x1000" "[0x25, 0x63, 0x0A]" "0x2000" "\<lambda>_. []" "[0x41]"
        "\<lparr>port_busy = 1, port_sent = []\<rparr>"] by (auto simp: crlf_def)
qed

end
