(* ===== verification/Timers.thy ===== *)
theory Timers
  imports Clock Acpi
begin

text \<open>
  The time keeping sources: the HPET (\<open>kernel/src/arch/x86_64/timers/hpet.c\<close>), the time stamp counter
  (\<open>kernel/src/arch/x86_64/timers/tsc.c\<close>) and the ACPI timer (\<open>kernel/src/devices/timers/acpi_pm/pm.c\<close>).

  Counters are hardware: reading one is an argument that returns the value and the new state of the hardware, of type
  \<open>'h\<close>. A busy wait that never ends is \<open>None\<close>, a division by zero a panic.
\<close>

subsection \<open>High precision event timer\<close>

abbreviation (input) TABLE_ENTRY_CACHE_DISABLE :: u64 where "TABLE_ENTRY_CACHE_DISABLE \<equiv> 16"

record 'h mmio =
  mmio_read64 :: "u64 \<Rightarrow> 'h \<Rightarrow> u64 \<times> 'h"
  mmio_write64 :: "u64 \<Rightarrow> u64 \<Rightarrow> 'h \<Rightarrow> 'h"

record hpet_state =
  arch_hpet_header :: u64
  arch_hpet_ticks_to_nanoseconds :: u64

text \<open>The fields \<open>base_address.address_space\<close> and \<open>base_address.address\<close> of \<open>acpi_hpet_t\<close>.\<close>

definition hpet_address_space :: "mem8 \<Rightarrow> u64 \<Rightarrow> u8" where "hpet_address_space m header = m (header + 40)"
definition hpet_address :: "mem8 \<Rightarrow> u64 \<Rightarrow> u64" where "hpet_address m header = load_le m (header + 44) 8"

abbreviation (input) HPET_GENERAL_CAPABILITIES :: u64 where "HPET_GENERAL_CAPABILITIES \<equiv> 0"
abbreviation (input) HPET_GENERAL_CONFIGURATION :: u64 where "HPET_GENERAL_CONFIGURATION \<equiv> 0x10"
abbreviation (input) HPET_MAIN_COUNTER :: u64 where "HPET_MAIN_COUNTER \<equiv> 0xF0"
abbreviation (input) HPET_TIMER_CONFIGURATION_0 :: u64 where "HPET_TIMER_CONFIGURATION_0 \<equiv> 0x100"
abbreviation (input) HPET_TIMER_COMPARATOR_0 :: u64 where "HPET_TIMER_COMPARATOR_0 \<equiv> 0x108"

definition arch_hpet_write :: "'h mmio \<Rightarrow> u64 \<Rightarrow> u64 \<Rightarrow> u64 \<Rightarrow> u64 \<Rightarrow> 'h \<Rightarrow> 'h" where
  "arch_hpet_write io hhdm address offset data = mmio_write64 io (hhdm + address + offset) data"

definition arch_hpet_read :: "'h mmio \<Rightarrow> u64 \<Rightarrow> u64 \<Rightarrow> u64 \<Rightarrow> 'h \<Rightarrow> u64 \<times> 'h" where
  "arch_hpet_read io hhdm address offset = mmio_read64 io (hhdm + address + offset)"

definition arch_hpet_read_nanoseconds :: "'h mmio \<Rightarrow> u64 \<Rightarrow> u64 \<Rightarrow> u64 \<Rightarrow> 'h \<Rightarrow> u64 \<times> 'h" where
  "arch_hpet_read_nanoseconds io hhdm address ticks_to_nanoseconds h =
     map_prod (\<lambda>ticks. ticks * ticks_to_nanoseconds) id (arch_hpet_read io hhdm address HPET_MAIN_COUNTER h)"

text \<open>Sleeping, with any clock: look at it until the target time is reached.\<close>

partial_function (option) wait_until :: "('h \<Rightarrow> u64 \<times> 'h) \<Rightarrow> u64 \<Rightarrow> 'h \<Rightarrow> 'h option" where
  "wait_until clock target h = (case clock h of (now, h) \<Rightarrow> if now < target then wait_until clock target h else Some h)"

definition sleep_with :: "('h \<Rightarrow> u64 \<times> 'h) \<Rightarrow> u64 \<Rightarrow> 'h \<Rightarrow> 'h option" where
  "sleep_with clock nanos h = (case clock h of (now, h) \<Rightarrow> wait_until clock (now + nanos) h)"

definition arch_hpet_sleep_nanoseconds :: "'h mmio \<Rightarrow> u64 \<Rightarrow> u64 \<Rightarrow> u64 \<Rightarrow> u64 \<Rightarrow> 'h \<Rightarrow> 'h option" where
  "arch_hpet_sleep_nanoseconds io hhdm address ticks_to_nanoseconds =
     sleep_with (arch_hpet_read_nanoseconds io hhdm address ticks_to_nanoseconds)"

text \<open>
  \<open>source\<close> is the static \<open>arch_hpet_timer\<close>, \<open>sig\<close> the address of \<open>"HPET"\<close>. The frequency is cut to 32 bits,
  the period to whole nanoseconds.
\<close>

definition arch_hpet_init ::
  "'h mmio \<Rightarrow> u64 \<Rightarrow> clock_time_source \<Rightarrow> hpet_state \<Rightarrow> 'a acpi_state_scheme \<Rightarrow> clock_state \<Rightarrow> 'h \<Rightarrow>
     (hpet_state \<times> 'a acpi_state_scheme \<times> clock_state \<times> 'h) res" where
  "arch_hpet_init io sig source hpet s clock h =
     (let header = acpi_get_table sig s;
          hpet = hpet\<lparr>arch_hpet_header := header\<rparr>
      in if header = 0 then Inr (hpet, s, clock, h)
         else if hpet_address_space (heap_bytes s) header \<noteq> 0 then Inr (hpet, s, clock, h)
         else let address = hpet_address (heap_bytes s) header; hhdm = kernel_hhdm_offset s
              in case arch_table_manager_map (arch_bootstrap_page_table s) (address + hhdm) address
                        (TABLE_ENTRY_READ_WRITE OR TABLE_ENTRY_CACHE_DISABLE) s of
                   Inl e \<Rightarrow> Inl e
                 | Inr s \<Rightarrow>
              case arch_hpet_read io hhdm address HPET_GENERAL_CAPABILITIES h of
                (capabilities, h) \<Rightarrow>
              let ticks_to_femtoseconds = ucast (drop_bit 32 capabilities) :: u32
              in if ticks_to_femtoseconds = 0 then Inl (Panic ''division by zero'')
                 else let ticks = ucast (1000000000000000 div ucast ticks_to_femtoseconds :: u64) :: u32;
                          hpet = hpet\<lparr>arch_hpet_ticks_to_nanoseconds := ucast (ticks_to_femtoseconds div 1000000)\<rparr>;
                          clock = clock_register_time_source (source\<lparr>ticks_per_second := ucast ticks\<rparr>) clock;
                          h = arch_hpet_write io hhdm address HPET_MAIN_COUNTER 0 h;
                          h = arch_hpet_write io hhdm address HPET_TIMER_CONFIGURATION_0 (8 OR 64) h;
                          h = arch_hpet_write io hhdm address HPET_TIMER_COMPARATOR_0 0 h;
                          h = arch_hpet_write io hhdm address HPET_GENERAL_CONFIGURATION 1 h
                      in Inr (hpet, s, clock, h))"

subsection \<open>Time stamp counter\<close>

record tsc_state =
  arch_tsc_offset :: u64
  arch_tsc_timer :: clock_time_source

text \<open>\<open>rdtsc\<close> is the instruction of that name.\<close>

definition arch_tsc_read_nanoseconds :: "('h \<Rightarrow> u64 \<times> 'h) \<Rightarrow> tsc_state \<Rightarrow> 'h \<Rightarrow> (u64 \<times> 'h) res" where
  "arch_tsc_read_nanoseconds rdtsc tsc h =
     (case rdtsc h of (now, h) \<Rightarrow>
        let ticks_per_nanosecond = ticks_per_second (arch_tsc_timer tsc) div 1000000000
        in if ticks_per_nanosecond = 0 then Inl (Panic ''division by zero'')
           else Inr ((now - arch_tsc_offset tsc) div ticks_per_nanosecond, h))"

partial_function (option) tsc_wait_until :: "('h \<Rightarrow> u64 \<times> 'h) \<Rightarrow> tsc_state \<Rightarrow> u64 \<Rightarrow> 'h \<Rightarrow> 'h res option" where
  "tsc_wait_until rdtsc tsc target h =
     (case arch_tsc_read_nanoseconds rdtsc tsc h of
        Inl e \<Rightarrow> Some (Inl e)
      | Inr (now, h) \<Rightarrow> if now < target then tsc_wait_until rdtsc tsc target h else Some (Inr h))"

definition arch_tsc_sleep_nanoseconds :: "('h \<Rightarrow> u64 \<times> 'h) \<Rightarrow> tsc_state \<Rightarrow> u64 \<Rightarrow> 'h \<Rightarrow> 'h res option" where
  "arch_tsc_sleep_nanoseconds rdtsc tsc nanoseconds h =
     (case arch_tsc_read_nanoseconds rdtsc tsc h of
        Inl e \<Rightarrow> Some (Inl e)
      | Inr (now, h) \<Rightarrow> tsc_wait_until rdtsc tsc (now + nanoseconds) h)"

definition arch_tsc_reset :: "('h \<Rightarrow> u64 \<times> 'h) \<Rightarrow> tsc_state \<Rightarrow> 'h \<Rightarrow> tsc_state \<times> 'h" where
  "arch_tsc_reset rdtsc tsc h = (case rdtsc h of (now, h) \<Rightarrow> (tsc\<lparr>arch_tsc_offset := now\<rparr>, h))"

text \<open>The processors the counter is trusted on, from the first leaf of \<open>cpuid\<close>.\<close>

definition tsc_constant :: "u32 \<Rightarrow> bool" where
  "tsc_constant eax =
     (let family = drop_bit 8 eax AND 0xF;
          model = drop_bit 4 eax AND 0xF;
          model = (if family \<ge> 6 then push_bit 4 (drop_bit 16 eax) else model);
          family = (if family = 15 then family + drop_bit 20 eax else family)
      in family \<ge> 7 \<or> family = 6 \<and> model \<ge> 0xF)"

text \<open>Calibration: \<open>sleep\<close> is what is behind the system timer's callback; \<open>eax\<close> what \<open>cpuid\<close> returns.\<close>

definition arch_tsc_init ::
  "('h \<Rightarrow> u64 \<times> 'h) \<Rightarrow> (u64 \<Rightarrow> u64 \<Rightarrow> 'h \<Rightarrow> 'h option) \<Rightarrow> u32 \<Rightarrow> tsc_state \<Rightarrow> clock_state \<Rightarrow> 'h \<Rightarrow>
     (tsc_state \<times> clock_state \<times> 'h) option" where
  "arch_tsc_init rdtsc sleep eax tsc clock h =
     (if sleep_nanoseconds (clock_system_timer clock) = 0 then Some (tsc, clock, h)
      else if \<not> tsc_constant eax then Some (tsc, clock, h)
      else case rdtsc h of (a, h) \<Rightarrow>
           case sleep (sleep_nanoseconds (clock_system_timer clock)) (100 * 1000000) h of
             None \<Rightarrow> None
           | Some h \<Rightarrow>
           case rdtsc h of (b, h) \<Rightarrow>
           let timer = (arch_tsc_timer tsc)\<lparr>ticks_per_second := (b - a) * 10\<rparr>
           in Some (tsc\<lparr>arch_tsc_timer := timer\<rparr>, clock_register_time_source timer clock, h))"

subsection \<open>ACPI timer\<close>

text \<open>The fields of \<open>acpi_fadt_t\<close> that are read: \<open>PMTimer\<close>, \<open>PMTimerLen\<close> and the two parts of \<open>PMTimer64\<close>.\<close>

definition fadt_PMTimer :: "mem8 \<Rightarrow> u64 \<Rightarrow> u64" where "fadt_PMTimer m fadt = load_le m (fadt + 76) 4"
definition fadt_PMTimerLen :: "mem8 \<Rightarrow> u64 \<Rightarrow> u8" where "fadt_PMTimerLen m fadt = m (fadt + 91)"
definition fadt_PMTimer64_space :: "mem8 \<Rightarrow> u64 \<Rightarrow> u8" where "fadt_PMTimer64_space m fadt = m (fadt + 208)"
definition fadt_PMTimer64_address :: "mem8 \<Rightarrow> u64 \<Rightarrow> u64" where "fadt_PMTimer64_address m fadt = load_le m (fadt + 212) 8"

text \<open>\<open>memory32\<close> and \<open>port32\<close> read the counter from memory or a port.\<close>

definition acpi_pm_timer_read_nanoseconds ::
  "(u64 \<Rightarrow> 'h \<Rightarrow> u32 \<times> 'h) \<Rightarrow> (u16 \<Rightarrow> 'h \<Rightarrow> u32 \<times> 'h) \<Rightarrow> u64 \<Rightarrow> 'a acpi_state_scheme \<Rightarrow> 'h \<Rightarrow> u64 \<times> 'h" where
  "acpi_pm_timer_read_nanoseconds memory32 port32 fadt s h =
     (let m = heap_bytes s;
          (ticks, h) =
            (if acpi_revision s \<ge> 2
             then (if fadt_PMTimer64_space m fadt = 0 then map_prod ucast id (memory32 (fadt_PMTimer64_address m fadt) h)
                   else if fadt_PMTimer64_space m fadt = 1 then map_prod ucast id (port32 (ucast (fadt_PMTimer64_address m fadt)) h)
                   else (0, h))
             else map_prod ucast id (port32 (ucast (fadt_PMTimer m fadt)) h)) :: u64 \<times> 'h
      in (ticks * 1000000000 div 3579545, h))"

definition acpi_pm_timer_init :: "u64 \<Rightarrow> 'a acpi_state_scheme \<Rightarrow> u64" where
  "acpi_pm_timer_init sig s = acpi_get_table sig s"

lemma wait_until_ends:
  assumes clock: "\<And>h. \<exists>h'. clock h = (of_nat (time h), h') \<and> time h < time h' \<and> time h' \<le> time h + step"
    and T: "T + step < 2 ^ 64"
  shows "time h \<le> T + step \<Longrightarrow> \<exists>h'. wait_until clock (of_nat T) h = Some h' \<and> T < time h'"
proof (induction "T - time h" arbitrary: h rule: less_induct)
  case less
  obtain h1 where h1: "clock h = (of_nat (time h), h1)" "time h < time h1" "time h1 \<le> time h + step" using clock by blast
  have now: "of_nat (time h) < (of_nat T :: u64) \<longleftrightarrow> time h < T"
    using less.prems T by (simp add: word_less_nat_alt unat_of_nat_exact)
  show ?case
  proof (cases "time h < T")
    case True
    then show ?thesis using less(1) [of h1] h1 now by (subst wait_until.simps) auto
  next
    case False
    then show ?thesis using h1 now by (subst wait_until.simps) auto
  qed
qed

subsection \<open>Properties\<close>

text \<open>
  (C34) Time by the counter: its frequency is cut to whole gigahertz before the division. Below one gigahertz reading the time
  divides by zero. From there on the reading is never behind the exact time and at most twice it; at a frequency just
  below two gigahertz it runs almost twice as fast.
\<close>

theorem tsc_nanoseconds_bounds:
  assumes "rdtsc h = (now, h')"
  shows "if ticks_per_second (arch_tsc_timer tsc) < 1000000000
    then arch_tsc_read_nanoseconds rdtsc tsc h = Inl (Panic ''division by zero'')
    else \<exists>v. arch_tsc_read_nanoseconds rdtsc tsc h = Inr (v, h') \<and>
      (let f = unat (ticks_per_second (arch_tsc_timer tsc)); d = unat (now - arch_tsc_offset tsc)
       in d * 1000000000 div f \<le> unat v \<and> unat v \<le> 2 * d * 1000000000 div f)"
proof -
  let ?f = "unat (ticks_per_second (arch_tsc_timer tsc))" and ?d = "unat (now - arch_tsc_offset tsc)"
  define k where "k = ?f div 1000000000"
  have kw: "unat (ticks_per_second (arch_tsc_timer tsc) div 1000000000) = k" by (simp add: k_def unat_div)
  have zero: "ticks_per_second (arch_tsc_timer tsc) div 1000000000 = 0 \<longleftrightarrow> k = 0" using kw by (metis unat_eq_zero)
  have lt: "ticks_per_second (arch_tsc_timer tsc) < 1000000000 \<longleftrightarrow> k = 0"
    by (simp add: word_less_nat_alt k_def div_eq_0_iff)
  show ?thesis
  proof (cases "k = 0")
    case True
    then show ?thesis using lt zero assms by (simp add: arch_tsc_read_nanoseconds_def Let_def)
  next
    case False
    then have f: "1000000000 \<le> ?f" by (simp add: k_def div_eq_0_iff)
    have k1: "k * 1000000000 \<le> ?f" "?f < (k + 1) * 1000000000"
      using div_mult_mod_eq [of ?f 1000000000] mod_less_divisor [of 1000000000 ?f] by (simp_all add: k_def)
    have "?d * 1000000000 div ?f \<le> ?d * 1000000000 div (k * 1000000000)"
      by (rule div_le_mono2) (use False k1(1) in auto)
    also have "\<dots> = ?d div k" by simp
    finally have lo: "?d * 1000000000 div ?f \<le> ?d div k" .
    have "?d div k * ?f \<le> ?d div k * (2 * k * 1000000000)"
      using k1(2) False by (intro mult_le_mono2) simp
    also have "\<dots> = 2 * (?d div k * k) * 1000000000" by simp
    also have "\<dots> \<le> 2 * ?d * 1000000000" using div_times_less_eq_dividend [of ?d k] by simp
    finally have "?d div k \<le> 2 * ?d * 1000000000 div ?f" using f by (simp add: less_eq_div_iff_mult_less_eq)
    then show ?thesis using lo False lt zero kw assms
      by (simp add: arch_tsc_read_nanoseconds_def Let_def unat_div)
  qed
qed

theorem tsc_nanoseconds_bounds_witness:
  "arch_tsc_read_nanoseconds (\<lambda>h. (h, h + 1)) \<lparr>arch_tsc_offset = 0, arch_tsc_timer = no_source\<lparr>ticks_per_second := 1900000000\<rparr>\<rparr> 1900000000
     = Inr (1900000000 :: u64, 1900000001 :: u64)"
proof -
  let ?t = "\<lparr>arch_tsc_offset = 0, arch_tsc_timer = no_source\<lparr>ticks_per_second := 1900000000\<rparr>\<rparr>"
  have "\<not> ticks_per_second (arch_tsc_timer ?t) < 1000000000" by simp
  then have "\<exists>v. arch_tsc_read_nanoseconds (\<lambda>h. (h, h + 1)) ?t 1900000000 = Inr (v, 1900000001 :: u64)"
    using tsc_nanoseconds_bounds [where rdtsc = "\<lambda>h. (h, h + 1)" and tsc = ?t and h = 1900000000] by auto
  then show ?thesis by (simp add: arch_tsc_read_nanoseconds_def Let_def)
qed

text \<open>
  Sleeping ends, and not before the time asked for has passed, on a clock that goes forward between two looks at it and
  does not wrap around meanwhile.
\<close>

theorem hpet_sleep_ends:
  assumes "\<And>h. \<exists>h'. arch_hpet_read_nanoseconds io hhdm address ticks h = (of_nat (time h), h') \<and> time h < time h' \<and> time h' \<le> time h + step"
    and "time h + unat nanos + step < 2 ^ 64"
  shows "\<exists>h'. arch_hpet_sleep_nanoseconds io hhdm address ticks nanos h = Some h' \<and> time h + unat nanos < time h'"
proof -
  let ?c = "arch_hpet_read_nanoseconds io hhdm address ticks"
  obtain h1 where h1: "?c h = (of_nat (time h), h1)" "time h1 \<le> time h + step" using assms(1) by blast
  have "of_nat (time h) + nanos = of_nat (time h + unat nanos)" by simp
  then show ?thesis
    using wait_until_ends [OF assms, of h1] h1 by (simp add: arch_hpet_sleep_nanoseconds_def sleep_with_def)
qed

text \<open>An HPET with a period of ten nanoseconds that counts one at every look.\<close>

definition tick_io :: "nat mmio" where
  "tick_io = \<lparr>mmio_read64 = (\<lambda>_ h. (of_nat h, Suc h)), mmio_write64 = (\<lambda>_ _ h. h)\<rparr>"

theorem hpet_sleep_ends_witness:
  "\<exists>h'. arch_hpet_sleep_nanoseconds tick_io 0x1000 0xFED00000 10 25 0 = Some h' \<and> 25 < 10 * h'"
proof -
  have "\<exists>h'. arch_hpet_read_nanoseconds tick_io 0x1000 0xFED00000 10 h = (of_nat (10 * h), h') \<and> 10 * h < 10 * h' \<and> 10 * h' \<le> 10 * h + 10" for h
    by (simp add: arch_hpet_read_nanoseconds_def arch_hpet_read_def tick_io_def mult.commute)
  from hpet_sleep_ends [where time = "\<lambda>h. 10 * h" and step = 10, OF this, of 0 25] show ?thesis by simp
qed

end
