(* ===== verification/Apic.thy ===== *)
theory Apic
  imports Clock Interrupts
begin

text \<open>
  The local interrupt controller of a processor (\<open>kernel/src/arch/x86_64/xapic/xapic.c\<close>), its timer
  (\<open>kernel/src/arch/x86_64/timers/xapic.c\<close>) and the registers of the system call instruction
  (\<open>kernel/src/arch/x86_64/syscall/syscall.c\<close>).

  The registers are hardware: what reading and writing them does is the argument \<open>io\<close>, and the hardware has a
  state of type \<open>'h\<close>.
\<close>

record 'h cpu_io =
  mmio_load32 :: "u64 \<Rightarrow> 'h \<Rightarrow> u32 \<times> 'h"
  mmio_store32 :: "u64 \<Rightarrow> u32 \<Rightarrow> 'h \<Rightarrow> 'h"
  rdmsr :: "u32 \<Rightarrow> 'h \<Rightarrow> u64 \<times> 'h"
  wrmsr :: "u32 \<Rightarrow> u64 \<Rightarrow> 'h \<Rightarrow> 'h"
  outb :: "u16 \<Rightarrow> u8 \<Rightarrow> 'h \<Rightarrow> 'h"

abbreviation (input) XAPIC_BASE :: u64 where "XAPIC_BASE \<equiv> 0xFEE00000"
abbreviation (input) MSR_APIC_BASE :: u32 where "MSR_APIC_BASE \<equiv> 0x1B"
abbreviation (input) XAPIC_REG_TIMER_INIT_COUNT :: u64 where "XAPIC_REG_TIMER_INIT_COUNT \<equiv> 0x380"

subsection \<open>Registers\<close>

definition arch_xapic_write :: "'h cpu_io \<Rightarrow> u64 \<Rightarrow> u64 \<Rightarrow> u32 \<Rightarrow> 'h \<Rightarrow> 'h" where
  "arch_xapic_write io hhdm offset value = mmio_store32 io (XAPIC_BASE + offset + hhdm) value"

definition arch_xapic_read :: "'h cpu_io \<Rightarrow> u64 \<Rightarrow> u64 \<Rightarrow> 'h \<Rightarrow> u32 \<times> 'h" where
  "arch_xapic_read io hhdm offset = mmio_load32 io (XAPIC_BASE + offset + hhdm)"

definition arch_xapic_eoi :: "'h cpu_io \<Rightarrow> u64 \<Rightarrow> 'h \<Rightarrow> 'h" where
  "arch_xapic_eoi io hhdm = arch_xapic_write io hhdm 0xB0 0"

definition arch_get_id :: "'h cpu_io \<Rightarrow> u64 \<Rightarrow> 'h \<Rightarrow> u64 \<times> 'h" where
  "arch_get_id io hhdm h = map_prod (\<lambda>v. ucast (drop_bit 24 v)) id (arch_xapic_read io hhdm 0x20 h)"

definition arch_is_bsp :: "'h cpu_io \<Rightarrow> u64 \<Rightarrow> u64 \<Rightarrow> 'h \<Rightarrow> bool \<times> 'h" where
  "arch_is_bsp io hhdm arch_bsp_id h = map_prod (\<lambda>i. i = arch_bsp_id) id (arch_get_id io hhdm h)"

subsection \<open>Initialisation\<close>

definition arch_xapic_init ::
  "'h cpu_io \<Rightarrow> u64 \<Rightarrow> 'a sched_state_scheme \<Rightarrow> 'h \<Rightarrow> ('a sched_state_scheme \<times> 'h) res" where
  "arch_xapic_init io arch_bsp_id s h =
     (case rdmsr io MSR_APIC_BASE h of (base, h) \<Rightarrow>
      if base AND 0xFFFFF000 \<noteq> XAPIC_BASE then Inl (Panic ''Out of spec xapic address'')
      else let h = outb io 0x21 0xFF h;
               h = outb io 0xA1 0xFF h;
               hhdm = kernel_hhdm_offset s
           in case arch_table_manager_map (arch_bootstrap_page_table s) (XAPIC_BASE + hhdm) XAPIC_BASE
                     (TABLE_ENTRY_READ_WRITE OR 16) s of
                Inl e \<Rightarrow> Inl e
              | Inr s \<Rightarrow>
           let h = arch_xapic_write io hhdm 0xE0 0xFF000000 h;
               h = arch_xapic_write io hhdm 0xD0 0x01000000 h;
               h = arch_xapic_write io hhdm 0x350 0x00010000 h;
               h = arch_xapic_write io hhdm 0x360 0x00010000 h;
               h = arch_xapic_write io hhdm 0x80 0 h
           in case rdmsr io MSR_APIC_BASE h of (base, h) \<Rightarrow>
           let base = base OR 0x800
           in case arch_is_bsp io hhdm arch_bsp_id h of (bsp, h) \<Rightarrow>
           let base = (if bsp then base OR 0x100 else base);
               h = wrmsr io MSR_APIC_BASE base h;
               h = arch_xapic_write io hhdm 0xF0 0x120 h;
               (context, s) = arch_get_cpu_context s
           in case cpu_contexts s context of
                None \<Rightarrow> Inl Null_Dereference
              | Some c \<Rightarrow>
           case arch_is_bsp io hhdm arch_bsp_id h of (bsp, h) \<Rightarrow>
           case arch_get_id io hhdm h of (i, h) \<Rightarrow>
             Inr (s\<lparr>cpu_contexts := (cpu_contexts s)(context \<mapsto> c\<lparr>is_bsp := bsp, cpu_id := i\<rparr>)\<rparr>, h))"

text \<open>A non-maskable interrupt to all other processors, when they are online.\<close>

definition arch_kill_ap :: "'h cpu_io \<Rightarrow> u64 \<Rightarrow> bool \<Rightarrow> 'h \<Rightarrow> 'h" where
  "arch_kill_ap io hhdm arch_aps_online h =
     (if \<not> arch_aps_online then h
      else let icr = push_bit 8 4 OR push_bit 18 3 :: u64;
               h = arch_xapic_write io hhdm 0x300 (ucast (icr AND 0xFFFFFFFF)) h
           in arch_xapic_write io hhdm 0x310 (ucast (drop_bit 32 icr AND 0xFFFFFFFF)) h)"

text \<open>The entry point and the segments of system calls; \<open>entry\<close> is the address of \<open>arch_syscall_entry\<close>.\<close>

definition arch_syscall_init :: "'h cpu_io \<Rightarrow> u64 \<Rightarrow> 'h \<Rightarrow> 'h" where
  "arch_syscall_init io entry h =
     (case rdmsr io 0xC0000080 h of (efer, h) \<Rightarrow>
      let h = wrmsr io 0xC0000080 (efer OR 1) h;
          h = wrmsr io 0xC0000081 0x0013000800000000 h;
          h = wrmsr io 0xC0000082 entry h
      in wrmsr io 0xC0000084 0xFFFFFFFD h)"

subsection \<open>The timer\<close>

record xapic_timer =
  ticks_per_scheduling_burst :: u32
  xapic_vector :: u16
  arch_xapic_timer :: clock_time_source

definition arch_xapic_timer_schedule_one_shot :: "'h cpu_io \<Rightarrow> u64 \<Rightarrow> xapic_timer \<Rightarrow> 'h \<Rightarrow> 'h" where
  "arch_xapic_timer_schedule_one_shot io hhdm x h =
     arch_xapic_write io hhdm XAPIC_REG_TIMER_INIT_COUNT (ticks_per_scheduling_burst x) (arch_xapic_eoi io hhdm h)"

definition arch_xapic_timer_interrupt_now :: "'h cpu_io \<Rightarrow> u64 \<Rightarrow> 'h \<Rightarrow> 'h" where
  "arch_xapic_timer_interrupt_now io hhdm h =
     arch_xapic_write io hhdm XAPIC_REG_TIMER_INIT_COUNT 1 (arch_xapic_eoi io hhdm h)"

text \<open>
  Calibration against the system timer: count down from the maximum for a hundredth of a second. \<open>sleep\<close> is what
  is behind the callback of the system timer, \<open>entry\<close> the address of the interrupt routine.
\<close>

definition arch_xapic_timer_init ::
  "'h cpu_io \<Rightarrow> (u64 \<Rightarrow> u64 \<Rightarrow> 'h \<Rightarrow> 'h option) \<Rightarrow> u64 \<Rightarrow> u64 \<Rightarrow> xapic_timer \<Rightarrow> clock_state \<Rightarrow> 'a int_state_scheme \<Rightarrow> 'h \<Rightarrow>
     (xapic_timer \<times> clock_state \<times> 'a int_state_scheme \<times> 'h) res" where
  "arch_xapic_timer_init io sleep entry arch_bsp_id x clock s h =
     (if sleep_nanoseconds (clock_system_timer clock) = 0 then Inl (Panic ''no system timer available for APIC timer calibration'')
      else let (vector, s) = arch_interrupts_reserve_kernel_vector s;
               s = s\<lparr>interrupts_enabled := False\<rparr>;
               hhdm = kernel_hhdm_offset s;
               h = arch_xapic_write io hhdm 0x3E0 3 h;
               h = arch_xapic_write io hhdm 0x320 (ucast vector) h;
               h = arch_xapic_write io hhdm XAPIC_REG_TIMER_INIT_COUNT 0xFFFFFFFF h
           in case sleep (sleep_nanoseconds (clock_system_timer clock)) (1000000000 div 100) h of
                None \<Rightarrow> Inl Diverges
              | Some h \<Rightarrow>
           case arch_xapic_read io hhdm 0x390 h of (count, h) \<Rightarrow>
           let burst = 0xFFFFFFFF - count;
               source = (arch_xapic_timer x)\<lparr>ticks_per_second := ucast (burst * 1000 div 100)\<rparr>;
               h = arch_xapic_write io hhdm XAPIC_REG_TIMER_INIT_COUNT 0 h;
               s = s\<lparr>interrupts_enabled := True\<rparr>
           in case arch_is_bsp io hhdm arch_bsp_id h of (bsp, h) \<Rightarrow>
                Inr (\<lparr>ticks_per_scheduling_burst = burst, xapic_vector = vector, arch_xapic_timer = source\<rparr>,
                     if bsp then clock_register_time_source source clock else clock,
                     s\<lparr>idt_gates := arch_interrupts_map_vector (ucast vector) entry (idt_gates s)\<rparr>, h))"

subsection \<open>Properties\<close>

text \<open>
  (C35) After the calibration the timer's vector, a fresh one, continues at the timer's interrupt routine, the ticks of a
  scheduling burst are what the counter lost during a hundredth of a second, interrupts are on again, and on the boot
  processor the timer is offered as a preemption timer. The frequency it is offered with is a tenth of the real
  one as long as a thousand bursts fit into 32 bits, and wraps around otherwise.
\<close>

theorem xapic_timer_init_correct:
  fixes io :: "'h cpu_io" and s :: "'a int_state_scheme"
  defines "hhdm \<equiv> kernel_hhdm_offset s"
  assumes "sleep_nanoseconds (clock_system_timer clock) = f" "f \<noteq> 0"
    and "sleep f 10000000 (arch_xapic_write io hhdm 0x380 0xFFFFFFFF (arch_xapic_write io hhdm 0x320 (ucast (interrupts_vector_base s))
           (arch_xapic_write io hhdm 0x3E0 3 h))) = Some h1"
    and "arch_xapic_read io hhdm 0x390 h1 = (count, h2)" "arch_is_bsp io hhdm arch_bsp_id (arch_xapic_write io hhdm 0x380 0 h2) = (bsp, h3)"
    and "b = unat (0xFFFFFFFF :: u32) - unat count"
  shows "\<exists>x' clock' s'. arch_xapic_timer_init io sleep entry arch_bsp_id x clock s h = Inr (x', clock', s', h3) \<and>
    unat (ticks_per_scheduling_burst x') = b \<and>
    unat (ticks_per_second (arch_xapic_timer x')) = (if b * 1000 < 2 ^ 32 then 10 * b else (b * 1000 mod 2 ^ 32) div 100) \<and>
    clock' = (if bsp then clock_register_time_source (arch_xapic_timer x') clock else clock) \<and>
    gate_target (idt_gates s' (ucast (xapic_vector x'))) = Some entry \<and>
    xapic_vector x' = interrupts_vector_base s \<and> interrupts_vector_base s' = interrupts_vector_base s + 1 \<and> interrupts_enabled s'"
proof -
  let ?b = "0xFFFFFFFF - count" and ?v = "interrupts_vector_base s"
  have b: "unat ?b = b"
    unfolding assms(7) using unat_less_2p32 [of count] by (subst unat_sub) (simp_all add: word_le_nat_alt)
  have "unat (ucast (w * 1000 div 100) :: u64) = unat w * 1000 mod 2 ^ 32 div 100" for w :: u32
    by (simp add: unat_u32_u64 unat_div unat_word_ariths)
  from this [of ?b] have freq: "unat (ucast (?b * 1000 div 100) :: u64) = (if b * 1000 < 2 ^ 32 then 10 * b else (b * 1000 mod 2 ^ 32) div 100)"
    unfolding b by simp
  have gate: "gate_target (arch_interrupts_map_vector v entry gates v) = Some entry" for v gates
    using split_word(1) [of entry] by (simp add: gate_target_def arch_interrupts_map_vector_def bit_numeral_rec)
  show ?thesis
    using assms(2-6) b freq gate
    by (simp add: arch_xapic_timer_init_def arch_interrupts_reserve_kernel_vector_def hhdm_def Let_def)
qed

text \<open>A controller whose timer loses five million ticks during the calibration.\<close>

definition five_million_io :: "u32 cpu_io" where
  "five_million_io = \<lparr>mmio_load32 = (\<lambda>a h. (if a = XAPIC_BASE + 0x390 then h else 0, h)), mmio_store32 = (\<lambda>a v h. if a = XAPIC_BASE + 0x380 then v else h),
     rdmsr = (\<lambda>_ h. (0, h)), wrmsr = (\<lambda>_ _ h. h), outb = (\<lambda>_ _ h. h)\<rparr>"

definition apic_machine :: int_state where
  "apic_machine = sched_state.extend (small_machine\<lparr>kernel_hhdm_offset := 0\<rparr>)
    (int_state.fields (\<lambda>_. zero_gate) \<lparr>idtr_size = 0, idtr_offset = 0\<rparr> 0x20)"

theorem xapic_timer_init_correct_witness:
  "\<exists>x' clock' s'. arch_xapic_timer_init five_million_io (\<lambda>_ _ h. Some (h - 5000000)) 0xFFFF8000 0
      \<lparr>ticks_per_scheduling_burst = 0, xapic_vector = 0, arch_xapic_timer = no_source\<lparr>one_shot_capable := True\<rparr>\<rparr>
      \<lparr>clock_system_timer = no_source\<lparr>sleep_nanoseconds := 7\<rparr>, clock_preemption_timer = no_source\<rparr> apic_machine 0 = Inr (x', clock', s', 0) \<and>
     unat (ticks_per_scheduling_burst x') = 5000000 \<and> unat (ticks_per_second (clock_preemption_timer clock')) = 7050327 \<and>
     gate_target (idt_gates s' 0x20) = Some 0xFFFF8000"
proof -
  have f: "kernel_hhdm_offset apic_machine = 0" "interrupts_vector_base apic_machine = 0x20"
    by (simp_all add: apic_machine_def sched_state.defs small_machine_def int_state.defs)
  note io = arch_xapic_write_def arch_xapic_read_def arch_is_bsp_def arch_get_id_def five_million_io_def
  obtain x' clock' s' where r: "arch_xapic_timer_init five_million_io (\<lambda>_ _ h. Some (h - 5000000)) 0xFFFF8000 0
      \<lparr>ticks_per_scheduling_burst = 0, xapic_vector = 0, arch_xapic_timer = no_source\<lparr>one_shot_capable := True\<rparr>\<rparr>
      \<lparr>clock_system_timer = no_source\<lparr>sleep_nanoseconds := 7\<rparr>, clock_preemption_timer = no_source\<rparr> apic_machine 0 = Inr (x', clock', s', 0)"
    and t: "unat (ticks_per_scheduling_burst x') = 5000000" "gate_target (idt_gates s' (ucast (xapic_vector x'))) = Some 0xFFFF8000" "xapic_vector x' = 0x20"
    using xapic_timer_init_correct [where sleep = "\<lambda>_ _ h. Some (h - 5000000)" and io = five_million_io and s = apic_machine and f = 7
        and clock = "\<lparr>clock_system_timer = no_source\<lparr>sleep_nanoseconds := 7\<rparr>, clock_preemption_timer = no_source\<rparr>" and h = 0
        and ?h1.0 = "0xFFFFFFFF - 5000000" and ?h2.0 = "0xFFFFFFFF - 5000000" and ?h3.0 = 0 and count = "0xFFFFFFFF - 5000000" and bsp = True and arch_bsp_id = 0
        and b = 5000000 and entry = "0xFFFF8000"
        and x = "\<lparr>ticks_per_scheduling_burst = 0, xapic_vector = 0, arch_xapic_timer = no_source\<lparr>one_shot_capable := True\<rparr>\<rparr>"]
    by (auto simp: f io)
  have "unat (ticks_per_second (clock_preemption_timer clock')) = 7050327"
    using r by (auto simp: arch_xapic_timer_init_def arch_interrupts_reserve_kernel_vector_def f io clock_register_time_source_def no_source_def Let_def)
  then show ?thesis using r t by auto
qed

end
