(* ===== verification/Smp.thy ===== *)
theory Smp
  imports Spinlock
begin

text \<open>
  Starting the other processors, \<open>kernel/src/arch/x86_64/smp/smp.c\<close>, as a protocol between the boot processor and the
  application processors: one step per access to a lock, to the wake-up addresses or to the count of
  processors that are done. Steps of different processors interleave in any order.

  The set-up of a processor between two such accesses (its descriptors, tables, timer and its part of the scheduler) touches none of the
  protocol's state. It is one step here and is taken to succeed: the allocations it makes are those of the other theories.
\<close>

subsection \<open>The protocol\<close>

text \<open>
  Where the boot processor is: before \<open>arch_bootstrap_ap_limine\<close>, in its loop at an entry of the list of processors, about to
  wake that processor, waiting for it, behind the loop, waiting in \<open>arch_bootstrap_ap_scheduler\<close>, and behind that.
\<close>

datatype bsp_pc = B_Start | B_Loop nat | B_Wake nat | B_Wait nat | B_Online | B_Collect | B_Done

text \<open>
  Where an application processor is in \<open>arch_bootstrap_entry_limine\<close>: parked by the boot loader, setting itself up, waiting for the
  scheduler, about to count itself, with the lock of the count, with the count in a register, with the count
  written, and scheduling.
\<close>

datatype ap_pc = A_Parked | A_Boot | A_Ready | A_Joining | A_Held | A_Read u64 | A_Written | A_Running

record smp_state =
  arch_mp_bootstrap_lock :: u64
  arch_mp_enable_scheduler_lock :: u64
  arch_mp_completion_lock :: u64
  arch_complete :: u64
  arch_aps_online :: bool
  goto_address :: "nat \<Rightarrow> bool"
  bsp_at :: bsp_pc
  ap_at :: "nat \<Rightarrow> ap_pc"

definition smp_init :: smp_state where
  "smp_init = \<lparr>arch_mp_bootstrap_lock = 0, arch_mp_enable_scheduler_lock = 0, arch_mp_completion_lock = 0, arch_complete = 0,
     arch_aps_online = False, goto_address = (\<lambda>_. False), bsp_at = B_Start, ap_at = (\<lambda>_. A_Parked)\<rparr>"

text \<open>\<open>n\<close> is the number of processors, \<open>is_bsp i\<close> says that entry \<open>i\<close> of the list is the boot processor.\<close>

inductive smp_step :: "nat \<Rightarrow> (nat \<Rightarrow> bool) \<Rightarrow> smp_state \<Rightarrow> smp_state \<Rightarrow> bool" for n is_bsp where
  lock_scheduler:
    "bsp_at s = B_Start \<Longrightarrow> test_and_set (arch_mp_enable_scheduler_lock s) = (False, w) \<Longrightarrow>
     smp_step n is_bsp s (s\<lparr>arch_mp_enable_scheduler_lock := w, bsp_at := B_Loop 0\<rparr>)"
| skip_self:
    "bsp_at s = B_Loop i \<Longrightarrow> i < n \<Longrightarrow> is_bsp i \<Longrightarrow> smp_step n is_bsp s (s\<lparr>bsp_at := B_Loop (Suc i)\<rparr>)"
| lock_bootstrap:
    "bsp_at s = B_Loop i \<Longrightarrow> i < n \<Longrightarrow> \<not> is_bsp i \<Longrightarrow> test_and_set (arch_mp_bootstrap_lock s) = (False, w) \<Longrightarrow>
     smp_step n is_bsp s (s\<lparr>arch_mp_bootstrap_lock := w, bsp_at := B_Wake i\<rparr>)"
| wake:
    "bsp_at s = B_Wake i \<Longrightarrow> smp_step n is_bsp s (s\<lparr>goto_address := (goto_address s)(i := True), bsp_at := B_Wait i\<rparr>)"
| waited:
    "bsp_at s = B_Wait i \<Longrightarrow> arch_mp_bootstrap_lock s = 0 \<Longrightarrow> smp_step n is_bsp s (s\<lparr>bsp_at := B_Loop (Suc i)\<rparr>)"
| all_awake:
    "bsp_at s = B_Loop i \<Longrightarrow> \<not> i < n \<Longrightarrow> smp_step n is_bsp s (s\<lparr>arch_aps_online := n > 1, bsp_at := B_Online\<rparr>)"
| start_scheduler:
    "bsp_at s = B_Online \<Longrightarrow>
     smp_step n is_bsp s (s\<lparr>arch_mp_enable_scheduler_lock := spinlock_release (arch_mp_enable_scheduler_lock s), bsp_at := B_Collect\<rparr>)"
| all_complete:
    "bsp_at s = B_Collect \<Longrightarrow> arch_complete s = of_nat n - 1 \<Longrightarrow> smp_step n is_bsp s (s\<lparr>bsp_at := B_Done\<rparr>)"
| ap_start:
    "ap_at s i = A_Parked \<Longrightarrow> goto_address s i \<Longrightarrow> smp_step n is_bsp s (s\<lparr>ap_at := (ap_at s)(i := A_Boot)\<rparr>)"
| ap_ready:
    "ap_at s i = A_Boot \<Longrightarrow>
     smp_step n is_bsp s (s\<lparr>arch_mp_bootstrap_lock := spinlock_release (arch_mp_bootstrap_lock s), ap_at := (ap_at s)(i := A_Ready)\<rparr>)"
| ap_enabled:
    "ap_at s i = A_Ready \<Longrightarrow> arch_mp_enable_scheduler_lock s = 0 \<Longrightarrow> smp_step n is_bsp s (s\<lparr>ap_at := (ap_at s)(i := A_Joining)\<rparr>)"
| ap_lock:
    "ap_at s i = A_Joining \<Longrightarrow> test_and_set (arch_mp_completion_lock s) = (False, w) \<Longrightarrow>
     smp_step n is_bsp s (s\<lparr>arch_mp_completion_lock := w, ap_at := (ap_at s)(i := A_Held)\<rparr>)"
| ap_read:
    "ap_at s i = A_Held \<Longrightarrow> smp_step n is_bsp s (s\<lparr>ap_at := (ap_at s)(i := A_Read (arch_complete s))\<rparr>)"
| ap_write:
    "ap_at s i = A_Read v \<Longrightarrow> smp_step n is_bsp s (s\<lparr>arch_complete := v + 1, ap_at := (ap_at s)(i := A_Written)\<rparr>)"
| ap_unlock:
    "ap_at s i = A_Written \<Longrightarrow>
     smp_step n is_bsp s (s\<lparr>arch_mp_completion_lock := spinlock_release (arch_mp_completion_lock s), ap_at := (ap_at s)(i := A_Running)\<rparr>)"

inductive smp_reachable :: "nat \<Rightarrow> (nat \<Rightarrow> bool) \<Rightarrow> smp_state \<Rightarrow> bool" for n is_bsp where
  start: "smp_reachable n is_bsp smp_init"
| step: "smp_reachable n is_bsp s \<Longrightarrow> smp_step n is_bsp s t \<Longrightarrow> smp_reachable n is_bsp t"

subsection \<open>Invariants\<close>

text \<open>How far a processor has come.\<close>

fun rank :: "ap_pc \<Rightarrow> nat" where
  "rank A_Parked = 0" | "rank A_Boot = 1" | "rank A_Ready = 2" | "rank A_Joining = 3" | "rank A_Held = 4" |
  "rank (A_Read v) = 5" | "rank A_Written = 6" | "rank A_Running = 7"

text \<open>The entries of the list that the boot processor has finished.\<close>

fun finished :: "nat \<Rightarrow> bsp_pc \<Rightarrow> nat" where
  "finished n B_Start = 0" | "finished n (B_Loop i) = i" | "finished n (B_Wake i) = i" | "finished n (B_Wait i) = i" |
  "finished n B_Online = n" | "finished n B_Collect = n" | "finished n B_Done = n"

definition enabled :: "bsp_pc \<Rightarrow> bool" where "enabled p \<longleftrightarrow> p = B_Collect \<or> p = B_Done"

definition counting :: "ap_pc \<Rightarrow> bool" where "counting p \<longleftrightarrow> 4 \<le> rank p \<and> rank p \<le> 6"

text \<open>The wake-up: processors are woken in order, one at a time, under the bootstrap lock.\<close>

definition boot_inv :: "nat \<Rightarrow> (nat \<Rightarrow> bool) \<Rightarrow> smp_state \<Rightarrow> bool" where
  "boot_inv n is_bsp s \<longleftrightarrow>
     finished n (bsp_at s) \<le> n \<and>
     (\<forall>i. bsp_at s = B_Wake i \<or> bsp_at s = B_Wait i \<longrightarrow> i < n \<and> \<not> is_bsp i) \<and>
     (\<forall>i. 0 < rank (ap_at s i) \<longrightarrow> goto_address s i) \<and>
     (\<forall>i. goto_address s i \<longrightarrow> \<not> is_bsp i \<and> (i < finished n (bsp_at s) \<or> bsp_at s = B_Wait i)) \<and>
     (\<forall>i. bsp_at s = B_Wait i \<longrightarrow> goto_address s i) \<and>
     (\<forall>i < finished n (bsp_at s). \<not> is_bsp i \<longrightarrow> 2 \<le> rank (ap_at s i)) \<and>
     (arch_mp_bootstrap_lock s \<noteq> 0 \<longleftrightarrow> (\<exists>i. bsp_at s = B_Wake i \<or> bsp_at s = B_Wait i \<and> rank (ap_at s i) < 2))"

text \<open>The start of the schedulers: nobody passes before the boot processor opens the lock.\<close>

definition enable_inv :: "smp_state \<Rightarrow> bool" where
  "enable_inv s \<longleftrightarrow>
     (arch_mp_enable_scheduler_lock s \<noteq> 0 \<longleftrightarrow> bsp_at s \<noteq> B_Start \<and> \<not> enabled (bsp_at s)) \<and>
     (\<forall>i. 3 \<le> rank (ap_at s i) \<longrightarrow> enabled (bsp_at s))"

text \<open>The count: exact, and only changed under its lock.\<close>

definition count_inv :: "smp_state \<Rightarrow> bool" where
  "count_inv s \<longleftrightarrow>
     (arch_mp_completion_lock s \<noteq> 0 \<longleftrightarrow> (\<exists>i. counting (ap_at s i))) \<and>
     (\<forall>i j. counting (ap_at s i) \<longrightarrow> counting (ap_at s j) \<longrightarrow> i = j) \<and>
     (\<forall>i v. ap_at s i = A_Read v \<longrightarrow> v = arch_complete s) \<and>
     finite {i. 6 \<le> rank (ap_at s i)} \<and> arch_complete s = of_nat (card {i. 6 \<le> rank (ap_at s i)})"

lemma boot_inv_init: "boot_inv n is_bsp smp_init"
  by (simp add: boot_inv_def smp_init_def)

text \<open>A processor that has reported ready and moves on does not matter to the wake-up.\<close>

lemma boot_inv_move:
  assumes inv: "boot_inv n is_bsp s" and i: "2 \<le> rank (ap_at s i)" "2 \<le> rank p"
    and t: "ap_at t = (ap_at s)(i := p)" "bsp_at t = bsp_at s" "goto_address t = goto_address s"
      "arch_mp_bootstrap_lock t = arch_mp_bootstrap_lock s"
  shows "boot_inv n is_bsp t"
proof -
  have r: "0 < rank (ap_at t j) \<longleftrightarrow> 0 < rank (ap_at s j)" "2 \<le> rank (ap_at t j) \<longleftrightarrow> 2 \<le> rank (ap_at s j)"
    "rank (ap_at t j) < 2 \<longleftrightarrow> rank (ap_at s j) < 2" for j
    using i by (auto simp: t)
  show ?thesis using inv unfolding boot_inv_def r t(2-4) .
qed

lemma boot_inv_step: "smp_step n is_bsp s t \<Longrightarrow> boot_inv n is_bsp s \<Longrightarrow> boot_inv n is_bsp t"
proof (induction rule: smp_step.induct)
  case (waited s i)
  then show ?case by (auto simp: boot_inv_def less_Suc_eq not_less)
next
  case (ap_ready s i)
  have g: "goto_address s i" using ap_ready.prems ap_ready.hyps unfolding boot_inv_def by (metis rank.simps(2) zero_less_one)
  have "\<not> i < finished n (bsp_at s)"
  proof
    assume "i < finished n (bsp_at s)"
    then have "2 \<le> rank (ap_at s i)" using ap_ready.prems g unfolding boot_inv_def by blast
    then show False using ap_ready.hyps by simp
  qed
  then have "bsp_at s = B_Wait i" using ap_ready.prems g unfolding boot_inv_def by blast
  then show ?case using ap_ready.prems g by (simp add: boot_inv_def)
next
  case (wake s i)
  have "\<not> goto_address s i" using wake by (auto simp: boot_inv_def)
  then have "rank (ap_at s i) = 0" using wake.prems unfolding boot_inv_def by blast
  then show ?case using wake by (auto simp: boot_inv_def)
next
  case (ap_start s i)
  then show ?case by (auto simp: boot_inv_def)
next
  case (ap_enabled s i)
  show ?case by (rule boot_inv_move [OF ap_enabled.prems, of i A_Joining]) (simp_all add: ap_enabled.hyps)
next
  case (ap_lock s i w)
  show ?case by (rule boot_inv_move [OF ap_lock.prems, of i A_Held]) (simp_all add: ap_lock.hyps)
next
  case (ap_read s i)
  show ?case by (rule boot_inv_move [OF ap_read.prems, of i "A_Read (arch_complete s)"]) (simp_all add: ap_read.hyps)
next
  case (ap_write s i v)
  show ?case by (rule boot_inv_move [OF ap_write.prems, of i A_Written]) (simp_all add: ap_write.hyps)
next
  case (ap_unlock s i)
  show ?case by (rule boot_inv_move [OF ap_unlock.prems, of i A_Running]) (simp_all add: ap_unlock.hyps)
qed (auto simp: boot_inv_def test_and_set_def less_Suc_eq)

lemma enable_inv_init: "enable_inv smp_init"
  by (simp add: enable_inv_def smp_init_def enabled_def)

lemma enable_inv_move:
  assumes "enable_inv s" "3 \<le> rank (ap_at s i)"
    and "ap_at t = (ap_at s)(i := p)" "bsp_at t = bsp_at s" "arch_mp_enable_scheduler_lock t = arch_mp_enable_scheduler_lock s"
  shows "enable_inv t"
  using assms by (auto simp: enable_inv_def)

lemma enable_inv_step:
  assumes "smp_step n is_bsp s t" "enable_inv s" "boot_inv n is_bsp s"
  shows "enable_inv t"
  using assms
proof (induction rule: smp_step.induct)
  case (ap_enabled s i)
  have "goto_address s i" using ap_enabled unfolding boot_inv_def by (metis rank.simps(3) zero_less_numeral)
  then have "bsp_at s \<noteq> B_Start" using ap_enabled.prems(2) by (auto simp: boot_inv_def)
  then show ?case using ap_enabled by (auto simp: enable_inv_def enabled_def)
next
  case (ap_lock s i w)
  show ?case by (rule enable_inv_move [OF ap_lock.prems(1), of i _ A_Held]) (simp_all add: ap_lock.hyps)
next
  case (ap_read s i)
  show ?case by (rule enable_inv_move [OF ap_read.prems(1), of i _ "A_Read (arch_complete s)"]) (simp_all add: ap_read.hyps)
next
  case (ap_write s i v)
  show ?case by (rule enable_inv_move [OF ap_write.prems(1), of i _ A_Written]) (simp_all add: ap_write.hyps)
next
  case (ap_unlock s i)
  show ?case by (rule enable_inv_move [OF ap_unlock.prems(1), of i _ A_Running]) (simp_all add: ap_unlock.hyps)
qed (auto simp: enable_inv_def enabled_def test_and_set_def)

lemma count_inv_init: "count_inv smp_init"
  by (simp add: count_inv_def smp_init_def counting_def)

text \<open>Moving one processor to a new place, as far as the count is concerned.\<close>

lemma counted_update:
  "{j. 6 \<le> rank ((f(i := p)) j)} = (if 6 \<le> rank p then insert i {j. 6 \<le> rank (f j)} else {j. 6 \<le> rank (f j)} - {i})"
  by auto

lemma count_invD:
  assumes "count_inv s"
  shows "arch_mp_completion_lock s \<noteq> 0 \<longleftrightarrow> (\<exists>i. counting (ap_at s i))" "counting (ap_at s i) \<Longrightarrow> counting (ap_at s j) \<Longrightarrow> i = j"
    "ap_at s i = A_Read v \<Longrightarrow> v = arch_complete s" "finite {i. 6 \<le> rank (ap_at s i)}"
    "arch_complete s = of_nat (card {i. 6 \<le> rank (ap_at s i)})"
  using assms unfolding count_inv_def by blast+

lemma count_inv_same:
  assumes "count_inv s" "ap_at t = ap_at s" "arch_mp_completion_lock t = arch_mp_completion_lock s" "arch_complete t = arch_complete s"
  shows "count_inv t"
  using assms(1) unfolding count_inv_def assms(2-4) .

lemma count_inv_move:
  assumes inv: "count_inv s" and t: "ap_at t = (ap_at s)(i := p)" "arch_complete t = arch_complete s"
      "arch_mp_completion_lock t = arch_mp_completion_lock s"
    and same: "counting p \<longleftrightarrow> counting (ap_at s i)" "6 \<le> rank p \<longleftrightarrow> 6 \<le> rank (ap_at s i)" "\<And>v. p = A_Read v \<Longrightarrow> v = arch_complete s"
  shows "count_inv t"
proof -
  have c: "counting (ap_at t j) \<longleftrightarrow> counting (ap_at s j)" "6 \<le> rank (ap_at t j) \<longleftrightarrow> 6 \<le> rank (ap_at s j)" for j
    using same by (auto simp: t)
  have "\<forall>j v. ap_at t j = A_Read v \<longrightarrow> v = arch_complete t" using inv same(3) by (auto simp: t count_inv_def)
  then show ?thesis using inv unfolding count_inv_def c t(2,3) by blast
qed

lemma count_inv_step: "smp_step n is_bsp s t \<Longrightarrow> count_inv s \<Longrightarrow> count_inv t"
proof (induction rule: smp_step.induct)
  case (ap_start s i)
  show ?case by (rule count_inv_move [OF ap_start.prems, of _ i A_Boot]) (simp_all add: ap_start.hyps counting_def)
next
  case (ap_ready s i)
  show ?case by (rule count_inv_move [OF ap_ready.prems, of _ i A_Ready]) (simp_all add: ap_ready.hyps counting_def)
next
  case (ap_enabled s i)
  show ?case by (rule count_inv_move [OF ap_enabled.prems, of _ i A_Joining]) (simp_all add: ap_enabled.hyps counting_def)
next
  case (ap_lock s i w)
  note inv = count_invD [OF ap_lock.prems]
  have free: "arch_mp_completion_lock s = 0" "w = 1" using ap_lock.hyps(2) by (simp_all add: test_and_set_def)
  have no: "\<not> counting (ap_at s j)" for j using inv(1) free(1) by blast
  have held: "counting A_Held" by (simp add: counting_def)
  have "{j. 6 \<le> rank (((ap_at s)(i := A_Held)) j)} = {j. 6 \<le> rank (ap_at s j)}" using ap_lock.hyps(1) by auto
  then show ?case unfolding count_inv_def using inv(3-5) no held free(2) by (auto split: if_splits)
next
  case (ap_read s i)
  show ?case by (rule count_inv_move [OF ap_read.prems, of _ i "A_Read (arch_complete s)"]) (simp_all add: ap_read.hyps counting_def)
next
  case (ap_write s i v)
  note inv = count_invD [OF ap_write.prems]
  let ?C = "{j. 6 \<le> rank (ap_at s j)}"
  have at: "counting (ap_at s i)" "counting A_Written" "i \<notin> ?C" using ap_write.hyps by (simp_all add: counting_def)
  then have "v + 1 = of_nat (card (insert i ?C))" using inv(3) [OF ap_write.hyps] inv(4,5) by simp
  moreover have "{j. 6 \<le> rank (((ap_at s)(i := A_Written)) j)} = insert i ?C" by auto
  moreover have "\<forall>j u. ((ap_at s)(i := A_Written)) j = A_Read u \<longrightarrow> u = v + 1"
  proof (intro allI impI)
    fix j u assume "((ap_at s)(i := A_Written)) j = A_Read u"
    then have "j \<noteq> i" "ap_at s j = A_Read u" by (auto split: if_splits)
    moreover from this(2) have "counting (ap_at s j)" by (simp add: counting_def)
    ultimately show "u = v + 1" using inv(2) [OF _ at(1)] by blast
  qed
  moreover have c: "counting (((ap_at s)(i := A_Written)) j) \<longleftrightarrow> counting (ap_at s j)" for j using at by auto
  ultimately show ?case unfolding count_inv_def using inv(1,2,4) by (simp add: c del: fun_upd_apply)
next
  case (ap_unlock s i)
  note inv = count_invD [OF ap_unlock.prems]
  have at: "counting (ap_at s i)" "\<not> counting A_Running" using ap_unlock.hyps by (simp_all add: counting_def)
  then have no: "\<not> counting (((ap_at s)(i := A_Running)) j)" for j using inv(2) [of j i] by auto
  have "{j. 6 \<le> rank (((ap_at s)(i := A_Running)) j)} = {j. 6 \<le> rank (ap_at s j)}" using ap_unlock.hyps by auto
  then show ?case unfolding count_inv_def using inv(3-5) no by (auto split: if_splits)
qed (erule count_inv_same; simp)+

subsection \<open>Properties\<close>

lemma smp_reachable_inv: "smp_reachable n is_bsp s \<Longrightarrow> boot_inv n is_bsp s \<and> enable_inv s \<and> count_inv s"
  by (induction rule: smp_reachable.induct)
    (auto intro: boot_inv_init enable_inv_init count_inv_init boot_inv_step enable_inv_step count_inv_step)

lemma rank_mono: "smp_step n is_bsp s t \<Longrightarrow> rank (ap_at s i) \<le> rank (ap_at t i)"
  by (induction rule: smp_step.induct) auto

lemma others_card:
  assumes "{i. i < n \<and> is_bsp i} = {b}"
  shows "n = Suc (card {i. i < n \<and> \<not> is_bsp i})"
proof -
  have "{..<n} = insert b {i. i < n \<and> \<not> is_bsp i}" "b \<notin> {i. i < n \<and> \<not> is_bsp i}" using assms by auto
  then show ?thesis by (metis (lifting) card_lessThan card_insert_disjoint finite_insert finite_lessThan)
qed

lemma counted_all:
  assumes "smp_reachable n is_bsp s" "{i. i < n \<and> is_bsp i} = {b}" "n < 2 ^ 64" "arch_complete s = of_nat n - 1"
  shows "{i. 6 \<le> rank (ap_at s i)} = {i. i < n \<and> \<not> is_bsp i}"
proof -
  let ?C = "{i. 6 \<le> rank (ap_at s i)}" and ?A = "{i. i < n \<and> \<not> is_bsp i}"
  have inv: "boot_inv n is_bsp s" "count_inv s" using smp_reachable_inv [OF assms(1)] by auto
  have sub: "?C \<subseteq> ?A"
  proof
    fix i assume "i \<in> ?C"
    then have "0 < rank (ap_at s i)" by simp
    then have "goto_address s i" using inv(1) unfolding boot_inv_def by blast
    then show "i \<in> ?A" using inv(1) unfolding boot_inv_def by (auto dest: less_le_trans)
  qed
  have card: "n = Suc (card ?A)" by (rule others_card [OF assms(2)])
  have "card ?C \<le> card ?A" by (rule card_mono [OF _ sub]) simp
  moreover have "(of_nat (card ?C) :: u64) = of_nat (card ?A)"
    using count_invD(5) [OF inv(2)] assms(4) card by (metis add_diff_cancel_left' of_nat_Suc)
  ultimately have "card ?C = card ?A" using assms(3) card by (simp add: of_nat_u64_eq_iff)
  then show ?thesis by (intro card_subset_eq) (use sub in auto)
qed

text \<open>
  (C12) Starting the processors, in every interleaving: at most one processor sets itself up at a time, and it is the one the boot
  processor waits for; none goes on to its scheduler before all others are set up and the boot processor has opened the scheduler
  lock; and when the boot processor goes on, every other processor of the list has counted itself.
\<close>

theorem smp_start_up:
  assumes "smp_reachable n is_bsp s" "{i. i < n \<and> is_bsp i} = {b}" "n < 2 ^ 64"
  shows "(ap_at s i = A_Boot \<longrightarrow> bsp_at s = B_Wait i) \<and>
    (3 \<le> rank (ap_at s i) \<longrightarrow> (bsp_at s = B_Collect \<or> bsp_at s = B_Done) \<and> (\<forall>j < n. \<not> is_bsp j \<longrightarrow> 2 \<le> rank (ap_at s j))) \<and>
    (bsp_at s = B_Done \<longrightarrow> i < n \<longrightarrow> \<not> is_bsp i \<longrightarrow> ap_at s i = A_Written \<or> ap_at s i = A_Running)"
proof (intro conjI impI)
  have inv: "boot_inv n is_bsp s" "enable_inv s" "count_inv s" using smp_reachable_inv [OF assms(1)] by auto
  show "bsp_at s = B_Wait i" if "ap_at s i = A_Boot"
  proof -
    have "goto_address s i" "\<not> 2 \<le> rank (ap_at s i)" using inv(1) that unfolding boot_inv_def by (metis rank.simps(2) zero_less_one, simp)
    then show ?thesis using inv(1) unfolding boot_inv_def by blast
  qed
  assume r: "3 \<le> rank (ap_at s i)"
  then have e: "bsp_at s = B_Collect \<or> bsp_at s = B_Done" using inv(2) by (auto simp: enable_inv_def enabled_def)
  then have "finished n (bsp_at s) = n" by auto
  then show "bsp_at s = B_Collect \<or> bsp_at s = B_Done" "\<forall>j < n. \<not> is_bsp j \<longrightarrow> 2 \<le> rank (ap_at s j)"
    using e inv(1) unfolding boot_inv_def by auto
next
  assume "bsp_at s = B_Done" "i < n" "\<not> is_bsp i"
  have "bsp_at s = B_Done \<longrightarrow> i < n \<longrightarrow> \<not> is_bsp i \<longrightarrow> 6 \<le> rank (ap_at s i)"
    using assms(1)
  proof (induction rule: smp_reachable.induct)
    case (step s t)
    show ?case
    proof (cases "bsp_at s = B_Done")
      case True
      then show ?thesis using step rank_mono [OF step(2), of i] by auto
    next
      case False
      show ?thesis
      proof (intro impI)
        assume t: "bsp_at t = B_Done" "i < n" "\<not> is_bsp i"
        have "ap_at t = ap_at s" "arch_complete s = of_nat n - 1" using step(2) t(1) False by (cases; simp)+
        then show "6 \<le> rank (ap_at t i)" using counted_all [OF step(1) assms(2,3)] t(2,3) by auto
      qed
    qed
  qed (simp add: smp_init_def)
  then have "6 \<le> rank (ap_at s i)" using \<open>bsp_at s = B_Done\<close> \<open>i < n\<close> \<open>\<not> is_bsp i\<close> by blast
  then show "ap_at s i = A_Written \<or> ap_at s i = A_Running" by (cases "ap_at s i") auto
qed

text \<open>Two processors, the first of them the boot processor: a run to the end.\<close>

lemma two_processors_start:
  "\<exists>s. smp_reachable 2 (\<lambda>i. i = 0) s \<and> bsp_at s = B_Done"
proof -
  note step = smp_reachable.step
  have r0: "smp_reachable 2 (\<lambda>i. i = 0) smp_init" by (rule smp_reachable.start)
  define sa where "sa = smp_init\<lparr>arch_mp_enable_scheduler_lock := 1, bsp_at := B_Loop 0\<rparr>"
  have ra: "smp_reachable 2 (\<lambda>i. i = 0) sa" unfolding sa_def
    by (rule step [OF r0], rule smp_step.lock_scheduler) (simp_all add: smp_init_def)
  define sb where "sb = sa\<lparr>bsp_at := B_Loop (Suc 0)\<rparr>"
  have rb: "smp_reachable 2 (\<lambda>i. i = 0) sb" unfolding sb_def
    by (rule step [OF ra], rule smp_step.skip_self) (simp_all add: sa_def smp_init_def)
  define sc where "sc = sb\<lparr>arch_mp_bootstrap_lock := 1, bsp_at := B_Wake (Suc 0)\<rparr>"
  have rc: "smp_reachable 2 (\<lambda>i. i = 0) sc" unfolding sc_def
    by (rule step [OF rb], rule smp_step.lock_bootstrap) (simp_all add: sb_def sa_def smp_init_def)
  define sd where "sd = sc\<lparr>goto_address := (goto_address sc)(Suc 0 := True), bsp_at := B_Wait (Suc 0)\<rparr>"
  have rd: "smp_reachable 2 (\<lambda>i. i = 0) sd" unfolding sd_def
    by (rule step [OF rc], rule smp_step.wake) (simp_all add: sc_def sb_def sa_def smp_init_def)
  define se where "se = sd\<lparr>ap_at := (ap_at sd)(Suc 0 := A_Boot)\<rparr>"
  have re: "smp_reachable 2 (\<lambda>i. i = 0) se" unfolding se_def
    by (rule step [OF rd], rule smp_step.ap_start) (simp_all add: sd_def sc_def sb_def sa_def smp_init_def)
  define sf where "sf = se\<lparr>arch_mp_bootstrap_lock := spinlock_release (arch_mp_bootstrap_lock se), ap_at := (ap_at se)(Suc 0 := A_Ready)\<rparr>"
  have rf: "smp_reachable 2 (\<lambda>i. i = 0) sf" unfolding sf_def
    by (rule step [OF re], rule smp_step.ap_ready) (simp_all add: se_def sd_def sc_def sb_def sa_def smp_init_def)
  define sg where "sg = sf\<lparr>bsp_at := B_Loop (Suc (Suc 0))\<rparr>"
  have rg: "smp_reachable 2 (\<lambda>i. i = 0) sg" unfolding sg_def
    by (rule step [OF rf], rule smp_step.waited) (simp_all add: sf_def se_def sd_def sc_def sb_def sa_def smp_init_def)
  define sh where "sh = sg\<lparr>arch_aps_online := 2 > (1 :: nat), bsp_at := B_Online\<rparr>"
  have rh: "smp_reachable 2 (\<lambda>i. i = 0) sh" unfolding sh_def
    by (rule step [OF rg], rule smp_step.all_awake [where i = "Suc (Suc 0)"]) (auto simp: sg_def sf_def se_def sd_def sc_def sb_def sa_def smp_init_def)
  define si where "si = sh\<lparr>arch_mp_enable_scheduler_lock := spinlock_release (arch_mp_enable_scheduler_lock sh), bsp_at := B_Collect\<rparr>"
  have ri: "smp_reachable 2 (\<lambda>i. i = 0) si" unfolding si_def
    by (rule step [OF rh], rule smp_step.start_scheduler) (simp_all add: sh_def sg_def sf_def se_def sd_def sc_def sb_def sa_def smp_init_def)
  define sj where "sj = si\<lparr>ap_at := (ap_at si)(Suc 0 := A_Joining)\<rparr>"
  have rj: "smp_reachable 2 (\<lambda>i. i = 0) sj" unfolding sj_def
    by (rule step [OF ri], rule smp_step.ap_enabled) (simp_all add: si_def sh_def sg_def sf_def se_def sd_def sc_def sb_def sa_def smp_init_def)
  define sk where "sk = sj\<lparr>arch_mp_completion_lock := 1, ap_at := (ap_at sj)(Suc 0 := A_Held)\<rparr>"
  have rk: "smp_reachable 2 (\<lambda>i. i = 0) sk" unfolding sk_def
    by (rule step [OF rj], rule smp_step.ap_lock) (simp_all add: sj_def si_def sh_def sg_def sf_def se_def sd_def sc_def sb_def sa_def smp_init_def)
  define sl where "sl = sk\<lparr>ap_at := (ap_at sk)(Suc 0 := A_Read (arch_complete sk))\<rparr>"
  have rl: "smp_reachable 2 (\<lambda>i. i = 0) sl" unfolding sl_def
    by (rule step [OF rk], rule smp_step.ap_read) (simp_all add: sk_def sj_def si_def sh_def sg_def sf_def se_def sd_def sc_def sb_def sa_def smp_init_def)
  define sm where "sm = sl\<lparr>arch_complete := 0 + 1, ap_at := (ap_at sl)(Suc 0 := A_Written)\<rparr>"
  have rm: "smp_reachable 2 (\<lambda>i. i = 0) sm" unfolding sm_def
    by (rule step [OF rl], rule smp_step.ap_write) (simp_all add: sl_def sk_def sj_def si_def sh_def sg_def sf_def se_def sd_def sc_def sb_def sa_def smp_init_def)
  define sn where "sn = sm\<lparr>bsp_at := B_Done\<rparr>"
  have rn: "smp_reachable 2 (\<lambda>i. i = 0) sn" unfolding sn_def
    by (rule step [OF rm], rule smp_step.all_complete) (simp_all add: sm_def sl_def sk_def sj_def si_def sh_def sg_def sf_def se_def sd_def sc_def sb_def sa_def smp_init_def)
  show ?thesis using rn by (intro exI [of _ sn]) (simp add: sn_def)
qed

theorem smp_start_up_witness:
  "\<exists>s. smp_reachable 2 (\<lambda>i. i = 0) s \<and> bsp_at s = B_Done \<and> (ap_at s 1 = A_Written \<or> ap_at s 1 = A_Running)"
proof -
  obtain s where s: "smp_reachable 2 (\<lambda>i. i = 0) s" "bsp_at s = B_Done" using two_processors_start by blast
  have "{i :: nat. i < 2 \<and> i = 0} = {0}" by auto
  from smp_start_up [OF s(1) this, of 1] s show ?thesis by auto
qed

subsection \<open>Progress\<close>

text \<open>The steps that the boot processor and the others have left.\<close>

fun bsp_left :: "nat \<Rightarrow> bsp_pc \<Rightarrow> nat" where
  "bsp_left n B_Start = 3 * n + 4" | "bsp_left n (B_Loop i) = 3 * (n - i) + 3" | "bsp_left n (B_Wake i) = 3 * (n - i) + 2" |
  "bsp_left n (B_Wait i) = 3 * (n - i) + 1" | "bsp_left n B_Online = 2" | "bsp_left n B_Collect = 1" | "bsp_left n B_Done = 0"

definition steps_left :: "nat \<Rightarrow> smp_state \<Rightarrow> nat" where
  "steps_left n s = bsp_left n (bsp_at s) + (\<Sum>i < n. 7 - rank (ap_at s i))"

lemma steps_left_bsp:
  "ap_at t = ap_at s \<Longrightarrow> bsp_left n (bsp_at t) < bsp_left n (bsp_at s) \<Longrightarrow> steps_left n t < steps_left n s"
  by (simp add: steps_left_def)

lemma steps_left_ap:
  assumes "bsp_at t = bsp_at s" "ap_at t = (ap_at s)(i := p)" "i < n" "rank (ap_at s i) < rank p"
  shows "steps_left n t < steps_left n s"
proof -
  have le: "rank p \<le> 7" by (cases p) auto
  have "(\<Sum>j < n. 7 - rank (ap_at t j)) < (\<Sum>j < n. 7 - rank (ap_at s j))"
    by (rule sum_strict_mono_ex1) (use assms le in \<open>auto intro!: bexI [of _ i]\<close>)
  then show ?thesis using assms(1) by (simp add: steps_left_def)
qed

lemma awake_in_list:
  assumes "boot_inv n is_bsp s" "0 < rank (ap_at s i) \<or> goto_address s i"
  shows "i < n" "\<not> is_bsp i"
proof -
  have g: "goto_address s i" using assms unfolding boot_inv_def by blast
  show "\<not> is_bsp i" using assms(1) g unfolding boot_inv_def by blast
  show "i < n" using assms(1) g unfolding boot_inv_def by (meson less_le_trans)
qed

lemma steps_left_decreases:
  assumes "smp_step n is_bsp s t" "boot_inv n is_bsp s"
  shows "steps_left n t < steps_left n s"
  using assms
proof (induction rule: smp_step.induct)
  case (ap_start s i)
  show ?case by (rule steps_left_ap [of _ _ i A_Boot]) (use ap_start awake_in_list(1) in auto)
next
  case (ap_ready s i)
  show ?case by (rule steps_left_ap [of _ _ i A_Ready]) (use ap_ready awake_in_list(1) [OF ap_ready.prems, of i] in auto)
next
  case (ap_enabled s i)
  show ?case by (rule steps_left_ap [of _ _ i A_Joining]) (use ap_enabled awake_in_list(1) [OF ap_enabled.prems, of i] in auto)
next
  case (ap_lock s i w)
  show ?case by (rule steps_left_ap [of _ _ i A_Held]) (use ap_lock awake_in_list(1) [OF ap_lock.prems, of i] in auto)
next
  case (ap_read s i)
  show ?case by (rule steps_left_ap [of _ _ i "A_Read (arch_complete s)"]) (use ap_read awake_in_list(1) [OF ap_read.prems, of i] in auto)
next
  case (ap_write s i v)
  show ?case by (rule steps_left_ap [of _ _ i A_Written]) (use ap_write awake_in_list(1) [OF ap_write.prems, of i] in auto)
next
  case (ap_unlock s i)
  show ?case by (rule steps_left_ap [of _ _ i A_Running]) (use ap_unlock awake_in_list(1) [OF ap_unlock.prems, of i] in auto)
next
  case (wake s i)
  show ?case by (rule steps_left_bsp) (use wake in auto)
next
  case (waited s i)
  then have "i < n" unfolding boot_inv_def by blast
  then show ?case by (intro steps_left_bsp) (use waited in auto)
qed (rule steps_left_bsp; simp)+

text \<open>A processor that holds the lock of the count, or has passed the wait for the scheduler, can always go on.\<close>

lemma counting_steps: "counting (ap_at s i) \<Longrightarrow> \<exists>t. smp_step n is_bsp s t"
  by (cases "ap_at s i") (auto simp: counting_def intro: ap_read ap_write ap_unlock)

lemma joined_steps:
  assumes "count_inv s" "enable_inv s" "enabled (bsp_at s)" "2 \<le> rank (ap_at s i)" "ap_at s i \<noteq> A_Running"
  shows "\<exists>t. smp_step n is_bsp s t"
proof (cases "\<exists>j. counting (ap_at s j)")
  case True
  then show ?thesis using counting_steps by blast
next
  case False
  then have "arch_mp_completion_lock s = 0" using count_invD(1) [OF assms(1)] by blast
  then have tas: "test_and_set (arch_mp_completion_lock s) = (False, 1)" by (simp add: test_and_set_def)
  have "arch_mp_enable_scheduler_lock s = 0" using assms(2,3) by (auto simp: enable_inv_def)
  moreover have "ap_at s i = A_Ready \<or> ap_at s i = A_Joining" using spec [OF False [unfolded not_ex], of i] assms(4,5)
    by (cases "ap_at s i") (auto simp: counting_def)
  ultimately show ?thesis using ap_enabled ap_lock [OF _ tas] by metis
qed

lemma woken_steps:
  assumes "boot_inv n is_bsp s" "bsp_at s = B_Wait i"
  shows "\<exists>t. smp_step n is_bsp s t"
proof (cases "arch_mp_bootstrap_lock s = 0")
  case True
  then show ?thesis using assms(2) waited by blast
next
  case False
  then have "rank (ap_at s i) < 2" "goto_address s i" using assms unfolding boot_inv_def by auto
  then have "ap_at s i = A_Parked \<or> ap_at s i = A_Boot" by (cases "ap_at s i") auto
  then show ?thesis using \<open>goto_address s i\<close> ap_start ap_ready by blast
qed

lemma collecting_steps:
  assumes "boot_inv n is_bsp s" "enable_inv s" "count_inv s" "enabled (bsp_at s)" "{i. i < n \<and> is_bsp i} = {b}"
    "\<not> (bsp_at s = B_Done \<and> (\<forall>i < n. is_bsp i \<or> ap_at s i = A_Running))"
  shows "\<exists>t. smp_step n is_bsp s t"
proof (cases "\<exists>i < n. \<not> is_bsp i \<and> ap_at s i \<noteq> A_Running")
  case True
  then obtain i where i: "i < n" "\<not> is_bsp i" "ap_at s i \<noteq> A_Running" by blast
  have "finished n (bsp_at s) = n" using assms(4) by (auto simp: enabled_def)
  then have "2 \<le> rank (ap_at s i)" using assms(1) i unfolding boot_inv_def by simp
  then show ?thesis using joined_steps [OF assms(3,2,4)] i(3) by blast
next
  case False
  then have c: "bsp_at s = B_Collect" using assms(4,6) by (auto simp: enabled_def)
  have "{i. 6 \<le> rank (ap_at s i)} = {i. i < n \<and> \<not> is_bsp i}"
    using False awake_in_list [OF assms(1)] by fastforce
  moreover have "n = Suc (card {i. i < n \<and> \<not> is_bsp i})" by (rule others_card [OF assms(5)])
  ultimately have "arch_complete s = of_nat n - 1" using count_invD(5) [OF assms(3)] by (metis add_diff_cancel_left' of_nat_Suc)
  then show ?thesis using c all_complete by blast
qed

lemma smp_progress:
  assumes "smp_reachable n is_bsp s" "{i. i < n \<and> is_bsp i} = {b}"
    "\<not> (bsp_at s = B_Done \<and> (\<forall>i < n. is_bsp i \<or> ap_at s i = A_Running))"
  shows "\<exists>t. smp_step n is_bsp s t"
proof -
  have inv: "boot_inv n is_bsp s" "enable_inv s" "count_inv s" using smp_reachable_inv [OF assms(1)] by auto
  have free: "w = 0 \<Longrightarrow> test_and_set w = (False, 1)" for w :: u64 by (simp add: test_and_set_def)
  show ?thesis
  proof (cases "bsp_at s")
    case B_Start
    then have "arch_mp_enable_scheduler_lock s = 0" using inv(2) by (auto simp: enable_inv_def)
    then show ?thesis using B_Start lock_scheduler free by blast
  next
    case (B_Loop i)
    then have "arch_mp_bootstrap_lock s = 0" using inv(1) unfolding boot_inv_def by simp
    then show ?thesis using B_Loop lock_bootstrap [OF _ _ _ free] skip_self all_awake by metis
  next
    case (B_Wake i)
    then show ?thesis using wake by blast
  next
    case B_Online
    then show ?thesis using start_scheduler by blast
  qed (use inv assms(2,3) woken_steps collecting_steps in \<open>auto simp: enabled_def\<close>)
qed

text \<open>
  (C36) Starting the processors never gets stuck and ends: whatever the interleaving, some processor can take a step until the boot
  processor has gone on and every other processor of the list is in its scheduler, and every step leaves fewer to take.
\<close>

theorem smp_start_up_ends:
  assumes "smp_reachable n is_bsp s" "{i. i < n \<and> is_bsp i} = {b}"
  shows "((\<exists>t. smp_step n is_bsp s t) \<or> bsp_at s = B_Done \<and> (\<forall>i < n. is_bsp i \<or> ap_at s i = A_Running)) \<and>
    (\<forall>t. smp_step n is_bsp s t \<longrightarrow> steps_left n t < steps_left n s)"
  using smp_progress [OF assms] steps_left_decreases smp_reachable_inv [OF assms(1)] by blast

theorem smp_start_up_ends_witness:
  "(\<exists>t. smp_step 2 (\<lambda>i. i = 0) smp_init t) \<or> bsp_at smp_init = B_Done"
proof -
  have "{i :: nat. i < 2 \<and> i = 0} = {0}" by auto
  from smp_start_up_ends [OF smp_reachable.start this] show ?thesis by blast
qed

end
