(* ===== verification/Task_Creation.thy ===== *)
theory Task_Creation
  imports Address_Space Round_Robin_Correct Libc_Correct
begin

text \<open>
  Creating a task while tables of other tasks are in use: the pages and the block the scheduler takes are new, so no table, no page
  in use and no byte below the heap changes, and the task waits at the end of the shortest run queue.
\<close>

subsection \<open>Where new pages lie\<close>

definition pool_bounds :: "'a page_state_scheme \<Rightarrow> (nat \<times> nat) list" where
  "pool_bounds s = map (\<lambda>p. (unat (allocate_base p), pool_hi p)) (allocator_pools s)"

lemma page_allocate_bounds: "page_allocate n s = Inr (p, s') \<Longrightarrow> pool_bounds s' = pool_bounds s"
proof -
  have *: "pool_bounds (s\<lparr>memory := m, allocator_pools := (allocator_pools s)[i := (allocator_pools s ! i)\<lparr>used := u, available := v,
      last_allocated_page_index := x\<rparr>], page_allocator_lock := l\<rparr>) = pool_bounds s" for i u v x m l and s :: "'a page_state_scheme"
  proof (cases "i < length (allocator_pools s)")
    case True
    then show ?thesis by (simp add: pool_bounds_def map_update pool_hi_def list_update_same_conv)
  qed (simp add: pool_bounds_def list_update_beyond)
  show "page_allocate n s = Inr (p, s') \<Longrightarrow> pool_bounds s' = pool_bounds s"
    by (auto simp: page_allocate_eq page_allocate_multi_def Let_def * split: if_splits sum.splits option.splits)
qed

lemma next_layer_bounds:
  "arch_table_manager_allocate_next_layer l i flags s = Inr (l', s') \<Longrightarrow> pool_bounds s' = pool_bounds s"
  by (auto simp: arch_table_manager_allocate_next_layer_def Let_def pool_bounds_def dest!: page_allocate_bounds split: if_splits sum.splits)

lemma map_bounds: "arch_table_manager_map r va pa flags s = Inr s' \<Longrightarrow> pool_bounds s' = pool_bounds s"
  by (auto simp: arch_table_manager_map_def allocate_pml3_def allocate_pml2_def allocate_pml1_def Let_def write_leaf_def
      pool_bounds_def dest!: next_layer_bounds split: sum.splits)

text \<open>An address that no new page will hold: outside the pools, or in a page in use.\<close>

definition kept :: "'a page_state_scheme \<Rightarrow> u64 \<Rightarrow> bool" where
  "kept s a \<longleftrightarrow>
     list_all (\<lambda>(lo, hi). unat a < lo \<or> hi \<le> unat a) (pool_bounds s) \<or> (\<exists>f \<in> frames s. f \<le> unat a \<and> unat a < f + 4096)"

lemma kept_mono: "kept s a \<Longrightarrow> pool_bounds s' = pool_bounds s \<Longrightarrow> frames s \<subseteq> frames s' \<Longrightarrow> kept s' a"
  by (auto simp: kept_def)

lemma kept_off_page:
  assumes inv: "page_inv s'" and a: "kept s a" and same: "pool_bounds s' = pool_bounds s" "frames s \<subseteq> frames s'"
    and c: "unat c \<in> frames s'" "unat c \<notin> frames s"
  shows "4096 \<le> unat (a - c)"
proof -
  obtain p where p: "p \<in> set (allocator_pools s')" "unat (allocate_base p) \<le> unat c" "unat c + 4096 \<le> pool_hi p" "4096 dvd unat c"
    using frame_in_pool [OF inv c(1)] .
  have "\<not> (unat c \<le> unat a \<and> unat a < unat c + 4096)"
  proof
    assume ac: "unat c \<le> unat a \<and> unat a < unat c + 4096"
    have "(unat (allocate_base p), pool_hi p) \<in> set (pool_bounds s')" using p(1) by (auto simp: pool_bounds_def)
    then have "\<not> list_all (\<lambda>(lo, hi). unat a < lo \<or> hi \<le> unat a) (pool_bounds s)"
      using ac p(2,3) unfolding same(1) list_all_iff by fastforce
    then obtain f where f: "f \<in> frames s" "f \<le> unat a" "unat a < f + 4096" using a by (auto simp: kept_def)
    then have "4096 dvd f" using pz.held_page [OF inv] same(2) by auto
    then have "f = unat c" using f(2,3) ac p(4) by (auto elim!: dvdE)
    then show False using f(1) c(2) by simp
  qed
  moreover have "unat c + 4096 < 2 ^ 64" using pz.held_page [OF inv c(1)] by simp
  ultimately have "\<not> unat (a - c) < 4096" by (subst unat_minus_less_iff) auto
  then show ?thesis by simp
qed

subsection \<open>Steps that keep the tables\<close>

lemma sched_fields_more:
  fixes s s' :: "'a sched_state_scheme"
  assumes "block_state.more s' = block_state.more s"
  shows "tasks s' = tasks s" "contexts s' = contexts s" "cpu_contexts s' = cpu_contexts s" "last_context s' = last_context s"
    "last_id s' = last_id s" "last_id_lock s' = last_id_lock s" "gs_base s' = gs_base s" "gs_kernel_base s' = gs_kernel_base s"
    "simd_regs s' = simd_regs s" "sched_state.more s' = sched_state.more s"
  using assms by (cases s; cases s'; simp)+

text \<open>Steps of the creation: pages and blocks come and go, tables and pages in use stay.\<close>

definition quiet_step :: "u64 set \<Rightarrow> u64 set \<Rightarrow> 'a block_state_scheme \<Rightarrow> 'a block_state_scheme \<Rightarrow> bool" where
  "quiet_step R T s s' \<longleftrightarrow>
     same_tables R T s s' \<and> pool_bounds s' = pool_bounds s \<and> block_allocator_virtual_base s' = block_allocator_virtual_base s \<and>
     (\<forall>a. unat a < unat (block_allocator_virtual_base s) \<longrightarrow> heap_bytes s' a = heap_bytes s a)"

lemma quiet_step_trans: "quiet_step R T s s1 \<Longrightarrow> quiet_step R T s1 s2 \<Longrightarrow> quiet_step R T s s2"
  unfolding quiet_step_def using same_tables_trans by metis

lemma quiet_step_same:
  fixes s s' :: "'a block_state_scheme"
  assumes "tables_ok R T s" "memory s' = memory s" "kernel_hhdm_offset s' = kernel_hhdm_offset s"
    "allocator_pools s' = allocator_pools s" "page_allocator_lock s' = page_allocator_lock s"
    "block_allocator_virtual_base s' = block_allocator_virtual_base s"
    "\<And>a. unat a < unat (block_allocator_virtual_base s) \<Longrightarrow> heap_bytes s' a = heap_bytes s a"
  shows "quiet_step R T s s'" "frames s' = frames s" "spare k s' = spare k s"
  using same_tables_same [OF assms(1-5)] assms by (simp_all add: quiet_step_def pool_bounds_def)

lemma page_new_step:
  fixes s :: "'a block_state_scheme"
  assumes ok: "tables_ok R T s" and sp: "spare (Suc k) s"
  obtains c s1 where "page_allocate 1 s = Inr (c, s1)" "quiet_step R T s s1" "spare k s1" "unat c \<in> frames s1" "unat c \<notin> frames s"
    "c \<noteq> 0" "page_state.more s1 = page_state.more s"
proof -
  obtain c s1 where s1: "page_allocate 1 s = Inr (c, s1)" "spare k s1" "page_inv s1" "frames s1 = insert (unat c) (frames s)" "unat c \<notin> frames s"
    and wr: "\<forall>a. memory s1 a \<noteq> memory s1 a \<longrightarrow> unat c \<le> unat a \<and> unat a < unat c + 4096 \<Longrightarrow>
       same_tables R T s (s1\<lparr>memory := memory s1\<rparr>) \<and> frames (s1\<lparr>memory := memory s1\<rparr>) = frames s1"
    by (rule page_new [OF ok sp]) (rule that)
  have st: "same_tables R T s s1" using wr by simp
  note m = page_allocate_more [OF s1(1)]
  have "0 < unat c" using pz.held_page [OF s1(3), of "unat c"] s1(4) by simp
  then have "c \<noteq> 0" by auto
  then show thesis using that [OF s1(1) _ s1(2) _ s1(5) _ m] st s1(4) page_allocate_bounds [OF s1(1)] block_fields_more [OF m]
    by (simp add: quiet_step_def)
qed

subsection \<open>The name of a task\<close>

lemma write_bytes_put:
  assumes "length bs < 2 ^ 64"
  shows "write_bytes m p bs = put_bytes m p bs"
proof -
  have "fold (\<lambda>i m. m(p + of_nat i := bs ! i)) [0..<k] m = put_bytes m p (take k bs)" if "k \<le> length bs" for k
    using that
  proof (induction k)
    case (Suc k)
    have "a = p + of_nat k \<longleftrightarrow> unat (a - p) = k" for a
    proof -
      have "a = p + of_nat k \<longleftrightarrow> a - p = of_nat k" by (auto simp: algebra_simps)
      then show ?thesis using Suc.prems assms by (simp add: u64_eq_unat_iff unat_of_nat_exact)
    qed
    then show ?case using Suc by (auto simp: put_bytes_def fun_eq_iff less_Suc_eq)
  qed (simp add: put_bytes_def)
  from this [of "length bs"] show ?thesis by (simp add: write_bytes_def)
qed

text \<open>Changes of the heap's lists only.\<close>

definition lists_only :: "'a block_state_scheme \<Rightarrow> 'a block_state_scheme \<Rightarrow> bool" where
  "lists_only s s' \<longleftrightarrow>
     block_allocator_lock s' = 0 \<and> memory s' = memory s \<and> allocator_pools s' = allocator_pools s \<and>
     page_allocator_lock s' = page_allocator_lock s \<and> kernel_hhdm_offset s' = kernel_hhdm_offset s \<and>
     heap_bytes s' = heap_bytes s \<and> block_allocator_virtual_base s' = block_allocator_virtual_base s \<and>
     block_state.more s' = block_state.more s"

lemma lists_only_trans: "lists_only s s1 \<Longrightarrow> lists_only s1 s2 \<Longrightarrow> lists_only s s2"
  by (simp add: lists_only_def)

lemma finish_allocate_lists:
  "lists_only (s\<lparr>heap_bytes := memset8 (heap_bytes s) (x + 48) 0 z\<rparr>) (finish_allocate z x s)"
  by (simp add: lists_only_def finish_allocate_def block_allocator_move_to_busy_list_def block_allocator_remove_block_from_list_def Let_def)

text \<open>A block for the name, from the free list.\<close>

lemma name_block:
  fixes s :: "'a block_state_scheme"
  assumes ok: "tables_ok R T s" and inv: "block_inv s fs bs" and len: "length name \<le> 4048"
    and room: "\<exists>x \<in> set fs. round_block_size (of_nat (length name)) \<le> block_size (headers s x)"
  obtains p s1 where "block_allocate (of_nat (length name)) s = Inr (p, s1)" "unat (block_allocator_virtual_base s) \<le> unat p"
    "unat p + length name < 2 ^ 64" "quiet_step R T s s1" "frames s1 = frames s" "\<And>k. spare k s1 = spare k s" "block_allocator_lock s1 = 0"
    "block_state.more s1 = block_state.more s"
proof -
  let ?z = "round_block_size (of_nat (length name))" and ?vb = "block_allocator_virtual_base s"
  have lists: "block_lists s fs bs" and lock: "block_allocator_lock s = 0"
    and blocks: "blocks_ok ?vb (block_allocator_current_virtual_address s) (headers s) (set (fs @ bs))"
    using inv by (simp_all add: block_inv_def)
  from lists obtain x where x: "x \<in> set fs" "?z \<le> block_size (headers s x)" "x \<noteq> 0"
    "block_first_fit (headers s) ?z (block_free_list_start s) = Some x"
    by (cases rule: first_fit_cases [of _ _ _ ?z]) (use room in auto)
  let ?s = "finish_allocate ?z x s"
  have bok: "block_ok ?vb (block_allocator_current_virtual_address s) (headers s) x" using blocks x(1) by (simp add: blocks_ok_def)
  have b: "unat ?vb \<le> unat x" "unat x + 48 + unat (block_size (headers s x)) < 2 ^ 64"
    using bok unat_less_2p64 [of "block_allocator_current_virtual_address s"]
    by (auto simp: block_ok_def block_end_def intro: le_less_trans)
  have n: "unat (of_nat (length name) :: u64) = length name" using len by (simp add: unat_of_nat_exact)
  have z: "length name \<le> unat ?z" using round_block_size_props(3) [of "of_nat (length name)"] len n by simp
  have p: "unat (x + 48) = unat x + 48" using b by (subst unat_plus_exact) simp_all
  have "block_allocate (of_nat (length name)) s = Inr (x + 48, ?s)" using block_allocate_found [OF lock x(3,4)] .
  moreover have "heap_bytes ?s a = heap_bytes s a" if "unat a < unat ?vb" for a
  proof -
    have "\<not> unat (a - (x + 48)) < unat ?z"
      using unat_minus_less_iff [of "x + 48" "unat ?z" a] b x(2) that p by (simp add: word_le_nat_alt)
    then show ?thesis using finish_allocate_lists [of s x ?z] by (simp add: lists_only_def memset8_apply)
  qed
  moreover note l = finish_allocate_lists [of s x ?z, unfolded lists_only_def]
  ultimately show thesis
    using that [of "x + 48" ?s] quiet_step_same [OF ok, of ?s] b p z x(2) by (simp add: word_le_nat_alt)
qed

subsection \<open>The run queue\<close>

lemma push_new_task:
  assumes rep: "queue_rep c s xs" and f: "fresh_task c s x" and x: "x \<notin> set xs"
  obtains s' where "task_scheduler_round_robin_push_to_queue c x s = Inr s'" "queue_rep c s' (xs @ [x])"
    "tasks s' x = (tasks s x)\<lparr>parent_queue := c\<rparr>" "\<exists>t cs. s' = s\<lparr>tasks := t, contexts := cs\<rparr>"
proof -
  obtain s' where s': "task_scheduler_round_robin_push_to_queue c x s = Inr s'" "queue_rep c s' (xs @ [x])"
    using push_appends_queue [OF rep f x] by metis
  have "queue_last (queue_of s c) \<noteq> x" if "queue_count (queue_of s c) > 0"
  proof -
    have "xs \<noteq> []" using that rep queue_count_gt_1(2) [of "queue_count (queue_of s c)"] by (auto simp: queue_rep_def Let_def)
    then have "queue_last (queue_of s c) \<in> set xs" using rep by (auto simp: queue_rep_def Let_def)
    then show ?thesis using x by auto
  qed
  then have "tasks s' x = (tasks s x)\<lparr>parent_queue := c\<rparr>"
    using s'(1) by (auto simp: task_scheduler_round_robin_push_to_queue_def Let_def set_task_next_def split: sum.splits if_splits)
  moreover have "\<exists>t cs. s' = s\<lparr>tasks := t, contexts := cs\<rparr>"
    using s'(1) by (auto simp: task_scheduler_round_robin_push_to_queue_def Let_def set_queue_def split: sum.splits if_splits)
  ultimately show thesis using that [OF s'] by blast
qed

text \<open>
  The schedulers of all processors are in order: the contexts are linked, every queue is well formed and has a place left, and its
  tasks are pages in use.
\<close>

definition schedulers_ok :: "u64 list \<Rightarrow> 'a sched_state_scheme \<Rightarrow> bool" where
  "schedulers_ok ds s \<longleftrightarrow>
     context_chain (contexts s) ds \<and> hd ds = last_context s \<and> last_id_lock s = 0 \<and> (\<exists>k c. gs_ok s k c) \<and>
     (\<forall>d \<in> set ds. queue_count (queue_of s d) \<noteq> 0xFFFFFFFFFFFFFFFF \<and> (\<exists>xs. queue_rep d s xs \<and> (\<forall>x \<in> set xs. unat x \<in> frames s)))"

lemma context_chain_nonempty: "context_chain cs ds \<Longrightarrow> ds \<noteq> []"
  by (cases ds) auto

lemma least_busy_ok:
  assumes "schedulers_ok ds s"
  obtains d xs where "least_busy (contexts s) 0xFFFFFFFFFFFFFFFF f (last_context s) = Some d" "d \<in> set ds" "queue_rep d s xs"
    "\<forall>x \<in> set xs. unat x \<in> frames s" "queue_count (queue_of s d) \<noteq> 0xFFFFFFFFFFFFFFFF"
proof -
  have ch: "context_chain (contexts s) ds" "hd ds = last_context s"
    and q: "\<And>d. d \<in> set ds \<Longrightarrow> queue_count (queue_of s d) \<noteq> 0xFFFFFFFFFFFFFFFF"
      "\<And>d. d \<in> set ds \<Longrightarrow> \<exists>xs. queue_rep d s xs \<and> (\<forall>x \<in> set xs. unat x \<in> frames s)"
    using assms by (auto simp: schedulers_ok_def)
  have less: "queue_count (running (contexts s d)) < 0xFFFFFFFFFFFFFFFF" if "d \<in> set ds" for d
  proof -
    have "unat (queue_count (running (contexts s d))) \<noteq> unat (0xFFFFFFFFFFFFFFFF :: u64)"
      using q(1) [OF that] unfolding queue_of_def u64_eq_unat_iff .
    then show ?thesis using unat_less_2p64 [of "queue_count (running (contexts s d))"] by (simp add: word_less_nat_alt)
  qed
  obtain d where d: "least_busy (contexts s) 0xFFFFFFFFFFFFFFFF f (last_context s) = Some d" "d \<in> set ds"
    using least_busy_eq [OF ch(1), of "0xFFFFFFFFFFFFFFFF" f] ch less [of "hd ds"] context_chain_nonempty [OF ch(1)]
    by (metis hd_in_set)
  then show thesis using q that by blast
qed

lemma schedulers_ok_mono:
  assumes "schedulers_ok ds s" "frames s \<subseteq> frames s'" "tasks s' = tasks s" "contexts s' = contexts s" "cpu_contexts s' = cpu_contexts s"
    "last_context s' = last_context s" "last_id_lock s' = last_id_lock s" "gs_base s' = gs_base s" "gs_kernel_base s' = gs_kernel_base s"
  shows "schedulers_ok ds s'"
proof -
  have q: "queue_of s' d = queue_of s d" for d using assms(4) by (simp add: queue_of_def)
  then have "queue_rep d s' xs = queue_rep d s xs" for d xs using assms(3) by (intro queue_rep_cong) simp_all
  moreover have "gs_ok s' k c = gs_ok s k c" for k c using assms by (simp add: gs_ok_def)
  moreover have "\<exists>xs. queue_rep d s xs \<and> (\<forall>x \<in> set xs. unat x \<in> frames s')" if "d \<in> set ds" for d
    using assms(1,2) that unfolding schedulers_ok_def by blast
  ultimately show ?thesis using assms q by (simp add: schedulers_ok_def)
qed

subsection \<open>Creation\<close>

lemma block_more_page:
  fixes s s' :: "'a block_state_scheme"
  shows "page_state.more s' = page_state.more s \<Longrightarrow> block_state.more s' = block_state.more s"
  by (cases s; cases s') simp

text \<open>The pages and the block a new task needs.\<close>

lemma create_pages:
  fixes s :: "'a sched_state_scheme"
  assumes ok: "tables_ok R T s" and sp: "spare (k + 3) s" and inv: "block_inv s fs bs" and len: "length name \<le> 4048"
    and room: "\<exists>x \<in> set fs. round_block_size (of_nat (length name)) \<le> block_size (headers s x)"
  obtains task s1 p s2 stack s4 fds s6 where "page_allocate 1 s = Inr (task, s1)" "block_allocate (of_nat (length name)) s1 = Inr (p, s2)"
    "page_allocate 1 (s2\<lparr>heap_bytes := write_bytes (heap_bytes s2) p name\<rparr>) = Inr (stack, s4)"
    "page_allocate 1 (s4\<lparr>last_id := last_id s4 + 1, last_id_lock := 0\<rparr>) = Inr (fds, s6)" "quiet_step R T s s6"
    "unat task \<in> frames s6 - frames s" "task \<noteq> 0" "bytes_at (heap_bytes s6) p (length name) = name" "block_allocator_lock s6 = 0"
    "block_state.more s4 = block_state.more s" "block_state.more s6 = block_state.more (s\<lparr>last_id := last_id s + 1, last_id_lock := 0\<rparr>)"
proof -
  obtain task s1 where s1: "page_allocate 1 s = Inr (task, s1)" "quiet_step R T s s1" "spare (k + 2) s1" "unat task \<in> frames s1" "unat task \<notin> frames s"
    "task \<noteq> 0" "page_state.more s1 = page_state.more s"
    using page_new_step [OF ok, of "k + 2"] sp by (auto simp: eval_nat_numeral)
  note f1 = block_fields_more [OF s1(7)]
  have ok1: "tables_ok R T s1" using s1(2) by (simp add: quiet_step_def same_tables_def)
  have inv1: "block_inv s1 fs bs" using inv by (simp add: block_inv_def block_lists_def f1)
  have room1: "\<exists>x \<in> set fs. round_block_size (of_nat (length name)) \<le> block_size (headers s1 x)" using room f1 by simp
  obtain p s2 where s2: "block_allocate (of_nat (length name)) s1 = Inr (p, s2)" "unat (block_allocator_virtual_base s1) \<le> unat p"
    "unat p + length name < 2 ^ 64" "quiet_step R T s1 s2" "frames s2 = frames s1" "\<And>k. spare k s2 = spare k s1" "block_allocator_lock s2 = 0"
    "block_state.more s2 = block_state.more s1"
    using name_block [OF ok1 inv1 len room1] by blast
  define s3 where "s3 = s2\<lparr>heap_bytes := write_bytes (heap_bytes s2) p name\<rparr>"
  have ok2: "tables_ok R T s2" and vb2: "block_allocator_virtual_base s2 = block_allocator_virtual_base s1"
    using s2(4) by (simp_all add: quiet_step_def same_tables_def)
  have wb: "write_bytes (heap_bytes s2) p name = put_bytes (heap_bytes s2) p name" using len by (intro write_bytes_put) simp
  have "put_bytes (heap_bytes s2) p name a = heap_bytes s2 a" if "unat a < unat (block_allocator_virtual_base s2)" for a
    using unat_minus_less_iff [of p "length name" a] s2(2,3) that vb2 by (intro put_bytes_other) simp
  then have q3: "quiet_step R T s2 s3" "frames s3 = frames s2" "\<And>k. spare k s3 = spare k s2"
    using quiet_step_same [OF ok2, of s3] by (simp_all add: s3_def wb)
  have ok3: "tables_ok R T s3" using q3(1) by (simp add: quiet_step_def same_tables_def)
  have sp3: "spare (Suc (k + 1)) s3" using s1(3) by (simp add: q3(3) s2(6))
  obtain stack s4 where s4: "page_allocate 1 s3 = Inr (stack, s4)" "quiet_step R T s3 s4" "spare (k + 1) s4" "page_state.more s4 = page_state.more s3"
    using page_new_step [OF ok3 sp3] by metis
  define s5 where "s5 = s4\<lparr>last_id := last_id s4 + 1, last_id_lock := 0\<rparr>"
  have ok4: "tables_ok R T s4" using s4(2) by (simp add: quiet_step_def same_tables_def)
  have q5: "quiet_step R T s4 s5" "\<And>k. spare k s5 = spare k s4" using quiet_step_same [OF ok4, of s5] by (simp_all add: s5_def)
  have ok5: "tables_ok R T s5" using q5(1) by (simp add: quiet_step_def same_tables_def)
  obtain fds s6 where s6: "page_allocate 1 s5 = Inr (fds, s6)" "quiet_step R T s5 s6" "page_state.more s6 = page_state.more s5"
    using page_new_step [OF ok5, of k] s4(3) q5(2) by (metis Suc_eq_plus1)
  have q: "quiet_step R T s1 s6" using s2(4) q3(1) s4(2) q5(1) s6(2) quiet_step_trans by blast
  have more: "block_state.more s1 = block_state.more s" "block_state.more s4 = block_state.more s3" "block_state.more s6 = block_state.more s5"
    by (rule block_more_page, fact)+
  note f4 = block_fields_more [OF s4(4)] and f6 = block_fields_more [OF s6(3)]
  have m4: "block_state.more s4 = block_state.more s" using more s2(8) by (simp add: s3_def)
  then have "block_state.more s6 = block_state.more (s\<lparr>last_id := last_id s + 1, last_id_lock := 0\<rparr>)"
    unfolding more(3) s5_def by (cases s; cases s4) simp
  moreover have "bytes_at (heap_bytes s6) p (length name) = name"
    using len by (simp add: f6 s5_def f4 s3_def wb bytes_at_put_bytes)
  moreover have "frames s1 \<subseteq> frames s6" using q by (simp add: quiet_step_def same_tables_def)
  ultimately show thesis
    using that [OF s1(1) s2(1) s4(1) [unfolded s3_def] s6(1) [unfolded s5_def] quiet_step_trans [OF s1(2) q] _ s1(6) _ _ m4] s1(4,5) s2(7)
    by (auto simp: f6 s5_def f4 s3_def)
qed

text \<open>A new task, with its name on the heap, waits at the end of the shortest queue; tables and pages in use stay.\<close>

lemma create_ok:
  fixes s :: "'a sched_state_scheme"
  assumes ok: "tables_ok R T s" and sp: "spare (k + 3) s" and inv: "block_inv s fs bs" and len: "length name \<le> 4048"
    and room: "\<exists>x \<in> set fs. round_block_size (of_nat (length name)) \<le> block_size (headers s x)" and sch: "schedulers_ok ds s"
  obtains task s' d xs t where "task_scheduler_round_robin_create name s = Inr (task, s')" "quiet_step R T s s'"
    "unat task \<in> frames s' - frames s" "block_allocator_lock s' = 0" "sched_state.more s' = sched_state.more s"
    "tasks s' task = t" "task_state t = zero_cpu_state" "run_mode t = 0" "bytes_at (heap_bytes s') (task_name t) (length name) = name"
    "d \<in> set ds" "queue_rep d s xs" "queue_rep d s' (xs @ [task])"
proof -
  obtain task s1 p s2 stack s4 fds s6 where st: "page_allocate 1 s = Inr (task, s1)" "block_allocate (of_nat (length name)) s1 = Inr (p, s2)"
    "page_allocate 1 (s2\<lparr>heap_bytes := write_bytes (heap_bytes s2) p name\<rparr>) = Inr (stack, s4)"
    "page_allocate 1 (s4\<lparr>last_id := last_id s4 + 1, last_id_lock := 0\<rparr>) = Inr (fds, s6)" and q6: "quiet_step R T s s6"
    and tk: "unat task \<in> frames s6 - frames s" "task \<noteq> 0" and nm: "bytes_at (heap_bytes s6) p (length name) = name" "block_allocator_lock s6 = 0"
    and m: "block_state.more s4 = block_state.more s" "block_state.more s6 = block_state.more (s\<lparr>last_id := last_id s + 1, last_id_lock := 0\<rparr>)"
    by (rule create_pages [OF ok sp inv len room]) (rule that)
  note f4 = sched_fields_more [OF m(1)] and f6 = sched_fields_more [OF m(2), simplified]
  obtain g c where "gs_ok s g c" using sch by (auto simp: schedulers_ok_def)
  then have "gs_ok s6 g c" by (simp add: gs_ok_def f6)
  then obtain s7 where s7: "arch_get_scheduler_context s6 = Inr (c, s7)" "s7 = s6\<lparr>gs_base := gs_base s7, gs_kernel_base := gs_kernel_base s7\<rparr>"
    using get_scheduler_context_ok by metis
  have f7: "contexts s7 = contexts s" "last_context s7 = last_context s" "tasks s7 = tasks s" by (subst s7(2), simp add: f6)+
  obtain d xs where d: "least_busy (contexts s) 0xFFFFFFFFFFFFFFFF c (last_context s) = Some d" "d \<in> set ds" "queue_rep d s xs"
    "\<forall>x \<in> set xs. unat x \<in> frames s" "queue_count (queue_of s d) \<noteq> 0xFFFFFFFFFFFFFFFF"
    using least_busy_ok [OF sch] by metis
  have lock: "last_id_lock s = 0" "last_context s \<noteq> 0"
    using sch context_chain_nonzero [of "contexts s" ds "hd ds"] context_chain_nonempty [of "contexts s" ds] hd_in_set [of ds] by (auto simp: schedulers_ok_def)
  let ?t = "zero_task\<lparr>task_name := p, name_length := of_nat (length name), syscall_stack_top := stack + PAGE,
               task_empty := True, task_id := scast (last_id s6), fd_allocated_pages := 1, fd_count := 1,
               fd_translation := fds, fd_max := PAGE div 8, simd_state := simd_regs s7\<rparr>"
  define s8 where "s8 = s7\<lparr>tasks := (tasks s7)(task := ?t)\<rparr>"
  have x: "task \<notin> set xs" using d(4) tk(1) by auto
  have q8: "queue_of s8 d = queue_of s d" by (simp add: queue_of_def s8_def f7)
  have "queue_rep d s8 xs = queue_rep d s xs" by (rule queue_rep_cong [OF q8]) (use x in \<open>auto simp: s8_def f7\<close>)
  then have "queue_rep d s8 xs" "fresh_task d s8 task"
    using d(3,5) tk(2) q8 by (simp_all add: fresh_task_def) (simp add: s8_def zero_task_def)
  then obtain s9 where s9: "task_scheduler_round_robin_push_to_queue d task s8 = Inr s9" "queue_rep d s9 (xs @ [task])"
    "tasks s9 task = (tasks s8 task)\<lparr>parent_queue := d\<rparr>" "\<exists>t cs. s9 = s8\<lparr>tasks := t, contexts := cs\<rparr>"
    by (rule push_new_task [OF _ _ x]) (rule that)
  obtain t cs where e9: "s9 = s6\<lparr>gs_base := gs_base s7, gs_kernel_base := gs_kernel_base s7, tasks := t, contexts := cs\<rparr>"
    using s9(4) unfolding s8_def by (subst (asm) s7(2)) auto
  have ok6: "tables_ok R T s6" using q6 by (simp add: quiet_step_def same_tables_def)
  have q9: "quiet_step R T s6 s9" "frames s9 = frames s6" using quiet_step_same [OF ok6, of s9] by (simp_all add: e9)
  have "task_scheduler_round_robin_create name s = Inr (task, s9)"
    using st s7(1) d(1) lock s9(1) unfolding task_scheduler_round_robin_create_def s8_def by (simp add: f4 f7 spinlock_release_eq)
  then show thesis
    using that [OF _ quiet_step_trans [OF q6 q9(1)] _ _ _ s9(3) _ _ _ d(2,3) s9(2)] tk(1) q9(2) nm f6(10)
    by (simp add: e9 s8_def zero_task_def)
qed

end
