(* ===== verification/Syscall_Entry.thy ===== *)
theory Syscall_Entry
  imports Syscalls_Correct Ustar Framebuffer Task_Creation
begin

text \<open>
  The way from user space into the kernel and back: \<open>arch_syscall_entry\<close> of
  \<open>kernel/src/arch/x86_64/syscall/syscall.asm\<close> and the table of handlers in \<open>kernel/src/syscalls/syscalls.c\<close>.

  The registers at the instruction are a register record; the number of the call is in \<open>rdi\<close>, its parameters
  in \<open>rsi\<close>, \<open>rdx\<close>, \<open>r10\<close>. A call returns to user space with the instruction
  pointer, flags, stack and result it leaves in the registers; the registers a C function may change are not
  part of the result. A call can also wait for another task or never return.
\<close>

subsection \<open>The table\<close>

datatype 's syscall_outcome = Done u64 's | Blocked u64 's | Exited 's

definition returning :: "('s \<Rightarrow> (u64 \<times> 's) res) \<Rightarrow> 's \<Rightarrow> 's syscall_outcome res" where
  "returning f s = map_sum id (\<lambda>(r, s). Done r s) (f s)"

abbreviation (input) syscall_count :: u64 where "syscall_count \<equiv> 9"

definition syscall_handlers ::
  "nat \<Rightarrow> (u64 \<Rightarrow> 'a vfs_state_scheme vfs_fs_ops) \<Rightarrow>
     (arch_cpu_state \<Rightarrow> 'a vfs_state_scheme \<Rightarrow> 'a vfs_state_scheme syscall_outcome res) list" where
  "syscall_handlers fuel ops =
     [\<lambda>st. returning (sys_write ops (reg_rsi st) (reg_rdx st) (reg_r10 st)),
      \<lambda>st. returning (sys_open fuel ops (reg_rsi st) (reg_rdx st)),
      \<lambda>st. returning (sys_close ops (reg_rsi st)),
      \<lambda>st. returning (sys_read ops (reg_rsi st) (reg_rdx st) (reg_r10 st)),
      \<lambda>st. returning (sys_fork ops st),
      \<lambda>st. returning sys_yield,
      \<lambda>st s. map_sum id (\<lambda>w. case w of Returned r s \<Rightarrow> Done r s | Waiting t s \<Rightarrow> Blocked t s)
               (sys_waitpid fuel (reg_rsi st) (reg_rdx st) s),
      \<lambda>st s. map_sum id Exited (sys_exit (sint (ucast (reg_rsi st) :: u32)) s),
      \<lambda>st. returning (sys_lseek ops (reg_rsi st) (reg_rdx st) (sint (ucast (reg_r10 st) :: u32)))]"

subsection \<open>Entry and exit\<close>

record sysret_frame =
  ret_rip :: u64
  ret_rflags :: u64
  ret_rsp :: u64
  ret_rax :: u64

text \<open>The GS base of the task: the assembly compares the low half of the first word only.\<close>

definition task_gs :: "'a sched_state_scheme \<Rightarrow> 'a sched_state_scheme" where
  "task_gs s = (if ucast (context_word s (gs_base s)) = (0x55555555 :: u32) then swapgs s else s)"

text \<open>What \<open>arch_sys_fork_entry\<close> leaves on the stack for \<open>sys_fork\<close>: the registers and zeros.\<close>

definition arch_sys_fork_entry :: "arch_cpu_state \<Rightarrow> arch_cpu_state" where
  "arch_sys_fork_entry st =
     st\<lparr>reg_rax := 0, reg_error := 0, reg_rip := 0, reg_cs := 0, reg_rflags := 0, reg_rsp := 0, reg_ss := 0\<rparr>"

text \<open>\<open>sysret\<close> loads \<open>rip\<close> from \<open>rcx\<close> and the flags, the interrupt flag among them, from \<open>r11\<close>.\<close>

definition sysret :: "arch_cpu_state \<Rightarrow> u64 \<Rightarrow> u64 \<Rightarrow> 'a sched_state_scheme \<Rightarrow> sysret_frame \<times> 'a sched_state_scheme" where
  "sysret st rsp rax s =
     (\<lparr>ret_rip = reg_rcx st, ret_rflags = reg_r11 st, ret_rsp = rsp, ret_rax = rax\<rparr>,
      s\<lparr>interrupts_enabled := bit (reg_r11 st) 9\<rparr>)"

datatype 's kernel_exit = Sysret sysret_frame 's | Task_Blocked u64 's | Task_Exited 's

text \<open>Interrupts are off at the entry: the processor masks the flags as \<open>arch_syscall_init\<close> told it to.\<close>

definition arch_syscall_entry ::
  "nat \<Rightarrow> (u64 \<Rightarrow> 'a vfs_state_scheme vfs_fs_ops) \<Rightarrow> arch_cpu_state \<Rightarrow> 'a vfs_state_scheme \<Rightarrow>
     'a vfs_state_scheme kernel_exit res" where
  "arch_syscall_entry fuel ops st s =
     (if reg_rdi st \<ge> syscall_count then Inr (case sysret st (reg_rsp st) (reg_rax st) s of (f, s) \<Rightarrow> Sysret f s)
      else if gs_base s = 0 then Inl Null_Dereference
      else let s = task_gs (s\<lparr>interrupts_enabled := False\<rparr>);
               s = upd_task (gs_base s) (\<lambda>t. t\<lparr>userspace_stack_top := reg_rsp st\<rparr>) s;
               handler = syscall_handlers fuel ops ! unat (reg_rdi st)
           in case (if reg_rdi st = 4 then handler (arch_sys_fork_entry st) s
                    else handler st (s\<lparr>interrupts_enabled := True\<rparr>)) of
                Inl e \<Rightarrow> Inl e
              | Inr (Blocked t s) \<Rightarrow> Inr (Task_Blocked t s)
              | Inr (Exited s) \<Rightarrow> Inr (Task_Exited s)
              | Inr (Done r s) \<Rightarrow>
                  let s = task_gs (s\<lparr>interrupts_enabled := False\<rparr>)
                  in Inr (case sysret st (userspace_stack_top (tasks s (gs_base s))) r s of (f, s) \<Rightarrow> Sysret f s))"

subsection \<open>What the file systems leave alone\<close>

text \<open>The tasks and the context of the processor.\<close>

definition same_tasks :: "'a sched_state_scheme \<Rightarrow> 'a sched_state_scheme \<Rightarrow> bool" where
  "same_tasks s s' \<longleftrightarrow> tasks s' = tasks s \<and> gs_base s' = gs_base s \<and> gs_kernel_base s' = gs_kernel_base s \<and> cpu_contexts s' = cpu_contexts s"

lemma same_tasks_refl [simp]: "same_tasks s s"
  by (simp add: same_tasks_def)

lemma same_tasks_trans: "same_tasks s s' \<Longrightarrow> same_tasks s' s'' \<Longrightarrow> same_tasks s s''"
  by (simp add: same_tasks_def)

lemma same_tasks_back: "same_tasks s' s'' \<Longrightarrow> same_tasks s s' \<Longrightarrow> same_tasks s s''"
  by (simp add: same_tasks_def)

lemma same_tasks_more:
  assumes "block_state.more s' = block_state.more s"
  shows "same_tasks s s'"
  using assms by (cases s; cases s') (simp add: same_tasks_def)

lemma same_tasks_bytes [simp]: "same_tasks s (s'\<lparr>heap_bytes := b\<rparr>) = same_tasks s s'"
  by (simp add: same_tasks_def)

lemma same_tasks_fields [simp]:
  "same_tasks (s\<lparr>mount_lock := l\<rparr>) s' = same_tasks s s'" "same_tasks s (set_node p n s') = same_tasks s s'"
  "same_tasks s (s'\<lparr>mount_lock := l\<rparr>) = same_tasks s s'"
  by (simp_all add: same_tasks_def set_node_def)

lemma map_sum_eq_Inr: "map_sum id g x = Inr y \<longleftrightarrow> (\<exists>z. x = Inr z \<and> y = g z)"
  by (cases x) auto

lemmas block_allocate_tasks = block_allocate_more [THEN same_tasks_more]
  and block_deallocate_tasks = block_deallocate_more [THEN same_tasks_more]

lemma duplicate_bytes_tasks: "duplicate_bytes src n s = Inr (p, s') \<Longrightarrow> same_tasks s s'"
  by (auto simp: duplicate_bytes_def dest: block_allocate_tasks split: sum.splits)

text \<open>A file system is quiet when its callbacks leave the tasks alone.\<close>

locale quiet_file_systems =
  fixes ops :: "u64 \<Rightarrow> 'a vfs_state_scheme vfs_fs_ops"
  assumes open_law: "fs_open (ops fs) = Some f_open \<Longrightarrow> f_open g path mode s = Inr (r, s') \<Longrightarrow> same_tasks s s'"
    and read_law: "fs_read (ops fs) = Some f_read \<Longrightarrow> f_read node buffer n s = Inr (r, s') \<Longrightarrow> same_tasks s s'"
    and write_law: "fs_write (ops fs) = Some f_write \<Longrightarrow> f_write node buffer n s = Inr (r, s') \<Longrightarrow> same_tasks s s'"
    and lseek_law: "fs_lseek (ops fs) = Some f_lseek \<Longrightarrow> f_lseek node offset whence s = Inr (r, s') \<Longrightarrow> same_tasks s s'"
    and close_law: "fs_close (ops fs) = Some f_close \<Longrightarrow> f_close node s = Inr s' \<Longrightarrow> same_tasks s s'"
    and dup_law: "fs_dup (ops fs) = Some f_dup \<Longrightarrow> f_dup node s = Inr (r, s') \<Longrightarrow> same_tasks s s'"
begin

lemma vfs_open_tasks: "vfs_open ops path mode s = Inr (r, s') \<Longrightarrow> same_tasks s s'"
  by (auto simp: vfs_open_def Let_def dest: open_law split: if_splits option.splits sum.splits)

lemma vfs_read_tasks: "vfs_read ops node buffer n s = Inr (r, s') \<Longrightarrow> same_tasks s s'"
  by (auto simp: vfs_read_def dest: read_law split: if_splits option.splits)

lemma vfs_write_tasks: "vfs_write ops node buffer n s = Inr (r, s') \<Longrightarrow> same_tasks s s'"
  by (auto simp: vfs_write_def dest: write_law split: if_splits option.splits)

lemma vfs_close_tasks: "vfs_close ops node s = Inr s' \<Longrightarrow> same_tasks s s'"
  by (auto simp: vfs_close_def dest: close_law split: if_splits option.splits)

end

subsubsection \<open>The ramdisk\<close>

lemma ustar_open_tasks: "ustar_open fs path mode s = Inr (r, s') \<Longrightarrow> same_tasks s s'"
  by (auto simp: ustar_open_def simp: same_tasks_def set_node_def dest!: block_allocate_tasks duplicate_bytes_tasks
      split: if_splits option.splits sum.splits)

lemma ustar_close_tasks: "ustar_close node s = Inr s' \<Longrightarrow> same_tasks s s'"
  by (auto simp: ustar_close_def simp: same_tasks_def set_node_def dest!: block_deallocate_tasks split: if_splits sum.splits)

interpretation ramdisk: quiet_file_systems "\<lambda>_. ustar"
  by unfold_locales
    (auto simp: ustar_def ustar_read_def ustar_lseek_def ustar_dup_def Let_def
      dest!: ustar_open_tasks ustar_close_tasks split: if_splits sum.splits)

subsubsection \<open>Devices\<close>

lemma upd_device_tasks [simp]: "same_tasks s (upd_device d f s') = same_tasks s s'" "same_tasks s (s'\<lparr>devices := ds\<rparr>) = same_tasks s s'"
  by (simp_all add: same_tasks_def upd_device_def)

lemma allocate_dummy_tasks: "allocate_dummy dot s = Inr (d, s') \<Longrightarrow> same_tasks s s'"
  by (auto simp: allocate_dummy_def allocate_device_def simp: same_tasks_def set_node_def dest!: block_allocate_tasks duplicate_bytes_tasks
      split: option.splits sum.splits)

lemma enter_directory_tasks: "enter_directory dot dev s = Inr (l, s') \<Longrightarrow> same_tasks s s'"
  by (auto simp: enter_directory_def Let_def map_sum_eq_Inr dest!: allocate_dummy_tasks split: if_splits sum.splits )

lemma descend_tasks: "descend dot path dir_len list s = Inr (d, l, s') \<Longrightarrow> same_tasks s s'"
  by (auto simp: descend_def simp: same_tasks_def set_node_def dest!: duplicate_bytes_tasks enter_directory_tasks block_deallocate_tasks
      split: if_splits option.splits sum.splits)

text \<open>Devices whose callbacks leave the tasks alone make a quiet device file system.\<close>

locale quiet_devices =
  fixes fuel :: nat
    and init :: "u64 \<Rightarrow> u64 \<Rightarrow> 'a dev_state_scheme \<Rightarrow> 'a dev_state_scheme res"
    and rw :: "'a dev_state_scheme rw_callback"
    and dot :: u64
  assumes init_law: "init callback node s = Inr s' \<Longrightarrow> same_tasks s s'"
    and rw_law: "rw callback node buffer n s = Inr (r, s') \<Longrightarrow> same_tasks s s'"
begin

lemma open_device_tasks: "open_device init fs path mode dev s = Inr (r, s') \<Longrightarrow> same_tasks s s'"
  by (auto simp: open_device_def Let_def map_sum_eq_Inr simp: same_tasks_def set_node_def dest!: block_allocate_tasks duplicate_bytes_tasks init_law
      split: if_splits option.splits sum.splits )

lemma devfs_walk_tasks: "devfs_walk k init dot fs path_orig path list mode s = Inr (r, s') \<Longrightarrow> same_tasks s s'"
proof (induction k arbitrary: path list s)
  case (Suc k)
  show ?case using Suc.prems
    by (auto simp: Let_def split: if_splits option.splits sum.splits prod.splits)
      (auto dest!: descend_tasks Suc.IH open_device_tasks simp: same_tasks_def)
qed simp

lemma devfs_open_tasks: "devfs_open fuel init dot fs path mode s = Inr (r, s') \<Longrightarrow> same_tasks s s'"
  by (auto simp: devfs_open_def dest!: devfs_walk_tasks)

end

sublocale quiet_devices \<subseteq> device_files: quiet_file_systems "\<lambda>_. devfs fuel init rw dot"
  by unfold_locales
    (auto simp: devfs_def devfs_read_def devfs_write_def devfs_dup_def devfs_close_def Let_def same_tasks_def set_node_def
      dest!: devfs_open_tasks rw_law block_deallocate_tasks split: if_splits sum.splits)

text \<open>The framebuffer device, with the addresses of its callbacks.\<close>

interpretation screen_device: quiet_devices fuel
  "\<lambda>callback node s. framebuffer_initialise_node node s"
  "\<lambda>callback node buffer n s. if callback = read_callback then framebuffer_read node buffer n s else framebuffer_write node buffer n s"
  dot for fuel read_callback dot
  by unfold_locales
    (auto simp: framebuffer_initialise_node_def framebuffer_read_def framebuffer_write_def same_tasks_def Let_def split: if_splits)

subsection \<open>What a handler leaves of its caller\<close>

definition same_caller :: "u64 \<Rightarrow> 'a sched_state_scheme \<Rightarrow> 'a sched_state_scheme \<Rightarrow> bool" where
  "same_caller c s s' \<longleftrightarrow> gs_base s' = gs_base s \<and> context_word s' c = context_word s c \<and>
     userspace_stack_top (tasks s' c) = userspace_stack_top (tasks s c)"

lemma same_callerI: "same_tasks s s' \<Longrightarrow> same_caller c s s'"
  by (simp add: same_tasks_def same_caller_def context_word_def split: option.split)

lemma same_caller_refl [simp]: "same_caller c s s"
  by (simp add: same_caller_def)

lemma same_caller_trans: "same_caller c s s' \<Longrightarrow> same_caller c s' s'' \<Longrightarrow> same_caller c s s''"
  by (simp add: same_caller_def)

lemma same_caller_upd [simp]:
  fixes s s' :: "'a sched_state_scheme"
  assumes "\<And>t. task_id (f t) = task_id t" "\<And>t. userspace_stack_top (f t) = userspace_stack_top t"
  shows "same_caller c s (upd_task p f s') = same_caller c s s'" "same_caller c (upd_task p f s) s' = same_caller c s s'"
proof -
  have "context_word (upd_task p f u) c = context_word u c" "userspace_stack_top (tasks (upd_task p f u) c) = userspace_stack_top (tasks u c)"
    "gs_base (upd_task p f u) = gs_base u" for u :: "'a sched_state_scheme"
    using assms by (simp_all add: upd_task_def context_word_def split: option.split)
  then show "same_caller c s (upd_task p f s') = same_caller c s s'" "same_caller c (upd_task p f s) s' = same_caller c s s'"
    by (simp_all add: same_caller_def)
qed

lemma same_caller_running: "same_caller c s s' \<Longrightarrow> running_task c s' = running_task c s"
  by (simp add: same_caller_def running_task_def)

lemma same_caller_fields [simp]:
  "same_caller c s (s'\<lparr>memory := m\<rparr>) = same_caller c s s'" "same_caller c s (s'\<lparr>heap_bytes := b\<rparr>) = same_caller c s s'"
  "same_caller c s (s'\<lparr>last_context_lock := l\<rparr>) = same_caller c s s'"
  "same_caller c (s\<lparr>interrupts_enabled := i\<rparr>) s' = same_caller c s s'"
  "same_caller c s (s'\<lparr>preemption_requested := p\<rparr>) = same_caller c s s'"
  by (simp_all add: same_caller_def context_word_def split: option.split)

lemma page_reallocate_tasks:
  assumes "page_reallocate p m n s = Inr (q, s')"
  shows "same_tasks s s'"
proof -
  have "page_state.more s' = page_state.more s"
    using assms by (auto simp: page_reallocate_def Let_def dest!: page_allocate_more page_deallocate_more split: sum.splits)
  then show ?thesis by (cases s; cases s') (simp add: same_tasks_def)
qed

lemma place_node_caller: "place_node k c node s = Inr (fd, s') \<Longrightarrow> same_caller c' s s'"
proof (induction k arbitrary: s)
  case (Suc k)
  show ?case using Suc.prems
    by (auto simp: Let_def split: if_splits sum.splits dest!: Suc.IH page_reallocate_tasks same_callerI [of _ _ c'])
      (simp add: same_caller_def)
qed simp

lemma get_pid_caller: "task_scheduler_round_robin_get_pid pid s = Inr (t, s') \<Longrightarrow> same_caller c s s'"
  by (auto simp: task_scheduler_round_robin_get_pid_def split: if_splits sum.splits option.splits)

lemma is_descendant_caller: "is_descendant k i t s = Inr (b, s') \<Longrightarrow> same_caller c s s'"
proof (induction k arbitrary: t s)
  case (Suc k)
  show ?case using Suc.prems
    by (auto split: if_splits sum.splits dest!: Suc.IH get_pid_caller [of _ _ _ _ c]) (simp add: same_caller_def)
qed simp

lemma waitpid_caller:
  assumes "running_task c s" "sys_waitpid k pid loc s = Inr (Returned r s')"
  shows "same_caller c s s'"
proof -
  obtain t s1 where g: "task_scheduler_round_robin_get_pid pid s = Inr (t, s1)"
    using assms(2) by (auto simp: sys_waitpid_def split: sum.splits)
  have s1: "same_caller c s s1" by (rule get_pid_caller [OF g])
  then have "running_task c s1" using assms(1) same_caller_running by blast
  then have "same_caller c s1 s'"
    using assms(2) g
    by (auto simp: sys_waitpid_def waitpid_resume_def Let_def split: if_splits sum.splits dest!: is_descendant_caller [of _ _ _ _ _ _ c])
  then show ?thesis using s1 by (simp add: same_caller_def)
qed

context quiet_file_systems
begin

lemma handler_caller:
  assumes "running_task c s" "n < 9" "n \<noteq> 4" "(syscall_handlers fuel ops ! n) st s = Inr (Done r s')"
  shows "same_caller c s s'"
proof -
  note tasks = same_callerI [OF vfs_open_tasks, of _ _ _ _ _ c] same_callerI [OF vfs_read_tasks, of _ _ _ _ _ _ c]
    same_callerI [OF vfs_write_tasks, of _ _ _ _ _ _ c] same_callerI [OF vfs_close_tasks, of _ _ _ c]
    same_callerI [OF lseek_law, of _ _ _ _ _ _ _ _ c] place_node_caller [of _ _ _ _ _ _ c] waitpid_caller [OF assms(1)]
  note defs = syscall_handlers_def returning_def map_sum_eq_Inr sys_write_def sys_read_def sys_open_def sys_close_def sys_lseek_def
    sys_yield_def task_scheduler_round_robin_yield_def Let_def
  consider "n = 0" | "n = 1" | "n = 2" | "n = 3" | "n = 5" | "n = 6" | "n = 7" | "n = 8"
    using assms(2,3) by linarith
  then show ?thesis
  proof cases
    case 1
    then show ?thesis using assms(1,4) by (auto simp: defs dest!: tasks split: if_splits sum.splits)
  next
    case 2
    then show ?thesis using assms(1,4) by (auto simp: defs same_caller_def dest!: tasks split: if_splits sum.splits)
  next
    case 3
    then show ?thesis using assms(1,4) by (auto simp: defs dest!: tasks split: if_splits sum.splits)
  next
    case 4
    then show ?thesis using assms(1,4) by (auto simp: defs dest!: tasks split: if_splits sum.splits)
  next
    case 5
    then show ?thesis using assms(1,4) by (auto simp: defs)
  next
    case 6
    then obtain w where "sys_waitpid fuel (reg_rsi st) (reg_rdx st) s = Inr w"
      "Done r s' = (case w of Returned r s \<Rightarrow> Done r s | Waiting t s \<Rightarrow> Blocked t s)"
      using assms(4) by (auto simp: defs)
    then show ?thesis by (cases w) (auto dest!: tasks)
  next
    case 7
    then show ?thesis using assms(4) by (auto simp: defs)
  next
    case 8
    then show ?thesis using assms(1,4) by (auto simp: defs dest!: tasks split: if_splits sum.splits option.splits)
  qed
qed

end

subsection \<open>What a fork leaves of its caller\<close>

lemma for_range_keeps:
  assumes "for_range f is s = Inr s'" "\<And>i s s'. f i s = Inr s' \<Longrightarrow> R s s'" "\<And>s. R s s" "\<And>s s' s''. R s s' \<Longrightarrow> R s' s'' \<Longrightarrow> R s s''"
  shows "R s s'"
  using assms(1) by (induction "is" arbitrary: s) (auto split: sum.splits intro: assms)

lemma clone_page_frame: "clone_page t e va s = Inr s' \<Longrightarrow> page_frame s' = page_frame s"
  by (auto simp: clone_page_def Let_def split: sum.splits dest!: map_frame page_allocate_frame) (simp add: page_frame_def)

lemma clone_layer_frame: "clone_layer k t l n va s = Inr s' \<Longrightarrow> page_frame s' = page_frame s"
proof (induction k arbitrary: l n va s s')
  case 0
  then show ?case
    by (auto elim!: for_range_keeps [where R = "\<lambda>s s'. page_frame s' = page_frame s"] simp: Let_def clone_page_frame split: if_splits)
next
  case (Suc k)
  show ?case
    by (rule for_range_keeps [OF Suc.prems [unfolded clone_layer.simps], where R = "\<lambda>s s'. page_frame s' = page_frame s"])
      (auto simp: Let_def split: if_splits dest!: Suc.IH)
qed

lemma clone_address_space_tasks: "clone_address_space p s = Inr (t, s') \<Longrightarrow> same_tasks s s'"
proof -
  assume "clone_address_space p s = Inr (t, s')"
  then have "page_frame s' = page_frame s"
    by (auto simp: clone_address_space_def arch_table_manager_new_def Let_def split: sum.splits dest!: clone_layer_frame page_allocate_frame)
      (simp add: page_frame_def)
  then show ?thesis by (cases s; cases s') (simp add: same_tasks_def page_frame_def)
qed

lemma page_allocate_tasks: "page_allocate n s = Inr (p, s') \<Longrightarrow> same_tasks s s'"
  by (drule page_allocate_more) (cases s; cases s'; simp add: same_tasks_def)

lemma push_caller:
  assumes "task_scheduler_round_robin_push_to_queue d task s = Inr s'"
  shows "gs_base s' = gs_base s" "gs_kernel_base s' = gs_kernel_base s" "cpu_contexts s' = cpu_contexts s"
    "task_id (tasks s' t) = task_id (tasks s t)" "userspace_stack_top (tasks s' t) = userspace_stack_top (tasks s t)"
  using assms by (auto simp: task_scheduler_round_robin_push_to_queue_def Let_def set_task_next_def set_queue_def split: sum.splits if_splits)

lemma create_caller:
  assumes inv: "page_inv s" and c: "running_task c s" "unat c \<in> frames s" and run: "task_scheduler_round_robin_create name s = Inr (child, s')"
  shows "child \<noteq> c" "unat child \<notin> frames s" "gs_base s' = gs_kernel_base s" "gs_kernel_base s' = c" "cpu_contexts s' = cpu_contexts s"
    "task_id (tasks s' c) = task_id (tasks s c)" "userspace_stack_top (tasks s' c) = userspace_stack_top (tasks s c)"
proof -
  obtain s1 p s2 stack s4 lock fds s6 ctx s7 d t where a: "page_allocate 1 s = Inr (child, s1)"
    and st: "block_allocate (of_nat (length name)) s1 = Inr (p, s2)"
      "page_allocate 1 (s2\<lparr>heap_bytes := write_bytes (heap_bytes s2) p name\<rparr>) = Inr (stack, s4)"
      "page_allocate 1 (s4\<lparr>last_id := last_id s4 + 1, last_id_lock := lock\<rparr>) = Inr (fds, s6)"
      "arch_get_scheduler_context s6 = Inr (ctx, s7)" and push: "task_scheduler_round_robin_push_to_queue d child (s7\<lparr>tasks := (tasks s7)(child := t)\<rparr>) = Inr s'"
    using run by (auto simp: task_scheduler_round_robin_create_def Let_def split: sum.splits if_splits option.splits)
  have "same_tasks s s1" "same_tasks s1 s2" "same_tasks s2 s4" "same_tasks s4 s6"
    using page_allocate_tasks [OF a] block_allocate_tasks [OF st(1)] page_allocate_tasks [OF st(2)] page_allocate_tasks [OF st(3)]
    by (simp_all add: same_tasks_def)
  then have same: "same_tasks s s6" by (simp add: same_tasks_def)
  then have f6: "tasks s6 = tasks s" "gs_base s6 = c" "gs_kernel_base s6 = gs_kernel_base s" "cpu_contexts s6 = cpu_contexts s"
    using c(1) by (simp_all add: same_tasks_def running_task_def)
  have "context_word s6 = context_word s" by (simp add: fun_eq_iff context_word_def f6 split: option.split)
  then have "context_word s6 c \<noteq> CONTEXT_TYPE_CPU" "c \<noteq> 0" using c(1) by (simp_all add: running_task_def)
  then have s7: "s7 = swapgs s6" using st(4) f6(2) by (auto simp: arch_get_scheduler_context_def arch_get_cpu_context_def Let_def split: option.splits)
  show new: "unat child \<notin> frames s" using page_allocate_frames [OF inv a] by (auto simp: frame_block_def at_least_one_def)
  then show nc: "child \<noteq> c" using c(2) by auto
  note pc = push_caller [OF push, simplified]
  show "gs_base s' = gs_kernel_base s" "gs_kernel_base s' = c" "cpu_contexts s' = cpu_contexts s"
    using pc(1-3) f6 by (simp_all add: s7 swapgs_def)
  show "task_id (tasks s' c) = task_id (tasks s c)" "userspace_stack_top (tasks s' c) = userspace_stack_top (tasks s c)"
    using pc(4,5) [of c] f6 nc by (simp_all add: s7 swapgs_def)
qed

context quiet_file_systems
begin

lemma duplicate_fds_tasks: "duplicate_fds ops parent child s = Inr s' \<Longrightarrow> same_tasks s s'"
  unfolding duplicate_fds_def
  by (erule for_range_keeps) (auto simp: Let_def vfs_dup_def same_tasks_def dest!: dup_law split: if_splits sum.splits option.splits)

lemma fork_caller:
  assumes inv: "page_inv s" and c: "running_task c s" "unat c \<in> frames s" and run: "sys_fork ops st s = Inr (r, s')"
  shows "\<exists>child table. child \<noteq> c \<and> unat child \<notin> frames s \<and> task_id (tasks s' child) = r \<and> ppid (tasks s' child) = task_id (tasks s c) \<and>
      \<not> task_empty (tasks s' child) \<and>
      task_state (tasks s' child) = (fork_registers st (userspace_stack_top (tasks s c)))\<lparr>reg_cr3 := table\<rparr>"
    and "gs_base s' = gs_kernel_base s" "gs_kernel_base s' = c" "cpu_contexts s' = cpu_contexts s"
    and "userspace_stack_top (tasks s' c) = userspace_stack_top (tasks s c)"
proof -
  obtain name child s1 table s2 fds s3 s4 where
    cr: "task_scheduler_round_robin_create name s = Inr (child, s1)"
    and cl: "clone_address_space (reg_cr3 st + kernel_hhdm_offset s1) (upd_task child (\<lambda>t. t\<lparr>simd_state := simd_regs s1, ppid := task_id (tasks s1 c),
               task_state := fork_registers st (userspace_stack_top (tasks s1 c))\<rparr>) s1) = Inr (table, s2)"
    and pa: "page_allocate (fd_allocated_pages (tasks s2 c)) (upd_task child (\<lambda>t. t\<lparr>task_state := (task_state t)\<lparr>reg_cr3 := table - kernel_hhdm_offset s2\<rparr>,
               fd_count := fd_count (tasks s2 c), fd_max := fd_max (tasks s2 c), fd_allocated_pages := fd_allocated_pages (tasks s2 c)\<rparr>) s2) = Inr (fds, s3)"
    and du: "duplicate_fds ops c child (upd_task child (\<lambda>t. t\<lparr>fd_translation := fds\<rparr>) s3) = Inr s4"
    and s': "s' = upd_task child (\<lambda>t. t\<lparr>task_empty := False\<rparr>) s4" "r = task_id (tasks s' child)"
    using run c(1) by (auto simp: sys_fork_def Let_def upd_task_def split: sum.splits option.splits)
  note m = create_caller [OF inv c cr]
  note t2 = clone_address_space_tasks [OF cl] and t3 = page_allocate_tasks [OF pa] and t4 = duplicate_fds_tasks [OF du]
  have f: "child \<noteq> c \<and> unat child \<notin> frames s" using m by simp
  have tk: "tasks s4 = tasks (upd_task child (\<lambda>t. t\<lparr>fd_translation := fds\<rparr>) s3)" using t4 by (simp add: same_tasks_def)
  show "gs_base s' = gs_kernel_base s" "gs_kernel_base s' = c" "cpu_contexts s' = cpu_contexts s"
    "userspace_stack_top (tasks s' c) = userspace_stack_top (tasks s c)"
    using m t2 t3 t4 by (simp_all add: s'(1) same_tasks_def upd_task_def)
  show "\<exists>child table. child \<noteq> c \<and> unat child \<notin> frames s \<and> task_id (tasks s' child) = r \<and> ppid (tasks s' child) = task_id (tasks s c) \<and>
      \<not> task_empty (tasks s' child) \<and>
      task_state (tasks s' child) = (fork_registers st (userspace_stack_top (tasks s c)))\<lparr>reg_cr3 := table\<rparr>"
    using f m t2 t3 t4 by (intro exI [of _ child] exI [of _ "table - kernel_hhdm_offset s2"]) (simp add: s' same_tasks_def upd_task_def)
qed

end

subsection \<open>Properties\<close>

definition user_task :: "u64 \<Rightarrow> 'a sched_state_scheme \<Rightarrow> bool" where
  "user_task c s \<longleftrightarrow> gs_base s = c \<and> c \<noteq> 0 \<and> ucast (context_word s c) \<noteq> (0x55555555 :: u32)"

lemma user_task_running: "user_task c s \<Longrightarrow> running_task c s"
  by (auto simp: user_task_def running_task_def)

lemma user_task_gs: "user_task c s \<Longrightarrow> task_gs s = s"
  by (simp add: user_task_def task_gs_def)

lemma same_caller_user: "same_caller c s s' \<Longrightarrow> user_task c s' = user_task c s"
  by (simp add: same_caller_def user_task_def)

lemma user_task_fields [simp]:
  "user_task c (s\<lparr>interrupts_enabled := i\<rparr>) = user_task c s"
  "user_task c (upd_task p (\<lambda>t. t\<lparr>userspace_stack_top := v\<rparr>) s) = user_task c s"
  by (simp_all add: user_task_def context_word_def upd_task_def split: option.split)

text \<open>The state in which the handler of a call runs, and the way back to user space.\<close>

definition entered :: "u64 \<Rightarrow> arch_cpu_state \<Rightarrow> 'a sched_state_scheme \<Rightarrow> 'a sched_state_scheme" where
  "entered c st s = (upd_task c (\<lambda>t. t\<lparr>userspace_stack_top := reg_rsp st\<rparr>) s)\<lparr>interrupts_enabled := True\<rparr>"

definition back_to_user :: "arch_cpu_state \<Rightarrow> u64 \<Rightarrow> 'a sched_state_scheme \<Rightarrow> 'a sched_state_scheme kernel_exit" where
  "back_to_user st r s = Sysret \<lparr>ret_rip = reg_rcx st, ret_rflags = reg_r11 st, ret_rsp = reg_rsp st, ret_rax = r\<rparr>
     (s\<lparr>interrupts_enabled := bit (reg_r11 st) 9\<rparr>)"

lemma entry_runs_handler:
  assumes "user_task c s" "quiet_file_systems ops" "reg_rdi st \<noteq> 4"
  shows "arch_syscall_entry fuel ops st s =
    (if unat (reg_rdi st) < 9
     then (case (syscall_handlers fuel ops ! unat (reg_rdi st)) st (entered c st s) of
             Inl e \<Rightarrow> Inl e
           | Inr (Done r s') \<Rightarrow> Inr (back_to_user st r s')
           | Inr (Blocked t s') \<Rightarrow> Inr (Task_Blocked t s')
           | Inr (Exited s') \<Rightarrow> Inr (Task_Exited s'))
     else Inr (back_to_user st (reg_rax st) s))"
proof (cases "unat (reg_rdi st) < 9")
  case True
  let ?h = "syscall_handlers fuel ops ! unat (reg_rdi st)" and ?s = "entered c st s"
  have lt: "\<not> reg_rdi st \<ge> 9" using True by (simp add: word_le_nat_alt)
  have n4: "unat (reg_rdi st) \<noteq> 4" using assms(3) by (metis of_nat_numeral of_nat_unat ucast_id)
  have u: "user_task c ?s" using assms(1) by (simp add: entered_def)
  have gs: "gs_base s = c" "c \<noteq> 0" using assms(1) by (simp_all add: user_task_def)
  have entry: "arch_syscall_entry fuel ops st s =
      (case ?h st ?s of
         Inl e \<Rightarrow> Inl e
       | Inr (Blocked t s) \<Rightarrow> Inr (Task_Blocked t s)
       | Inr (Exited s) \<Rightarrow> Inr (Task_Exited s)
       | Inr (Done r s) \<Rightarrow>
           let s = task_gs (s\<lparr>interrupts_enabled := False\<rparr>)
           in Inr (case sysret st (userspace_stack_top (tasks s (gs_base s))) r s of (f, s) \<Rightarrow> Sysret f s))"
    using lt assms(3) gs user_task_gs [of c "s\<lparr>interrupts_enabled := False\<rparr>"] assms(1)
    by (simp add: arch_syscall_entry_def Let_def entered_def upd_task_def)
  show ?thesis
  proof (cases "?h st ?s")
    case (Inl e)
    then show ?thesis unfolding entry using True by simp
  next
    case (Inr x)
    show ?thesis
    proof (cases x)
      case (Done r s')
      have sc: "same_caller c ?s s'"
        using quiet_file_systems.handler_caller [OF assms(2) user_task_running [OF u] True n4] Inr Done by blast
      have "user_task c (s'\<lparr>interrupts_enabled := False\<rparr>)" using same_caller_user [OF sc] u by simp
      moreover have "userspace_stack_top (tasks s' c) = reg_rsp st" using sc by (simp add: same_caller_def entered_def upd_task_def)
      moreover have "gs_base s' = c" using sc gs by (simp add: same_caller_def entered_def upd_task_def)
      ultimately show ?thesis unfolding entry using Inr Done True
        by (simp add: user_task_gs Let_def sysret_def back_to_user_def)
    qed (unfold entry, use Inr True in simp_all)
  qed
next
  case False
  then show ?thesis by (simp add: arch_syscall_entry_def word_le_nat_alt sysret_def back_to_user_def)
qed

text \<open>
  The way through \<open>arch_sys_fork_entry\<close>. Creating the child turns the GS base to the processor's context, and the exit turns
  it back, so the parent continues on its own stack.
\<close>

lemma fork_child_registers:
  "(fork_registers (arch_sys_fork_entry st) (reg_rsp st))\<lparr>reg_cr3 := table\<rparr> =
   st\<lparr>reg_cr3 := table, reg_rax := 0, reg_rcx := 0, reg_r11 := 0, reg_error := 0, reg_rip := reg_rcx st,
     reg_cs := 0x23, reg_rflags := reg_r11 st OR 0x200, reg_rsp := reg_rsp st, reg_ss := 0x1B\<rparr>"
  by (cases st) (simp add: fork_registers_def arch_sys_fork_entry_def)

lemma entry_forks:
  assumes c: "user_task c s" and q: "quiet_file_systems ops" and n: "reg_rdi st = 4"
    and k: "page_inv s" "unat c \<in> frames s" "context_word s (gs_kernel_base s) = CONTEXT_TYPE_CPU" "cpu_contexts s (gs_kernel_base s) \<noteq> None"
  defines "sf \<equiv> (entered c st s)\<lparr>interrupts_enabled := False\<rparr>"
  shows "arch_syscall_entry fuel ops st s =
      (case sys_fork ops (arch_sys_fork_entry st) sf of Inl e \<Rightarrow> Inl e | Inr (r, s') \<Rightarrow> Inr (back_to_user st r (swapgs s')))"
    and "sys_fork ops (arch_sys_fork_entry st) sf = Inr (r, s') \<Longrightarrow> gs_base (swapgs s') = c \<and>
      (\<exists>child table. child \<noteq> c \<and> unat child \<notin> frames s \<and> task_id (tasks s' child) = r \<and> ppid (tasks s' child) = task_id (tasks s c) \<and>
        \<not> task_empty (tasks s' child) \<and>
        task_state (tasks s' child) = st\<lparr>reg_cr3 := table, reg_rax := 0, reg_rcx := 0, reg_r11 := 0, reg_error := 0, reg_rip := reg_rcx st,
          reg_cs := 0x23, reg_rflags := reg_r11 st OR 0x200, reg_rsp := reg_rsp st, reg_ss := 0x1B\<rparr>)"
proof -
  have gs: "gs_base s = c" "c \<noteq> 0" using c by (simp_all add: user_task_def)
  have "user_task c sf" using c by (simp add: sf_def entered_def)
  note run = user_task_running [OF this]
  have f: "page_inv sf" "frames sf = frames s" "running_task c sf" "gs_kernel_base sf = gs_kernel_base s" "cpu_contexts sf = cpu_contexts s"
    "task_id (tasks sf c) = task_id (tasks s c)" "userspace_stack_top (tasks sf c) = reg_rsp st"
    using k(1) run by (simp_all add: sf_def entered_def upd_task_def page_inv_def frames_def marked_def pool_counts_def)
  have off: "s\<lparr>interrupts_enabled := False, tasks := (tasks s)(c := (tasks s c)\<lparr>userspace_stack_top := reg_rsp st\<rparr>)\<rparr> = sf"
    by (cases s) (simp add: sf_def entered_def upd_task_def)
  note fc = quiet_file_systems.fork_caller [OF q f(1,3) k(2) [folded f(2)]]
  have entry: "arch_syscall_entry fuel ops st s =
      (case sys_fork ops (arch_sys_fork_entry st) sf of
         Inl e \<Rightarrow> Inl e
       | Inr (r, s) \<Rightarrow>
           let s = task_gs (s\<lparr>interrupts_enabled := False\<rparr>)
           in Inr (case sysret st (userspace_stack_top (tasks s (gs_base s))) r s of (f, s) \<Rightarrow> Sysret f s))"
    using n gs user_task_gs [of c "s\<lparr>interrupts_enabled := False\<rparr>"] c
    by (cases "sys_fork ops (arch_sys_fork_entry st) sf")
      (auto simp: arch_syscall_entry_def Let_def syscall_handlers_def returning_def off upd_task_def)
  show "arch_syscall_entry fuel ops st s =
      (case sys_fork ops (arch_sys_fork_entry st) sf of Inl e \<Rightarrow> Inl e | Inr (r, s') \<Rightarrow> Inr (back_to_user st r (swapgs s')))"
  proof (cases "sys_fork ops (arch_sys_fork_entry st) sf")
    case (Inr x)
    obtain r s' where x: "x = (r, s')" by (cases x)
    note u = fc(2-5) [OF Inr [unfolded x]]
    have "ucast (context_word s' (gs_base s')) = (0x55555555 :: u32)"
      using k(3,4) u by (auto simp: context_word_def f split: option.splits)
    then have "task_gs (s'\<lparr>interrupts_enabled := False\<rparr>) = swapgs (s'\<lparr>interrupts_enabled := False\<rparr>)"
      by (simp add: task_gs_def context_word_def cong: option.case_cong)
    then show ?thesis unfolding entry Inr x using u f(7)
      by (simp add: Let_def sysret_def back_to_user_def swapgs_def)
  qed (simp add: entry)
  show "gs_base (swapgs s') = c \<and>
      (\<exists>child table. child \<noteq> c \<and> unat child \<notin> frames s \<and> task_id (tasks s' child) = r \<and> ppid (tasks s' child) = task_id (tasks s c) \<and>
        \<not> task_empty (tasks s' child) \<and>
        task_state (tasks s' child) = st\<lparr>reg_cr3 := table, reg_rax := 0, reg_rcx := 0, reg_r11 := 0, reg_error := 0, reg_rip := reg_rcx st,
          reg_cs := 0x23, reg_rflags := reg_r11 st OR 0x200, reg_rsp := reg_rsp st, reg_ss := 0x1B\<rparr>)"
    if "sys_fork ops (arch_sys_fork_entry st) sf = Inr (r, s')"
    using fc(1,3) [OF that] unfolding f(2,6,7) fork_child_registers by (simp add: swapgs_def)
qed

text \<open>
  (C9) A system call of a user task. An unknown number changes nothing, and its result is whatever was in \<open>rax\<close>. Any other call than
  fork runs its handler on the parameters with the user stack recorded and interrupts on, and when the handler returns, the task
  continues behind the call with its own stack and flags and the result of the handler. A fork, of a task that lives in a page in use on
  a processor whose other GS base is its context, runs with interrupts off on the registers of the caller. When it returns, the parent
  continues in the same way with the id of the child, again with its own GS base; the child is another task, in a page that was free, the
  caller is its parent, and its saved registers are those of the caller, with a page table of its own, zero in \<open>rax\<close> and in the two
  registers the instruction overwrites, behind the call, on the user stack, in user segments and with interrupts on.
\<close>

theorem syscall_entry_correct:
  assumes "user_task c s" "quiet_file_systems ops"
    and "reg_rdi st = 4 \<longrightarrow> page_inv s \<and> unat c \<in> frames s \<and> context_word s (gs_kernel_base s) = CONTEXT_TYPE_CPU \<and>
      cpu_contexts s (gs_kernel_base s) \<noteq> None"
  shows "arch_syscall_entry fuel ops st s =
    (if \<not> unat (reg_rdi st) < 9 then Inr (back_to_user st (reg_rax st) s)
     else if reg_rdi st = 4
     then (case sys_fork ops (arch_sys_fork_entry st) ((entered c st s)\<lparr>interrupts_enabled := False\<rparr>) of
             Inl e \<Rightarrow> Inl e
           | Inr (r, s') \<Rightarrow> Inr (back_to_user st r (swapgs s')))
     else (case (syscall_handlers fuel ops ! unat (reg_rdi st)) st (entered c st s) of
             Inl e \<Rightarrow> Inl e
           | Inr (Done r s') \<Rightarrow> Inr (back_to_user st r s')
           | Inr (Blocked t s') \<Rightarrow> Inr (Task_Blocked t s')
           | Inr (Exited s') \<Rightarrow> Inr (Task_Exited s'))) \<and>
    (\<forall>r s'. reg_rdi st = 4 \<longrightarrow> sys_fork ops (arch_sys_fork_entry st) ((entered c st s)\<lparr>interrupts_enabled := False\<rparr>) = Inr (r, s') \<longrightarrow>
       gs_base (swapgs s') = c \<and>
       (\<exists>child table. child \<noteq> c \<and> unat child \<notin> frames s \<and> task_id (tasks s' child) = r \<and> ppid (tasks s' child) = task_id (tasks s c) \<and>
         \<not> task_empty (tasks s' child) \<and>
         task_state (tasks s' child) = st\<lparr>reg_cr3 := table, reg_rax := 0, reg_rcx := 0, reg_r11 := 0, reg_error := 0, reg_rip := reg_rcx st,
           reg_cs := 0x23, reg_rflags := reg_r11 st OR 0x200, reg_rsp := reg_rsp st, reg_ss := 0x1B\<rparr>))"
proof (cases "reg_rdi st = 4")
  case True
  note k = assms(3) [rule_format, OF True]
  note e = entry_forks [OF assms(1,2) True k [THEN conjunct1] k [THEN conjunct2, THEN conjunct1] k [THEN conjunct2, THEN conjunct2, THEN conjunct1]
      k [THEN conjunct2, THEN conjunct2, THEN conjunct2]]
  have "unat (reg_rdi st) < 9" unfolding True by simp
  then show ?thesis using e(1) [of fuel] e(2) True by (intro conjI allI impI) simp_all
next
  case False
  then show ?thesis using entry_runs_handler [OF assms(1,2) False, of fuel] by simp
qed

text \<open>A task seeks on a descriptor it does not have.\<close>

definition seek_registers :: arch_cpu_state where
  "seek_registers = zero_cpu_state\<lparr>reg_rdi := 8, reg_rsi := 7, reg_rcx := 0x401000, reg_r11 := 0x202, reg_rsp := 0x7000\<rparr>"

lemma call_machine_user_task: "user_task 0x2000 (call_machine m n)"
  by (simp add: call_machine_def sched_state.defs vfs_state.defs small_machine_def user_task_def context_word_def caller_task_def)

lemma call_ops_quiet: "quiet_file_systems call_ops"
  by unfold_locales (auto simp: call_ops_def)

text \<open>
  A task forks on a given memory: its own structure is in the page \<open>r\<close>, the context of the processor behind it, in the kernel's GS
  base.
\<close>

definition fork_call :: arch_cpu_state where
  "fork_call = zero_cpu_state\<lparr>reg_rdi := 4, reg_rcx := 0x401000, reg_r11 := 0x202, reg_rsp := 0x7000\<rparr>"

definition fork_machine :: "'b page_state_scheme \<Rightarrow> u64 \<Rightarrow> vfs_state" where
  "fork_machine s r = (call_machine (memory s) 0)\<lparr>allocator_pools := allocator_pools s, page_allocator_lock := page_allocator_lock s,
     kernel_hhdm_offset := kernel_hhdm_offset s, tasks := (\<lambda>_. caller_task),
     cpu_contexts := [r + 0x1000 \<mapsto> \<lparr>context_type = CONTEXT_TYPE_CPU, cpu_id = 0, is_bsp = True, cpu_gdt = 0, scheduler_context_ptr = 0x1000\<rparr>],
     gs_base := r, gs_kernel_base := r + 0x1000\<rparr>"

lemma frames_positive: "page_inv s \<Longrightarrow> n \<in> frames s \<Longrightarrow> 0 < n"
  by (auto simp: page_inv_def frames_def marked_def page_address_def pool_static_def dest!: bspec [OF _ nth_mem])

lemma fork_machine_ok:
  assumes inv: "pt_inv {r} s"
  shows "page_inv (fork_machine s r)" "unat r \<in> frames (fork_machine s r)" "user_task r (fork_machine s r)"
    "context_word (fork_machine s r) (gs_kernel_base (fork_machine s r)) = CONTEXT_TYPE_CPU"
    "cpu_contexts (fork_machine s r) (gs_kernel_base (fork_machine s r)) \<noteq> None"
proof -
  have p: "pt_inv {r} (fork_machine s r)"
    using inv by (subst pt_inv_same [of _ s]) (simp_all add: fork_machine_def call_machine_def sched_state.defs)
  then show i: "page_inv (fork_machine s r)" by (rule pt_inv_page)
  show f: "unat r \<in> frames (fork_machine s r)" using pt_inv_frame [OF p, of r "[]"] by simp
  have "r \<noteq> 0" using frames_positive [OF i f] by auto
  then show "user_task r (fork_machine s r)"
    by (simp add: user_task_def context_word_def fork_machine_def caller_task_def)
qed (simp_all add: context_word_def fork_machine_def)

theorem syscall_entry_correct_witness:
  "(\<exists>s'. arch_syscall_entry 1 call_ops seek_registers (call_machine call_memory 0) =
     Inr (Sysret \<lparr>ret_rip = 0x401000, ret_rflags = 0x202, ret_rsp = 0x7000, ret_rax = - EBADF\<rparr> s')) \<and>
   (\<exists>(s :: page_state) r. pt_inv {r} s \<and> arch_syscall_entry 1 call_ops fork_call (fork_machine s r) =
     (case sys_fork call_ops (arch_sys_fork_entry fork_call) ((entered r fork_call (fork_machine s r))\<lparr>interrupts_enabled := False\<rparr>) of
        Inl e \<Rightarrow> Inl e
      | Inr (child, s') \<Rightarrow>
          Inr (Sysret \<lparr>ret_rip = 0x401000, ret_rflags = 0x202, ret_rsp = 0x7000, ret_rax = child\<rparr> ((swapgs s')\<lparr>interrupts_enabled := True\<rparr>))))"
proof (rule conjI)
  let ?s = "call_machine call_memory 0"
  note u = call_machine_user_task [of call_memory 0]
  have r: "running_task 0x2000 (entered 0x2000 seek_registers ?s)" using u by (simp add: user_task_running entered_def)
  have "(syscall_handlers 1 call_ops ! 8) seek_registers (entered 0x2000 seek_registers ?s) =
      Inr (Done (- EBADF) (entered 0x2000 seek_registers ?s))"
    using r by (simp add: syscall_handlers_def returning_def sys_lseek_def seek_registers_def fd_node_def entered_def upd_task_def
        caller_task_def zero_task_def)
  moreover have "reg_rdi seek_registers = 8" by (simp add: seek_registers_def)
  ultimately show "\<exists>s'. arch_syscall_entry 1 call_ops seek_registers ?s =
     Inr (Sysret \<lparr>ret_rip = 0x401000, ret_rflags = 0x202, ret_rsp = 0x7000, ret_rax = - EBADF\<rparr> s')"
    using syscall_entry_correct [OF u call_ops_quiet, of seek_registers 1, THEN conjunct1]
    by (simp add: back_to_user_def seek_registers_def)
next
  obtain r s where inv: "pt_inv {r} (s :: page_state)" using table_state_new by metis
  note ok = fork_machine_ok [OF inv]
  have f: "reg_rdi fork_call = 4" "reg_rcx fork_call = 0x401000" "reg_r11 fork_call = 0x202" "reg_rsp fork_call = 0x7000"
    by (simp_all add: fork_call_def)
  have "bit (0x202 :: u64) 9" by (simp add: bit_iff_odd)
  then show "\<exists>(s :: page_state) r. pt_inv {r} s \<and> arch_syscall_entry 1 call_ops fork_call (fork_machine s r) =
     (case sys_fork call_ops (arch_sys_fork_entry fork_call) ((entered r fork_call (fork_machine s r))\<lparr>interrupts_enabled := False\<rparr>) of
        Inl e \<Rightarrow> Inl e
      | Inr (child, s') \<Rightarrow>
          Inr (Sysret \<lparr>ret_rip = 0x401000, ret_rflags = 0x202, ret_rsp = 0x7000, ret_rax = child\<rparr> ((swapgs s')\<lparr>interrupts_enabled := True\<rparr>)))"
    using syscall_entry_correct [OF ok(3) call_ops_quiet, of fork_call 1, THEN conjunct1] ok inv
    by (intro exI [of _ s] exI [of _ r]) (simp add: back_to_user_def f split: sum.split)
qed

end
