(* ===== verification/Console.thy ===== *)
theory Console
  imports Framebuffer_Correct Uart Clock Syscall_Entry
begin

text \<open>
  The console device, \<open>kernel/src/devices/console.c\<close>, and the kernel's log, \<open>kernel/src/misc/logger.c\<close>:
  formatted output on the framebuffer and on the serial port under their locks.

  String constants are arguments: the addresses of their bytes. The format is read from memory as it is when the
  call starts; the conversion buffer is a local array, whose bytes are dead when the call returns.
\<close>

record con_state = fb_state +
  printk_lock :: u64
  logger_spinlock :: u64

subsection \<open>Formatted output on the framebuffer\<close>

definition screen_vprintk ::
  "psf_font \<Rightarrow> u64 \<Rightarrow> u64 \<Rightarrow> u64 list \<Rightarrow> 'a con_state_scheme \<Rightarrow> 'a con_state_scheme res" where
  "screen_vprintk kfont stack fmt args s =
     (case vprintk (framebuffer_write_character kfont) (heap_bytes s) stack fmt args (printk_lock s) s of
        None \<Rightarrow> Inl Diverges
      | Some (Inl e) \<Rightarrow> Inl e
      | Some (Inr (lock, _, s)) \<Rightarrow> Inr (s\<lparr>printk_lock := lock\<rparr>))"

definition screen_printk ::
  "psf_font \<Rightarrow> u64 \<Rightarrow> u64 \<Rightarrow> u64 list \<Rightarrow> 'a con_state_scheme \<Rightarrow> 'a con_state_scheme res" where
  "screen_printk kfont stack fmt args s =
     (if \<not> framebuffer_available s then Inr s else screen_vprintk kfont stack fmt args s)"

subsection \<open>The device\<close>

text \<open>The loop of \<open>console_write\<close>; \<open>fmt\<close> is the string \<open>"%c"\<close>, its argument a character promoted to an integer.\<close>

fun write_characters ::
  "psf_font \<Rightarrow> u64 \<Rightarrow> u64 \<Rightarrow> u64 \<Rightarrow> nat list \<Rightarrow> 'a con_state_scheme \<Rightarrow> 'a con_state_scheme res" where
  "write_characters kfont stack fmt buffer [] s = Inr s"
| "write_characters kfont stack fmt buffer (i # is) s =
     (case screen_printk kfont stack fmt [scast (heap_bytes s (buffer + of_nat i))] s of
        Inl e \<Rightarrow> Inl e
      | Inr s \<Rightarrow> write_characters kfont stack fmt buffer is s)"

definition console_write ::
  "psf_font \<Rightarrow> u64 \<Rightarrow> u64 \<Rightarrow> u64 \<Rightarrow> u64 \<Rightarrow> u64 \<Rightarrow> 'a con_state_scheme \<Rightarrow> (u64 \<times> 'a con_state_scheme) res" where
  "console_write kfont stack fmt node buffer n s =
     map_sum id (Pair n) (write_characters kfont stack fmt buffer [0..<unat n] s)"

definition console_read :: "u64 \<Rightarrow> u64 \<Rightarrow> u64 \<Rightarrow> 'a con_state_scheme \<Rightarrow> (u64 \<times> 'a con_state_scheme) res" where
  "console_read node buffer n s = Inr (0, s)"

text \<open>\<open>path\<close> is the string \<open>"/console"\<close>; the callbacks are the addresses of the two functions.\<close>

definition console_create_device ::
  "nat \<Rightarrow> u64 \<Rightarrow> u64 \<Rightarrow> u64 \<Rightarrow> u64 \<Rightarrow> 'a con_state_scheme \<Rightarrow> 'a con_state_scheme res" where
  "console_create_device fuel dot path read write s =
     map_sum id snd (device_create_at fuel dot path reserved 0 read write s)"

subsection \<open>The log\<close>

text \<open>
  Seconds and the three digits of the milliseconds, and the name of the module: the arguments of the
  prefix \<open>"[%d.%d%d%d] %s: "\<close>.
\<close>

definition log_prefix_args :: "u64 \<Rightarrow> u64 \<Rightarrow> u64 list" where
  "log_prefix_args miliseconds module_name =
     [miliseconds div 1000, miliseconds mod 1000 div 100, miliseconds mod 100 div 10, miliseconds mod 10, module_name]"

abbreviation (input) PREFIX_COLOUR :: u32 where "PREFIX_COLOUR \<equiv> 0xD0D0D0"

definition set_colour :: "u32 \<Rightarrow> 'a fb_state_scheme \<Rightarrow> 'a fb_state_scheme" where
  "set_colour colour s = s\<lparr>main_cursor := (main_cursor s)\<lparr>cursor_colour := colour\<rparr>\<rparr>"

definition log_screen ::
  "psf_font \<Rightarrow> u64 \<Rightarrow> u64 \<Rightarrow> u64 \<Rightarrow> u32 \<Rightarrow> u64 list \<Rightarrow> u64 \<Rightarrow> u64 list \<Rightarrow> 'a con_state_scheme \<Rightarrow> 'a con_state_scheme res" where
  "log_screen kfont stack prefix_fmt newline colour prefix_args fmt args s =
     (case screen_printk kfont stack prefix_fmt prefix_args (set_colour PREFIX_COLOUR s) of
        Inl e \<Rightarrow> Inl e
      | Inr s \<Rightarrow>
     case screen_vprintk kfont stack fmt args (set_colour colour s) of
        Inl e \<Rightarrow> Inl e
      | Inr s \<Rightarrow> screen_printk kfont stack newline [] s)"

text \<open>The lines of the log on the serial port, with \<open>printk_lock\<close> and the hardware passed along.\<close>

definition serial_vprintk ::
  "'h pio \<Rightarrow> bool \<Rightarrow> u64 \<Rightarrow> u64 \<Rightarrow> u64 list \<Rightarrow> 'a con_state_scheme \<Rightarrow> 'h \<Rightarrow> ('a con_state_scheme \<times> 'h) res" where
  "serial_vprintk pio uart16650_present stack fmt args s h =
     (case vprintk_serial pio uart16650_present (heap_bytes s) stack fmt args (printk_lock s) h of
        None \<Rightarrow> Inl Diverges
      | Some (Inl e) \<Rightarrow> Inl e
      | Some (Inr (lock, _, h)) \<Rightarrow> Inr (s\<lparr>printk_lock := lock\<rparr>, h))"

definition log_serial ::
  "'h pio \<Rightarrow> bool \<Rightarrow> u64 \<Rightarrow> u64 \<Rightarrow> u64 \<Rightarrow> u64 list \<Rightarrow> u64 \<Rightarrow> u64 list \<Rightarrow> 'a con_state_scheme \<Rightarrow> 'h \<Rightarrow>
     ('a con_state_scheme \<times> 'h) res" where
  "log_serial pio uart16650_present stack prefix_fmt newline prefix_args fmt args s h =
     (case serial_vprintk pio uart16650_present stack prefix_fmt prefix_args s h of
        Inl e \<Rightarrow> Inl e
      | Inr (s, h) \<Rightarrow>
     case serial_vprintk pio uart16650_present stack fmt args s h of
        Inl e \<Rightarrow> Inl e
      | Inr (s, h) \<Rightarrow> serial_vprintk pio uart16650_present stack newline [] s h)"

text \<open>\<open>read_time\<close> is the callback of the system timer.\<close>

definition log_message ::
  "psf_font \<Rightarrow> 'h pio \<Rightarrow> bool \<Rightarrow> ('h \<Rightarrow> u64 \<times> 'h) \<Rightarrow> clock_state \<Rightarrow> u64 \<Rightarrow> u64 \<Rightarrow> u64 \<Rightarrow> u32 \<Rightarrow> u64 \<Rightarrow> u64 \<Rightarrow> u64 list \<Rightarrow>
     'a con_state_scheme \<Rightarrow> 'h \<Rightarrow> ('a con_state_scheme \<times> 'h) res" where
  "log_message kfont pio uart16650_present read_time clock stack prefix_fmt newline colour module_name fmt args s h =
     (case spinlock_acquire (logger_spinlock s) of
        Inl e \<Rightarrow> Inl e
      | Inr lock \<Rightarrow>
     case (if time_keeping_capable (clock_system_timer clock) then read_time h else (0, h)) of
        (nanoseconds, h) \<Rightarrow>
     let prefix_args = log_prefix_args (nanoseconds div 1000000) module_name
     in case (if framebuffer_available s then log_screen kfont stack prefix_fmt newline colour prefix_args fmt args s else Inr s) of
        Inl e \<Rightarrow> Inl e
      | Inr s \<Rightarrow>
     case log_serial pio uart16650_present stack prefix_fmt newline prefix_args fmt args s h of
        Inl e \<Rightarrow> Inl e
      | Inr (s, h) \<Rightarrow> Inr (s\<lparr>logger_spinlock := spinlock_release lock\<rparr>, h))"

subsection \<open>Writing to the console\<close>

lemma same_console_more:
  assumes "same_console s s'"
  shows "printk_lock s' = printk_lock s" "framebuffer_available s' = framebuffer_available s"
  using assms by (auto simp: same_console_def)

lemma scast_ucast_u8: "ucast (scast (c :: u8) :: u64) = c"
  by (rule bit_word_eqI) (simp add: bit_simps)

lemma printk_character:
  assumes ok: "console_ok kfont s" and lock: "printk_lock s = 0" and fmt: "cstr (heap_bytes s) fmt [0x25, 0x63]"
    and c: "c < 0x80" and y: "unat (cursor_y (main_cursor s)) + 2 * unat (font_height kfont) < 2 ^ 64"
  shows "\<exists>s'. screen_printk kfont stack fmt [scast c] s = Inr s' \<and> console_ok kfont s' \<and> same_console s s' \<and>
    terminal_of s' = term_put kfont (main_framebuffer s) (cursor_colour (main_cursor s)) c (terminal_of s)"
proof -
  obtain s' where s': "framebuffer_write_character kfont c s = Inr s'" "console_ok kfont s'" "same_console s s'"
    "terminal_of s' = term_put kfont (main_framebuffer s) (cursor_colour (main_cursor s)) c (terminal_of s)"
    using write_character_ok [OF ok c y] by blast
  have "vprintk_unsafe put m stack (fmt + 2) args u = Some (Inr (m, u))" if "m = heap_bytes s"
    for put :: "u8 \<Rightarrow> 'a con_state_scheme \<Rightarrow> 'a con_state_scheme res" and m args u
    using fmt that by (subst vprintk_unsafe.simps) (simp add: add.assoc)
  then have "vprintk_unsafe (framebuffer_write_character kfont) (heap_bytes s) stack fmt [scast c] s = Some (Inr (heap_bytes s, s'))"
    using fmt s'(1) by (subst vprintk_unsafe.simps) (simp add: put_conversion_def scast_ucast_u8)
  moreover have "s'\<lparr>printk_lock := 0\<rparr> = s'" using same_console_more(1) [OF s'(3)] lock by simp
  ultimately show ?thesis using s' ok lock by (simp add: screen_printk_def screen_vprintk_def vprintk_def console_ok_def)
qed

text \<open>The bytes of a buffer outside the screen appear on it as on the abstract terminal.\<close>

lemma write_characters_ok:
  assumes "console_ok kfont s" "printk_lock s = 0" "cstr (heap_bytes s) fmt [0x25, 0x63]"
    and "\<And>i. i \<le> 2 \<Longrightarrow> off_screen (main_framebuffer s) (fmt + of_nat i)"
    and "\<And>i. i \<in> set is \<Longrightarrow> off_screen (main_framebuffer s) (buffer + of_nat i)"
    and "unat (cursor_y (main_cursor s)) + (length is + 1) * unat (font_height kfont) < 2 ^ 64"
    and "\<And>i. i \<in> set is \<Longrightarrow> heap_bytes s (buffer + of_nat i) < 0x80"
  shows "\<exists>s'. write_characters kfont stack fmt buffer is s = Inr s' \<and> console_ok kfont s' \<and> same_console s s' \<and>
    terminal_of s' = fold (term_put kfont (main_framebuffer s) (cursor_colour (main_cursor s)))
      (map (\<lambda>i. heap_bytes s (buffer + of_nat i)) is) (terminal_of s)"
  using assms
proof (induction "is" arbitrary: s)
  case Nil
  then show ?case by (simp add: same_console_refl)
next
  case (Cons i "is")
  let ?c = "heap_bytes s (buffer + of_nat i)"
  let ?put = "term_put kfont (main_framebuffer s) (cursor_colour (main_cursor s))"
  obtain s1 where s1: "screen_printk kfont stack fmt [scast ?c] s = Inr s1" "console_ok kfont s1" "same_console s s1"
    "terminal_of s1 = ?put ?c (terminal_of s)"
    using printk_character [OF Cons.prems(1,2,3), of ?c stack] Cons.prems(6,7) by auto
  note f = same_console_fields [OF s1(3)] same_console_more [OF s1(3)]
  have fmt: "heap_bytes s1 (fmt + of_nat j) = heap_bytes s (fmt + of_nat j)" if "j \<le> 2" for j using f(4) Cons.prems(4) that by blast
  have buf: "heap_bytes s1 (buffer + of_nat j) = heap_bytes s (buffer + of_nat j)" if "j \<in> set is" for j
    using f(4) Cons.prems(5) that by simp
  have "cstr (heap_bytes s1) fmt [0x25, 0x63]" using Cons.prems(3) fmt [of 0] fmt [of 1] fmt [of 2] by (simp add: add.assoc)
  moreover have "unat (cursor_y (main_cursor s1)) + (length is + 1) * unat (font_height kfont) < 2 ^ 64"
    using Cons.prems(6) term_put_y [of kfont "main_framebuffer s" "cursor_colour (main_cursor s)" ?c "terminal_of s"]
    by (simp add: s1(4) [symmetric] term_of_simps)
  ultimately obtain s' where s': "write_characters kfont stack fmt buffer is s1 = Inr s'" "console_ok kfont s'" "same_console s1 s'"
    "terminal_of s' = fold ?put (map (\<lambda>i. heap_bytes s1 (buffer + of_nat i)) is) (terminal_of s1)"
    using Cons.IH [OF s1(2)] Cons.prems(2,4,5,7) buf f by auto
  have "map (\<lambda>i. heap_bytes s1 (buffer + of_nat i)) is = map (\<lambda>i. heap_bytes s (buffer + of_nat i)) is" using buf by simp
  note t = s'(4) [unfolded this]
  show ?case using s'(1,2) t s1(1,4) same_console_trans [OF s1(3) s'(3)] by simp
qed

subsection \<open>Output leaves the tasks alone\<close>

text \<open>A relation that every character keeps is kept by a whole call.\<close>

definition sink_keeps :: "('s \<Rightarrow> 's \<Rightarrow> bool) \<Rightarrow> (u8 \<Rightarrow> 's \<Rightarrow> 's res) \<Rightarrow> bool" where
  "sink_keeps R put \<longleftrightarrow> reflp R \<and> transp R \<and> (\<forall>c s s'. put c s = Inr s' \<longrightarrow> R s s')"

lemma sink_keepsD:
  assumes "sink_keeps R put"
  shows "R s s" "R s s' \<Longrightarrow> R s' s'' \<Longrightarrow> R s s''" "put c s = Inr s' \<Longrightarrow> R s s'"
  using assms by (auto simp: sink_keeps_def reflpD dest: transpD)

lemma put_string_keeps:
  fixes s s' :: 's
  assumes "put_string put m str s = Some (Inr s')" "sink_keeps R put"
  shows "R s s'"
proof -
  let ?P = "\<lambda>put (m :: mem8) (str :: u64) s (y :: 's res). sink_keeps R put \<longrightarrow> (\<forall>s'. y = Inr s' \<longrightarrow> R s s')"
  have "?P put m str s (Inr s')"
  proof (rule put_string.raw_induct [where P = ?P, OF _ assms(1)], intro impI allI)
    fix f put m str s y s'
    assume IH: "\<And>put m str s y. f put m str s = Some y \<Longrightarrow> ?P put m str s y" and keeps: "sink_keeps R put" and y: "y = Inr s'"
      and body: "(if m str = 0 then Some (Inr s)
        else case put (m str) s of Inl e \<Rightarrow> Some (Inl e) | Inr s \<Rightarrow> f put m (str + 1) s) = Some y"
    note k = sink_keepsD [OF keeps] and IH = IH [rule_format, OF _ keeps]
    from body y show "R s s'" by (auto split: if_splits sum.splits dest!: IH k(3) intro: k(1) elim: k(2))
  qed
  then show ?thesis using assms(2) by blast
qed

lemma put_conversion_keeps:
  assumes "put_conversion put m buffer k arg s = Some (Inr (m', s'))" "sink_keeps R put"
  shows "R s s'"
proof -
  note k = sink_keepsD [OF assms(2)]
  have num: "R s s'" if "put_number put m buffer b arg s = Some (Inr (m', s'))" for b s
    using that put_string_keeps [OF _ assms(2)] by (auto simp: put_number_def map_sum_eq_Inr split: sum.splits)
  show ?thesis using assms(1)
    by (auto simp: put_conversion_def map_sum_eq_Inr split: if_splits sum.splits
        dest!: put_string_keeps [OF _ assms(2)] num k(3) elim: k(2))
qed

lemma vprintk_unsafe_keeps:
  fixes s s' :: 's
  assumes "vprintk_unsafe put m buffer fmt args s = Some (Inr (m', s'))" "sink_keeps R put"
  shows "R s s'"
proof -
  let ?P = "\<lambda>put (m :: mem8) (buffer :: u64) (fmt :: u64) (args :: u64 list) s (y :: (mem8 \<times> 's) res).
    sink_keeps R put \<longrightarrow> (\<forall>m' s'. y = Inr (m', s') \<longrightarrow> R s s')"
  have "?P put m buffer fmt args s (Inr (m', s'))"
    apply (rule vprintk_unsafe.raw_induct [where P = ?P, OF _ assms(1)])
    apply (intro impI allI)
    subgoal premises prems for f put m buffer fmt args s y m' s'
    proof -
      note k = sink_keepsD [OF prems(3)] and IH = prems(1) [rule_format, OF _ prems(3)]
      from prems(2,4) show "R s s'"
        by (auto split: if_splits sum.splits option.splits list.splits prod.splits
            dest!: IH k(3) put_conversion_keeps [OF _ prems(3)] intro: k(1) elim: k(2))
    qed
    done
  then show ?thesis using assms(2) by blast
qed

lemma framebuffer_sink_keeps: "sink_keeps same_tasks (framebuffer_write_character kfont)"
proof -
  have "framebuffer_write_character kfont c s = Inr s' \<Longrightarrow> same_tasks s s'" for c and s s' :: "'a fb_state_scheme"
    by (auto simp: framebuffer_write_character_def framebuffer_plot_character_def same_tasks_def Let_def split: if_splits sum.splits)
  then show ?thesis by (auto simp: sink_keeps_def reflp_def transp_def same_tasks_def)
qed

lemma screen_vprintk_tasks: "screen_vprintk kfont stack fmt args s = Inr s' \<Longrightarrow> same_tasks s s'"
  by (auto simp: screen_vprintk_def vprintk_def same_tasks_def map_sum_eq_Inr split: option.splits sum.splits
      dest!: vprintk_unsafe_keeps [OF _ framebuffer_sink_keeps])

lemma write_characters_tasks: "write_characters kfont stack fmt buffer is s = Inr s' \<Longrightarrow> same_tasks s s'"
proof (induction "is" arbitrary: s)
  case (Cons i "is")
  show ?case using Cons.prems
    by (auto simp: screen_printk_def split: if_splits sum.splits dest!: Cons.IH screen_vprintk_tasks) (simp add: same_tasks_def)
qed simp

text \<open>The callbacks of the console behind \<open>devfs\<close>.\<close>

definition console_rw :: "psf_font \<Rightarrow> u64 \<Rightarrow> u64 \<Rightarrow> u64 \<Rightarrow> 'a con_state_scheme rw_callback" where
  "console_rw kfont stack fmt read callback node buffer n s =
     (if callback = read then console_read node buffer n s else console_write kfont stack fmt node buffer n s)"

interpretation console_device: quiet_devices fuel "\<lambda>callback node s. Inr s" "console_rw kfont stack fmt read" dot
  for fuel kfont stack fmt read dot
  by unfold_locales
    (auto simp: console_rw_def console_read_def console_write_def map_sum_eq_Inr split: if_splits dest: write_characters_tasks)

lemma console_write_ok:
  assumes "console_ok kfont s" "printk_lock s = 0" "cstr (heap_bytes s) fmt [0x25, 0x63]"
    and "\<And>i. i \<le> 2 \<Longrightarrow> off_screen (main_framebuffer s) (fmt + of_nat i)"
    and "\<And>i. i < unat n \<Longrightarrow> off_screen (main_framebuffer s) (buffer + of_nat i)"
    and "unat (cursor_y (main_cursor s)) + (unat n + 1) * unat (font_height kfont) < 2 ^ 64"
    and "\<And>i. i < unat n \<Longrightarrow> heap_bytes s (buffer + of_nat i) < 0x80"
  shows "\<exists>s'. console_write kfont stack fmt node buffer n s = Inr (n, s') \<and> console_ok kfont s' \<and> same_console s s' \<and>
    terminal_of s' = fold (term_put kfont (main_framebuffer s) (cursor_colour (main_cursor s)))
      (bytes_at (heap_bytes s) buffer (unat n)) (terminal_of s)"
proof -
  have "\<exists>s'. write_characters kfont stack fmt buffer [0..<unat n] s = Inr s' \<and> console_ok kfont s' \<and> same_console s s' \<and>
    terminal_of s' = fold (term_put kfont (main_framebuffer s) (cursor_colour (main_cursor s)))
      (map (\<lambda>i. heap_bytes s (buffer + of_nat i)) [0..<unat n]) (terminal_of s)"
    by (rule write_characters_ok [OF assms(1,2,3,4)]) (use assms(5-7) in simp_all)
  then show ?thesis by (auto simp: console_write_def bytes_at_def)
qed

subsection \<open>The console behind a system call\<close>

definition console_ops :: "nat \<Rightarrow> u64 \<Rightarrow> psf_font \<Rightarrow> u64 \<Rightarrow> u64 \<Rightarrow> u64 \<Rightarrow> u64 \<Rightarrow> 'a con_state_scheme vfs_fs_ops" where
  "console_ops fuel dot kfont stack fmt read fs = devfs fuel (\<lambda>callback node s. Inr s) (console_rw kfont stack fmt read) dot"

lemma console_ops_quiet: "quiet_file_systems (console_ops fuel dot kfont stack fmt read)"
  using console_device.device_files.quiet_file_systems_axioms by (simp add: console_ops_def [abs_def])

lemma entered_fields [simp]:
  "heap_bytes (entered c st s) = heap_bytes s" "memory (entered c st s) = memory s" 
  "kernel_hhdm_offset (entered c st s) = kernel_hhdm_offset s"
  "tasks (entered c st s) c = (tasks s c)\<lparr>userspace_stack_top := reg_rsp st\<rparr>"
  by (simp_all add: entered_def upd_task_def)

lemma entered_devices [simp]:
  "nodes (entered c st s) = nodes s" "devices (entered c st s) = devices s" 
  by (simp_all add: entered_def upd_task_def)

lemma entered_screen [simp]:
  "main_framebuffer (entered c st s) = main_framebuffer s" "main_cursor (entered c st s) = main_cursor s"
  "font_glyphs (entered c st s) = font_glyphs s" "printk_lock (entered c st s) = printk_lock s"
  "console_ok kfont (entered c st s) = console_ok kfont s" "terminal_of (entered c st s) = terminal_of s"
  by (simp_all add: entered_def upd_task_def console_ok_def terminal_of_def cong: if_cong)

lemma fd_node_stack [simp]: "fd_node (t\<lparr>userspace_stack_top := v\<rparr>) fd s = fd_node t fd s"
  by (simp add: fd_node_def fd_slot_def)

lemma entered_user_memory [simp]:
  "IS_USER_MEMORY a (t\<lparr>userspace_stack_top := v\<rparr>) (entered c st s) = IS_USER_MEMORY a t s" "fd_node t fd (entered c st s) = fd_node t fd s"
  by (simp_all add: IS_USER_MEMORY_def fd_node_def arch_table_manager_translate_to_physical_def arch_table_manager_get_next_layer_def Let_def)

subsection \<open>Lines of the log\<close>

text \<open>What a line of the log says: seconds, three digits of milliseconds, the module and the message.\<close>

definition digit_char :: "nat \<Rightarrow> u8" where "digit_char d = of_nat (0x30 + d)"

definition log_prefix :: "nat \<Rightarrow> u8 list \<Rightarrow> u8 list" where
  "log_prefix ms name =
     [0x5B] @ num_text 10 (ms div 1000) @ [0x2E] @
     [digit_char (ms div 100 mod 10), digit_char (ms div 10 mod 10), digit_char (ms mod 10)] @ [0x5D, 0x20] @ name @ [0x3A, 0x20]"

definition log_line :: "nat \<Rightarrow> u8 list \<Rightarrow> u8 list \<Rightarrow> u8 list" where
  "log_line ms name message = log_prefix ms name @ message @ [0x0A]"

definition log_prefix_format :: "u8 list" where
  "log_prefix_format = [0x5B, 0x25, 0x64, 0x2E, 0x25, 0x64, 0x25, 0x64, 0x25, 0x64, 0x5D, 0x20, 0x25, 0x73, 0x3A, 0x20]"

lemma num_text_digit:
  assumes "d < 10"
  shows "num_text 10 d = [digit_char d]"
proof -
  have "d \<in> {0, 1, 2, 3, 4, 5, 6, 7, 8, 9}" using assms by auto
  then show ?thesis by (elim insertE emptyE) (simp_all add: num_text_def digit_char_def digit_chars_def digit_list.simps)
qed

lemma digit_of_mod: "0 < (b :: nat) \<Longrightarrow> x mod (b * 10) div b = x div b mod 10"
  by (simp add: mod_mult2_eq)

lemma log_prefix_args_ok:
  "args_ok m stack f log_prefix_format (log_prefix_args ms name) \<longleftrightarrow> cstr m name (f name) \<and> off_block stack 32 name (Suc (length (f name)))"
  by (simp add: log_prefix_format_def log_prefix_args_def)

lemma render_log_prefix: "render f log_prefix_format (log_prefix_args ms name) = log_prefix (unat ms) (f name)"
proof -
  have d: "unat (ms mod 1000 div 100) = unat ms div 100 mod 10" "unat (ms mod 100 div 10) = unat ms div 10 mod 10"
    "unat (ms mod 10) = unat ms mod 10" "unat (ms div 1000) = unat ms div 1000"
    using digit_of_mod [of 100 "unat ms"] digit_of_mod [of 10 "unat ms"] by (simp_all add: unat_div unat_mod)
  show ?thesis
    by (simp add: log_prefix_format_def log_prefix_args_def conversion_text_def log_prefix_def d num_text_digit)
qed

lemma serial_vprintk_line:
  assumes dev: "uart_transmits pio sent busy" and lock: "printk_lock s = 0"
    and fmt: "cstr (heap_bytes s) fmt cs" "off_block stack 32 fmt (Suc (length cs))" "args_ok (heap_bytes s) stack f cs args"
  shows "\<exists>h'. serial_vprintk pio True stack fmt args s h = Inr (s, h') \<and> sent h' = sent h @ crlf (render f cs args)"
proof -
  obtain m' h' where "vprintk_serial pio True (heap_bytes s) stack fmt args 0 h = Some (Inr (0, m', h'))"
    "sent h' = sent h @ crlf (render f cs args)"
    using serial_text [OF dev fmt] by blast
  moreover have "s\<lparr>printk_lock := 0\<rparr> = s" using lock by simp
  ultimately show ?thesis using lock by (simp add: serial_vprintk_def)
qed

lemma off_block_below:
  assumes "unat q + k \<le> unat p" "unat p + n \<le> 2 ^ 64"
  shows "off_block p n q k"
  unfolding off_block_def
proof (intro allI impI)
  fix i assume "i < k"
  then have "unat (q + of_nat i) = unat q + i" "unat q + i < unat p"
    using assms unat_less_2p64 [of p] by (simp_all add: unat_plus_exact unat_of_nat_exact)
  then show "n \<le> unat (q + of_nat i - p)" using assms(2) by (subst unat_minus_wrap) simp_all
qed

subsection \<open>Texts that stay readable\<close>

text \<open>
  A format and its strings, outside the conversion buffer and outside the screen: they are read the same after anything has been
  printed.
\<close>

definition bytes_of :: "string \<Rightarrow> u8 list" where
  "bytes_of cs = map (of_nat \<circ> of_char) cs"

lemma bytes_of_simps [simp]:
  "bytes_of [] = []" "bytes_of (c # cs) = of_nat (of_char c) # bytes_of cs" "bytes_of (xs @ ys) = bytes_of xs @ bytes_of ys"
  by (simp_all add: bytes_of_def)

definition printable ::
  "u64 \<Rightarrow> (u64 \<Rightarrow> u8 list) \<Rightarrow> 'a fb_state_scheme \<Rightarrow> u64 \<Rightarrow> u8 list \<Rightarrow> u64 list \<Rightarrow> bool" where
  "printable stack f s fmt cs args \<longleftrightarrow> off_block stack 32 fmt (Suc (length cs)) \<and>
     (\<forall>m. (\<forall>a. off_screen (main_framebuffer s) a \<longrightarrow> m a = heap_bytes s a) \<longrightarrow> cstr m fmt cs \<and> args_ok m stack f cs args)"

lemma printableD:
  assumes "printable stack f s fmt cs args"
  shows "cstr (heap_bytes s) fmt cs" "off_block stack 32 fmt (Suc (length cs))" "args_ok (heap_bytes s) stack f cs args"
  using assms by (auto simp: printable_def)

lemma printable_keep:
  assumes "same_console s s'" "printable stack f s fmt cs args"
  shows "printable stack f s' fmt cs args"
proof -
  note c = same_console_fields [OF assms(1)]
  have "cstr m fmt cs \<and> args_ok m stack f cs args" if "\<forall>a. off_screen (main_framebuffer s') a \<longrightarrow> m a = heap_bytes s' a" for m
    using assms(2) that c(1,4) unfolding printable_def by auto
  then show ?thesis using assms(2) by (simp add: printable_def)
qed

text \<open>Formatted output on the screen acts as the abstract terminal does on the rendered text.\<close>

lemma put_chars_screen:
  assumes "console_ok kfont s" "unat (cursor_y (main_cursor s)) + (length cs + 1) * unat (font_height kfont) < 2 ^ 64"
    "list_all (\<lambda>c. c < 0x80) cs"
  shows "\<exists>s'. put_chars (framebuffer_write_character kfont) cs s = Inr s' \<and> console_ok kfont s' \<and> same_console s s' \<and>
    terminal_of s' = fold (term_put kfont (main_framebuffer s) (cursor_colour (main_cursor s))) cs (terminal_of s)"
  using assms
proof (induction cs arbitrary: s)
  case Nil
  then show ?case by (simp add: same_console_refl)
next
  case (Cons c cs)
  obtain s1 where s1: "framebuffer_write_character kfont c s = Inr s1" "console_ok kfont s1" "same_console s s1"
    "terminal_of s1 = term_put kfont (main_framebuffer s) (cursor_colour (main_cursor s)) c (terminal_of s)"
    using write_character_ok [OF Cons.prems(1), of c] Cons.prems(2,3) by auto
  note f = same_console_fields [OF s1(3)]
  have "unat (cursor_y (main_cursor s1)) + (length cs + 1) * unat (font_height kfont) < 2 ^ 64"
    using Cons.prems(2) term_put_y [of kfont "main_framebuffer s" "cursor_colour (main_cursor s)" c "terminal_of s"]
    by (simp add: s1(4) [symmetric] term_of_simps)
  from Cons.IH [OF s1(2) this] Cons.prems(3) obtain s' where "put_chars (framebuffer_write_character kfont) cs s1 = Inr s'" "console_ok kfont s'" "same_console s1 s'"
    "terminal_of s' = fold (term_put kfont (main_framebuffer s1) (cursor_colour (main_cursor s1))) cs (terminal_of s1)"
    by auto
  then show ?case using s1 f same_console_trans [OF s1(3)] by (simp add: f)
qed

text \<open>
  A text for the screen: ASCII, which the font has glyphs for, and not so long that the cursor's line wraps. And the state in which
  the text has been written.
\<close>

definition screen_room :: "psf_font \<Rightarrow> u8 list \<Rightarrow> 'a fb_state_scheme \<Rightarrow> bool" where
  "screen_room kfont cs s \<longleftrightarrow> list_all (\<lambda>c. c < 0x80) cs \<and>
     unat (cursor_y (main_cursor s)) + (length cs + 1) * unat (font_height kfont) < 2 ^ 64"

lemma screen_room_mono:
  assumes "screen_room kfont cs s" "set ds \<subseteq> set cs" "length ds \<le> length cs"
  shows "screen_room kfont ds s"
proof -
  have "(length ds + 1) * unat (font_height kfont) \<le> (length cs + 1) * unat (font_height kfont)" using assms(3) by (intro mult_le_mono1) simp
  then have "unat (cursor_y (main_cursor s)) + (length ds + 1) * unat (font_height kfont) < 2 ^ 64"
    using assms(1) unfolding screen_room_def by linarith
  then show ?thesis using assms(1,2) unfolding screen_room_def list_all_iff by blast
qed

definition screen_shows :: "psf_font \<Rightarrow> u8 list \<Rightarrow> 'a fb_state_scheme \<Rightarrow> 'a fb_state_scheme \<Rightarrow> bool" where
  "screen_shows kfont cs s s' \<longleftrightarrow> console_ok kfont s' \<and> same_console s s' \<and>
     terminal_of s' = fold (term_put kfont (main_framebuffer s) (cursor_colour (main_cursor s))) cs (terminal_of s)"

lemma screen_shows_trans:
  assumes "screen_shows kfont xs s s1" "screen_shows kfont ys s1 s2"
  shows "screen_shows kfont (xs @ ys) s s2"
  using assms same_console_trans [of s s1 s2] same_console_fields [of s s1] by (simp add: screen_shows_def)

lemma fold_term_put_y: "term_y (fold (term_put kfont f colour) cs t) \<le> term_y t + length cs * unat (font_height kfont)"
proof (induction cs arbitrary: t)
  case (Cons c cs)
  show ?case using Cons.IH [of "term_put kfont f colour c t"] term_put_y [of kfont f colour c t] by simp
qed simp

lemma screen_room_after:
  assumes "screen_shows kfont xs s s'" "screen_room kfont (xs @ ys) s"
  shows "screen_room kfont ys s'"
proof -
  have "term_y (terminal_of s') \<le> term_y (terminal_of s) + length xs * unat (font_height kfont)"
    using assms(1) fold_term_put_y by (simp add: screen_shows_def)
  then show ?thesis using assms(2) by (simp add: screen_room_def term_of_simps algebra_simps)
qed

text \<open>On a machine without a framebuffer nothing happens on the screen.\<close>

definition screen_ready :: "psf_font \<Rightarrow> u8 list \<Rightarrow> 'a fb_state_scheme \<Rightarrow> bool" where
  "screen_ready kfont cs s \<longleftrightarrow> (framebuffer_available s \<longrightarrow> console_ok kfont s \<and> screen_room kfont cs s)"

definition shown :: "psf_font \<Rightarrow> u8 list \<Rightarrow> 'a fb_state_scheme \<Rightarrow> 'a fb_state_scheme \<Rightarrow> bool" where
  "shown kfont cs s s' \<longleftrightarrow> (if framebuffer_available s then screen_shows kfont cs s s' else s' = s)"

lemma shown_same: "shown kfont cs s s' \<Longrightarrow> same_console s s'"
  by (auto simp: shown_def screen_shows_def same_console_refl split: if_splits)

lemma screen_shows_ok: "screen_shows kfont cs s s' \<Longrightarrow> console_ok kfont s'" "screen_shows kfont cs s s' \<Longrightarrow> framebuffer_available s'"
  by (simp_all add: screen_shows_def console_ok_def)

lemma shown_trans: "shown kfont xs s s1 \<Longrightarrow> shown kfont ys s1 s2 \<Longrightarrow> shown kfont (xs @ ys) s s2"
  using screen_shows_trans [of kfont xs s s1 ys s2] screen_shows_ok(2) [of kfont xs s s1] by (auto simp: shown_def split: if_splits)

lemma shown_Nil: "screen_ready kfont cs s \<Longrightarrow> shown kfont [] s s"
  by (simp add: shown_def screen_shows_def screen_ready_def same_console_refl)

lemma screen_ready_mono: "screen_ready kfont cs s \<Longrightarrow> set ds \<subseteq> set cs \<Longrightarrow> length ds \<le> length cs \<Longrightarrow> screen_ready kfont ds s"
  using screen_room_mono by (auto simp: screen_ready_def)

lemma shown_ready:
  assumes "shown kfont xs s s'" "screen_ready kfont (xs @ ys) s"
  shows "screen_ready kfont ys s'"
proof (cases "framebuffer_available s")
  case True
  then have "screen_shows kfont xs s s'" using assms(1) by (simp add: shown_def)
  then show ?thesis using screen_room_after [of kfont xs s s' ys] screen_shows_ok(1) assms(2) True by (auto simp: screen_ready_def)
next
  case False
  then show ?thesis using assms(1) by (simp add: shown_def screen_ready_def)
qed

lemma screen_vprintk_text:
  fixes s :: "'a con_state_scheme"
  assumes "console_ok kfont s" "printk_lock s = 0" "printable stack f s fmt cs args" "screen_room kfont (render f cs args) s"
  shows "\<exists>s'. screen_vprintk kfont stack fmt args s = Inr s' \<and> screen_shows kfont (render f cs args) s s'"
proof -
  obtain s' where s': "put_chars (framebuffer_write_character kfont) (render f cs args) s = Inr s'" "screen_shows kfont (render f cs args) s s'"
    using put_chars_screen [OF assms(1)] assms(4) unfolding screen_room_def screen_shows_def by blast
  have "printk_lock s' = 0" using same_console_more(1) [of s s'] s'(2) assms(2) by (simp add: screen_shows_def)
  then have "s'\<lparr>printk_lock := 0\<rparr> = s'" by simp
  then show ?thesis
    using vprintk_unsafe_chars [OF printableD [OF assms(3)], of "framebuffer_write_character kfont" s] s' assms(2)
    by (auto simp: screen_vprintk_def vprintk_def)
qed

lemma colour_fields [simp]:
  "console_ok kfont (set_colour c s) = console_ok kfont s" "screen_room kfont cs (set_colour c s) = screen_room kfont cs s"
  "terminal_of (set_colour c s) = terminal_of s" "printable stack f (set_colour c s) = printable stack f s"
  "printk_lock (set_colour c s) = printk_lock s" "logger_spinlock (set_colour c s) = logger_spinlock s"
  "framebuffer_available (set_colour c s) = framebuffer_available s" "main_framebuffer (set_colour c s) = main_framebuffer s"
  "font_glyphs (set_colour c s) = font_glyphs s" "cursor_colour (main_cursor (set_colour c s)) = c"
  by (simp_all add: console_ok_def screen_room_def terminal_of_def printable_def set_colour_def fun_eq_iff cong: if_cong)

text \<open>A string constant that stays readable.\<close>

definition literal_ok :: "u64 \<Rightarrow> (string \<Rightarrow> u64) \<Rightarrow> 'a fb_state_scheme \<Rightarrow> string \<Rightarrow> bool" where
  "literal_ok stack lit s str \<longleftrightarrow> off_block stack 32 (lit str) (Suc (length str)) \<and>
     (\<forall>m. (\<forall>a. off_screen (main_framebuffer s) a \<longrightarrow> m a = heap_bytes s a) \<longrightarrow> cstr m (lit str) (bytes_of str))"

lemma literal_okD:
  "literal_ok stack lit s str \<Longrightarrow> (\<forall>a. off_screen (main_framebuffer s) a \<longrightarrow> m a = heap_bytes s a) \<Longrightarrow> cstr m (lit str) (bytes_of str)"
  "literal_ok stack lit s str \<Longrightarrow> off_block stack 32 (lit str) (Suc (length str))"
  unfolding literal_ok_def by blast+

lemma printable_literal:
  "literal_ok stack lit s str \<Longrightarrow> (\<And>m. args_ok m stack f (bytes_of str) args) \<Longrightarrow> printable stack f s (lit str) (bytes_of str) args"
  by (simp add: literal_ok_def printable_def bytes_of_def)

lemma literal_ok_keep:
  assumes "same_console s s'" "literal_ok stack lit s str"
  shows "literal_ok stack lit s' str"
proof -
  note c = same_console_fields [OF assms(1)]
  have "cstr m (lit str) (bytes_of str)" if "\<forall>a. off_screen (main_framebuffer s') a \<longrightarrow> m a = heap_bytes s' a" for m
    using assms(2) that c(1,4) unfolding literal_ok_def by auto
  then show ?thesis using assms(2) by (simp add: literal_ok_def)
qed

subsection \<open>A memory with the string constants\<close>

definition table_memory :: "string list \<Rightarrow> mem8" where
  "table_memory strs a =
     (let i = unat a div 0x1000; j = unat a mod 0x1000
      in if 1 \<le> i \<and> i \<le> length strs \<and> j < length (strs ! (i - 1)) then bytes_of (strs ! (i - 1)) ! j else 0)"

definition table_lit :: "string list \<Rightarrow> string \<Rightarrow> u64" where
  "table_lit strs str = of_nat (0x1000 * Suc (length (takeWhile (\<lambda>x. x \<noteq> str) strs)))"

definition table_ok :: "string list \<Rightarrow> bool" where
  "table_ok strs \<longleftrightarrow> length strs < 64 \<and> list_all (\<lambda>x. 0 \<notin> set (bytes_of x) \<and> length x < 0x1000) strs"

lemma table_reads:
  assumes ok: "table_ok strs" and str: "str \<in> set strs"
  shows "\<And>m. (\<And>a. unat a < 0x41000 \<Longrightarrow> m a = table_memory strs a) \<Longrightarrow> cstr m (table_lit strs str) (bytes_of str)"
    "unat (table_lit strs str) + Suc (length str) \<le> 0x41000"
proof -
  define n where "n = length (takeWhile (\<lambda>x. x \<noteq> str) strs)"
  have "n < length strs" unfolding n_def using str by (induction strs) auto
  then have n: "n < length strs" "strs ! n = str" using nth_length_takeWhile [of "\<lambda>x. x \<noteq> str" strs] by (auto simp: n_def)
  have len: "length strs < 64" "0 \<notin> set (bytes_of str)" "length str < 0x1000" using ok str by (auto simp: table_ok_def list_all_iff)
  have l: "table_lit strs str = of_nat (0x1000 * Suc n)" by (simp add: table_lit_def n_def)
  have u: "unat (table_lit strs str + of_nat j) = 0x1000 * Suc n + j" if "j < 0x1000" for j
    unfolding l of_nat_add [symmetric] by (rule unat_of_nat_exact) (use n(1) len(1) that in simp)
  have b: "table_memory strs (table_lit strs str + of_nat j) = (if j < length str then bytes_of str ! j else 0)" if "j < 0x1000" for j
  proof -
    have "(j + Suc n * 0x1000) div 0x1000 = Suc n" "(j + Suc n * 0x1000) mod 0x1000 = j"
      using that by (simp_all only: div_mult_self1 mod_mult_self1 div_less mod_less)
    then have "(0x1000 * Suc n + j) div 0x1000 = Suc n" "(0x1000 * Suc n + j) mod 0x1000 = j" by (simp_all only: ac_simps)
    then show ?thesis using n by (simp only: table_memory_def Let_def u [OF that]) simp
  qed
  show "cstr m (table_lit strs str) (bytes_of str)" if m: "\<And>a. unat a < 0x41000 \<Longrightarrow> m a = table_memory strs a" for m
  proof -
    have "m (table_lit strs str + of_nat j) = (if j < length str then bytes_of str ! j else 0)" if "j < 0x1000" for j
      using m [of "table_lit strs str + of_nat j"] b [OF that] u [OF that] that n(1) len(1) by simp
    then show ?thesis using len(2,3) unfolding cstr_iff
      by (auto simp: bytes_at_def bytes_of_def intro!: nth_equalityI)
  qed
  show "unat (table_lit strs str) + Suc (length str) \<le> 0x41000" using u [of 0] n(1) len(1,3) by simp
qed

text \<open>The memory of a screen machine with a table of strings below the screen, and the conversion buffer behind the table.\<close>

definition talking_machine :: "string list \<Rightarrow> con_state" where
  "talking_machine strs = fb_state.extend (screen_machine\<lparr>heap_bytes := table_memory strs\<rparr>) (con_state.fields 0 0)"

lemma talking_machine_fields [simp]:
  "main_framebuffer (talking_machine strs) = small_screen" "framebuffer_available (talking_machine strs)"
  "framebuffer_spinlock (talking_machine strs) = 0" "font_glyphs (talking_machine strs) = 32"
  "main_cursor (talking_machine strs) = \<lparr>cursor_x = 0, cursor_y = 0, cursor_colour = 0xFFFFFF\<rparr>"
  "heap_bytes (talking_machine strs) = table_memory strs" "printk_lock (talking_machine strs) = 0" "logger_spinlock (talking_machine strs) = 0"
  by (simp_all add: talking_machine_def fb_state.defs con_state.defs screen_machine_fields)

lemma talking_machine_screen: "console_ok dot_font (talking_machine strs)" "length cs < 1000 \<Longrightarrow> list_all (\<lambda>c. c < 0x80) cs \<Longrightarrow> screen_room dot_font cs (talking_machine strs)"
  by (simp_all add: console_ok_def screen_room_def screen_ok_def font_fits_def dot_font_ok dot_font_sizes small_screen_def)

lemma talking_machine_literal:
  assumes "table_ok strs" "str \<in> set strs"
  shows "literal_ok 0x50000 (table_lit strs) (talking_machine strs) str"
proof -
  note r = table_reads [OF assms]
  have "off_screen small_screen a" if "unat a < 0x41000" for a :: u64
    using that unat_minus_wrap [of a "0x100000"] by (simp add: off_screen_def small_screen_def fb_bytes_def)
  then have "cstr m (table_lit strs str) (bytes_of str)" if "\<forall>a. off_screen small_screen a \<longrightarrow> m a = table_memory strs a" for m
    using that by (intro r(1)) blast
  then show ?thesis using off_block_below [of "table_lit strs str" "Suc (length str)" "0x50000" 32] r(2)
    by (simp add: literal_ok_def)
qed

lemma slow_pio_transmits: "uart_transmits slow_pio port_sent port_busy"
  by (auto simp: uart_transmits_def slow_pio_def)

subsection \<open>Lines of the log on the screen and on the serial port\<close>

lemma shows_more:
  assumes "screen_shows kfont cs s s'"
  shows "printk_lock s' = printk_lock s" "logger_spinlock s' = logger_spinlock s" "console_ok kfont s'" "same_console s s'"
  using assms by (auto simp: screen_shows_def same_console_def)

lemma log_screen_ok:
  fixes s :: "'a con_state_scheme"
  assumes ok: "console_ok kfont s" "printk_lock s = 0"
    and strings: "printable stack f s prefix_fmt pcs pargs" "printable stack f s newline [0x0A] []" "printable stack f s fmt cs args"
    and room: "screen_room kfont (render f pcs pargs @ render f cs args @ [0x0A]) s"
  obtains s' where "log_screen kfont stack prefix_fmt newline colour pargs fmt args s = Inr s'"
    "printk_lock s' = 0" "logger_spinlock s' = logger_spinlock s" "\<And>fmt cs args. printable stack f s fmt cs args \<Longrightarrow> printable stack f s' fmt cs args"
    "terminal_of s' = fold (term_put kfont (main_framebuffer s) colour) (render f cs args @ [0x0A])
       (fold (term_put kfont (main_framebuffer s) PREFIX_COLOUR) (render f pcs pargs) (terminal_of s))"
proof -
  let ?p = "render f pcs pargs" and ?m = "render f cs args" and ?s = "set_colour PREFIX_COLOUR s"
  have r: "screen_room kfont (?p @ ?m @ [0x0A]) ?s" "screen_room kfont ?p ?s"
    using screen_room_mono [OF room, of ?p] room by auto
  obtain s1 where s1: "screen_vprintk kfont stack prefix_fmt pargs ?s = Inr s1" "screen_shows kfont ?p ?s s1"
    using screen_vprintk_text [of kfont ?s stack f prefix_fmt pcs pargs] ok strings(1) r(2) by auto
  note m1 = shows_more [OF s1(2)]
  let ?s1 = "set_colour colour s1"
  have k1: "printable stack f s1 fmt cs args" if "printable stack f s fmt cs args" for fmt cs args
    using printable_keep [OF m1(4)] that by simp
  have r1: "screen_room kfont (?m @ [0x0A]) ?s1" "screen_room kfont ?m ?s1"
    using screen_room_mono [OF screen_room_after [OF s1(2) r(1)], of ?m] screen_room_after [OF s1(2) r(1)] by auto
  obtain s2 where s2: "screen_vprintk kfont stack fmt args ?s1 = Inr s2" "screen_shows kfont ?m ?s1 s2"
    using screen_vprintk_text [of kfont ?s1 stack f fmt cs args] ok m1 k1 [OF strings(3)] r1(2) by auto
  note m2 = shows_more [OF s2(2)]
  have k2: "printable stack f s2 fmt cs args" if "printable stack f s fmt cs args" for fmt cs args
    using printable_keep [OF m2(4)] k1 [OF that] by simp
  obtain s3 where s3: "screen_vprintk kfont stack newline [] s2 = Inr s3" "screen_shows kfont [0x0A] s2 s3"
    using screen_vprintk_text [of kfont s2 stack f newline "[0x0A]" "[]"] ok m1 m2 k2 [OF strings(2)] screen_room_after [OF s2(2) r1(1)] by auto
  note m3 = shows_more [OF s3(2)]
  have "framebuffer_available s" "framebuffer_available s1" "framebuffer_available s2"
    using ok(1) m1(3) m2(3) by (simp_all add: console_ok_def)
  then have "log_screen kfont stack prefix_fmt newline colour pargs fmt args s = Inr s3"
    using s1(1) s2(1) s3(1) by (simp add: log_screen_def screen_printk_def)
  moreover have "terminal_of s3 = fold (term_put kfont (main_framebuffer s) colour) (?m @ [0x0A])
       (fold (term_put kfont (main_framebuffer s) PREFIX_COLOUR) ?p (terminal_of s))"
    using s1(2) screen_shows_trans [OF s2(2) s3(2)] same_console_fields [OF m1(4)] by (simp add: screen_shows_def)
  moreover have "printable stack f s3 fmt cs args" if "printable stack f s fmt cs args" for fmt cs args
    using printable_keep [OF m3(4) k2 [OF that]] .
  ultimately show thesis using that ok m1 m2 m3 by simp
qed

lemma log_serial_ok:
  assumes dev: "uart_transmits pio sent busy" and lock: "printk_lock s = 0"
    and strings: "printable stack f s prefix_fmt pcs pargs" "printable stack f s newline [0x0A] []" "printable stack f s fmt cs args"
  shows "\<exists>h'. log_serial pio True stack prefix_fmt newline pargs fmt args s h = Inr (s, h') \<and>
    sent h' = sent h @ crlf (render f pcs pargs @ render f cs args @ [0x0A])"
proof -
  note line = serial_vprintk_line [OF dev lock printableD]
  obtain h1 where h1: "serial_vprintk pio True stack prefix_fmt pargs s h = Inr (s, h1)" "sent h1 = sent h @ crlf (render f pcs pargs)"
    using line [OF strings(1) strings(1) strings(1)] by blast
  obtain h2 where h2: "serial_vprintk pio True stack fmt args s h1 = Inr (s, h2)" "sent h2 = sent h1 @ crlf (render f cs args)"
    using line [OF strings(3) strings(3) strings(3)] by blast
  obtain h3 where h3: "serial_vprintk pio True stack newline [] s h2 = Inr (s, h3)" "sent h3 = sent h2 @ crlf [0x0A]"
    using line [OF strings(2) strings(2) strings(2), of h2] by auto
  show ?thesis using h1 h2 h3 by (simp add: log_serial_def)
qed

subsection \<open>Properties\<close>

text \<open>
  (C37) A message of the kernel, on a serial port that works: the call returns with the locks free. The line on the serial port has the
  time of the system timer in seconds with three digits of milliseconds, the module and the rendered message; with a framebuffer,
  whose font has the line's characters, the same line is on the screen, its front in the colour of prefixes and the message in its own.
\<close>

theorem log_message_line:
  fixes s :: "'a con_state_scheme"
  assumes dev: "uart_transmits pio sent busy" and locks: "logger_spinlock s = 0" "printk_lock s = 0"
    and strings: "printable stack f s prefix_fmt log_prefix_format (log_prefix_args (now div 1000000) name)"
      "printable stack f s newline [0x0A] []" "printable stack f s fmt cs args"
    and screen: "framebuffer_available s \<longrightarrow> console_ok kfont s \<and>
      screen_room kfont (log_line (unat now div 1000000) (f name) (render f cs args)) s"
    and time: "time_keeping_capable (clock_system_timer clock)" "read_time h = (now, h0)" "sent h0 = sent h"
  shows "\<exists>s' h'. log_message kfont pio True read_time clock stack prefix_fmt newline colour name fmt args s h = Inr (s', h') \<and>
    logger_spinlock s' = 0 \<and> printk_lock s' = 0 \<and>
    sent h' = sent h @ crlf (log_line (unat now div 1000000) (f name) (render f cs args)) \<and>
    terminal_of s' = (if framebuffer_available s
      then fold (term_put kfont (main_framebuffer s) colour) (render f cs args @ [0x0A])
        (fold (term_put kfont (main_framebuffer s) PREFIX_COLOUR) (log_prefix (unat now div 1000000) (f name)) (terminal_of s))
      else terminal_of s)"
proof -
  let ?a = "log_prefix_args (now div 1000000) name" and ?m = "render f cs args"
  have ms: "unat (now div 1000000) = unat now div 1000000" by (simp add: unat_div)
  have p: "render f log_prefix_format ?a = log_prefix (unat now div 1000000) (f name)" unfolding render_log_prefix ms ..
  let ?p = "log_prefix (unat now div 1000000) (f name)"
  obtain s1 where s1: "(if framebuffer_available s then log_screen kfont stack prefix_fmt newline colour ?a fmt args s else Inr s) = Inr s1"
    "printk_lock s1 = 0" "logger_spinlock s1 = 0" "\<And>fmt cs args. printable stack f s fmt cs args \<Longrightarrow> printable stack f s1 fmt cs args"
    "terminal_of s1 = (if framebuffer_available s
      then fold (term_put kfont (main_framebuffer s) colour) (?m @ [0x0A])
        (fold (term_put kfont (main_framebuffer s) PREFIX_COLOUR) ?p (terminal_of s)) else terminal_of s)"
  proof (cases "framebuffer_available s")
    case True
    then have "console_ok kfont s" "screen_room kfont (render f log_prefix_format ?a @ ?m @ [0x0A]) s"
      using screen unfolding p log_line_def by blast+
    from log_screen_ok [OF this(1) locks(2) strings this(2), of colour, unfolded p] show thesis using that True locks(1) by auto
  next
    case False
    then show thesis using that locks by simp
  qed
  obtain h1 where h1: "log_serial pio True stack prefix_fmt newline ?a fmt args s1 h0 = Inr (s1, h1)" "sent h1 = sent h0 @ crlf (?p @ ?m @ [0x0A])"
    using log_serial_ok [OF dev s1(2) s1(4) [OF strings(1)] s1(4) [OF strings(2)] s1(4) [OF strings(3)], of h0, unfolded p] by blast
  have "s1\<lparr>logger_spinlock := 0\<rparr> = s1" using s1(3) by simp
  then have "log_message kfont pio True read_time clock stack prefix_fmt newline colour name fmt args s h = Inr (s1, h1)"
    using h1(1) s1(1) locks(1) time by (simp add: log_message_def Let_def spinlock_release_eq)
  then show ?thesis using s1 h1(2) time(3) by (auto simp: log_line_def)
qed

text \<open>A message \<open>"ok"\<close> of the module \<open>"m"\<close> after 1.042 seconds.\<close>

definition log_strings :: "string list" where
  "log_strings = [''[%d.%d%d%d] %s: '', [CHR 0x0A], ''ok'', ''m'']"

theorem log_message_line_witness:
  "\<exists>s' h'. log_message dot_font slow_pio True (Pair 1042000000)
      \<lparr>clock_system_timer = no_source\<lparr>time_keeping_capable := True\<rparr>, clock_preemption_timer = no_source\<rparr> 0x50000
      (table_lit log_strings ''[%d.%d%d%d] %s: '') (table_lit log_strings [CHR 0x0A]) 0x10B010 (table_lit log_strings ''m'')
      (table_lit log_strings ''ok'') [] (talking_machine log_strings) \<lparr>port_busy = 0, port_sent = []\<rparr> = Inr (s', h') \<and>
    port_sent h' = bytes_of ''[1.042] m: ok'' @ [0x0D, 0x0A] \<and>
    terminal_of s' = fold (term_put dot_font small_screen 0x10B010) (bytes_of ''ok'' @ [0x0A])
      (fold (term_put dot_font small_screen 0xD0D0D0) (bytes_of ''[1.042] m: '') (terminal_of (talking_machine log_strings)))"
proof -
  let ?s = "talking_machine log_strings" and ?lit = "table_lit log_strings" and ?h = "\<lparr>port_busy = 0, port_sent = []\<rparr>"
  let ?f = "\<lambda>_. [0x6D]" and ?a = "log_prefix_args (1042000000 div 1000000) (table_lit log_strings ''m'')"
  have ok: "table_ok log_strings" by (simp add: table_ok_def log_strings_def)
  have lit: "literal_ok 0x50000 ?lit ?s str" if "str \<in> set log_strings" for str by (rule talking_machine_literal [OF ok that])
  have m: "literal_ok 0x50000 ?lit ?s ''m''" by (rule lit) (simp add: log_strings_def)
  have pf: "log_prefix_format = bytes_of ''[%d.%d%d%d] %s: ''" by (simp add: log_prefix_format_def)
  have p: "printable 0x50000 ?f ?s (?lit ''[%d.%d%d%d] %s: '') log_prefix_format ?a"
    unfolding printable_def
  proof (intro conjI allI impI)
    have l: "literal_ok 0x50000 ?lit ?s ''[%d.%d%d%d] %s: ''" by (rule lit) (simp add: log_strings_def)
    have len: "length log_prefix_format = length ''[%d.%d%d%d] %s: ''" by (simp add: log_prefix_format_def)
    show "off_block 0x50000 32 (?lit ''[%d.%d%d%d] %s: '') (Suc (length log_prefix_format))"
      unfolding len by (rule literal_okD(2) [OF l])
    fix m assume agree: "\<forall>a. off_screen (main_framebuffer ?s) a \<longrightarrow> m a = heap_bytes ?s a"
    show "cstr m (?lit ''[%d.%d%d%d] %s: '') log_prefix_format" unfolding pf by (rule literal_okD(1) [OF l agree])
    have b: "[0x6D] = bytes_of ''m''" "Suc (length (bytes_of ''m'')) = Suc (length ''m'')" by simp_all
    show "args_ok m 0x50000 ?f log_prefix_format ?a"
      unfolding log_prefix_args_ok b using literal_okD(1) [OF m agree] literal_okD(2) [OF m] by (rule conjI)
  qed
  have l: "literal_ok 0x50000 ?lit ?s [CHR 0x0A]" "literal_ok 0x50000 ?lit ?s ''ok''"
    by (rule lit, simp add: log_strings_def)+
  have n: "printable 0x50000 ?f ?s (?lit [CHR 0x0A]) (bytes_of [CHR 0x0A]) []" by (rule printable_literal [OF l(1)]) simp
  have n2: "printable 0x50000 ?f ?s (?lit ''ok'') (bytes_of ''ok'') []" by (rule printable_literal [OF l(2)]) simp
  have b: "bytes_of [CHR 0x0A] = [0x0A]" "bytes_of ''ok'' = [0x6F, 0x6B]" by simp_all
  have t: "log_prefix (unat (1042000000 :: u64) div 1000000) [0x6D] = bytes_of ''[1.042] m: ''"
    by (simp add: log_prefix_def digit_char_def num_text_digit)
  have "crlf (log_line (unat (1042000000 :: u64) div 1000000) [0x6D] (render ?f [0x6F, 0x6B] [])) = bytes_of ''[1.042] m: ok'' @ [0x0D, 0x0A]"
    unfolding log_line_def t by (simp add: crlf_def)
  moreover have "length (log_line (unat (1042000000 :: u64) div 1000000) [0x6D] (render ?f [0x6F, 0x6B] [])) < 1000"
    "list_all (\<lambda>c. c < 0x80) (log_line (unat (1042000000 :: u64) div 1000000) [0x6D] (render ?f [0x6F, 0x6B] []))"
    unfolding log_line_def t by simp_all
  ultimately show ?thesis
    using log_message_line [OF slow_pio_transmits _ _ p n [unfolded b] n2 [unfolded b], of dot_font
        "\<lparr>clock_system_timer = no_source\<lparr>time_keeping_capable := True\<rparr>, clock_preemption_timer = no_source\<rparr>"
        "Pair 1042000000" ?h ?h "0x10B010"] t talking_machine_screen
    by auto
qed

end
