(* ===== verification/Init.thy ===== *)
theory Init
  imports Syscall_Entry
begin

text \<open>
  The first user program, \<open>apps/init/src/main.c\<close>: the wrappers around the system calls and the tests it runs.

  The program works on the bytes of user memory and on whatever its system calls change; the instruction itself is the argument
  \<open>sc\<close>: number, five parameters, the result with the new state. \<open>lit\<close> gives the address of a string literal and \<open>loc\<close>
  that of a local array or variable. A piece of the program is done with a value, or it stops in a call: one that waits for a task, or
  one that ends the program.
\<close>

type_synonym 's prog = "'s \<Rightarrow> 's syscall_outcome res"
type_synonym 's syscall = "u64 \<Rightarrow> u64 \<Rightarrow> u64 \<Rightarrow> u64 \<Rightarrow> u64 \<Rightarrow> u64 \<Rightarrow> 's prog"

definition andthen :: "'s prog \<Rightarrow> (u64 \<Rightarrow> 's prog) \<Rightarrow> 's prog" where
  "andthen f g s =
     (case f s of
        Inl e \<Rightarrow> Inl e
      | Inr (Done r s) \<Rightarrow> g r s
      | Inr (Blocked t s) \<Rightarrow> Inr (Blocked t s)
      | Inr (Exited s) \<Rightarrow> Inr (Exited s))"

definition return :: "u64 \<Rightarrow> 's prog" where "return r s = Inr (Done r s)"

definition poke :: "u64 \<Rightarrow> u8 \<Rightarrow> 'a block_state_scheme prog" where
  "poke a b s = Inr (Done 0 (s\<lparr>heap_bytes := (heap_bytes s)(a := b)\<rparr>))"

definition peek :: "u64 \<Rightarrow> 'a block_state_scheme prog" where
  "peek a s = Inr (Done (ucast (heap_bytes s a)) s)"

abbreviation (input) STDOUT :: u64 where "STDOUT \<equiv> 1"

subsection \<open>The wrappers\<close>

definition user_sys_write :: "'s syscall \<Rightarrow> u64 \<Rightarrow> u64 \<Rightarrow> u64 \<Rightarrow> 's prog" where
  "user_sys_write sc fd buffer n = sc 0 fd buffer n 0 0"

definition user_sys_read :: "'s syscall \<Rightarrow> u64 \<Rightarrow> u64 \<Rightarrow> u64 \<Rightarrow> 's prog" where
  "user_sys_read sc fd buffer n = sc 3 fd buffer n 0 0"

definition user_sys_open :: "'s syscall \<Rightarrow> u64 \<Rightarrow> u64 \<Rightarrow> 's prog" where
  "user_sys_open sc filename mode = sc 1 filename mode 0 0 0"

definition user_sys_close :: "'s syscall \<Rightarrow> u64 \<Rightarrow> 's prog" where
  "user_sys_close sc fd = sc 2 fd 0 0 0 0"

definition user_sys_fork :: "'s syscall \<Rightarrow> 's prog" where
  "user_sys_fork sc = sc 4 0 0 0 0 0"

definition user_sys_yield :: "'s syscall \<Rightarrow> 's prog" where
  "user_sys_yield sc = sc 5 0 0 0 0 0"

definition user_sys_waitpid :: "'s syscall \<Rightarrow> u64 \<Rightarrow> u64 \<Rightarrow> u32 \<Rightarrow> 's prog" where
  "user_sys_waitpid sc pid stat_loc options = sc 6 pid stat_loc (scast options) 0 0"

definition user_sys_lseek :: "'s syscall \<Rightarrow> u64 \<Rightarrow> u64 \<Rightarrow> u32 \<Rightarrow> 's prog" where
  "user_sys_lseek sc fd offset whence = sc 8 fd offset (scast whence) 0 0"

definition user_sys_exit :: "'s syscall \<Rightarrow> u32 \<Rightarrow> 's prog" where
  "user_sys_exit sc code = sc 7 (scast code) 0 0 0 0"

subsection \<open>Output\<close>

partial_function (option) user_strlen_from :: "mem8 \<Rightarrow> u64 \<Rightarrow> u64 \<Rightarrow> u64 option" where
  "user_strlen_from m str i = (if m str = 0 then Some i else user_strlen_from m (str + 1) (i + 1))"

definition user_strlen :: "u64 \<Rightarrow> 'a block_state_scheme prog" where
  "user_strlen str s = (case user_strlen_from (heap_bytes s) str 0 of None \<Rightarrow> Inl Diverges | Some n \<Rightarrow> Inr (Done n s))"

definition puts :: "'a block_state_scheme syscall \<Rightarrow> u64 \<Rightarrow> 'a block_state_scheme prog" where
  "puts sc str =
     andthen (user_strlen str) (\<lambda>n.
     andthen (user_sys_write sc STDOUT str n) (\<lambda>_.
     andthen (user_sys_yield sc) (\<lambda>_. return 0)))"

text \<open>The string \<open>fd_str\<close> with one character and its terminating zero.\<close>

definition put_digit :: "u64 \<Rightarrow> u64 \<Rightarrow> 'a block_state_scheme prog" where
  "put_digit buffer v = andthen (poke buffer (ucast (0x30 + v))) (\<lambda>_. poke (buffer + 1) 0)"

subsection \<open>The tests\<close>

definition open_read_fd ::
  "'a block_state_scheme syscall \<Rightarrow> (string \<Rightarrow> u64) \<Rightarrow> u64 \<Rightarrow> 'a block_state_scheme prog" where
  "open_read_fd sc loc filename =
     andthen (user_sys_open sc filename 0) (\<lambda>fd.
     andthen (put_digit (loc ''fd_str'') fd) (\<lambda>_.
     andthen (user_sys_write sc STDOUT (loc ''fd_str'') 1) (\<lambda>_. return fd)))"

definition test_open_close ::
  "'a block_state_scheme syscall \<Rightarrow> (string \<Rightarrow> u64) \<Rightarrow> (string \<Rightarrow> u64) \<Rightarrow> 'a block_state_scheme prog" where
  "test_open_close sc lit loc =
     andthen (user_sys_write sc STDOUT (lit ''newline'') 1) (\<lambda>_.
     andthen (open_read_fd sc loc (lit ''/test.txt'')) (\<lambda>_.
     andthen (open_read_fd sc loc (lit ''/init.elf'')) (\<lambda>fd.
     andthen (user_sys_close sc fd) (\<lambda>_.
     andthen (open_read_fd sc loc (lit ''/test.txt'')) (\<lambda>fd.
     andthen (user_sys_close sc fd) (\<lambda>_.
     andthen (open_read_fd sc loc (lit ''/init.elf'')) (\<lambda>_.
     andthen (open_read_fd sc loc (lit ''/init.elf'')) (\<lambda>_.
     user_sys_write sc STDOUT (lit ''newline'') 1))))))))"

text \<open>A loop that runs its body for a number of times.\<close>

fun repeat :: "nat \<Rightarrow> 's prog \<Rightarrow> 's prog" where
  "repeat 0 f = return 0"
| "repeat (Suc k) f = andthen f (\<lambda>_. repeat k f)"

definition test_read ::
  "'a block_state_scheme syscall \<Rightarrow> (string \<Rightarrow> u64) \<Rightarrow> (string \<Rightarrow> u64) \<Rightarrow> 'a block_state_scheme prog" where
  "test_read sc lit loc =
     andthen (user_sys_open sc (lit ''/test.txt'') 0) (\<lambda>r.
     let fd = scast (ucast r :: u32)
     in andthen (user_sys_lseek sc fd 5 0) (\<lambda>_.
        andthen (repeat 8 (andthen (user_sys_read sc fd (loc ''text'') 8) (\<lambda>_. user_sys_write sc STDOUT (loc ''text'') 8))) (\<lambda>_.
        user_sys_close sc fd)))"

text \<open>
  The pattern of \<open>test_fb\<close>: \<open>i << (i % 43)\<close> in 32 bits. A shift by 32 or more is undefined in C; what comes out
  then is the argument \<open>undefined_shift\<close>.
\<close>

definition stripe :: "(nat \<Rightarrow> u32) \<Rightarrow> nat \<Rightarrow> u32" where
  "stripe undefined_shift i = (if i mod 43 < 32 then push_bit (i mod 43) (of_nat i) else undefined_shift i)"

definition fill_stripes :: "(nat \<Rightarrow> u32) \<Rightarrow> u64 \<Rightarrow> mem8 \<Rightarrow> mem8" where
  "fill_stripes undefined_shift to_write m =
     fold (\<lambda>i m. store32 m (to_write + 4 * of_nat i) (stripe undefined_shift i)) [0..<4 * 1024] m"

definition test_fb ::
  "'a block_state_scheme syscall \<Rightarrow> (nat \<Rightarrow> u32) \<Rightarrow> (string \<Rightarrow> u64) \<Rightarrow> (string \<Rightarrow> u64) \<Rightarrow> 'a block_state_scheme prog" where
  "test_fb sc undefined_shift lit loc =
     andthen (user_sys_open sc (lit ''/dev/fb0'') 0) (\<lambda>fb_fd.
     andthen (\<lambda>s. Inr (Done 0 (s\<lparr>heap_bytes := fill_stripes undefined_shift (loc ''to_write'') (heap_bytes s)\<rparr>))) (\<lambda>_.
     repeat 5 (user_sys_write sc fb_fd (loc ''to_write'') (4 * 1024 * 4))))"

text \<open>The wait for process 4: the fuel bounds how often it is asked for.\<close>

fun wait_for_4 :: "nat \<Rightarrow> 's syscall \<Rightarrow> u64 \<Rightarrow> 's prog" where
  "wait_for_4 0 sc status s = Inl Diverges"
| "wait_for_4 (Suc fuel) sc status s =
     andthen (user_sys_waitpid sc 4 status 0) (\<lambda>r.
       let pid = ucast r :: u32
       in if pid <s 0 then andthen (user_sys_yield sc) (\<lambda>_. wait_for_4 fuel sc status) else return (scast pid)) s"

definition test_fork ::
  "nat \<Rightarrow> 'a block_state_scheme syscall \<Rightarrow> (string \<Rightarrow> u64) \<Rightarrow> (string \<Rightarrow> u64) \<Rightarrow> 'a block_state_scheme prog" where
  "test_fork fuel sc lit loc =
     andthen (user_sys_fork sc) (\<lambda>child.
     if child = 0
     then andthen (user_sys_fork sc) (\<lambda>grandchild.
          if grandchild = 0 then andthen (user_sys_exit sc 7) (\<lambda>_ _. Inl Diverges) else (\<lambda>_. Inl Diverges))
     else andthen (wait_for_4 fuel sc (loc ''status'')) (\<lambda>pid.
          andthen (puts sc (lit ''Child process '')) (\<lambda>_.
          andthen (put_digit (loc ''pid_str'') pid) (\<lambda>_.
          andthen (puts sc (loc ''pid_str'')) (\<lambda>_.
          andthen (puts sc (lit '' terminated with exit code '')) (\<lambda>_.
          andthen (peek (loc ''status'')) (\<lambda>status.
          andthen (poke (loc ''pid_str'') (ucast (0x30 + status))) (\<lambda>_.
          andthen (puts sc (loc ''pid_str'')) (\<lambda>_.
          puts sc (lit ''newline''))))))))))"

text \<open>\<open>_start\<close>, up to the endless loop at its end.\<close>

definition init_start ::
  "nat \<Rightarrow> 'a block_state_scheme syscall \<Rightarrow> (nat \<Rightarrow> u32) \<Rightarrow> (string \<Rightarrow> u64) \<Rightarrow> (string \<Rightarrow> u64) \<Rightarrow> 'a block_state_scheme prog" where
  "init_start fuel sc undefined_shift lit loc =
     andthen (repeat 3 (user_sys_open sc (lit ''/dev/console'') 0)) (\<lambda>_.
     andthen (puts sc (lit ''Init process started'')) (\<lambda>_.
     andthen (test_fb sc undefined_shift lit loc) (\<lambda>_.
     andthen (test_open_close sc lit loc) (\<lambda>_.
     andthen (test_read sc lit loc) (\<lambda>_.
     andthen (test_fork fuel sc lit loc) (\<lambda>_.
     puts sc (lit ''Init finished'')))))))"

subsection \<open>The instruction\<close>

text \<open>
  \<open>_syscall\<close> of \<open>apps/init/src/_syscall.asm\<close>: the parameters are passed in the registers of the calling
  convention, the third of them moved to \<open>r10\<close>; the instruction leaves the return address in \<open>rcx\<close> and the flags in \<open>r11\<close>.
\<close>

definition syscall_registers :: "u64 \<Rightarrow> u64 \<Rightarrow> u64 \<Rightarrow> u64 \<Rightarrow> u64 \<Rightarrow> u64 \<Rightarrow> u64 \<Rightarrow> u64 \<Rightarrow> u64 \<Rightarrow> arch_cpu_state" where
  "syscall_registers rip rflags rsp number param1 param2 param3 param4 param5 =
     zero_cpu_state\<lparr>reg_rdi := number, reg_rsi := param1, reg_rdx := param2, reg_r10 := param3, reg_r8 := param4, reg_r9 := param5,
       reg_rcx := rip, reg_r11 := rflags, reg_rsp := rsp\<rparr>"

definition user_syscall ::
  "nat \<Rightarrow> (u64 \<Rightarrow> 'a vfs_state_scheme vfs_fs_ops) \<Rightarrow> u64 \<Rightarrow> u64 \<Rightarrow> u64 \<Rightarrow> 'a vfs_state_scheme syscall" where
  "user_syscall fuel ops rip rflags rsp number param1 param2 param3 param4 param5 s =
     (case arch_syscall_entry fuel ops (syscall_registers rip rflags rsp number param1 param2 param3 param4 param5) s of
        Inl e \<Rightarrow> Inl e
      | Inr (Sysret f s) \<Rightarrow> Inr (Done (ret_rax f) s)
      | Inr (Task_Blocked t s) \<Rightarrow> Inr (Blocked t s)
      | Inr (Task_Exited s) \<Rightarrow> Inr (Exited s))"

subsection \<open>Properties\<close>

lemma ucast_scast_u32: "ucast (scast (w :: u32) :: u64) = w"
  by (rule bit_word_eqI) (simp add: bit_simps)

text \<open>A handler of the kernel as the program sees it.\<close>

definition seen_by_user :: "u64 \<Rightarrow> u64 \<Rightarrow> u64 \<Rightarrow> 'a sched_state_scheme prog \<Rightarrow> 'a sched_state_scheme prog" where
  "seen_by_user c rflags rsp f s =
     (case f (entered c (zero_cpu_state\<lparr>reg_rsp := rsp\<rparr>) s) of
        Inl e \<Rightarrow> Inl e
      | Inr (Done r s) \<Rightarrow> Inr (Done r (s\<lparr>interrupts_enabled := bit rflags 9\<rparr>))
      | Inr (Blocked t s) \<Rightarrow> Inr (Blocked t s)
      | Inr (Exited s) \<Rightarrow> Inr (Exited s))"

definition waiting :: "('s \<Rightarrow> 's wait_outcome res) \<Rightarrow> 's prog" where
  "waiting f s = map_sum id (\<lambda>w. case w of Returned r s \<Rightarrow> Done r s | Waiting t s \<Rightarrow> Blocked t s) (f s)"

definition exiting :: "('s \<Rightarrow> 's res) \<Rightarrow> 's prog" where
  "exiting f s = map_sum id Exited (f s)"

lemma syscall_registers_fields [simp]:
  "reg_rdi (syscall_registers rip rflags rsp number p1 p2 p3 p4 p5) = number"
  "reg_rsi (syscall_registers rip rflags rsp number p1 p2 p3 p4 p5) = p1"
  "reg_rdx (syscall_registers rip rflags rsp number p1 p2 p3 p4 p5) = p2"
  "reg_r10 (syscall_registers rip rflags rsp number p1 p2 p3 p4 p5) = p3"
  "reg_rcx (syscall_registers rip rflags rsp number p1 p2 p3 p4 p5) = rip"
  "reg_r11 (syscall_registers rip rflags rsp number p1 p2 p3 p4 p5) = rflags"
  "reg_rsp (syscall_registers rip rflags rsp number p1 p2 p3 p4 p5) = rsp"
  "entered c (syscall_registers rip rflags rsp number p1 p2 p3 p4 p5) s = entered c (zero_cpu_state\<lparr>reg_rsp := rsp\<rparr>) s"
  by (simp_all add: syscall_registers_def entered_def)

lemma user_syscall_handler:
  assumes "user_task c s" "quiet_file_systems ops" "unat number < 9" "number \<noteq> 4"
    and "\<And>st. reg_rsi st = p1 \<Longrightarrow> reg_rdx st = p2 \<Longrightarrow> reg_r10 st = p3 \<Longrightarrow> (syscall_handlers fuel ops ! unat number) st = f"
  shows "user_syscall fuel ops rip rflags rsp number p1 p2 p3 p4 p5 s = seen_by_user c rflags rsp f s"
proof -
  let ?st = "syscall_registers rip rflags rsp number p1 p2 p3 p4 p5"
  have "(syscall_handlers fuel ops ! unat number) ?st = f" by (rule assms(5)) simp_all
  then show ?thesis using entry_runs_handler [OF assms(1,2), of ?st fuel] assms(3,4)
    by (simp add: user_syscall_def seen_by_user_def back_to_user_def split: sum.split syscall_outcome.split)
qed

text \<open>
  (C38) The wrappers of the program and the handlers of the kernel fit together: on a kernel with quiet file systems, each of the nine
  wrappers called by a user task runs the handler of the same name on the same arguments; the wrapper returns what the handler returns,
  it waits where the handler waits for another task, and it does not come back from an exit. The program sees a fork twice, if its task
  can fork (its structure is in a page in use, and the other GS base is the context of the processor): in the parent the wrapper returns
  the result of \<open>sys_fork\<close>, the id of the child, and the child starts behind the same call, on the same stack address, with zero as
  the result.
\<close>

theorem wrappers_reach_handlers:
  assumes "user_task c s" "quiet_file_systems ops"
  shows "user_sys_write (user_syscall fuel ops rip rflags rsp) fd buffer n s = seen_by_user c rflags rsp (returning (sys_write ops fd buffer n)) s \<and>
    user_sys_read (user_syscall fuel ops rip rflags rsp) fd buffer n s = seen_by_user c rflags rsp (returning (sys_read ops fd buffer n)) s \<and>
    user_sys_open (user_syscall fuel ops rip rflags rsp) path mode s = seen_by_user c rflags rsp (returning (sys_open fuel ops path mode)) s \<and>
    user_sys_close (user_syscall fuel ops rip rflags rsp) fd s = seen_by_user c rflags rsp (returning (sys_close ops fd)) s \<and>
    user_sys_lseek (user_syscall fuel ops rip rflags rsp) fd offset whence s =
      seen_by_user c rflags rsp (returning (sys_lseek ops fd offset (sint whence))) s \<and>
    user_sys_yield (user_syscall fuel ops rip rflags rsp) s = seen_by_user c rflags rsp (returning sys_yield) s \<and>
    user_sys_waitpid (user_syscall fuel ops rip rflags rsp) pid stat_loc options s =
      seen_by_user c rflags rsp (waiting (sys_waitpid fuel pid stat_loc)) s \<and>
    user_sys_exit (user_syscall fuel ops rip rflags rsp) code s = seen_by_user c rflags rsp (exiting (sys_exit (sint code))) s \<and>
    (page_inv s \<longrightarrow> unat c \<in> frames s \<longrightarrow> context_word s (gs_kernel_base s) = CONTEXT_TYPE_CPU \<longrightarrow> cpu_contexts s (gs_kernel_base s) \<noteq> None \<longrightarrow>
     (let regs = arch_sys_fork_entry (syscall_registers rip rflags rsp 4 0 0 0 0 0);
          e = (entered c (zero_cpu_state\<lparr>reg_rsp := rsp\<rparr>) s)\<lparr>interrupts_enabled := False\<rparr> in
       user_sys_fork (user_syscall fuel ops rip rflags rsp) s =
         (case sys_fork ops regs e of
            Inl error \<Rightarrow> Inl error
          | Inr (r, s') \<Rightarrow> Inr (Done r ((swapgs s')\<lparr>interrupts_enabled := bit rflags 9\<rparr>))) \<and>
       (\<forall>r s'. sys_fork ops regs e = Inr (r, s') \<longrightarrow>
         (\<exists>child. child \<noteq> c \<and> task_id (tasks s' child) = r \<and> ppid (tasks s' child) = task_id (tasks s c) \<and>
            reg_rip (task_state (tasks s' child)) = rip \<and> reg_rsp (task_state (tasks s' child)) = rsp \<and>
            reg_rax (task_state (tasks s' child)) = 0))))"
proof (intro conjI impI)
  let ?st = "syscall_registers rip rflags rsp 4 0 0 0 0 0"
  assume k: "page_inv s" "unat c \<in> frames s" "context_word s (gs_kernel_base s) = CONTEXT_TYPE_CPU" "cpu_contexts s (gs_kernel_base s) \<noteq> None"
  note e = entry_forks [of c s ops ?st, OF assms _ k, simplified]
  show "let regs = arch_sys_fork_entry ?st; e = (entered c (zero_cpu_state\<lparr>reg_rsp := rsp\<rparr>) s)\<lparr>interrupts_enabled := False\<rparr> in
       user_sys_fork (user_syscall fuel ops rip rflags rsp) s =
         (case sys_fork ops regs e of
            Inl error \<Rightarrow> Inl error
          | Inr (r, s') \<Rightarrow> Inr (Done r ((swapgs s')\<lparr>interrupts_enabled := bit rflags 9\<rparr>))) \<and>
       (\<forall>r s'. sys_fork ops regs e = Inr (r, s') \<longrightarrow>
         (\<exists>child. child \<noteq> c \<and> task_id (tasks s' child) = r \<and> ppid (tasks s' child) = task_id (tasks s c) \<and>
            reg_rip (task_state (tasks s' child)) = rip \<and> reg_rsp (task_state (tasks s' child)) = rsp \<and>
            reg_rax (task_state (tasks s' child)) = 0))"
    using e(1) [of fuel] unfolding Let_def
    by (intro conjI allI impI) (auto simp: user_sys_fork_def user_syscall_def back_to_user_def split: sum.split dest!: e(2))
qed (unfold user_sys_write_def user_sys_read_def user_sys_open_def user_sys_close_def user_sys_lseek_def user_sys_yield_def
    user_sys_waitpid_def user_sys_exit_def,
  (rule user_syscall_handler [OF assms]; simp add: syscall_handlers_def ucast_scast_u32 waiting_def exiting_def fun_eq_iff)+)

theorem wrappers_reach_handlers_witness:
  "user_sys_lseek (user_syscall 1 call_ops 0x401000 0x202 0x7000) 7 0 0 (call_machine call_memory 0) =
     seen_by_user 0x2000 0x202 0x7000 (returning (sys_lseek call_ops 7 0 0)) (call_machine call_memory 0) \<and>
   (\<exists>s'. user_sys_exit (user_syscall 1 call_ops 0x401000 0x202 0x7000) 7 (call_machine call_memory 0) = Inr (Exited s') \<and>
      exit_code (tasks s' 0x2000) = 7 \<and> run_mode (tasks s' 0x2000) = RUN_MODE_ZOMBIE) \<and>
   (\<exists>(s :: page_state) r. pt_inv {r} s \<and> user_sys_fork (user_syscall 1 call_ops 0x401000 0x202 0x7000) (fork_machine s r) =
      (case sys_fork call_ops (arch_sys_fork_entry (syscall_registers 0x401000 0x202 0x7000 4 0 0 0 0 0))
              ((entered r (zero_cpu_state\<lparr>reg_rsp := 0x7000\<rparr>) (fork_machine s r))\<lparr>interrupts_enabled := False\<rparr>) of
         Inl error \<Rightarrow> Inl error
       | Inr (child, s') \<Rightarrow> Inr (Done child ((swapgs s')\<lparr>interrupts_enabled := bit (0x202 :: u64) 9\<rparr>))))"
proof (intro conjI)
  let ?s = "call_machine call_memory 0"
  have u: "user_task 0x2000 ?s" by (rule call_machine_user_task)
  note w = wrappers_reach_handlers [OF u call_ops_quiet, of 1 "0x401000" "0x202" "0x7000" 7 0 0 0 0 0 0 0 0 0 7]
  show "user_sys_lseek (user_syscall 1 call_ops 0x401000 0x202 0x7000) 7 0 0 ?s =
     seen_by_user 0x2000 0x202 0x7000 (returning (sys_lseek call_ops 7 0 0)) ?s" using w by simp
  have "running_task 0x2000 (entered 0x2000 (zero_cpu_state\<lparr>reg_rsp := 0x7000\<rparr>) ?s)"
    using u by (simp add: user_task_running entered_def)
  then have "exiting (sys_exit 7) (entered 0x2000 (zero_cpu_state\<lparr>reg_rsp := 0x7000\<rparr>) ?s) =
      Inr (Exited (task_scheduler_round_robin_yield (upd_task 0x2000 (\<lambda>t. t\<lparr>exit_code := 7, run_mode := RUN_MODE_ZOMBIE\<rparr>)
        (entered 0x2000 (zero_cpu_state\<lparr>reg_rsp := 0x7000\<rparr>) ?s))))"
    by (simp add: exiting_def sys_exit_def)
  then show "\<exists>s'. user_sys_exit (user_syscall 1 call_ops 0x401000 0x202 0x7000) 7 ?s = Inr (Exited s') \<and>
      exit_code (tasks s' 0x2000) = 7 \<and> run_mode (tasks s' 0x2000) = RUN_MODE_ZOMBIE"
    using w by (simp add: seen_by_user_def task_scheduler_round_robin_yield_def upd_task_def)
next
  obtain r s where inv: "pt_inv {r} (s :: page_state)" using table_state_new by metis
  note ok = fork_machine_ok [OF inv]
  show "\<exists>(s :: page_state) r. pt_inv {r} s \<and> user_sys_fork (user_syscall 1 call_ops 0x401000 0x202 0x7000) (fork_machine s r) =
      (case sys_fork call_ops (arch_sys_fork_entry (syscall_registers 0x401000 0x202 0x7000 4 0 0 0 0 0))
              ((entered r (zero_cpu_state\<lparr>reg_rsp := 0x7000\<rparr>) (fork_machine s r))\<lparr>interrupts_enabled := False\<rparr>) of
         Inl error \<Rightarrow> Inl error
       | Inr (child, s') \<Rightarrow> Inr (Done child ((swapgs s')\<lparr>interrupts_enabled := bit (0x202 :: u64) 9\<rparr>)))"
    using wrappers_reach_handlers [OF ok(3) call_ops_quiet, of 1 "0x401000" "0x202" "0x7000"] ok inv
    by (intro exI [of _ s] exI [of _ r]) (simp add: Let_def)
qed

subsection \<open>What the test of open and close prints\<close>

text \<open>
  A kernel that does what \<open>sys_open\<close> promises: the lowest free descriptor is handed out, \<open>sys_close\<close> gives it back,
  and what is written to descriptor 1 is shown.
\<close>

record shell = block_state +
  open_fds :: "nat list"
  shown :: "u8 list"

definition lowest_free :: "nat list \<Rightarrow> nat" where
  "lowest_free fds = the (find (\<lambda>i. i \<notin> set fds) [0..<Suc (length fds)])"

definition shell_syscall :: "shell syscall" where
  "shell_syscall number param1 param2 param3 param4 param5 s =
     (if number = 1 then Inr (Done (of_nat (lowest_free (open_fds s))) (s\<lparr>open_fds := lowest_free (open_fds s) # open_fds s\<rparr>))
      else if number = 2 then Inr (Done 0 (s\<lparr>open_fds := removeAll (unat param1) (open_fds s)\<rparr>))
      else if number = 0 \<and> param1 = STDOUT then Inr (Done param3 (s\<lparr>shown := shown s @ bytes_at (heap_bytes s) param2 (unat param3)\<rparr>))
      else Inr (Done 0 s))"

definition first_open :: "nat \<Rightarrow> shell \<Rightarrow> bool" where "first_open k s \<longleftrightarrow> set (open_fds s) = {..<k} \<and> distinct (open_fds s)"

lemma lowest_free_first:
  assumes "set fds = {..<k}" "distinct fds"
  shows "lowest_free fds = k"
proof -
  have "length fds = k" using distinct_card [OF assms(2)] assms(1) by simp
  then have "find (\<lambda>i. i \<notin> set fds) [0..<Suc (length fds)] = Some k"
    using assms by (subst find_upt_Some_iff) auto
  then show ?thesis by (simp add: lowest_free_def)
qed

lemma shell_calls:
  "user_sys_open shell_syscall path mode s =
     Inr (Done (of_nat (lowest_free (open_fds s))) (s\<lparr>open_fds := lowest_free (open_fds s) # open_fds s\<rparr>))"
  "user_sys_close shell_syscall fd s = Inr (Done 0 (s\<lparr>open_fds := removeAll (unat fd) (open_fds s)\<rparr>))"
  "user_sys_write shell_syscall STDOUT buffer n s = Inr (Done n (s\<lparr>shown := shown s @ bytes_at (heap_bytes s) buffer (unat n)\<rparr>))"
  by (simp_all add: user_sys_open_def user_sys_close_def user_sys_write_def shell_syscall_def)

lemma digit_byte:
  assumes "k < 10"
  shows "(ucast (0x30 + of_nat k :: u64) :: u8) = of_nat (0x30 + k)"
proof -
  have "k \<in> {0, 1, 2, 3, 4, 5, 6, 7, 8, 9}" using assms by auto
  then show ?thesis by (elim insertE emptyE) simp_all
qed

lemma open_read_fd_shows:
  assumes "first_open k s" "k < 10" "newline \<noteq> loc ''fd_str''" "newline \<noteq> loc ''fd_str'' + 1"
  shows "\<exists>s'. open_read_fd shell_syscall loc path s = Inr (Done (of_nat k) s') \<and> first_open (Suc k) s' \<and>
    shown s' = shown s @ [of_nat (0x30 + k)] \<and> heap_bytes s' newline = heap_bytes s newline"
proof -
  let ?b = "loc ''fd_str''"
  let ?m = "(heap_bytes s)(?b := of_nat (0x30 + k), ?b + 1 := 0)"
  have k: "lowest_free (open_fds s) = k" using assms(1) by (simp add: first_open_def lowest_free_first)
  have "bytes_at ?m ?b 1 = [of_nat (0x30 + k)]" by (simp add: bytes_at_def)
  then have "open_read_fd shell_syscall loc path s =
      Inr (Done (of_nat k) (s\<lparr>open_fds := k # open_fds s, heap_bytes := ?m, shown := shown s @ [of_nat (0x30 + k)]\<rparr>))"
    by (simp add: open_read_fd_def andthen_def shell_calls k put_digit_def poke_def return_def digit_byte [OF assms(2)] del: of_nat_add)
  moreover have "set (k # open_fds s) = {..<Suc k}" "distinct (k # open_fds s)" using assms(1) by (simp_all add: first_open_def lessThan_Suc)
  ultimately show ?thesis using assms(3,4) by (simp add: first_open_def del: of_nat_add)
qed

lemma close_shell:
  assumes "first_open (Suc k) s" "k < 10"
  shows "\<exists>s'. user_sys_close shell_syscall (of_nat k) s = Inr (Done 0 s') \<and> first_open k s' \<and> shown s' = shown s \<and> heap_bytes s' = heap_bytes s"
proof -
  have "unat (of_nat k :: u64) = k" using assms(2) by (intro unat_of_nat_exact) simp
  moreover have "set (removeAll k (open_fds s)) = {..<k}" "distinct (removeAll k (open_fds s))"
    using assms(1) by (simp_all add: first_open_def distinct_removeAll lessThan_Suc)
  ultimately show ?thesis by (simp add: shell_calls first_open_def)
qed

text \<open>
  What the test prints depends on how many descriptors are open before it: with \<open>k\<close> of them, the digits
  \<open>k\<close>, \<open>k + 1\<close> three times and \<open>k + 2\<close>. The comment promises 34445, which is the case of three; \<open>_start\<close> runs the test
  after \<open>test_fb\<close>, which leaves a fourth open.
\<close>

theorem test_open_close_prints:
  assumes "first_open k s" "k \<le> 7" "heap_bytes s (lit ''newline'') = 0x0A"
    and "lit ''newline'' \<noteq> loc ''fd_str''" "lit ''newline'' \<noteq> loc ''fd_str'' + 1"
  shows "\<exists>r s'. test_open_close shell_syscall lit loc s = Inr (Done r s') \<and> first_open (k + 3) s' \<and>
    shown s' = shown s @ [0x0A] @ map (\<lambda>d. of_nat (0x30 + d)) [k, k + 1, k + 1, k + 1, k + 2] @ [0x0A]"
proof -
  note step = open_read_fd_shows [where loc = loc and newline = "lit ''newline''", OF _ _ assms(4,5)]
  define s0 where "s0 = s\<lparr>shown := shown s @ [0x0A]\<rparr>"
  have w: "user_sys_write shell_syscall STDOUT (lit ''newline'') 1 u = Inr (Done 1 (u\<lparr>shown := shown u @ [heap_bytes u (lit ''newline'')]\<rparr>))" for u
    by (simp add: shell_calls bytes_at_def)
  have s0: "first_open k s0" "heap_bytes s0 = heap_bytes s" using assms(1) by (simp_all add: s0_def first_open_def)
  obtain s1 where s1: "open_read_fd shell_syscall loc (lit ''/test.txt'') s0 = Inr (Done (of_nat k) s1)" "first_open (Suc k) s1"
    "shown s1 = shown s0 @ [of_nat (0x30 + k)]" "heap_bytes s1 (lit ''newline'') = 0x0A"
    using step [OF s0(1)] assms(2,3) s0(2) by auto
  obtain s2 where s2: "open_read_fd shell_syscall loc (lit ''/init.elf'') s1 = Inr (Done (of_nat (Suc k)) s2)" "first_open (Suc (Suc k)) s2"
    "shown s2 = shown s1 @ [of_nat (0x30 + Suc k)]" "heap_bytes s2 (lit ''newline'') = 0x0A"
    using step [OF s1(2)] assms(2) s1(4) by auto
  obtain s3 where s3: "user_sys_close shell_syscall (of_nat (Suc k)) s2 = Inr (Done 0 s3)" "first_open (Suc k) s3" "shown s3 = shown s2"
    "heap_bytes s3 = heap_bytes s2"
    using close_shell [OF s2(2)] assms(2) by auto
  obtain s4 where s4: "open_read_fd shell_syscall loc (lit ''/test.txt'') s3 = Inr (Done (of_nat (Suc k)) s4)" "first_open (Suc (Suc k)) s4"
    "shown s4 = shown s3 @ [of_nat (0x30 + Suc k)]" "heap_bytes s4 (lit ''newline'') = 0x0A"
    using step [OF s3(2)] assms(2) s2(4) s3(4) by auto
  obtain s5 where s5: "user_sys_close shell_syscall (of_nat (Suc k)) s4 = Inr (Done 0 s5)" "first_open (Suc k) s5" "shown s5 = shown s4"
    "heap_bytes s5 = heap_bytes s4"
    using close_shell [OF s4(2)] assms(2) by auto
  obtain s6 where s6: "open_read_fd shell_syscall loc (lit ''/init.elf'') s5 = Inr (Done (of_nat (Suc k)) s6)" "first_open (Suc (Suc k)) s6"
    "shown s6 = shown s5 @ [of_nat (0x30 + Suc k)]" "heap_bytes s6 (lit ''newline'') = 0x0A"
    using step [OF s5(2)] assms(2) s4(4) s5(4) by auto
  obtain s7 where s7: "open_read_fd shell_syscall loc (lit ''/init.elf'') s6 = Inr (Done (of_nat (Suc (Suc k))) s7)" "first_open (Suc (Suc (Suc k))) s7"
    "shown s7 = shown s6 @ [of_nat (0x30 + Suc (Suc k))]" "heap_bytes s7 (lit ''newline'') = 0x0A"
    using step [OF s6(2)] assms(2) s6(4) by auto
  have "test_open_close shell_syscall lit loc s = Inr (Done 1 (s7\<lparr>shown := shown s7 @ [0x0A]\<rparr>))"
    using s1(1) s2(1) s3(1) s4(1) s5(1) s6(1) s7(1,4) assms(3)
    by (simp add: test_open_close_def andthen_def w s0_def del: of_nat_Suc)
  moreover have "first_open (k + 3) (s7\<lparr>shown := shown s7 @ [0x0A]\<rparr>)" using s7(2) by (simp add: first_open_def numeral_3_eq_3)
  ultimately show ?thesis using s1(3) s2(3) s3(3) s4(3) s5(3) s6(3) s7(3) by (auto simp: s0_def)
qed

text \<open>As \<open>_start\<close> runs it: the console three times and the framebuffer are open.\<close>

definition four_open :: shell where
  "four_open = block_state.extend (heap_boot\<lparr>heap_bytes := (\<lambda>_. 0)(0x100 := 0x0A)\<rparr>) (shell.fields [3, 2, 1, 0] [])"

theorem test_open_close_prints_witness:
  "\<exists>r s'. test_open_close shell_syscall (\<lambda>l. if l = ''newline'' then 0x100 else 0x200) (\<lambda>_. 0x300) four_open = Inr (Done r s') \<and>
     shown s' = [0x0A] @ map (of_nat \<circ> of_char) ''45556'' @ [0x0A]"
proof -
  have four: "{..<4 :: nat} = {3, 2, 1, 0}" by auto
  have "first_open 4 four_open" by (simp add: first_open_def four_open_def block_state.defs shell.defs four)
  moreover have "heap_bytes four_open 0x100 = 0x0A" by (simp add: four_open_def block_state.defs shell.defs)
  moreover have "shown four_open = []" by (simp add: four_open_def block_state.defs shell.defs)
  ultimately show ?thesis
    using test_open_close_prints [of 4 four_open "\<lambda>l. if l = ''newline'' then 0x100 else 0x200" "\<lambda>_. 0x300"] by auto
qed

end
