(* ===== verification/Memory_Boot.thy ===== *)
theory Memory_Boot
  imports Block_Allocator_Correct
begin

text \<open>
  Bringing up memory: from the boot loader's memory map to the pools of the page allocator, the bootstrap table on them and the
  heap on that table, the stages \<open>page_allocator_init\<close>, \<open>arch_table_manager_init\<close> and \<open>block_allocator_init\<close> of
  \<open>kernel/src/main.c\<close> one after the other.
\<close>

subsection \<open>The bootstrap table\<close>





























subsection \<open>From the memory map to the heap\<close>



















end
