(* ===== verification/Elf_Load.thy ===== *)
theory Elf_Load
  imports Elf_Correct Task_Creation
begin

text \<open>
  Loading an executable from the ramdisk: the pages of its segments are in the address space of a new task, with the bytes of the
  file, and the task is ready to run at the entry point.

  The loader is followed with an invariant, \<open>loaded\<close>, of the state after some of the pages. Bytes that no new page can hold, \<open>kept\<close>
  ones, do not change; among them are the file, its path and the buffers on the kernel's stack.
\<close>

subsection \<open>Reading the file\<close>

text \<open>An open node of a file in the ramdisk.\<close>

definition ustar_file ::
  "(u64 \<Rightarrow> 'a ustar_state_scheme vfs_fs_ops) \<Rightarrow> u64 \<Rightarrow> vfs_fs_node \<Rightarrow> u8 list \<Rightarrow> mem8 \<Rightarrow> bool" where
  "ustar_file ops node nd contents m \<longleftrightarrow>
     node \<noteq> 0 \<and> ops (node_fs nd) = ustar \<and> length contents < 2 ^ 31 \<and> max_seek_position nd = of_nat (length contents) \<and>
     bytes_at m (node_private nd + 124) 12 = octal_field (length contents) \<and>
     bytes_at m (node_private nd + 512) (length contents) = contents"

lemma ustar_file_cong:
  assumes "ustar_file ops node nd contents m" "\<And>i. i < 512 + length contents \<Longrightarrow> m' (node_private nd + of_nat i) = m (node_private nd + of_nat i)"
  shows "ustar_file ops node nd contents m'"
proof -
  have "bytes_at m' (node_private nd + 124) 12 = bytes_at m (node_private nd + 124) 12"
    using assms(2) [of "124 + i" for i] by (intro bytes_at_cong) (simp add: add.assoc)
  moreover have "bytes_at m' (node_private nd + 512) (length contents) = bytes_at m (node_private nd + 512) (length contents)"
    using assms(2) [of "512 + i" for i] by (intro bytes_at_cong) (simp add: add.assoc)
  ultimately show ?thesis using assms(1) by (simp add: ustar_file_def)
qed

lemma bytes_at_drop: "bytes_at m p (k + n) = xs \<Longrightarrow> bytes_at m (p + of_nat k) n = drop k xs"
  by (rule nth_equalityI) (auto simp: bytes_at_def add.assoc)

lemma ustar_read_at:
  assumes fl: "ustar_file ops node nd contents (heap_bytes s)" and nd: "nodes s node = nd\<lparr>seek_position := x\<rparr>"
    and n: "unat n = 0 \<or> unat offset + unat n \<le> length contents"
    and off: "off_block buffer (unat n) (node_private nd + 512 + offset) (unat n)"
  shows "\<exists>y. read_at ops node offset buffer n s = Inr (set_node node (nd\<lparr>seek_position := y\<rparr>)
    (s\<lparr>heap_bytes := put_bytes (heap_bytes s) buffer (take (unat n) (drop (unat offset) contents))\<rparr>))"
proof -
  let ?h = "node_private nd" and ?len = "length contents"
  have f: "node \<noteq> 0" "ops (node_fs nd) = ustar" "?len < 2 ^ 31" "max_seek_position nd = of_nat ?len"
    "bytes_at (heap_bytes s) (?h + 124) 12 = octal_field ?len" "bytes_at (heap_bytes s) (?h + 512) ?len = contents"
    using fl by (simp_all add: ustar_file_def)
  define pos where "pos = (if offset > of_nat ?len then of_nat ?len else offset)"
  let ?s = "set_node node (nd\<lparr>seek_position := pos\<rparr>) s"
  have seek: "vfs_lseek ops node offset SEEK_SET s = Inr (pos, ?s)"
    using nd f by (simp add: vfs_lseek_def ustar_def ustar_lseek_def Let_def pos_def)
  have fs: "nodes ?s node = nd\<lparr>seek_position := pos\<rparr>" "heap_bytes ?s = heap_bytes s" by (simp_all add: set_node_def)
  have rd: "vfs_read ops node buffer n ?s = ustar_read node buffer n ?s" using f by (simp add: vfs_read_def fs ustar_def)
  have u: "unat (of_nat ?len :: u64) = ?len" using f(3) by (simp add: unat_of_nat_exact)
  have "\<exists>y. ustar_read node buffer n ?s = Inr (y, set_node node (nd\<lparr>seek_position := pos + y\<rparr>)
      (?s\<lparr>heap_bytes := put_bytes (heap_bytes s) buffer (take (unat n) (drop (unat offset) contents))\<rparr>)) \<or>
    unat n = 0 \<and> ustar_read node buffer n ?s = Inr (y, ?s)"
  proof (cases "unat pos < ?len")
    case True
    then have pos: "pos = offset" using u by (auto simp: pos_def split: if_splits)
    have n31: "unat n < 2 ^ 31" using n f(3) by auto
    have len: "min ?len (unat n) = unat n" using n by auto
    have "bytes_at (heap_bytes s) (?h + 512 + offset) (unat n) = take (unat n) (drop (unat offset) contents)"
    proof (cases "unat n = 0")
      case False
      then have le: "unat offset + unat n \<le> ?len" using n by simp
      then have "bytes_at (heap_bytes s) (?h + 512) (unat offset + unat n) = take (unat offset + unat n) contents"
        using f(6) take_bytes_at [of "unat offset + unat n" "heap_bytes s" "?h + 512" ?len] by (simp add: min.absorb1)
      from bytes_at_drop [OF this] show ?thesis by (simp add: drop_take)
    qed (simp add: bytes_at_def)
    then have "memcpy (heap_bytes s) buffer (?h + 512 + offset) n = put_bytes (heap_bytes s) buffer (take (unat n) (drop (unat offset) contents))"
      using memcpy_block [OF off] by simp
    then show ?thesis
      using ustar_read_eq [OF fs(1), of ?h contents n buffer, unfolded fs(2) len, OF _ _ f(5,3) n31] True by (auto simp: pos)
  next
    case False
    then have "ustar_read node buffer n ?s = Inr (- EINVAL, ?s)"
      using parse_size_field [OF f(5)] f(3) u by (simp add: ustar_read_def Let_def fs word_le_nat_alt)
    moreover have "unat n = 0" using False n u by (auto simp: pos_def word_less_nat_alt split: if_splits)
    ultimately show ?thesis by blast
  qed
  then show ?thesis using seek rd by (auto simp: read_at_def set_node_def put_bytes_def)
qed

subsection \<open>Loading a page\<close>

text \<open>
  What the page at offset \<open>i\<close> of a segment has to hold: the part of the file that belongs there, up to the end of the page or of the
  segment's part of the file, and zeros behind.
\<close>

definition page_image :: "u8 list \<Rightarrow> Elf64_Phdr \<Rightarrow> u64 \<Rightarrow> u8 list" where
  "page_image contents p i =
     (let bs = take (min 4096 (unat (p_filesz p) - unat i)) (drop (unat (p_offset p) + unat i) contents)
      in bs @ replicate (4096 - length bs) 0)"

text \<open>
  The file has the bytes of the segment, and the page does not start behind them. For a page behind them, of the zeroed part
  of a segment, the loader takes the absolute value of what is left and reads foreign bytes of the file (\<open>load_size_correct\<close>).
\<close>

definition page_fits :: "u8 list \<Rightarrow> Elf64_Phdr \<Rightarrow> u64 \<Rightarrow> bool" where
  "page_fits contents p i \<longleftrightarrow>
     unat (p_filesz p) < 2 ^ 31 \<and> unat i \<le> unat (p_filesz p) \<and> unat (p_offset p) + unat (p_filesz p) \<le> length contents"

lemma page_fits_size:
  assumes "page_fits contents p i" "length contents < 2 ^ 31"
  obtains n where "load_size (p_filesz p) i = Some n" "unat n = min 4096 (unat (p_filesz p) - unat i)"
    "unat (p_offset p + i) = unat (p_offset p) + unat i" "unat (p_offset p + i) + unat n \<le> length contents"
proof -
  have f: "unat (p_filesz p) < 2 ^ 31" "unat i \<le> unat (p_filesz p)" "unat (p_offset p) + unat (p_filesz p) \<le> length contents"
    using assms(1) by (simp_all add: page_fits_def)
  let ?n = "of_nat (min (unat (p_filesz p) - unat i) 4096) :: u64"
  have n: "unat ?n = min 4096 (unat (p_filesz p) - unat i)" using f(1) by (simp add: unat_of_nat_exact min.commute)
  have o: "unat (p_offset p + i) = unat (p_offset p) + unat i" using f assms(2) by (intro unat_plus_exact) simp
  have "load_size (p_filesz p) i = Some ?n" using load_size_correct [of "p_filesz p" i] f by simp
  then show thesis using that [of ?n] n o f by simp
qed

lemma page_image_bytes:
  assumes "length bs \<le> 4096"
  shows "bytes_at (put_bytes (memset8 m c 0 PAGE) c bs) c 4096 = bs @ replicate (4096 - length bs) 0"
  by (rule nth_equalityI) (use assms in \<open>auto simp: put_bytes_def memset8_apply unat_of_nat_exact nth_append\<close>)

lemma page_frame_eq:
  "page_frame s' = page_frame s \<Longrightarrow>
     s' = s\<lparr>memory := memory s', allocator_pools := allocator_pools s', page_allocator_lock := page_allocator_lock s'\<rparr>"
  by (cases s; cases s') (simp add: page_frame_def)

text \<open>The file, where it lies in memory: away from free pages and from the buffer of the program header.\<close>

definition load_ready ::
  "(u64 \<Rightarrow> 'a ustar_state_scheme vfs_fs_ops) \<Rightarrow> u64 \<Rightarrow> vfs_fs_node \<Rightarrow> u8 list \<Rightarrow> u64 \<Rightarrow> 'a ustar_state_scheme \<Rightarrow> bool" where
  "load_ready ops node nd contents ph s \<longleftrightarrow>
     ustar_file ops node nd contents (heap_bytes s) \<and>
     (\<forall>i < 512 + length contents. kept s (node_private nd + of_nat i) \<and> 56 \<le> unat (node_private nd + of_nat i - ph))"

definition page_loaded :: "u64 set \<Rightarrow> u64 \<Rightarrow> 'a block_state_scheme \<Rightarrow> 'a block_state_scheme \<Rightarrow> nat \<Rightarrow> u8 list \<Rightarrow> bool" where
  "page_loaded T C s0 s n bs \<longleftrightarrow>
     (\<exists>b. pt_maps (hide (upper_half T) s) C n = Some b \<and>
        unat (b + kernel_hhdm_offset s0) \<in> frames s - frames s0 - inner_layers T s C \<and>
        bytes_at (heap_bytes s) (b + kernel_hhdm_offset s0) 4096 = bs)"

definition loader_rest :: "u64 \<Rightarrow> vfs_fs_node \<Rightarrow> 'a ustar_state_scheme \<Rightarrow> 'a ustar_state_scheme \<Rightarrow> bool" where
  "loader_rest node nd s0 s \<longleftrightarrow>
     (\<exists>m ps l hb x. s = s0\<lparr>memory := m, allocator_pools := ps, page_allocator_lock := l, heap_bytes := hb,
        nodes := (nodes s0)(node := nd\<lparr>seek_position := x\<rparr>)\<rparr>)"

definition loaded ::
  "u64 set \<Rightarrow> u64 set \<Rightarrow> u64 \<Rightarrow> u64 \<Rightarrow> u64 \<Rightarrow> vfs_fs_node \<Rightarrow> 'a ustar_state_scheme \<Rightarrow> (nat \<times> u8 list) list \<Rightarrow> 'a ustar_state_scheme \<Rightarrow> bool" where
  "loaded R T C ph node nd s0 prog s \<longleftrightarrow>
     tables_ok R T s \<and> pool_bounds s = pool_bounds s0 \<and> frames s0 \<subseteq> frames s \<and> inner_layers T s C \<inter> frames s0 = {} \<and>
     loader_rest node nd s0 s \<and>
     (\<forall>a. kept s0 a \<longrightarrow> 56 \<le> unat (a - ph) \<longrightarrow> heap_bytes s a = heap_bytes s0 a) \<and>
     (\<forall>f j. unat f \<in> frames s0 \<longrightarrow> unat j < 512 \<longrightarrow> f \<noteq> C \<or> 256 \<le> unat j \<longrightarrow> memory s (f + 8 * j) = memory s0 (f + 8 * j)) \<and>
     (\<forall>n < 2 ^ 36. n \<notin> fst ` set prog \<longrightarrow> pt_maps (hide (upper_half T) s) C n = None) \<and>
     (\<forall>n < 2 ^ 36. \<forall>n' < 2 ^ 36. \<forall>b. pt_maps (hide (upper_half T) s) C n = Some b \<longrightarrow>
        pt_maps (hide (upper_half T) s) C n' = Some b \<longrightarrow> n = n') \<and>
     (\<forall>(n, bs) \<in> set prog. page_loaded T C s0 s n bs)"

lemma loaded_fields:
  assumes "loaded R T C ph node nd s0 prog s"
  shows "kernel_hhdm_offset s = kernel_hhdm_offset s0" "\<exists>x. nodes s node = nd\<lparr>seek_position := x\<rparr>"
    "page_inv s" "\<And>a. kept s0 a \<Longrightarrow> kept s a"
proof -
  show "kernel_hhdm_offset s = kernel_hhdm_offset s0" "\<exists>x. nodes s node = nd\<lparr>seek_position := x\<rparr>"
    using assms by (auto simp: loaded_def loader_rest_def)
  show "page_inv s" using assms by (auto simp: loaded_def dest: tables_page(1))
  show "kept s a" if "kept s0 a" for a using that kept_mono [of s0 a s] assms by (auto simp: loaded_def)
qed

lemma loaded_file:
  assumes "loaded R T C ph node nd s0 prog s" "load_ready ops node nd contents ph s0"
  shows "ustar_file ops node nd contents (heap_bytes s)"
  using ustar_file_cong [of ops node nd contents "heap_bytes s0" "heap_bytes s"] assms by (auto simp: loaded_def load_ready_def)

text \<open>A page stays loaded as long as it stays mapped and its bytes do not change.\<close>

lemma page_loaded_keep:
  assumes l: "page_loaded T C s0 s n bs" and inv: "page_inv s" and m: "pt_maps (hide (upper_half T) u) C n = pt_maps (hide (upper_half T) s) C n"
    and f: "frames s \<subseteq> frames u" "inner_layers T u C \<inter> frames s \<subseteq> inner_layers T s C"
    and bytes: "\<And>f a. f \<in> frames s - frames s0 \<Longrightarrow> f \<le> unat a \<Longrightarrow> unat a < f + 4096 \<Longrightarrow> heap_bytes u a = heap_bytes s a"
  shows "page_loaded T C s0 u n bs"
proof -
  obtain b where b: "pt_maps (hide (upper_half T) s) C n = Some b"
    "unat (b + kernel_hhdm_offset s0) \<in> frames s - frames s0 - inner_layers T s C"
    and bt: "bytes_at (heap_bytes s) (b + kernel_hhdm_offset s0) 4096 = bs"
    using l by (auto simp: page_loaded_def)
  let ?p = "b + kernel_hhdm_offset s0"
  have "heap_bytes u (?p + of_nat i) = heap_bytes s (?p + of_nat i)" if "i < 4096" for i
  proof (rule bytes [of "unat ?p"])
    have "unat ?p + 4096 < 2 ^ 64" using pz.held_page [OF inv] b(2) by auto
    then have "unat (?p + of_nat i) = unat ?p + i" using that by (subst unat_plus_exact) (simp_all add: unat_of_nat_exact)
    then show "unat ?p \<le> unat (?p + of_nat i)" "unat (?p + of_nat i) < unat ?p + 4096" using that by simp_all
  qed (use b(2) in simp)
  then have "bytes_at (heap_bytes u) ?p 4096 = bs" using bt bytes_at_cong by blast
  then show ?thesis using b f m by (auto simp: page_loaded_def)
qed

lemma page_loaded_same:
  assumes "page_loaded T C s0 s n bs" "same_tables R T s s'" "C \<in> R" "n < 2 ^ 36" "page_inv s"
    and "\<And>f a. f \<in> frames s - frames s0 \<Longrightarrow> f \<le> unat a \<Longrightarrow> unat a < f + 4096 \<Longrightarrow> heap_bytes s' a = heap_bytes s a"
  shows "page_loaded T C s0 s' n bs"
  by (rule page_loaded_keep [OF assms(1,5) _ _ _ assms(6)]) (use assms(2-4) same_tables_inner [OF assms(2,3)] in \<open>auto simp: same_tables_def\<close>)

text \<open>One more page of the program.\<close>

lemma loaded_add:
  fixes s0 s u :: "'a ustar_state_scheme"
  assumes ld: "loaded R T C ph node nd s0 prog s" and v: "v < 2 ^ 36" "v \<notin> fst ` set prog" "\<forall>n \<in> fst ` set prog. n < 2 ^ 36"
    and u: "tables_ok R T u" "pool_bounds u = pool_bounds s" "frames s \<subseteq> frames u" "loader_rest node nd s0 u"
    and maps: "\<And>n. n < 2 ^ 36 \<Longrightarrow> pt_maps (hide (upper_half T) u) C n =
      (if n = v then Some (c - kernel_hhdm_offset s0) else pt_maps (hide (upper_half T) s) C n)"
    and lay: "inner_layers T u C \<inter> frames s \<subseteq> inner_layers T s C" and c: "unat c \<in> frames u - frames s - inner_layers T u C"
    and bytes: "\<And>a. kept s a \<Longrightarrow> heap_bytes u a = heap_bytes s a"
    and mem: "\<And>f j. unat f \<in> frames s \<Longrightarrow> unat j < 512 \<Longrightarrow> unat f \<notin> inner_layers T s C \<Longrightarrow> f \<noteq> C \<or> 256 \<le> unat j \<Longrightarrow>
      memory u (f + 8 * j) = memory s (f + 8 * j)"
  shows "loaded R T C ph node nd s0 (prog @ [(v, bytes_at (heap_bytes u) c 4096)]) u"
proof -
  let ?H = "upper_half T" and ?h = "kernel_hhdm_offset s0"
  note lf = loaded_fields [OF ld]
  have bd: "pool_bounds s = pool_bounds s0" and ff: "frames s0 \<subseteq> frames s" and li: "inner_layers T s C \<inter> frames s0 = {}"
    and by0: "\<And>a. kept s0 a \<Longrightarrow> 56 \<le> unat (a - ph) \<Longrightarrow> heap_bytes s a = heap_bytes s0 a"
    and mem0: "\<And>f j. unat f \<in> frames s0 \<Longrightarrow> unat j < 512 \<Longrightarrow> f \<noteq> C \<or> 256 \<le> unat j \<Longrightarrow> memory s (f + 8 * j) = memory s0 (f + 8 * j)"
    and none: "\<And>n. n < 2 ^ 36 \<Longrightarrow> n \<notin> fst ` set prog \<Longrightarrow> pt_maps (hide ?H s) C n = None"
    and inj: "\<And>n n' b. n < 2 ^ 36 \<Longrightarrow> n' < 2 ^ 36 \<Longrightarrow> pt_maps (hide ?H s) C n = Some b \<Longrightarrow> pt_maps (hide ?H s) C n' = Some b \<Longrightarrow> n = n'"
    and pages: "\<And>n bs. (n, bs) \<in> set prog \<Longrightarrow> page_loaded T C s0 s n bs"
    using ld unfolding loaded_def by blast+
  have old: "pt_maps (hide ?H s) C n \<noteq> Some (c - ?h)" if "n < 2 ^ 36" for n
  proof (cases "n \<in> fst ` set prog")
    case True
    then obtain bs where "(n, bs) \<in> set prog" by auto
    from pages [OF this] show ?thesis using c by (auto simp: page_loaded_def)
  qed (use none [OF that] in simp)
  have "page_loaded T C s0 u n bs" if p: "(n, bs) \<in> set prog" for n bs
  proof (rule page_loaded_keep [OF pages [OF p] lf(3) _ u(3) lay])
    show "heap_bytes u a = heap_bytes s a" if "f \<in> frames s - frames s0" "f \<le> unat a" "unat a < f + 4096" for f a
      using that by (intro bytes) (auto simp: kept_def)
    have "n \<noteq> v" "n < 2 ^ 36" using p v by force+
    then show "pt_maps (hide ?H u) C n = pt_maps (hide ?H s) C n" using maps by simp
  qed
  moreover have "page_loaded T C s0 u v (bytes_at (heap_bytes u) c 4096)" using maps [OF v(1)] c ff by (auto simp: page_loaded_def)
  ultimately have pl: "\<forall>(n, bs) \<in> set (prog @ [(v, bytes_at (heap_bytes u) c 4096)]). page_loaded T C s0 u n bs" by auto
  have "n = n'" if "n < 2 ^ 36" "n' < 2 ^ 36" "pt_maps (hide ?H u) C n = Some b" "pt_maps (hide ?H u) C n' = Some b" for n n' b
    using that old inj unfolding maps [OF that(1)] maps [OF that(2)] by (auto split: if_splits)
  moreover have "memory u (f + 8 * j) = memory s0 (f + 8 * j)" if "unat f \<in> frames s0" "unat j < 512" "f \<noteq> C \<or> 256 \<le> unat j" for f j
    using mem [of f j] mem0 [OF that] that ff li by auto
  moreover have "heap_bytes u a = heap_bytes s0 a" if "kept s0 a" "56 \<le> unat (a - ph)" for a
    using bytes [OF lf(4) [OF that(1)]] by0 [OF that] by simp
  moreover have "pt_maps (hide ?H u) C n = None" if "n < 2 ^ 36" "n \<notin> fst ` set (prog @ [(v, bytes_at (heap_bytes u) c 4096)])" for n
    using maps [OF that(1)] none [OF that(1)] that(2) by auto
  moreover have "inner_layers T u C \<inter> frames s0 = {}" "frames s0 \<subseteq> frames u" using lay li ff u(3) by blast+
  moreover have "pool_bounds u = pool_bounds s0" using u(2) bd by simp
  ultimately show ?thesis using u(1,4) pl unfolding loaded_def by blast
qed

text \<open>A new page is mapped into the program; its bytes may be written, and the node of the file may be moved.\<close>

lemma loaded_map:
  fixes s0 s :: "'a ustar_state_scheme"
  assumes ld: "loaded R T C ph node nd s0 prog s" and C: "C \<in> R"
    and va: "vpn va < 2 ^ 35" "vpn va \<notin> fst ` set prog" and prog: "\<forall>n \<in> fst ` set prog. n < 2 ^ 36" and sp: "spare (k + 4) s"
  obtains c s1 s2 where "page_allocate 1 s = Inr (c, s1)" "kernel_hhdm_offset s1 = kernel_hhdm_offset s"
    "arch_table_manager_map C va (c - kernel_hhdm_offset s1) flags (s1\<lparr>heap_bytes := hb c\<rparr>) = Inr s2" "spare k s2"
    "heap_bytes s1 = heap_bytes s" "heap_bytes s2 = hb c" "nodes s2 = nodes s" "\<And>a. kept s a \<Longrightarrow> 4096 \<le> unat (a - c)"
    "\<And>m x. \<forall>a. 4096 \<le> unat (a - c) \<longrightarrow> m a = heap_bytes s a \<Longrightarrow>
       loaded R T C ph node nd s0 (prog @ [(vpn va, bytes_at m c 4096)])
         (s2\<lparr>heap_bytes := m, nodes := (nodes s)(node := nd\<lparr>seek_position := x\<rparr>)\<rparr>) \<and> spare k
         (s2\<lparr>heap_bytes := m, nodes := (nodes s)(node := nd\<lparr>seek_position := x\<rparr>)\<rparr>)"
proof -
  let ?H = "upper_half T" and ?h = "kernel_hhdm_offset s0"
  note lf = loaded_fields [OF ld]
  have ok: "tables_ok R T s" using ld by (simp add: loaded_def)
  obtain c s1 where s1: "page_allocate 1 s = Inr (c, s1)" "kernel_hhdm_offset s1 = kernel_hhdm_offset s" "spare (k + 3) s1" "page_inv s1"
    and one: "frames s1 = insert (unat c) (frames s)" "unat c \<notin> frames s"
    and ca: "arch_table_manager_get_address (c - kernel_hhdm_offset s) = c - kernel_hhdm_offset s"
    and wr: "\<And>m. \<forall>a. m a \<noteq> memory s1 a \<longrightarrow> unat c \<le> unat a \<and> unat a < unat c + 4096 \<Longrightarrow>
       same_tables R T s (s1\<lparr>memory := m\<rparr>) \<and> frames (s1\<lparr>memory := m\<rparr>) = frames s1"
    using page_new [OF ok, of "k + 3"] sp by (auto simp: eval_nat_numeral)
  have st1: "same_tables R T s s1" using wr [of "memory s1"] by simp
  define t where "t = s1\<lparr>heap_bytes := hb c\<rparr>"
  have ok1: "tables_ok R T s1" using st1 by (simp add: same_tables_def)
  note tt = same_tables_same [OF ok1, of t]
  have st: "same_tables R T s t" and ft: "frames t = frames s1" and spt: "spare (k + 3) t"
    using same_tables_trans [OF st1 tt(1)] tt(2,3) s1(3) by (simp_all add: t_def)
  have okt: "tables_ok R T t" using st by (simp add: same_tables_def)
  obtain s2 where s2: "arch_table_manager_map C va (c - kernel_hhdm_offset s) flags t = Inr s2" "spare k s2" "tables_ok R T s2"
    "frames t \<subseteq> frames s2" "kernel_hhdm_offset s2 = kernel_hhdm_offset t"
    and maps: "\<And>r' n. r' \<in> R \<Longrightarrow> n < 2 ^ 36 \<Longrightarrow> pt_maps (hide ?H s2) r' n =
       (if r' = C \<and> n = vpn va then Some (arch_table_manager_get_address (c - kernel_hhdm_offset s)) else pt_maps (hide ?H t) r' n)"
    and lay: "inner_layers T s2 C \<inter> frames t \<subseteq> inner_layers T t C"
    and mem: "\<And>f j. unat f \<in> frames t \<Longrightarrow> unat j < 512 \<Longrightarrow> unat f \<notin> inner_layers T t C \<Longrightarrow> f \<noteq> C \<or> 256 \<le> unat j \<Longrightarrow>
       memory s2 (f + 8 * j) = memory t (f + 8 * j)"
    by (rule user_map [OF okt C vpn_lower_half [OF va(1)] spt]) (rule that)
  have inn: "inner_layers T t C = inner_layers T s C" "inner_layers T s C \<subseteq> frames s"
    using same_tables_inner [OF st C] inner_layers_frames [OF ok C] by simp_all
  have bd: "pool_bounds s2 = pool_bounds s" "pool_bounds s1 = pool_bounds s"
    using map_bounds [OF s2(1)] page_allocate_bounds [OF s1(1)] by (simp_all add: t_def pool_bounds_def)
  have off: "4096 \<le> unat (a - c)" if "kept s a" for a
    by (rule kept_off_page [OF s1(4) that bd(2)]) (use one in auto)
  note e1 = page_frame_eq [OF page_allocate_frame [OF s1(1)]] and e2 = page_frame_eq [OF map_frame [OF s2(1)]]
  have hn: "heap_bytes s1 = heap_bytes s" by (subst e1) simp
  have hn2: "heap_bytes s2 = hb c" "nodes s2 = nodes s" by (subst e2, simp add: t_def, (subst e1, simp)?)+
  show thesis
  proof (rule that [OF s1(1,2) _ s2(2) hn hn2 off])
    show "arch_table_manager_map C va (c - kernel_hhdm_offset s1) flags (s1\<lparr>heap_bytes := hb c\<rparr>) = Inr s2"
      using s2(1) by (simp add: s1(2) t_def)
    fix m :: mem8 and x assume m: "\<forall>a. 4096 \<le> unat (a - c) \<longrightarrow> m a = heap_bytes s a"
    define u where "u = s2\<lparr>heap_bytes := m, nodes := (nodes s)(node := nd\<lparr>seek_position := x\<rparr>)\<rparr>"
    note uu = same_tables_same [OF s2(3), of u]
    have su: "same_tables R T s2 u" "frames u = frames s2" "spare k u" using uu s2(2) by (simp_all add: u_def)
    have iu: "inner_layers T u C = inner_layers T s2 C" by (rule same_tables_inner [OF su(1) C])
    have rest: "loader_rest node nd s0 u"
    proof -
      obtain m' ps l hb' x' where s: "s = s0\<lparr>memory := m', allocator_pools := ps, page_allocator_lock := l, heap_bytes := hb',
        nodes := (nodes s0)(node := nd\<lparr>seek_position := x'\<rparr>)\<rparr>" using ld by (auto simp: loaded_def loader_rest_def)
      show ?thesis unfolding loader_rest_def u_def
        by (intro exI, subst e2, unfold t_def, subst e1, unfold s) simp
    qed
    have "loaded R T C ph node nd s0 (prog @ [(vpn va, bytes_at (heap_bytes u) c 4096)]) u"
    proof (rule loaded_add [OF ld vpn_less va(2) prog _ _ _ rest])
      show "tables_ok R T u" "pool_bounds u = pool_bounds s" "frames s \<subseteq> frames u"
        using su one ft s2(4) bd(1) by (auto simp: same_tables_def u_def pool_bounds_def)
      show "pt_maps (hide ?H u) C n = (if n = vpn va then Some (c - ?h) else pt_maps (hide ?H s) C n)" if "n < 2 ^ 36" for n
        using su(1) st maps [OF C that] C that by (simp add: same_tables_def ca lf(1) [symmetric])
      show "inner_layers T u C \<inter> frames s \<subseteq> inner_layers T s C" "unat c \<in> frames u - frames s - inner_layers T u C"
        using lay inn one ft s2(4) su(2) unfolding iu by auto
      show "heap_bytes u a = heap_bytes s a" if "kept s a" for a using off [OF that] m by (simp add: u_def)
      show "memory u (f + 8 * j) = memory s (f + 8 * j)"
        if "unat f \<in> frames s" "unat j < 512" "unat f \<notin> inner_layers T s C" "f \<noteq> C \<or> 256 \<le> unat j" for f j
        using mem [of f j] st that inn one ft by (auto simp: same_tables_def u_def)
    qed
    then show "loaded R T C ph node nd s0 (prog @ [(vpn va, bytes_at m c 4096)]) u \<and> spare k u"
      using su(3) by (simp add: u_def)
  qed
qed

lemma load_page_ok:
  fixes s0 s :: "'a ustar_state_scheme"
  assumes ld: "loaded R T C ph node nd s0 prog s" and C: "C \<in> R" and rdy: "load_ready ops node nd contents ph s0"
    and va: "vpn (p_vaddr p + i) = v" "v < 2 ^ 35" "v \<notin> fst ` set prog" and prog: "\<forall>n \<in> fst ` set prog. n < 2 ^ 36"
    and fit: "page_fits contents p i" and sp: "spare (k + 4) s"
  shows "\<exists>s'. load_page ops node C p i s = Inr s' \<and> loaded R T C ph node nd s0 (prog @ [(v, page_image contents p i)]) s' \<and> spare k s'"
proof -
  let ?z = "\<lambda>c. memset8 (heap_bytes s) c 0 PAGE" and ?fl = "TABLE_ENTRY_USER OR TABLE_ENTRY_READ_WRITE :: u64"
  have v: "vpn (p_vaddr p + i) < 2 ^ 35" "vpn (p_vaddr p + i) \<notin> fst ` set prog" using va by simp_all
  obtain c s1 s2 where s1: "page_allocate 1 s = Inr (c, s1)" "kernel_hhdm_offset s1 = kernel_hhdm_offset s"
    "arch_table_manager_map C (p_vaddr p + i) (c - kernel_hhdm_offset s1) ?fl (s1\<lparr>heap_bytes := ?z c\<rparr>) = Inr s2"
    and h: "heap_bytes s1 = heap_bytes s" "heap_bytes s2 = ?z c" "nodes s2 = nodes s" and off: "\<And>a. kept s a \<Longrightarrow> 4096 \<le> unat (a - c)"
    and fin: "\<And>m x. \<forall>a. 4096 \<le> unat (a - c) \<longrightarrow> m a = heap_bytes s a \<Longrightarrow>
       loaded R T C ph node nd s0 (prog @ [(vpn (p_vaddr p + i), bytes_at m c 4096)])
         (s2\<lparr>heap_bytes := m, nodes := (nodes s)(node := nd\<lparr>seek_position := x\<rparr>)\<rparr>) \<and> spare k
         (s2\<lparr>heap_bytes := m, nodes := (nodes s)(node := nd\<lparr>seek_position := x\<rparr>)\<rparr>)"
    by (rule loaded_map [OF ld C v prog sp, of ?fl ?z]) (rule that)
  obtain x where x: "nodes s node = nd\<lparr>seek_position := x\<rparr>" using loaded_fields(2) [OF ld] by blast
  have zo: "?z c a = heap_bytes s a" if "4096 \<le> unat (a - c)" for a using that by (simp add: memset8_apply)
  have run: "load_page ops node C p i s = (case load_size (p_filesz p) i of None \<Rightarrow> Inr s2
      | Some n \<Rightarrow> read_at ops node (p_offset p + i) c n s2)"
    using s1(1,3) h(1) by (simp add: load_page_def)
  have "length contents < 2 ^ 31" using rdy by (simp add: load_ready_def ustar_file_def)
  from page_fits_size [OF fit this] obtain n where sz: "load_size (p_filesz p) i = Some n"
    and nn: "unat n = min 4096 (unat (p_filesz p) - unat i)" and o: "unat (p_offset p + i) = unat (p_offset p) + unat i"
    and fits: "unat (p_offset p + i) + unat n \<le> length contents" by blast
  let ?bs = "take (unat n) (drop (unat (p_offset p + i)) contents)"
  have n: "unat n \<le> 4096" "unat (p_offset p + i) + unat n \<le> length contents" using nn fits by simp_all
  have keep: "kept s (node_private nd + of_nat j)" if "j < 512 + length contents" for j
    using rdy that loaded_fields(4) [OF ld] by (simp add: load_ready_def)
  have fl: "ustar_file ops node nd contents (heap_bytes s2)"
  proof (rule ustar_file_cong [OF loaded_file [OF ld rdy]])
    fix j assume "j < 512 + length contents"
    then show "heap_bytes s2 (node_private nd + of_nat j) = heap_bytes s (node_private nd + of_nat j)"
      unfolding h using zo off [OF keep] by blast
  qed
  have "off_block c (unat n) (node_private nd + 512 + (p_offset p + i)) (unat n)"
    unfolding off_block_def
  proof (intro allI impI)
    fix j assume j: "j < unat n"
    have e: "node_private nd + of_nat (512 + unat (p_offset p + i) + j) = node_private nd + 512 + (p_offset p + i) + of_nat j"
      by (simp add: add.assoc)
    have "512 + unat (p_offset p + i) + j < 512 + length contents" using j n by auto
    from off [OF keep [OF this]] show "unat n \<le> unat (node_private nd + 512 + (p_offset p + i) + of_nat j - c)"
      using n(1) unfolding e by simp
  qed
  from ustar_read_at [OF fl _ disjI2 [OF n(2)] this, of x] h(3) x obtain y where
    rd: "read_at ops node (p_offset p + i) c n s2 = Inr (set_node node (nd\<lparr>seek_position := y\<rparr>)
      (s2\<lparr>heap_bytes := put_bytes (?z c) c ?bs\<rparr>))" by (auto simp: h)
  have len: "length ?bs \<le> 4096" using n(1) by simp
  have "put_bytes (?z c) c ?bs a = heap_bytes s a" if "4096 \<le> unat (a - c)" for a
    using zo [OF that] that len by (simp add: put_bytes_other)
  moreover have "bytes_at (put_bytes (?z c) c ?bs) c 4096 = page_image contents p i"
    using page_image_bytes [OF len] nn o by (simp add: page_image_def)
  ultimately show ?thesis using run sz rd fin [of "put_bytes (?z c) c ?bs" y] va(1) h by (simp add: set_node_def)
qed

subsection \<open>Headers of the file\<close>

definition file_mem :: "u8 list \<Rightarrow> mem8" where
  "file_mem contents a = (if unat a < length contents then contents ! unat a else 0)"

definition elf_header :: "u8 list \<Rightarrow> Elf64_Ehdr" where
  "elf_header contents = read_ehdr (file_mem contents) 0"

definition program_header :: "u8 list \<Rightarrow> nat \<Rightarrow> Elf64_Phdr" where
  "program_header contents i = read_phdr (file_mem contents) (e_phoff (elf_header contents) + PHDR_SIZE * of_nat i)"

lemma load_le_cong: "(\<And>i. i < n \<Longrightarrow> m (p + of_nat i) = m' (q + of_nat i)) \<Longrightarrow> load_le m p n = load_le m' q n"
proof (induction n arbitrary: p q)
  case (Suc n)
  have "load_le m (p + 1) n = load_le m' (q + 1) n" using Suc.prems [of "Suc i" for i] by (intro Suc.IH) (simp add: add.assoc)
  then show ?case using Suc.prems [of 0] by simp
qed simp

lemma load_le_shift:
  assumes "\<And>i. i < n \<Longrightarrow> m (p + of_nat i) = m' (q + of_nat i)" "d + k \<le> n"
  shows "load_le m (p + of_nat d) k = load_le m' (q + of_nat d) k"
  using assms(1) [of "d + i" for i] assms(2) by (intro load_le_cong) (simp add: add.assoc)

lemma read_ehdr_cong:
  assumes "\<And>i. i < 64 \<Longrightarrow> m (p + of_nat i) = m' (q + of_nat i)"
  shows "read_ehdr m p = read_ehdr m' q"
proof -
  have l: "load_le m (p + of_nat d) k = load_le m' (q + of_nat d) k" if "d + k \<le> 64" for d k
    using load_le_shift [of 64 m p m' q d k] assms that by simp
  have "bytes_at m p 16 = bytes_at m' q 16" using assms by (simp add: bytes_at_def)
  then show ?thesis
    using l [of 16 2] l [of 18 2] l [of 20 4] l [of 24 8] l [of 32 8] l [of 40 8] l [of 48 4] l [of 52 2] l [of 54 2] l [of 56 2]
      l [of 58 2] l [of 60 2] l [of 62 2] by (simp add: read_ehdr_def)
qed

lemma read_phdr_cong:
  assumes "\<And>i. i < 56 \<Longrightarrow> m (p + of_nat i) = m' (q + of_nat i)"
  shows "read_phdr m p = read_phdr m' q"
proof -
  have l: "load_le m (p + of_nat d) k = load_le m' (q + of_nat d) k" if "d + k \<le> 56" for d k
    using load_le_shift [of 56 m p m' q d k] assms that by simp
  show ?thesis
    using l [of 0 4] l [of 4 4] l [of 8 8] l [of 16 8] l [of 24 8] l [of 32 8] l [of 40 8] l [of 48 8] by (simp add: read_phdr_def)
qed

lemma file_mem_nth: "unat off + i < length contents \<Longrightarrow> length contents < 2 ^ 64 \<Longrightarrow> file_mem contents (off + of_nat i) = contents ! (unat off + i)"
proof -
  assume a: "unat off + i < length contents" "length contents < 2 ^ 64"
  then have "unat (off + of_nat i) = unat off + i" by (subst unat_plus_exact) (simp_all add: unat_of_nat_exact)
  then show ?thesis using a by (simp add: file_mem_def)
qed

text \<open>Reading the header of a segment changes the buffer and moves the node.\<close>

definition header_at :: "u8 list \<Rightarrow> u64 \<Rightarrow> mem8 \<Rightarrow> bool" where
  "header_at contents hdr m \<longleftrightarrow> 64 \<le> length contents \<and> bytes_at m hdr 64 = take 64 contents"

lemma header_at_eq:
  assumes "header_at contents hdr m" "length contents < 2 ^ 31"
  shows "read_ehdr m hdr = elf_header contents"
  unfolding elf_header_def
proof (rule read_ehdr_cong)
  fix i :: nat assume i: "i < 64"
  then have "m (hdr + of_nat i) = contents ! i"
    using assms(1) nth_bytes_at [OF i, of m hdr] by (simp add: header_at_def)
  then show "m (hdr + of_nat i) = file_mem contents (0 + of_nat i)"
    using file_mem_nth [of 0 i contents] i assms by (simp add: header_at_def)
qed

lemma read_program_header_ok:
  assumes fl: "ustar_file ops node nd contents (heap_bytes s)" and nd: "nodes s node = nd\<lparr>seek_position := x\<rparr>"
    and hd: "header_at contents hdr (heap_bytes s)" and i: "i < n" "unat (e_phoff (elf_header contents)) + 56 * n \<le> length contents"
    and off: "\<And>j. j < 512 + length contents \<Longrightarrow> 56 \<le> unat (node_private nd + of_nat j - ph)"
  obtains bs y where "length bs = 56" "read_program_header ops hdr ph node i s = Inr (program_header contents i,
    set_node node (nd\<lparr>seek_position := y\<rparr>) (s\<lparr>heap_bytes := put_bytes (heap_bytes s) ph bs\<rparr>))"
proof -
  let ?o = "e_phoff (elf_header contents) + PHDR_SIZE * of_nat i"
  have len: "length contents < 2 ^ 31" using fl by (simp add: ustar_file_def)
  have "56 * Suc i \<le> 56 * n" using i(1) by (intro mult_le_mono2) simp
  then have b: "unat (e_phoff (elf_header contents)) + 56 * i + 56 \<le> length contents" using i(2) by simp
  then have "unat (PHDR_SIZE * of_nat i) = 56 * i" using len by (subst unat_times_exact) (simp_all add: unat_of_nat_exact)
  then have o: "unat ?o + 56 \<le> length contents" using b len by (subst unat_plus_exact) simp_all
  let ?bs = "take 56 (drop (unat ?o) contents)"
  have "off_block ph (unat PHDR_SIZE) (node_private nd + 512 + ?o) (unat PHDR_SIZE)"
    unfolding off_block_def
  proof (intro allI impI)
    fix j assume j: "j < unat (56 :: u64)"
    have e: "node_private nd + of_nat (512 + unat ?o + j) = node_private nd + 512 + ?o + of_nat j" by (simp add: add.assoc)
    have "512 + unat ?o + j < 512 + length contents" using j o by simp
    from off [OF this] show "unat (56 :: u64) \<le> unat (node_private nd + 512 + ?o + of_nat j - ph)" unfolding e by simp
  qed
  from ustar_read_at [OF fl nd _ this] o obtain y where
    rd: "read_at ops node ?o ph PHDR_SIZE s = Inr (set_node node (nd\<lparr>seek_position := y\<rparr>) (s\<lparr>heap_bytes := put_bytes (heap_bytes s) ph ?bs\<rparr>))"
    by auto
  have "read_phdr (put_bytes (heap_bytes s) ph ?bs) ph = program_header contents i"
    unfolding program_header_def
  proof (rule read_phdr_cong)
    fix j :: nat assume j: "j < 56"
    then show "put_bytes (heap_bytes s) ph ?bs (ph + of_nat j) = file_mem contents (?o + of_nat j)"
      using file_mem_nth [of ?o j contents] o len by (simp add: put_bytes_def unat_of_nat_exact)
  qed
  then show thesis using that [of ?bs y] rd o header_at_eq [OF hd len] by (simp add: read_program_header_def set_node_def)
qed

subsection \<open>Segments\<close>

text \<open>The pages of a segment and of a program, by page number.\<close>

definition segment_image :: "u8 list \<Rightarrow> Elf64_Phdr \<Rightarrow> (nat \<times> u8 list) list" where
  "segment_image contents p =
     (if p_type p \<noteq> PT_LOAD then []
      else map (\<lambda>k. (vpn (p_vaddr p) + k, page_image contents p (of_nat k * PAGE))) [0..<Suc (unat (p_memsz p) div 4096)])"

text \<open>
  A segment the loader can place: it starts at a page of the user half, the file has its bytes, and its zeroed part ends on the page
  where the file's part ends.
\<close>

definition segment_ok :: "u8 list \<Rightarrow> Elf64_Phdr \<Rightarrow> bool" where
  "segment_ok contents p \<longleftrightarrow>
     p_type p \<noteq> PT_LOAD \<or>
     4096 \<le> unat (p_vaddr p) \<and> 4096 dvd unat (p_vaddr p) \<and> unat (p_vaddr p) + unat (p_memsz p) < 2 ^ 47 \<and>
     unat (p_filesz p) < 2 ^ 31 \<and> 4096 * (unat (p_memsz p) div 4096) \<le> unat (p_filesz p) \<and>
     unat (p_offset p) + unat (p_filesz p) \<le> length contents"

lemma segment_page:
  assumes "segment_ok contents p" "p_type p = PT_LOAD" "k \<le> unat (p_memsz p) div 4096"
  shows "unat (of_nat k * PAGE) = 4096 * k" "page_fits contents p (of_nat k * PAGE)"
proof -
  have s: "unat (p_filesz p) < 2 ^ 31" "4096 * (unat (p_memsz p) div 4096) \<le> unat (p_filesz p)"
    "unat (p_offset p) + unat (p_filesz p) \<le> length contents"
    using assms(1,2) by (simp_all add: segment_ok_def)
  have k: "4096 * k \<le> unat (p_filesz p)" using mult_le_mono2 [OF assms(3), of 4096] s(2) by (rule order_trans)
  then have "unat (of_nat k :: u64) = k" using s(1) by (intro unat_of_nat_exact) simp
  then show u: "unat (of_nat k * PAGE) = 4096 * k" using k s(1) by (subst unat_times_exact) simp_all
  show "page_fits contents p (of_nat k * PAGE)" unfolding page_fits_def u using s k by simp
qed

lemma user_vpn: "unat va < 2 ^ 48 \<Longrightarrow> vpn va = unat va div 4096"
  by (simp add: vpn_eq)

lemma segment_vpn:
  assumes "segment_ok contents p" "p_type p = PT_LOAD" "k \<le> unat (p_memsz p) div 4096"
  shows "vpn (p_vaddr p) = unat (p_vaddr p) div 4096" "vpn (p_vaddr p) + k < 2 ^ 35"
proof -
  have v: "unat (p_vaddr p) + unat (p_memsz p) < 2 ^ 47" using assms(1,2) by (simp add: segment_ok_def)
  then show vp: "vpn (p_vaddr p) = unat (p_vaddr p) div 4096" by (intro user_vpn) simp
  show "vpn (p_vaddr p) + k < 2 ^ 35" unfolding vp using assms(3) v by simp
qed

lemma load_segment_ok:
  fixes s0 s :: "'a ustar_state_scheme"
  assumes ld: "loaded R T C ph node nd s0 prog s" and C: "C \<in> R" and rdy: "load_ready ops node nd contents ph s0"
    and seg: "segment_ok contents p" and dist: "distinct (map fst (prog @ segment_image contents p))"
    and prog: "\<forall>n \<in> fst ` set prog. n < 2 ^ 36" and sp: "spare (k + 4 * length (segment_image contents p)) s"
  shows "\<exists>s'. load_segment ops node C p s = Inr s' \<and> loaded R T C ph node nd s0 (prog @ segment_image contents p) s' \<and> spare k s'"
proof (cases "p_type p = PT_LOAD")
  case True
  let ?N = "Suc (unat (p_memsz p) div 4096)" and ?img = "segment_image contents p"
  have img: "?img = map (\<lambda>k. (vpn (p_vaddr p) + k, page_image contents p (of_nat k * PAGE))) [0..<?N]" "length ?img = ?N"
    using True by (simp_all add: segment_image_def del: upt_Suc)
  have lim: "vpn (p_vaddr p) + i < 2 ^ 35" "page_fits contents p (of_nat i * PAGE)" if "i < ?N" for i
    using that segment_vpn(2) [OF seg True, of i] segment_page(2) [OF seg True, of i] by simp_all
  let ?Q = "\<lambda>i s. loaded R T C ph node nd s0 (prog @ take i ?img) s \<and> spare (k + 4 * (?N - i)) s"
  have "\<exists>s'. for_range (\<lambda>k. load_page ops node C p (of_nat k * PAGE)) [0..<?N] s = Inr s' \<and> ?Q ?N s'"
  proof (rule for_range_inv [of 0 ?N ?Q])
    show "?Q 0 s" using ld sp img(2) by simp
    fix i and s :: "'a ustar_state_scheme" assume i: "i < ?N" and Q: "?Q i s"
    have tk: "take (Suc i) ?img = take i ?img @ [(vpn (p_vaddr p) + i, page_image contents p (of_nat i * PAGE))]"
      using i take_Suc_conv_app_nth [of i ?img] img by (simp del: upt_Suc)
    have "map fst (prog @ take (Suc i) ?img) = take (length prog + Suc i) (map fst (prog @ ?img))" by (simp add: take_map)
    then have "distinct (map fst (prog @ take (Suc i) ?img))" using distinct_take [OF dist] by (simp only:)
    then have v: "vpn (p_vaddr p) + i \<notin> fst ` set (prog @ take i ?img)" unfolding tk by auto
    have pg: "\<forall>n \<in> fst ` set (prog @ take i ?img). n < 2 ^ 36"
      using prog lim(1) unfolding img(1) by (fastforce dest!: in_set_takeD simp del: upt_Suc)
    have va: "vpn (p_vaddr p + of_nat i * PAGE) = vpn (p_vaddr p) + i" using lim(1) [OF i] by (intro vpn_add) simp
    have sp: "spare (k + 4 * (?N - Suc i) + 4) s" using Q i by (auto elim!: spare_mono)
    show "\<exists>s'. load_page ops node C p (of_nat i * PAGE) s = Inr s' \<and> ?Q (Suc i) s'"
      using load_page_ok [OF conjunct1 [OF Q] C rdy va lim(1) [OF i] v pg lim(2) [OF i] sp] unfolding tk by simp
  qed simp
  then show ?thesis using True img(2) by (simp add: load_segment_def del: upt_Suc for_range.simps)
next
  case False
  then show ?thesis using assms by (simp add: load_segment_def segment_image_def)
qed

text \<open>Writing to the buffer of the program header, which is no free page, and moving the node.\<close>

lemma put_bytes_off:
  assumes "\<And>i. i < length bs \<Longrightarrow> a \<noteq> p + of_nat i"
  shows "put_bytes m p bs a = m a"
proof (rule put_bytes_other, rule ccontr)
  assume "\<not> length bs \<le> unat (a - p)"
  then show False using assms [of "unat (a - p)"] by simp
qed

lemma loaded_buffer:
  fixes s0 s :: "'a ustar_state_scheme" and y :: u64
  assumes ld: "loaded R T C ph node nd s0 prog s" and C: "C \<in> R" and ph: "\<And>i. i < 56 \<Longrightarrow> kept s0 (ph + of_nat i)" and bs: "length bs = 56"
    and prog: "\<forall>n \<in> fst ` set prog. n < 2 ^ 36"
  defines "s' \<equiv> set_node node (nd\<lparr>seek_position := y\<rparr>) (s\<lparr>heap_bytes := put_bytes (heap_bytes s) ph bs\<rparr>)"
  shows "loaded R T C ph node nd s0 prog s'" "spare k s' = spare k s"
proof -
  have ok: "tables_ok R T s" and bd: "pool_bounds s = pool_bounds s0" and ff: "frames s0 \<subseteq> frames s"
    and pages: "\<And>n b. (n, b) \<in> set prog \<Longrightarrow> page_loaded T C s0 s n b"
    using ld unfolding loaded_def by auto
  note st = same_tables_same [OF ok, of s']
  have st: "same_tables R T s s'" "frames s' = frames s" "spare k s' = spare k s" using st by (simp_all add: s'_def set_node_def)
  show "spare k s' = spare k s" by (rule st(3))
  have iv: "page_inv s" by (rule loaded_fields(3) [OF ld])
  have "page_loaded T C s0 s' n b" if "(n, b) \<in> set prog" for n b
  proof (rule page_loaded_same [OF pages [OF that] st(1) C _ iv])
    show "n < 2 ^ 36" using prog that by force
    fix f and a :: u64 assume f: "f \<in> frames s - frames s0" "f \<le> unat a" "unat a < f + 4096"
    have "unat (of_nat f :: u64) = f" using pz.held_page [OF iv] f(1) by (intro unat_of_nat_exact) force
    then have "4096 \<le> unat (ph + of_nat i - of_nat f)" if "i < 56" for i
      using kept_off_page [OF iv ph [OF that] bd ff, of "of_nat f"] f(1) by simp
    moreover have "unat (a - of_nat f) < 4096"
      using unat_minus_less_iff [of "of_nat f" 4096 a] f pz.held_page [OF iv, of f] \<open>unat (of_nat f :: u64) = f\<close> by simp
    ultimately have "a \<noteq> ph + of_nat i" if "i < 56" for i using that by (auto simp: not_le [symmetric])
    then show "heap_bytes s' a = heap_bytes s a" using bs by (simp add: s'_def set_node_def put_bytes_off)
  qed
  moreover have "heap_bytes s' a = heap_bytes s0 a" if "kept s0 a" "56 \<le> unat (a - ph)" for a
    using ld that bs by (simp add: loaded_def s'_def set_node_def put_bytes_other)
  moreover have "loader_rest node nd s0 s'"
  proof -
    obtain m ps l hb x where s: "s = s0\<lparr>memory := m, allocator_pools := ps, page_allocator_lock := l, heap_bytes := hb,
      nodes := (nodes s0)(node := nd\<lparr>seek_position := x\<rparr>)\<rparr>" using ld by (auto simp: loaded_def loader_rest_def)
    show ?thesis unfolding loader_rest_def s'_def set_node_def by (intro exI, unfold s) simp
  qed
  moreover have "memory s' = memory s" "pool_bounds s' = pool_bounds s" by (simp_all add: s'_def set_node_def pool_bounds_def)
  ultimately show "loaded R T C ph node nd s0 prog s'"
    using ld C st same_tables_inner [OF st(1) C] unfolding loaded_def same_tables_def by auto
qed

subsection \<open>The program\<close>

definition program_upto :: "u8 list \<Rightarrow> nat \<Rightarrow> (nat \<times> u8 list) list" where
  "program_upto contents n = concat (map (\<lambda>i. segment_image contents (program_header contents i)) [0..<n])"

lemma program_upto_Suc: "program_upto contents (Suc n) = program_upto contents n @ segment_image contents (program_header contents n)"
  by (simp add: program_upto_def)

lemma program_upto_prefix: "i \<le> n \<Longrightarrow> \<exists>ys. program_upto contents n = program_upto contents i @ ys"
  by (induction n rule: dec_induct) (auto simp: program_upto_Suc)

definition header_count :: "u8 list \<Rightarrow> nat" where
  "header_count contents = unat (e_phnum (elf_header contents))"

definition program :: "u8 list \<Rightarrow> (nat \<times> u8 list) list" where
  "program contents = program_upto contents (header_count contents)"

text \<open>
  An executable the loader can load: its header is accepted, the program headers lie in the file, segments lie in the user half
  above the first page and have the bytes they ask for, and no two of their pages are the same.
\<close>

definition program_ok :: "u8 list \<Rightarrow> bool" where
  "program_ok contents \<longleftrightarrow>
     elf_header_valid (elf_header contents) \<and> 64 \<le> length contents \<and>
     unat (e_phoff (elf_header contents)) + 56 * header_count contents \<le> length contents \<and>
     (\<forall>i < header_count contents. segment_ok contents (program_header contents i)) \<and>
     distinct (map fst (program contents)) \<and> program contents \<noteq> []"

lemma program_vpn:
  assumes "program_ok contents" "i \<le> header_count contents" "n \<in> fst ` set (program_upto contents i)"
  shows "n < 2 ^ 35" "\<exists>j < i. p_type (program_header contents j) = PT_LOAD \<and> unat (p_vaddr (program_header contents j)) div 4096 \<le> n"
proof -
  obtain j where j: "j < i" "n \<in> fst ` set (segment_image contents (program_header contents j))"
    using assms(3) by (force simp: program_upto_def)
  then obtain k where k: "p_type (program_header contents j) = PT_LOAD" "k \<le> unat (p_memsz (program_header contents j)) div 4096"
    "n = vpn (p_vaddr (program_header contents j)) + k"
    by (auto simp: segment_image_def split: if_splits simp del: upt_Suc)
  have "segment_ok contents (program_header contents j)" using assms(1,2) j(1) by (simp add: program_ok_def)
  note v = segment_vpn [OF this k(1,2)]
  show "n < 2 ^ 35" using v k(3) by simp
  show "\<exists>j < i. p_type (program_header contents j) = PT_LOAD \<and> unat (p_vaddr (program_header contents j)) div 4096 \<le> n"
    using j(1) k v(1) by auto
qed

lemma load_segments_ok:
  fixes s0 :: "'a ustar_state_scheme"
  assumes ld: "loaded R T C ph node nd s0 [] s0" and C: "C \<in> R" and rdy: "load_ready ops node nd contents ph s0"
    and prog: "program_ok contents" and hd: "header_at contents hdr (heap_bytes s0)"
    and bufs: "\<And>i. i < 64 \<Longrightarrow> kept s0 (hdr + of_nat i) \<and> 56 \<le> unat (hdr + of_nat i - ph)" "\<And>i. i < 56 \<Longrightarrow> kept s0 (ph + of_nat i)"
    and sp: "spare (k + 4 * length (program contents)) s0"
  shows "\<exists>s'. for_range (\<lambda>i s. case read_program_header ops hdr ph node i s of
        Inl e \<Rightarrow> Inl e | Inr (p, s) \<Rightarrow> load_segment ops node C p s) [0..<header_count contents] s0 = Inr s' \<and>
      loaded R T C ph node nd s0 (program contents) s' \<and> spare k s'"
proof -
  let ?n = "header_count contents" and ?P = "program_upto contents"
  let ?Q = "\<lambda>i s. loaded R T C ph node nd s0 (?P i) s \<and> spare (k + 4 * (length (program contents) - length (?P i))) s"
  have "\<exists>s'. for_range (\<lambda>i s. case read_program_header ops hdr ph node i s of
        Inl e \<Rightarrow> Inl e | Inr (p, s) \<Rightarrow> load_segment ops node C p s) [0..<?n] s0 = Inr s' \<and> ?Q ?n s'"
  proof (rule for_range_inv [of 0 ?n ?Q])
    show "?Q 0 s0" using ld sp by (simp add: program_upto_def)
    fix i and s :: "'a ustar_state_scheme" assume i: "i < ?n" and Q: "?Q i s"
    let ?p = "program_header contents i"
    have ld: "loaded R T C ph node nd s0 (?P i) s" using Q by simp
    obtain x where x: "nodes s node = nd\<lparr>seek_position := x\<rparr>" using loaded_fields(2) [OF ld] by blast
    have "bytes_at (heap_bytes s) hdr 64 = bytes_at (heap_bytes s0) hdr 64"
      using ld bufs(1) by (intro bytes_at_cong) (simp add: loaded_def)
    then have hs: "header_at contents hdr (heap_bytes s)" using hd by (simp add: header_at_def)
    have ho: "unat (e_phoff (elf_header contents)) + 56 * ?n \<le> length contents" using prog by (simp add: program_ok_def)
    obtain bs y where bs: "length bs = 56" "read_program_header ops hdr ph node i s = Inr (?p,
        set_node node (nd\<lparr>seek_position := y\<rparr>) (s\<lparr>heap_bytes := put_bytes (heap_bytes s) ph bs\<rparr>))"
      by (rule read_program_header_ok [OF loaded_file [OF ld rdy] x hs i ho]) (use rdy in \<open>auto simp: load_ready_def\<close>)
    have pg: "\<forall>n \<in> fst ` set (?P i). n < 2 ^ 36" using program_vpn(1) [OF prog, of i] i by fastforce
    note b = loaded_buffer [OF ld C bufs(2) bs(1) pg]
    obtain ys where ys: "program contents = ?P (Suc i) @ ys" using program_upto_prefix [of "Suc i" ?n] i by (auto simp: program_def)
    have len: "length (program contents) - length (?P i) = length (segment_image contents ?p) + (length (program contents) - length (?P (Suc i)))"
      by (simp add: ys program_upto_Suc)
    have "distinct (map fst (?P i @ segment_image contents ?p))"
      using prog ys by (auto simp: program_ok_def program_upto_Suc)
    moreover have "segment_ok contents ?p" using prog i by (simp add: program_ok_def)
    moreover have "spare (k + 4 * (length (program contents) - length (?P (Suc i))) + 4 * length (segment_image contents ?p)) s"
      using Q len by (auto elim!: spare_mono)
    ultimately show "\<exists>s'. (case read_program_header ops hdr ph node i s of Inl e \<Rightarrow> Inl e
        | Inr (p, s) \<Rightarrow> load_segment ops node C p s) = Inr s' \<and> ?Q (Suc i) s'"
      using load_segment_ok [OF b(1) C rdy _ _ pg] b(2) bs(2) unfolding program_upto_Suc by simp
  qed simp
  then show ?thesis by (simp add: program_def)
qed

text \<open>Before there is a table: only the buffer is written, and the lowest address of a segment is found.\<close>

definition quiet :: "u64 \<Rightarrow> u64 \<Rightarrow> vfs_fs_node \<Rightarrow> 'a ustar_state_scheme \<Rightarrow> 'a ustar_state_scheme \<Rightarrow> bool" where
  "quiet ph node nd s1 s \<longleftrightarrow>
     (\<exists>hb x. s = s1\<lparr>heap_bytes := hb, nodes := (nodes s1)(node := nd\<lparr>seek_position := x\<rparr>)\<rparr> \<and>
        (\<forall>a. 56 \<le> unat (a - ph) \<longrightarrow> hb a = heap_bytes s1 a))"

lemma quiet_bytes: "quiet ph node nd s1 s \<Longrightarrow> 56 \<le> unat (a - ph) \<Longrightarrow> heap_bytes s a = heap_bytes s1 a"
  by (auto simp: quiet_def)

lemma lowest_segment_ok:
  fixes s1 s :: "'a ustar_state_scheme"
  assumes fl: "ustar_file ops node nd contents (heap_bytes s1)" and hd: "header_at contents hdr (heap_bytes s1)"
    and ho: "unat (e_phoff (elf_header contents)) + 56 * n \<le> length contents" and js: "\<forall>i \<in> set js. i < n"
    and off: "\<And>j. j < 512 + length contents \<Longrightarrow> 56 \<le> unat (node_private nd + of_nat j - ph)"
      "\<And>j. j < 64 \<Longrightarrow> 56 \<le> unat (hdr + of_nat j - ph)"
    and q: "quiet ph node nd s1 s"
  shows "\<exists>b s'. lowest_segment ops hdr ph node js base s = Inr (b, s') \<and> quiet ph node nd s1 s' \<and> b \<le> base \<and>
    (\<forall>i \<in> set js. p_type (program_header contents i) = PT_LOAD \<longrightarrow> b \<le> p_vaddr (program_header contents i)) \<and>
    (b = base \<or> (\<exists>i \<in> set js. p_type (program_header contents i) = PT_LOAD \<and> p_vaddr (program_header contents i) = b))"
  using js q
proof (induction js arbitrary: base s)
  case (Cons i js)
  let ?p = "program_header contents i"
  obtain x where x: "nodes s node = nd\<lparr>seek_position := x\<rparr>" using Cons.prems(2) by (auto simp: quiet_def)
  have f: "ustar_file ops node nd contents (heap_bytes s)"
    by (rule ustar_file_cong [OF fl]) (use quiet_bytes [OF Cons.prems(2)] off(1) in blast)
  have "bytes_at (heap_bytes s) hdr 64 = bytes_at (heap_bytes s1) hdr 64"
    using quiet_bytes [OF Cons.prems(2)] off(2) by (intro bytes_at_cong) simp
  then have hs: "header_at contents hdr (heap_bytes s)" using hd by (simp add: header_at_def)
  obtain bs y where bs: "length bs = 56" "read_program_header ops hdr ph node i s = Inr (?p,
      set_node node (nd\<lparr>seek_position := y\<rparr>) (s\<lparr>heap_bytes := put_bytes (heap_bytes s) ph bs\<rparr>))"
    by (rule read_program_header_ok [OF f x hs _ ho off(1), of i]) (use Cons.prems(1) in auto)
  let ?s = "set_node node (nd\<lparr>seek_position := y\<rparr>) (s\<lparr>heap_bytes := put_bytes (heap_bytes s) ph bs\<rparr>)"
  have "quiet ph node nd s1 ?s"
  proof -
    obtain hb z where s: "s = s1\<lparr>heap_bytes := hb, nodes := (nodes s1)(node := nd\<lparr>seek_position := z\<rparr>)\<rparr>"
      "\<forall>a. 56 \<le> unat (a - ph) \<longrightarrow> hb a = heap_bytes s1 a" using Cons.prems(2) by (auto simp: quiet_def)
    show ?thesis unfolding quiet_def
      by (rule exI [of _ "put_bytes hb ph bs"], rule exI [of _ y]) (use s bs(1) in \<open>simp add: set_node_def put_bytes_other\<close>)
  qed
  from Cons.IH [OF _ this, of "if p_type ?p = PT_LOAD \<and> p_vaddr ?p < base then p_vaddr ?p else base"] Cons.prems(1)
  show ?case unfolding lowest_segment.simps bs(2) by (auto split: if_splits intro: order_trans less_imp_le)
qed auto

lemma block_deallocate_lists:
  "block_allocator_lock s = 0 \<Longrightarrow> \<exists>s'. block_deallocate p s = Inr s' \<and> lists_only s s'"
  by (simp add: lists_only_def block_deallocate_def block_allocator_move_to_free_list_def block_allocator_remove_block_from_list_def Let_def
      spinlock_release_eq)

lemma ustar_close_lists:
  assumes "block_allocator_lock s = 0"
  shows "\<exists>s'. ustar_close node s = Inr s' \<and> lists_only s s'"
proof -
  have l: "lists_only s s" using assms by (simp add: lists_only_def)
  have "\<exists>s1. (if node_path (nodes s node) \<noteq> 0 then block_deallocate (node_path (nodes s node)) s else Inr s) = Inr s1 \<and> lists_only s s1"
    using block_deallocate_lists [OF assms] l by auto
  then obtain s1 where s1: "(if node_path (nodes s node) \<noteq> 0 then block_deallocate (node_path (nodes s node)) s else Inr s) = Inr s1" "lists_only s s1"
    by blast
  then have "block_allocator_lock s1 = 0" by (auto simp: lists_only_def)
  from block_deallocate_lists [OF this, of node] show ?thesis using s1 lists_only_trans by (auto simp: ustar_close_def)
qed

subsection \<open>The loader\<close>

text \<open>
  The buffers of the headers and the path of the file: no free page holds them, and they lie apart from each other and from the
  file.
\<close>

definition buffers_ok :: "u64 \<Rightarrow> u64 \<Rightarrow> vfs_fs_node \<Rightarrow> u8 list \<Rightarrow> u8 list \<Rightarrow> 'a block_state_scheme \<Rightarrow> bool" where
  "buffers_ok hdr ph nd contents name s \<longleftrightarrow>
     (\<forall>i < 64. kept s (hdr + of_nat i) \<and> unat (hdr + of_nat i) < unat (block_allocator_virtual_base s) \<and>
        56 \<le> unat (hdr + of_nat i - ph)) \<and> (\<forall>i < 56. kept s (ph + of_nat i)) \<and>
     (\<forall>i < 512 + length contents. 64 \<le> unat (node_private nd + of_nat i - hdr)) \<and>
     cstr (heap_bytes s) (node_path nd) name \<and>
     (\<forall>i \<le> length name. kept s (node_path nd + of_nat i) \<and>
        56 \<le> unat (node_path nd + of_nat i - ph) \<and> 64 \<le> unat (node_path nd + of_nat i - hdr))"

text \<open>The lowest address of a segment.\<close>

definition lowest_address :: "u8 list \<Rightarrow> u64 \<Rightarrow> bool" where
  "lowest_address contents b \<longleftrightarrow>
     (\<exists>i < header_count contents. p_type (program_header contents i) = PT_LOAD \<and> p_vaddr (program_header contents i) = b) \<and>
     (\<forall>i < header_count contents. p_type (program_header contents i) = PT_LOAD \<longrightarrow> b \<le> p_vaddr (program_header contents i))"

lemma elf_reads_headers:
  fixes s :: "'a ustar_state_scheme"
  assumes rdy: "load_ready ops node nd contents ph s" and nd: "nodes s node = nd" and bufs: "buffers_ok hdr ph nd contents name s"
    and prog: "program_ok contents"
  obtains s1 s2 hb x b where "read_at ops node 0 hdr EHDR_SIZE s = Inr s1" "read_ehdr (heap_bytes s1) hdr = elf_header contents"
    "lowest_segment ops hdr ph node [0..<header_count contents] (- 1) s1 = Inr (b, s2)" "lowest_address contents b"
    "s2 = s\<lparr>heap_bytes := hb, nodes := (nodes s)(node := nd\<lparr>seek_position := x\<rparr>)\<rparr>" "header_at contents hdr hb"
    "\<And>a. 56 \<le> unat (a - ph) \<Longrightarrow> 64 \<le> unat (a - hdr) \<Longrightarrow> hb a = heap_bytes s a"
proof -
  have fl: "ustar_file ops node nd contents (heap_bytes s)" using rdy by (simp add: load_ready_def)
  have len: "64 \<le> length contents" "length contents < 2 ^ 31" using prog fl by (simp_all add: program_ok_def ustar_file_def)
  have hf: "64 \<le> unat (node_private nd + of_nat i - hdr)" if "i < 512 + length contents" for i
    using bufs that by (simp add: buffers_ok_def)
  have off: "off_block hdr (unat EHDR_SIZE) (node_private nd + 512 + 0) (unat EHDR_SIZE)"
    unfolding off_block_def using hf [of "512 + i" for i] len by (simp add: add.assoc)
  have nd': "nodes s node = nd\<lparr>seek_position := seek_position nd\<rparr>" using nd by simp
  obtain y where rd: "read_at ops node 0 hdr EHDR_SIZE s = Inr (set_node node (nd\<lparr>seek_position := y\<rparr>)
      (s\<lparr>heap_bytes := put_bytes (heap_bytes s) hdr (take 64 contents)\<rparr>))"
    using ustar_read_at [OF fl nd' _ off] len by auto
  define s1 where "s1 = set_node node (nd\<lparr>seek_position := y\<rparr>) (s\<lparr>heap_bytes := put_bytes (heap_bytes s) hdr (take 64 contents)\<rparr>)"
  have hb1: "heap_bytes s1 = put_bytes (heap_bytes s) hdr (take 64 contents)" by (simp add: s1_def set_node_def)
  have h1: "header_at contents hdr (heap_bytes s1)" using len by (simp add: header_at_def hb1 bytes_at_put_bytes)
  have fl1: "ustar_file ops node nd contents (heap_bytes s1)"
    by (rule ustar_file_cong [OF fl]) (use hf len in \<open>simp add: hb1 put_bytes_other\<close>)
  have q1: "quiet ph node nd s1 s1" unfolding quiet_def
    by (rule exI [of _ "heap_bytes s1"], rule exI [of _ y]) (simp add: s1_def set_node_def)
  let ?n = "header_count contents" and ?p = "program_header contents"
  have ho: "unat (e_phoff (elf_header contents)) + 56 * ?n \<le> length contents" "\<forall>i \<in> set [0..<?n]. i < ?n"
    using prog by (simp_all add: program_ok_def)
  have offs: "56 \<le> unat (node_private nd + of_nat j - ph)" if "j < 512 + length contents" for j
    using rdy that by (simp add: load_ready_def)
  have offs2: "56 \<le> unat (hdr + of_nat j - ph)" if "j < 64" for j using bufs that by (simp add: buffers_ok_def)
  obtain b s2 where b: "lowest_segment ops hdr ph node [0..<?n] (- 1) s1 = Inr (b, s2)" "quiet ph node nd s1 s2"
    "\<forall>i \<in> set [0..<?n]. p_type (?p i) = PT_LOAD \<longrightarrow> b \<le> p_vaddr (?p i)"
    "b = - 1 \<or> (\<exists>i \<in> set [0..<?n]. p_type (?p i) = PT_LOAD \<and> p_vaddr (?p i) = b)"
    using lowest_segment_ok [OF fl1 h1 ho offs offs2 q1, of "- 1"] by blast
  obtain n where "n \<in> fst ` set (program_upto contents (header_count contents))"
    using prog by (cases "program contents") (auto simp: program_ok_def program_def)
  from program_vpn(2) [OF prog order_refl this]
  obtain j where j: "j < header_count contents" "p_type (program_header contents j) = PT_LOAD" by auto
  then have "p_vaddr (program_header contents j) = - 1" if "b = - 1" using b(3) that by (auto simp: word_order.extremum_unique)
  then have lo: "lowest_address contents b" using b(3,4) j unfolding lowest_address_def by auto
  obtain hb x where q: "s2 = s1\<lparr>heap_bytes := hb, nodes := (nodes s1)(node := nd\<lparr>seek_position := x\<rparr>)\<rparr>"
    "\<forall>a. 56 \<le> unat (a - ph) \<longrightarrow> hb a = heap_bytes s1 a" using b(2) by (auto simp: quiet_def)
  have "bytes_at hb hdr 64 = bytes_at (heap_bytes s1) hdr 64" using q(2) bufs by (intro bytes_at_cong) (simp add: buffers_ok_def)
  then have "header_at contents hdr hb" using h1 by (simp add: header_at_def)
  moreover have "hb a = heap_bytes s a" if "56 \<le> unat (a - ph)" "64 \<le> unat (a - hdr)" for a
    using q(2) that len by (simp add: hb1 put_bytes_other)
  ultimately show thesis
    using that [OF rd [folded s1_def] header_at_eq [OF h1 len(2)] b(1) lo, of x hb] q(1) by (simp add: s1_def set_node_def)
qed

text \<open>The new table, before anything is mapped.\<close>

lemma loaded_start:
  fixes s0 :: "'a ustar_state_scheme"
  assumes "tables_ok R T s0" "inner_layers T s0 C = {}" "\<And>n. n < 2 ^ 36 \<Longrightarrow> pt_maps (hide (upper_half T) s0) C n = None"
    "nodes s0 node = nd\<lparr>seek_position := x\<rparr>"
  shows "loaded R T C ph node nd s0 [] s0"
proof -
  have "loader_rest node nd s0 s0" unfolding loader_rest_def
    by (rule exI [of _ "memory s0"], rule exI [of _ "allocator_pools s0"], rule exI [of _ "page_allocator_lock s0"],
        rule exI [of _ "heap_bytes s0"], rule exI [of _ x]) (simp flip: assms(4))
  then show ?thesis using assms(1-3) by (simp add: loaded_def)
qed

lemma cstr_bytes:
  assumes "cstr m p cs" "\<And>i. i \<le> length cs \<Longrightarrow> m' (p + of_nat i) = m (p + of_nat i)"
  shows "cstr m' p cs"
  using assms(1) bytes_at_cong [of "length cs" m' p m] assms(2) by (simp add: cstr_iff)

text \<open>The lists of the heap are the same.\<close>

definition same_heap :: "'a block_state_scheme \<Rightarrow> 'a block_state_scheme \<Rightarrow> bool" where
  "same_heap s s' \<longleftrightarrow>
     headers s' = headers s \<and> block_free_list_start s' = block_free_list_start s \<and> block_busy_list_start s' = block_busy_list_start s \<and>
     block_allocator_lock s' = block_allocator_lock s \<and> block_allocator_virtual_base s' = block_allocator_virtual_base s \<and>
     block_allocator_current_virtual_address s' = block_allocator_current_virtual_address s \<and> kernel_hhdm_offset s' = kernel_hhdm_offset s"

lemma same_heap_inv: "same_heap s s' \<Longrightarrow> block_inv s' fs bs = block_inv s fs bs"
  by (simp add: same_heap_def block_inv_def block_lists_def)

lemma elf_new_table:
  fixes s :: "'a ustar_state_scheme"
  assumes ok: "tables_ok R {} s" "unat (arch_bootstrap_page_table s) \<in> frames s" and sp: "spare (Suc k) s"
    and rdy: "load_ready ops node nd contents ph s" and bufs: "buffers_ok hdr ph nd contents name s"
    and s2: "s2 = s\<lparr>heap_bytes := hb, nodes := (nodes s)(node := nd\<lparr>seek_position := x\<rparr>)\<rparr>" and hd: "header_at contents hdr hb"
    and hb: "\<And>a. 56 \<le> unat (a - ph) \<Longrightarrow> 64 \<le> unat (a - hdr) \<Longrightarrow> hb a = heap_bytes s a"
    and sch: "schedulers_ok ds s"
  obtains C s3 s0 where "arch_table_manager_new s2 = Inr (C, s3)"
    "s0 = s3\<lparr>memory := share_higher_half C (arch_bootstrap_page_table s3) (memory s3)\<rparr>" "spare k s0"
    "unat C \<notin> frames s" "frames s0 = insert (unat C) (frames s)" "pool_bounds s0 = pool_bounds s"
    "loaded (insert C R) {C} C ph node nd s0 [] s0" "load_ready ops node nd contents ph s0" "header_at contents hdr (heap_bytes s0)"
    "buffers_ok hdr ph nd contents name s0" "schedulers_ok ds s0" "same_heap s s0" "queue_of s0 = queue_of s" "tasks s0 = tasks s"
    "\<forall>f j. unat f \<in> frames s \<longrightarrow> unat j < 512 \<longrightarrow> memory s0 (f + 8 * j) = memory s (f + 8 * j)"
    "\<forall>j. 256 \<le> unat j \<longrightarrow> unat j < 512 \<longrightarrow> memory s0 (C + 8 * j) = memory s (arch_bootstrap_page_table s + 8 * j)"
proof -
  have q: "same_tables R {} s s2" "frames s2 = frames s" "spare (Suc k) s2" using same_tables_same [OF ok(1), of s2] sp by (simp_all add: s2)
  have ok2: "tables_ok R {} s2" and boot2: "unat (arch_bootstrap_page_table s2) \<in> frames s2"
    using q ok(2) by (simp_all add: same_tables_def s2)
  obtain C s3 s0 where c: "arch_table_manager_new s2 = Inr (C, s3)"
    "s0 = s3\<lparr>memory := share_higher_half C (arch_bootstrap_page_table s3) (memory s3)\<rparr>"
    "kernel_hhdm_offset s0 = kernel_hhdm_offset s2" "C \<notin> R" "unat C \<notin> frames s2" "frames s0 = insert (unat C) (frames s2)"
    "tables_ok (insert C R) {C} s0" "spare k s0" "inner_layers {C} s0 C = {}"
    "\<And>n. n < 2 ^ 36 \<Longrightarrow> pt_maps (hide (upper_half {C}) s0) C n = None"
    "\<And>r n. r \<in> R \<Longrightarrow> n < 2 ^ 36 \<Longrightarrow> pt_maps (hide (upper_half {C}) s0) r n = pt_maps (hide (upper_half {}) s2) r n"
    "\<And>f j. unat f \<in> frames s2 \<Longrightarrow> unat j < 512 \<Longrightarrow> memory s0 (f + 8 * j) = memory s2 (f + 8 * j)"
    "\<And>j. 256 \<le> unat j \<Longrightarrow> unat j < 512 \<Longrightarrow> memory s0 (C + 8 * j) = memory s2 (arch_bootstrap_page_table s2 + 8 * j)"
    by (rule clone_root [OF ok2 boot2 q(3)]) (rule that)
  have a: "page_allocate 1 s2 = Inr (C, s3)" using c(1) by (simp add: arch_table_manager_new_def)
  have pf: "page_frame s0 = page_frame s2" using page_allocate_frame [OF a] by (simp add: c(2) page_frame_def)
  note e0 = page_frame_eq [OF pf]
  have f0: "heap_bytes s0 = hb" "nodes s0 node = nd\<lparr>seek_position := x\<rparr>" "block_allocator_virtual_base s0 = block_allocator_virtual_base s" by (subst e0, simp add: s2)+
  have bd: "pool_bounds s0 = pool_bounds s" using page_allocate_bounds [OF a] by (simp add: c(2) s2 pool_bounds_def)
  have fr: "frames s0 = insert (unat C) (frames s)" using c(6) q(2) by simp
  have kp: "kept s0 a" if "kept s a" for a by (rule kept_mono [OF that bd]) (use fr in auto)
  have "ustar_file ops node nd contents (heap_bytes s)" using rdy by (simp add: load_ready_def)
  then have "ustar_file ops node nd contents hb"
    by (rule ustar_file_cong) (use rdy bufs hb in \<open>simp add: load_ready_def buffers_ok_def\<close>)
  then have r0: "load_ready ops node nd contents ph s0" using rdy kp by (simp add: load_ready_def f0)
  have "cstr hb (node_path nd) name" by (rule cstr_bytes [of "heap_bytes s"]) (use bufs hb in \<open>auto simp: buffers_ok_def\<close>)
  then have b0: "buffers_ok hdr ph nd contents name s0" using bufs kp by (simp add: buffers_ok_def f0)
  have ld: "loaded (insert C R) {C} C ph node nd s0 [] s0" by (rule loaded_start [OF c(7,9,10) f0(2)])
  have g0: "tasks s0 = tasks s" "contexts s0 = contexts s" "cpu_contexts s0 = cpu_contexts s" "last_context s0 = last_context s"
    "last_id_lock s0 = last_id_lock s" "gs_base s0 = gs_base s" "gs_kernel_base s0 = gs_kernel_base s"
    by (subst e0, simp add: s2)+
  have sh: "same_heap s s0" unfolding same_heap_def by (subst (1 2 3 4 5 6 7) e0) (simp add: s2)
  have sch0: "schedulers_ok ds s0" by (rule schedulers_ok_mono [OF sch _ g0]) (use fr in auto)
  have qs: "queue_of s0 = queue_of s" by (simp add: fun_eq_iff queue_of_def g0)
  show thesis
    by (rule that [OF c(1,2,8) _ fr bd ld r0 _ b0 sch0 sh qs g0(1)]) (use c(5,12,13) q(2) hd f0(1) in \<open>simp_all add: s2\<close>)
qed

text \<open>
  What a program finds: its pages, a stack below them, nothing else in the user half, and the kernel's half. All its pages were free
  before, and no page has two places.
\<close>

definition program_in_memory :: "u8 list \<Rightarrow> u64 \<Rightarrow> u64 \<Rightarrow> 'a block_state_scheme \<Rightarrow> 'a block_state_scheme \<Rightarrow> bool" where
  "program_in_memory contents table base s s' \<longleftrightarrow>
     (\<forall>(n, bs) \<in> set (program contents). \<exists>page. pt_maps s' table n = Some (page - kernel_hhdm_offset s) \<and>
        unat page \<in> frames s' - frames s \<and> bytes_at (heap_bytes s') page 4096 = bs) \<and>
     (\<exists>page. pt_maps s' table (vpn (base - PAGE)) = Some (page - kernel_hhdm_offset s) \<and> unat page \<in> frames s' - frames s) \<and>
     (\<forall>n < 2 ^ 35. n \<notin> fst ` set (program contents) \<longrightarrow> n \<noteq> vpn (base - PAGE) \<longrightarrow> pt_maps s' table n = None) \<and>
     inj_on (pt_maps s' table) (user_pages table s') \<and>
     (\<forall>j. 256 \<le> unat j \<longrightarrow> unat j < 512 \<longrightarrow> memory s' (table + 8 * j) = memory s (arch_bootstrap_page_table s + 8 * j)) \<and>
     (\<forall>f j. unat f \<in> frames s \<longrightarrow> unat j < 512 \<longrightarrow> memory s' (f + 8 * j) = memory s (f + 8 * j))"

text \<open>
  What the program reads at its own addresses: a byte of the page its table maps. After loading, a segment's memory holds the
  segment's part of the file, byte by byte, and zeros behind.
\<close>

definition user_byte :: "u64 \<Rightarrow> u64 \<Rightarrow> u64 \<Rightarrow> 'a block_state_scheme \<Rightarrow> u8 option" where
  "user_byte hhdm table va s = map_option (\<lambda>b. heap_bytes s (b + hhdm + va mod PAGE)) (pt_maps s table (vpn va))"

definition segment_loaded :: "u8 list \<Rightarrow> Elf64_Phdr \<Rightarrow> u64 \<Rightarrow> u64 \<Rightarrow> 'a block_state_scheme \<Rightarrow> bool" where
  "segment_loaded contents p hhdm table s \<longleftrightarrow>
     (\<forall>x < unat (p_memsz p). user_byte hhdm table (p_vaddr p + of_nat x) s =
        Some (if x < unat (p_filesz p) then contents ! (unat (p_offset p) + x) else 0))"

lemma page_image_nth:
  assumes "page_fits contents p i" "j < 4096"
  shows "page_image contents p i ! j =
    (if unat i + j < unat (p_filesz p) then contents ! (unat (p_offset p) + (unat i + j)) else 0)"
  using assms by (auto simp: page_image_def page_fits_def Let_def nth_append add.assoc)

lemma segment_loaded_program:
  assumes prog: "program_ok contents" and i: "i < header_count contents" "p = program_header contents i" "p_type p = PT_LOAD"
    and mem: "program_in_memory contents table base s s'"
  shows "segment_loaded contents p (kernel_hhdm_offset s) table s'"
  unfolding segment_loaded_def
proof (intro allI impI)
  fix x assume x: "x < unat (p_memsz p)"
  have seg: "segment_ok contents p" using prog i by (simp add: program_ok_def)
  then have v: "4096 dvd unat (p_vaddr p)" "unat (p_vaddr p) + unat (p_memsz p) < 2 ^ 47" using i(3) by (simp_all add: segment_ok_def)
  have k: "x div 4096 \<le> unat (p_memsz p) div 4096" using x by (intro div_le_mono) simp
  have "(vpn (p_vaddr p) + x div 4096, page_image contents p (of_nat (x div 4096) * PAGE)) \<in> set (program contents)"
    using i k by (force simp: program_def program_upto_def segment_image_def simp del: upt_Suc)
  then obtain page where m: "pt_maps s' table (vpn (p_vaddr p) + x div 4096) = Some (page - kernel_hhdm_offset s)"
    and b: "bytes_at (heap_bytes s') page 4096 = page_image contents p (of_nat (x div 4096) * PAGE)"
    using bspec [OF conjunct1 [OF mem [unfolded program_in_memory_def]]] by fastforce
  have u: "unat (p_vaddr p + of_nat x) = unat (p_vaddr p) + x"
    using v(2) x by (subst unat_plus_exact) (simp_all add: unat_of_nat_exact)
  obtain q where q: "unat (p_vaddr p) = 4096 * q" using v(1) by (auto elim: dvdE)
  have vp: "vpn (p_vaddr p + of_nat x) = vpn (p_vaddr p) + x div 4096"
    using v(2) x by (subst (1 2) user_vpn) (simp_all add: u q)
  have "unat ((p_vaddr p + of_nat x) mod PAGE) = x mod 4096" by (simp add: unat_mod u q)
  then have off: "(p_vaddr p + of_nat x) mod PAGE = of_nat (x mod 4096)" by (simp add: u64_eq_unat_iff unat_of_nat_exact del: of_nat_mod)
  have "heap_bytes s' (page + of_nat (x mod 4096)) = page_image contents p (of_nat (x div 4096) * PAGE) ! (x mod 4096)"
    using nth_bytes_at [of "x mod 4096" 4096 "heap_bytes s'" page] b by simp
  also have "\<dots> = (if x < unat (p_filesz p) then contents ! (unat (p_offset p) + x) else 0)"
    using page_image_nth [OF segment_page(2) [OF seg i(3) k], of "x mod 4096"] segment_page(1) [OF seg i(3) k] by simp
  finally show "user_byte (kernel_hhdm_offset s) table (p_vaddr p + of_nat x) s' =
      Some (if x < unat (p_filesz p) then contents ! (unat (p_offset p) + x) else 0)"
    by (simp add: user_byte_def vp m off)
qed

lemma program_final:
  fixes s s0 s5 s' :: "'a ustar_state_scheme"
  assumes ld: "loaded R T C ph node nd s0 (program contents @ [(vpn (base - PAGE), xs)]) s5" and C: "C \<in> R"
    and q: "quiet_step R T s5 s'" and P: "\<forall>n \<in> fst ` set (program contents). n < 2 ^ 35" "vpn (base - PAGE) < 2 ^ 35"
    and s0: "frames s0 = insert (unat C) (frames s)" "unat C \<notin> frames s" "kernel_hhdm_offset s0 = kernel_hhdm_offset s"
      "\<forall>f j. unat f \<in> frames s \<longrightarrow> unat j < 512 \<longrightarrow> memory s0 (f + 8 * j) = memory s (f + 8 * j)"
      "\<forall>j. 256 \<le> unat j \<longrightarrow> unat j < 512 \<longrightarrow> memory s0 (C + 8 * j) = memory s (arch_bootstrap_page_table s + 8 * j)"
    and pools: "list_all (\<lambda>(lo, hi). hi \<le> unat (block_allocator_virtual_base s5)) (pool_bounds s5)"
  shows "program_in_memory contents C base s s'"
proof -
  let ?P = "program contents @ [(vpn (base - PAGE), xs)]" and ?H = "upper_half T"
  have ff: "frames s0 \<subseteq> frames s5" and mem: "\<And>f j. unat f \<in> frames s0 \<Longrightarrow> unat j < 512 \<Longrightarrow> f \<noteq> C \<or> 256 \<le> unat j \<Longrightarrow> memory s5 (f + 8 * j) = memory s0 (f + 8 * j)"
    and none: "\<And>n. n < 2 ^ 36 \<Longrightarrow> n \<notin> fst ` set ?P \<Longrightarrow> pt_maps (hide ?H s5) C n = None"
    and inj: "\<And>n n' b. n < 2 ^ 36 \<Longrightarrow> n' < 2 ^ 36 \<Longrightarrow> pt_maps (hide ?H s5) C n = Some b \<Longrightarrow> pt_maps (hide ?H s5) C n' = Some b \<Longrightarrow> n = n'"
    and pages: "\<And>n bs. (n, bs) \<in> set ?P \<Longrightarrow> page_loaded T C s0 s5 n bs"
    using ld unfolding loaded_def by blast+
  have st: "same_tables R T s5 s'" and by5: "\<And>a. unat a < unat (block_allocator_virtual_base s5) \<Longrightarrow> heap_bytes s' a = heap_bytes s5 a"
    using q by (simp_all add: quiet_step_def)
  have ok': "tables_ok R T s'" and f5: "frames s5 \<subseteq> frames s'"
    and mem': "\<And>f j. unat f \<in> frames s5 \<Longrightarrow> unat j < 512 \<Longrightarrow> memory s' (f + 8 * j) = memory s5 (f + 8 * j)"
    using st by (simp_all add: same_tables_def)
  note iv = loaded_fields(3) [OF ld]
  have below: "heap_bytes s' a = heap_bytes s5 a" if f: "f \<in> frames s5 - frames s0" "f \<le> unat a" "unat a < f + 4096" for f a
  proof (rule by5)
    obtain p where p: "p \<in> set (allocator_pools s5)" "f + 4096 \<le> pool_hi p" using frame_in_pool [OF iv, of f] f(1) by auto
    then have "pool_hi p \<le> unat (block_allocator_virtual_base s5)" using pools by (auto simp: list_all_iff pool_bounds_def)
    then show "unat a < unat (block_allocator_virtual_base s5)" using p(2) f(3) by simp
  qed
  have maps: "pt_maps s' C n = pt_maps (hide ?H s5) C n" if "n < 2 ^ 35" for n
    using user_maps [OF ok' C that] st C that by (simp add: same_tables_def)
  have pl: "\<exists>page. pt_maps s' C n = Some (page - kernel_hhdm_offset s) \<and> unat page \<in> frames s' - frames s \<and> bytes_at (heap_bytes s') page 4096 = bs"
    if n: "(n, bs) \<in> set ?P" for n bs
  proof -
    have lt: "n < 2 ^ 35" using P n by force
    then have "page_loaded T C s0 s' n bs" using page_loaded_same [OF pages [OF n] st C _ iv below] by simp
    then obtain b where "pt_maps (hide ?H s') C n = Some b" "unat (b + kernel_hhdm_offset s) \<in> frames s' - frames s"
      "bytes_at (heap_bytes s') (b + kernel_hhdm_offset s) 4096 = bs"
      using s0(1,3) by (auto simp: page_loaded_def)
    then show ?thesis using user_maps [OF ok' C lt] by (intro exI [of _ "b + kernel_hhdm_offset s"]) simp
  qed
  have "inj_on (pt_maps s' C) (user_pages C s')"
  proof (rule inj_onI)
    fix n n' assume "n \<in> user_pages C s'" "n' \<in> user_pages C s'" "pt_maps s' C n = pt_maps s' C n'"
    then obtain b where "n < 2 ^ 35" "n' < 2 ^ 35" "pt_maps s' C n = Some b" "pt_maps s' C n' = Some b" by (auto simp: user_pages_def)
    then show "n = n'" using inj [of n n' b] maps by simp
  qed
  moreover have "memory s' (f + 8 * j) = memory s (f + 8 * j)" if "unat f \<in> frames s" "unat j < 512" for f j
    using mem' [of f j] mem [of f j] that s0(1,2,4) ff by (auto simp: subset_iff)
  moreover have "memory s' (C + 8 * j) = memory s (arch_bootstrap_page_table s + 8 * j)" if "256 \<le> unat j" "unat j < 512" for j
    using mem' [of C j] mem [of C j] that s0(1,5) ff by auto
  moreover have "pt_maps s' C n = None" if "n < 2 ^ 35" "n \<notin> fst ` set (program contents)" "n \<noteq> vpn (base - PAGE)" for n
    using none [of n] maps [OF that(1)] that by auto
  moreover have "\<exists>page. pt_maps s' C (vpn (base - PAGE)) = Some (page - kernel_hhdm_offset s) \<and> unat page \<in> frames s' - frames s"
    using pl [of "vpn (base - PAGE)" xs] by auto
  ultimately show ?thesis using pl unfolding program_in_memory_def by auto
qed

text \<open>The stack page lies just below the program.\<close>

lemma stack_page:
  assumes prog: "program_ok contents" and lo: "lowest_address contents base"
  shows "vpn (base - PAGE) < 2 ^ 35" "vpn (base - PAGE) \<notin> fst ` set (program contents)"
proof -
  obtain i where i: "i < header_count contents" "p_type (program_header contents i) = PT_LOAD" "p_vaddr (program_header contents i) = base"
    using lo by (auto simp: lowest_address_def)
  then have b: "4096 \<le> unat base" "unat base < 2 ^ 47" using prog by (auto simp: program_ok_def segment_ok_def)
  then have u: "unat (base - PAGE) = unat base - 4096" by (subst unat_sub) (simp_all add: word_le_nat_alt)
  then have v: "vpn (base - PAGE) = (unat base - 4096) div 4096" using b by (subst user_vpn) simp_all
  then show "vpn (base - PAGE) < 2 ^ 35" using b by simp
  show "vpn (base - PAGE) \<notin> fst ` set (program contents)"
  proof
    assume "vpn (base - PAGE) \<in> fst ` set (program contents)"
    from program_vpn(2) [OF prog order_refl this [unfolded program_def]]
    obtain j where j: "j < header_count contents" "p_type (program_header contents j) = PT_LOAD"
      "unat (p_vaddr (program_header contents j)) div 4096 \<le> vpn (base - PAGE)" by blast
    then have "base \<le> p_vaddr (program_header contents j)" using lo by (simp add: lowest_address_def)
    then have "unat base div 4096 \<le> vpn (base - PAGE)" using j(3) by (meson div_le_mono le_trans word_le_nat_alt)
    moreover have "(unat base - 4096) div 4096 < unat base div 4096" using b(1) by (simp add: div_less_iff_less_mult le_div_geq)
    ultimately show False using v by simp
  qed
qed

text \<open>A task that starts the program.\<close>

definition ready_task :: "u8 list \<Rightarrow> u8 list \<Rightarrow> u64 \<Rightarrow> u64 \<Rightarrow> u64 \<Rightarrow> 'a sched_state_scheme \<Rightarrow> bool" where
  "ready_task contents name table base task s \<longleftrightarrow>
     task_state (tasks s task) = zero_cpu_state\<lparr>reg_cr3 := table - kernel_hhdm_offset s, reg_rip := e_entry (elf_header contents),
       reg_rflags := 0x202, reg_rsp := base - 8, reg_cs := 8 * 4 OR 3, reg_ss := 8 * 3 OR 3\<rparr> \<and>
     virtual_stack_top (tasks s task) = base \<and> runnable (tasks s task) \<and>
     bytes_at (heap_bytes s) (task_name (tasks s task)) (length name) = name"

lemma elf_stack:
  fixes s0 s :: "'a ustar_state_scheme"
  assumes ld: "loaded R T C ph node nd s0 (program contents) s" and C: "C \<in> R" and prog: "program_ok contents"
    and lo: "lowest_address contents base" and sp: "spare (k + 4) s"
  obtains stack s1 s2 xs where "page_allocate 1 s = Inr (stack, s1)"
    "arch_table_manager_map C (base - PAGE) (stack - kernel_hhdm_offset s1) flags s1 = Inr s2" "spare k s2"
    "loaded R T C ph node nd s0 (program contents @ [(vpn (base - PAGE), xs)]) s2"
proof -
  have P: "\<forall>n \<in> fst ` set (program contents). n < 2 ^ 36" using program_vpn(1) [OF prog order_refl] by (fastforce simp: program_def)
  obtain c s1 s2 where a: "page_allocate 1 s = Inr (c, s1)" "kernel_hhdm_offset s1 = kernel_hhdm_offset s"
    "arch_table_manager_map C (base - PAGE) (c - kernel_hhdm_offset s1) flags (s1\<lparr>heap_bytes := heap_bytes s\<rparr>) = Inr s2" "spare k s2"
    "heap_bytes s1 = heap_bytes s" "heap_bytes s2 = heap_bytes s" "nodes s2 = nodes s"
    and fin: "\<And>m x. \<forall>a. 4096 \<le> unat (a - c) \<longrightarrow> m a = heap_bytes s a \<Longrightarrow>
       loaded R T C ph node nd s0 (program contents @ [(vpn (base - PAGE), bytes_at m c 4096)])
         (s2\<lparr>heap_bytes := m, nodes := (nodes s)(node := nd\<lparr>seek_position := x\<rparr>)\<rparr>) \<and> spare k
         (s2\<lparr>heap_bytes := m, nodes := (nodes s)(node := nd\<lparr>seek_position := x\<rparr>)\<rparr>)"
    by (rule loaded_map [OF ld C stack_page [OF prog lo] P sp, of flags "\<lambda>_. heap_bytes s"]) (rule that)
  obtain x where x: "nodes s node = nd\<lparr>seek_position := x\<rparr>" using loaded_fields(2) [OF ld] by blast
  have "s2\<lparr>heap_bytes := heap_bytes s, nodes := (nodes s)(node := nd\<lparr>seek_position := x\<rparr>)\<rparr> = s2" using a(6,7) by (simp flip: x)
  moreover have "s1\<lparr>heap_bytes := heap_bytes s\<rparr> = s1" using a(5) by simp
  ultimately show thesis using that [OF a(1) _ a(4)] a(3) fin [of "heap_bytes s" x] by metis
qed

text \<open>The end of the loader: the task is created and gets its registers, and the file is closed.\<close>

definition start_task :: "u64 \<Rightarrow> u64 \<Rightarrow> u64 \<Rightarrow> u64 \<Rightarrow> scheduler_task \<Rightarrow> scheduler_task" where
  "start_task table hhdm entry stack_base t =
     t\<lparr>task_state := (task_state t)\<lparr>reg_cr3 := table - hhdm, reg_rip := entry, reg_rflags := 0x202,
         reg_rsp := stack_base + PAGE - 8, reg_cs := 8 * 4 OR 3, reg_ss := 8 * 3 OR 3\<rparr>,
       virtual_stack_top := stack_base + PAGE, task_empty := False\<rparr>"

lemma elf_task:
  fixes s0 s :: "'a ustar_state_scheme"
  assumes ld: "loaded R T C ph node nd s0 P s" and sp: "spare 3 s" and b: "buffers_ok hdr ph nd contents name s0" "length name \<le> 4048"
    and hd: "header_at contents hdr (heap_bytes s0)" and rdy: "load_ready ops node nd contents ph s0"
    and inv: "block_inv s0 fs bs" "\<exists>x \<in> set fs. round_block_size (of_nat (length name)) \<le> block_size (headers s0 x)" and sch: "schedulers_ok ds s0"
  obtains n task s1 d xs s' where "strlen (heap_bytes s) (node_path (nodes s node)) = Some n"
    "bytes_at (heap_bytes s) (node_path (nodes s node)) (unat n) = name" "task_scheduler_round_robin_create name s = Inr (task, s1)"
    "vfs_close ops node (upd_task task (start_task C (kernel_hhdm_offset s1) (e_entry (read_ehdr (heap_bytes s1) hdr)) (base - PAGE)) s1) = Inr s'"
    "quiet_step R T s s'" "ready_task contents name C base task s'" "d \<in> set ds" "queue_rep d s0 xs" "queue_rep d s' (xs @ [task])"
proof -
  have ok: "tables_ok R T s" and ff: "frames s0 \<subseteq> frames s" and rest: "loader_rest node nd s0 s"
    and by0: "\<And>a. kept s0 a \<Longrightarrow> 56 \<le> unat (a - ph) \<Longrightarrow> heap_bytes s a = heap_bytes s0 a"
    using ld unfolding loaded_def by blast+
  have f: "headers s = headers s0" "block_free_list_start s = block_free_list_start s0" "block_busy_list_start s = block_busy_list_start s0"
    "block_allocator_lock s = block_allocator_lock s0" "block_allocator_virtual_base s = block_allocator_virtual_base s0"
    "block_allocator_current_virtual_address s = block_allocator_current_virtual_address s0"
    and g: "tasks s = tasks s0" "contexts s = contexts s0" "cpu_contexts s = cpu_contexts s0" "last_context s = last_context s0"
    "last_id_lock s = last_id_lock s0" "gs_base s = gs_base s0" "gs_kernel_base s = gs_kernel_base s0"
    using rest by (auto simp: loader_rest_def)
  obtain x where x: "nodes s node = nd\<lparr>seek_position := x\<rparr>" using loaded_fields(2) [OF ld] by blast
  have cs: "cstr (heap_bytes s) (node_path nd) name"
    by (rule cstr_bytes [of "heap_bytes s0"]) (use b(1) by0 in \<open>auto simp: buffers_ok_def\<close>)
  have bi: "block_inv s fs bs" "\<exists>x \<in> set fs. round_block_size (of_nat (length name)) \<le> block_size (headers s x)"
    using inv by (simp_all add: block_inv_def block_lists_def f)
  have sch': "schedulers_ok ds s" by (rule schedulers_ok_mono [OF sch ff g])
  obtain task s1 d xs t where s1: "task_scheduler_round_robin_create name s = Inr (task, s1)" "quiet_step R T s s1"
    "unat task \<in> frames s1 - frames s" "block_allocator_lock s1 = 0" "sched_state.more s1 = sched_state.more s"
    "tasks s1 task = t" "task_state t = zero_cpu_state" "run_mode t = 0" "bytes_at (heap_bytes s1) (task_name t) (length name) = name"
    "d \<in> set ds" "queue_rep d s xs" "queue_rep d s1 (xs @ [task])"
    by (rule create_ok [OF ok _ bi(1) b(2) bi(2) sch', of 0]) (use sp that in simp_all)
  have ok1: "tables_ok R T s1" and h1: "kernel_hhdm_offset s1 = kernel_hhdm_offset s" using s1(2) by (simp_all add: quiet_step_def same_tables_def)
  have "bytes_at (heap_bytes s1) hdr 64 = bytes_at (heap_bytes s0) hdr 64"
    using b(1) by0 s1(2) by (intro bytes_at_cong) (simp add: buffers_ok_def quiet_step_def f)
  then have "header_at contents hdr (heap_bytes s1)" using hd by (simp add: header_at_def)
  then have eh: "read_ehdr (heap_bytes s1) hdr = elf_header contents"
    by (rule header_at_eq) (use rdy in \<open>simp add: load_ready_def ustar_file_def\<close>)
  define u where "u = upd_task task (start_task C (kernel_hhdm_offset s1) (e_entry (elf_header contents)) (base - PAGE)) s1"
  have nu: "nodes u node = nd\<lparr>seek_position := x\<rparr>" using s1(5) x by (cases s; cases s1) (simp add: u_def upd_task_def)
  obtain s' where s': "ustar_close node u = Inr s'" "lists_only u s'"
    using ustar_close_lists [of u node] s1(4) by (auto simp: u_def upd_task_def)
  have cl: "vfs_close ops node u = Inr s'" using rdy nu s'(1) by (simp add: vfs_close_def ustar_def load_ready_def ustar_file_def)
  have q: "quiet_step R T s1 s'" using quiet_step_same(1) [OF ok1, of s'] s'(2) by (simp add: lists_only_def u_def upd_task_def)
  have more: "block_state.more s' = block_state.more u" using s'(2) by (simp add: lists_only_def)
  have t': "tasks s' = tasks u" "contexts s' = contexts s1" using sched_fields_more [OF more] by (simp_all add: u_def upd_task_def)
  have "ready_task contents name C base task s'"
    using s1(6-9) s'(2) by (simp add: ready_task_def t' u_def upd_task_def start_task_def runnable_def lists_only_def)
  moreover have "queue_rep d s' (xs @ [task]) = queue_rep d s1 (xs @ [task])"
    by (rule queue_rep_cong) (simp_all add: queue_of_def t' u_def upd_task_def start_task_def)
  moreover have "queue_rep d s0 xs" using s1(11) queue_rep_cong [of s d s0 xs] g by (simp add: queue_of_def)
  moreover have "unat (of_nat (length name) :: u64) = length name" using b(2) by (simp add: unat_of_nat_exact)
  ultimately show thesis
    using that [of "of_nat (length name)" task s1 s' d xs] strlen_cstr [OF cs] cs x s1(1,10,12) cl eh quiet_step_trans [OF s1(2) q]
    by (simp add: cstr_iff u_def)
qed

text \<open>
  (C6) Loading a program. The heap and the run queues are in order, the heap has a block for the name and the pools have the pages
  (one for the table, three for the task, four for every page to map). The executable is a file of the ramdisk; its segments start at
  pages of the user half, do not share pages, have their bytes in the file, and need no zeroed page behind the one where the
  file's part ends (the loader fills such a page with foreign bytes). It is then loaded: every byte of a segment that the new table's
  owner reads is the byte of the file at that place of the segment, or zero behind the file's part; every page of a segment is a page
  that was free; one more page below the lowest segment is the stack; nothing else of the user half is mapped, and the upper half
  is the kernel's. No word of a page that was in use has changed. A task with this table, the entry point and this stack, named
  after the file, can run and waits at the end of a run queue.
\<close>

theorem elf_loads_program:
  fixes s :: "'a ustar_state_scheme"
  assumes heap: "heap_ok R s fs bs" "\<exists>x \<in> set fs. round_block_size (of_nat (length name)) \<le> block_size (headers s x)"
    "list_all (\<lambda>(lo, hi). hi \<le> unat (block_allocator_virtual_base s)) (pool_bounds s)"
    and fl: "load_ready ops node nd contents ph s" "nodes s node = nd" "buffers_ok hdr ph nd contents name s" "length name \<le> 4048"
    and prog: "program_ok contents" and sch: "schedulers_ok ds s" and sp: "spare (8 + 4 * length (program contents)) s"
  shows "\<exists>table base task d xs s'. elf_load_from ops hdr ph node s = Inr (True, s') \<and> lowest_address contents base \<and>
    (\<forall>i < header_count contents. p_type (program_header contents i) = PT_LOAD \<longrightarrow>
       segment_loaded contents (program_header contents i) (kernel_hhdm_offset s) table s') \<and>
    program_in_memory contents table base s s' \<and> ready_task contents name table base task s' \<and>
    d \<in> set ds \<and> queue_rep d s xs \<and> queue_rep d s' (xs @ [task])"
proof -
  have ok: "tables_ok R {} s" "unat (arch_bootstrap_page_table s) \<in> frames s" and inv: "block_inv s fs bs"
    using heap(1) pt_inv_frame [of R s "arch_bootstrap_page_table s" "[]" "arch_bootstrap_page_table s"]
    by (simp_all add: heap_ok_def tables_ok_def hide_def upper_half_def)
  obtain s1 s2 hb x base where h: "read_at ops node 0 hdr EHDR_SIZE s = Inr s1" "read_ehdr (heap_bytes s1) hdr = elf_header contents"
    "lowest_segment ops hdr ph node [0..<header_count contents] (- 1) s1 = Inr (base, s2)" and lo: "lowest_address contents base"
    and s2: "s2 = s\<lparr>heap_bytes := hb, nodes := (nodes s)(node := nd\<lparr>seek_position := x\<rparr>)\<rparr>" and hd: "header_at contents hdr hb"
    and hb: "\<And>a. 56 \<le> unat (a - ph) \<Longrightarrow> 64 \<le> unat (a - hdr) \<Longrightarrow> hb a = heap_bytes s a"
    by (rule elf_reads_headers [OF fl(1-3) prog]) (rule that)
  have "spare (Suc (7 + 4 * length (program contents))) s" using sp by simp
  from elf_new_table [OF ok this fl(1,3) s2 hd hb sch]
  obtain C s3 s0 where c: "arch_table_manager_new s2 = Inr (C, s3)"
    "s0 = s3\<lparr>memory := share_higher_half C (arch_bootstrap_page_table s3) (memory s3)\<rparr>" "spare (7 + 4 * length (program contents)) s0"
    "unat C \<notin> frames s" "frames s0 = insert (unat C) (frames s)" "pool_bounds s0 = pool_bounds s"
    and ld0: "loaded (insert C R) {C} C ph node nd s0 [] s0" and r0: "load_ready ops node nd contents ph s0"
    and hd0: "header_at contents hdr (heap_bytes s0)" and b0: "buffers_ok hdr ph nd contents name s0"
    and sch0: "schedulers_ok ds s0" and sh: "same_heap s s0" and qs: "queue_of s0 = queue_of s" "tasks s0 = tasks s"
    and mem: "\<forall>f j. unat f \<in> frames s \<longrightarrow> unat j < 512 \<longrightarrow> memory s0 (f + 8 * j) = memory s (f + 8 * j)"
      "\<forall>j. 256 \<le> unat j \<longrightarrow> unat j < 512 \<longrightarrow> memory s0 (C + 8 * j) = memory s (arch_bootstrap_page_table s + 8 * j)"
    by metis
  have C: "C \<in> insert C R" by simp
  obtain s4 where s4: "for_range (\<lambda>i s. case read_program_header ops hdr ph node i s of
        Inl e \<Rightarrow> Inl e | Inr (p, s) \<Rightarrow> load_segment ops node C p s) [0..<header_count contents] s0 = Inr s4"
    and ld4: "loaded (insert C R) {C} C ph node nd s0 (program contents) s4" and sp4: "spare 7 s4"
    using load_segments_ok [OF ld0 C r0 prog hd0 _ _ c(3)] b0 by (auto simp: buffers_ok_def)
  have sp7: "spare (3 + 4) s4" using sp4 by simp
  obtain stack s5a s5 zs where s5: "page_allocate 1 s4 = Inr (stack, s5a)"
    "arch_table_manager_map C (base - PAGE) (stack - kernel_hhdm_offset s5a) (TABLE_ENTRY_USER OR TABLE_ENTRY_READ_WRITE OR TABLE_ENTRY_NO_EXECUTE)
       s5a = Inr s5" "spare 3 s5" and ld5: "loaded (insert C R) {C} C ph node nd s0 (program contents @ [(vpn (base - PAGE), zs)]) s5"
    by (rule elf_stack [OF ld4 C prog lo sp7]) (rule that)
  have inv0: "block_inv s0 fs bs" "\<exists>x \<in> set fs. round_block_size (of_nat (length name)) \<le> block_size (headers s0 x)"
    and f0: "kernel_hhdm_offset s0 = kernel_hhdm_offset s" "block_allocator_virtual_base s0 = block_allocator_virtual_base s"
    using inv heap(2) sh same_heap_inv [OF sh] by (simp_all add: same_heap_def)
  obtain n task s6 d xs s' where f: "strlen (heap_bytes s5) (node_path (nodes s5 node)) = Some n"
    "bytes_at (heap_bytes s5) (node_path (nodes s5 node)) (unat n) = name" "task_scheduler_round_robin_create name s5 = Inr (task, s6)"
    "vfs_close ops node (upd_task task (start_task C (kernel_hhdm_offset s6) (e_entry (read_ehdr (heap_bytes s6) hdr)) (base - PAGE)) s6) = Inr s'"
    and q: "quiet_step (insert C R) {C} s5 s'" and rt: "ready_task contents name C base task s'"
    and d: "d \<in> set ds" "queue_rep d s0 xs" "queue_rep d s' (xs @ [task])"
    by (rule elf_task [OF ld5 s5(3) b0 fl(4) hd0 r0 inv0 sch0]) (rule that)
  have "elf_load_from ops hdr ph node s = Inr (True, s')"
  proof -
    have "elf_header_valid (elf_header contents)" using prog by (simp add: program_ok_def)
    then show ?thesis
      using h s4 s5 f c(1) unfolding elf_load_from_def start_task_def by (simp add: c(2) [symmetric] header_count_def)
  qed
  moreover have mem': "program_in_memory contents C base s s'"
  proof (rule program_final [OF ld5 C q _ stack_page(1) [OF prog lo] c(5,4) f0(1) mem])
    show "\<forall>n \<in> fst ` set (program contents). n < 2 ^ 35" using program_vpn(1) [OF prog order_refl] by (simp add: program_def)
    show "list_all (\<lambda>(lo, hi). hi \<le> unat (block_allocator_virtual_base s5)) (pool_bounds s5)"
      using heap(3) ld5 c(6) f0(2) by (auto simp: loaded_def loader_rest_def)
  qed
  moreover have "segment_loaded contents (program_header contents i) (kernel_hhdm_offset s) C s'"
    if "i < header_count contents" "p_type (program_header contents i) = PT_LOAD" for i
    by (rule segment_loaded_program [OF prog that(1) refl that(2) mem'])
  moreover have "queue_rep d s xs" using d(2) queue_rep_cong [of s0 d s xs] qs by simp
  ultimately show ?thesis using lo rt d by blast
qed

subsection \<open>An executable of one page\<close>

definition small_elf :: "u8 list" where
  "small_elf =
     [0x7F, 0x45, 0x4C, 0x46, 2, 1, 1, 0] @ replicate 8 0 @ [2, 0, 0x3E, 0, 1, 0, 0, 0] @ [0, 0, 0x40, 0, 0, 0, 0, 0] @
     [0x40, 0, 0, 0, 0, 0, 0, 0] @ replicate 12 0 @ [64, 0, 56, 0, 1, 0] @ replicate 6 0 @
     [1, 0, 0, 0, 5, 0, 0, 0] @ [0x78, 0, 0, 0, 0, 0, 0, 0] @ [0, 0, 0x40, 0, 0, 0, 0, 0] @ [0, 0, 0x40, 0, 0, 0, 0, 0] @
     [4, 0, 0, 0, 0, 0, 0, 0] @ [4, 0, 0, 0, 0, 0, 0, 0] @ [0, 0x10, 0, 0, 0, 0, 0, 0] @ [0x90, 0x90, 0xEB, 0xFE]"

lemma small_elf_ehdr:
  "elf_header small_elf =
     \<lparr>e_ident = [0x7F, 0x45, 0x4C, 0x46, 2, 1, 1, 0, 0, 0, 0, 0, 0, 0, 0, 0], e_type = 2, e_machine = 62, e_version = 1, e_entry = 0x400000,
      e_phoff = 64, e_shoff = 0, e_flags = 0, e_ehsize = 64, e_phentsize = 56, e_phnum = 1, e_shentsize = 0, e_shnum = 0, e_shstrndx = 0\<rparr>"
  by code_simp

lemma small_elf_phdr:
  "read_phdr (file_mem small_elf) 64 =
     \<lparr>p_type = 1, p_flags = 5, p_offset = 120, p_vaddr = 0x400000, p_paddr = 0x400000, p_filesz = 4, p_memsz = 4, p_align = 4096\<rparr>"
  by code_simp

lemma small_elf_header:
  "length small_elf = 124" "elf_header_valid (elf_header small_elf)" "e_entry (elf_header small_elf) = 0x400000"
  "e_phoff (elf_header small_elf) = 64" "header_count small_elf = 1"
  by (simp_all add: small_elf_ehdr elf_header_valid_def header_count_def) (simp add: small_elf_def)

lemma small_elf_segment:
  "p_type (program_header small_elf 0) = PT_LOAD" "p_offset (program_header small_elf 0) = 120"
  "p_vaddr (program_header small_elf 0) = 0x400000" "p_filesz (program_header small_elf 0) = 4" "p_memsz (program_header small_elf 0) = 4"
  "drop 120 small_elf = [0x90, 0x90, 0xEB, 0xFE]"
  by (simp_all add: program_header_def small_elf_header small_elf_phdr) (simp add: small_elf_def)

lemma small_elf_program:
  "program small_elf = [(0x400, [0x90, 0x90, 0xEB, 0xFE] @ replicate 4092 0)]" "program_ok small_elf"
proof -
  have im: "page_image small_elf (program_header small_elf 0) 0 = [0x90, 0x90, 0xEB, 0xFE] @ replicate 4092 0"
    by (simp add: page_image_def small_elf_segment)
  show p: "program small_elf = [(0x400, [0x90, 0x90, 0xEB, 0xFE] @ replicate 4092 0)]"
    by (simp add: program_def program_upto_def small_elf_header(5) segment_image_def small_elf_segment im vpn_eq del: replicate.simps)
  show "program_ok small_elf"
    unfolding program_ok_def p
    by (simp add: small_elf_header segment_ok_def small_elf_segment)
qed

text \<open>
  A machine with this file in its ramdisk, at \<open>0x24000\<close>, behind the pool of pages; one processor with an empty run queue, and a heap
  of one free block.
\<close>

definition elf_memory :: mem8 where
  "elf_memory = put_bytes (put_bytes (put_bytes (\<lambda>_. 0) 0x26000 [0x69]) 0x2407C (octal_field 124)) 0x24200 small_elf"

definition elf_node :: vfs_fs_node where
  "elf_node = zero_node\<lparr>node_path := 0x26000, node_path_length := 1, max_seek_position := 124, node_private := 0x24000\<rparr>"

definition elf_machine :: "u64 \<Rightarrow> block_state \<Rightarrow> ustar_state" where
  "elf_machine r s =
     (ustar_boot (s\<lparr>arch_bootstrap_page_table := r, block_allocator_virtual_base := 0x32000, block_allocator_current_virtual_address := 0x33000,
        headers := (\<lambda>_. \<lparr>signature = BLOCK_SIGNATURE, block_size = 4048, block_next = 0, block_previous = 0\<rparr>),
        block_free_list_start := 0x32000, heap_bytes := elf_memory\<rparr>))
     \<lparr>cpu_contexts := [0x4000 \<mapsto> \<lparr>context_type = CONTEXT_TYPE_CPU, cpu_id = 0, is_bsp = True, cpu_gdt = 0, scheduler_context_ptr = 0x1000\<rparr>],
      last_context := 0x1000, gs_base := 0x4000, nodes := (\<lambda>_. elf_node)\<rparr>"

lemma elf_machine_fields:
  "memory (elf_machine r s) = memory s" "allocator_pools (elf_machine r s) = allocator_pools s"
  "page_allocator_lock (elf_machine r s) = page_allocator_lock s" "kernel_hhdm_offset (elf_machine r s) = kernel_hhdm_offset s"
  "arch_bootstrap_page_table (elf_machine r s) = r" "block_allocator_virtual_base (elf_machine r s) = 0x32000"
  "block_allocator_current_virtual_address (elf_machine r s) = 0x33000" "block_free_list_start (elf_machine r s) = 0x32000"
  "headers (elf_machine r s) = (\<lambda>_. \<lparr>signature = BLOCK_SIGNATURE, block_size = 4048, block_next = 0, block_previous = 0\<rparr>)"
  "block_busy_list_start (elf_machine r s) = block_busy_list_start s" "block_allocator_lock (elf_machine r s) = block_allocator_lock s"
  "heap_bytes (elf_machine r s) = elf_memory" "contexts (elf_machine r s) = (\<lambda>_. zero_context)" "last_context (elf_machine r s) = 0x1000"
  "cpu_contexts (elf_machine r s) 0x4000 = Some \<lparr>context_type = CONTEXT_TYPE_CPU, cpu_id = 0, is_bsp = True, cpu_gdt = 0, scheduler_context_ptr = 0x1000\<rparr>"
  "gs_base (elf_machine r s) = 0x4000" "last_id_lock (elf_machine r s) = 0" "nodes (elf_machine r s) = (\<lambda>_. elf_node)"
  by (simp_all add: elf_machine_def boot_defs)

lemma elf_machine_heap:
  assumes "pt_inv {r} s" "block_busy_list_start s = 0" "block_allocator_lock s = 0"
  shows "heap_ok {r} (elf_machine r s) [0x32000] []"
proof -
  have "pt_inv {r} (elf_machine r s) = pt_inv {r} s" by (rule pt_inv_same) (simp_all add: elf_machine_fields)
  then show ?thesis using assms
    by (simp add: heap_ok_def block_inv_def block_lists_def blocks_ok_def block_ok_def block_end_def elf_machine_fields)
qed

lemma elf_machine_schedulers: "schedulers_ok [0x1000] (elf_machine r s)"
proof -
  have q: "queue_of (elf_machine r s) d = zero_queue" for d by (simp add: queue_of_def elf_machine_fields zero_context_def)
  have "queue_rep 0x1000 (elf_machine r s) []" by (simp add: queue_rep_def q) (simp add: zero_queue_def)
  moreover have "\<exists>k c. gs_ok (elf_machine r s) k c"
    by (rule exI [of _ "0x4000"], rule exI [of _ "0x1000"]) (simp add: gs_ok_def elf_machine_fields)
  ultimately show ?thesis unfolding schedulers_ok_def q
    by (auto simp: elf_machine_fields zero_context_def zero_queue_def intro!: exI [of _ "[]"])
qed

text \<open>Addresses between the pool and the heap are kept, and small distances between them do not wrap.\<close>

lemma elf_address:
  fixes p :: u64
  assumes "unat p + n < 0x40000" "i \<le> n"
  shows "unat (p + of_nat i) = unat p + i"
  using assms by (subst unat_plus_exact) (simp_all add: unat_of_nat_exact)

lemma elf_apart:
  fixes p q :: u64
  assumes "unat p + n < 0x40000" "i \<le> n" "unat p + n < unat q \<or> unat q + k \<le> unat p" "unat q + k < 2 ^ 64"
  shows "k \<le> unat (p + of_nat i - q)"
  using unat_minus_less_iff [of q k "p + of_nat i"] elf_address [OF assms(1,2)] assms by auto

lemma elf_machine_kept:
  assumes "pool_bounds s = [(0x3000, 0x23000)]" "0x23000 \<le> unat a"
  shows "kept (elf_machine r s) a"
proof -
  have "pool_bounds (elf_machine r s) = pool_bounds s" by (simp add: pool_bounds_def elf_machine_fields)
  then show ?thesis using assms by (simp add: kept_def)
qed

lemma elf_machine_ready:
  assumes b: "pool_bounds s = [(0x3000, 0x23000)]"
  shows "load_ready (\<lambda>_. ustar) 0x5000 elf_node small_elf 0x25100 (elf_machine r s)"
    "buffers_ok 0x25000 0x25100 elf_node small_elf [0x69] (elf_machine r s)"
proof -
  note l = small_elf_header(1) and k = elf_machine_kept [OF b]
  have len: "length (octal_field 124) = 12" by (simp add: octal_field_def)
  have m1: "bytes_at elf_memory 0x2407C 12 = octal_field 124"
    by (simp add: elf_memory_def bytes_at_put_apart bytes_at_put_bytes l len)
  have m2: "bytes_at elf_memory 0x24200 124 = small_elf" by (simp add: elf_memory_def bytes_at_put_bytes l)
  have m3: "elf_memory 0x26000 = 0x69" "elf_memory 0x26001 = 0" by (simp_all add: elf_memory_def put_bytes_def l len)
  have "ustar_file (\<lambda>_. ustar) 0x5000 elf_node small_elf elf_memory" using m1 m2 by (simp add: ustar_file_def elf_node_def l)
  moreover have "kept (elf_machine r s) (0x24000 + of_nat i) \<and> 56 \<le> unat (0x24000 + of_nat i - 0x25100 :: u64)" if "i < 636" for i
    using elf_address [of "0x24000" 636 i] elf_apart [of "0x24000" 636 i "0x25100" 56] that k [of "0x24000 + of_nat i"] by simp
  ultimately show "load_ready (\<lambda>_. ustar) 0x5000 elf_node small_elf 0x25100 (elf_machine r s)"
    by (simp add: load_ready_def elf_machine_fields elf_node_def l)
  have "kept (elf_machine r s) (0x25000 + of_nat i) \<and> unat (0x25000 + of_nat i :: u64) < 0x32000 \<and> 56 \<le> unat (0x25000 + of_nat i - 0x25100 :: u64)"
    if "i < 64" for i
    using elf_address [of "0x25000" 64 i] elf_apart [of "0x25000" 64 i "0x25100" 56] that k [of "0x25000 + of_nat i"] by simp
  moreover have "kept (elf_machine r s) (0x25100 + of_nat i)" if "i < 56" for i
    using elf_address [of "0x25100" 56 i] that by (intro k) simp
  moreover have "64 \<le> unat (0x24000 + of_nat i - 0x25000 :: u64)" if "i < 636" for i
    using elf_apart [of "0x24000" 636 i "0x25000" 64] that by simp
  moreover have "kept (elf_machine r s) (0x26000 + of_nat i) \<and> 56 \<le> unat (0x26000 + of_nat i - 0x25100 :: u64) \<and>
      64 \<le> unat (0x26000 + of_nat i - 0x25000 :: u64)" if "i \<le> 1" for i
    using elf_address [of "0x26000" 1 i] elf_apart [of "0x26000" 1 i "0x25100" 56] elf_apart [of "0x26000" 1 i "0x25000" 64] that k [of "0x26000 + of_nat i"] by simp
  ultimately show "buffers_ok 0x25000 0x25100 elf_node small_elf [0x69] (elf_machine r s)"
    by (simp add: buffers_ok_def elf_machine_fields elf_node_def l m3)
qed

theorem elf_loads_program_witness:
  "\<exists>s table task page s'. elf_load_from (\<lambda>_. ustar) 0x25000 0x25100 0x5000 (s :: ustar_state) = Inr (True, s') \<and>
     pt_maps s' table 0x400 = Some (page - kernel_hhdm_offset s) \<and> bytes_at (heap_bytes s') page 4096 = [0x90, 0x90, 0xEB, 0xFE] @ replicate 4092 0 \<and>
     reg_rip (task_state (tasks s' task)) = 0x400000 \<and> queue_rep 0x1000 s' [task]"
proof -
  have "spare (Suc 31) heap_boot" by (simp add: spare_def heap_boot_def table_pool_def)
  then obtain r s where a: "page_allocate 1 heap_boot = Inr (r, s)" and sp: "spare 31 s"
    using page_allocate_spare [OF pt_inv_page [OF heap_boot_inv]] by blast
  have "arch_table_manager_new heap_boot = Inr (r, s)" using a by (simp add: arch_table_manager_new_def)
  then have inv: "pt_inv {r} s" using table_new_inv(1) [OF heap_boot_inv] by blast
  note f = block_fields_more [OF page_allocate_more [OF a]]
  have pb: "pool_bounds s = [(0x3000, 0x23000)]"
    using page_allocate_bounds [OF a] by (simp add: pool_bounds_def heap_boot_def table_pool_def pool_hi_def)
  let ?s = "elf_machine r s"
  have h: "heap_ok {r} ?s [0x32000] []" by (rule elf_machine_heap [OF inv]) (simp_all add: f heap_boot_def)
  have room: "\<exists>x \<in> set [0x32000]. round_block_size (of_nat (length [0x69 :: u8])) \<le> block_size (headers ?s x)"
    by (simp add: elf_machine_fields round_block_size_def)
  have pools: "list_all (\<lambda>(lo, hi). hi \<le> unat (block_allocator_virtual_base ?s)) (pool_bounds ?s)"
    using pb by (simp add: pool_bounds_def elf_machine_fields)
  have spr: "spare (8 + 4 * length (program small_elf)) ?s"
    using spare_mono [OF sp, of 12] by (simp add: small_elf_program(1) spare_def elf_machine_fields)
  have nd: "nodes ?s 0x5000 = elf_node" by (simp add: elf_machine_fields)
  note r = elf_machine_ready [OF pb]
  have "length [0x69 :: u8] \<le> 4048" by simp
  from elf_loads_program [OF h room pools r(1) nd r(2) this small_elf_program(2) elf_machine_schedulers spr]
  obtain table base task d xs s' where e: "elf_load_from (\<lambda>_. ustar) 0x25000 0x25100 0x5000 ?s = Inr (True, s')"
    "program_in_memory small_elf table base ?s s'" "ready_task small_elf [0x69] table base task s'" "d \<in> set [0x1000]" "queue_rep d ?s xs"
    "queue_rep d s' (xs @ [task])" by blast
  have "queue_of ?s d = zero_queue" by (simp add: queue_of_def elf_machine_fields zero_context_def)
  then have "xs = []" using e(5) by (simp add: queue_rep_def) (simp add: zero_queue_def)
  then have q: "queue_rep 0x1000 s' [task]" using e(4,6) by simp
  obtain page where "pt_maps s' table 0x400 = Some (page - kernel_hhdm_offset ?s)"
    "bytes_at (heap_bytes s') page 4096 = [0x90, 0x90, 0xEB, 0xFE] @ replicate 4092 0"
    using e(2) unfolding program_in_memory_def small_elf_program(1) by (auto simp del: replicate.simps)
  moreover have "reg_rip (task_state (tasks s' task)) = 0x400000" using e(3) by (simp add: ready_task_def small_elf_header(3))
  ultimately show ?thesis using e(1) q by blast
qed

end
