(* ===== verification/Diagnostics.thy ===== *)
theory Diagnostics
  imports Console Apic Vfs_Correct Ustar
begin

text \<open>
  What the kernel says when something is wrong or asked for: \<open>panic\<close> of \<open>kernel/src/misc/panic.c\<close>, the reports of the
  undefined behaviour sanitizer, \<open>kernel/src/sanitizers/tinyubsan.c\<close>, the stack protector, and the listings of the heap, the mount points and the
  devices.

  \<open>lit\<close> gives the address of a string constant of the program. The hardware has the type \<open>'h\<close>; \<open>pio\<close> and \<open>io\<close> are its ports and
  its other registers, as in the theories of the serial port and of the interrupt controller.
\<close>

subsection \<open>Output without the lock\<close>

definition printk_serial_unsafe :: "'h pio \<Rightarrow> bool \<Rightarrow> mem8 \<Rightarrow> u64 \<Rightarrow> u64 \<Rightarrow> u64 list \<Rightarrow> 'h \<Rightarrow> 'h res" where
  "printk_serial_unsafe pio uart16650_present m stack fmt args h =
     (case vprintk_serial_unsafe pio uart16650_present m stack fmt args h of
        None \<Rightarrow> Inl Diverges
      | Some (Inl e) \<Rightarrow> Inl e
      | Some (Inr (_, h)) \<Rightarrow> Inr h)"

definition screen_vprintk_unsafe ::
  "psf_font \<Rightarrow> u64 \<Rightarrow> u64 \<Rightarrow> u64 list \<Rightarrow> 'a fb_state_scheme \<Rightarrow> 'a fb_state_scheme res" where
  "screen_vprintk_unsafe kfont stack fmt args s =
     (case vprintk_unsafe (framebuffer_write_character kfont) (heap_bytes s) stack fmt args s of
        None \<Rightarrow> Inl Diverges
      | Some (Inl e) \<Rightarrow> Inl e
      | Some (Inr (_, s)) \<Rightarrow> Inr s)"

definition printk_unsafe ::
  "psf_font \<Rightarrow> u64 \<Rightarrow> u64 \<Rightarrow> u64 list \<Rightarrow> 'a fb_state_scheme \<Rightarrow> 'a fb_state_scheme res" where
  "printk_unsafe kfont stack fmt args s =
     (if \<not> framebuffer_available s then Inr s else screen_vprintk_unsafe kfont stack fmt args s)"

subsection \<open>Panic\<close>

text \<open>
  \<open>PRINT_TRACE_IF_POSSIBLE\<close> for the frames of a list: \<open>walk\<close> is the return address that \<open>STACK_TRACE_WALK\<close> reads from a frame. A
  frame outside the kernel's image ends the trace, and the processor halts.
\<close>

definition newline :: char where "newline = CHR 0x0A"

fun print_trace ::
  "psf_font \<Rightarrow> 'h pio \<Rightarrow> bool \<Rightarrow> u64 \<Rightarrow> (string \<Rightarrow> u64) \<Rightarrow> (u64 \<Rightarrow> u64) \<Rightarrow> u64 list \<Rightarrow> 'a fb_state_scheme \<Rightarrow> 'h \<Rightarrow>
     ('a fb_state_scheme \<times> 'h) res" where
  "print_trace kfont pio uart16650_present stack lit walk [] s h = Inr (s, h)"
| "print_trace kfont pio uart16650_present stack lit walk (x # xs) s h =
     (if walk x \<le> 0xFFFFFFFF80000000 then Inr (s, h)
      else case printk_unsafe kfont stack (lit (''Trace %d: %p'' @ [newline])) [x, walk x] s of
        Inl e \<Rightarrow> Inl e
      | Inr s \<Rightarrow>
     case printk_serial_unsafe pio uart16650_present (heap_bytes s) stack (lit (''Trace %d: %p'' @ [newline])) [x, walk x] h of
        Inl e \<Rightarrow> Inl e
      | Inr h \<Rightarrow> print_trace kfont pio uart16650_present stack lit walk xs s h)"

definition panic_banner :: string where "panic_banner = ''Kernel panic.'' @ [newline] @ ''Message: ''"

definition panic_screen ::
  "psf_font \<Rightarrow> u64 \<Rightarrow> (string \<Rightarrow> u64) \<Rightarrow> u64 \<Rightarrow> u64 list \<Rightarrow> 'a fb_state_scheme \<Rightarrow> 'a fb_state_scheme res" where
  "panic_screen kfont stack lit fmt args s =
     (case printk_unsafe kfont stack (lit panic_banner) [] (set_colour 0xFF0000 s) of
        Inl e \<Rightarrow> Inl e
      | Inr s \<Rightarrow> screen_vprintk_unsafe kfont stack fmt args s)"

definition panic_serial ::
  "'h pio \<Rightarrow> bool \<Rightarrow> mem8 \<Rightarrow> u64 \<Rightarrow> (string \<Rightarrow> u64) \<Rightarrow> u64 \<Rightarrow> u64 list \<Rightarrow> 'h \<Rightarrow> 'h res" where
  "panic_serial pio uart16650_present m stack lit fmt args h =
     (case printk_serial_unsafe pio uart16650_present m stack (lit panic_banner) [] h of
        Inl e \<Rightarrow> Inl e
      | Inr h \<Rightarrow> printk_serial_unsafe pio uart16650_present m stack fmt args h)"

text \<open>The result is the state in which the processor halts.\<close>

definition panic ::
  "psf_font \<Rightarrow> 'h pio \<Rightarrow> bool \<Rightarrow> 'h cpu_io \<Rightarrow> bool \<Rightarrow> u64 \<Rightarrow> (string \<Rightarrow> u64) \<Rightarrow> (u64 \<Rightarrow> u64) \<Rightarrow> u64 \<Rightarrow> u64 list \<Rightarrow>
     'a fb_state_scheme \<Rightarrow> 'h \<Rightarrow> ('a fb_state_scheme \<times> 'h) res" where
  "panic kfont pio uart16650_present io arch_aps_online stack lit walk fmt args s h =
     (let h = arch_kill_ap io (kernel_hhdm_offset s) arch_aps_online h;
          s = s\<lparr>interrupts_enabled := False\<rparr>
      in case (if framebuffer_available s then panic_screen kfont stack lit fmt args s else Inr s) of
        Inl e \<Rightarrow> Inl e
      | Inr s \<Rightarrow>
     case panic_serial pio uart16650_present (heap_bytes s) stack lit fmt args h of
        Inl e \<Rightarrow> Inl e
      | Inr h \<Rightarrow>
     case printk_unsafe kfont stack (lit [newline]) [] s of
        Inl e \<Rightarrow> Inl e
      | Inr s \<Rightarrow>
     case printk_serial_unsafe pio uart16650_present (heap_bytes s) stack (lit [newline]) [] h of
        Inl e \<Rightarrow> Inl e
      | Inr h \<Rightarrow> print_trace kfont pio uart16650_present stack lit walk [1, 2, 3, 4, 5, 6] s h)"

text \<open>The stack protector: the value the compiler puts below a return address, and what it calls when the value has changed.\<close>

definition stack_chk_guard :: u64 where "stack_chk_guard = 0xDEADBEEFF00DCACA"

definition stack_chk_fail ::
  "psf_font \<Rightarrow> 'h pio \<Rightarrow> bool \<Rightarrow> 'h cpu_io \<Rightarrow> bool \<Rightarrow> u64 \<Rightarrow> (string \<Rightarrow> u64) \<Rightarrow> (u64 \<Rightarrow> u64) \<Rightarrow>
     'a fb_state_scheme \<Rightarrow> 'h \<Rightarrow> ('a fb_state_scheme \<times> 'h) res" where
  "stack_chk_fail kfont pio uart16650_present io arch_aps_online stack lit walk s h =
     panic kfont pio uart16650_present io arch_aps_online stack lit walk (lit ''Stack smashing detected.'') [] s h"

subsection \<open>The sanitizer\<close>

text \<open>
  What the compiler passes to the handlers: where in the source, and the types involved, of which the handlers use nothing. The
  numbers are passed on as they are, extended to the 64 bits the output routine reads.
\<close>

record tu_source_location =
  loc_file :: u64
  loc_line :: u32
  loc_column :: u32

record tu_overflow_data =
  overflow_location :: tu_source_location
  overflow_type :: u64

record tu_shift_out_of_bounds_data =
  shift_location :: tu_source_location
  left_type :: u64
  right_type :: u64

record tu_invalid_value_data =
  value_location :: tu_source_location
  value_type :: u64

record tu_array_out_of_bounds_data =
  array_location :: tu_source_location
  array_type :: u64
  index_type :: u64

record tu_type_mismatch_v1_data =
  mismatch_location :: tu_source_location
  mismatch_type :: u64
  log_alignment :: u8
  type_check_kind :: u8

record tu_negative_vla_data =
  vla_location :: tu_source_location
  vla_type :: u64

record tu_nonnull_return_data =
  return_location :: tu_source_location

record tu_nonnull_arg_data =
  arg_location :: tu_source_location

record tu_unreachable_data =
  unreachable_location :: tu_source_location

record tu_invalid_builtin_data =
  builtin_location :: tu_source_location
  builtin_kind :: u8

text \<open>The port, the memory, the conversion buffer and the string constants that all handlers print with.\<close>

record 'h print_env =
  env_pio :: "'h pio"
  env_present :: bool
  env_memory :: mem8
  env_stack :: u64
  env_lit :: "string \<Rightarrow> u64"

definition tu_format :: string where
  "tu_format = ''tinyubsan: %s at file %s, line %d, column %d'' @ [newline]"

definition tu_print_location :: "'h print_env \<Rightarrow> string \<Rightarrow> tu_source_location \<Rightarrow> 'h \<Rightarrow> 'h res" where
  "tu_print_location env message loc h =
     printk_serial_unsafe (env_pio env) (env_present env) (env_memory env) (env_stack env) (env_lit env tu_format)
       [env_lit env message, loc_file loc, ucast (loc_line loc), ucast (loc_column loc)] h"

definition ubsan_handle_add_overflow :: "'h print_env \<Rightarrow> tu_overflow_data \<Rightarrow> 'h \<Rightarrow> 'h res" where
  "ubsan_handle_add_overflow env data = tu_print_location env ''addition overflow'' (overflow_location data)"

definition ubsan_handle_sub_overflow :: "'h print_env \<Rightarrow> tu_overflow_data \<Rightarrow> 'h \<Rightarrow> 'h res" where
  "ubsan_handle_sub_overflow env data = tu_print_location env ''subtraction overflow'' (overflow_location data)"

definition ubsan_handle_mul_overflow :: "'h print_env \<Rightarrow> tu_overflow_data \<Rightarrow> 'h \<Rightarrow> 'h res" where
  "ubsan_handle_mul_overflow env data = tu_print_location env ''multiplication overflow'' (overflow_location data)"

definition ubsan_handle_divrem_overflow :: "'h print_env \<Rightarrow> tu_overflow_data \<Rightarrow> 'h \<Rightarrow> 'h res" where
  "ubsan_handle_divrem_overflow env data = tu_print_location env ''division overflow'' (overflow_location data)"

definition ubsan_handle_negate_overflow :: "'h print_env \<Rightarrow> tu_overflow_data \<Rightarrow> 'h \<Rightarrow> 'h res" where
  "ubsan_handle_negate_overflow env data = tu_print_location env ''negation overflow'' (overflow_location data)"

definition ubsan_handle_pointer_overflow :: "'h print_env \<Rightarrow> tu_overflow_data \<Rightarrow> 'h \<Rightarrow> 'h res" where
  "ubsan_handle_pointer_overflow env data = tu_print_location env ''pointer overflow'' (overflow_location data)"

definition ubsan_handle_shift_out_of_bounds :: "'h print_env \<Rightarrow> tu_shift_out_of_bounds_data \<Rightarrow> 'h \<Rightarrow> 'h res" where
  "ubsan_handle_shift_out_of_bounds env data = tu_print_location env ''shift out of bounds'' (shift_location data)"

definition ubsan_handle_load_invalid_value :: "'h print_env \<Rightarrow> tu_invalid_value_data \<Rightarrow> 'h \<Rightarrow> 'h res" where
  "ubsan_handle_load_invalid_value env data = tu_print_location env ''invalid load value'' (value_location data)"

definition ubsan_handle_out_of_bounds :: "'h print_env \<Rightarrow> tu_array_out_of_bounds_data \<Rightarrow> 'h \<Rightarrow> 'h res" where
  "ubsan_handle_out_of_bounds env data = tu_print_location env ''array out of bounds'' (array_location data)"

text \<open>
  \<open>1 << data->log_alignment\<close> is computed in 32-bit integers; the mask, extended with its sign, is applied to the pointer. The
  compiler passes the logarithm of an alignment, which is less than 31.
\<close>

definition ubsan_handle_type_mismatch_v1 :: "'h print_env \<Rightarrow> tu_type_mismatch_v1_data \<Rightarrow> u64 \<Rightarrow> 'h \<Rightarrow> 'h res" where
  "ubsan_handle_type_mismatch_v1 env data ptr =
     (if ptr = 0 then tu_print_location env ''use of nullptr'' (mismatch_location data)
      else if ptr AND scast (push_bit (unat (log_alignment data)) (1 :: u32) - 1) \<noteq> 0
      then tu_print_location env ''use of misaligned pointer'' (mismatch_location data)
      else tu_print_location env ''no space for object'' (mismatch_location data))"

definition ubsan_handle_vla_bound_not_positive :: "'h print_env \<Rightarrow> tu_negative_vla_data \<Rightarrow> 'h \<Rightarrow> 'h res" where
  "ubsan_handle_vla_bound_not_positive env data = tu_print_location env ''variable-length argument is negative'' (vla_location data)"

definition ubsan_handle_nonnull_return :: "'h print_env \<Rightarrow> tu_nonnull_return_data \<Rightarrow> 'h \<Rightarrow> 'h res" where
  "ubsan_handle_nonnull_return env data = tu_print_location env ''non-null return is null'' (return_location data)"

definition ubsan_handle_nonnull_arg :: "'h print_env \<Rightarrow> tu_nonnull_arg_data \<Rightarrow> 'h \<Rightarrow> 'h res" where
  "ubsan_handle_nonnull_arg env data = tu_print_location env ''non-null argument is null'' (arg_location data)"

definition ubsan_handle_builtin_unreachable :: "'h print_env \<Rightarrow> tu_unreachable_data \<Rightarrow> 'h \<Rightarrow> 'h res" where
  "ubsan_handle_builtin_unreachable env data = tu_print_location env ''unreachable code reached'' (unreachable_location data)"

definition ubsan_handle_invalid_builtin :: "'h print_env \<Rightarrow> tu_invalid_builtin_data \<Rightarrow> 'h \<Rightarrow> 'h res" where
  "ubsan_handle_invalid_builtin env data = tu_print_location env ''invalid builtin'' (builtin_location data)"

subsection \<open>Listings\<close>

definition dump_format :: string where
  "dump_format = ''range %p-%p size %zu B (~%zu KB)'' @ [newline]"

partial_function (option) block_allocator_dump_list :: "'h print_env \<Rightarrow> header_store \<Rightarrow> u64 \<Rightarrow> 'h \<Rightarrow> 'h res option" where
  "block_allocator_dump_list env hs current_block h =
     (if current_block = 0 then Some (Inr h)
      else (case printk_serial_unsafe (env_pio env) (env_present env) (env_memory env) (env_stack env) (env_lit env dump_format)
                   [current_block + BLOCK_HEADER_SIZE, current_block + BLOCK_HEADER_SIZE + block_size (hs current_block),
                    block_size (hs current_block), block_size (hs current_block) div 1024] h of
              Inl e \<Rightarrow> Some (Inl e)
            | Inr h \<Rightarrow> block_allocator_dump_list env hs (block_next (hs current_block)) h))"

definition dump_titled_list :: "'h print_env \<Rightarrow> string \<Rightarrow> header_store \<Rightarrow> u64 \<Rightarrow> 'h \<Rightarrow> 'h res" where
  "dump_titled_list env title hs list_start h =
     (case printk_serial_unsafe (env_pio env) (env_present env) (env_memory env) (env_stack env) (env_lit env title) [] h of
        Inl e \<Rightarrow> Inl e
      | Inr h \<Rightarrow> (case block_allocator_dump_list env hs list_start h of None \<Rightarrow> Inl Diverges | Some r \<Rightarrow> r))"

definition block_allocator_dump_free_list :: "'h print_env \<Rightarrow> 'a block_state_scheme \<Rightarrow> 'h \<Rightarrow> 'h res" where
  "block_allocator_dump_free_list env s =
     dump_titled_list env (''dumping free list'' @ [newline]) (headers s) (block_free_list_start s)"

definition block_allocator_dump_busy_list :: "'h print_env \<Rightarrow> 'a block_state_scheme \<Rightarrow> 'h \<Rightarrow> 'h res" where
  "block_allocator_dump_busy_list env s =
     dump_titled_list env (''dumping busy list'' @ [newline]) (headers s) (block_busy_list_start s)"

text \<open>The mount points; \<open>fs_name\<close> is the name field of a file system.\<close>

definition mount_format :: string where
  "mount_format = ''vfs: mount point: %s on %s'' @ [newline]"

partial_function (option) print_mounts ::
  "'h pio \<Rightarrow> bool \<Rightarrow> u64 \<Rightarrow> (string \<Rightarrow> u64) \<Rightarrow> (u64 \<Rightarrow> u64) \<Rightarrow> u64 \<Rightarrow> 'a con_state_scheme \<Rightarrow> 'h \<Rightarrow> ('a con_state_scheme \<times> 'h) res option" where
  "print_mounts pio uart16650_present stack lit fs_name point s h =
     (if point = 0 then Some (Inr (s, h))
      else (case serial_vprintk pio uart16650_present stack (lit mount_format)
                   [mount_name (mounts s point), fs_name (mount_fs (mounts s point))] s h of
              Inl e \<Rightarrow> Some (Inl e)
            | Inr (s, h) \<Rightarrow> print_mounts pio uart16650_present stack lit fs_name (mount_next (mounts s point)) s h))"

definition vfs_print_debug ::
  "'h pio \<Rightarrow> bool \<Rightarrow> u64 \<Rightarrow> (string \<Rightarrow> u64) \<Rightarrow> (u64 \<Rightarrow> u64) \<Rightarrow> 'a con_state_scheme \<Rightarrow> 'h \<Rightarrow> ('a con_state_scheme \<times> 'h) res" where
  "vfs_print_debug pio uart16650_present stack lit fs_name s h =
     (case spinlock_acquire (mount_lock s) of
        Inl e \<Rightarrow> Inl e
      | Inr lock \<Rightarrow>
     case print_mounts pio uart16650_present stack lit fs_name (mount_next (mounts s (mount_points s))) (s\<lparr>mount_lock := lock\<rparr>) h of
        None \<Rightarrow> Inl Diverges
      | Some (Inl e) \<Rightarrow> Inl e
      | Some (Inr (s, h)) \<Rightarrow> Inr (s\<lparr>mount_lock := spinlock_release (mount_lock s)\<rparr>, h))"

text \<open>
  The tree of devices, each level indented by the depth. The type is handed to the output routine, whose format does not print
  it.
\<close>

definition type_string :: "device_type \<Rightarrow> string" where
  "type_string t = (case t of other \<Rightarrow> ''other'' | reserved \<Rightarrow> ''reserved'' | serial \<Rightarrow> ''serial'' | framebuffer \<Rightarrow> ''framebuffer''
     | timer \<Rightarrow> ''timer'' | hmi \<Rightarrow> ''hmi'' | module \<Rightarrow> ''module'' | acpi_table \<Rightarrow> ''acpi_table'')"

fun print_indent ::
  "'h pio \<Rightarrow> bool \<Rightarrow> u64 \<Rightarrow> u64 \<Rightarrow> nat \<Rightarrow> 'a con_state_scheme \<Rightarrow> 'h \<Rightarrow> ('a con_state_scheme \<times> 'h) res" where
  "print_indent pio uart16650_present stack fmt 0 s h = Inr (s, h)"
| "print_indent pio uart16650_present stack fmt (Suc n) s h =
     (case serial_vprintk pio uart16650_present stack fmt [] s h of
        Inl e \<Rightarrow> Inl e
      | Inr (s, h) \<Rightarrow> print_indent pio uart16650_present stack fmt n s h)"

partial_function (option) list_devices_layer ::
  "'h pio \<Rightarrow> bool \<Rightarrow> u64 \<Rightarrow> (string \<Rightarrow> u64) \<Rightarrow> u64 \<Rightarrow> nat \<Rightarrow> 'a con_state_scheme \<Rightarrow> 'h \<Rightarrow> ('a con_state_scheme \<times> 'h) res option" where
  "list_devices_layer pio uart16650_present stack lit dev depth s h =
     (if dev = 0 then Some (Inr (s, h))
      else (case print_indent pio uart16650_present stack (lit ''-- '') depth s h of
              Inl e \<Rightarrow> Some (Inl e)
            | Inr (s, h) \<Rightarrow>
           (case serial_vprintk pio uart16650_present stack (lit (''%s'' @ [newline]))
                   [dev_name (devices s dev), lit (type_string (dev_type (devices s dev)))] s h of
              Inl e \<Rightarrow> Some (Inl e)
            | Inr (s, h) \<Rightarrow>
           Option.bind
             (if dev_child (devices s dev) \<noteq> 0
              then list_devices_layer pio uart16650_present stack lit (dev_child (devices s dev)) (Suc depth) s h
              else Some (Inr (s, h)))
             (\<lambda>r. case r of
                Inl e \<Rightarrow> Some (Inl e)
              | Inr (s, h) \<Rightarrow> list_devices_layer pio uart16650_present stack lit (dev_next (devices s dev)) depth s h))))"

definition list_devices ::
  "'h pio \<Rightarrow> bool \<Rightarrow> u64 \<Rightarrow> (string \<Rightarrow> u64) \<Rightarrow> 'a con_state_scheme \<Rightarrow> 'h \<Rightarrow> ('a con_state_scheme \<times> 'h) res" where
  "list_devices pio uart16650_present stack lit s h =
     (case serial_vprintk pio uart16650_present stack (lit (''listing devices:'' @ [newline])) [] s h of
        Inl e \<Rightarrow> Inl e
      | Inr (s, h) \<Rightarrow>
          (case list_devices_layer pio uart16650_present stack lit (device_list s) 0 s h of None \<Rightarrow> Inl Diverges | Some r \<Rightarrow> r))"

text \<open>The files of the ramdisk at address \<open>tar\<close> (the variable \<open>initrd\<close>), as lines of the log. \<open>log_info\<close> prints a line with the format given.\<close>

definition file_format :: string where
  "file_format = ''file %s with %d bytes (%d bytes on disk)''"

partial_function (option) print_headers ::
  "(u64 list \<Rightarrow> 'a con_state_scheme \<Rightarrow> 'h \<Rightarrow> ('a con_state_scheme \<times> 'h) res) \<Rightarrow> u64 \<Rightarrow> 'a con_state_scheme \<Rightarrow> 'h \<Rightarrow>
     ('a con_state_scheme \<times> 'h) res option" where
  "print_headers log_info header s h =
     (if heap_bytes s header = 0 then Some (Inr (s, h))
      else (case log_info [header, parse_size_of (heap_bytes s) header, real_size (parse_size_of (heap_bytes s) header)] s h of
              Inl e \<Rightarrow> Some (Inl e)
            | Inr (s', h) \<Rightarrow> print_headers log_info (header + real_size (parse_size_of (heap_bytes s) header)) s' h))"

definition ustar_debug_print ::
  "psf_font \<Rightarrow> 'h pio \<Rightarrow> bool \<Rightarrow> ('h \<Rightarrow> u64 \<times> 'h) \<Rightarrow> clock_state \<Rightarrow> u64 \<Rightarrow> (string \<Rightarrow> u64) \<Rightarrow> u64 \<Rightarrow> 'a con_state_scheme \<Rightarrow> 'h \<Rightarrow>
     ('a con_state_scheme \<times> 'h) res" where
  "ustar_debug_print kfont pio uart16650_present read_time clock stack lit tar s h =
     (case print_headers
             (log_message kfont pio uart16650_present read_time clock stack (lit ''[%d.%d%d%d] %s: '') (lit [newline]) 0x10B010
                (lit ''ustar'') (lit file_format)) (tar + TAR_BLOCK_SIZE) s h of
        None \<Rightarrow> Inl Diverges
      | Some r \<Rightarrow> r)"

subsection \<open>Traces of system calls\<close>

text \<open>
  \<open>trace_error\<close> and \<open>trace_info\<close> of \<open>kernel/src/syscalls/helpers.h\<close>, which differ in a word of the format string. Every
  digit of the time is taken from a reading of its own; \<open>readings\<close> are the four readings, in nanoseconds.
\<close>

definition trace_time :: "bool \<Rightarrow> u64 \<times> u64 \<times> u64 \<times> u64 \<Rightarrow> u64 list" where
  "trace_time capable readings =
     (case readings of (r1, r2, r3, r4) \<Rightarrow>
        [if capable then r1 div 1000000 div 1000 else 0, if capable then r2 div 1000000 mod 1000 div 100 else 0,
         if capable then r3 div 1000000 mod 100 div 10 else 0, if capable then r4 div 1000000 mod 10 else 0])"

definition trace_message ::
  "'h pio \<Rightarrow> bool \<Rightarrow> u64 \<Rightarrow> clock_state \<Rightarrow> u64 \<times> u64 \<times> u64 \<times> u64 \<Rightarrow> u64 \<Rightarrow> u64 \<Rightarrow> u64 list \<Rightarrow> 'a sched_state_scheme \<Rightarrow> 'h \<Rightarrow>
     ('a sched_state_scheme \<times> 'h) res" where
  "trace_message pio uart16650_present stack clock readings module_name fmt args s h =
     (case arch_get_task_context s of
        Inl e \<Rightarrow> Inl e
      | Inr (caller, s) \<Rightarrow>
     map_sum id (Pair s)
       (printk_serial_unsafe pio uart16650_present (heap_bytes s) stack fmt
          ([task_name (tasks s caller), task_id (tasks s caller), module_name] @
           trace_time (time_keeping_capable (clock_system_timer clock)) readings @ args) h))"

subsection \<open>Text on the screen and on the line\<close>

lemma screen_text:
  assumes "console_ok kfont s" "printable stack f s fmt cs args" "screen_room kfont (render f cs args) s"
  shows "\<exists>s'. screen_vprintk_unsafe kfont stack fmt args s = Inr s' \<and> screen_shows kfont (render f cs args) s s'"
proof -
  obtain s' where "put_chars (framebuffer_write_character kfont) (render f cs args) s = Inr s'" "screen_shows kfont (render f cs args) s s'"
    using put_chars_screen [OF assms(1)] assms(3) unfolding screen_room_def screen_shows_def by blast
  then show ?thesis
    using vprintk_unsafe_chars [OF printableD [OF assms(2)], of "framebuffer_write_character kfont" s]
    by (auto simp: screen_vprintk_unsafe_def)
qed

lemma serial_unsafe_text:
  assumes dev: "uart_transmits pio sent busy"
    and "cstr m fmt cs" "off_block stack 32 fmt (Suc (length cs))" "args_ok m stack f cs args"
  shows "\<exists>h'. printk_serial_unsafe pio True m stack fmt args h = Inr h' \<and> sent h' = sent h @ crlf (render f cs args)"
  using vprintk_unsafe_text [OF assms(2-4), where g = "serial_sink pio" and s = h] serial_sink_sent [OF dev, of "render f cs args" h]
  by (auto simp: printk_serial_unsafe_def vprintk_serial_unsafe_def serial_send_byte_sink [OF dev])

text \<open>A trace is one line on the serial port, with the name and the number of the calling task.\<close>

lemma trace_message_line:
  fixes s :: "'a sched_state_scheme"
  assumes dev: "uart_transmits pio sent busy" and caller: "arch_get_task_context s = Inr (c, s1)"
    and fmt: "cstr (heap_bytes s1) fmt cs" "off_block stack 32 fmt (Suc (length cs))"
    and args: "values = [task_name (tasks s1 c), task_id (tasks s1 c), name] @
        trace_time (time_keeping_capable (clock_system_timer clock)) readings @ more_args"
      "args_ok (heap_bytes s1) stack f cs values"
  shows "\<exists>h'. trace_message pio True stack clock readings name fmt more_args s h = Inr (s1, h') \<and>
    sent h' = sent h @ crlf (render f cs values)"
  using serial_unsafe_text [OF dev fmt args(2), of h] caller by (auto simp: trace_message_def args(1))

subsection \<open>What a panic shows\<close>

lemma printk_unsafe_shown:
  assumes "screen_ready kfont (render f cs args) s" "printable stack f s fmt cs args"
  shows "\<exists>s'. printk_unsafe kfont stack fmt args s = Inr s' \<and> shown kfont (render f cs args) s s'"
  using screen_text [OF _ assms(2)] assms(1) by (auto simp: printk_unsafe_def screen_ready_def shown_def)

lemma serial_printable:
  assumes "uart_transmits pio sent busy" "printable stack f s fmt cs args"
  shows "\<exists>h'. printk_serial_unsafe pio True (heap_bytes s) stack fmt args h = Inr h' \<and> sent h' = sent h @ crlf (render f cs args)"
  by (rule serial_unsafe_text [OF assms(1) printableD [OF assms(2)]])

fun trace_text :: "(u64 \<Rightarrow> u64) \<Rightarrow> u64 list \<Rightarrow> u8 list" where
  "trace_text walk [] = []"
| "trace_text walk (x # xs) =
     (if walk x \<le> 0xFFFFFFFF80000000 then []
      else bytes_of ''Trace '' @ num_text 10 (unat x) @ bytes_of '': 0x'' @ num_text 16 (unat (walk x)) @ [0x0A] @ trace_text walk xs)"

definition panic_text :: "u8 list \<Rightarrow> (u64 \<Rightarrow> u64) \<Rightarrow> u8 list" where
  "panic_text message walk = bytes_of panic_banner @ message @ [0x0A] @ trace_text walk [1, 2, 3, 4, 5, 6]"

lemma trace_format:
  "render f (bytes_of (''Trace %d: %p'' @ [newline])) [x, w] =
     bytes_of ''Trace '' @ num_text 10 (unat x) @ bytes_of '': 0x'' @ num_text 16 (unat w) @ [0x0A]"
  "args_ok m stack f (bytes_of (''Trace %d: %p'' @ [newline])) [x, w]"
  by (simp_all add: newline_def conversion_text_def)

lemma banner_format:
  "render f (bytes_of panic_banner) [] = bytes_of panic_banner" "args_ok m stack f (bytes_of panic_banner) []"
  "render f (bytes_of [newline]) [] = [0x0A]" "args_ok m stack f (bytes_of [newline]) []"
  by (simp_all add: panic_banner_def newline_def)

lemma print_trace_ok:
  assumes dev: "uart_transmits pio sent busy"
    and "screen_ready kfont (trace_text walk xs) s" "literal_ok stack lit s (''Trace %d: %p'' @ [newline])"
  shows "\<exists>s' h'. print_trace kfont pio True stack lit walk xs s h = Inr (s', h') \<and> shown kfont (trace_text walk xs) s s' \<and>
    sent h' = sent h @ crlf (trace_text walk xs)"
  using assms(2,3)
proof (induction xs arbitrary: s h)
  case Nil
  then show ?case using shown_Nil by auto
next
  case (Cons x xs)
  show ?case
  proof (cases "walk x \<le> 0xFFFFFFFF80000000")
    case True
    then show ?thesis using Cons.prems(1) shown_Nil by auto
  next
    case False
    let ?fmt = "''Trace %d: %p'' @ [newline]"
    define line where "line = bytes_of ''Trace '' @ num_text 10 (unat x) @ bytes_of '': 0x'' @ num_text 16 (unat (walk x)) @ [0x0A]"
    have t: "trace_text walk (x # xs) = line @ trace_text walk xs" using False by (simp add: line_def)
    have r: "render (\<lambda>_. []) (bytes_of ?fmt) [x, walk x] = line" unfolding line_def by (rule trace_format)
    have ready: "screen_ready kfont (line @ trace_text walk xs) s" using Cons.prems(1) t by simp
    have p: "printable stack (\<lambda>_. []) s (lit ?fmt) (bytes_of ?fmt) [x, walk x]"
      by (rule printable_literal [OF Cons.prems(2) trace_format(2)])
    obtain s1 where s1: "printk_unsafe kfont stack (lit ?fmt) [x, walk x] s = Inr s1" "shown kfont line s s1"
      using printk_unsafe_shown [OF _ p, of kfont, unfolded r] screen_ready_mono [OF ready, of line] by auto
    obtain h1 where h1: "printk_serial_unsafe pio True (heap_bytes s1) stack (lit ?fmt) [x, walk x] h = Inr h1" "sent h1 = sent h @ crlf line"
      using serial_printable [OF dev printable_keep [OF shown_same [OF s1(2)] p], of h, unfolded r] by blast
    obtain s' h' where "print_trace kfont pio True stack lit walk xs s1 h1 = Inr (s', h')" "shown kfont (trace_text walk xs) s1 s'"
      "sent h' = sent h1 @ crlf (trace_text walk xs)"
      using Cons.IH [OF shown_ready [OF s1(2) ready] literal_ok_keep [OF shown_same [OF s1(2)] Cons.prems(2)]] by blast
    then show ?thesis using False s1 h1 shown_trans [OF s1(2)] unfolding t by auto
  qed
qed

lemma panic_screen_ok:
  assumes ready: "console_ok kfont s" "screen_room kfont (bytes_of panic_banner @ render f cs args) (set_colour 0xFF0000 s)"
    and lit: "literal_ok stack lit s panic_banner" and msg: "printable stack f s fmt cs args"
  shows "\<exists>s'. panic_screen kfont stack lit fmt args s = Inr s' \<and>
    shown kfont (bytes_of panic_banner @ render f cs args) (set_colour 0xFF0000 s) s'"
proof -
  let ?s = "set_colour 0xFF0000 s" and ?b = "bytes_of panic_banner"
  have rdy: "screen_ready kfont (?b @ render f cs args) ?s"
    using ready by (simp add: screen_ready_def console_ok_def set_colour_def)
  have p: "printable stack (\<lambda>_. []) ?s (lit panic_banner) ?b []" "printable stack f ?s fmt cs args"
    using printable_literal [OF lit banner_format(2)] msg by (simp_all add: printable_def set_colour_def)
  obtain s1 where s1: "printk_unsafe kfont stack (lit panic_banner) [] ?s = Inr s1" "shown kfont ?b ?s s1"
    using printk_unsafe_shown [OF _ p(1), of kfont, unfolded banner_format(1)] screen_ready_mono [OF rdy, of ?b] by auto
  have "framebuffer_available ?s" using ready(1) by (simp add: console_ok_def set_colour_def)
  then have av: "framebuffer_available s1" using s1(2) screen_shows_ok(2) by (auto simp: shown_def)
  obtain s2 where "printk_unsafe kfont stack fmt args s1 = Inr s2" "shown kfont (render f cs args) s1 s2"
    using printk_unsafe_shown [OF shown_ready [OF s1(2) rdy] printable_keep [OF shown_same [OF s1(2)] p(2)]] by blast
  then show ?thesis using s1 shown_trans [OF s1(2)] av by (auto simp: panic_screen_def printk_unsafe_def)
qed

lemma panic_serial_ok:
  assumes dev: "uart_transmits pio sent busy" and lit: "literal_ok stack lit s panic_banner" and msg: "printable stack f s fmt cs args"
  shows "\<exists>h'. panic_serial pio True (heap_bytes s) stack lit fmt args h = Inr h' \<and>
    sent h' = sent h @ crlf (bytes_of panic_banner @ render f cs args)"
proof -
  obtain h1 where h1: "printk_serial_unsafe pio True (heap_bytes s) stack (lit panic_banner) [] h = Inr h1" "sent h1 = sent h @ crlf (bytes_of panic_banner)"
    using serial_printable [OF dev printable_literal [OF lit banner_format(2)], of h "\<lambda>_. []", unfolded banner_format(1)] by blast
  then show ?thesis using serial_printable [OF dev msg, of h1] by (auto simp: panic_serial_def)
qed

lemma panic_tail_ok:
  assumes dev: "uart_transmits pio sent busy"
    and lit: "literal_ok stack lit s [newline]" "literal_ok stack lit s (''Trace %d: %p'' @ [newline])"
    and ready: "screen_ready kfont ([0x0A] @ trace_text walk xs) s"
  obtains s1 h1 s' h' where "printk_unsafe kfont stack (lit [newline]) [] s = Inr s1"
    "printk_serial_unsafe pio True (heap_bytes s1) stack (lit [newline]) [] h = Inr h1"
    "print_trace kfont pio True stack lit walk xs s1 h1 = Inr (s', h')"
    "shown kfont ([0x0A] @ trace_text walk xs) s s'" "sent h' = sent h @ crlf ([0x0A] @ trace_text walk xs)"
proof -
  have p: "printable stack (\<lambda>_. []) s (lit [newline]) (bytes_of [newline]) []" by (rule printable_literal [OF lit(1) banner_format(4)])
  obtain s1 where s1: "printk_unsafe kfont stack (lit [newline]) [] s = Inr s1" "shown kfont [0x0A] s s1"
    using printk_unsafe_shown [OF _ p, of kfont, unfolded banner_format(3)] screen_ready_mono [OF ready, of "[0x0A]"] by auto
  note keep = shown_same [OF s1(2)]
  obtain h1 where h1: "printk_serial_unsafe pio True (heap_bytes s1) stack (lit [newline]) [] h = Inr h1" "sent h1 = sent h @ crlf [0x0A]"
    using serial_printable [OF dev printable_keep [OF keep p], of h, unfolded banner_format(3)] by blast
  obtain s' h' where t: "print_trace kfont pio True stack lit walk xs s1 h1 = Inr (s', h')" "shown kfont (trace_text walk xs) s1 s'"
    "sent h' = sent h1 @ crlf (trace_text walk xs)"
    using print_trace_ok [OF dev shown_ready [OF s1(2) ready] literal_ok_keep [OF keep lit(2)]] by blast
  show thesis
    by (rule that [OF s1(1) h1(1) t(1) shown_trans [OF s1(2) t(2)]]) (use t(3) h1(2) in \<open>simp only: crlf_append append_assoc\<close>)
qed

text \<open>
  (C39) A panic: the call ends with the processor halted and its interrupts off. On a serial port that works it has sent the message
  rendered from its format and arguments, and then the return addresses of the callers, up to six and up to the first that is
  not in the kernel's image; with a framebuffer, the loaded font and a message in the characters of the font, the same text is on the
  screen in red, and without one nothing is touched there.
\<close>

theorem panic_shows_message:
  fixes s :: "'a fb_state_scheme"
  assumes dev: "uart_transmits pio sent busy" and kill: "sent (arch_kill_ap io (kernel_hhdm_offset s) online h) = sent h"
    and lit: "literal_ok stack lit s panic_banner" "literal_ok stack lit s [newline]" "literal_ok stack lit s (''Trace %d: %p'' @ [newline])"
    and msg: "printable stack f s fmt cs args"
    and screen: "framebuffer_available s \<longrightarrow> console_ok kfont s \<and> screen_room kfont (panic_text (render f cs args) walk) s"
  shows "\<exists>s' h'. panic kfont pio True io online stack lit walk fmt args s h = Inr (s', h') \<and> \<not> interrupts_enabled s' \<and>
    sent h' = sent h @ crlf (panic_text (render f cs args) walk) \<and>
    terminal_of s' = (if framebuffer_available s
      then fold (term_put kfont (main_framebuffer s) 0xFF0000) (panic_text (render f cs args) walk) (terminal_of s)
      else terminal_of s)"
proof -
  define s0 where "s0 = s\<lparr>interrupts_enabled := False\<rparr>"
  define c where "c = (if framebuffer_available s then set_colour 0xFF0000 s0 else s0)"
  define m t where mt: "m = bytes_of panic_banner @ render f cs args" "t = [0x0A] @ trace_text walk [1, 2, 3, 4, 5, 6]"
  have pt: "panic_text (render f cs args) walk = m @ t" by (simp only: panic_text_def mt append_assoc)
  have lit0: "literal_ok stack lit s0 str = literal_ok stack lit s str" "literal_ok stack lit c str = literal_ok stack lit s str"
    "printable stack f s0 fmt cs args" "printable stack f c fmt cs args" for str
    using msg by (simp_all add: literal_ok_def printable_def s0_def c_def set_colour_def)
  have rdy: "screen_ready kfont (m @ t) c"
    using screen unfolding pt by (simp add: screen_ready_def screen_room_def c_def s0_def set_colour_def console_ok_def)
  obtain s1 where s1: "(if framebuffer_available s0 then panic_screen kfont stack lit fmt args s0 else Inr s0) = Inr s1" "shown kfont m c s1"
  proof (cases "framebuffer_available s")
    case True
    have "console_ok kfont s0" "screen_room kfont m (set_colour 0xFF0000 s0)"
      using True screen screen_ready_mono [OF rdy, of m] by (simp_all add: c_def s0_def console_ok_def screen_ready_def set_colour_def)
    from panic_screen_ok [OF this [unfolded mt]] obtain s1 where "panic_screen kfont stack lit fmt args s0 = Inr s1" "shown kfont m (set_colour 0xFF0000 s0) s1"
      using lit(1) lit0 unfolding mt by blast
    then show thesis using that True by (simp add: c_def s0_def)
  next
    case False
    then show thesis using that by (simp add: c_def s0_def shown_def)
  qed
  note keep = shown_same [OF s1(2)]
  have lit1: "literal_ok stack lit s1 str" if "literal_ok stack lit s str" for str using literal_ok_keep [OF keep] lit0(2) that by blast
  let ?h = "arch_kill_ap io (kernel_hhdm_offset s) online h"
  obtain h1 where h1: "panic_serial pio True (heap_bytes s1) stack lit fmt args ?h = Inr h1" "sent h1 = sent ?h @ crlf m"
    using panic_serial_ok [OF dev lit1 [OF lit(1)] printable_keep [OF keep lit0(4)]] unfolding mt by blast
  obtain s2 h2 s' h' where e: "printk_unsafe kfont stack (lit [newline]) [] s1 = Inr s2"
    "printk_serial_unsafe pio True (heap_bytes s2) stack (lit [newline]) [] h1 = Inr h2"
    "print_trace kfont pio True stack lit walk [1, 2, 3, 4, 5, 6] s2 h2 = Inr (s', h')"
    "shown kfont t s1 s'" "sent h' = sent h1 @ crlf t"
    by (rule panic_tail_ok [OF dev lit1 [OF lit(2)] lit1 [OF lit(3)] shown_ready [OF s1(2) rdy, unfolded mt(2)], folded mt(2)])
  have "panic kfont pio True io online stack lit walk fmt args s h = Inr (s', h')"
    by (simp only: panic_def Let_def s0_def [symmetric] s1(1) h1(1) e(1-3) sum.case)
  moreover have sh: "shown kfont (m @ t) c s'" by (rule shown_trans [OF s1(2) e(4)])
  moreover have "\<not> interrupts_enabled s'"
  proof -
    have "\<not> interrupts_enabled c" by (simp add: c_def s0_def set_colour_def)
    then show ?thesis using shown_same [OF sh] by (auto simp: same_console_def)
  qed
  moreover have "terminal_of s' = (if framebuffer_available s
      then fold (term_put kfont (main_framebuffer s) 0xFF0000) (m @ t) (terminal_of s) else terminal_of s)"
  proof -
    have "terminal_of c = terminal_of s" "main_framebuffer c = main_framebuffer s"
      "framebuffer_available c = framebuffer_available s" "framebuffer_available s \<Longrightarrow> cursor_colour (main_cursor c) = 0xFF0000"
      by (simp_all add: c_def s0_def set_colour_def terminal_of_def cong: if_cong)
    then show ?thesis using sh by (auto simp: shown_def screen_shows_def)
  qed
  ultimately show ?thesis using h1(2) e(5) kill unfolding pt by (auto simp del: trace_text.simps)
qed

subsection \<open>What the sanitizer reports\<close>

lemma cstr_unique: "cstr m p xs \<Longrightarrow> cstr m p ys \<Longrightarrow> xs = ys"
proof (induction xs arbitrary: p ys)
  case Nil
  then show ?case by (cases ys) auto
next
  case (Cons x xs)
  then show ?case by (cases ys) auto
qed

text \<open>A string of the memory that the output routine can read.\<close>

definition env_reads :: "'h print_env \<Rightarrow> u64 \<Rightarrow> u8 list \<Rightarrow> bool" where
  "env_reads env p cs \<longleftrightarrow> cstr (env_memory env) p cs \<and> off_block (env_stack env) 32 p (Suc (length cs))"

definition tu_line :: "string \<Rightarrow> u8 list \<Rightarrow> tu_source_location \<Rightarrow> u8 list" where
  "tu_line message name loc = bytes_of ''tinyubsan: '' @ bytes_of message @ bytes_of '' at file '' @ name @
     bytes_of '', line '' @ num_text 10 (unat (loc_line loc)) @ bytes_of '', column '' @ num_text 10 (unat (loc_column loc)) @ [0x0A]"

lemma tu_format_render:
  "render f (bytes_of tu_format) [a, b, c, d] = bytes_of ''tinyubsan: '' @ f a @ bytes_of '' at file '' @ f b @
     bytes_of '', line '' @ num_text 10 (unat c) @ bytes_of '', column '' @ num_text 10 (unat d) @ [0x0A]"
  "args_ok m stack f (bytes_of tu_format) [a, b, c, d] \<longleftrightarrow>
     (cstr m a (f a) \<and> off_block stack 32 a (Suc (length (f a)))) \<and> cstr m b (f b) \<and> off_block stack 32 b (Suc (length (f b)))"
  by (simp_all add: tu_format_def newline_def conversion_text_def)

text \<open>A handler that returns, having sent one line about the message and the place in the source.\<close>

definition reports :: "('h \<Rightarrow> u8 list) \<Rightarrow> u8 list \<Rightarrow> tu_source_location \<Rightarrow> string \<Rightarrow> ('h \<Rightarrow> 'h res) \<Rightarrow> bool" where
  "reports sent name loc message handler \<longleftrightarrow>
     (\<forall>h. \<exists>h'. handler h = Inr h' \<and> sent h' = sent h @ crlf (tu_line message name loc))"

lemma tu_print_location_reports:
  assumes dev: "uart_transmits (env_pio env) sent busy" "env_present env"
    and strings: "env_reads env (env_lit env tu_format) (bytes_of tu_format)" "env_reads env (env_lit env message) (bytes_of message)"
      "env_reads env (loc_file loc) name"
  shows "reports sent name loc message (tu_print_location env message loc)"
  unfolding reports_def
proof
  fix h
  let ?f = "\<lambda>a. if a = env_lit env message then bytes_of message else name"
  let ?args = "[env_lit env message, loc_file loc, ucast (loc_line loc), ucast (loc_column loc)]"
  have same: "bytes_of message = name" if "loc_file loc = env_lit env message"
    using cstr_unique strings(2,3) that by (auto simp: env_reads_def)
  have "args_ok (env_memory env) (env_stack env) ?f (bytes_of tu_format) ?args"
    unfolding tu_format_render using strings(2,3) same by (auto simp: env_reads_def)
  moreover have "render ?f (bytes_of tu_format) ?args = tu_line message name loc"
    unfolding tu_format_render using same by (auto simp: tu_line_def unat_u32_u64)
  ultimately show "\<exists>h'. tu_print_location env message loc h = Inr h' \<and> sent h' = sent h @ crlf (tu_line message name loc)"
    using serial_unsafe_text [OF dev(1), of "env_memory env" "env_lit env tu_format" "bytes_of tu_format" "env_stack env" ?f ?args h]
      strings(1) dev(2) by (simp add: tu_print_location_def env_reads_def)
qed

text \<open>The mask of \<open>log_alignment\<close> tests for alignment.\<close>

lemma alignment_mask:
  fixes ptr :: u64
  assumes "n < 31"
  shows "ptr AND scast (push_bit n (1 :: u32) - 1) \<noteq> 0 \<longleftrightarrow> \<not> 2 ^ n dvd unat ptr"
proof -
  have "scast (push_bit n (1 :: u32) - 1) = (mask n :: u64)"
    using assms by (intro bit_word_eqI) (auto simp: bit_simps mask_eq_exp_minus_1 [symmetric] push_bit_eq_mult)
  then have "ptr AND scast (push_bit n (1 :: u32) - 1) = take_bit n ptr" by (simp add: take_bit_eq_mask)
  moreover have "take_bit n ptr = 0 \<longleftrightarrow> take_bit n (unat ptr) = 0"
    by (metis unat_eq_zero unsigned_take_bit_eq)
  ultimately show ?thesis by (simp add: take_bit_eq_0_iff)
qed

subsection \<open>What the listings show\<close>

text \<open>One line for each block. The conversion \<open>%zu\<close> is none of the output routine's: its letters are printed.\<close>

definition dump_line :: "header_store \<Rightarrow> u64 \<Rightarrow> u8 list" where
  "dump_line hs b = bytes_of ''range 0x'' @ num_text 16 (unat (b + BLOCK_HEADER_SIZE)) @ bytes_of ''-0x'' @
     num_text 16 (unat (b + BLOCK_HEADER_SIZE + block_size (hs b))) @ bytes_of '' size zu B (~zu KB)'' @ [0x0A]"

lemma dump_format_render:
  "render f (bytes_of dump_format) [a, b, c, d] =
     bytes_of ''range 0x'' @ num_text 16 (unat a) @ bytes_of ''-0x'' @ num_text 16 (unat b) @ bytes_of '' size zu B (~zu KB)'' @ [0x0A]"
  "args_ok m stack f (bytes_of dump_format) [a, b, c, d]"
  by (simp_all add: dump_format_def newline_def conversion_text_def)

lemma dump_list_lines:
  assumes dev: "uart_transmits (env_pio env) sent busy" "env_present env" and fmt: "env_reads env (env_lit env dump_format) (bytes_of dump_format)"
  shows "links hs p xs 0 \<Longrightarrow> \<exists>h'. block_allocator_dump_list env hs (head_or 0 xs) h = Some (Inr h') \<and>
    sent h' = sent h @ crlf (concat (map (dump_line hs) xs))"
proof (induction xs arbitrary: p h)
  case Nil
  then show ?case by (subst block_allocator_dump_list.simps) simp
next
  case (Cons x xs)
  have x: "x \<noteq> 0" "block_next (hs x) = head_or 0 xs" "links hs x xs 0" using Cons.prems by (auto split: list.splits)
  let ?args = "[x + BLOCK_HEADER_SIZE, x + BLOCK_HEADER_SIZE + block_size (hs x), block_size (hs x), block_size (hs x) div 1024]"
  obtain h1 where h1: "printk_serial_unsafe (env_pio env) True (env_memory env) (env_stack env) (env_lit env dump_format) ?args h = Inr h1"
    "sent h1 = sent h @ crlf (dump_line hs x)"
    using serial_unsafe_text [OF dev(1) _ _ dump_format_render(2) [where f = "\<lambda>_. []"], of "env_memory env" "env_lit env dump_format" "env_stack env"
        "x + BLOCK_HEADER_SIZE" "x + BLOCK_HEADER_SIZE + block_size (hs x)" "block_size (hs x)" "block_size (hs x) div 1024" h] fmt
    unfolding dump_format_render(1) by (auto simp: env_reads_def dump_line_def)
  obtain h' where "block_allocator_dump_list env hs (head_or 0 xs) h1 = Some (Inr h')"
    "sent h' = sent h1 @ crlf (concat (map (dump_line hs) xs))"
    using Cons.IH [OF x(3)] by blast
  then show ?case using x(1,2) h1 dev(2) by (subst block_allocator_dump_list.simps) simp
qed

lemma heap_dump_lines:
  assumes dev: "uart_transmits (env_pio env) sent busy" "env_present env"
    and fmt: "env_reads env (env_lit env dump_format) (bytes_of dump_format)"
      "env_reads env (env_lit env (''dumping free list'' @ [newline])) (bytes_of (''dumping free list'' @ [newline]))"
    and heap: "block_lists s fs bs"
  shows "\<exists>h'. block_allocator_dump_free_list env s h = Inr h' \<and>
    sent h' = sent h @ crlf (bytes_of ''dumping free list'' @ [0x0A] @ concat (map (dump_line (headers s)) fs))"
proof -
  let ?title = "''dumping free list'' @ [newline]"
  have r: "render (\<lambda>_. []) (bytes_of ?title) [] = bytes_of ''dumping free list'' @ [0x0A]" "args_ok m stack (\<lambda>_. []) (bytes_of ?title) []" for m stack
    by (simp_all add: newline_def)
  obtain h1 where h1: "printk_serial_unsafe (env_pio env) True (env_memory env) (env_stack env) (env_lit env ?title) [] h = Inr h1"
    "sent h1 = sent h @ crlf (bytes_of ''dumping free list'' @ [0x0A])"
    using serial_unsafe_text [OF dev(1) _ _ r(2), of "env_memory env" "env_lit env ?title" "env_stack env" h] fmt(2) unfolding r(1) env_reads_def by auto
  have l: "links (headers s) 0 fs 0" "block_free_list_start s = head_or 0 fs" using heap by (simp_all add: block_lists_def)
  obtain h' where "block_allocator_dump_list env (headers s) (head_or 0 fs) h1 = Some (Inr h')"
    "sent h' = sent h1 @ crlf (concat (map (dump_line (headers s)) fs))"
    using dump_list_lines [OF dev fmt(1) l(1)] by blast
  then show ?thesis using h1 l(2) dev(2) by (simp add: block_allocator_dump_free_list_def dump_titled_list_def crlf_def)
qed

text \<open>The mount points, one line each; the state stays as it was.\<close>

definition mount_line :: "u8 list \<Rightarrow> u8 list \<Rightarrow> u8 list" where
  "mount_line name fs = bytes_of ''vfs: mount point: '' @ name @ bytes_of '' on '' @ fs @ [0x0A]"

lemma mount_format_render:
  "render f (bytes_of mount_format) [a, b] = mount_line (f a) (f b)"
  "args_ok m stack f (bytes_of mount_format) [a, b] \<longleftrightarrow>
     (cstr m a (f a) \<and> off_block stack 32 a (Suc (length (f a)))) \<and> cstr m b (f b) \<and> off_block stack 32 b (Suc (length (f b)))"
  by (simp_all add: mount_format_def mount_line_def newline_def conversion_text_def)

text \<open>A string of the kernel's memory that the output routine can read.\<close>

definition readable :: "u64 \<Rightarrow> mem8 \<Rightarrow> u64 \<Rightarrow> u8 list \<Rightarrow> bool" where
  "readable stack m p cs \<longleftrightarrow> cstr m p cs \<and> off_block stack 32 p (Suc (length cs))"

lemma print_mounts_lines:
  assumes dev: "uart_transmits pio sent busy" and lock: "printk_lock s = 0"
    and fmt: "readable stack (heap_bytes s) (lit mount_format) (bytes_of mount_format)"
  shows "mount_chain (mounts s) p ms \<Longrightarrow>
    list_all (\<lambda>(x, n, name, fs). readable stack (heap_bytes s) n (text n) \<and> readable stack (heap_bytes s) (fs_name fs) (text (fs_name fs))) ms \<Longrightarrow>
    \<exists>h'. print_mounts pio True stack lit fs_name p s h = Some (Inr (s, h')) \<and>
      sent h' = sent h @ crlf (concat (map (\<lambda>(x, n, name, fs). mount_line (text n) (text (fs_name fs))) ms))"
proof (induction ms arbitrary: p h)
  case Nil
  then show ?case by (subst print_mounts.simps) simp
next
  case (Cons e ms)
  obtain x n name fs where e: "e = (x, n, name, fs)" by (cases e)
  have x: "p = x" "x \<noteq> 0" "mount_name (mounts s x) = n" "mount_fs (mounts s x) = fs" "mount_chain (mounts s) (mount_next (mounts s x)) ms"
    using Cons.prems(1) by (auto simp: e)
  have "args_ok (heap_bytes s) stack text (bytes_of mount_format) [n, fs_name fs]"
    unfolding mount_format_render using Cons.prems(2) by (simp add: e readable_def)
  from serial_vprintk_line [OF dev lock _ _ this, of "lit mount_format" h, unfolded mount_format_render(1)]
  obtain h1 where h1: "serial_vprintk pio True stack (lit mount_format) [n, fs_name fs] s h = Inr (s, h1)"
    "sent h1 = sent h @ crlf (mount_line (text n) (text (fs_name fs)))"
    using fmt by (auto simp: readable_def)
  obtain h' where "print_mounts pio True stack lit fs_name (mount_next (mounts s x)) s h1 = Some (Inr (s, h'))"
    "sent h' = sent h1 @ crlf (concat (map (\<lambda>(x, n, name, fs). mount_line (text n) (text (fs_name fs))) ms))"
    using Cons.IH [OF x(5)] Cons.prems(2) by auto
  then show ?case using x h1 by (subst print_mounts.simps) (simp add: e)
qed

text \<open>The devices as a forest: the address and the name of a device, and the devices below it.\<close>

datatype dev_tree = Dev u64 "u8 list" "dev_tree list"

fun forest_at :: "u64 \<Rightarrow> mem8 \<Rightarrow> (u64 \<Rightarrow> device) \<Rightarrow> u64 \<Rightarrow> dev_tree list \<Rightarrow> bool" where
  "forest_at stack m ds p [] \<longleftrightarrow> p = 0"
| "forest_at stack m ds p (Dev x name below # rest) \<longleftrightarrow> p = x \<and> x \<noteq> 0 \<and> readable stack m (dev_name (ds x)) name \<and>
     forest_at stack m ds (dev_child (ds x)) below \<and> forest_at stack m ds (dev_next (ds x)) rest"

fun forest_lines :: "nat \<Rightarrow> dev_tree list \<Rightarrow> u8 list" where
  "forest_lines depth [] = []"
| "forest_lines depth (Dev x name below # rest) =
     concat (replicate depth (bytes_of ''-- '')) @ name @ [0x0A] @ forest_lines (Suc depth) below @ forest_lines depth rest"

lemma print_indent_lines:
  assumes dev: "uart_transmits pio sent busy" and lock: "printk_lock s = 0" and fmt: "readable stack (heap_bytes s) fmt (bytes_of ''-- '')"
  shows "\<exists>h'. print_indent pio True stack fmt n s h = Inr (s, h') \<and> sent h' = sent h @ crlf (concat (replicate n (bytes_of ''-- '')))"
proof (induction n arbitrary: h)
  case (Suc n)
  obtain h1 where "serial_vprintk pio True stack fmt [] s h = Inr (s, h1)" "sent h1 = sent h @ crlf (bytes_of ''-- '')"
    using serial_vprintk_line [OF dev lock, of fmt "bytes_of ''-- ''" stack "\<lambda>_. []" "[]" h] fmt by (auto simp: readable_def)
  then show ?case using Suc [of h1] by (auto simp del: bytes_of_simps)
qed simp

lemma devices_lines:
  assumes dev: "uart_transmits pio sent busy" and lock: "printk_lock s = 0"
    and fmt: "readable stack (heap_bytes s) (lit ''-- '') (bytes_of ''-- '')"
      "readable stack (heap_bytes s) (lit (''%s'' @ [newline])) (bytes_of (''%s'' @ [newline]))"
  shows "forest_at stack (heap_bytes s) (devices s) p forest \<Longrightarrow>
    \<exists>h'. list_devices_layer pio True stack lit p depth s h = Some (Inr (s, h')) \<and> sent h' = sent h @ crlf (forest_lines depth forest)"
proof (induction depth forest arbitrary: p h rule: forest_lines.induct)
  case (1 depth)
  then show ?case by (subst list_devices_layer.simps) simp
next
  case (2 depth x name below rest)
  let ?d = "devices s x" and ?t = "lit (type_string (dev_type (devices s x)))"
  have x: "p = x" "x \<noteq> 0" "readable stack (heap_bytes s) (dev_name ?d) name"
    "forest_at stack (heap_bytes s) (devices s) (dev_child ?d) below" "forest_at stack (heap_bytes s) (devices s) (dev_next ?d) rest"
    using 2(3) by auto
  obtain h1 where h1: "print_indent pio True stack (lit ''-- '') depth s h = Inr (s, h1)"
    "sent h1 = sent h @ crlf (concat (replicate depth (bytes_of ''-- '')))"
    using print_indent_lines [OF dev lock fmt(1)] by blast
  have a: "args_ok (heap_bytes s) stack (\<lambda>_. name) (bytes_of (''%s'' @ [newline])) [dev_name ?d, ?t]"
    and r: "render (\<lambda>_. name) (bytes_of (''%s'' @ [newline])) [dev_name ?d, ?t] = name @ [0x0A]"
    using x(3) by (simp_all add: readable_def newline_def conversion_text_def)
  from serial_vprintk_line [OF dev lock _ _ a, of "lit (''%s'' @ [newline])" h1, unfolded r] fmt(2)
  obtain h2 where h2: "serial_vprintk pio True stack (lit (''%s'' @ [newline])) [dev_name ?d, ?t] s h1 = Inr (s, h2)"
    "sent h2 = sent h1 @ crlf (name @ [0x0A])"
    unfolding readable_def by blast
  obtain h3 where h3: "(if dev_child ?d \<noteq> 0 then list_devices_layer pio True stack lit (dev_child ?d) (Suc depth) s h2 else Some (Inr (s, h2))) =
      Some (Inr (s, h3))" "sent h3 = sent h2 @ crlf (forest_lines (Suc depth) below)"
  proof (cases "dev_child ?d = 0")
    case True
    then have "below = []" using x(4) by (cases below rule: list.exhaust; cases "hd below") auto
    then show thesis using that [of h2] True by simp
  next
    case False
    then show thesis using that 2(1) [OF x(4), of h2] by auto
  qed
  obtain h4 where h4: "list_devices_layer pio True stack lit (dev_next ?d) depth s h3 = Some (Inr (s, h4))"
    "sent h4 = sent h3 @ crlf (forest_lines depth rest)"
    using 2(2) [OF x(5), of h3] by blast
  have "list_devices_layer pio True stack lit p depth s h = Some (Inr (s, h4))"
    using x(1,2) h1(1) h2(1) h3(1) h4(1) by (subst list_devices_layer.simps) (simp split: if_splits)
  moreover have "sent h4 = sent h @ crlf (forest_lines depth (Dev x name below # rest))"
    using h1(2) h2(2) h3(2) h4(2) by (simp only: forest_lines.simps crlf_append append_assoc)
  ultimately show ?case by blast
qed

lemma mounts_listed:
  assumes dev: "uart_transmits pio sent busy" and lock: "printk_lock s = 0" "mount_lock s = 0"
    and fmt: "readable stack (heap_bytes s) (lit mount_format) (bytes_of mount_format)"
    and ms: "mount_chain (mounts s) (mount_next (mounts s (mount_points s))) ms"
      "list_all (\<lambda>(x, n, name, fs). readable stack (heap_bytes s) n (text n) \<and> readable stack (heap_bytes s) (fs_name fs) (text (fs_name fs))) ms"
  shows "\<exists>h'. vfs_print_debug pio True stack lit fs_name s h = Inr (s, h') \<and>
    sent h' = sent h @ crlf (concat (map (\<lambda>(x, n, name, fs). mount_line (text n) (text (fs_name fs))) ms))"
proof -
  let ?s = "s\<lparr>mount_lock := 1\<rparr>"
  have "\<exists>h'. print_mounts pio True stack lit fs_name (mount_next (mounts s (mount_points s))) ?s h = Some (Inr (?s, h')) \<and>
    sent h' = sent h @ crlf (concat (map (\<lambda>(x, n, name, fs). mount_line (text n) (text (fs_name fs))) ms))"
    by (rule print_mounts_lines [OF dev]) (use lock fmt ms in simp_all)
  moreover have "s\<lparr>mount_lock := 0\<rparr> = s" using lock(2) by simp
  ultimately show ?thesis using lock(2) by (auto simp: vfs_print_debug_def spinlock_acquire_free spinlock_release_eq)
qed

lemma devices_listed:
  assumes dev: "uart_transmits pio sent busy" and lock: "printk_lock s = 0"
    and fmt: "readable stack (heap_bytes s) (lit ''-- '') (bytes_of ''-- '')"
      "readable stack (heap_bytes s) (lit (''%s'' @ [newline])) (bytes_of (''%s'' @ [newline]))"
      "readable stack (heap_bytes s) (lit (''listing devices:'' @ [newline])) (bytes_of (''listing devices:'' @ [newline]))"
    and forest: "forest_at stack (heap_bytes s) (devices s) (device_list s) forest"
  shows "\<exists>h'. list_devices pio True stack lit s h = Inr (s, h') \<and>
    sent h' = sent h @ crlf (bytes_of ''listing devices:'' @ [0x0A] @ forest_lines 0 forest)"
proof -
  let ?title = "''listing devices:'' @ [newline]"
  have a: "args_ok (heap_bytes s) stack (\<lambda>_. []) (bytes_of ?title) []" and r: "render (\<lambda>_. []) (bytes_of ?title) [] = bytes_of ''listing devices:'' @ [0x0A]"
    by (simp_all add: newline_def)
  obtain h1 where h1: "serial_vprintk pio True stack (lit ?title) [] s h = Inr (s, h1)" "sent h1 = sent h @ crlf (bytes_of ''listing devices:'' @ [0x0A])"
    using serial_vprintk_line [OF dev lock _ _ a, of "lit ?title" h, unfolded r] fmt(3) unfolding readable_def by blast
  obtain h2 where h2: "list_devices_layer pio True stack lit (device_list s) 0 s h1 = Some (Inr (s, h2))" "sent h2 = sent h1 @ crlf (forest_lines 0 forest)"
    using devices_lines [OF dev lock fmt(1,2) forest] by blast
  have "sent h2 = sent h @ crlf (bytes_of ''listing devices:'' @ [0x0A] @ forest_lines 0 forest)"
    using h1(2) h2(2) by (simp only: crlf_append append_assoc)
  then show ?thesis using h1(1) h2(1) by (simp add: list_devices_def)
qed

subsection \<open>Properties\<close>

text \<open>What is wrong with a pointer, as the sanitizer puts it.\<close>

definition mismatch_message :: "tu_type_mismatch_v1_data \<Rightarrow> u64 \<Rightarrow> string" where
  "mismatch_message data ptr =
     (if ptr = 0 then ''use of nullptr''
      else if \<not> 2 ^ unat (log_alignment data) dvd unat ptr then ''use of misaligned pointer'' else ''no space for object'')"

definition sanitizer_messages :: "string list" where
  "sanitizer_messages =
     [''addition overflow'', ''subtraction overflow'', ''multiplication overflow'', ''division overflow'', ''negation overflow'',
      ''pointer overflow'', ''shift out of bounds'', ''invalid load value'', ''array out of bounds'', ''use of nullptr'',
      ''use of misaligned pointer'', ''no space for object'', ''variable-length argument is negative'', ''non-null return is null'',
      ''non-null argument is null'', ''unreachable code reached'', ''invalid builtin'']"

text \<open>
  (C40) The handlers that the compiler calls on undefined behaviour each return and send one line with what happened and the file,
  the line and the column. Of a bad pointer the line says that it is null, that it is not a multiple of the alignment of its type,
  or, when neither holds, that there is no room for the object.
\<close>

theorem sanitizer_reports_lines:
  assumes dev: "uart_transmits (env_pio env) sent busy" "env_present env"
    and strings: "\<forall>str \<in> set (tu_format # sanitizer_messages). env_reads env (env_lit env str) (bytes_of str)"
      "env_reads env (loc_file loc) name"
    and data: "mismatch_location data = loc" "log_alignment data < 31"
  shows "reports sent name loc ''addition overflow'' (ubsan_handle_add_overflow env \<lparr>overflow_location = loc, overflow_type = t\<rparr>) \<and>
    reports sent name loc ''subtraction overflow'' (ubsan_handle_sub_overflow env \<lparr>overflow_location = loc, overflow_type = t\<rparr>) \<and>
    reports sent name loc ''multiplication overflow'' (ubsan_handle_mul_overflow env \<lparr>overflow_location = loc, overflow_type = t\<rparr>) \<and>
    reports sent name loc ''division overflow'' (ubsan_handle_divrem_overflow env \<lparr>overflow_location = loc, overflow_type = t\<rparr>) \<and>
    reports sent name loc ''negation overflow'' (ubsan_handle_negate_overflow env \<lparr>overflow_location = loc, overflow_type = t\<rparr>) \<and>
    reports sent name loc ''pointer overflow'' (ubsan_handle_pointer_overflow env \<lparr>overflow_location = loc, overflow_type = t\<rparr>) \<and>
    reports sent name loc ''shift out of bounds''
      (ubsan_handle_shift_out_of_bounds env \<lparr>shift_location = loc, left_type = t, right_type = t'\<rparr>) \<and>
    reports sent name loc ''invalid load value'' (ubsan_handle_load_invalid_value env \<lparr>value_location = loc, value_type = t\<rparr>) \<and>
    reports sent name loc ''array out of bounds''
      (ubsan_handle_out_of_bounds env \<lparr>array_location = loc, array_type = t, index_type = t'\<rparr>) \<and>
    reports sent name loc (mismatch_message data ptr) (ubsan_handle_type_mismatch_v1 env data ptr) \<and>
    reports sent name loc ''variable-length argument is negative''
      (ubsan_handle_vla_bound_not_positive env \<lparr>vla_location = loc, vla_type = t\<rparr>) \<and>
    reports sent name loc ''non-null return is null'' (ubsan_handle_nonnull_return env \<lparr>return_location = loc\<rparr>) \<and>
    reports sent name loc ''non-null argument is null'' (ubsan_handle_nonnull_arg env \<lparr>arg_location = loc\<rparr>) \<and>
    reports sent name loc ''unreachable code reached'' (ubsan_handle_builtin_unreachable env \<lparr>unreachable_location = loc\<rparr>) \<and>
    reports sent name loc ''invalid builtin'' (ubsan_handle_invalid_builtin env \<lparr>builtin_location = loc, builtin_kind = k\<rparr>)"
proof -
  have line: "reports sent name loc message (tu_print_location env message loc)" if "message \<in> set sanitizer_messages" for message
    by (rule tu_print_location_reports [OF dev]) (use strings that in simp_all)
  have n: "unat (log_alignment data) < 31" using data(2) by (simp add: word_less_nat_alt)
  have "reports sent name loc (mismatch_message data ptr) (ubsan_handle_type_mismatch_v1 env data ptr)"
    unfolding ubsan_handle_type_mismatch_v1_def mismatch_message_def alignment_mask [OF n] data(1)
    using line [of "''use of nullptr''"] line [of "''use of misaligned pointer''"] line [of "''no space for object''"]
    by (simp add: sanitizer_messages_def)
  then show ?thesis
    by (simp add: ubsan_handle_add_overflow_def ubsan_handle_sub_overflow_def ubsan_handle_mul_overflow_def ubsan_handle_divrem_overflow_def
        ubsan_handle_negate_overflow_def ubsan_handle_pointer_overflow_def ubsan_handle_shift_out_of_bounds_def
        ubsan_handle_load_invalid_value_def ubsan_handle_out_of_bounds_def ubsan_handle_vla_bound_not_positive_def
        ubsan_handle_nonnull_return_def ubsan_handle_nonnull_arg_def ubsan_handle_builtin_unreachable_def
        ubsan_handle_invalid_builtin_def line sanitizer_messages_def)
qed

definition lost_strings :: "string list" where
  "lost_strings = [panic_banner, [newline], ''Trace %d: %p'' @ [newline], ''lost %d'']"

definition lost_text :: "u8 list" where
  "lost_text = bytes_of (''Kernel panic.'' @ [newline] @ ''Message: lost 7'' @ [newline] @ ''Trace 1: 0xFFFFFFFF80001234'' @ [newline])"

definition idle_io :: "'h cpu_io" where
  "idle_io = \<lparr>mmio_load32 = (\<lambda>_ h. (0, h)), mmio_store32 = (\<lambda>_ _ h. h), rdmsr = (\<lambda>_ h. (0, h)), wrmsr = (\<lambda>_ _ h. h),
     outb = (\<lambda>_ _ h. h)\<rparr>"

text \<open>A panic with the message \<open>"lost 7"\<close> and one return address inside the kernel.\<close>

theorem panic_shows_message_witness:
  "\<exists>s' h'. panic dot_font slow_pio True idle_io True 0x50000 (table_lit lost_strings) (\<lambda>x. if x = 1 then 0xFFFFFFFF80001234 else 0)
      (table_lit lost_strings ''lost %d'') [7] (talking_machine lost_strings) \<lparr>port_busy = 0, port_sent = []\<rparr> = Inr (s', h') \<and>
    port_sent h' = crlf lost_text \<and>
    terminal_of s' = fold (term_put dot_font small_screen 0xFF0000) lost_text (terminal_of (talking_machine lost_strings))"
proof -
  let ?s = "talking_machine lost_strings" and ?lit = "table_lit lost_strings" and ?h = "\<lparr>port_busy = 0, port_sent = []\<rparr>"
  let ?walk = "\<lambda>x :: u64. if x = 1 then 0xFFFFFFFF80001234 else 0 :: u64"
  have ok: "table_ok lost_strings" by (simp add: table_ok_def lost_strings_def panic_banner_def newline_def)
  have lit: "literal_ok 0x50000 ?lit ?s str" if "str \<in> set lost_strings" for str by (rule talking_machine_literal [OF ok that])
  have msg: "printable 0x50000 (\<lambda>_. []) ?s (?lit ''lost %d'') (bytes_of ''lost %d'') [7]"
    by (rule printable_literal [OF lit]) (simp_all add: lost_strings_def)
  have "render (\<lambda>_. []) (bytes_of ''lost %d'') [7] = bytes_of ''lost 7''"
    by (simp add: conversion_text_def num_text_digit digit_char_def)
  moreover have "num_text 16 0xFFFFFFFF80001234 = bytes_of ''FFFFFFFF80001234''"
    by (simp add: num_text_def digit_list.simps digit_chars_def)
  then have "panic_text (bytes_of ''lost 7'') ?walk = lost_text"
    by (simp add: lost_text_def panic_text_def panic_banner_def newline_def num_text_digit digit_char_def)
  ultimately have p: "panic_text (render (\<lambda>_. []) (bytes_of ''lost %d'') [7]) ?walk = lost_text" by simp
  have "console_ok dot_font ?s \<and> screen_room dot_font lost_text ?s"
    by (intro conjI talking_machine_screen) (simp_all add: lost_text_def newline_def)
  moreover have "port_sent (arch_kill_ap idle_io (kernel_hhdm_offset ?s) True ?h) = port_sent ?h"
    by (simp add: arch_kill_ap_def arch_xapic_write_def idle_io_def Let_def)
  ultimately show ?thesis
    using panic_shows_message [OF slow_pio_transmits _ lit lit lit msg, of idle_io True ?h dot_font ?walk, unfolded p]
    by (auto simp: lost_strings_def)
qed

text \<open>An overflow in line 12 of \<open>"a.c"\<close>, and a pointer that is not aligned to 8 bytes.\<close>

definition sanitizer_strings :: "string list" where
  "sanitizer_strings = tu_format # ''a.c'' # sanitizer_messages"

definition sanitizer_env :: "slow_port print_env" where
  "sanitizer_env = \<lparr>env_pio = slow_pio, env_present = True, env_memory = table_memory sanitizer_strings, env_stack = 0x50000,
     env_lit = table_lit sanitizer_strings\<rparr>"

definition sanitizer_loc :: tu_source_location where
  "sanitizer_loc = \<lparr>loc_file = table_lit sanitizer_strings ''a.c'', loc_line = 12, loc_column = 3\<rparr>"

theorem sanitizer_reports_lines_witness:
  "(\<exists>h'. ubsan_handle_add_overflow sanitizer_env \<lparr>overflow_location = sanitizer_loc, overflow_type = 0\<rparr> \<lparr>port_busy = 0, port_sent = []\<rparr> = Inr h' \<and>
      port_sent h' = crlf (bytes_of (''tinyubsan: addition overflow at file a.c, line 12, column 3'' @ [newline]))) \<and>
   (\<exists>h'. ubsan_handle_type_mismatch_v1 sanitizer_env
        \<lparr>mismatch_location = sanitizer_loc, mismatch_type = 0, log_alignment = 3, type_check_kind = 0\<rparr> 0x1004 \<lparr>port_busy = 0, port_sent = []\<rparr> = Inr h' \<and>
      port_sent h' = crlf (bytes_of (''tinyubsan: use of misaligned pointer at file a.c, line 12, column 3'' @ [newline])))"
proof -
  let ?data = "\<lparr>mismatch_location = sanitizer_loc, mismatch_type = 0, log_alignment = 3, type_check_kind = 0\<rparr>"
  have ok: "table_ok sanitizer_strings"
    by (simp add: table_ok_def sanitizer_strings_def sanitizer_messages_def tu_format_def newline_def)
  have reads: "env_reads sanitizer_env (table_lit sanitizer_strings str) (bytes_of str)" if "str \<in> set sanitizer_strings" for str
    using table_reads [OF ok that] off_block_below [of "table_lit sanitizer_strings str" "Suc (length str)" "0x50000" 32]
    by (simp add: env_reads_def sanitizer_env_def bytes_of_def)
  have strings: "\<forall>str \<in> set (tu_format # sanitizer_messages). env_reads sanitizer_env (env_lit sanitizer_env str) (bytes_of str)"
    "env_reads sanitizer_env (loc_file sanitizer_loc) (bytes_of ''a.c'')"
    using reads by (auto simp: sanitizer_strings_def sanitizer_env_def sanitizer_loc_def simp del: bytes_of_simps)
  have dev: "uart_transmits (env_pio sanitizer_env) port_sent port_busy" "env_present sanitizer_env"
    using slow_pio_transmits by (simp_all add: sanitizer_env_def)
  have n: "num_text 10 12 = bytes_of ''12''" "num_text 10 3 = bytes_of ''3''"
    by (simp_all add: num_text_def digit_list.simps digit_chars_def)
  have r: "reports port_sent (bytes_of ''a.c'') sanitizer_loc ''addition overflow''
      (ubsan_handle_add_overflow sanitizer_env \<lparr>overflow_location = sanitizer_loc, overflow_type = 0\<rparr>)"
    "reports port_sent (bytes_of ''a.c'') sanitizer_loc (mismatch_message ?data 0x1004) (ubsan_handle_type_mismatch_v1 sanitizer_env ?data 0x1004)"
    using sanitizer_reports_lines [OF dev strings, of ?data] by simp_all
  have m: "mismatch_message ?data 0x1004 = ''use of misaligned pointer''" by (simp add: mismatch_message_def)
  let ?h = "\<lparr>port_busy = 0, port_sent = []\<rparr>"
  show ?thesis
    using r(1) [unfolded reports_def, rule_format, of ?h] r(2) [unfolded reports_def m, rule_format, of ?h]
    by (simp add: tu_line_def sanitizer_loc_def n newline_def)
qed

end
