(* ===== verification/Spec2Isabelle.thy ===== *)
theory Spec2Isabelle
  imports Syscalls_Correct Elf_Correct Devices_Correct Interrupts Clock Framebuffer_Correct Io_Queue Acpi Uart Timers Apic Smp Console Init Memory_Boot Elf_Load Diagnostics
begin

text \<open>
  \<^bold>\<open>A verification library for the GaOS kernel.\<close>

  GaOS is a small multi-processor kernel for x86-64, written in C with a few assembly files. This library translates its
  routines into HOL functions, theory by theory, and proves what they promise each other and the programs that run on it.
  Paths below are relative to \<open>src/\<close>; \<open>K\<close> is \<open>kernel/src\<close>.

  \<^bold>\<open>The program and its parts.\<close> The boot loader (Limine) hands over a memory map, a direct map of physical memory
  (the higher half), frame buffers, modules and parked processors. From the memory map the kernel builds the pools of its page
  allocator; from pages it builds page tables and, on a range mapped by them, a heap of blocks. Everything else keeps its
  records on that heap: tasks and run queues, mount points and nodes of the virtual file system, devices, queued requests. A
  program is loaded from the ramdisk, is scheduled round-robin, and comes back through the system call instruction.

  \<^bold>\<open>How state is modelled.\<close> One state record grows along the imports, as the kernel's globals do:
  \<open>page_state\<close> (memory as 64-bit words, pools, a lock), \<open>pt_state\<close> (direct map offset, bootstrap table), \<open>block_state\<close>
  (headers of blocks, \<open>heap_bytes\<close>), \<open>sched_state\<close> (tasks, contexts, the GS bases and registers of this processor),
  \<open>vfs_state\<close> (nodes and mounts), \<open>dev_state\<close> (devices), then \<open>fb_state\<close>, \<open>con_state\<close>, \<open>ustar_state\<close>,
  \<open>io_state\<close>, \<open>acpi_state\<close> and \<open>int_state\<close> on their branches. An operation works on the scheme of the record it needs,
  so it runs unchanged in every larger state. A C object reached by a pointer is a record in a store indexed by its address;
  that objects do not overlap is not assumed but follows from the invariant of the heap. Table layers, bitmaps and
  descriptor tables are the memory words themselves; strings, buffers, archives and pixels are bytes.

  Integers have their width (\<open>u8\<close> to \<open>u64\<close>) and wrap as in C. A routine that can fail returns \<open>error + 'a\<close>:
  \<open>Inl\<close> is a panic, an access outside an array, a null dereference or a call that never returns. A loop whose end depends
  on the data is a \<open>partial_function\<close> into \<open>option\<close>, where not returning is the value \<open>None\<close>; a recursion over the
  tree of devices has fuel, and the theorems about it say how much is enough (the length of the path or list plus one is).
  Code outside the repository and hardware are arguments: ports and registers (\<open>pio\<close>, \<open>mmio\<close>, \<open>cpu_io\<close>), counters, the
  bytes of the font file (a read behind its end is an error), the responses of the boot loader, the callbacks behind a file
  system or a device.

  \<^bold>\<open>Theories.\<close>
  \<^item> \<open>GaOS_Prelude\<close>: machine integers, errors, shared lemmas on words, lists and searches.
  \<^item> \<open>Spinlock\<close> (\<open>K/lock/spinlock.c\<close>): the lock as a step relation of any number of processors, with mutual exclusion of
    every reachable state, and as the sequential operation the rest calls.
  \<^item> \<open>Frame_Interface\<close>: what a page allocator promises, as locales. \<open>Page_Allocator\<close>, \<open>Page_Allocator_Correct\<close>
    (\<open>K/memory/physical/page_allocator.c\<close>): pools and bitmaps; the pools of a boot memory map are well formed exactly when
    no bitmap is rounded too short, an allocation is fresh, aligned, zeroed and succeeds exactly when a pool has room and a free run, a release gives back those pages.
  \<^item> \<open>Page_Table\<close>, \<open>Page_Table_Correct\<close> (\<open>K/arch/x86_64/page_table_manager\<close>): the four-level walk over memory words;
    mapping a page or a range refines the update of a partial function from page numbers to frames.
  \<^item> \<open>Block_Allocator\<close>, \<open>Block_Allocator_Correct\<close> (\<open>K/memory/physical/block_allocator.c\<close>): splitting, merging and
    growing of the heap keep its invariant; blocks handed out are disjoint, and the list walks end. \<open>Kernel_Heap\<close> is the heap
    as its clients see it: a locale of live objects, interpreted on the allocator, which keeps the strings of the kernel's
    image and every other address outside the heap.
  \<^item> \<open>Memory_Boot\<close>: the bring-up of memory, pools to tables to heap, ends with all their invariants and with
    a table that maps memory, the kernel's image and the heap and nothing else. \<open>Address_Space\<close>
    (\<open>K/syscalls/sys_fork.c\<close>): what a program sees through its page table, and that a fork gives the child a copy of it.
  \<^item> \<open>Libc\<close>, \<open>Libc_Correct\<close> (\<open>K/misc/libc.c\<close>, \<open>libc.h\<close>): memory, strings, numbers and formatted output; \<open>Paths\<close>
    (the path routines of \<open>K/filesystem/vfs.c\<close>).
  \<^item> \<open>Cpu_Context\<close>, \<open>Round_Robin\<close>, \<open>Round_Robin_Correct\<close> (\<open>K/arch/x86_64/context\<close>, \<open>K/schedulers/task\<close>): contexts,
    run queues behind a locale, the switch to the next task and its fairness, creation, search and termination of tasks. A
    yield asks for the interrupt of the preemption timer, which leads to the same switch.
  \<^item> \<open>Vfs\<close>, \<open>Vfs_Correct\<close>, \<open>Devices\<close>, \<open>Devices_Correct\<close>, \<open>Ustar\<close>, \<open>Ustar_Correct\<close> (\<open>K/filesystem\<close>,
    \<open>K/devices/manager.c\<close>, \<open>K/boot/limine.c\<close>): the mount table as a list, the device tree, archives as lists of files.
  \<^item> \<open>Syscalls\<close>, \<open>Syscalls_Correct\<close>, \<open>Syscall_Entry\<close> (\<open>K/syscalls\<close>, \<open>K/arch/x86_64/syscall\<close>): the handlers, the
    table of descriptors, waiting; the entry from user code, with a locale for file systems that leave the caller alone, and
    the way of a fork through it, for the parent and for the child.
  \<^item> \<open>Task_Creation\<close> (\<open>K/schedulers/task\<close>): a task created while tables are in use, and where new pages can lie.
  \<^item> \<open>Elf\<close>, \<open>Elf_Correct\<close>, \<open>Elf_Load\<close> (\<open>K/executables\<close>, the end of \<open>K/main.c\<close>): loading a program into a new task; what is
    refused, and what the address space and the task hold when it is loaded.
  \<^item> \<open>Interrupts\<close> (\<open>K/arch/x86_64/idt\<close>, \<open>gdt\<close>): gates, descriptors and the page fault that grows a stack.
  \<^item> \<open>Framebuffer\<close>, \<open>Framebuffer_Correct\<close>, \<open>Uart\<close>, \<open>Console\<close> (\<open>K/devices\<close>, \<open>K/misc/logger.c\<close>): the screen as a terminal
    of pixels, the serial port, the console device and the log, whose lines reach both the screen and the serial port.
  \<^item> \<open>Diagnostics\<close> (\<open>K/misc/panic.c\<close>, \<open>K/sanitizers\<close> and the listings of the heap, the mounts, the devices and the
    ramdisk): what a panic, every report of the sanitizer and a trace of a system call show.
  \<^item> \<open>Io_Queue\<close> (\<open>K/io/queue.c\<close>), \<open>Acpi\<close> (\<open>K/acpi/acpi.c\<close>), \<open>Clock\<close> (\<open>K/clock/clock.c\<close>), \<open>Timers\<close>
    (\<open>K/arch/x86_64/timers\<close>, \<open>K/devices/timers\<close>), \<open>Apic\<close> (\<open>K/arch/x86_64/xapic\<close>), \<open>Smp\<close> (\<open>K/arch/x86_64/smp\<close>),
    where the set-up that a processor does on itself is a step that succeeds.
  \<^item> \<open>Init\<close> (\<open>apps/init/src\<close>): the first user program, on top of the system call instruction; each of its wrappers
    reaches its handler.

  \<^bold>\<open>Properties.\<close> Invariants come first: \<open>page_inv\<close>, \<open>pt_inv\<close>, \<open>block_inv\<close>, \<open>heap_ok\<close>, the queue representation and
  the reachable states of the lock and of the processor start-up. Refinements follow: page tables to partial functions, the
  mount table and the request queue to lists, the screen to a terminal. Round trips cover allocation and release, numbers and
  their digits, a file of an archive and what is read of it. Error paths are theorems of their own: refused descriptors,
  devices and executables leave the state as it was. Waits and walks are shown to end. Below, the components are composed: a
  byte that a program writes goes through the entry, the handler, the file system, the device and the formatter to the pixels;
  in \<open>Memory_Boot\<close>, \<open>Address_Space\<close> and \<open>Elf_Load\<close> pages, tables, heap, files and scheduler work together. Fuel and spare
  pages are hypotheses with numbers: three pages for the layers of a mapping and one for the page itself.
  Where the code does not do what it is meant to, a lemma states what it does instead.

  \<^bold>\<open>Not modelled.\<close> \<open>K/main.c\<close>, up to the loading of the first program, and \<open>K/arch/x86_64/arch.c\<close> only call the
  initialisation routines in order; single instructions
  (\<open>pio.h\<close>, \<open>msr.h\<close>, \<open>cpuid.h\<close>) are arguments of the drivers. \<open>K/executables/elfabi.h\<close> is mostly constants that the loader
  does not use, and the headers of the tables and registers of the hardware are layouts. Log and trace messages inside
  an operation are output only and are left out of it; \<open>Console\<close> and \<open>Uart\<close> have the routines that print them. Where a routine calls \<open>panic\<close> in the middle of its work, the model stops with an error value;
  \<open>Diagnostics\<close> has what is shown then. Other processors appear in \<open>Spinlock\<close> and \<open>Smp\<close>; everywhere else one
  processor runs, and a taken lock means that it waits for ever.
\<close>

text \<open>
  (C7) The way of a byte from a program to the screen: a write system call of a user task on a descriptor of the console returns the
  number of bytes to the instruction behind the call, on the task's own stack, and the screen shows what the abstract terminal shows
  after these bytes. The bytes are ASCII: for others the code reads outside its font.
\<close>

theorem user_write_reaches_screen:
  assumes task: "user_task c s" and regs: "reg_rdi st = 0" "reg_rsi st = fd" "reg_rdx st = buffer" "reg_r10 st = n"
    and opened: "IS_USER_MEMORY buffer (tasks s c) s" "fd_node (tasks s c) fd s = node" "node \<noteq> 0"
    and dev: "dev_write (devices s (node_private (nodes s node))) = write" "write \<noteq> 0" "write \<noteq> read"
    and screen: "console_ok kfont s" "printk_lock s = 0" "cstr (heap_bytes s) fmt [0x25, 0x63]"
      "\<And>i. i \<le> 2 \<Longrightarrow> off_screen (main_framebuffer s) (fmt + of_nat i)"
      "\<And>i. i < unat n \<Longrightarrow> off_screen (main_framebuffer s) (buffer + of_nat i)"
      "unat (cursor_y (main_cursor s)) + (unat n + 1) * unat (font_height kfont) < 2 ^ 64"
    and ascii: "\<And>i. i < unat n \<Longrightarrow> heap_bytes s (buffer + of_nat i) < 0x80"
  shows "\<exists>s'. arch_syscall_entry fuel (console_ops depth dot kfont stack fmt read) st s =
      Inr (Sysret \<lparr>ret_rip = reg_rcx st, ret_rflags = reg_r11 st, ret_rsp = reg_rsp st, ret_rax = n\<rparr> s') \<and>
    terminal_of s' = fold (term_put kfont (main_framebuffer s) (cursor_colour (main_cursor s)))
      (bytes_at (heap_bytes s) buffer (unat n)) (terminal_of s)"
proof -
  let ?ops = "console_ops depth dot kfont stack fmt read" and ?e = "entered c st s"
  obtain s' where s': "console_write kfont stack fmt node buffer n ?e = Inr (n, s')"
    "terminal_of s' = fold (term_put kfont (main_framebuffer s) (cursor_colour (main_cursor s)))
      (bytes_at (heap_bytes s) buffer (unat n)) (terminal_of s)"
    using console_write_ok [of kfont ?e fmt n buffer stack node] screen ascii by auto
  have "running_task c ?e" using task by (simp add: user_task_running entered_def)
  then have "sys_write ?ops fd buffer n ?e = Inr (n, s')"
    using opened dev s'(1) by (simp add: sys_write_def Let_def vfs_write_def console_ops_def devfs_def devfs_write_def console_rw_def)
  then have "(syscall_handlers fuel ?ops ! 0) st ?e = Inr (Done n s')" by (simp add: syscall_handlers_def returning_def regs)
  then have "arch_syscall_entry fuel ?ops st s = Inr (back_to_user st n s')"
    using entry_runs_handler [OF task console_ops_quiet, of st fuel] regs(1) by simp
  moreover have "terminal_of (s'\<lparr>interrupts_enabled := i\<rparr>) = terminal_of s'" for i by (simp add: terminal_of_def cong: if_cong)
  ultimately show ?thesis using s'(2) by (simp add: back_to_user_def)
qed

text \<open>A task with the console as its first descriptor writes the letter A to a small screen.\<close>

definition console_machine :: con_state where
  "console_machine = fb_state.extend (projr (framebuffer_init dot_font (Some [small_screen])
     (dev_state.extend (vfs_state.extend
        ((call_machine (call_memory(0x20000 := 0xA000)) 1)\<lparr>heap_bytes := (\<lambda>_. 0)(0x1000 := 0x41, 0x1800 := 0x25, 0x1801 := 0x63),
           nodes := (\<lambda>_. zero_node)(0xA000 := zero_node\<lparr>node_private := 0xD000\<rparr>)\<rparr>)
        (dev_state.fields ((\<lambda>_. zero_device)(0xD000 := zero_device\<lparr>dev_write := 0x77\<rparr>)) 0))
        (fb_state.fields False small_screen \<lparr>cursor_x = 0, cursor_y = 0, cursor_colour = 0\<rparr> 0 0))))
     (con_state.fields 0 0)"

definition write_registers :: arch_cpu_state where
  "write_registers = zero_cpu_state\<lparr>reg_rdx := 0x1000, reg_r10 := 1, reg_rcx := 0x401000, reg_r11 := 0x202, reg_rsp := 0x7000\<rparr>"

lemma console_machine_fields [simp]:
  "heap_bytes console_machine = (\<lambda>_. 0)(0x1000 := 0x41, 0x1800 := 0x25, 0x1801 := 0x63)"
  "nodes console_machine 0xA000 = zero_node\<lparr>node_private := 0xD000\<rparr>" "dev_write (devices console_machine 0xD000) = 0x77"
  "main_framebuffer console_machine = small_screen" "framebuffer_available console_machine" "printk_lock console_machine = 0"
  "main_cursor console_machine = \<lparr>cursor_x = 0, cursor_y = 0, cursor_colour = 0xFFFFFF\<rparr>" "font_glyphs console_machine = 32"
  "framebuffer_spinlock console_machine = 0" "memory console_machine = call_memory(0x20000 := 0xA000)"
  "kernel_hhdm_offset console_machine = 0x80000000" "tasks console_machine 0x2000 = caller_task\<lparr>fd_count := 1, task_next := 0x5000\<rparr>"
  "gs_base console_machine = 0x2000" "cpu_contexts console_machine 0x2000 = None"
  by (simp_all add: console_machine_def framebuffer_init_def framebuffer_generate_structure_from_limine_def dot_font_sizes
      small_screen_def dot_font_length con_state.defs dev_state.defs vfs_state.defs sched_state.defs fb_state.defs
      call_machine_def small_machine_def)

theorem user_write_reaches_screen_witness:
  "\<exists>s'. arch_syscall_entry 1 (console_ops 1 0 dot_font 0x3000 0x1800 0x66) write_registers console_machine =
      Inr (Sysret \<lparr>ret_rip = 0x401000, ret_rflags = 0x202, ret_rsp = 0x7000, ret_rax = 1\<rparr> s') \<and>
    term_x (terminal_of s') = 8 \<and> term_pixel (terminal_of s') 0 0 = [0xFF, 0xFF, 0xFF, 0]"
proof -
  let ?s = console_machine
  have off: "off_screen small_screen (0x1000 + of_nat i)" if "i < 4096" for i
    using that by (simp add: off_screen_def small_screen_def fb_bytes_def) (subst unat_minus_wrap; simp add: unat_plus_exact unat_of_nat_exact)
  have "user_task 0x2000 ?s" by (simp add: user_task_def context_word_def caller_task_def)
  moreover have "IS_USER_MEMORY 0x1000 (tasks ?s 0x2000) ?s"
    by (simp add: IS_USER_MEMORY_def caller_task_def call_memory_def arch_table_manager_translate_to_physical_def
      arch_table_manager_get_next_layer_def arch_table_manager_get_address_def table_index_def entry_present_def Let_def)
  moreover have "fd_node (tasks ?s 0x2000) 0 ?s = 0xA000" by (simp add: fd_node_def fd_slot_def caller_task_def)
  moreover have "console_ok dot_font ?s"
    by (simp add: console_ok_def screen_ok_def font_fits_def dot_font_ok dot_font_sizes small_screen_def)
  moreover have "off_screen (main_framebuffer ?s) (0x1800 + of_nat i)" if "i \<le> 2" for i
    using off [of "0x800 + i"] that by (simp add: algebra_simps)
  moreover have "off_screen (main_framebuffer ?s) (0x1000 + of_nat i)" if "i < unat (1 :: u64)" for i using off [of 0] that by simp
  ultimately obtain s' where s': "arch_syscall_entry 1 (console_ops 1 0 dot_font 0x3000 0x1800 0x66) write_registers ?s =
      Inr (Sysret \<lparr>ret_rip = reg_rcx write_registers, ret_rflags = reg_r11 write_registers, ret_rsp = reg_rsp write_registers, ret_rax = 1\<rparr> s')"
    "terminal_of s' = fold (term_put dot_font small_screen 0xFFFFFF) (bytes_at (heap_bytes ?s) 0x1000 1) (terminal_of ?s)"
    using user_write_reaches_screen [of "0x2000" ?s write_registers 0 "0x1000" 1 "0xA000" "0x77" "0x66" dot_font "0x1800" 1 1 0 "0x3000"]
    by (auto simp: write_registers_def zero_cpu_state_def zero_node_def dot_font_sizes)
  have "terminal_of s' = term_put dot_font small_screen 0xFFFFFF 0x41 (terminal_of ?s)"
    unfolding s'(2) by (simp add: bytes_at_def)
  moreover have "term_x (terminal_of ?s) = 0" "term_y (terminal_of ?s) = 0" by (simp_all add: term_of_simps)
  ultimately show ?thesis using s'(1) term_put_dot [of "terminal_of ?s"] by (auto simp: write_registers_def)
qed

end
